(* ===== verification/Prelude.thy ===== *)
theory Prelude
  imports Main "HOL-Library.Word" "HOL-Library.Monad_Syntax"
begin

unbundle bit_operations_syntax

text \<open>
  What every component shares: the reading of C values (characters, 32-bit integers,
  memory seen through a pointer), the outcome type of a C function that may stop the
  process, and generic lemmas on lists and words.  The named collections gather the facts
  the component proofs rewrite with: \<open>c_mem\<close> for memory and string copies, \<open>c_int\<close> for
  machine integers, \<open>queue_refine\<close> for the ring buffer.
\<close>

named_theorems c_mem \<open>reads and copies of C memory\<close>
named_theorems c_int \<open>32-bit signed arithmetic\<close>
named_theorems queue_refine \<open>ring buffer operations against the list they represent\<close>

subsection \<open>Characters and signed integers\<close>

text \<open>
  \<open>char\<close> is signed on the platform the Makefile targets (gcc, x86-64): \<open>schar c\<close> is
  the value of a \<open>char\<close> in an arithmetic expression.  \<open>i32\<close> is the value an \<open>int\<close>
  keeps of a mathematical integer (two's complement, 32 bits).
\<close>

definition schar :: "char \<Rightarrow> int" where
  "schar c = sint (of_char c :: 8 word)"

definition i32 :: "int \<Rightarrow> int" where
  "i32 x = signed_take_bit 31 x"

lemma i32_id [c_int]: "- (2 ^ 31) \<le> x \<Longrightarrow> x < 2 ^ 31 \<Longrightarrow> i32 x = x"
  unfolding i32_def by (rule signed_take_bit_int_eq_self) auto

lemma i32_range: "- (2 ^ 31) \<le> i32 x \<and> i32 x < 2 ^ 31"
  unfolding i32_def
  using signed_take_bit_int_greater_eq_minus_exp [of 31 x]
    signed_take_bit_int_less_exp [of 31 x] by simp

lemma i32_wrap: "i32 (2 ^ 31) = - (2 ^ 31)"
  by (simp add: i32_def signed_take_bit_eq_take_bit_shift)

text \<open>The decimal digits \<open>printf\<close> writes for a number.\<close>

fun decimal :: "nat \<Rightarrow> string" where
  "decimal n = (if n < 10 then [char_of (48 + n)] else decimal (n div 10) @ [char_of (48 + n mod 10)])"

declare decimal.simps [simp del]

subsection \<open>Outcomes of a C function\<close>

text \<open>
  A call either returns or never comes back: it leaves the process by \<open>exit\<close>, does something
  the C standard leaves undefined (a null or freed pointer, a division by zero, a copy of
  negative length), or waits for ever.  \<open>andThen\<close> runs a continuation on what a call returns.
\<close>

datatype fault = Exit | Undefined | Blocked

type_synonym 'a outcome = "fault + 'a"

definition andThen :: "'a outcome \<Rightarrow> ('a \<Rightarrow> 'b outcome) \<Rightarrow> 'b outcome" where
  "andThen r f = (case r of Inl e \<Rightarrow> Inl e | Inr a \<Rightarrow> f a)"

lemma andThen_simps [simp]: "andThen (Inl e) f = Inl e" "andThen (Inr a) f = f a"
  by (simp_all add: andThen_def)

lemma andThen_assoc: "andThen (andThen r f) g = andThen r (\<lambda>a. andThen (f a) g)"
  by (cases r) simp_all

lemma andThen_Inr_iff: "andThen r f = Inr b \<longleftrightarrow> (\<exists>a. r = Inr a \<and> f a = Inr b)"
  by (cases r) simp_all

definition of_opt :: "fault \<Rightarrow> 'a option \<Rightarrow> 'a outcome" where
  "of_opt e r = (case r of None \<Rightarrow> Inl e | Some a \<Rightarrow> Inr a)"

lemma of_opt_simps [simp]: "of_opt e None = Inl e" "of_opt e (Some a) = Inr a"
  by (simp_all add: of_opt_def)

subsection \<open>Runs of calls and their simulation\<close>

text \<open>
  A component is driven by a list of calls.  \<open>run_calls\<close> runs them on the model (a call that
  does not return makes the run \<open>None\<close>), \<open>run_spec\<close> on the abstract state.
\<close>

fun run_calls :: "('op \<Rightarrow> 's \<Rightarrow> ('out \<times> 's) option) \<Rightarrow> 'op list \<Rightarrow> 's \<Rightarrow> ('out list \<times> 's) option" where
  "run_calls step [] s = Some ([], s)"
| "run_calls step (x # xs) s = do {
     (r, s1) \<leftarrow> step x s;
     (rs, s2) \<leftarrow> run_calls step xs s1;
     Some (r # rs, s2)
   }"

fun run_spec :: "('op \<Rightarrow> 'a \<Rightarrow> 'out \<times> 'a) \<Rightarrow> 'op list \<Rightarrow> 'a \<Rightarrow> 'out list \<times> 'a" where
  "run_spec spec [] a = ([], a)"
| "run_spec spec (x # xs) a =
     (let (r, a1) = spec x a; (rs, a2) = run_spec spec xs a1 in (r # rs, a2))"

text \<open>
  The contract of a component with an abstraction function: from a state of the invariant
  every call returns, answers as the abstract state does, and keeps the two related.
\<close>

locale simulation =
  fixes step :: "'op \<Rightarrow> 's \<Rightarrow> ('out \<times> 's) option"
    and spec :: "'op \<Rightarrow> 'a \<Rightarrow> 'out \<times> 'a"
    and inv :: "'s \<Rightarrow> bool"
    and absf :: "'s \<Rightarrow> 'a"
  assumes step_sim:
    "inv s \<Longrightarrow> \<exists>s'. step x s = Some (fst (spec x (absf s)), s') \<and> inv s' \<and>
                  absf s' = snd (spec x (absf s))"
begin

lemma run_sim:
  "inv s \<Longrightarrow> \<exists>s'. run_calls step xs s = Some (fst (run_spec spec xs (absf s)), s') \<and> inv s' \<and>
               absf s' = snd (run_spec spec xs (absf s))"
proof (induction xs arbitrary: s)
  case Nil
  then show ?case by simp
next
  case (Cons x xs)
  obtain s1 where s1: "step x s = Some (fst (spec x (absf s)), s1)" "inv s1"
      "absf s1 = snd (spec x (absf s))"
    using step_sim [OF Cons.prems] by blast
  obtain s2 where "run_calls step xs s1 = Some (fst (run_spec spec xs (absf s1)), s2)" "inv s2"
      "absf s2 = snd (run_spec spec xs (absf s1))"
    using Cons.IH [OF s1(2)] by blast
  with s1 show ?case by (simp add: Let_def split: prod.splits)
qed

end

end
