(* ===== verification/CirQueue.thy ===== *)
theory CirQueue
  imports Prelude
begin

text \<open>
  The circular queue of \<^verbatim>\<open>proxy/cir_queue.c\<close>: the keys whose values the proxy has asked the
  slave for, in the order of the questions.  The array, its two indices and the counter are
  the fields of \<open>cir_queue_t\<close>; the global semaphore \<open>queue_sem\<close> stands beside it.  A
  function returns \<open>None\<close> when it never returns: it waits on an exhausted semaphore or its
  loop does not end.  The second half states the queue as a bounded list and proves that
  every sequence of calls answers as that list does.
\<close>

subsection \<open>State and operations\<close>

definition QUE_SIZE :: nat where
  "QUE_SIZE = 4096"

text \<open>A \<open>char *\<close>: \<open>None\<close> is the null pointer, \<open>Some s\<close> points to the C string \<open>s\<close>.\<close>

type_synonym DataType = "string option"

record cir_queue_t =
  qdata :: "DataType list"
  front :: nat
  rear :: nat
  count :: int

record queue_env =
  queue_sem :: nat
  q :: cir_queue_t

definition sem_wait :: "nat \<Rightarrow> nat option" where
  "sem_wait s = (if s = 0 then None else Some (s - 1))"

definition sem_post :: "nat \<Rightarrow> nat" where
  "sem_post s = s + 1"

definition init_cir_queue :: queue_env where
  "init_cir_queue =
     \<lparr>queue_sem = QUE_SIZE,
      q = \<lparr>qdata = replicate QUE_SIZE None, front = 0, rear = 0, count = 0\<rparr>\<rparr>"

definition is_empty_cir_queue :: "queue_env \<Rightarrow> (bool \<times> queue_env) option" where
  "is_empty_cir_queue s = do {
     w \<leftarrow> sem_wait (queue_sem s);
     let empty_flag = (front (q s) = rear (q s));
     Some (empty_flag, s\<lparr>queue_sem := sem_post w\<rparr>)
   }"

definition is_full_cir_queue :: "queue_env \<Rightarrow> (bool \<times> queue_env) option" where
  "is_full_cir_queue s = do {
     w \<leftarrow> sem_wait (queue_sem s);
     let full_flag = (count (q s) = int QUE_SIZE - 1);
     Some (full_flag, s\<lparr>queue_sem := sem_post w\<rparr>)
   }"

definition push_cir_queue :: "DataType \<Rightarrow> queue_env \<Rightarrow> queue_env option" where
  "push_cir_queue x s = do {
     (full, s1) \<leftarrow> is_full_cir_queue s;
     if full then Some s1
     else do {
       w \<leftarrow> sem_wait (queue_sem s1);
       let c = q s1;
       let c = c\<lparr>count := count c + 1\<rparr>;
       let c = c\<lparr>qdata := (qdata c)[rear c := x]\<rparr>;
       let c = c\<lparr>rear := (rear c + 1) mod QUE_SIZE\<rparr>;
       Some \<lparr>queue_sem = sem_post w, q = c\<rparr>
     }
   }"

text \<open>The body shared by \<open>pop_cir_queue\<close> and the loop of \<open>clear_queue\<close>.\<close>

definition drop_front :: "cir_queue_t \<Rightarrow> cir_queue_t" where
  "drop_front c =
     (let c = c\<lparr>qdata := (qdata c)[front c := None]\<rparr>;
          c = c\<lparr>count := count c - 1\<rparr>
      in c\<lparr>front := (front c + 1) mod QUE_SIZE\<rparr>)"

definition pop_cir_queue :: "queue_env \<Rightarrow> (DataType \<times> queue_env) option" where
  "pop_cir_queue s = do {
     (empty, s1) \<leftarrow> is_empty_cir_queue s;
     if empty then Some (None, s1)
     else do {
       w \<leftarrow> sem_wait (queue_sem s1);
       let temp = qdata (q s1) ! front (q s1);
       Some (temp, \<lparr>queue_sem = sem_post w, q = drop_front (q s1)\<rparr>)
     }
   }"

definition top_cir_queue :: "queue_env \<Rightarrow> (DataType \<times> queue_env) option" where
  "top_cir_queue s = do {
     (empty, s1) \<leftarrow> is_empty_cir_queue s;
     if empty then Some (None, s1)
     else do {
       w \<leftarrow> sem_wait (queue_sem s1);
       let x = qdata (q s1) ! front (q s1);
       Some (x, s1\<lparr>queue_sem := sem_post w\<rparr>)
     }
   }"

text \<open>The loop of \<open>clear_queue\<close> runs with one unit of the semaphore already taken.\<close>

partial_function (option) clear_loop :: "queue_env \<Rightarrow> queue_env option" where
  "clear_loop s =
     Option.bind (is_empty_cir_queue s)
       (\<lambda>(empty, s1). if empty then Some s1 else clear_loop (s1\<lparr>q := drop_front (q s1)\<rparr>))"

definition clear_queue :: "queue_env \<Rightarrow> queue_env option" where
  "clear_queue s = do {
     w \<leftarrow> sem_wait (queue_sem s);
     s1 \<leftarrow> clear_loop (s\<lparr>queue_sem := w\<rparr>);
     Some (s1\<lparr>queue_sem := sem_post (queue_sem s1)\<rparr>)
   }"

text \<open>\<open>printf\<close> of a null pointer as \<open>%s\<close> is undefined, and so is the semaphore after \<open>sem_destroy\<close>.\<close>

fun print_slots :: "DataType list \<Rightarrow> string outcome" where
  "print_slots [] = Inr ''''"
| "print_slots (None # xs) = Inl Undefined"
| "print_slots (Some s # xs) = andThen (print_slots xs) (\<lambda>out. Inr ('' '' @ s @ '' '' @ out))"

definition print_queue :: "queue_env \<Rightarrow> (string \<times> queue_env) outcome option" where
  "print_queue s = do {
     (empty, s1) \<leftarrow> is_empty_cir_queue s;
     if empty then Some (Inr (''queue is empty.'' @ [CHR 0x0A], s1))
     else do {
       w \<leftarrow> sem_wait (queue_sem s1);
       Some (andThen (print_slots (qdata (q s1))) (\<lambda>out.
         Inr (''QUEUE: '' @ out @ [CHR 0x0A], s1\<lparr>queue_sem := sem_post w\<rparr>)))
     }
   }"

definition destroy_cir_queue :: "queue_env \<Rightarrow> cir_queue_t" where
  "destroy_cir_queue s = q s"

subsection \<open>The list a queue represents, and its invariant\<close>

definition queue_cap :: nat where
  "queue_cap = QUE_SIZE - 1"

definition queue_list :: "cir_queue_t \<Rightarrow> DataType list" where
  "queue_list c = map (\<lambda>i. qdata c ! ((front c + i) mod QUE_SIZE)) [0..<nat (count c)]"

definition queue_wf :: "cir_queue_t \<Rightarrow> bool" where
  "queue_wf c \<longleftrightarrow>
     length (qdata c) = QUE_SIZE \<and> front c < QUE_SIZE \<and>
     0 \<le> count c \<and> nat (count c) < QUE_SIZE \<and>
     rear c = (front c + nat (count c)) mod QUE_SIZE \<and>
     (\<forall>i. nat (count c) \<le> i \<longrightarrow> i < QUE_SIZE \<longrightarrow> qdata c ! ((front c + i) mod QUE_SIZE) = None)"

text \<open>Two units are enough: \<open>clear_queue\<close> takes one more inside its own.\<close>

definition env_wf :: "queue_env \<Rightarrow> bool" where
  "env_wf s \<longleftrightarrow> 2 \<le> queue_sem s \<and> queue_wf (q s)"

abbreviation env_list :: "queue_env \<Rightarrow> DataType list" where
  "env_list s \<equiv> queue_list (q s)"

lemma QUE_SIZE_pos [simp]: "0 < QUE_SIZE" "Suc 0 < QUE_SIZE"
  by (simp_all add: QUE_SIZE_def)

lemma length_queue_list [simp]: "length (queue_list c) = nat (count c)"
  by (simp add: queue_list_def)

lemma ring_index: "f < n \<Longrightarrow> i \<le> n \<Longrightarrow> (f + i) mod n = (if f + i < n then f + i else f + i - n)"
  for n :: nat
  by (simp add: mod_if)

lemma ring_index_inj:
  "f < n \<Longrightarrow> i < n \<Longrightarrow> j < n \<Longrightarrow> (f + i) mod n = (f + j) mod n \<Longrightarrow> i = j" for n :: nat
  by (auto simp: ring_index split: if_splits)

lemma ring_index_Suc: "((f + 1) mod n + i) mod n = (f + Suc i) mod n" for n :: nat
  by (simp add: mod_simps)

lemma queue_wf_empty_iff:
  assumes wf: "queue_wf c"
  shows "front c = rear c \<longleftrightarrow> queue_list c = []"
proof -
  have f: "front c < QUE_SIZE" and n: "nat (count c) < QUE_SIZE"
    and r: "rear c = (front c + nat (count c)) mod QUE_SIZE"
    using wf by (auto simp: queue_wf_def)
  have "front c = rear c \<longleftrightarrow> nat (count c) = 0"
    unfolding r ring_index [OF f less_imp_le [OF n]] using f n by auto
  then show ?thesis by (simp add: queue_list_def)
qed

lemma queue_wf_full_iff:
  "queue_wf c \<Longrightarrow> count c = int QUE_SIZE - 1 \<longleftrightarrow> length (queue_list c) = queue_cap"
  using QUE_SIZE_pos by (auto simp: queue_wf_def queue_cap_def)

lemma queue_list_nonempty:
  "queue_wf c \<Longrightarrow> queue_list c \<noteq> [] \<Longrightarrow> 0 < count c"
  by (auto simp: queue_wf_def queue_list_def)

text \<open>The state after a push into a queue with room.\<close>

definition put_rear :: "DataType \<Rightarrow> cir_queue_t \<Rightarrow> cir_queue_t" where
  "put_rear x c = c\<lparr>qdata := (qdata c)[rear c := x], rear := (rear c + 1) mod QUE_SIZE,
                    count := count c + 1\<rparr>"

lemma queue_list_put_rear:
  assumes wf: "queue_wf c" and room: "length (queue_list c) < queue_cap"
  shows "queue_list (put_rear x c) = queue_list c @ [x]"
proof -
  let ?n = "nat (count c)"
  have n: "nat (count c + 1) = Suc ?n" and lt: "Suc ?n < QUE_SIZE"
    and r: "rear c = (front c + ?n) mod QUE_SIZE" and len: "length (qdata c) = QUE_SIZE"
    and f: "front c < QUE_SIZE"
    using wf room by (auto simp: queue_wf_def queue_cap_def)
  have "(front c + i) mod QUE_SIZE \<noteq> rear c" if "i < ?n" for i
    using ring_index_inj [OF f, of i ?n] that lt r by auto
  then have "map (\<lambda>i. (qdata c)[rear c := x] ! ((front c + i) mod QUE_SIZE)) [0..<?n]
      = map (\<lambda>i. qdata c ! ((front c + i) mod QUE_SIZE)) [0..<?n]"
    by (intro map_cong refl) (simp add: nth_list_update_neq [OF not_sym])
  then show ?thesis
    using r len by (simp add: queue_list_def put_rear_def n)
qed

lemma queue_wf_put_rear:
  assumes wf: "queue_wf c" and room: "length (queue_list c) < queue_cap"
  shows "queue_wf (put_rear x c)"
proof -
  have n: "nat (count c + 1) = Suc (nat (count c))" and f: "front c < QUE_SIZE" and lt: "nat (count c) < QUE_SIZE"
    and r: "rear c = (front c + nat (count c)) mod QUE_SIZE"
    using wf by (auto simp: queue_wf_def)
  have "(front c + i) mod QUE_SIZE \<noteq> rear c" if "Suc (nat (count c)) \<le> i" "i < QUE_SIZE" for i
    using ring_index_inj [OF f, of i "nat (count c)"] that lt r by auto
  then have "(qdata c)[rear c := x] ! ((front c + i) mod QUE_SIZE) = None"
    if "Suc (nat (count c)) \<le> i" "i < QUE_SIZE" for i
    using that wf by (auto simp: nth_list_update_neq [OF not_sym] queue_wf_def)
  then show ?thesis
    using wf room by (auto simp: queue_wf_def put_rear_def queue_cap_def n mod_simps)
qed

lemma queue_list_drop_front:
  assumes wf: "queue_wf c" and ne: "queue_list c \<noteq> []"
  shows "queue_list (drop_front c) = tl (queue_list c)"
    and "qdata c ! front c = hd (queue_list c)"
proof -
  let ?n = "nat (count c - 1)"
  have n: "nat (count c) = Suc ?n" and lt: "Suc ?n < QUE_SIZE"
    and len: "length (qdata c) = QUE_SIZE" and f: "front c < QUE_SIZE"
    using wf queue_list_nonempty [OF wf ne] by (auto simp: queue_wf_def)
  have "(front c + Suc i) mod QUE_SIZE \<noteq> front c" if "i < ?n" for i
    using ring_index_inj [OF f, of "Suc i" 0] that lt f by auto
  then have "map (\<lambda>i. (qdata c)[front c := None] ! ((front c + Suc i) mod QUE_SIZE)) [0..<?n]
      = map (\<lambda>i. qdata c ! ((front c + Suc i) mod QUE_SIZE)) [0..<?n]"
    by (intro map_cong refl) (simp add: nth_list_update_neq [OF not_sym])
  moreover have "queue_list c = map (\<lambda>i. qdata c ! ((front c + i) mod QUE_SIZE)) (0 # map Suc [0..<?n])"
    by (simp add: queue_list_def n map_Suc_upt upt_conv_Cons del: upt_Suc)
  ultimately show "queue_list (drop_front c) = tl (queue_list c)"
    and "qdata c ! front c = hd (queue_list c)"
    using f by (simp_all add: queue_list_def drop_front_def Let_def ring_index_Suc [simplified] o_def)
qed

lemma queue_wf_drop_front:
  assumes wf: "queue_wf c" and ne: "queue_list c \<noteq> []"
  shows "queue_wf (drop_front c)"
proof -
  have n: "nat (count c) = Suc (nat (count c - 1))"
    using queue_list_nonempty [OF wf ne] by simp
  have f: "front c < QUE_SIZE" and len: "length (qdata c) = QUE_SIZE" using wf by (auto simp: queue_wf_def)
  have "(qdata c)[front c := None] ! ((front c + Suc i) mod QUE_SIZE) = None"
    if "nat (count c - 1) \<le> i" "i < QUE_SIZE" for i
  proof (cases "(front c + Suc i) mod QUE_SIZE = front c")
    case True
    then show ?thesis using f len by simp
  next
    case False
    then have "Suc i < QUE_SIZE" using that(2) f by (cases "Suc i = QUE_SIZE") auto
    moreover have "nat (count c) \<le> Suc i" using that(1) n by simp
    ultimately have "qdata c ! ((front c + Suc i) mod QUE_SIZE) = None" using wf unfolding queue_wf_def by blast
    then show ?thesis unfolding nth_list_update_neq [OF False [symmetric]] .
  qed
  then show ?thesis
    using wf queue_list_nonempty [OF wf ne] n
    by (auto simp: queue_wf_def drop_front_def Let_def ring_index_Suc [simplified])
qed

subsection \<open>Every operation on the list\<close>

lemma sem_wait_pos [simp]: "0 < n \<Longrightarrow> sem_wait n = Some (n - 1)"
  by (simp add: sem_wait_def)

lemma is_empty_env [queue_refine]:
  "env_wf s \<Longrightarrow> is_empty_cir_queue s = Some (env_list s = [], s)"
  by (simp add: is_empty_cir_queue_def env_wf_def sem_post_def queue_wf_empty_iff)

lemma is_full_env [queue_refine]:
  "env_wf s \<Longrightarrow> is_full_cir_queue s = Some (length (env_list s) = queue_cap, s)"
  by (simp add: is_full_cir_queue_def env_wf_def sem_post_def queue_wf_full_iff
      del: length_queue_list)

lemma push_env [queue_refine]:
  "env_wf s \<Longrightarrow> push_cir_queue x s =
     Some (if length (env_list s) = queue_cap then s else s\<lparr>q := put_rear x (q s)\<rparr>)"
  by (simp add: push_cir_queue_def is_full_env del: length_queue_list)
    (simp add: env_wf_def sem_post_def put_rear_def Let_def)

lemma pop_env [queue_refine]:
  "env_wf s \<Longrightarrow> pop_cir_queue s =
     Some (if env_list s = [] then (None, s)
           else (hd (env_list s), s\<lparr>q := drop_front (q s)\<rparr>))"
  by (simp add: pop_cir_queue_def is_empty_env)
    (simp add: env_wf_def sem_post_def queue_list_drop_front)

lemma top_env [queue_refine]:
  "env_wf s \<Longrightarrow> top_cir_queue s =
     Some (if env_list s = [] then None else hd (env_list s), s)"
  by (simp add: top_cir_queue_def is_empty_env)
    (simp add: env_wf_def sem_post_def queue_list_drop_front)

lemma env_wf_put_rear:
  "env_wf s \<Longrightarrow> length (env_list s) < queue_cap \<Longrightarrow> env_wf (s\<lparr>q := put_rear x (q s)\<rparr>)"
  by (simp add: env_wf_def queue_wf_put_rear del: length_queue_list)

lemma env_wf_drop_front:
  "env_wf s \<Longrightarrow> env_list s \<noteq> [] \<Longrightarrow> env_wf (s\<lparr>q := drop_front (q s)\<rparr>)"
  by (simp add: env_wf_def queue_wf_drop_front)

lemma queue_wf_bound: "queue_wf c \<Longrightarrow> length (queue_list c) \<le> queue_cap"
  using QUE_SIZE_pos by (auto simp: queue_wf_def queue_cap_def)

text \<open>
  The loop of \<open>clear_queue\<close> ends: every turn shortens the list.  Inside, one unit of the
  semaphore is missing, which is why two are asked for.
\<close>

lemma clear_loop_ends:
  "queue_wf (q s) \<Longrightarrow> 0 < queue_sem s \<Longrightarrow>
   \<exists>c. clear_loop s = Some (s\<lparr>q := c\<rparr>) \<and> queue_wf c \<and> queue_list c = []"
proof (induction "length (env_list s)" arbitrary: s)
  case 0
  then have "is_empty_cir_queue s = Some (True, s)"
    by (simp add: is_empty_cir_queue_def sem_post_def queue_wf_empty_iff)
      (simp flip: length_0_conv)
  moreover have "env_list s = []" using 0 by (simp flip: length_0_conv)
  ultimately show ?case using 0 by (subst clear_loop.simps) (auto intro: exI [of _ "q s"])
next
  case (Suc n)
  then have ne: "env_list s \<noteq> []" by (metis list.size(3) nat.distinct(1))
  let ?s = "s\<lparr>q := drop_front (q s)\<rparr>"
  have "is_empty_cir_queue s = Some (False, s)"
    using Suc.prems ne by (simp add: is_empty_cir_queue_def sem_post_def queue_wf_empty_iff)
  moreover have "n = length (env_list ?s)"
    using Suc.hyps(2) Suc.prems ne
    by (simp add: queue_list_drop_front(1) del: length_queue_list)
  then have "\<exists>c. clear_loop ?s = Some (?s\<lparr>q := c\<rparr>) \<and> queue_wf c \<and> queue_list c = []"
    using Suc.hyps(1) [of ?s] Suc.prems ne by (simp add: queue_wf_drop_front)
  ultimately show ?case by (subst clear_loop.simps) auto
qed

lemma clear_env [queue_refine]:
  assumes "env_wf s"
  shows "\<exists>c. clear_queue s = Some (s\<lparr>q := c\<rparr>) \<and> queue_wf c \<and> queue_list c = []"
proof -
  let ?s = "s\<lparr>queue_sem := queue_sem s - 1\<rparr>"
  obtain c where "clear_loop ?s = Some (?s\<lparr>q := c\<rparr>)" "queue_wf c" "queue_list c = []"
    using clear_loop_ends [of ?s] assms by (auto simp: env_wf_def)
  then show ?thesis
    using assms by (auto simp: clear_queue_def env_wf_def sem_post_def)
qed

lemma init_env: "env_wf init_cir_queue" "env_list init_cir_queue = []"
  by (simp_all add: env_wf_def queue_wf_def queue_list_def init_cir_queue_def QUE_SIZE_def)

subsection \<open>The bounded list as the specification\<close>

datatype queue_op = Push DataType | Pop | Top | IsEmpty | IsFull | Clear

datatype queue_out = Done | Item DataType | Flag bool

fun queue_call :: "queue_op \<Rightarrow> queue_env \<Rightarrow> (queue_out \<times> queue_env) option" where
  "queue_call (Push x) s = map_option (Pair Done) (push_cir_queue x s)"
| "queue_call Pop s = map_option (apfst Item) (pop_cir_queue s)"
| "queue_call Top s = map_option (apfst Item) (top_cir_queue s)"
| "queue_call IsEmpty s = map_option (apfst Flag) (is_empty_cir_queue s)"
| "queue_call IsFull s = map_option (apfst Flag) (is_full_cir_queue s)"
| "queue_call Clear s = map_option (Pair Done) (clear_queue s)"

fun fifo_call :: "queue_op \<Rightarrow> DataType list \<Rightarrow> queue_out \<times> DataType list" where
  "fifo_call (Push x) xs = (Done, if length xs = queue_cap then xs else xs @ [x])"
| "fifo_call Pop xs = (case xs of [] \<Rightarrow> (Item None, []) | x # ys \<Rightarrow> (Item x, ys))"
| "fifo_call Top xs = (Item (case xs of [] \<Rightarrow> None | x # ys \<Rightarrow> x), xs)"
| "fifo_call IsEmpty xs = (Flag (xs = []), xs)"
| "fifo_call IsFull xs = (Flag (length xs = queue_cap), xs)"
| "fifo_call Clear xs = (Done, [])"

lemma queue_call_sim:
  assumes wf: "env_wf s"
  shows "\<exists>s'. queue_call x s = Some (fst (fifo_call x (env_list s)), s') \<and> env_wf s' \<and>
              env_list s' = snd (fifo_call x (env_list s))"
proof (cases x)
  case (Push y)
  have "length (env_list s) < queue_cap" if "length (env_list s) \<noteq> queue_cap"
    using that wf queue_wf_bound [of "q s"] by (simp add: env_wf_def)
  then show ?thesis
    using wf Push
    by (auto simp: push_env queue_wf_put_rear queue_list_put_rear env_wf_def
        simp del: length_queue_list)
next
  case Pop
  show ?thesis
  proof (cases "env_list s")
    case Nil
    then show ?thesis using wf Pop by (simp add: pop_env)
  next
    case (Cons y ys)
    then show ?thesis
      using wf Pop env_wf_drop_front [OF wf] queue_list_drop_front(1) [of "q s"]
      by (simp add: pop_env env_wf_def)
  qed
next
  case Clear
  then show ?thesis using wf clear_env [OF wf] by (auto simp: env_wf_def)
qed (use wf in \<open>auto simp: top_env is_empty_env is_full_env simp del: length_queue_list
                   split: list.splits\<close>)

interpretation queue: simulation queue_call fifo_call env_wf env_list
  by unfold_locales (rule queue_call_sim)

text \<open>
  C22. The queue of \<^verbatim>\<open>cir_queue.c\<close> is a bounded first-in first-out list: after
  \<open>init_cir_queue\<close>, any sequence of pushes, pops, tops, emptiness and fullness tests and
  clears returns (no call blocks on the semaphore or loops), every call answers as the list
  of at most 4095 pointers does, a push into a full queue is dropped, and the ring represents
  the list at the end.
\<close>

theorem cir_queue_is_bounded_fifo:
  "\<exists>s. run_calls queue_call ops init_cir_queue = Some (fst (run_spec fifo_call ops []), s) \<and>
       env_list s = snd (run_spec fifo_call ops [])"
  using queue.run_sim [OF init_env(1), of ops] by (auto simp: init_env(2))

text \<open>
  \<open>print_queue\<close> prints the whole array, and one slot of the ring is always free: whenever there is
  something to print, it hands \<open>printf\<close> a null pointer.
\<close>

lemma print_slots_null: "None \<in> set xs \<Longrightarrow> print_slots xs = Inl Undefined"
  by (induction xs rule: print_slots.induct) auto

lemma queue_wf_free_slot:
  assumes "queue_wf c"
  shows "None \<in> set (qdata c)"
proof -
  have "qdata c ! ((front c + nat (count c)) mod QUE_SIZE) = None" "length (qdata c) = QUE_SIZE"
    using assms by (auto simp: queue_wf_def)
  then show ?thesis using nth_mem [of "(front c + nat (count c)) mod QUE_SIZE" "qdata c"] by auto
qed

theorem print_queue_passes_null:
  assumes "run_calls queue_call ops init_cir_queue = Some (out, s)" and "env_list s \<noteq> []"
  shows "print_queue s = Some (Inl Undefined)"
proof -
  have "env_wf s" using queue.run_sim [OF init_env(1), of ops] assms(1) by auto
  then show ?thesis
    using assms(2) by (simp add: print_queue_def is_empty_env print_slots_null queue_wf_free_slot env_wf_def)
qed

end
