(* ===== verification/HashTable.thy ===== *)
theory HashTable
  imports Prelude
begin

text \<open>
  The chained hash table of \<^verbatim>\<open>proxy/hash_table.c\<close>, which maps a file server to its backup.
  A bin is the list of its entries in the order of the \<open>next\<close> pointers.  Two things the code
  leaves to its surroundings are arguments of the model: the value the uninitialised local
  \<open>hashval\<close> of \<open>ht_hash\<close> happens to have (\<open>h0\<close>), and whether each allocation succeeds.  A
  function that dereferences a null pointer returns \<open>None\<close>.  The main result is that on the
  table the proxy creates (65536 bins) the garbage in \<open>hashval\<close> cannot be observed for ASCII
  keys of two characters or more, unless it is \<open>ULONG_MAX\<close>; there the table is a map.
\<close>

subsection \<open>The code\<close>

text \<open>\<open>strcmp\<close> compares as unsigned characters; only the sign of its result is specified.\<close>

fun strcmp :: "string \<Rightarrow> string \<Rightarrow> int" where
  "strcmp [] [] = 0"
| "strcmp [] (d # ds) = -1"
| "strcmp (c # cs) [] = 1"
| "strcmp (c # cs) (d # ds) =
     (if c = d then strcmp cs ds
      else if (of_char c :: nat) < of_char d then -1 else 1)"

record entry_s =
  ekey :: string
  evalue :: "string option"

record hashtable_s =
  ht_size :: int
  ht_table :: "entry_s list list"

definition ht_create :: "bool \<Rightarrow> bool \<Rightarrow> int \<Rightarrow> hashtable_s option" where
  "ht_create malloc1 malloc2 sz =
     (if sz < 1 then None
      else if \<not> malloc1 then None
      else if \<not> malloc2 then None
      else Some \<lparr>ht_size = sz, ht_table = replicate (nat sz) []\<rparr>)"

definition ULONG_MAX :: "64 word" where
  "ULONG_MAX = 0xFFFFFFFFFFFFFFFF"

text \<open>The loop of \<open>ht_hash\<close> on the characters that are left.\<close>

fun hash_loop :: "64 word \<Rightarrow> string \<Rightarrow> 64 word" where
  "hash_loop hashval [] = hashval"
| "hash_loop hashval (c # cs) =
     (if hashval < ULONG_MAX then hash_loop (push_bit 8 hashval + of_int (schar c)) cs
      else hashval)"

definition ht_hash :: "64 word \<Rightarrow> hashtable_s \<Rightarrow> string \<Rightarrow> int" where
  "ht_hash h0 hashtable key = uint (hash_loop h0 key) mod ht_size hashtable"

text \<open>\<open>malloc\<close> and the two \<open>strdup\<close> of a new pair.\<close>

definition ht_newpair :: "bool \<times> bool \<times> bool \<Rightarrow> string \<Rightarrow> string \<Rightarrow> entry_s option" where
  "ht_newpair alloc key value =
     (case alloc of (m, d1, d2) \<Rightarrow>
        if \<not> m then None
        else if \<not> d1 then None
        else if \<not> d2 then None
        else Some \<lparr>ekey = key, evalue = Some value\<rparr>)"

definition ht_set ::
  "64 word \<Rightarrow> bool \<times> bool \<times> bool \<Rightarrow> hashtable_s \<Rightarrow> string \<Rightarrow> string \<Rightarrow> hashtable_s option" where
  "ht_set h0 alloc hashtable key value =
     (let bin = nat (ht_hash h0 hashtable key);
          bucket = ht_table hashtable ! bin;
          before = takeWhile (\<lambda>e. strcmp key (ekey e) > 0) bucket;
          next = dropWhile (\<lambda>e. strcmp key (ekey e) > 0) bucket;
          store = (\<lambda>b. Some (hashtable\<lparr>ht_table := (ht_table hashtable)[bin := b]\<rparr>))
      in case next of
           e # rest \<Rightarrow>
             if strcmp key (ekey e) = 0
             then store (before @ e\<lparr>evalue := (if fst alloc then Some value else None)\<rparr> # rest)
             else (case ht_newpair alloc key value of
                     None \<Rightarrow> None
                   | Some newpair \<Rightarrow> store (before @ newpair # e # rest))
         | [] \<Rightarrow>
             (case ht_newpair alloc key value of
                None \<Rightarrow> if before = [] then None else store before
              | Some newpair \<Rightarrow> store (before @ [newpair])))"

definition ht_get :: "64 word \<Rightarrow> hashtable_s \<Rightarrow> string \<Rightarrow> string option" where
  "ht_get h0 hashtable key =
     (let bin = nat (ht_hash h0 hashtable key)
      in case dropWhile (\<lambda>e. strcmp key (ekey e) > 0) (ht_table hashtable ! bin) of
           [] \<Rightarrow> None
         | e # rest \<Rightarrow> if strcmp key (ekey e) \<noteq> 0 then None else evalue e)"

subsection \<open>strcmp is a linear order\<close>

lemma strcmp_0_iff [simp]: "strcmp a b = 0 \<longleftrightarrow> a = b"
  by (induction a b rule: strcmp.induct) auto

lemma strcmp_refl [simp]: "strcmp a a = 0"
  by simp

lemma strcmp_sign: "strcmp a b = -1 \<or> strcmp a b = 0 \<or> strcmp a b = 1"
  by (induction a b rule: strcmp.induct) auto

lemma strcmp_antisym: "strcmp b a = - strcmp a b"
proof (induction a b rule: strcmp.induct)
  case (4 c cs d ds)
  then show ?case
    by (auto simp: not_less)
qed auto

lemma strcmp_Nil_pos [simp]: "\<not> 0 < strcmp [] c"
  by (cases c) auto

lemma strcmp_trans: "strcmp a b > 0 \<Longrightarrow> strcmp b c > 0 \<Longrightarrow> strcmp a c > 0"
proof (induction a b arbitrary: c rule: strcmp.induct)
  case (4 x xs y ys)
  then show ?case
    by (cases c) (auto split: if_splits)
qed auto

lemma strcmp_pos_neg: "strcmp a b > 0 \<longleftrightarrow> strcmp b a < 0"
  using strcmp_antisym [of a b] by simp

subsection \<open>A bin as a sorted association list\<close>

fun bin_put :: "string \<Rightarrow> string \<Rightarrow> entry_s list \<Rightarrow> entry_s list" where
  "bin_put k v [] = [\<lparr>ekey = k, evalue = Some v\<rparr>]"
| "bin_put k v (e # es) =
     (if strcmp k (ekey e) > 0 then e # bin_put k v es
      else if k = ekey e then e\<lparr>evalue := Some v\<rparr> # es
      else \<lparr>ekey = k, evalue = Some v\<rparr> # e # es)"

fun bin_get :: "string \<Rightarrow> entry_s list \<Rightarrow> string option" where
  "bin_get k [] = None"
| "bin_get k (e # es) =
     (if strcmp k (ekey e) > 0 then bin_get k es
      else if k = ekey e then evalue e
      else None)"

definition bin_sorted :: "entry_s list \<Rightarrow> bool" where
  "bin_sorted = sorted_wrt (\<lambda>e f. strcmp (ekey f) (ekey e) > 0)"

lemma ht_get_bin:
  "ht_get h0 ht k = bin_get k (ht_table ht ! nat (ht_hash h0 ht k))"
proof -
  have "(case dropWhile (\<lambda>e. strcmp k (ekey e) > 0) b of [] \<Rightarrow> None
      | e # rest \<Rightarrow> if strcmp k (ekey e) \<noteq> 0 then None else evalue e) = bin_get k b" for b
    by (induction b) auto
  then show ?thesis by (simp add: ht_get_def Let_def del: strcmp_0_iff)
qed

lemma bin_put_split:
  "bin_put k v b =
     takeWhile (\<lambda>e. strcmp k (ekey e) > 0) b @
     (case dropWhile (\<lambda>e. strcmp k (ekey e) > 0) b of
        [] \<Rightarrow> [\<lparr>ekey = k, evalue = Some v\<rparr>]
      | e # rest \<Rightarrow> if k = ekey e then e\<lparr>evalue := Some v\<rparr> # rest
                    else \<lparr>ekey = k, evalue = Some v\<rparr> # e # rest)"
  by (induction b) auto

lemma ht_store_split:
  "(case d of
      e # rest \<Rightarrow>
        if strcmp k (ekey e) = 0 then store (t @ e\<lparr>evalue := Some v\<rparr> # rest)
        else (case ht_newpair (True, True, True) k v of
                None \<Rightarrow> None | Some newpair \<Rightarrow> store (t @ newpair # e # rest))
    | [] \<Rightarrow>
        (case ht_newpair (True, True, True) k v of
           None \<Rightarrow> if t = [] then None else store t | Some newpair \<Rightarrow> store (t @ [newpair]))) =
   store (t @ (case d of
      [] \<Rightarrow> [\<lparr>ekey = k, evalue = Some v\<rparr>]
    | e # rest \<Rightarrow> if k = ekey e then e\<lparr>evalue := Some v\<rparr> # rest
                  else \<lparr>ekey = k, evalue = Some v\<rparr> # e # rest))"
  by (cases d) (simp_all add: ht_newpair_def)

lemma ht_set_bin:
  "ht_set h0 (True, True, True) ht k v =
     Some (ht\<lparr>ht_table := (ht_table ht)[nat (ht_hash h0 ht k) :=
                bin_put k v (ht_table ht ! nat (ht_hash h0 ht k))]\<rparr>)"
  unfolding ht_set_def Let_def fst_conv if_True bin_put_split
  by (rule ht_store_split [where store = "\<lambda>b. Some (ht\<lparr>ht_table := (ht_table ht)[nat (ht_hash h0 ht k) := b]\<rparr>)"])

lemma ht_hash_table [simp]: "ht_hash h0 (ht\<lparr>ht_table := t\<rparr>) k = ht_hash h0 ht k"
  by (simp add: ht_hash_def)

lemma bin_get_put:
  "bin_sorted b \<Longrightarrow> bin_get k' (bin_put k v b) = (if k' = k then Some v else bin_get k' b)"
proof (induction b)
  case Nil
  then show ?case by auto
next
  case (Cons e es)
  have later: "\<forall>f \<in> set es. strcmp (ekey f) (ekey e) > 0" and es: "bin_sorted es"
    using Cons.prems by (auto simp: bin_sorted_def)
  note flip = strcmp_antisym [of k "ekey e"] strcmp_antisym [of k' "ekey e"] strcmp_antisym [of k k']
    strcmp_sign [of k "ekey e"] strcmp_0_iff [of k "ekey e"] strcmp_0_iff [of k' k]
  show ?case
  proof (cases "strcmp k (ekey e) > 0")
    case True
    then show ?thesis using Cons.IH [OF es] flip by auto
  next
    case False
    show ?thesis
    proof (cases "k = ekey e")
      case True
      then show ?thesis by auto
    next
      case neq: False
      then have ek: "strcmp (ekey e) k > 0" using False flip by auto
      show ?thesis
        using False neq ek strcmp_trans [of k' "ekey e" k] flip by auto
    qed
  qed
qed

lemma set_bin_put: "\<forall>f \<in> set (bin_put k v b). ekey f = k \<or> (\<exists>g \<in> set b. ekey f = ekey g)"
  by (induction b) auto

lemma bin_sorted_put: "bin_sorted b \<Longrightarrow> bin_sorted (bin_put k v b)"
proof (induction b)
  case Nil
  then show ?case by (simp add: bin_sorted_def)
next
  case (Cons e es)
  have later: "\<forall>f \<in> set es. strcmp (ekey f) (ekey e) > 0" and es: "bin_sorted es"
    using Cons.prems by (auto simp: bin_sorted_def)
  show ?case
  proof (cases "strcmp k (ekey e) > 0")
    case True
    then show ?thesis
      using Cons.IH [OF es] later set_bin_put [of k v es] by (fastforce simp: bin_sorted_def)
  next
    case False
    show ?thesis
    proof (cases "k = ekey e")
      case True
      then show ?thesis using Cons.prems by (auto simp: bin_sorted_def)
    next
      case neq: False
      then have "strcmp (ekey e) k > 0"
        using False strcmp_antisym [of k "ekey e"] strcmp_0_iff [of k "ekey e"] by linarith
      then show ?thesis
        using False neq Cons.prems later strcmp_trans by (fastforce simp: bin_sorted_def)
    qed
  qed
qed

subsection \<open>The table\<close>

definition ht_wf :: "hashtable_s \<Rightarrow> bool" where
  "ht_wf ht \<longleftrightarrow> 0 < ht_size ht \<and> length (ht_table ht) = nat (ht_size ht) \<and>
     (\<forall>b \<in> set (ht_table ht). bin_sorted b)"

lemma ht_hash_range: "0 < ht_size ht \<Longrightarrow> 0 \<le> ht_hash h0 ht k \<and> ht_hash h0 ht k < ht_size ht"
  by (simp add: ht_hash_def)

lemma ht_bin_valid: "ht_wf ht \<Longrightarrow> nat (ht_hash h0 ht k) < length (ht_table ht)"
  using ht_hash_range [of ht h0 k] by (auto simp: ht_wf_def)

lemma ht_create_wf: "ht_create True True n = Some ht \<Longrightarrow> ht_wf ht \<and> ht_size ht = n"
  by (auto simp: ht_create_def ht_wf_def bin_sorted_def split: if_splits)

lemma ht_create_get: "ht_create True True n = Some ht \<Longrightarrow> ht_get h0 ht k = None"
proof -
  assume c: "ht_create True True n = Some ht"
  then have "\<forall>b \<in> set (ht_table ht). b = []" by (auto simp: ht_create_def split: if_splits)
  then have "ht_table ht ! nat (ht_hash h0 ht k) = []"
    using ht_bin_valid [of ht h0 k] ht_create_wf [OF c] by simp
  then show ?thesis by (simp add: ht_get_bin)
qed

lemma ht_set_wf:
  assumes wf: "ht_wf ht"
  shows "\<exists>ht'. ht_set h0 (True, True, True) ht k v = Some ht' \<and> ht_wf ht' \<and> ht_size ht' = ht_size ht"
proof -
  let ?b = "nat (ht_hash h0 ht k)"
  let ?put = "bin_put k v (ht_table ht ! ?b)"
  have "bin_sorted ?put"
    using wf ht_bin_valid [OF wf, of h0 k] by (intro bin_sorted_put) (simp add: ht_wf_def)
  then have "\<forall>b \<in> set ((ht_table ht)[?b := ?put]). bin_sorted b"
    using wf set_update_subset_insert [of "ht_table ht" ?b ?put] by (auto simp: ht_wf_def)
  then show ?thesis using wf by (simp add: ht_set_bin ht_wf_def)
qed

text \<open>With the same bin for a key on every call, the table is a map.\<close>

lemma ht_get_set:
  assumes wf: "ht_wf ht" and set: "ht_set g (True, True, True) ht k v = Some ht'"
    and same: "k' = k \<Longrightarrow> ht_hash g' ht k' = ht_hash g ht k"
  shows "ht_get g' ht' k' = (if k' = k then Some v else ht_get g' ht k')"
proof -
  let ?b = "nat (ht_hash g ht k)" and ?b' = "nat (ht_hash g' ht k')"
  have b: "?b < length (ht_table ht)" "?b' < length (ht_table ht)"
    using ht_bin_valid [OF wf] by auto
  have ht': "ht' = ht\<lparr>ht_table := (ht_table ht)[?b := bin_put k v (ht_table ht ! ?b)]\<rparr>"
    using set by (simp add: ht_set_bin)
  have "bin_sorted (ht_table ht ! ?b)" using wf b by (simp add: ht_wf_def)
  note put = bin_get_put [OF this, of k' k v]
  have get: "ht_get g' ht' k' =
      bin_get k' ((ht_table ht)[?b := bin_put k v (ht_table ht ! ?b)] ! ?b')"
    unfolding ht_get_bin ht' by simp
  show ?thesis
  proof (cases "?b' = ?b")
    case True
    then show ?thesis unfolding get using b put by (simp add: ht_get_bin)
  next
    case False
    then have "k' \<noteq> k" using same by auto
    then show ?thesis unfolding get using b False by (simp add: ht_get_bin)
  qed
qed

subsection \<open>The garbage in hashval\<close>

text \<open>
  A signed \<open>char\<close> that is not negative keeps the running value below \<open>ULONG_MAX\<close>: its low
  byte is then at most 127.
\<close>

definition ascii :: "string \<Rightarrow> bool" where
  "ascii s \<longleftrightarrow> (\<forall>c \<in> set s. 0 \<le> schar c)"

lemma sint_byte_less: "sint (w :: 8 word) < 128"
  using sint_lt [of w] by simp

lemma schar_bound: "schar c < 128"
  unfolding schar_def by (rule sint_byte_less)

lemma hash_step:
  assumes "0 \<le> schar c"
  shows "uint (push_bit 8 h + of_int (schar c) :: 64 word) = (uint h * 256 + schar c) mod 2 ^ 64"
  using assms by (simp add: push_bit_eq_mult uint_word_ariths uint_word_of_int mod_simps mult.commute)

lemma hash_step_below:
  assumes c: "0 \<le> schar c"
  shows "push_bit 8 h + of_int (schar c) < ULONG_MAX"
proof -
  let ?x = "(uint h * 256 + schar c) mod 2 ^ 64"
  have "?x mod 256 = schar c"
    using c schar_bound [of c] by (simp add: mod_mod_cancel)
  then have "?x \<noteq> 2 ^ 64 - 1" using schar_bound [of c] by auto
  moreover have "0 \<le> ?x" "?x < 2 ^ 64" by simp_all
  ultimately have "?x < 2 ^ 64 - 1" by linarith
  then show ?thesis by (simp add: word_less_alt hash_step [OF c] ULONG_MAX_def)
qed

lemma below_ULONG_MAX:
  assumes "h \<noteq> ULONG_MAX"
  shows "h < ULONG_MAX"
proof -
  have "uint h \<noteq> uint ULONG_MAX" using assms by (simp only: word_uint_eq_iff not_False_eq_True)
  then show ?thesis using uint_lt2p [of h] by (simp add: word_less_alt ULONG_MAX_def)
qed

lemma hash_loop_append:
  "h < ULONG_MAX \<Longrightarrow> ascii s \<Longrightarrow>
   hash_loop h s < ULONG_MAX \<and> hash_loop h (s @ t) = hash_loop (hash_loop h s) t"
  by (induction s arbitrary: h) (auto simp: ascii_def hash_step_below)

lemma hash_loop_two:
  assumes h: "h < ULONG_MAX" and s: "ascii (s @ [a, b])"
  shows "uint (hash_loop h (s @ [a, b])) mod 65536 = schar a * 256 + schar b"
proof -
  have a: "0 \<le> schar a" and b: "0 \<le> schar b" and s': "ascii s" using s by (auto simp: ascii_def)
  let ?h = "hash_loop h s"
  have "hash_loop h (s @ [a, b]) =
      push_bit 8 (push_bit 8 ?h + of_int (schar a)) + of_int (schar b)"
    using hash_loop_append [OF h s', of "[a, b]"] hash_step_below [OF a, of ?h]
    by (simp only: hash_loop.simps if_True)
  then have "uint (hash_loop h (s @ [a, b])) mod 65536
      = ((uint ?h * 256 + schar a) mod 2 ^ 64 * 256 + schar b) mod 2 ^ 64 mod 65536"
    by (simp only: hash_step [OF a] hash_step [OF b])
  also have "\<dots> = ((uint ?h * 256 + schar a) mod 2 ^ 64 * 256 + schar b) mod 65536"
    by (rule mod_mod_cancel) simp
  also have "\<dots> = schar a * 256 + schar b"
  proof -
    have "(y * 256 + schar b) mod 65536 = y mod 256 * 256 + schar b" for y
    proof -
      have "(y * 256 + schar b) mod 65536 = ((y * 256) mod 65536 + schar b) mod 65536"
        by (simp add: mod_simps)
      also have "(y * 256) mod 65536 = y mod 256 * 256"
        using mod_mult_mult2 [of y 256 256] by simp
      also have "(y mod 256 * 256 + schar b) mod 65536 = y mod 256 * 256 + schar b"
        using b schar_bound [of b] pos_mod_bound [of 256 y] by (intro mod_pos_pos_trivial) simp_all
      finally show ?thesis .
    qed
    moreover have "(uint ?h * 256 + schar a) mod 2 ^ 64 mod 256 = schar a"
      using a schar_bound [of a] by (simp add: mod_mod_cancel)
    ultimately show ?thesis by simp
  qed
  finally show ?thesis .
qed

subsection \<open>The contract of a key-value table\<close>

text \<open>
  What a client of the table (\<open>initHost\<close>, \<open>saveValue\<close>) relies on, for the keys it uses
  (\<open>good\<close>): an insertion returns, keeps the invariant and changes the binding of its key only.
\<close>

fun upds :: "('t \<Rightarrow> 'k \<Rightarrow> 'v \<Rightarrow> 't option) \<Rightarrow> ('k \<times> 'v) list \<Rightarrow> 't \<Rightarrow> 't option" where
  "upds upd [] t = Some t"
| "upds upd ((k, v) # kvs) t = Option.bind (upd t k v) (upds upd kvs)"

locale kv_table =
  fixes upd :: "'t \<Rightarrow> 'k \<Rightarrow> 'v \<Rightarrow> 't option"
    and lookup :: "'t \<Rightarrow> 'k \<Rightarrow> 'v option"
    and inv :: "'t \<Rightarrow> bool"
    and good :: "'k \<Rightarrow> bool"
  assumes upd_law:
    "inv t \<Longrightarrow> good k \<Longrightarrow> \<exists>t'. upd t k v = Some t' \<and> inv t' \<and>
       (\<forall>k'. good k' \<longrightarrow> lookup t' k' = (if k' = k then Some v else lookup t k'))"
begin

lemma upds_law:
  "inv t \<Longrightarrow> \<forall>(k, v) \<in> set kvs. good k \<Longrightarrow>
   \<exists>t'. upds upd kvs t = Some t' \<and> inv t' \<and>
     (\<forall>k'. good k' \<longrightarrow> lookup t' k' = (case map_of (rev kvs) k' of None \<Rightarrow> lookup t k' | Some v \<Rightarrow> Some v))"
proof (induction kvs arbitrary: t)
  case Nil
  then show ?case by simp
next
  case (Cons kv kvs)
  obtain k v where kv: "kv = (k, v)" by (cases kv)
  obtain t1 where t1: "upd t k v = Some t1" "inv t1"
    "\<forall>k'. good k' \<longrightarrow> lookup t1 k' = (if k' = k then Some v else lookup t k')"
    using upd_law [of t k v] Cons.prems kv by auto
  obtain t2 where t2: "upds upd kvs t1 = Some t2" "inv t2"
    "\<forall>k'. good k' \<longrightarrow> lookup t2 k' = (case map_of (rev kvs) k' of None \<Rightarrow> lookup t1 k' | Some v \<Rightarrow> Some v)"
    using Cons.IH [OF t1(2)] Cons.prems kv by auto
  have "map_of (rev (kv # kvs)) k' = (case map_of (rev kvs) k' of None \<Rightarrow> if k' = k then Some v else None | Some w \<Rightarrow> Some w)" for k'
    by (simp add: kv map_add_def split: option.split)
  then show ?case using t1 t2 by (auto simp: kv split: option.split)
qed

end

text \<open>
  The table with the garbage of its calls: the \<open>n\<close>-th call from now finds \<open>g n\<close> in its
  uninitialised \<open>hashval\<close>.
\<close>

type_synonym table_env = "hashtable_s \<times> (nat \<Rightarrow> 64 word)"

definition table_set :: "table_env \<Rightarrow> string \<Rightarrow> string \<Rightarrow> table_env option" where
  "table_set s k v =
     map_option (\<lambda>ht. (ht, \<lambda>n. snd s (Suc n))) (ht_set (snd s 0) (True, True, True) (fst s) k v)"

definition table_get :: "table_env \<Rightarrow> string \<Rightarrow> string option" where
  "table_get s k = ht_get (snd s 0) (fst s) k"

definition table_inv :: "table_env \<Rightarrow> bool" where
  "table_inv s \<longleftrightarrow> ht_wf (fst s) \<and> ht_size (fst s) = 65536 \<and> (\<forall>n. snd s n \<noteq> ULONG_MAX)"

definition table_key :: "string \<Rightarrow> bool" where
  "table_key k \<longleftrightarrow> ascii k \<and> 2 \<le> length k"

lemma table_key_split: "table_key k \<Longrightarrow> \<exists>s a b. k = s @ [a, b] \<and> ascii (s @ [a, b])"
proof -
  assume k: "table_key k"
  obtain t b where t: "k = t @ [b]" using k by (cases k rule: rev_cases) (auto simp: table_key_def)
  obtain s a where "t = s @ [a]" using k t by (cases t rule: rev_cases) (auto simp: table_key_def)
  then show ?thesis using k t by (simp add: table_key_def)
qed

lemma ht_hash_table_key:
  assumes "table_key k"
  obtains n where "\<And>h ht. h \<noteq> ULONG_MAX \<Longrightarrow> ht_size ht = 65536 \<Longrightarrow> ht_hash h ht k = n" and "n < 65535"
proof -
  obtain s a b where k: "k = s @ [a, b]" and asc: "ascii (s @ [a, b])"
    using table_key_split [OF assms] by blast
  show thesis
  proof
    show "ht_hash h ht k = schar a * 256 + schar b" if "h \<noteq> ULONG_MAX" "ht_size ht = 65536" for h ht
      using hash_loop_two [OF below_ULONG_MAX [OF that(1)] asc] that(2) by (simp add: ht_hash_def k)
    show "schar a * 256 + schar b < 65535" using schar_bound [of a] schar_bound [of b] by simp
  qed
qed

lemma table_set_law:
  assumes inv: "table_inv s" and key: "table_key k"
  shows "\<exists>s'. table_set s k v = Some s' \<and> table_inv s' \<and>
           (\<forall>k'. table_key k' \<longrightarrow> table_get s' k' = (if k' = k then Some v else table_get s k'))"
proof -
  have wf: "ht_wf (fst s)" and sz: "ht_size (fst s) = 65536" and g: "\<And>n. snd s n \<noteq> ULONG_MAX"
    using inv by (auto simp: table_inv_def)
  obtain ht' where ht': "ht_set (snd s 0) (True, True, True) (fst s) k v = Some ht'"
    and wf': "ht_wf ht'" "ht_size ht' = 65536"
    using ht_set_wf [OF wf, of "snd s 0" k v] sz by auto
  have "table_get (ht', \<lambda>n. snd s (Suc n)) k' = (if k' = k then Some v else table_get s k')"
    if key': "table_key k'" for k'
  proof -
    obtain n where n: "\<And>h ht. h \<noteq> ULONG_MAX \<Longrightarrow> ht_size ht = 65536 \<Longrightarrow> ht_hash h ht k' = n"
      using ht_hash_table_key [OF key'] by blast
    have "ht_get (snd s (Suc 0)) ht' k' = (if k' = k then Some v else ht_get (snd s (Suc 0)) (fst s) k')"
      using n [OF g sz] by (intro ht_get_set [OF wf ht']) (metis n g sz)
    moreover have "ht_get (snd s (Suc 0)) (fst s) k' = ht_get (snd s 0) (fst s) k'"
      by (simp add: ht_get_bin n [OF g sz])
    ultimately show ?thesis by (simp add: table_get_def)
  qed
  then show ?thesis using ht' wf' g by (simp add: table_set_def table_inv_def)
qed

text \<open>A lookup does not depend on which garbage it finds.\<close>

lemma table_get_shift:
  assumes "table_inv s" and "table_key k"
  shows "table_get (fst s, \<lambda>n. snd s (Suc n)) k = table_get s k"
proof -
  obtain n where "\<And>h ht. h \<noteq> ULONG_MAX \<Longrightarrow> ht_size ht = 65536 \<Longrightarrow> ht_hash h ht k = n"
    using ht_hash_table_key [OF assms(2)] by blast
  then show ?thesis using assms(1) by (simp add: table_get_def ht_get_bin table_inv_def)
qed

interpretation backups: kv_table table_set table_get table_inv table_key
  by unfold_locales (rule table_set_law)

lemma table_created: "ht_create True True 65536 = Some ht \<Longrightarrow> \<forall>n. g n \<noteq> ULONG_MAX \<Longrightarrow> table_inv (ht, g)"
  using ht_create_wf [of 65536 ht] by (simp add: table_inv_def)

text \<open>
  C32. The uninitialised \<open>hashval\<close> of \<open>ht_hash\<close> is harmless on the proxy's table: with 65536
  bins and ASCII keys of at least two characters, whatever garbage (other than \<open>ULONG_MAX\<close>)
  each call finds there, and with memory enough, a sequence of insertions into a fresh table returns and every
  lookup yields the value last inserted for its key, and \<open>NULL\<close> for the other keys.
\<close>

theorem ht_lookup_after_inserts:
  assumes "ht_create True True 65536 = Some ht" and "\<forall>n. g n \<noteq> ULONG_MAX"
    and "\<forall>(k, v) \<in> set kvs. table_key k" and "table_key k"
  shows "\<exists>s. upds table_set kvs (ht, g) = Some s \<and> table_get s k = map_of (rev kvs) k"
proof -
  obtain s where s: "upds table_set kvs (ht, g) = Some s"
    "\<forall>k'. table_key k' \<longrightarrow>
       table_get s k' = (case map_of (rev kvs) k' of None \<Rightarrow> table_get (ht, g) k' | Some v \<Rightarrow> Some v)"
    using backups.upds_law [OF table_created [OF assms(1,2)] assms(3)] by blast
  then show ?thesis
    using assms(4) ht_create_get [OF assms(1)] by (auto simp: table_get_def split: option.split)
qed

theorem ht_lookup_after_inserts_witness:
  "\<exists>s. upds table_set [(''10.0.0.1'', ''10.0.0.2''), (''10.0.0.3'', ''10.0.0.4'')]
         (the (ht_create True True 65536), \<lambda>n. of_nat n mod 7) = Some s \<and>
       table_get s ''10.0.0.3'' = Some ''10.0.0.4''"
proof -
  have "(of_nat n mod 7 :: 64 word) \<noteq> ULONG_MAX" for n
  proof -
    have "(of_nat n mod 7 :: 64 word) < 7" by (simp add: word_less_nat_alt unat_mod)
    then show ?thesis by (auto simp: ULONG_MAX_def)
  qed
  then show ?thesis
    using ht_lookup_after_inserts [of "the (ht_create True True 65536)" "\<lambda>n. of_nat n mod 7"
        "[(''10.0.0.1'', ''10.0.0.2''), (''10.0.0.3'', ''10.0.0.4'')]" "''10.0.0.3''"]
    by (simp add: ht_create_def table_key_def ascii_def schar_def)
qed

text \<open>
  With \<open>ULONG_MAX\<close> in the uninitialised variable the lookup looks into the last bin, where
  no such key is ever stored: the value just inserted is reported as absent.
\<close>

theorem ht_get_garbage_misses:
  assumes "ht_create True True 65536 = Some ht" and "h \<noteq> ULONG_MAX" and "table_key k"
  shows "\<exists>ht'. ht_set h (True, True, True) ht k v = Some ht' \<and> ht_get h ht' k = Some v \<and>
           ht_get ULONG_MAX ht' k = None"
proof -
  have wf: "ht_wf ht" and sz: "ht_size ht = 65536" using ht_create_wf [OF assms(1)] by auto
  obtain n where n: "ht_hash h ht k = n" "n < 65535"
    using ht_hash_table_key [OF assms(3)] assms(2) sz by blast
  have n0: "0 \<le> n" using ht_hash_range [of ht h k] sz n by simp
  have "hash_loop ULONG_MAX s = ULONG_MAX" for s by (cases s) auto
  then have max: "ht_hash ULONG_MAX ht k = 65535"
    by (simp add: ht_hash_def sz ULONG_MAX_def)
  let ?ht = "ht\<lparr>ht_table := (ht_table ht)[nat n := bin_put k v (ht_table ht ! nat n)]\<rparr>"
  have set: "ht_set h (True, True, True) ht k v = Some ?ht" by (simp add: ht_set_bin n)
  moreover have "ht_get h ?ht k = Some v" using ht_get_set [OF wf set, of k h] by simp
  moreover have "ht_get ULONG_MAX ?ht k = None"
    using ht_create_get [OF assms(1), of ULONG_MAX k] n n0 by (simp add: ht_get_bin max)
  ultimately show ?thesis by blast
qed

theorem ht_get_garbage_misses_witness:
  "\<exists>ht'. ht_set 0 (True, True, True) (the (ht_create True True 65536)) ''10.0.0.1'' ''10.0.0.2'' = Some ht' \<and>
     ht_get 0 ht' ''10.0.0.1'' = Some ''10.0.0.2'' \<and> ht_get ULONG_MAX ht' ''10.0.0.1'' = None"
  by (rule ht_get_garbage_misses)
    (simp_all add: ht_create_def table_key_def ascii_def schar_def ULONG_MAX_def)

end
