(* ===== verification/Ae.thy ===== *)
theory Ae
  imports Prelude "HOL-Library.Signed_Division"
begin

text \<open>
  The event loop of \<^verbatim>\<open>proxy/ae.c\<close>: the table of file events indexed by descriptor with the
  highest descriptor in use, the list of timers, and the set of descriptors the kernel
  watches.  Handlers are values of a type \<open>'h\<close> the client chooses; \<open>aeProcessEvents\<close> gets the
  functions that run them.  The kernel's part (\<open>epoll_ctl\<close>, the clock) is modelled by its
  documented behaviour.  The main results are the table invariant, the agreement of the
  table with the kernel's interest set, and the choice of the nearest timer.
\<close>

subsection \<open>State\<close>

definition AE_OK :: int where "AE_OK = 0"
definition AE_ERR :: int where "AE_ERR = -1"
definition AE_NONE :: int where "AE_NONE = 0"
definition AE_READABLE :: int where "AE_READABLE = 1"
definition AE_WRITABLE :: int where "AE_WRITABLE = 2"
definition AE_FILE_EVENTS :: int where "AE_FILE_EVENTS = 1"
definition AE_TIME_EVENTS :: int where "AE_TIME_EVENTS = 2"
definition AE_ALL_EVENTS :: int where "AE_ALL_EVENTS = AE_FILE_EVENTS OR AE_TIME_EVENTS"
definition AE_DONT_WAIT :: int where "AE_DONT_WAIT = 4"
definition AE_NOMORE :: int where "AE_NOMORE = -1"
definition EPOLLIN :: int where "EPOLLIN = 1"
definition EPOLLOUT :: int where "EPOLLOUT = 4"
definition EPOLLERR :: int where "EPOLLERR = 8"
definition EPOLLHUP :: int where "EPOLLHUP = 16"

named_theorems ae_const \<open>the constants of the event loop\<close>

lemmas ae_consts [ae_const] =
  AE_OK_def AE_ERR_def AE_NONE_def AE_READABLE_def AE_WRITABLE_def EPOLLIN_def EPOLLOUT_def

record 'h aeFileEvent =
  mask :: int
  rfileProc :: "'h option"
  wfileProc :: "'h option"
  clientData :: nat

record 'h aeTimeEvent =
  te_id :: int
  when_sec :: int
  when_ms :: int
  timeProc :: 'h
  finalizerProc :: "'h option"

text \<open>
  The list \<open>timeEventHead\<close> has the events in the order of the \<open>next\<close> pointers; \<open>apidata\<close> is what
  the kernel keeps behind \<open>epfd\<close>: the descriptors it watches, with their events.
\<close>

record 'h aeEventLoop =
  maxfd :: int
  setsize :: int
  timeEventNextId :: int
  lastTime :: int
  events :: "'h aeFileEvent list"
  timeEventHead :: "'h aeTimeEvent list"
  stop :: bool
  apidata :: "int \<Rightarrow> int option"
  beforesleep :: "'h option"

subsection \<open>The polling layer\<close>

datatype ctl_op = CTL_ADD | CTL_MOD | CTL_DEL

text \<open>
  \<open>epoll_ctl\<close>: adding a watched descriptor (\<open>EEXIST\<close>), changing or deleting one that is not
  watched (\<open>ENOENT\<close>) fails; \<open>ok\<close> is false when the kernel refuses for want of resources.
\<close>

definition epoll_ctl ::
  "bool \<Rightarrow> (int \<Rightarrow> int option) \<Rightarrow> ctl_op \<Rightarrow> int \<Rightarrow> int \<Rightarrow> int \<times> (int \<Rightarrow> int option)" where
  "epoll_ctl ok watch op fd ev =
     (case op of
        CTL_ADD \<Rightarrow> if ok \<and> watch fd = None then (0, watch(fd := Some ev)) else (-1, watch)
      | CTL_MOD \<Rightarrow> if ok \<and> watch fd \<noteq> None then (0, watch(fd := Some ev)) else (-1, watch)
      | CTL_DEL \<Rightarrow> if watch fd \<noteq> None then (0, watch(fd := None)) else (-1, watch))"

text \<open>\<open>close\<close> of a descriptor: the kernel forgets it in the interest set.\<close>

definition epoll_close :: "int \<Rightarrow> 'h aeEventLoop \<Rightarrow> 'h aeEventLoop" where
  "epoll_close fd el = el\<lparr>apidata := (apidata el)(fd := None)\<rparr>"

definition ee_events :: "int \<Rightarrow> int" where
  "ee_events m =
     (let ev = 0;
          ev = (if m AND AE_READABLE \<noteq> 0 then ev OR EPOLLIN else ev)
      in if m AND AE_WRITABLE \<noteq> 0 then ev OR EPOLLOUT else ev)"

definition aeApiAddEvent :: "bool \<Rightarrow> 'h aeEventLoop \<Rightarrow> int \<Rightarrow> int \<Rightarrow> int \<times> 'h aeEventLoop" where
  "aeApiAddEvent ok el fd m =
     (let old = mask (events el ! nat fd);
          op = (if old = AE_NONE then CTL_ADD else CTL_MOD);
          m = m OR old;
          (r, w) = epoll_ctl ok (apidata el) op fd (ee_events m)
      in if r = -1 then (-1, el) else (0, el\<lparr>apidata := w\<rparr>))"

definition aeApiDelEvent :: "'h aeEventLoop \<Rightarrow> int \<Rightarrow> int \<Rightarrow> 'h aeEventLoop" where
  "aeApiDelEvent el fd delmask =
     (let m = mask (events el ! nat fd) AND NOT delmask;
          op = (if m \<noteq> AE_NONE then CTL_MOD else CTL_DEL)
      in el\<lparr>apidata := snd (epoll_ctl True (apidata el) op fd (ee_events m))\<rparr>)"

text \<open>The loop of \<open>aeApiPoll\<close> over what \<open>epoll_wait\<close> reported: descriptors with event bits.\<close>

definition poll_mask :: "int \<Rightarrow> int" where
  "poll_mask ev =
     (let m = 0;
          m = (if ev AND EPOLLIN \<noteq> 0 then m OR AE_READABLE else m);
          m = (if ev AND EPOLLOUT \<noteq> 0 then m OR AE_WRITABLE else m);
          m = (if ev AND EPOLLERR \<noteq> 0 then m OR AE_WRITABLE else m)
      in if ev AND EPOLLHUP \<noteq> 0 then m OR AE_WRITABLE else m)"

definition aeApiPoll :: "(int \<times> int) list \<Rightarrow> (int \<times> int) list" where
  "aeApiPoll reported = map (\<lambda>(fd, ev). (fd, poll_mask ev)) reported"

subsection \<open>File events\<close>

text \<open>The memory \<open>zmalloc\<close> returns for the table is not initialised: \<open>junk\<close> is what it holds.\<close>

definition aeCreateEventLoop ::
  "int \<Rightarrow> (nat \<Rightarrow> 'h aeFileEvent) \<Rightarrow> bool \<Rightarrow> bool \<Rightarrow> int \<Rightarrow> 'h aeEventLoop option" where
  "aeCreateEventLoop now junk alloc_ok api_ok sz =
     (if \<not> alloc_ok then None
      else if \<not> api_ok then None
      else Some \<lparr>maxfd = -1, setsize = sz, timeEventNextId = 0, lastTime = now,
                 events = map (\<lambda>i. (junk i)\<lparr>mask := AE_NONE\<rparr>) [0..<nat sz],
                 timeEventHead = [], stop = False, apidata = (\<lambda>fd. None), beforesleep = None\<rparr>)"

definition aeGetSetSize :: "'h aeEventLoop \<Rightarrow> int" where
  "aeGetSetSize el = setsize el"

definition aeResizeSetSize ::
  "(nat \<Rightarrow> 'h aeFileEvent) \<Rightarrow> 'h aeEventLoop \<Rightarrow> int \<Rightarrow> int \<times> 'h aeEventLoop" where
  "aeResizeSetSize junk el sz =
     (if sz = setsize el then (AE_OK, el)
      else if maxfd el \<ge> sz then (AE_ERR, el)
      else let old = events el;
               moved = map (\<lambda>i. if i < length old then old ! i else junk i) [0..<nat sz];
               cleared = map (\<lambda>i. if int i \<ge> maxfd el + 1 then (moved ! i)\<lparr>mask := AE_NONE\<rparr>
                                  else moved ! i) [0..<nat sz]
           in (AE_OK, el\<lparr>events := cleared, setsize := sz\<rparr>))"

definition aeStop :: "'h aeEventLoop \<Rightarrow> 'h aeEventLoop" where
  "aeStop el = el\<lparr>stop := True\<rparr>"

definition aeCreateFileEvent ::
  "bool \<Rightarrow> 'h aeEventLoop \<Rightarrow> int \<Rightarrow> int \<Rightarrow> 'h \<Rightarrow> nat \<Rightarrow> (int \<times> 'h aeEventLoop) outcome" where
  "aeCreateFileEvent ok el fd m proc cdata =
     (if fd \<ge> setsize el then Inr (AE_ERR, el)
      else if fd < 0 then Inl Undefined
      else case aeApiAddEvent ok el fd m of (r, el1) \<Rightarrow>
        if r = -1 then Inr (AE_ERR, el)
        else let fe = events el1 ! nat fd;
                 fe = fe\<lparr>mask := mask fe OR m\<rparr>;
                 fe = (if m AND AE_READABLE \<noteq> 0 then fe\<lparr>rfileProc := Some proc\<rparr> else fe);
                 fe = (if m AND AE_WRITABLE \<noteq> 0 then fe\<lparr>wfileProc := Some proc\<rparr> else fe);
                 fe = fe\<lparr>clientData := cdata\<rparr>;
                 el2 = el1\<lparr>events := (events el1)[nat fd := fe]\<rparr>
             in Inr (AE_OK, if fd > maxfd el2 then el2\<lparr>maxfd := fd\<rparr> else el2))"

text \<open>The downward scan for the new highest descriptor.\<close>

fun scan_down :: "'h aeFileEvent list \<Rightarrow> nat \<Rightarrow> int" where
  "scan_down evs 0 = -1"
| "scan_down evs (Suc j) = (if mask (evs ! j) \<noteq> AE_NONE then int j else scan_down evs j)"

definition aeDeleteFileEvent :: "'h aeEventLoop \<Rightarrow> int \<Rightarrow> int \<Rightarrow> 'h aeEventLoop outcome" where
  "aeDeleteFileEvent el fd m =
     (if fd \<ge> setsize el then Inr el
      else if fd < 0 then Inl Undefined
      else if mask (events el ! nat fd) = AE_NONE then Inr el
      else let el1 = aeApiDelEvent el fd m;
               fe = events el1 ! nat fd;
               fe = fe\<lparr>mask := mask fe AND NOT m\<rparr>;
               el2 = el1\<lparr>events := (events el1)[nat fd := fe]\<rparr>
           in if fd = maxfd el2 \<and> mask fe = AE_NONE
              then Inr (el2\<lparr>maxfd := scan_down (events el2) (nat (maxfd el2))\<rparr>)
              else Inr el2)"

definition aeGetFileEvents :: "'h aeEventLoop \<Rightarrow> int \<Rightarrow> int outcome" where
  "aeGetFileEvents el fd =
     (if fd \<ge> setsize el then Inr 0
      else if fd < 0 then Inl Undefined
      else Inr (mask (events el ! nat fd)))"

subsection \<open>Time events\<close>

text \<open>The clock is read in milliseconds; \<open>aeGetTime\<close> splits it.\<close>

definition aeGetTime :: "int \<Rightarrow> int \<times> int" where
  "aeGetTime now = (now div 1000, now mod 1000)"

definition aeAddMillisecondsToNow :: "int \<Rightarrow> int \<Rightarrow> int \<times> int" where
  "aeAddMillisecondsToNow now milliseconds =
     (let (cur_sec, cur_ms) = aeGetTime now;
          when_sec = cur_sec + milliseconds sdiv 1000;
          when_ms = cur_ms + milliseconds smod 1000
      in if when_ms \<ge> 1000 then (when_sec + 1, when_ms - 1000) else (when_sec, when_ms))"

definition aeCreateTimeEvent ::
  "bool \<Rightarrow> int \<Rightarrow> 'h aeEventLoop \<Rightarrow> int \<Rightarrow> 'h \<Rightarrow> 'h option \<Rightarrow> int \<times> 'h aeEventLoop" where
  "aeCreateTimeEvent alloc_ok now el milliseconds proc finalizer =
     (let i = timeEventNextId el;
          el1 = el\<lparr>timeEventNextId := timeEventNextId el + 1\<rparr>
      in if \<not> alloc_ok then (AE_ERR, el1)
         else let (s, ms) = aeAddMillisecondsToNow now milliseconds;
                  te = \<lparr>te_id = i, when_sec = s, when_ms = ms, timeProc = proc,
                        finalizerProc = finalizer\<rparr>
              in (i, el1\<lparr>timeEventHead := te # timeEventHead el1\<rparr>))"

text \<open>The list walk of \<open>aeDeleteTimeEvent\<close>: the event found and the list without it.\<close>

fun unlink_timer :: "int \<Rightarrow> 'h aeTimeEvent list \<Rightarrow> ('h aeTimeEvent \<times> 'h aeTimeEvent list) option" where
  "unlink_timer i [] = None"
| "unlink_timer i (te # tes) =
     (if te_id te = i then Some (te, tes)
      else map_option (apsnd (Cons te)) (unlink_timer i tes))"

text \<open>Returns the status, the finalizer to run and the loop.\<close>

definition aeDeleteTimeEvent :: "'h aeEventLoop \<Rightarrow> int \<Rightarrow> int \<times> 'h option \<times> 'h aeEventLoop" where
  "aeDeleteTimeEvent el i =
     (case unlink_timer i (timeEventHead el) of
        None \<Rightarrow> (AE_ERR, None, el)
      | Some (te, rest) \<Rightarrow> (AE_OK, finalizerProc te, el\<lparr>timeEventHead := rest\<rparr>))"

fun nearest_loop :: "'h aeTimeEvent list \<Rightarrow> 'h aeTimeEvent option \<Rightarrow> 'h aeTimeEvent option" where
  "nearest_loop [] nearest = nearest"
| "nearest_loop (te # tes) nearest =
     nearest_loop tes
       (case nearest of
          None \<Rightarrow> Some te
        | Some n \<Rightarrow>
            if when_sec te < when_sec n \<or> when_sec te = when_sec n \<and> when_ms te < when_ms n
            then Some te else nearest)"

definition aeSearchNearestTimer :: "'h aeEventLoop \<Rightarrow> 'h aeTimeEvent option" where
  "aeSearchNearestTimer el = nearest_loop (timeEventHead el) None"

text \<open>
  The time the poll may sleep: \<open>None\<close> is for ever, \<open>Some (sec, usec)\<close> a \<open>timeval\<close>; and the
  milliseconds \<open>aeApiPoll\<close> makes of it.
\<close>

definition poll_timeout :: "int \<Rightarrow> int \<Rightarrow> 'h aeEventLoop \<Rightarrow> (int \<times> int) option" where
  "poll_timeout now flags el =
     (let shortest = (if flags AND AE_TIME_EVENTS \<noteq> 0 \<and> flags AND AE_DONT_WAIT = 0
                      then aeSearchNearestTimer el else None)
      in case shortest of
           Some te \<Rightarrow>
             (let (now_sec, now_ms) = aeGetTime now;
                  tv_sec = when_sec te - now_sec;
                  (tv_sec, tv_usec) =
                    (if when_ms te < now_ms then (tv_sec - 1, ((when_ms te + 1000) - now_ms) * 1000)
                     else (tv_sec, (when_ms te - now_ms) * 1000))
              in Some (if tv_sec < 0 then 0 else tv_sec, if tv_usec < 0 then 0 else tv_usec))
         | None \<Rightarrow> if flags AND AE_DONT_WAIT \<noteq> 0 then Some (0, 0) else None)"

definition epoll_timeout :: "(int \<times> int) option \<Rightarrow> int" where
  "epoll_timeout tvp = (case tvp of Some (s, us) \<Rightarrow> s * 1000 + us sdiv 1000 | None \<Rightarrow> -1)"

subsection \<open>The table invariant\<close>

text \<open>
  The masks are combinations of the two bits; \<open>maxfd\<close> is the highest descriptor with a mask,
  or -1; and the kernel watches exactly the descriptors with a mask, for their events.
\<close>

definition fd_mask :: "'h aeEventLoop \<Rightarrow> int \<Rightarrow> int" where
  "fd_mask el fd = (if 0 \<le> fd \<and> fd < setsize el then mask (events el ! nat fd) else AE_NONE)"

definition watch_of :: "int \<Rightarrow> int option" where
  "watch_of m = (if m = AE_NONE then None else Some (ee_events m))"

definition el_wf :: "'h aeEventLoop \<Rightarrow> bool" where
  "el_wf el \<longleftrightarrow>
     length (events el) = nat (setsize el) \<and> - 1 \<le> maxfd el \<and>
     (0 \<le> maxfd el \<longrightarrow> fd_mask el (maxfd el) \<noteq> AE_NONE) \<and>
     (\<forall>fd. maxfd el < fd \<longrightarrow> fd_mask el fd = AE_NONE) \<and>
     (\<forall>fd. fd_mask el fd \<in> {0..3}) \<and>
     (\<forall>fd. 0 \<le> fd \<longrightarrow> fd < setsize el \<longrightarrow> apidata el fd = watch_of (fd_mask el fd))"

lemma mask_cases: "m \<in> {0..3} \<longleftrightarrow> m = 0 \<or> m = 1 \<or> m = 2 \<or> m = (3 :: int)"
  by auto

lemma mask_or: "m \<in> {0..3} \<Longrightarrow> k \<in> {0..3} \<Longrightarrow> (m OR k :: int) \<in> {0..3}"
  unfolding mask_cases by (elim disjE) simp_all

lemma mask_and_not: "m \<in> {0..3} \<Longrightarrow> k \<in> {0..3} \<Longrightarrow> (m AND NOT k :: int) \<in> {0..3}"
  unfolding mask_cases by (elim disjE) simp_all

lemma mask_or_0: "m \<in> {0..3} \<Longrightarrow> k \<in> {1..3} \<Longrightarrow> (m OR k :: int) \<noteq> 0"
  by (simp add: or_eq_0_iff)

lemma scan_down_spec:
  "- 1 \<le> scan_down evs n \<and> scan_down evs n < int n \<and>
   (0 \<le> scan_down evs n \<longrightarrow> mask (evs ! nat (scan_down evs n)) \<noteq> AE_NONE) \<and>
   (\<forall>i < n. scan_down evs n < int i \<longrightarrow> mask (evs ! i) = AE_NONE)"
  by (induction n) (auto simp: less_Suc_eq)

lemma scan_down_fd_mask:
  assumes "int n \<le> setsize el"
  shows "0 \<le> scan_down (events el) n \<Longrightarrow> fd_mask el (scan_down (events el) n) \<noteq> AE_NONE"
    and "\<And>fd. scan_down (events el) n < fd \<Longrightarrow> fd < int n \<Longrightarrow> fd_mask el fd = AE_NONE"
proof -
  show "fd_mask el fd = AE_NONE" if "scan_down (events el) n < fd" "fd < int n" for fd
    using scan_down_spec [of "events el" n] that assms
    by (auto simp: fd_mask_def dest: spec [of _ "nat fd"])
qed (use scan_down_spec [of "events el" n] assms in \<open>auto simp: fd_mask_def\<close>)

lemma aeCreateEventLoop_wf:
  "aeCreateEventLoop now junk True True sz = Some el \<Longrightarrow> el_wf el \<and> (\<forall>fd. fd_mask el fd = AE_NONE)"
  by (auto simp: aeCreateEventLoop_def el_wf_def fd_mask_def AE_NONE_def watch_of_def)

subsection \<open>Registering and removing descriptors\<close>

lemma el_wf_watch:
  "el_wf el \<Longrightarrow> 0 \<le> fd \<Longrightarrow> fd < setsize el \<Longrightarrow>
   fd_mask el fd \<in> {0..3} \<and> apidata el fd = watch_of (fd_mask el fd)"
  unfolding el_wf_def by blast

text \<open>The table after the mask of one descriptor was set in both tables.\<close>

definition set_event :: "int \<Rightarrow> 'h aeFileEvent \<Rightarrow> 'h aeEventLoop \<Rightarrow> 'h aeEventLoop" where
  "set_event fd fe el =
     el\<lparr>apidata := (apidata el)(fd := watch_of (mask fe)), events := (events el)[nat fd := fe]\<rparr>"

lemma set_event_fields [simp]:
  "maxfd (set_event fd fe el) = maxfd el" "setsize (set_event fd fe el) = setsize el"
  "length (events (set_event fd fe el)) = length (events el)"
  "apidata (set_event fd fe el) = (apidata el)(fd := watch_of (mask fe))"
  by (simp_all add: set_event_def)

lemma fd_mask_set_event:
  "el_wf el \<Longrightarrow> 0 \<le> fd \<Longrightarrow> fd < setsize el \<Longrightarrow>
   fd_mask (set_event fd fe el) fd' = (if fd' = fd then mask fe else fd_mask el fd')"
  by (auto simp: fd_mask_def set_event_def el_wf_def nth_list_update)

lemma fd_mask_maxfd [simp]: "fd_mask (el\<lparr>maxfd := m\<rparr>) fd = fd_mask el fd"
  by (simp add: fd_mask_def)

lemma aeCreateFileEvent_ok:
  assumes wf: "el_wf el" and fd: "0 \<le> fd" "fd < setsize el" and m: "m \<in> {1..3}"
  shows "\<exists>fe. mask fe = fd_mask el fd OR m \<and>
    aeCreateFileEvent True el fd m proc cdata =
      Inr (AE_OK, (set_event fd fe el)\<lparr>maxfd := max (maxfd el) fd\<rparr>) \<and>
    (m AND AE_READABLE \<noteq> 0 \<longrightarrow> rfileProc fe = Some proc)"
proof -
  let ?old = "mask (events el ! nat fd)"
  have old: "?old = fd_mask el fd" using fd by (simp add: fd_mask_def)
  have ne: "?old OR m \<noteq> AE_NONE" using mask_or_0 [of ?old m] el_wf_watch [OF wf fd] m
    by (simp add: old AE_NONE_def)
  have "aeApiAddEvent True el fd m = (0, el\<lparr>apidata := (apidata el)(fd := watch_of (?old OR m))\<rparr>)"
    using el_wf_watch [OF wf fd] ne
    by (simp add: aeApiAddEvent_def epoll_ctl_def Let_def old watch_of_def or.commute)
  then show ?thesis
    using fd by (auto simp: aeCreateFileEvent_def Let_def set_event_def old max_def
        intro!: exI [of _ "let fe = events el ! nat fd; fe = fe\<lparr>mask := mask fe OR m\<rparr>;
          fe = (if m AND AE_READABLE \<noteq> 0 then fe\<lparr>rfileProc := Some proc\<rparr> else fe);
          fe = (if m AND AE_WRITABLE \<noteq> 0 then fe\<lparr>wfileProc := Some proc\<rparr> else fe)
        in fe\<lparr>clientData := cdata\<rparr>"])
qed

lemma el_wf_add:
  assumes wf: "el_wf el" and fd: "0 \<le> fd" "fd < setsize el"
    and fe: "mask fe \<in> {0..3}" "mask fe \<noteq> AE_NONE"
  shows "el_wf ((set_event fd fe el)\<lparr>maxfd := max (maxfd el) fd\<rparr>)"
  using assms fd_mask_set_event [OF wf fd, of fe]
  unfolding el_wf_def by (auto simp: max_def)

lemma el_wf_remove:
  assumes wf: "el_wf el" and fd: "0 \<le> fd" "fd < setsize el" and fe: "mask fe \<in> {0..3}"
  shows "el_wf (if fd = maxfd el \<and> mask fe = AE_NONE
                then (set_event fd fe el)\<lparr>maxfd := scan_down (events (set_event fd fe el)) (nat (maxfd el))\<rparr>
                else if fd_mask el fd = AE_NONE then el else set_event fd fe el)"
proof -
  note masks = fd_mask_set_event [OF wf fd, of fe]
  consider (top) "fd = maxfd el \<and> mask fe = AE_NONE"
    | (none) "\<not> (fd = maxfd el \<and> mask fe = AE_NONE)" "fd_mask el fd = AE_NONE"
    | (other) "\<not> (fd = maxfd el \<and> mask fe = AE_NONE)" "fd_mask el fd \<noteq> AE_NONE" by blast
  then show ?thesis
  proof cases
    case top
    let ?el = "set_event fd fe el"
    let ?n = "scan_down (events ?el) (nat (maxfd el))"
    have le: "int (nat (maxfd el)) \<le> setsize ?el" using top fd by simp
    note scan = scan_down_fd_mask [OF le] scan_down_spec [of "events ?el" "nat (maxfd el)"]
    have "fd_mask ?el fd' = AE_NONE" if "?n < fd'" for fd'
      using that top scan(2) [of fd'] masks [of fd'] wf fd unfolding el_wf_def
      by (cases "fd' < maxfd el") (auto simp: not_less le_less)
    moreover have "\<forall>fd. fd_mask ?el fd \<in> {0..3}"
      using wf fe masks unfolding el_wf_def by auto
    moreover have "\<forall>fd. 0 \<le> fd \<longrightarrow> fd < setsize ?el \<longrightarrow> apidata ?el fd = watch_of (fd_mask ?el fd)"
      using wf masks unfolding el_wf_def by auto
    moreover have "length (events ?el) = nat (setsize ?el)" using wf by (simp add: el_wf_def)
    ultimately have "el_wf (?el\<lparr>maxfd := ?n\<rparr>)"
      using scan(1,3) by (simp add: el_wf_def)
    then show ?thesis unfolding if_P [OF top] .
  next
    case none
    then show ?thesis using wf by (simp only: if_False if_True simp_thms)
  next
    case other
    have "fd \<le> maxfd el" using other(2) wf unfolding el_wf_def by (meson not_le)
    then have "el_wf (set_event fd fe el)"
      using other wf fd fe masks unfolding el_wf_def by auto
    then show ?thesis using other by (simp only: if_False simp_thms)
  qed
qed

lemma aeDeleteFileEvent_ok:
  assumes wf: "el_wf el" and fd: "0 \<le> fd" "fd < setsize el" and m: "m \<in> {0..3}"
  shows "\<exists>el'. aeDeleteFileEvent el fd m = Inr el' \<and> el_wf el' \<and> setsize el' = setsize el \<and>
    (\<forall>fd'. fd_mask el' fd' = (if fd' = fd then fd_mask el fd AND NOT m else fd_mask el fd'))"
proof (cases "fd_mask el fd = AE_NONE")
  case True
  then show ?thesis
    using fd wf by (auto simp: aeDeleteFileEvent_def fd_mask_def AE_NONE_def)
next
  case False
  have old: "mask (events el ! nat fd) = fd_mask el fd" using fd by (simp add: fd_mask_def)
  obtain fe where fe: "fe = (events el ! nat fd)\<lparr>mask := mask (events el ! nat fd) AND NOT m\<rparr>" by simp
  then have mfe: "mask fe = fd_mask el fd AND NOT m" by (simp add: old)
  have range: "mask fe \<in> {0..3}"
    unfolding mfe using el_wf_watch [OF wf fd] m by (intro mask_and_not) auto
  have api: "aeApiDelEvent el fd m = el\<lparr>apidata := (apidata el)(fd := watch_of (mask fe))\<rparr>"
    using el_wf_watch [OF wf fd] False
    by (simp add: aeApiDelEvent_def epoll_ctl_def Let_def old watch_of_def mfe)
  have del: "aeDeleteFileEvent el fd m =
      Inr (if fd = maxfd el \<and> mask fe = AE_NONE
           then (set_event fd fe el)\<lparr>maxfd := scan_down (events (set_event fd fe el)) (nat (maxfd el))\<rparr>
           else if fd_mask el fd = AE_NONE then el else set_event fd fe el)"
  proof -
    have "\<not> setsize el \<le> fd" "\<not> fd < 0" "mask (events el ! nat fd) \<noteq> AE_NONE"
      using fd False old by auto
    then show ?thesis
      unfolding aeDeleteFileEvent_def api Let_def set_event_def fe using False
      by (cases "fd = maxfd el") simp_all
  qed
  show ?thesis
    unfolding del using el_wf_remove [OF wf fd range] fd_mask_set_event [OF wf fd, of fe] False
    by (auto simp: mfe)
qed

subsection \<open>The descriptor table as a map\<close>

text \<open>
  The calls of a client with valid arguments.  The abstract state is the mask of every
  descriptor; a registration adds bits, a removal takes them away.
\<close>

datatype ev_kind = R | W | RW

fun ev_mask :: "ev_kind \<Rightarrow> int" where
  "ev_mask R = AE_READABLE"
| "ev_mask W = AE_WRITABLE"
| "ev_mask RW = AE_READABLE OR AE_WRITABLE"

datatype 'h fd_op = Register nat ev_kind 'h nat | Remove nat ev_kind | GetMask nat

fun fd_call :: "'h fd_op \<Rightarrow> 'h aeEventLoop \<Rightarrow> (int \<times> 'h aeEventLoop) option" where
  "fd_call (Register fd k proc cdata) el =
     (case aeCreateFileEvent True el (int fd) (ev_mask k) proc cdata of Inl e \<Rightarrow> None | Inr r \<Rightarrow> Some r)"
| "fd_call (Remove fd k) el =
     (case aeDeleteFileEvent el (int fd) (ev_mask k) of Inl e \<Rightarrow> None | Inr el' \<Rightarrow> Some (0, el'))"
| "fd_call (GetMask fd) el =
     (case aeGetFileEvents el (int fd) of Inl e \<Rightarrow> None | Inr r \<Rightarrow> Some (r, el))"

fun fd_spec :: "int \<Rightarrow> 'h fd_op \<Rightarrow> (int \<Rightarrow> int) \<Rightarrow> int \<times> (int \<Rightarrow> int)" where
  "fd_spec sz (Register fd k proc cdata) m =
     (if int fd < sz then (AE_OK, m(int fd := m (int fd) OR ev_mask k)) else (AE_ERR, m))"
| "fd_spec sz (Remove fd k) m =
     (0, if int fd < sz then m(int fd := m (int fd) AND NOT (ev_mask k)) else m)"
| "fd_spec sz (GetMask fd) m = (m (int fd), m)"

lemma ev_mask_range: "ev_mask k \<in> {1..3}"
  by (cases k) (simp_all add: AE_READABLE_def AE_WRITABLE_def)

lemma fd_call_sim:
  assumes wf: "el_wf el \<and> setsize el = sz"
  shows "\<exists>el'. fd_call x el = Some (fst (fd_spec sz x (fd_mask el)), el') \<and>
           (el_wf el' \<and> setsize el' = sz) \<and> fd_mask el' = snd (fd_spec sz x (fd_mask el))"
proof (cases x)
  case (Register fd k proc cdata)
  show ?thesis
  proof (cases "int fd < sz")
    case True
    then have fd: "0 \<le> int fd" "int fd < setsize el" using wf by auto
    note watch = el_wf_watch [OF conjunct1 [OF wf] fd]
    obtain fe where fe: "mask fe = fd_mask el (int fd) OR ev_mask k"
      "aeCreateFileEvent True el (int fd) (ev_mask k) proc cdata =
         Inr (AE_OK, (set_event (int fd) fe el)\<lparr>maxfd := max (maxfd el) (int fd)\<rparr>)"
      using aeCreateFileEvent_ok [OF conjunct1 [OF wf] fd ev_mask_range, of k proc cdata] by blast
    have "mask fe \<in> {0..3}" "mask fe \<noteq> AE_NONE"
      using mask_or [of "fd_mask el (int fd)" "ev_mask k"] mask_or_0 [of "fd_mask el (int fd)" "ev_mask k"]
        watch ev_mask_range [of k] by (simp_all add: fe(1) AE_NONE_def)
    note el_wf_add [OF conjunct1 [OF wf] fd this]
    then show ?thesis
      using Register True wf fe fd_mask_set_event [OF conjunct1 [OF wf] fd, of fe] by (auto simp: fun_eq_iff)
  next
    case False
    then show ?thesis using Register wf by (simp add: aeCreateFileEvent_def)
  qed
next
  case (Remove fd k)
  show ?thesis
  proof (cases "int fd < sz")
    case True
    have m: "ev_mask k \<in> {0..3}" using ev_mask_range [of k] by auto
    then show ?thesis
      using Remove True wf aeDeleteFileEvent_ok [OF conjunct1 [OF wf], of "int fd", OF _ _ m]
      by (auto simp: fun_eq_iff)
  next
    case False
    then show ?thesis using Remove wf by (simp add: aeDeleteFileEvent_def)
  qed
next
  case (GetMask fd)
  then show ?thesis using wf by (auto simp: aeGetFileEvents_def fd_mask_def AE_NONE_def)
qed

interpretation fd_table: simulation fd_call "fd_spec 1024" "\<lambda>el. el_wf el \<and> setsize el = 1024" fd_mask
  by unfold_locales (rule fd_call_sim)

text \<open>
  C33. The event table of the proxy's loop is a map from descriptors to masks, and the kernel's
  interest set follows it: after \<open>aeCreateEventLoop(1024)\<close> and any registrations, removals and
  queries, on a kernel whose \<open>epoll_ctl\<close> refuses only what it has to, the answers are those of the
  map, \<open>maxfd\<close> is the highest registered descriptor (or -1), and the kernel watches exactly the
  registered descriptors for their events.
\<close>

theorem event_table_is_a_map:
  assumes "aeCreateEventLoop now junk True True 1024 = Some el"
  shows "\<exists>el'. run_calls fd_call ops el =
           Some (fst (run_spec (fd_spec 1024) ops (\<lambda>fd. AE_NONE)), el') \<and>
         fd_mask el' = snd (run_spec (fd_spec 1024) ops (\<lambda>fd. AE_NONE)) \<and> el_wf el'"
proof -
  have el: "el_wf el \<and> setsize el = 1024" "fd_mask el = (\<lambda>fd. AE_NONE)"
    using aeCreateEventLoop_wf [OF assms] assms by (auto simp: aeCreateEventLoop_def)
  show ?thesis using fd_table.run_sim [OF el(1), of ops] unfolding el(2) by blast
qed

text \<open>
  Closing a descriptor without \<open>aeDeleteFileEvent\<close> (as \<open>acceptTcpHandler\<close> does with the old
  \<open>client_fd\<close>) poisons its slot: the kernel forgets the descriptor but the table keeps its
  mask, so the next registration of the same number is a \<open>EPOLL_CTL_MOD\<close> the kernel refuses
  and \<open>aeCreateFileEvent\<close> returns \<open>AE_ERR\<close>, whatever the mask.
\<close>

theorem close_without_delete_poisons_slot:
  assumes "el_wf el" and "0 \<le> fd" and "fd < setsize el" and "m \<in> {1..3}"
  shows "\<exists>el'. aeCreateFileEvent True el fd m proc cdata = Inr (AE_OK, el') \<and>
           aeCreateFileEvent True (epoll_close fd el') fd m2 proc2 cdata2 =
             Inr (AE_ERR, epoll_close fd el')"
proof -
  obtain fe where fe: "mask fe = fd_mask el fd OR m"
    "aeCreateFileEvent True el fd m proc cdata =
       Inr (AE_OK, (set_event fd fe el)\<lparr>maxfd := max (maxfd el) fd\<rparr>)"
    using aeCreateFileEvent_ok [OF assms] by blast
  let ?el = "(set_event fd fe el)\<lparr>maxfd := max (maxfd el) fd\<rparr>"
  have "nat fd < length (events el)" using assms by (simp add: el_wf_def)
  then have "mask (events ?el ! nat fd) \<noteq> AE_NONE"
    using mask_or_0 [of "fd_mask el fd" m] el_wf_watch [OF assms(1-3)] assms(4)
    by (simp add: set_event_def fe(1) AE_NONE_def)
  then have "aeApiAddEvent True (epoll_close fd ?el) fd m2 = (-1, epoll_close fd ?el)"
    by (simp add: aeApiAddEvent_def epoll_close_def epoll_ctl_def Let_def)
  then have "aeCreateFileEvent True (epoll_close fd ?el) fd m2 proc2 cdata2 = Inr (AE_ERR, epoll_close fd ?el)"
    using assms(2,3) by (simp add: aeCreateFileEvent_def epoll_close_def)
  then show ?thesis using fe(2) by blast
qed

text \<open>A fresh loop on which the properties are applied.\<close>

definition fresh_loop :: "'h aeEventLoop" where
  "fresh_loop = the (aeCreateEventLoop 0 (\<lambda>i. \<lparr>mask = 3, rfileProc = None, wfileProc = None, clientData = 0\<rparr>)
                       True True 1024)"

lemma fresh_loop_ok:
  "aeCreateEventLoop 0 (\<lambda>i. \<lparr>mask = 3, rfileProc = None, wfileProc = None, clientData = 0\<rparr>)
     True True 1024 = Some fresh_loop"
  by (simp add: fresh_loop_def aeCreateEventLoop_def)

lemma fresh_loop_setsize: "setsize fresh_loop = 1024"
  by (simp add: fresh_loop_def aeCreateEventLoop_def)

lemma fresh_loop_wf: "el_wf fresh_loop"
  using aeCreateEventLoop_wf [OF fresh_loop_ok] by blast

theorem event_table_is_a_map_witness:
  "\<exists>el'. run_calls fd_call [Register 7 RW (0::nat) 0, Remove 7 W, GetMask 7] fresh_loop =
           Some ([AE_OK, 0, 1], el') \<and> el_wf el'"
  using event_table_is_a_map [OF fresh_loop_ok [where ?'a = nat], of "[Register 7 RW (0::nat) 0, Remove 7 W, GetMask 7]"]
  by (auto simp: Let_def AE_NONE_def AE_READABLE_def AE_WRITABLE_def)

theorem close_without_delete_poisons_slot_witness:
  "\<exists>el'. aeCreateFileEvent True fresh_loop 9 AE_READABLE (0::nat) 0 = Inr (AE_OK, el') \<and>
         aeCreateFileEvent True (epoll_close 9 el') 9 AE_READABLE 0 0 = Inr (AE_ERR, epoll_close 9 el')"
  by (rule close_without_delete_poisons_slot)
    (simp_all add: fresh_loop_wf fresh_loop_setsize AE_READABLE_def)

subsection \<open>Timers\<close>

text \<open>The due time of a timer, in milliseconds.\<close>

definition due :: "'h aeTimeEvent \<Rightarrow> int" where
  "due te = when_sec te * 1000 + when_ms te"

definition timer_wf :: "'h aeTimeEvent \<Rightarrow> bool" where
  "timer_wf te \<longleftrightarrow> 0 \<le> when_ms te \<and> when_ms te < 1000"

lemma sec_ms_less:
  "timer_wf te \<Longrightarrow> timer_wf u \<Longrightarrow>
   when_sec te < when_sec u \<or> when_sec te = when_sec u \<and> when_ms te < when_ms u \<longleftrightarrow> due te < due u"
  unfolding timer_wf_def due_def by auto

text \<open>The walk keeps a minimum of what it has seen.\<close>

lemma nearest_loop_min:
  "\<forall>te \<in> set tes. timer_wf te \<Longrightarrow> timer_wf n \<Longrightarrow>
   \<exists>r. nearest_loop tes (Some n) = Some r \<and> r \<in> insert n (set tes) \<and>
       (\<forall>u \<in> insert n (set tes). due r \<le> due u)"
proof (induction tes arbitrary: n)
  case Nil
  then show ?case by simp
next
  case (Cons te tes)
  show ?case
  proof (cases "due te < due n")
    case True
    then show ?thesis using Cons.IH [of te] Cons.prems sec_ms_less [of te n] by auto
  next
    case False
    then show ?thesis using Cons.IH [of n] Cons.prems sec_ms_less [of te n] by auto
  qed
qed

text \<open>
  \<open>aeSearchNearestTimer\<close> returns no timer exactly when there is none, and otherwise a timer
  of the list that is due no later than any other.
\<close>

theorem nearest_timer_is_earliest:
  assumes "\<forall>te \<in> set (timeEventHead el). timer_wf te"
  shows "case aeSearchNearestTimer el of
           None \<Rightarrow> timeEventHead el = []
         | Some te \<Rightarrow> te \<in> set (timeEventHead el) \<and> (\<forall>u \<in> set (timeEventHead el). due te \<le> due u)"
proof (cases "timeEventHead el")
  case Nil
  then show ?thesis by (simp add: aeSearchNearestTimer_def)
next
  case (Cons te tes)
  then show ?thesis
    using nearest_loop_min [of tes te] assms by (auto simp: aeSearchNearestTimer_def)
qed

text \<open>Two timers set 250 and 100 milliseconds ahead.\<close>

definition two_timers :: "nat aeEventLoop" where
  "two_timers = snd (aeCreateTimeEvent True 1900 (snd (aeCreateTimeEvent True 1900 fresh_loop 250 0 None)) 100 0 None)"

lemma two_timers_head:
  "timeEventHead two_timers =
     [\<lparr>te_id = 1, when_sec = 2, when_ms = 0, timeProc = 0, finalizerProc = None\<rparr>,
      \<lparr>te_id = 0, when_sec = 2, when_ms = 150, timeProc = 0, finalizerProc = None\<rparr>]"
  by (simp add: two_timers_def aeCreateTimeEvent_def aeAddMillisecondsToNow_def aeGetTime_def Let_def
      fresh_loop_def aeCreateEventLoop_def signed_divide_int_def signed_modulo_int_def)

theorem nearest_timer_is_earliest_witness:
  "aeSearchNearestTimer two_timers =
     Some \<lparr>te_id = 1, when_sec = 2, when_ms = 0, timeProc = 0, finalizerProc = None\<rparr> \<and>
   (case aeSearchNearestTimer two_timers of
      None \<Rightarrow> timeEventHead two_timers = []
    | Some te \<Rightarrow> te \<in> set (timeEventHead two_timers) \<and>
                 due te \<le> due \<lparr>te_id = 0, when_sec = 2, when_ms = 150, timeProc = 0, finalizerProc = None\<rparr>)"
  using nearest_timer_is_earliest [of two_timers]
  by (simp add: two_timers_head aeSearchNearestTimer_def timer_wf_def due_def)

lemma aeAddMillisecondsToNow_due:
  assumes "0 \<le> ms"
  shows "case aeAddMillisecondsToNow now ms of (s, m) \<Rightarrow> s * 1000 + m = now + ms \<and> 0 \<le> m \<and> m < 1000"
proof -
  have "ms sdiv 1000 = ms div 1000" "ms smod 1000 = ms mod 1000"
    using assms by (simp_all add: signed_divide_int_def signed_modulo_int_def sgn_if)
  moreover have "now div 1000 * 1000 + now mod 1000 = now" "ms div 1000 * 1000 + ms mod 1000 = ms"
    by simp_all
  moreover have "0 \<le> now mod 1000" "now mod 1000 < 1000" "0 \<le> ms mod 1000" "ms mod 1000 < 1000"
    by simp_all
  moreover from this have "now mod 1000 + ms mod 1000 < 2000" by linarith
  ultimately show ?thesis
    by (simp add: aeAddMillisecondsToNow_def aeGetTime_def Let_def distrib_right)
qed

text \<open>
  The list of timers as a map from identifiers to due times and procedures.
\<close>

definition timers_wf :: "'h aeEventLoop \<Rightarrow> bool" where
  "timers_wf el \<longleftrightarrow> distinct (map te_id (timeEventHead el)) \<and>
     (\<forall>te \<in> set (timeEventHead el). te_id te < timeEventNextId el \<and> timer_wf te)"

definition timer_map :: "'h aeTimeEvent list \<Rightarrow> int \<Rightarrow> (int \<times> 'h) option" where
  "timer_map tes = map_of (map (\<lambda>te. (te_id te, due te, timeProc te)) tes)"

lemma unlink_timer_spec:
  "distinct (map te_id tes) \<Longrightarrow>
   case unlink_timer i tes of
     None \<Rightarrow> timer_map tes i = None
   | Some (te, rest) \<Rightarrow> te \<in> set tes \<and> te_id te = i \<and> timer_map tes i = Some (due te, timeProc te) \<and>
       distinct (map te_id rest) \<and> set rest \<subseteq> set tes \<and> timer_map rest = (timer_map tes)(i := None)"
proof (induction tes)
  case Nil
  then show ?case by (simp add: timer_map_def)
next
  case (Cons u tes)
  show ?case
  proof (cases "te_id u = i")
    case True
    then have "timer_map tes i = None"
      using Cons.prems by (auto simp: timer_map_def map_of_eq_None_iff)
    then show ?thesis
      using True Cons.prems by (auto simp: timer_map_def fun_eq_iff)
  next
    case False
    then show ?thesis
      using Cons by (auto simp: timer_map_def fun_eq_iff split: option.splits)
  qed
qed

datatype 'h timer_op = StartTimer int nat 'h | CancelTimer int

text \<open>\<open>StartTimer now ms proc\<close> is a timer set \<open>ms\<close> milliseconds ahead when the clock shows \<open>now\<close>.\<close>

fun timer_call :: "'h timer_op \<Rightarrow> 'h aeEventLoop \<Rightarrow> (int \<times> 'h aeEventLoop) option" where
  "timer_call (StartTimer now ms proc) el = Some (aeCreateTimeEvent True now el (int ms) proc None)"
| "timer_call (CancelTimer i) el = (case aeDeleteTimeEvent el i of (r, f, el') \<Rightarrow> Some (r, el'))"

fun timer_spec :: "'h timer_op \<Rightarrow> int \<times> (int \<Rightarrow> (int \<times> 'h) option) \<Rightarrow>
    int \<times> int \<times> (int \<Rightarrow> (int \<times> 'h) option)" where
  "timer_spec (StartTimer now ms proc) (next, m) = (next, next + 1, m(next := Some (now + int ms, proc)))"
| "timer_spec (CancelTimer i) (next, m) = (if m i = None then AE_ERR else AE_OK, next, m(i := None))"

lemma timer_call_sim:
  assumes wf: "timers_wf el"
  shows "\<exists>el'. timer_call x el = Some (fst (timer_spec x (timeEventNextId el, timer_map (timeEventHead el))), el') \<and>
    timers_wf el' \<and> (timeEventNextId el', timer_map (timeEventHead el')) =
      snd (timer_spec x (timeEventNextId el, timer_map (timeEventHead el)))"
proof (cases x)
  case (StartTimer now ms proc)
  obtain s m where sm: "aeAddMillisecondsToNow now (int ms) = (s, m)" by (cases "aeAddMillisecondsToNow now (int ms)")
  then have "s * 1000 + m = now + int ms" "0 \<le> m" "m < 1000"
    using aeAddMillisecondsToNow_due [of "int ms" now] by auto
  moreover have "timeEventNextId el \<notin> te_id ` set (timeEventHead el)"
    using wf by (auto simp: timers_wf_def)
  ultimately show ?thesis
    using wf StartTimer sm
    by (auto simp: aeCreateTimeEvent_def timers_wf_def timer_wf_def timer_map_def due_def Let_def)
next
  case (CancelTimer i)
  show ?thesis
  proof (cases "unlink_timer i (timeEventHead el)")
    case None
    then show ?thesis
      using CancelTimer wf unlink_timer_spec [of "timeEventHead el" i]
      by (auto simp: aeDeleteTimeEvent_def timers_wf_def fun_eq_iff)
  next
    case (Some r)
    obtain te rest where r: "r = (te, rest)" by (cases r)
    then show ?thesis
      using CancelTimer Some wf unlink_timer_spec [of "timeEventHead el" i]
      by (auto simp: aeDeleteTimeEvent_def timers_wf_def)
  qed
qed

interpretation timers: simulation timer_call timer_spec timers_wf
  "\<lambda>el. (timeEventNextId el, timer_map (timeEventHead el))"
  by unfold_locales (rule timer_call_sim)

text \<open>
  The timers of a loop are a map from identifiers to due times: starting with no timer,
  any sequence of creations (with delays of at least 0 milliseconds) and deletions hands out
  the identifiers 0, 1, 2, ... in order, deletes exactly the named timer, reports an unknown
  one, and every timer left is due exactly its delay after the clock reading of its creation.
\<close>

theorem timers_are_a_map:
  assumes "aeCreateEventLoop now junk True True sz = Some el"
  shows "\<exists>el'. run_calls timer_call ops el = Some (fst (run_spec timer_spec ops (0, \<lambda>i. None)), el') \<and>
           timers_wf el' \<and>
           (timeEventNextId el', timer_map (timeEventHead el')) =
             snd (run_spec timer_spec ops (0, \<lambda>i. None))"
proof -
  have el: "timers_wf el" "timeEventNextId el = 0" "timer_map (timeEventHead el) = (\<lambda>i. None)"
    using assms by (auto simp: aeCreateEventLoop_def timers_wf_def timer_map_def fun_eq_iff)
  show ?thesis using timers.run_sim [OF el(1), of ops] unfolding el(2,3) by blast
qed

theorem timers_are_a_map_witness:
  "\<exists>el'. run_calls timer_call [StartTimer 950 100 (5::nat), StartTimer 0 7 6, CancelTimer 1, CancelTimer 3] fresh_loop =
           Some ([0, 1, AE_OK, AE_ERR], el') \<and> timer_map (timeEventHead el') 0 = Some (1050, 5)"
  using timers_are_a_map [OF fresh_loop_ok, of "[StartTimer 950 100 (5::nat), StartTimer 0 7 6, CancelTimer 1, CancelTimer 3]"]
  by (auto simp: Let_def)

lemma usec_to_msec: "(x * 1000) sdiv 1000 = x" for x :: int
  by (simp add: signed_divide_int_def sgn_mult abs_mult sgn_mult_abs)

lemma timeout_arith:
  fixes s d :: int
  assumes d: "- 1000 < d" "d < 1000"
  shows "(if d < 0 then max 0 (s - 1) * 1000 + (d + 1000) else max 0 s * 1000 + d) =
         (if 0 \<le> s * 1000 + d then s * 1000 + d else (s * 1000 + d) mod 1000)"
proof -
  have red: "(s * 1000 + d) mod 1000 = d mod 1000" by (rule mod_mult_self3)
  show ?thesis
  proof (cases "d < 0")
    case neg: True
    have "(d + 1000) mod 1000 = d + 1000" using neg d by (intro mod_pos_pos_trivial) auto
    then have m: "(s * 1000 + d) mod 1000 = d + 1000" using red by simp
    show ?thesis
    proof (cases "1 \<le> s")
      case True
      then have "0 \<le> s * 1000 + d" "max 0 (s - 1) = s - 1" using d by auto
      then show ?thesis using neg by simp
    next
      case False
      then have "\<not> 0 \<le> s * 1000 + d" "max 0 (s - 1) = 0" using neg by auto
      then show ?thesis using neg m by simp
    qed
  next
    case pos: False
    have "d mod 1000 = d" using pos d by (intro mod_pos_pos_trivial) auto
    then have m: "(s * 1000 + d) mod 1000 = d" using red by simp
    show ?thesis
    proof (cases "0 \<le> s")
      case True
      then have "0 \<le> s * 1000 + d" "max 0 s = s" using pos by auto
      then show ?thesis using pos by simp
    next
      case False
      then have "\<not> 0 \<le> s * 1000 + d" "max 0 s = 0" using d by auto
      then show ?thesis using pos m by simp
    qed
  qed
qed

text \<open>
  With a timer pending, a blocking pass gives \<open>epoll_wait\<close> exactly the time left until the
  earliest timer.  When that timer is already overdue, only the seconds are clamped to zero
  and the milliseconds are not: the pass still sleeps for the time left modulo one second.
\<close>

theorem poll_sleeps_until_nearest:
  assumes "aeSearchNearestTimer el = Some te" and "timer_wf te"
  shows "epoll_timeout (poll_timeout now AE_ALL_EVENTS el) =
           (if now \<le> due te then due te - now else (due te - now) mod 1000)"
proof -
  define s where "s = when_sec te - now div 1000"
  define d where "d = when_ms te - now mod 1000"
  have "0 \<le> now mod 1000" "now mod 1000 < 1000" by simp_all
  then have d: "- 1000 < d" "d < 1000" using assms(2) by (auto simp: timer_wf_def d_def)
  have diff: "due te - now = s * 1000 + d"
    using div_mult_mod_eq [of now 1000] unfolding due_def s_def d_def left_diff_distrib by linarith
  have "AE_ALL_EVENTS AND AE_TIME_EVENTS \<noteq> 0" "AE_ALL_EVENTS AND AE_DONT_WAIT = 0"
    by (simp_all add: AE_ALL_EVENTS_def AE_FILE_EVENTS_def AE_TIME_EVENTS_def AE_DONT_WAIT_def)
  then have "poll_timeout now AE_ALL_EVENTS el =
      Some (if d < 0 then (max 0 (s - 1), (d + 1000) * 1000) else (max 0 s, d * 1000))"
    using assms(1) d by (auto simp: poll_timeout_def aeGetTime_def Let_def s_def d_def max_def)
  then have "epoll_timeout (poll_timeout now AE_ALL_EVENTS el) =
      (if d < 0 then max 0 (s - 1) * 1000 + (d + 1000) else max 0 s * 1000 + d)"
    by (cases "d < 0") (simp_all only: epoll_timeout_def option.case prod.case usec_to_msec if_True if_False simp_thms)
  then have "epoll_timeout (poll_timeout now AE_ALL_EVENTS el) =
      (if 0 \<le> s * 1000 + d then s * 1000 + d else (s * 1000 + d) mod 1000)"
    by (simp only: timeout_arith [OF d, of s])
  moreover have "now \<le> due te \<longleftrightarrow> 0 \<le> s * 1000 + d" using diff by linarith
  ultimately show ?thesis by (simp only: diff)
qed

theorem poll_sleeps_until_nearest_witness:
  "epoll_timeout (poll_timeout 2300 AE_ALL_EVENTS two_timers) = 700 \<and>
   epoll_timeout (poll_timeout 1900 AE_ALL_EVENTS two_timers) = 100"
  using poll_sleeps_until_nearest
    [of two_timers "\<lparr>te_id = 1, when_sec = 2, when_ms = 0, timeProc = 0, finalizerProc = None\<rparr>"]
  by (simp add: two_timers_head aeSearchNearestTimer_def timer_wf_def due_def)

end
