(* ===== verification/Md5Core.thy ===== *)
theory Md5Core
  imports Prelude
begin

text \<open>
  What the two MD5 routines of the repository share: the four auxiliary functions and the
  operation of a round (\<^verbatim>\<open>proxy/md5.h\<close>), a table-driven compression function in the shape of
  RFC 1321 as the reference, the padded message, and the absorption of a message block by
  block.  The locale \<open>md5_stream\<close> states what a streaming interface promises (an update
  appends to the message, the end yields the digest of the whole); the two implementations
  interpret it, and everything about splitting a message is proved once, in it.
\<close>

type_synonym u8 = "8 word"
type_synonym u32 = "32 word"
type_synonym quad = "u32 \<times> u32 \<times> u32 \<times> u32"

subsection \<open>The macros of md5.h\<close>

definition md5_F :: "u32 \<Rightarrow> u32 \<Rightarrow> u32 \<Rightarrow> u32" where
  "md5_F x y z = (x AND y) OR (NOT x AND z)"

definition md5_G :: "u32 \<Rightarrow> u32 \<Rightarrow> u32 \<Rightarrow> u32" where
  "md5_G x y z = (x AND z) OR (y AND NOT z)"

definition md5_H :: "u32 \<Rightarrow> u32 \<Rightarrow> u32 \<Rightarrow> u32" where
  "md5_H x y z = (x XOR y) XOR z"

definition md5_I :: "u32 \<Rightarrow> u32 \<Rightarrow> u32 \<Rightarrow> u32" where
  "md5_I x y z = y XOR (x OR NOT z)"

definition ROTATE_LEFT :: "u32 \<Rightarrow> nat \<Rightarrow> u32" where
  "ROTATE_LEFT x n = push_bit n x OR drop_bit (32 - n) x"

definition FF :: "u32 \<Rightarrow> u32 \<Rightarrow> u32 \<Rightarrow> u32 \<Rightarrow> u32 \<Rightarrow> nat \<Rightarrow> u32 \<Rightarrow> u32" where
  "FF a b c d x s ac = ROTATE_LEFT (a + (md5_F b c d + x + ac)) s + b"

definition GG :: "u32 \<Rightarrow> u32 \<Rightarrow> u32 \<Rightarrow> u32 \<Rightarrow> u32 \<Rightarrow> nat \<Rightarrow> u32 \<Rightarrow> u32" where
  "GG a b c d x s ac = ROTATE_LEFT (a + (md5_G b c d + x + ac)) s + b"

definition HH :: "u32 \<Rightarrow> u32 \<Rightarrow> u32 \<Rightarrow> u32 \<Rightarrow> u32 \<Rightarrow> nat \<Rightarrow> u32 \<Rightarrow> u32" where
  "HH a b c d x s ac = ROTATE_LEFT (a + (md5_H b c d + x + ac)) s + b"

definition II :: "u32 \<Rightarrow> u32 \<Rightarrow> u32 \<Rightarrow> u32 \<Rightarrow> u32 \<Rightarrow> nat \<Rightarrow> u32 \<Rightarrow> u32" where
  "II a b c d x s ac = ROTATE_LEFT (a + (md5_I b c d + x + ac)) s + b"

subsection \<open>The reference: one step per index\<close>

definition md5_T :: "u32 list" where
  "md5_T =
     [0xd76aa478, 0xe8c7b756, 0x242070db, 0xc1bdceee,
      0xf57c0faf, 0x4787c62a, 0xa8304613, 0xfd469501,
      0x698098d8, 0x8b44f7af, 0xffff5bb1, 0x895cd7be,
      0x6b901122, 0xfd987193, 0xa679438e, 0x49b40821,
      0xf61e2562, 0xc040b340, 0x265e5a51, 0xe9b6c7aa,
      0xd62f105d, 0x2441453, 0xd8a1e681, 0xe7d3fbc8,
      0x21e1cde6, 0xc33707d6, 0xf4d50d87, 0x455a14ed,
      0xa9e3e905, 0xfcefa3f8, 0x676f02d9, 0x8d2a4c8a,
      0xfffa3942, 0x8771f681, 0x6d9d6122, 0xfde5380c,
      0xa4beea44, 0x4bdecfa9, 0xf6bb4b60, 0xbebfbc70,
      0x289b7ec6, 0xeaa127fa, 0xd4ef3085, 0x4881d05,
      0xd9d4d039, 0xe6db99e5, 0x1fa27cf8, 0xc4ac5665,
      0xf4292244, 0x432aff97, 0xab9423a7, 0xfc93a039,
      0x655b59c3, 0x8f0ccc92, 0xffeff47d, 0x85845dd1,
      0x6fa87e4f, 0xfe2ce6e0, 0xa3014314, 0x4e0811a1,
      0xf7537e82, 0xbd3af235, 0x2ad7d2bb, 0xeb86d391]"

definition md5_word_index :: "nat \<Rightarrow> nat" where
  "md5_word_index i =
     (if i < 16 then i
      else if i < 32 then (5 * i + 1) mod 16
      else if i < 48 then (3 * i + 5) mod 16
      else 7 * i mod 16)"

definition md5_shift :: "nat \<Rightarrow> nat" where
  "md5_shift i =
     (if i < 16 then [7, 12, 17, 22] ! (i mod 4)
      else if i < 32 then [5, 9, 14, 20] ! (i mod 4)
      else if i < 48 then [4, 11, 16, 23] ! (i mod 4)
      else [6, 10, 15, 21] ! (i mod 4))"

definition md5_fun :: "nat \<Rightarrow> u32 \<Rightarrow> u32 \<Rightarrow> u32 \<Rightarrow> u32" where
  "md5_fun i = (if i < 16 then md5_F else if i < 32 then md5_G else if i < 48 then md5_H else md5_I)"

definition md5_op :: "u32 list \<Rightarrow> nat \<Rightarrow> quad \<Rightarrow> u32" where
  "md5_op x i q =
     (let (a, b, c, d) = q
      in ROTATE_LEFT (a + (md5_fun i b c d + x ! md5_word_index i + md5_T ! i)) (md5_shift i) + b)"

definition md5_step :: "u32 list \<Rightarrow> quad \<Rightarrow> nat \<Rightarrow> quad" where
  "md5_step x q i = (let (a, b, c, d) = q in (d, md5_op x i q, b, c))"

definition quad_add :: "quad \<Rightarrow> quad \<Rightarrow> quad" where
  "quad_add p q = (let (a, b, c, d) = p; (a', b', c', d') = q in (a + a', b + b', c + c', d + d'))"

text \<open>The sixteen words of a block, least significant byte first.\<close>

definition le_word :: "u8 \<Rightarrow> u8 \<Rightarrow> u8 \<Rightarrow> u8 \<Rightarrow> u32" where
  "le_word b0 b1 b2 b3 =
     ucast b0 OR push_bit 8 (ucast b1) OR push_bit 16 (ucast b2) OR push_bit 24 (ucast b3)"

definition block_words :: "u8 list \<Rightarrow> u32 list" where
  "block_words bs =
     map (\<lambda>i. le_word (bs ! (4 * i)) (bs ! (4 * i + 1)) (bs ! (4 * i + 2)) (bs ! (4 * i + 3))) [0..<16]"

definition md5_compress :: "quad \<Rightarrow> u8 list \<Rightarrow> quad" where
  "md5_compress q bs = quad_add q (foldl (md5_step (block_words bs)) q [0..<64])"

definition md5_iv :: quad where
  "md5_iv = (0x67452301, 0xEFCDAB89, 0x98BADCFE, 0x10325476)"

text \<open>Absorbing a byte string: whole blocks are compressed, the rest is kept.\<close>

function absorb :: "quad \<Rightarrow> u8 list \<Rightarrow> quad \<times> u8 list" where
  "absorb st xs =
     (if length xs < 64 then (st, xs) else absorb (md5_compress st (take 64 xs)) (drop 64 xs))"
  by pat_completeness auto
termination
  by (relation "measure (\<lambda>(st, xs). length xs)") auto

declare absorb.simps [simp del]

definition le_bytes :: "u32 \<Rightarrow> u8 list" where
  "le_bytes w = [ucast w, ucast (drop_bit 8 w), ucast (drop_bit 16 w), ucast (drop_bit 24 w)]"

definition quad_bytes :: "quad \<Rightarrow> u8 list" where
  "quad_bytes q = (let (a, b, c, d) = q in le_bytes a @ le_bytes b @ le_bytes c @ le_bytes d)"

definition md5_length_bytes :: "nat \<Rightarrow> u8 list" where
  "md5_length_bytes n = le_bytes (of_nat (8 * n)) @ le_bytes (of_nat (8 * n div 2 ^ 32))"

definition md5_padding :: "nat \<Rightarrow> u8 list" where
  "md5_padding n = 0x80 # replicate ((119 - n mod 64) mod 64) 0"

definition md5_digest :: "u8 list \<Rightarrow> u8 list" where
  "md5_digest msg =
     quad_bytes (fst (absorb md5_iv (msg @ md5_padding (length msg) @ md5_length_bytes (length msg))))"

subsection \<open>Absorbing in pieces\<close>

lemma absorb_short [simp]: "length xs < 64 \<Longrightarrow> absorb st xs = (st, xs)"
  by (subst absorb.simps) simp

lemma absorb_block [simp]:
  "64 \<le> length xs \<Longrightarrow> absorb st xs = absorb (md5_compress st (take 64 xs)) (drop 64 xs)"
  by (subst absorb.simps) simp

declare absorb_block [simp del]

lemma absorb_append:
  "absorb st (xs @ ys) = (let (st', r) = absorb st xs in absorb st' (r @ ys))"
proof (induction st xs rule: absorb.induct)
  case (1 st xs)
  then show ?case by (cases "length xs < 64") (simp_all add: absorb_block)
qed

lemma absorb_rest_length: "length (snd (absorb st xs)) = length xs mod 64"
proof (induction st xs rule: absorb.induct)
  case (1 st xs)
  then show ?case
    by (cases "length xs < 64") (simp_all add: absorb_block mod_if [of "length xs" 64])
qed

lemma absorb_rest_less: "length (snd (absorb st xs)) < 64"
  by (simp add: absorb_rest_length)

text \<open>The steps of a fold as a chain of single assignments, the shape the code has.\<close>

lemma fold_md5_step:
  "foldl (md5_step x) (a, b, c, d) (i # is) =
     (let v = md5_op x i (a, b, c, d) in foldl (md5_step x) (d, v, b, c) is)"
  by (simp add: md5_step_def Let_def)

lemma md5_op_rounds:
  "i < 16 \<Longrightarrow> md5_op x i (a, b, c, d) = FF a b c d (x ! md5_word_index i) (md5_shift i) (md5_T ! i)"
  "16 \<le> i \<Longrightarrow> i < 32 \<Longrightarrow>
     md5_op x i (a, b, c, d) = GG a b c d (x ! md5_word_index i) (md5_shift i) (md5_T ! i)"
  "32 \<le> i \<Longrightarrow> i < 48 \<Longrightarrow>
     md5_op x i (a, b, c, d) = HH a b c d (x ! md5_word_index i) (md5_shift i) (md5_T ! i)"
  "48 \<le> i \<Longrightarrow>
     md5_op x i (a, b, c, d) = II a b c d (x ! md5_word_index i) (md5_shift i) (md5_T ! i)"
  by (simp_all add: md5_op_def md5_fun_def FF_def GG_def HH_def II_def)

subsection \<open>The message length in two words\<close>

definition count_rep :: "u32 \<Rightarrow> u32 \<Rightarrow> nat \<Rightarrow> bool" where
  "count_rep lo hi n \<longleftrightarrow> lo = of_nat (8 * n) \<and> hi = of_nat (8 * n div 2 ^ 32)"

lemma count_rep_lo: "count_rep lo hi n \<Longrightarrow> unat lo = 8 * n mod 2 ^ 32"
proof -
  assume "count_rep lo hi n"
  then have "lo = of_nat (8 * n)" by (simp only: count_rep_def)
  then show ?thesis by (simp only: unat_of_nat) simp
qed

lemma count_rep_index:
  assumes "count_rep lo hi n"
  shows "unat (drop_bit 3 lo AND 0x3F) = n mod 64"
proof -
  have "unat (drop_bit 3 lo) = 8 * n mod 2 ^ 32 div 8"
    using count_rep_lo [OF assms] by (simp only: unat_drop_bit_eq) (simp add: drop_bit_eq_div)
  then have "unat (drop_bit 3 lo) = n mod 2 ^ 29"
    by (simp add: mod_mult_mult1 [of 8 n "2 ^ 29", simplified])
  moreover have "drop_bit 3 lo AND 0x3F = drop_bit 3 lo mod 64"
    using take_bit_eq_mask [of 6 "drop_bit 3 lo"] take_bit_eq_mod [of 6 "drop_bit 3 lo"]
    by (simp add: mask_eq_exp_minus_1)
  ultimately show ?thesis
    by (simp add: unat_mod mod_mod_cancel)
qed

lemma bits_of_length:
  "unat (push_bit 3 (of_nat k :: u32)) = 8 * k mod 2 ^ 32"
  by (simp add: push_bit_eq_mult unat_word_ariths unat_of_nat mod_simps mult.commute)

lemma count_rep_add:
  assumes rep: "count_rep lo hi n" and k: "k < 2 ^ 32"
  shows "count_rep (lo + push_bit 3 (of_nat k))
    ((if lo + push_bit 3 (of_nat k) < push_bit 3 (of_nat k) then hi + 1 else hi) + drop_bit 29 (of_nat k))
    (n + k)"
proof -
  let ?M = "2 ^ 32 :: nat" and ?b = "push_bit 3 (of_nat k :: u32)"
  have lo: "unat lo = 8 * n mod ?M" and b: "unat ?b = 8 * k mod ?M"
    using count_rep_lo [OF rep] bits_of_length by simp_all
  have sum: "unat (lo + ?b) = (8 * n mod ?M + 8 * k mod ?M) mod ?M"
    by (simp only: unat_word_ariths lo b) simp
  have carry: "lo + ?b < ?b \<longleftrightarrow> ?M \<le> 8 * n mod ?M + 8 * k mod ?M"
    unfolding word_less_nat_alt sum b
    using mod_less_divisor [of ?M "8 * n"] mod_less_divisor [of ?M "8 * k"]
    by (simp only: mod_if [of "8 * n mod ?M + 8 * k mod ?M"]) auto
  have quot: "8 * (n + k) div ?M = 8 * n div ?M + 8 * k div ?M +
      (if ?M \<le> 8 * n mod ?M + 8 * k mod ?M then 1 else 0)"
    unfolding distrib_left div_add1_eq [of "8 * n" "8 * k" ?M]
    using mod_less_divisor [of ?M "8 * n"] mod_less_divisor [of ?M "8 * k"]
    by (auto simp: div_if)
  have k29: "8 * k div ?M = k div 2 ^ 29" by simp
  have top: "(drop_bit 29 (of_nat k) :: u32) = of_nat (8 * k div ?M)"
    unfolding k29 using k
    by (intro word_unat_eq_iff [THEN iffD2]) (simp add: unat_div unat_of_nat drop_bit_eq_div)
  have "lo + ?b = of_nat (8 * (n + k))"
    using rep by (simp add: count_rep_def push_bit_eq_mult algebra_simps)
  moreover have "hi = of_nat (8 * n div ?M)"
    using rep by (simp only: count_rep_def)
  then have "(if lo + ?b < ?b then hi + 1 else hi) + drop_bit 29 (of_nat k) = of_nat (8 * (n + k) div ?M)"
    unfolding carry quot top by (simp only: of_nat_add of_nat_1 of_nat_0 split: if_split) (simp add: ac_simps)
  ultimately show ?thesis unfolding count_rep_def ..
qed

subsection \<open>What a streaming digest promises\<close>

text \<open>
  \<open>good n\<close> bounds the length of one update (a C integer); \<open>rep c m\<close> says that the context
  \<open>c\<close> has consumed the message \<open>m\<close>.
\<close>

locale md5_stream =
  fixes update :: "'c \<Rightarrow> u8 list \<Rightarrow> 'c"
    and final :: "'c \<Rightarrow> u8 list"
    and rep :: "'c \<Rightarrow> u8 list \<Rightarrow> bool"
    and good :: "nat \<Rightarrow> bool"
  assumes update_rep: "rep c m \<Longrightarrow> good (length xs) \<Longrightarrow> rep (update c xs) (m @ xs)"
    and final_rep: "rep c m \<Longrightarrow> final c = md5_digest m"
begin

lemma updates_rep:
  "rep c m \<Longrightarrow> \<forall>xs \<in> set chunks. good (length xs) \<Longrightarrow>
   rep (foldl update c chunks) (m @ concat chunks)"
proof (induction chunks arbitrary: c m)
  case Nil
  then show ?case by simp
next
  case (Cons xs chunks)
  then have "rep (update c xs) (m @ xs)" by (simp add: update_rep)
  from Cons.IH [OF this] Cons.prems(2) show ?case by simp
qed

lemma chunked_digest:
  "rep c [] \<Longrightarrow> \<forall>xs \<in> set chunks. good (length xs) \<Longrightarrow>
   final (foldl update c chunks) = md5_digest (concat chunks)"
  using updates_rep [of c "[]" chunks] final_rep by simp

end

end
