(* ===== verification/Md5Proxy.thy ===== *)
theory Md5Proxy
  imports Md5Core
begin

text \<open>
  The MD5 of \<^verbatim>\<open>proxy/md5.c\<close> (the same file is \<^verbatim>\<open>nginx/c/myhash/md5.c\<close>) and the server
  choice \<open>hash\<close> of \<^verbatim>\<open>proxy/myhash.c\<close>.  The context is the record \<open>MD5_CTX\<close>; its two count
  words are the 64-bit message length in bits.  The unrolled transform is proved equal to the
  table-driven reference, the streaming interface to the digest of the whole message, and
  \<open>hash\<close> to the sum of the digest bytes modulo the number of slots.
\<close>

subsection \<open>The code\<close>

record MD5_CTX =
  count0 :: u32
  count1 :: u32
  md5_state :: quad
  md5_buffer :: "u8 list"

definition MD5Init :: "MD5_CTX \<Rightarrow> MD5_CTX" where
  "MD5Init context =
     context\<lparr>count0 := 0, count1 := 0,
             md5_state := (0x67452301, 0xEFCDAB89, 0x98BADCFE, 0x10325476)\<rparr>"

text \<open>\<open>memcpy(\&dst[i], src, n)\<close> on a buffer held as a list.\<close>

definition memcpy_at :: "'a list \<Rightarrow> nat \<Rightarrow> 'a list \<Rightarrow> nat \<Rightarrow> 'a list" where
  "memcpy_at dst i src n = take i dst @ take n src @ drop (i + n) dst"

definition MD5Decode :: "u8 list \<Rightarrow> nat \<Rightarrow> u32 list" where
  "MD5Decode input len =
     map (\<lambda>i. let j = 4 * i in
              ucast (input ! j) OR push_bit 8 (ucast (input ! (j + 1))) OR
              push_bit 16 (ucast (input ! (j + 2))) OR push_bit 24 (ucast (input ! (j + 3))))
       [0..<(len + 3) div 4]"

definition MD5Encode :: "u32 list \<Rightarrow> nat \<Rightarrow> u8 list" where
  "MD5Encode input len =
     concat (map (\<lambda>i. [ucast (input ! i AND 0xFF),
                        ucast (drop_bit 8 (input ! i) AND 0xFF),
                        ucast (drop_bit 16 (input ! i) AND 0xFF),
                        ucast (drop_bit 24 (input ! i) AND 0xFF)])
       [0..<(len + 3) div 4])"

definition transform_round1 :: "u32 list \<Rightarrow> quad \<Rightarrow> quad" where
  "transform_round1 x q = (case q of (a, b, c, d) \<Rightarrow>
      let a = FF a b c d (x ! 0) 7 0xd76aa478;
        d = FF d a b c (x ! 1) 12 0xe8c7b756;
        c = FF c d a b (x ! 2) 17 0x242070db;
        b = FF b c d a (x ! 3) 22 0xc1bdceee;
        a = FF a b c d (x ! 4) 7 0xf57c0faf;
        d = FF d a b c (x ! 5) 12 0x4787c62a;
        c = FF c d a b (x ! 6) 17 0xa8304613;
        b = FF b c d a (x ! 7) 22 0xfd469501;
        a = FF a b c d (x ! 8) 7 0x698098d8;
        d = FF d a b c (x ! 9) 12 0x8b44f7af;
        c = FF c d a b (x ! 10) 17 0xffff5bb1;
        b = FF b c d a (x ! 11) 22 0x895cd7be;
        a = FF a b c d (x ! 12) 7 0x6b901122;
        d = FF d a b c (x ! 13) 12 0xfd987193;
        c = FF c d a b (x ! 14) 17 0xa679438e;
        b = FF b c d a (x ! 15) 22 0x49b40821
      in (a, b, c, d))"

definition transform_round2 :: "u32 list \<Rightarrow> quad \<Rightarrow> quad" where
  "transform_round2 x q = (case q of (a, b, c, d) \<Rightarrow>
      let a = GG a b c d (x ! 1) 5 0xf61e2562;
        d = GG d a b c (x ! 6) 9 0xc040b340;
        c = GG c d a b (x ! 11) 14 0x265e5a51;
        b = GG b c d a (x ! 0) 20 0xe9b6c7aa;
        a = GG a b c d (x ! 5) 5 0xd62f105d;
        d = GG d a b c (x ! 10) 9 0x2441453;
        c = GG c d a b (x ! 15) 14 0xd8a1e681;
        b = GG b c d a (x ! 4) 20 0xe7d3fbc8;
        a = GG a b c d (x ! 9) 5 0x21e1cde6;
        d = GG d a b c (x ! 14) 9 0xc33707d6;
        c = GG c d a b (x ! 3) 14 0xf4d50d87;
        b = GG b c d a (x ! 8) 20 0x455a14ed;
        a = GG a b c d (x ! 13) 5 0xa9e3e905;
        d = GG d a b c (x ! 2) 9 0xfcefa3f8;
        c = GG c d a b (x ! 7) 14 0x676f02d9;
        b = GG b c d a (x ! 12) 20 0x8d2a4c8a
      in (a, b, c, d))"

definition transform_round3 :: "u32 list \<Rightarrow> quad \<Rightarrow> quad" where
  "transform_round3 x q = (case q of (a, b, c, d) \<Rightarrow>
      let a = HH a b c d (x ! 5) 4 0xfffa3942;
        d = HH d a b c (x ! 8) 11 0x8771f681;
        c = HH c d a b (x ! 11) 16 0x6d9d6122;
        b = HH b c d a (x ! 14) 23 0xfde5380c;
        a = HH a b c d (x ! 1) 4 0xa4beea44;
        d = HH d a b c (x ! 4) 11 0x4bdecfa9;
        c = HH c d a b (x ! 7) 16 0xf6bb4b60;
        b = HH b c d a (x ! 10) 23 0xbebfbc70;
        a = HH a b c d (x ! 13) 4 0x289b7ec6;
        d = HH d a b c (x ! 0) 11 0xeaa127fa;
        c = HH c d a b (x ! 3) 16 0xd4ef3085;
        b = HH b c d a (x ! 6) 23 0x4881d05;
        a = HH a b c d (x ! 9) 4 0xd9d4d039;
        d = HH d a b c (x ! 12) 11 0xe6db99e5;
        c = HH c d a b (x ! 15) 16 0x1fa27cf8;
        b = HH b c d a (x ! 2) 23 0xc4ac5665
      in (a, b, c, d))"

definition transform_round4 :: "u32 list \<Rightarrow> quad \<Rightarrow> quad" where
  "transform_round4 x q = (case q of (a, b, c, d) \<Rightarrow>
      let a = II a b c d (x ! 0) 6 0xf4292244;
        d = II d a b c (x ! 7) 10 0x432aff97;
        c = II c d a b (x ! 14) 15 0xab9423a7;
        b = II b c d a (x ! 5) 21 0xfc93a039;
        a = II a b c d (x ! 12) 6 0x655b59c3;
        d = II d a b c (x ! 3) 10 0x8f0ccc92;
        c = II c d a b (x ! 10) 15 0xffeff47d;
        b = II b c d a (x ! 1) 21 0x85845dd1;
        a = II a b c d (x ! 8) 6 0x6fa87e4f;
        d = II d a b c (x ! 15) 10 0xfe2ce6e0;
        c = II c d a b (x ! 6) 15 0xa3014314;
        b = II b c d a (x ! 13) 21 0x4e0811a1;
        a = II a b c d (x ! 4) 6 0xf7537e82;
        d = II d a b c (x ! 11) 10 0xbd3af235;
        c = II c d a b (x ! 2) 15 0x2ad7d2bb;
        b = II b c d a (x ! 9) 21 0xeb86d391
      in (a, b, c, d))"

definition MD5Transform :: "quad \<Rightarrow> u8 list \<Rightarrow> quad" where
  "MD5Transform state block =
     (let (a, b, c, d) = state;
          x = MD5Decode block 64;
          (a', b', c', d') =
            transform_round4 x (transform_round3 x (transform_round2 x (transform_round1 x (a, b, c, d))))
      in (a + a', b + b', c + c', d + d'))"

text \<open>The loop over the whole blocks of the input: the state and the index where it stops.\<close>

function update_blocks :: "quad \<Rightarrow> u8 list \<Rightarrow> nat \<Rightarrow> nat \<Rightarrow> quad \<times> nat" where
  "update_blocks st input i inputlen =
     (if i + 64 \<le> inputlen
      then update_blocks (MD5Transform st (take 64 (drop i input))) input (i + 64) inputlen
      else (st, i))"
  by pat_completeness auto
termination
  by (relation "measure (\<lambda>(st, input, i, inputlen). inputlen - i)") auto

declare update_blocks.simps [simp del]

definition MD5Update :: "MD5_CTX \<Rightarrow> u8 list \<Rightarrow> nat \<Rightarrow> MD5_CTX" where
  "MD5Update context input inputlen =
     (let index = unat (drop_bit 3 (count0 context) AND 0x3F);
          partlen = 64 - index;
          bits = push_bit 3 (of_nat inputlen :: u32);
          c0 = count0 context + bits;
          c1 = (if c0 < bits then count1 context + 1 else count1 context);
          c1 = c1 + drop_bit 29 (of_nat inputlen);
          context = context\<lparr>count0 := c0, count1 := c1\<rparr>
      in if inputlen \<ge> partlen
         then let buf = memcpy_at (md5_buffer context) index input partlen;
                  (st, i) = update_blocks (MD5Transform (md5_state context) buf) input partlen inputlen
              in context\<lparr>md5_state := st,
                         md5_buffer := memcpy_at buf 0 (drop i input) (inputlen - i)\<rparr>
         else context\<lparr>md5_buffer := memcpy_at (md5_buffer context) index input inputlen\<rparr>)"

definition PADDING :: "u8 list" where
  "PADDING = 0x80 # replicate 63 0"

definition MD5Final :: "MD5_CTX \<Rightarrow> u8 list" where
  "MD5Final context =
     (let index = drop_bit 3 (count0 context) AND 0x3F;
          padlen = (if index < 56 then 56 - index else 120 - index);
          bits = MD5Encode [count0 context, count1 context] 8;
          context = MD5Update context PADDING (unat padlen);
          context = MD5Update context bits 8;
          (a, b, c, d) = md5_state context
      in MD5Encode [a, b, c, d] 16)"

text \<open>
  \<open>hash\<close>: the digest of the string, its sixteen bytes summed, modulo the slots.  The
  context is an uninitialised local variable (\<open>md5\<close>); C's remainder by zero is a fault
  (\<open>None\<close>).  The sum is at most \<open>16 * 255\<close>, so the \<open>int\<close> it is stored in is exact.
\<close>

definition myhash :: "MD5_CTX \<Rightarrow> string \<Rightarrow> int \<Rightarrow> int option" where
  "myhash md5 src slot =
     (let input = map of_char src;
          md5 = MD5Init md5;
          md5 = MD5Update md5 input (length input);
          decrypt = MD5Final md5;
          total = (\<Sum>i \<leftarrow> [0..<16]. uint (decrypt ! i))
      in if slot = 0 then None else Some (sgn total * (\<bar>total\<bar> mod \<bar>slot\<bar>)))"

subsection \<open>The unrolled transform is the reference\<close>

lemma MD5Decode_block: "MD5Decode bs 64 = block_words bs"
  by (simp add: MD5Decode_def block_words_def le_word_def Let_def)

lemma md5_ops_round1:
  "md5_op x 0 (a, b, c, d) = FF a b c d (x ! 0) 7 0xd76aa478"
  "md5_op x 1 (a, b, c, d) = FF a b c d (x ! 1) 12 0xe8c7b756"
  "md5_op x 2 (a, b, c, d) = FF a b c d (x ! 2) 17 0x242070db"
  "md5_op x 3 (a, b, c, d) = FF a b c d (x ! 3) 22 0xc1bdceee"
  "md5_op x 4 (a, b, c, d) = FF a b c d (x ! 4) 7 0xf57c0faf"
  "md5_op x 5 (a, b, c, d) = FF a b c d (x ! 5) 12 0x4787c62a"
  "md5_op x 6 (a, b, c, d) = FF a b c d (x ! 6) 17 0xa8304613"
  "md5_op x 7 (a, b, c, d) = FF a b c d (x ! 7) 22 0xfd469501"
  "md5_op x 8 (a, b, c, d) = FF a b c d (x ! 8) 7 0x698098d8"
  "md5_op x 9 (a, b, c, d) = FF a b c d (x ! 9) 12 0x8b44f7af"
  "md5_op x 10 (a, b, c, d) = FF a b c d (x ! 10) 17 0xffff5bb1"
  "md5_op x 11 (a, b, c, d) = FF a b c d (x ! 11) 22 0x895cd7be"
  "md5_op x 12 (a, b, c, d) = FF a b c d (x ! 12) 7 0x6b901122"
  "md5_op x 13 (a, b, c, d) = FF a b c d (x ! 13) 12 0xfd987193"
  "md5_op x 14 (a, b, c, d) = FF a b c d (x ! 14) 17 0xa679438e"
  "md5_op x 15 (a, b, c, d) = FF a b c d (x ! 15) 22 0x49b40821"
  by (simp_all add: md5_op_rounds md5_word_index_def md5_shift_def md5_T_def)

lemma upt_round1: "[0..<16] = [0, 1, 2, 3, 4, 5, 6, 7, 8, 9, 10, 11, 12, 13, 14, 15]"
  by (simp add: upt_rec)

lemma transform_round1_ref: "foldl (md5_step x) q [0..<16] = transform_round1 x q"
  by (cases q) (simp only: transform_round1_def prod.case upt_round1 fold_md5_step md5_ops_round1 foldl_Nil)

lemma md5_ops_round2:
  "md5_op x 16 (a, b, c, d) = GG a b c d (x ! 1) 5 0xf61e2562"
  "md5_op x 17 (a, b, c, d) = GG a b c d (x ! 6) 9 0xc040b340"
  "md5_op x 18 (a, b, c, d) = GG a b c d (x ! 11) 14 0x265e5a51"
  "md5_op x 19 (a, b, c, d) = GG a b c d (x ! 0) 20 0xe9b6c7aa"
  "md5_op x 20 (a, b, c, d) = GG a b c d (x ! 5) 5 0xd62f105d"
  "md5_op x 21 (a, b, c, d) = GG a b c d (x ! 10) 9 0x2441453"
  "md5_op x 22 (a, b, c, d) = GG a b c d (x ! 15) 14 0xd8a1e681"
  "md5_op x 23 (a, b, c, d) = GG a b c d (x ! 4) 20 0xe7d3fbc8"
  "md5_op x 24 (a, b, c, d) = GG a b c d (x ! 9) 5 0x21e1cde6"
  "md5_op x 25 (a, b, c, d) = GG a b c d (x ! 14) 9 0xc33707d6"
  "md5_op x 26 (a, b, c, d) = GG a b c d (x ! 3) 14 0xf4d50d87"
  "md5_op x 27 (a, b, c, d) = GG a b c d (x ! 8) 20 0x455a14ed"
  "md5_op x 28 (a, b, c, d) = GG a b c d (x ! 13) 5 0xa9e3e905"
  "md5_op x 29 (a, b, c, d) = GG a b c d (x ! 2) 9 0xfcefa3f8"
  "md5_op x 30 (a, b, c, d) = GG a b c d (x ! 7) 14 0x676f02d9"
  "md5_op x 31 (a, b, c, d) = GG a b c d (x ! 12) 20 0x8d2a4c8a"
  by (simp_all add: md5_op_rounds md5_word_index_def md5_shift_def md5_T_def)

lemma upt_round2: "[16..<32] = [16, 17, 18, 19, 20, 21, 22, 23, 24, 25, 26, 27, 28, 29, 30, 31]"
  by (simp add: upt_rec)

lemma transform_round2_ref: "foldl (md5_step x) q [16..<32] = transform_round2 x q"
  by (cases q) (simp only: transform_round2_def prod.case upt_round2 fold_md5_step md5_ops_round2 foldl_Nil)

lemma md5_ops_round3:
  "md5_op x 32 (a, b, c, d) = HH a b c d (x ! 5) 4 0xfffa3942"
  "md5_op x 33 (a, b, c, d) = HH a b c d (x ! 8) 11 0x8771f681"
  "md5_op x 34 (a, b, c, d) = HH a b c d (x ! 11) 16 0x6d9d6122"
  "md5_op x 35 (a, b, c, d) = HH a b c d (x ! 14) 23 0xfde5380c"
  "md5_op x 36 (a, b, c, d) = HH a b c d (x ! 1) 4 0xa4beea44"
  "md5_op x 37 (a, b, c, d) = HH a b c d (x ! 4) 11 0x4bdecfa9"
  "md5_op x 38 (a, b, c, d) = HH a b c d (x ! 7) 16 0xf6bb4b60"
  "md5_op x 39 (a, b, c, d) = HH a b c d (x ! 10) 23 0xbebfbc70"
  "md5_op x 40 (a, b, c, d) = HH a b c d (x ! 13) 4 0x289b7ec6"
  "md5_op x 41 (a, b, c, d) = HH a b c d (x ! 0) 11 0xeaa127fa"
  "md5_op x 42 (a, b, c, d) = HH a b c d (x ! 3) 16 0xd4ef3085"
  "md5_op x 43 (a, b, c, d) = HH a b c d (x ! 6) 23 0x4881d05"
  "md5_op x 44 (a, b, c, d) = HH a b c d (x ! 9) 4 0xd9d4d039"
  "md5_op x 45 (a, b, c, d) = HH a b c d (x ! 12) 11 0xe6db99e5"
  "md5_op x 46 (a, b, c, d) = HH a b c d (x ! 15) 16 0x1fa27cf8"
  "md5_op x 47 (a, b, c, d) = HH a b c d (x ! 2) 23 0xc4ac5665"
  by (simp_all add: md5_op_rounds md5_word_index_def md5_shift_def md5_T_def)

lemma upt_round3: "[32..<48] = [32, 33, 34, 35, 36, 37, 38, 39, 40, 41, 42, 43, 44, 45, 46, 47]"
  by (simp add: upt_rec)

lemma transform_round3_ref: "foldl (md5_step x) q [32..<48] = transform_round3 x q"
  by (cases q) (simp only: transform_round3_def prod.case upt_round3 fold_md5_step md5_ops_round3 foldl_Nil)

lemma md5_ops_round4:
  "md5_op x 48 (a, b, c, d) = II a b c d (x ! 0) 6 0xf4292244"
  "md5_op x 49 (a, b, c, d) = II a b c d (x ! 7) 10 0x432aff97"
  "md5_op x 50 (a, b, c, d) = II a b c d (x ! 14) 15 0xab9423a7"
  "md5_op x 51 (a, b, c, d) = II a b c d (x ! 5) 21 0xfc93a039"
  "md5_op x 52 (a, b, c, d) = II a b c d (x ! 12) 6 0x655b59c3"
  "md5_op x 53 (a, b, c, d) = II a b c d (x ! 3) 10 0x8f0ccc92"
  "md5_op x 54 (a, b, c, d) = II a b c d (x ! 10) 15 0xffeff47d"
  "md5_op x 55 (a, b, c, d) = II a b c d (x ! 1) 21 0x85845dd1"
  "md5_op x 56 (a, b, c, d) = II a b c d (x ! 8) 6 0x6fa87e4f"
  "md5_op x 57 (a, b, c, d) = II a b c d (x ! 15) 10 0xfe2ce6e0"
  "md5_op x 58 (a, b, c, d) = II a b c d (x ! 6) 15 0xa3014314"
  "md5_op x 59 (a, b, c, d) = II a b c d (x ! 13) 21 0x4e0811a1"
  "md5_op x 60 (a, b, c, d) = II a b c d (x ! 4) 6 0xf7537e82"
  "md5_op x 61 (a, b, c, d) = II a b c d (x ! 11) 10 0xbd3af235"
  "md5_op x 62 (a, b, c, d) = II a b c d (x ! 2) 15 0x2ad7d2bb"
  "md5_op x 63 (a, b, c, d) = II a b c d (x ! 9) 21 0xeb86d391"
  by (simp_all add: md5_op_rounds md5_word_index_def md5_shift_def md5_T_def)

lemma upt_round4: "[48..<64] = [48, 49, 50, 51, 52, 53, 54, 55, 56, 57, 58, 59, 60, 61, 62, 63]"
  by (simp add: upt_rec)

lemma transform_round4_ref: "foldl (md5_step x) q [48..<64] = transform_round4 x q"
  by (cases q) (simp only: transform_round4_def prod.case upt_round4 fold_md5_step md5_ops_round4 foldl_Nil)

lemma MD5Transform_ref: "MD5Transform = md5_compress"
proof (intro ext)
  fix st :: quad and bs :: "u8 list"
  have "[0..<64] = [0..<16] @ [16..<32] @ [32..<48] @ [48..<64]"
    by (simp add: upt_rec)
  then have "foldl (md5_step x) st [0..<64] =
      transform_round4 x (transform_round3 x (transform_round2 x (transform_round1 x st)))" for x
    by (simp only: foldl_append transform_round1_ref transform_round2_ref
        transform_round3_ref transform_round4_ref)
  then show "MD5Transform st bs = md5_compress st bs"
    by (cases st) (simp add: MD5Transform_def md5_compress_def quad_add_def MD5Decode_block
        split: prod.splits)
qed

subsection \<open>The streaming interface\<close>

definition md5_rep :: "MD5_CTX \<Rightarrow> u8 list \<Rightarrow> bool" where
  "md5_rep c m \<longleftrightarrow>
     count_rep (count0 c) (count1 c) (length m) \<and> length (md5_buffer c) = 64 \<and>
     absorb md5_iv m = (md5_state c, take (length m mod 64) (md5_buffer c))"

lemma length_memcpy_at [simp]:
  "i + n \<le> length dst \<Longrightarrow> n \<le> length src \<Longrightarrow> length (memcpy_at dst i src n) = length dst"
  by (simp add: memcpy_at_def)

lemma take_memcpy_at:
  "i + n \<le> length dst \<Longrightarrow> n \<le> length src \<Longrightarrow>
   take (i + n) (memcpy_at dst i src n) = take i dst @ take n src"
  by (simp add: memcpy_at_def)

lemma update_blocks_absorb:
  assumes "i \<le> inputlen" "inputlen \<le> length input"
  shows "\<exists>st' i'. update_blocks st input i inputlen = (st', i') \<and> i' \<le> inputlen \<and>
           absorb st (take (inputlen - i) (drop i input)) = (st', take (inputlen - i') (drop i' input))"
  using assms
proof (induction st input i inputlen rule: update_blocks.induct)
  case (1 st input i inputlen)
  show ?case
  proof (cases "i + 64 \<le> inputlen")
    case True
    let ?rest = "take (inputlen - i) (drop i input)"
    have "take 64 ?rest = take 64 (drop i input)"
      "drop 64 ?rest = take (inputlen - (i + 64)) (drop (i + 64) input)" "64 \<le> length ?rest"
      using True "1.prems" by (simp_all add: drop_take add.commute)
    then have "absorb st ?rest = absorb (MD5Transform st (take 64 (drop i input)))
        (take (inputlen - (i + 64)) (drop (i + 64) input))"
      by (simp add: absorb_block MD5Transform_ref)
    with "1.IH" [OF True] True "1.prems" show ?thesis
      by (simp add: update_blocks.simps [of st input i inputlen])
  next
    case False
    then have "update_blocks st input i inputlen = (st, i)"
      by (simp add: update_blocks.simps [of st input i inputlen])
    with False "1.prems" show ?thesis
      by (intro exI [of _ st] exI [of _ i]) simp
  qed
qed

lemma MD5Update_rep:
  assumes rep: "md5_rep c m" and k: "k \<le> length xs" "k < 2 ^ 32"
  shows "md5_rep (MD5Update c xs k) (m @ take k xs)"
proof -
  let ?n = "length m mod 64" and ?r = "take (length m mod 64) (md5_buffer c)"
  have cnt: "count_rep (count0 c) (count1 c) (length m)" and len: "length (md5_buffer c) = 64"
    and abs: "absorb md5_iv m = (md5_state c, ?r)"
    using rep by (simp_all add: md5_rep_def)
  note idx = count_rep_index [OF cnt]
  note cnt' = count_rep_add [OF cnt k(2)]
  have n: "?n < 64" by simp
  have app: "absorb md5_iv (m @ take k xs) = absorb (md5_state c) (?r @ take k xs)"
    by (subst absorb_append) (simp add: abs)
  have rest: "length (snd (absorb md5_iv (m @ take k xs))) = (length m + k) mod 64"
    using k by (simp add: absorb_rest_length)
  show ?thesis
  proof (cases "64 - ?n \<le> k")
    case False
    then have "?n + k < 64" "(length m + k) mod 64 = ?n + k"
      by (simp_all add: mod_add_left_eq [symmetric, of "length m" k 64])
    then show ?thesis
      using cnt' k len app False
      by (simp add: md5_rep_def MD5Update_def idx Let_def take_memcpy_at)
  next
    case True
    let ?buf = "memcpy_at (md5_buffer c) ?n xs (64 - ?n)"
    have buf: "?buf = ?r @ take (64 - ?n) xs"
      using len n k True by (simp add: memcpy_at_def)
    have blk: "take 64 (?r @ take k xs) = ?buf"
      "drop 64 (?r @ take k xs) = take (k - (64 - ?n)) (drop (64 - ?n) xs)"
      "64 \<le> length (?r @ take k xs)"
      using True k len n by (simp_all add: buf drop_take min_absorb1)
    obtain st' i' where upd: "update_blocks (MD5Transform (md5_state c) ?buf) xs (64 - ?n) k = (st', i')"
      and i': "i' \<le> k"
      and ab: "absorb (MD5Transform (md5_state c) ?buf) (take (k - (64 - ?n)) (drop (64 - ?n) xs))
        = (st', take (k - i') (drop i' xs))"
      using update_blocks_absorb [OF True k(1)] by blast
    have fin: "absorb md5_iv (m @ take k xs) = (st', take (k - i') (drop i' xs))"
      using blk ab by (simp only: app absorb_block [OF blk(3)] MD5Transform_ref)
    then have ki: "k - i' = (length m + k) mod 64"
      using rest i' k by simp
    then have "k - i' \<le> 64" by simp
    then have "length (memcpy_at ?buf 0 (drop i' xs) (k - i')) = 64"
      and "take (k - i') (memcpy_at ?buf 0 (drop i' xs) (k - i')) = take (k - i') (drop i' xs)"
      using len n k i' True take_memcpy_at [of 0 "k - i'" ?buf "drop i' xs"] by simp_all
    then show ?thesis
      using cnt' k fin True ki
      by (simp add: md5_rep_def MD5Update_def idx Let_def upd)
  qed
qed

lemma ucast_low_byte: "(ucast (w AND 0xFF) :: u8) = ucast (w :: u32)"
proof -
  have "w AND 0xFF = take_bit 8 w"
    using take_bit_eq_mask [of 8 w] by (simp add: mask_eq_exp_minus_1)
  then show ?thesis by (simp only:) (rule bit_word_eqI, auto simp: bit_simps)
qed

lemma MD5Encode_two: "MD5Encode [a, b] 8 = le_bytes a @ le_bytes b"
  by (simp add: MD5Encode_def le_bytes_def upt_rec ucast_low_byte)

lemma MD5Encode_four: "MD5Encode [a, b, c, d] 16 = quad_bytes (a, b, c, d)"
  by (simp add: MD5Encode_def quad_bytes_def le_bytes_def upt_rec ucast_low_byte)

lemma padlen_rep:
  assumes "count_rep lo hi n"
  shows "unat (let index = drop_bit 3 lo AND 0x3F in if index < 56 then 56 - index else 120 - index)
    = Suc ((119 - n mod 64) mod 64)"
proof -
  let ?i = "drop_bit 3 lo AND 0x3F"
  have i: "unat ?i = n mod 64" by (rule count_rep_index [OF assms])
  have lt: "?i < 56 \<longleftrightarrow> n mod 64 < 56" by (simp add: word_less_nat_alt i)
  have "unat (56 - ?i) = 56 - n mod 64" if "n mod 64 < 56"
    using that i by (subst unat_sub) (simp_all add: word_le_nat_alt)
  moreover have "unat (120 - ?i) = 120 - n mod 64"
    using i by (subst unat_sub) (simp_all add: word_le_nat_alt)
  moreover have "(119 - n mod 64) mod 64 = (if n mod 64 < 56 then 55 - n mod 64 else 119 - n mod 64)"
    using mod_less_divisor [of 64 n] by (auto simp: mod_if [of "119 - n mod 64"])
  moreover have "n mod 64 < 56 \<Longrightarrow> 56 - n mod 64 = Suc (55 - n mod 64)"
    and "120 - n mod 64 = Suc (119 - n mod 64)"
    using mod_less_divisor [of 64 n] by arith+
  ultimately show ?thesis by (cases "n mod 64 < 56") (simp_all add: Let_def lt)
qed

lemma take_PADDING:
  "z < 64 \<Longrightarrow> take (Suc z) PADDING = 0x80 # replicate z 0"
  by (simp add: PADDING_def)

lemma length_le_bytes [simp]: "length (le_bytes w) = 4"
  by (simp add: le_bytes_def)

lemma MD5Final_rep:
  assumes rep: "md5_rep c m"
  shows "MD5Final c = md5_digest m"
proof -
  let ?z = "(119 - length m mod 64) mod 64"
  let ?bits = "le_bytes (count0 c) @ le_bytes (count1 c)"
  have cnt: "count_rep (count0 c) (count1 c) (length m)" using rep by (simp add: md5_rep_def)
  have bits: "?bits = md5_length_bytes (length m)"
    using cnt by (simp only: count_rep_def md5_length_bytes_def)
  define c1 where "c1 = MD5Update c PADDING (Suc ?z)"
  define c2 where "c2 = MD5Update c1 ?bits 8"
  have pad: "md5_padding (length m) = take (Suc ?z) PADDING"
    by (simp add: md5_padding_def take_PADDING)
  have "Suc ?z \<le> length PADDING" "Suc ?z < 2 ^ 32"
    using mod_less_divisor [of 64 "119 - length m mod 64"] by (simp_all add: PADDING_def)
  from MD5Update_rep [OF rep this] have r1: "md5_rep c1 (m @ md5_padding (length m))"
    by (simp only: c1_def pad)
  have "md5_rep c2 ((m @ md5_padding (length m)) @ take 8 ?bits)"
    unfolding c2_def by (rule MD5Update_rep [OF r1]) simp_all
  then have r2: "md5_rep c2 (m @ md5_padding (length m) @ md5_length_bytes (length m))"
    by (simp add: bits [symmetric])
  have "MD5Final c = quad_bytes (md5_state c2)"
    using padlen_rep [OF cnt]
    by (simp add: MD5Final_def Let_def MD5Encode_two MD5Encode_four c2_def c1_def split: prod.splits)
  also have "\<dots> = md5_digest m"
    using r2 by (simp add: md5_rep_def md5_digest_def)
  finally show ?thesis .
qed

lemma MD5Init_rep: "length (md5_buffer c) = 64 \<Longrightarrow> md5_rep (MD5Init c) []"
  by (simp add: md5_rep_def MD5Init_def count_rep_def md5_iv_def)

interpretation md5_ctx: md5_stream "\<lambda>c xs. MD5Update c xs (length xs)" MD5Final md5_rep "\<lambda>n. n < 2 ^ 32"
proof
  show "md5_rep (MD5Update c xs (length xs)) (m @ xs)" if "md5_rep c m" "length xs < 2 ^ 32" for c m xs
    using MD5Update_rep [OF that(1) order_refl that(2)] by simp
qed (rule MD5Final_rep)



subsection \<open>The server choice\<close>

lemma length_md5_digest [simp]: "length (md5_digest m) = 16"
  by (simp add: md5_digest_def quad_bytes_def split: prod.splits)

definition digest_sum :: "string \<Rightarrow> int" where
  "digest_sum src = (\<Sum>b \<leftarrow> md5_digest (map of_char src). uint b)"

lemma sum_list_bound: "\<forall>x \<in> set xs. 0 \<le> f x \<and> f x \<le> (B::int) \<Longrightarrow>
    0 \<le> sum_list (map f xs) \<and> sum_list (map f xs) \<le> int (length xs) * B"
  by (induction xs) (auto simp: algebra_simps)

lemma uint_byte: "uint (b :: u8) \<le> 255"
  using uint_lt2p [of b] by simp

lemma digest_sum_bounds: "0 \<le> digest_sum src" "digest_sum src \<le> 4080"
  using sum_list_bound [of "md5_digest (map of_char src)" uint 255] uint_byte
  by (simp_all add: digest_sum_def)

lemma MD5_of_string:
  "length (md5_buffer c) = 64 \<Longrightarrow> length (input :: u8 list) < 2 ^ 32 \<Longrightarrow>
   MD5Final (MD5Update (MD5Init c) input (length input)) = md5_digest input"
  using md5_ctx.chunked_digest [OF MD5Init_rep, of c "[input]"] by simp

lemma sum_nth_list: "length xs = 16 \<Longrightarrow> (\<Sum>i \<leftarrow> [0..<16]. f (xs ! i)) = (\<Sum>x \<leftarrow> xs. f x)"
proof -
  assume "length xs = 16"
  then have "map (\<lambda>i. f (xs ! i)) [0..<16] = map f xs" by (intro nth_equalityI) simp_all
  then show ?thesis by (simp only:)
qed

lemma myhash_eq:
  assumes len: "length (md5_buffer md5) = 64" and src: "length src < 2 ^ 32" and slot: "0 < slot"
  shows "myhash md5 src slot = Some (digest_sum src mod slot)"
proof -
  let ?m = "map of_char src :: u8 list"
  have "length ?m < 2 ^ 32" using src by simp
  note dig = MD5_of_string [OF len this]
  have "(\<Sum>i \<leftarrow> [0..<16]. uint (md5_digest ?m ! i)) = digest_sum src"
    unfolding digest_sum_def by (rule sum_nth_list) simp
  then have "myhash md5 src slot =
      (if slot = 0 then None
       else Some (sgn (digest_sum src) * (\<bar>digest_sum src\<bar> mod \<bar>slot\<bar>)))"
    unfolding myhash_def Let_def dig by (simp only:)
  moreover have "sgn (digest_sum src) * (\<bar>digest_sum src\<bar> mod \<bar>slot\<bar>) = digest_sum src mod slot"
    using digest_sum_bounds(1) [of src] slot by (cases "digest_sum src = 0") simp_all
  ultimately show ?thesis using slot by simp
qed

text \<open>
  \<open>hash\<close> of \<^verbatim>\<open>proxy/myhash.c\<close> is a function of the key alone (not of the stack its context
  lies on): for any positive number of slots it returns the sum of the sixteen MD5 digest
  bytes modulo the slots, which is a valid index, and never more than 4080.
\<close>

theorem myhash_is_digest_sum:
  assumes "length (md5_buffer md5) = 64" and "length src < 2 ^ 32" and "0 < slot"
  shows "myhash md5 src slot = Some (digest_sum src mod slot) \<and> 0 \<le> digest_sum src mod slot \<and>
         digest_sum src mod slot < slot \<and> digest_sum src mod slot \<le> 4080"
proof -
  have "digest_sum src mod slot \<le> digest_sum src"
    by (rule zmod_le_nonneg_dividend [OF digest_sum_bounds(1)])
  then show ?thesis
    using myhash_eq [OF assms] digest_sum_bounds(2) [of src] assms(3) by simp
qed

theorem myhash_is_digest_sum_witness:
  "myhash \<lparr>count0 = 7, count1 = 9, md5_state = (1, 2, 3, 4), md5_buffer = replicate 64 5\<rparr> ''key'' 2
     = Some (digest_sum ''key'' mod 2)"
  using myhash_is_digest_sum
    [of "\<lparr>count0 = 7, count1 = 9, md5_state = (1, 2, 3, 4), md5_buffer = replicate 64 5\<rparr>" "''key''" 2]
  by simp

end
