(* ===== verification/Proxy.thy ===== *)
theory Proxy
  imports CirQueue HashTable Ae Md5Proxy
begin

text \<open>
  The state of the proxy process (the globals of \<^verbatim>\<open>main.c\<close>, \<^verbatim>\<open>io.c\<close>, \<^verbatim>\<open>event.c\<close> and
  \<^verbatim>\<open>read_handler.c\<close> in one record), the character buffers, and the environment it runs in.
  System calls take their results, in the order of the calls, from the list \<open>pending\<close> the
  environment provides; what the process does to the outside is appended to \<open>trace\<close>.  A call
  for which the environment has no answer is \<open>Blocked\<close>.  This makes every loop of the proxy a
  total function, without fixing what the peers do.
\<close>

subsection \<open>Character buffers\<close>

text \<open>
  A \<open>char *\<close> is the memory seen from it: the bytes beyond the ones a buffer owns, and before
  it, are arbitrary.  \<open>MAX_READ\<close> is the size of every buffer of the proxy.
\<close>

type_synonym cmem = "int \<Rightarrow> char"

record WData =
  len :: int
  data :: cmem

definition MAX_READ :: int where
  "MAX_READ = 10240"

definition NUL :: char where
  "NUL = CHR 0x00"

definition bytes_at :: "cmem \<Rightarrow> int \<Rightarrow> int \<Rightarrow> string" where
  "bytes_at m i n = map (\<lambda>k. m (i + int k)) [0..<nat n]"

definition mem_of :: "string \<Rightarrow> (int \<Rightarrow> char) \<Rightarrow> cmem" where
  "mem_of s rest = (\<lambda>i. if 0 \<le> i \<and> i < int (length s) then s ! nat i else rest i)"

text \<open>The C string at the start of some bytes: what stands before the first NUL.\<close>

definition c_str :: "string \<Rightarrow> string" where
  "c_str s = takeWhile (\<lambda>c. c \<noteq> NUL) s"

text \<open>
  The \<open>n\<close> bytes \<open>strncpy\<close> writes: up to the first NUL, the rest filled with NUL.  A negative
  count becomes a \<open>size_t\<close> larger than any buffer.
\<close>

definition strncpy_bytes :: "cmem \<Rightarrow> int \<Rightarrow> int \<Rightarrow> string" where
  "strncpy_bytes src i n =
     (let s = c_str (bytes_at src i n) in s @ replicate (nat n - length s) NUL)"

definition strncpy :: "cmem \<Rightarrow> int \<Rightarrow> cmem \<Rightarrow> int \<Rightarrow> int \<Rightarrow> cmem outcome" where
  "strncpy dst d src i n =
     (if n < 0 then Inl Undefined
      else Inr (\<lambda>k. if d \<le> k \<and> k < d + n then strncpy_bytes src i n ! nat (k - d) else dst k))"

text \<open>The zero-filled memory of \<open>calloc\<close>; a negative size is one no allocator grants.\<close>

definition calloc_copy :: "cmem \<Rightarrow> int \<Rightarrow> int \<Rightarrow> string outcome" where
  "calloc_copy src i n = (if n < 0 then Inl Undefined else Inr (c_str (bytes_at src i n)))"

subsection \<open>The process\<close>

datatype proc = ReadFromMaster | ReadFromSlave | ReadDelValue | AcceptTcpHandler | TimeEvent

text \<open>The result of a system call: its value, the \<open>errno\<close> it sets if any, the bytes it delivers.\<close>

record sysret =
  ret :: int
  sets_errno :: "int option"
  bytes :: string

text \<open>The actions of a process; \<open>Received fd n bs\<close> is a \<open>read\<close> that asked for \<open>n\<close> bytes and got \<open>bs\<close>.\<close>

datatype act =
    Received int int string
  | Sent int string
  | Closed int
  | Posted string string

record proxy =
  master_fd :: int
  client_fd :: int
  read_fd :: int
  listen_fd :: int
  proxy_state :: int
  bulk_size :: int
  time_event_id :: int
  cronloops :: int
  errno :: int
  que :: queue_env
  buf_master_cmd :: WData
  buf_slave_answer :: WData
  host_masters :: "DataType list"
  host_master_num :: int
  hashtable :: table_env
  hash_stack :: "nat \<Rightarrow> MD5_CTX"
  loop :: "proc aeEventLoop"
  pending :: "sysret list"
  trace :: "act list"

definition START_STATE :: int where "START_STATE = 0"
definition SYNC_START_STATE :: int where "SYNC_START_STATE = 1"
definition SYNC_STATE :: int where "SYNC_STATE = 2"
definition RUNNING_STATE :: int where "RUNNING_STATE = 3"

definition EAGAIN :: int where "EAGAIN = 11"
definition EINPROGRESS :: int where "EINPROGRESS = 115"
definition EWOULDBLOCK :: int where "EWOULDBLOCK = 11"
definition ERANGE :: int where "ERANGE = 34"

definition syscall :: "proxy \<Rightarrow> (sysret \<times> proxy) outcome" where
  "syscall s =
     (case pending s of
        [] \<Rightarrow> Inl Blocked
      | r # rs \<Rightarrow>
          Inr (r, s\<lparr>pending := rs, errno := (case sets_errno r of None \<Rightarrow> errno s | Some e \<Rightarrow> e)\<rparr>))"

definition emit :: "act \<Rightarrow> proxy \<Rightarrow> proxy" where
  "emit a s = s\<lparr>trace := trace s @ [a]\<rparr>"

definition close_fd :: "int \<Rightarrow> proxy \<Rightarrow> proxy" where
  "close_fd fd s = (emit (Closed fd) s)\<lparr>loop := epoll_close fd (loop s)\<rparr>"

text \<open>\<open>aeCreateFileEvent\<close> on the proxy's loop; \<open>epoll_ctl\<close> is called only for a valid descriptor.\<close>

definition register :: "int \<Rightarrow> proc \<Rightarrow> proxy \<Rightarrow> (int \<times> proxy) outcome" where
  "register fd p s =
     (if fd \<ge> setsize (loop s) then Inr (AE_ERR, s\<lparr>errno := ERANGE\<rparr>)
      else andThen (syscall s) (\<lambda>(r, s1).
             andThen (aeCreateFileEvent (ret r \<noteq> -1) (loop s1) fd AE_READABLE p 0) (\<lambda>(st, l).
               Inr (st, s1\<lparr>loop := l\<rparr>))))"

definition unregister :: "int \<Rightarrow> proxy \<Rightarrow> proxy outcome" where
  "unregister fd s = andThen (aeDeleteFileEvent (loop s) fd AE_READABLE) (\<lambda>l. Inr (s\<lparr>loop := l\<rparr>))"

text \<open>
  The globals as the process starts: the initialisers of \<^verbatim>\<open>main.c\<close> and \<^verbatim>\<open>io.c\<close>, an event
  loop, and an empty table of backups.
\<close>

definition globals :: "proc aeEventLoop \<Rightarrow> table_env \<Rightarrow> (nat \<Rightarrow> MD5_CTX) \<Rightarrow> cmem \<Rightarrow> cmem \<Rightarrow> sysret list \<Rightarrow> proxy" where
  "globals l ht stack m1 m2 answers =
     \<lparr>master_fd = -1, client_fd = -1, read_fd = -1, listen_fd = -1, proxy_state = START_STATE,
      bulk_size = 0, time_event_id = 0, cronloops = 0, errno = 0, que = init_cir_queue,
      buf_master_cmd = \<lparr>len = 0, data = m1\<rparr>, buf_slave_answer = \<lparr>len = 0, data = m2\<rparr>,
      host_masters = [], host_master_num = 0, hashtable = ht, hash_stack = stack, loop = l,
      pending = answers, trace = []\<rparr>"

text \<open>A process with its four connections open, on which the properties are applied.\<close>

definition open_proxy :: "sysret list \<Rightarrow> proxy" where
  "open_proxy answers =
     (globals fresh_loop (the (ht_create True True 65536), \<lambda>n. 0)
        (\<lambda>n. \<lparr>count0 = 0, count1 = 0, md5_state = (0, 0, 0, 0), md5_buffer = replicate 64 0\<rparr>)
        (\<lambda>i. CHR ''x'') (\<lambda>i. CHR ''y'') answers)
     \<lparr>master_fd := 5, client_fd := 8, read_fd := 9, listen_fd := 6, proxy_state := RUNNING_STATE\<rparr>"

lemma open_proxy_fields [simp]:
  "master_fd (open_proxy a) = 5" "client_fd (open_proxy a) = 8" "read_fd (open_proxy a) = 9"
  "listen_fd (open_proxy a) = 6" "pending (open_proxy a) = a" "trace (open_proxy a) = []"
  "errno (open_proxy a) = 0" "que (open_proxy a) = init_cir_queue" "loop (open_proxy a) = fresh_loop"
  "proxy_state (open_proxy a) = RUNNING_STATE" "open_proxy a\<lparr>pending := b\<rparr> = open_proxy b"
  "len (buf_master_cmd (open_proxy a)) = 0" "len (buf_slave_answer (open_proxy a)) = 0"
  by (simp_all add: open_proxy_def globals_def)

end
