(* ===== verification/Io.thy ===== *)
theory Io
  imports Proxy
begin

text \<open>
  Connections and transfers: \<open>connectToMaster\<close> and \<open>listenToPort\<close> of \<^verbatim>\<open>proxy/event.c\<close>, and
  \<open>readData\<close>, \<open>writeData\<close> and \<open>closeFd\<close> of \<^verbatim>\<open>proxy/io.c\<close>.  The socket functions of
  \<^verbatim>\<open>anet.c\<close> are system calls here: each takes its descriptor or status from the environment.
  The main results are that \<open>closeFd\<close> brings the process back to its start state from any
  state, and that \<open>writeData\<close> sends exactly the bytes it is given however the kernel splits
  them.
\<close>

subsection \<open>The code\<close>

definition listenToPort :: "proxy \<Rightarrow> (int \<times> proxy) outcome" where
  "listenToPort s =
     andThen (syscall s) (\<lambda>(r, s).
       let s = s\<lparr>listen_fd := ret r\<rparr> in
       if listen_fd s \<noteq> -1 then
         andThen (register (listen_fd s) AcceptTcpHandler s) (\<lambda>(st, s).
           if st = AE_ERR then Inr (-1, close_fd (listen_fd s) s)
           else Inr (1, s))
       else Inr (-1, s))"

definition connectToMaster :: "proxy \<Rightarrow> (int \<times> proxy) outcome" where
  "connectToMaster s =
     (let s = s\<lparr>errno := 0\<rparr> in
      andThen (syscall s) (\<lambda>(r, s).
        let s = s\<lparr>master_fd := ret r\<rparr> in
        if master_fd s \<noteq> -1 then
          andThen (register (master_fd s) ReadFromMaster s) (\<lambda>(st, s).
            if st = AE_ERR then Inr (-1, close_fd (master_fd s) s)
            else andThen (listenToPort s) (\<lambda>(r, s).
                   if r = -1 then Inl Exit else Inr (1, s)))
        else Inr (-1, s)))"

text \<open>One of the four blocks of \<open>closeFd\<close>: unregister and close a descriptor that is open.\<close>

definition drop_fd :: "(proxy \<Rightarrow> int) \<Rightarrow> (proxy \<Rightarrow> proxy) \<Rightarrow> proxy \<Rightarrow> proxy outcome" where
  "drop_fd get reset s =
     (if get s \<noteq> -1 then
        andThen (unregister (get s) s) (\<lambda>s. Inr (reset (close_fd (get s) s)))
      else Inr s)"

definition closeFd :: "proxy \<Rightarrow> proxy outcome" where
  "closeFd s =
     (case aeDeleteTimeEvent (loop s) (time_event_id s) of (st, fin, l) \<Rightarrow>
        andThen (drop_fd client_fd (\<lambda>s. s\<lparr>client_fd := -1\<rparr>) (s\<lparr>loop := l\<rparr>)) (\<lambda>s.
        andThen (drop_fd read_fd (\<lambda>s. s\<lparr>read_fd := -1\<rparr>) s) (\<lambda>s.
        andThen (drop_fd master_fd (\<lambda>s. s\<lparr>master_fd := -1\<rparr>) s) (\<lambda>s.
        andThen (drop_fd listen_fd (\<lambda>s. s\<lparr>listen_fd := -1\<rparr>) s) (\<lambda>s.
          let s = s\<lparr>proxy_state := START_STATE\<rparr>;
              s = s\<lparr>buf_master_cmd := (buf_master_cmd s)\<lparr>len := 0\<rparr>\<rparr>;
              s = s\<lparr>buf_slave_answer := (buf_slave_answer s)\<lparr>len := 0\<rparr>\<rparr> in
          andThen (of_opt Blocked (clear_queue (que s))) (\<lambda>qu.
          andThen (syscall (s\<lparr>que := qu\<rparr>)) (\<lambda>(now, s).
            case aeCreateTimeEvent True (ret now) (loop s) 1 TimeEvent None of (i, l) \<Rightarrow>
              Inr (s\<lparr>loop := l, time_event_id := i\<rparr>))))))))"

text \<open>
  \<open>readData\<close> returns its result and the bytes \<open>read\<close> put into the buffer; the trace keeps the
  size it asked for.
\<close>

definition readData :: "int \<Rightarrow> int \<Rightarrow> proxy \<Rightarrow> (int \<times> string \<times> proxy) outcome" where
  "readData fd sz s =
     andThen (if master_fd s = -1 then andThen (connectToMaster s) (\<lambda>(r, s). Inr s) else Inr s) (\<lambda>s.
       if fd = -1 then Inr (-1, [], s)
       else andThen (syscall s) (\<lambda>(r, s).
         let nread = ret r in
         if nread \<le> 0 then
           (if errno s \<noteq> EAGAIN \<and> errno s \<noteq> EINPROGRESS
            then andThen (closeFd s) (\<lambda>s. Inr (-1, [], s))
            else Inr (0, [], s))
         else Inr (nread, bytes r, emit (Received fd sz (bytes r)) s)))"

text \<open>The loop of \<open>writeData\<close>: every turn takes one result of \<open>write\<close>.\<close>

function write_loop :: "int \<Rightarrow> cmem \<Rightarrow> int \<Rightarrow> int \<Rightarrow> proxy \<Rightarrow> (int \<times> proxy) outcome" where
  "write_loop fd dat n all_write s =
     (if all_write < n then
        (case syscall s of
           Inl e \<Rightarrow> Inl e
         | Inr (r, s1) \<Rightarrow>
             let wr = ret r in
             if wr \<le> 0 then
               (if errno s1 = EAGAIN \<or> errno s1 = EINPROGRESS then write_loop fd dat n all_write s1
                else andThen (closeFd s1) (\<lambda>s2. Inr (-1, s2)))
             else write_loop fd dat n (i32 (all_write + wr))
                    (emit (Sent fd (bytes_at dat all_write wr)) s1))
      else Inr (all_write, s))"
  by pat_completeness auto
termination
  by (relation "measure (\<lambda>(fd, dat, n, all_write, s). length (pending s))")
    (auto simp: syscall_def emit_def split: list.splits)

definition writeData :: "int \<Rightarrow> cmem \<Rightarrow> int \<Rightarrow> proxy \<Rightarrow> (int \<times> proxy) outcome" where
  "writeData fd dat n s =
     andThen (if master_fd s = -1 then andThen (connectToMaster s) (\<lambda>(r, s). Inr s) else Inr s) (\<lambda>s.
       if fd = -1 then Inr (-1, s)
       else write_loop fd dat n 0 s)"

declare write_loop.simps [simp del]

subsection \<open>writeData sends everything\<close>

text \<open>The bytes a list of actions sent to a descriptor.\<close>

definition sent_to :: "int \<Rightarrow> act list \<Rightarrow> string" where
  "sent_to fd acts = concat (map (\<lambda>a. case a of Sent f b \<Rightarrow> if f = fd then b else [] | _ \<Rightarrow> []) acts)"

lemma sent_to_simps [simp]:
  "sent_to fd [] = []" "sent_to fd (as @ bs) = sent_to fd as @ sent_to fd bs"
  "sent_to fd (Sent f b # as) = (if f = fd then b else []) @ sent_to fd as"
  "sent_to fd (Received f k b # as) = sent_to fd as" "sent_to fd (Closed f # as) = sent_to fd as"
  "sent_to fd (Posted u b # as) = sent_to fd as"
  by (simp_all add: sent_to_def)

text \<open>
  What \<open>write\<close> may answer while it takes \<open>n\<close> bytes: any positive part of what is left, or that
  it would block.
\<close>

fun write_answers :: "int \<Rightarrow> sysret list \<Rightarrow> bool" where
  "write_answers n [] = (n = 0)"
| "write_answers n (r # rs) =
     (0 < n \<and>
      (if ret r \<le> 0 then sets_errno r \<in> {Some EAGAIN, Some EINPROGRESS} \<and> write_answers n rs
       else ret r \<le> n \<and> write_answers (n - ret r) rs))"

lemma bytes_at_split:
  "0 \<le> k \<Longrightarrow> 0 \<le> n \<Longrightarrow> bytes_at m i (k + n) = bytes_at m i k @ bytes_at m (i + k) n"
  by (intro nth_equalityI) (auto simp: bytes_at_def nth_append nat_add_distrib of_nat_diff add.assoc)

lemma write_loop_done: "\<not> k < n \<Longrightarrow> write_loop fd dat n k s = Inr (k, s)"
  by (subst write_loop.simps) simp

lemma write_loop_turn:
  "k < n \<Longrightarrow> syscall s = Inr (r, s1) \<Longrightarrow>
   write_loop fd dat n k s =
     (if ret r \<le> 0 then
        (if errno s1 = EAGAIN \<or> errno s1 = EINPROGRESS then write_loop fd dat n k s1
         else andThen (closeFd s1) (\<lambda>s2. Inr (-1, s2)))
      else write_loop fd dat n (i32 (k + ret r)) (emit (Sent fd (bytes_at dat k (ret r))) s1))"
  by (subst write_loop.simps) (simp add: Let_def)

lemma syscall_pending:
  "pending s = r # rs \<Longrightarrow>
   syscall s = Inr (r, s\<lparr>pending := rs, errno := (case sets_errno r of None \<Rightarrow> errno s | Some e \<Rightarrow> e)\<rparr>)"
  by (simp add: syscall_def)

lemma write_loop_ok:
  assumes "write_answers (n - k) rs" "0 \<le> k" "k \<le> n" "n < 2 ^ 31" "pending s = rs @ later"
  shows "\<exists>acts e. write_loop fd dat n k s =
           Inr (n, s\<lparr>pending := later, errno := e, trace := trace s @ acts\<rparr>) \<and>
         sent_to fd acts = bytes_at dat k (n - k) \<and> (\<forall>a \<in> set acts. \<exists>b. a = Sent fd b)"
  using assms
proof (induction rs arbitrary: k s)
  case Nil
  then have k: "\<not> k < n" "k = n" by simp_all
  have "s = s\<lparr>pending := later, errno := errno s, trace := trace s @ []\<rparr>" using Nil.prems(5) by simp
  then have "write_loop fd dat n k s = Inr (n, s\<lparr>pending := later, errno := errno s, trace := trace s @ []\<rparr>)"
    using write_loop_done [OF k(1)] k(2) by metis
  then show ?case using k(2) by (intro exI conjI) (assumption, simp_all add: bytes_at_def)
next
  case (Cons r rs)
  let ?e = "case sets_errno r of None \<Rightarrow> errno s | Some e \<Rightarrow> e"
  let ?s = "s\<lparr>pending := rs @ later, errno := ?e\<rparr>"
  have lt: "k < n" using Cons.prems(1) by simp
  have "syscall s = Inr (r, ?s)" by (rule syscall_pending) (use Cons.prems(5) in simp)
  note turn = write_loop_turn [OF lt this, of fd dat]
  show ?case
  proof (cases "ret r \<le> 0")
    case True
    then have e: "?e = EAGAIN \<or> ?e = EINPROGRESS" and w: "write_answers (n - k) rs"
      using Cons.prems(1) by auto
    then have "write_loop fd dat n k s = write_loop fd dat n k ?s"
      using True unfolding turn by simp
    then show ?thesis using Cons.IH [OF w Cons.prems(2-4), of ?s] by simp
  next
    case False
    then have r: "ret r \<le> n - k" and w: "write_answers (n - (k + ret r)) rs"
      using Cons.prems(1) by (simp_all add: diff_diff_eq)
    let ?k = "k + ret r" and ?a = "Sent fd (bytes_at dat k (ret r))"
    have k: "0 \<le> ?k" "?k \<le> n" using r False Cons.prems(2) by auto
    then have "i32 ?k = ?k" using Cons.prems(4) by (intro i32_id) auto
    then have turn': "write_loop fd dat n k s = write_loop fd dat n ?k (emit ?a ?s)"
      using False unfolding turn by simp
    have split: "bytes_at dat k (n - k) = bytes_at dat k (ret r) @ bytes_at dat ?k (n - ?k)"
      using bytes_at_split [of "ret r" "n - ?k" dat k] False k by simp
    have p: "pending (emit ?a ?s) = rs @ later" by (simp add: emit_def)
    obtain acts e where IH: "write_loop fd dat n ?k (emit ?a ?s) =
        Inr (n, emit ?a ?s\<lparr>pending := later, errno := e, trace := trace (emit ?a ?s) @ acts\<rparr>)"
      "sent_to fd acts = bytes_at dat ?k (n - ?k)" "\<forall>a \<in> set acts. \<exists>b. a = Sent fd b"
      using Cons.IH [OF w k Cons.prems(4) p] by blast
    have "emit ?a ?s\<lparr>pending := later, errno := e, trace := trace (emit ?a ?s) @ acts\<rparr> =
        s\<lparr>pending := later, errno := e, trace := trace s @ ?a # acts\<rparr>"
      by (simp add: emit_def)
    then show ?thesis
      using IH split unfolding turn' by (intro exI [of _ "?a # acts"] exI [of _ e]) simp
  qed
qed

text \<open>
  C25. \<open>writeData\<close> on an open descriptor, with the master connected, sends exactly the \<open>len\<close> bytes of its buffer, in order
  and without a gap or a repetition, however \<open>write\<close> splits them and however often it answers
  that it would block; it returns \<open>len\<close> and changes nothing else of the process.
\<close>

theorem writeData_sends_all:
  assumes "master_fd s \<noteq> -1" and "fd \<noteq> -1" and "0 \<le> n" and "n < 2 ^ 31"
    and "pending s = rs @ later" and "write_answers n rs"
  shows "\<exists>acts e. writeData fd dat n s =
           Inr (n, s\<lparr>pending := later, errno := e, trace := trace s @ acts\<rparr>) \<and>
         sent_to fd acts = bytes_at dat 0 n \<and> (\<forall>a \<in> set acts. \<exists>b. a = Sent fd b)"
  using write_loop_ok [of n 0 rs s later fd dat] assms by (simp add: writeData_def)

theorem writeData_sends_all_witness:
  "\<exists>acts e. writeData 8 (mem_of ''hello'' (\<lambda>i. NUL)) 5
        (open_proxy [\<lparr>ret = 2, sets_errno = None, bytes = []\<rparr>, \<lparr>ret = -1, sets_errno = Some EAGAIN, bytes = []\<rparr>,
                     \<lparr>ret = 3, sets_errno = None, bytes = []\<rparr>]) =
      Inr (5, open_proxy []\<lparr>errno := e, trace := acts\<rparr>) \<and> sent_to 8 acts = ''hello''"
  using writeData_sends_all
    [of "open_proxy [\<lparr>ret = 2, sets_errno = None, bytes = []\<rparr>, \<lparr>ret = -1, sets_errno = Some EAGAIN, bytes = []\<rparr>,
                     \<lparr>ret = 3, sets_errno = None, bytes = []\<rparr>]" 8 5 _ "[]" "mem_of ''hello'' (\<lambda>i. NUL)"]
  by (simp add: bytes_at_def mem_of_def upt_rec numeral_nat) blast

subsection \<open>closeFd starts over\<close>

definition fd_ok :: "int \<Rightarrow> bool" where
  "fd_ok fd \<longleftrightarrow> - 1 \<le> fd \<and> fd < 1024"

text \<open>
  The invariant of the process: a sound event table of 1024 descriptors, all registered for
  reading only, sound timers, valid descriptors or -1, and a sound queue.
\<close>

definition loop_ok :: "proc aeEventLoop \<Rightarrow> bool" where
  "loop_ok l \<longleftrightarrow> el_wf l \<and> setsize l = 1024 \<and> timers_wf l \<and>
     (\<forall>fd. fd_mask l fd = AE_NONE \<or> fd_mask l fd = AE_READABLE)"

definition proxy_wf :: "proxy \<Rightarrow> bool" where
  "proxy_wf s \<longleftrightarrow> loop_ok (loop s) \<and> env_wf (que s) \<and>
     fd_ok (master_fd s) \<and> fd_ok (client_fd s) \<and> fd_ok (read_fd s) \<and> fd_ok (listen_fd s)"

lemma fd_mask_timers [simp]:
  "fd_mask (l\<lparr>timeEventHead := t\<rparr>) fd = fd_mask l fd"
  "fd_mask (l\<lparr>timeEventNextId := i\<rparr>) fd = fd_mask l fd"
  "fd_mask (l\<lparr>apidata := w\<rparr>) fd = fd_mask l fd"
  by (simp_all add: fd_mask_def)

lemma el_wf_timers [simp]:
  "el_wf (l\<lparr>timeEventHead := t\<rparr>) = el_wf l" "el_wf (l\<lparr>timeEventNextId := i\<rparr>) = el_wf l"
  by (simp_all add: el_wf_def)

lemma aeDeleteFileEvent_timers:
  "aeDeleteFileEvent l fd m = Inr l' \<Longrightarrow>
   timeEventHead l' = timeEventHead l \<and> timeEventNextId l' = timeEventNextId l"
  by (auto simp: aeDeleteFileEvent_def aeApiDelEvent_def Let_def split: if_splits)

text \<open>Unregistering and closing a descriptor that was registered for reading only.\<close>

lemma unregister_close:
  assumes l: "loop_ok l" and fd: "0 \<le> fd" "fd < 1024"
  shows "\<exists>l'. aeDeleteFileEvent l fd AE_READABLE = Inr l' \<and> loop_ok (epoll_close fd l') \<and>
    (\<forall>fd'. fd_mask (epoll_close fd l') fd' = (if fd' = fd then AE_NONE else fd_mask l fd')) \<and>
    timeEventHead (epoll_close fd l') = timeEventHead l \<and>
    timeEventNextId (epoll_close fd l') = timeEventNextId l"
proof -
  obtain l' where l': "aeDeleteFileEvent l fd AE_READABLE = Inr l'" "el_wf l'" "setsize l' = setsize l"
    "\<forall>fd'. fd_mask l' fd' = (if fd' = fd then fd_mask l fd AND NOT AE_READABLE else fd_mask l fd')"
    using aeDeleteFileEvent_ok [of l fd AE_READABLE] l fd by (auto simp: loop_ok_def AE_READABLE_def)
  have "fd_mask l fd = AE_NONE \<or> fd_mask l fd = AE_READABLE" using l by (simp add: loop_ok_def)
  then have none: "fd_mask l fd AND NOT AE_READABLE = AE_NONE"
    by (auto simp: AE_NONE_def AE_READABLE_def)
  then have m: "\<forall>fd'. fd_mask (epoll_close fd l') fd' = (if fd' = fd then AE_NONE else fd_mask l fd')"
    using l'(4) by (simp add: epoll_close_def)
  have "el_wf (epoll_close fd l')"
    using l'(2,4) none unfolding el_wf_def
    by (simp add: epoll_close_def watch_of_def)
  then have "loop_ok (epoll_close fd l')"
    using l l'(3) m aeDeleteFileEvent_timers [OF l'(1)]
    by (simp add: loop_ok_def epoll_close_def timers_wf_def)
  then show ?thesis
    using l'(1) m aeDeleteFileEvent_timers [OF l'(1)] by (auto simp: epoll_close_def)
qed

text \<open>One block of \<open>closeFd\<close>, for any of the four descriptors.\<close>

lemma drop_fd_ok:
  assumes "loop_ok (loop s)" and "fd_ok (get s)"
    and get: "\<And>l. get (s\<lparr>loop := l\<rparr>) = get s" and reset: "get s = -1 \<Longrightarrow> reset s = s"
  shows "\<exists>l tr. drop_fd get reset s = Inr (reset (s\<lparr>loop := l, trace := tr\<rparr>)) \<and>
     loop_ok l \<and> timeEventHead l = timeEventHead (loop s) \<and>
     timeEventNextId l = timeEventNextId (loop s) \<and>
     (\<forall>fd. fd_mask l fd = (if fd = get s then AE_NONE else fd_mask (loop s) fd))"
proof (cases "get s = -1")
  case True
  moreover have "fd_mask (loop s) (-1) = AE_NONE" by (simp add: fd_mask_def)
  moreover have "s = s\<lparr>loop := loop s, trace := trace s\<rparr>" by simp
  ultimately show ?thesis using assms(1) reset
    by (intro exI [of _ "loop s"] exI [of _ "trace s"]) (auto simp: drop_fd_def)
next
  case False
  then have fd: "0 \<le> get s" "get s < 1024" using assms(2) by (auto simp: fd_ok_def)
  obtain l' where "aeDeleteFileEvent (loop s) (get s) AE_READABLE = Inr l'"
    and l': "loop_ok (epoll_close (get s) l')"
    "\<forall>fd'. fd_mask (epoll_close (get s) l') fd' = (if fd' = get s then AE_NONE else fd_mask (loop s) fd')"
    "timeEventHead (epoll_close (get s) l') = timeEventHead (loop s)"
    "timeEventNextId (epoll_close (get s) l') = timeEventNextId (loop s)"
    using unregister_close [OF assms(1) fd] by blast
  then have "drop_fd get reset s = Inr (reset (close_fd (get s) (s\<lparr>loop := l'\<rparr>)))"
    using False by (simp add: drop_fd_def unregister_def get)
  moreover have "close_fd (get s) (s\<lparr>loop := l'\<rparr>) =
      s\<lparr>loop := epoll_close (get s) l', trace := trace s @ [Closed (get s)]\<rparr>"
    by (simp add: close_fd_def emit_def)
  ultimately show ?thesis using l'
    by (intro exI [of _ "epoll_close (get s) l'"] exI [of _ "trace s @ [Closed (get s)]"]) (simp only: simp_thms)
qed

text \<open>What \<open>closeFd\<close> does from a state of the invariant.\<close>

lemma closeFd_resets:
  assumes "proxy_wf s" and "pending s = r # later" and "fd \<in> {master_fd s, client_fd s, read_fd s, listen_fd s}"
  shows "\<exists>s'. closeFd s = Inr s' \<and> proxy_wf s' \<and>
           master_fd s' = -1 \<and> client_fd s' = -1 \<and> read_fd s' = -1 \<and> listen_fd s' = -1 \<and>
           fd_mask (loop s') fd = AE_NONE \<and> proxy_state s' = START_STATE \<and>
           len (buf_master_cmd s') = 0 \<and> len (buf_slave_answer s') = 0 \<and> env_list (que s') = [] \<and>
           timer_map (timeEventHead (loop s')) =
             (timer_map (timeEventHead (loop s)))(time_event_id s := None,
                time_event_id s' \<mapsto> (ret r + 1, TimeEvent)) \<and>
           pending s' = later"
proof -
  have wf: "loop_ok (loop s)" "env_wf (que s)" "fd_ok (master_fd s)" "fd_ok (client_fd s)"
    "fd_ok (read_fd s)" "fd_ok (listen_fd s)" using assms(1) by (auto simp: proxy_wf_def)
  obtain st fin l0 where del: "aeDeleteTimeEvent (loop s) (time_event_id s) = (st, fin, l0)"
    by (cases "aeDeleteTimeEvent (loop s) (time_event_id s)") auto
  have t0: "timers_wf l0" "timer_map (timeEventHead l0) = (timer_map (timeEventHead (loop s)))(time_event_id s := None)"
    using timers.step_sim [of "loop s" "CancelTimer (time_event_id s)"] wf(1) del by (auto simp: loop_ok_def)
  have l0: "loop_ok l0" "\<And>fd. fd_mask l0 fd = fd_mask (loop s) fd"
    using wf(1) t0(1) del by (auto simp: loop_ok_def aeDeleteTimeEvent_def split: option.splits)
  let ?s0 = "s\<lparr>loop := l0\<rparr>"
  obtain l1 t1 where 1: "drop_fd client_fd (\<lambda>s. s\<lparr>client_fd := -1\<rparr>) ?s0 =
      Inr (?s0\<lparr>loop := l1, trace := t1, client_fd := -1\<rparr>)" "loop_ok l1"
    "timeEventHead l1 = timeEventHead l0" "timeEventNextId l1 = timeEventNextId l0"
    "\<forall>fd. fd_mask l1 fd = (if fd = client_fd s then AE_NONE else fd_mask l0 fd)"
    using drop_fd_ok [of ?s0 client_fd "\<lambda>s. s\<lparr>client_fd := -1\<rparr>"] l0(1) wf(4) by auto
  let ?s1 = "?s0\<lparr>loop := l1, trace := t1, client_fd := -1\<rparr>"
  obtain l2 t2 where 2: "drop_fd read_fd (\<lambda>s. s\<lparr>read_fd := -1\<rparr>) ?s1 =
      Inr (?s1\<lparr>loop := l2, trace := t2, read_fd := -1\<rparr>)" "loop_ok l2"
    "timeEventHead l2 = timeEventHead l1" "timeEventNextId l2 = timeEventNextId l1"
    "\<forall>fd. fd_mask l2 fd = (if fd = read_fd s then AE_NONE else fd_mask l1 fd)"
    using drop_fd_ok [of ?s1 read_fd "\<lambda>s. s\<lparr>read_fd := -1\<rparr>"] 1(2) wf(5) by auto
  let ?s2 = "?s1\<lparr>loop := l2, trace := t2, read_fd := -1\<rparr>"
  obtain l3 t3 where 3: "drop_fd master_fd (\<lambda>s. s\<lparr>master_fd := -1\<rparr>) ?s2 =
      Inr (?s2\<lparr>loop := l3, trace := t3, master_fd := -1\<rparr>)" "loop_ok l3"
    "timeEventHead l3 = timeEventHead l2" "timeEventNextId l3 = timeEventNextId l2"
    "\<forall>fd. fd_mask l3 fd = (if fd = master_fd s then AE_NONE else fd_mask l2 fd)"
    using drop_fd_ok [of ?s2 master_fd "\<lambda>s. s\<lparr>master_fd := -1\<rparr>"] 2(2) wf(3) by auto
  let ?s3 = "?s2\<lparr>loop := l3, trace := t3, master_fd := -1\<rparr>"
  obtain l4 t4 where 4: "drop_fd listen_fd (\<lambda>s. s\<lparr>listen_fd := -1\<rparr>) ?s3 =
      Inr (?s3\<lparr>loop := l4, trace := t4, listen_fd := -1\<rparr>)" "loop_ok l4"
    "timeEventHead l4 = timeEventHead l3" "timeEventNextId l4 = timeEventNextId l3"
    "\<forall>fd. fd_mask l4 fd = (if fd = listen_fd s then AE_NONE else fd_mask l3 fd)"
    using drop_fd_ok [of ?s3 listen_fd "\<lambda>s. s\<lparr>listen_fd := -1\<rparr>"] 3(2) wf(6) by auto
  obtain qu where qu: "clear_queue (que s) = Some (que s\<lparr>q := qu\<rparr>)" "queue_wf qu" "queue_list qu = []"
    using clear_env [OF wf(2)] by blast
  obtain i l5 where new: "aeCreateTimeEvent True (ret r) l4 1 TimeEvent None = (i, l5)"
    by (cases "aeCreateTimeEvent True (ret r) l4 1 TimeEvent None")
  have t5: "timers_wf l5" "timer_map (timeEventHead l5) = (timer_map (timeEventHead l4))(i \<mapsto> (ret r + 1, TimeEvent))"
    using timers.step_sim [of l4 "StartTimer (ret r) 1 TimeEvent"] 4(2) new by (auto simp: loop_ok_def)
  have l5: "loop_ok l5" "\<And>fd. fd_mask l5 fd = fd_mask l4 fd"
    using 4(2) t5(1) new by (auto simp: loop_ok_def aeCreateTimeEvent_def Let_def split: prod.splits)
  obtain s' where s': "s' = s\<lparr>loop := l5, trace := t4, client_fd := -1, read_fd := -1, master_fd := -1,
      listen_fd := -1, proxy_state := START_STATE, buf_master_cmd := (buf_master_cmd s)\<lparr>len := 0\<rparr>,
      buf_slave_answer := (buf_slave_answer s)\<lparr>len := 0\<rparr>, que := (que s)\<lparr>q := qu\<rparr>, pending := later,
      errno := (case sets_errno r of None \<Rightarrow> errno s | Some e \<Rightarrow> e), time_event_id := i\<rparr>" by simp
  have "closeFd s = Inr s'"
    unfolding closeFd_def del prod.case 1(1) andThen_simps 2(1) 3(1) 4(1) Let_def
    using qu(1) assms(2) by (cases s) (simp add: syscall_def new s' split: option.split)
  moreover have "env_wf (que s')" using qu wf(2) by (simp add: env_wf_def s')
  moreover have "fd_mask (loop s') fd = AE_NONE"
    using assms(3) l5(2) 4(5) 3(5) 2(5) 1(5) by (auto simp: s')
  moreover have "timer_map (timeEventHead (loop s')) =
      (timer_map (timeEventHead (loop s)))(time_event_id s := None, time_event_id s' \<mapsto> (ret r + 1, TimeEvent))"
    using t0(2) t5(2) 1(3) 2(3) 3(3) 4(3) by (simp add: s')
  moreover have "proxy_wf s'"
    using calculation(2) l5(1) by (simp add: proxy_wf_def s' fd_ok_def)
  ultimately show ?thesis using qu by (intro exI [of _ s'] conjI) (simp_all add: s')
qed

text \<open>
  C24. \<open>closeFd\<close> brings the process back to the start from any state of the invariant: it
  returns, all four descriptors are -1, none of them is registered any more, the state is
  \<open>START_STATE\<close>, both buffers and the queue of outstanding keys are empty, the old timer is
  gone and a new one runs, and the invariant holds again.
\<close>

theorem closeFd_starts_over:
  assumes "proxy_wf s" and "pending s = r # later" and "fd \<in> {master_fd s, client_fd s, read_fd s, listen_fd s}"
  shows "\<exists>s'. closeFd s = Inr s' \<and> proxy_wf s' \<and>
           master_fd s' = -1 \<and> client_fd s' = -1 \<and> read_fd s' = -1 \<and> listen_fd s' = -1 \<and>
           fd_mask (loop s') fd = AE_NONE \<and> proxy_state s' = START_STATE \<and>
           len (buf_master_cmd s') = 0 \<and> len (buf_slave_answer s') = 0 \<and> env_list (que s') = [] \<and>
           timer_map (timeEventHead (loop s')) =
             (timer_map (timeEventHead (loop s)))(time_event_id s := None,
                time_event_id s' \<mapsto> (ret r + 1, TimeEvent)) \<and>
           pending s' = later"
  using closeFd_resets [OF assms] .

lemma fresh_loop_loop_ok: "loop_ok fresh_loop"
  using aeCreateEventLoop_wf [OF fresh_loop_ok [where ?'a = proc]] fresh_loop_setsize [where ?'a = proc]
  by (simp add: loop_ok_def timers_wf_def) (simp add: fresh_loop_def aeCreateEventLoop_def)

lemma open_proxy_wf: "proxy_wf (open_proxy answers)"
  by (simp add: proxy_wf_def fresh_loop_loop_ok init_env fd_ok_def)

theorem closeFd_starts_over_witness:
  "\<exists>s'. closeFd (open_proxy [\<lparr>ret = 4000, sets_errno = None, bytes = []\<rparr>]) = Inr s' \<and>
        master_fd s' = -1 \<and> env_list (que s') = [] \<and> proxy_state s' = START_STATE"
  using closeFd_starts_over [of "open_proxy [\<lparr>ret = 4000, sets_errno = None, bytes = []\<rparr>]" _ "[]" 5]
    open_proxy_wf [of "[\<lparr>ret = 4000, sets_errno = None, bytes = []\<rparr>]"]
  by auto

end
