(* ===== verification/Store.thy ===== *)
theory Store
  imports Io
begin

text \<open>
  Storing a value: \<open>load_conf\<close> of \<^verbatim>\<open>proxy/read_conf.c\<close>, \<open>initHost\<close> of \<^verbatim>\<open>proxy/main.c\<close>, and
  \<open>saveValue\<close> and \<open>sendToHost\<close> of \<^verbatim>\<open>proxy/store.c\<close>.  The JSON and HTTP libraries and the
  configuration file reader are parameters.  The main result is where a value goes: to the
  file server the hash of its key selects, then to the backup of that server.
\<close>

subsection \<open>The libraries\<close>

text \<open>
  What the proxy uses of jansson (\<open>'j\<close> are objects, \<open>'v\<close> string values; \<open>json_string\<close> refuses
  text that is not UTF-8, and setting a null value leaves the object as it is, which is for
  \<open>json_object_set\<close> to say) and of curl.
\<close>

record ('j, 'v) libs =
  json_object :: 'j
  json_string :: "string \<Rightarrow> 'v option"
  json_object_set :: "'j \<Rightarrow> string \<Rightarrow> 'v option \<Rightarrow> 'j"
  json_dumps :: "'j \<Rightarrow> string option"
  curl_easy_init :: bool
  curl_easy_escape :: "string \<Rightarrow> string option"

text \<open>What \<open>load_conf\<close> uses of a glib key file, for the group \<open>iceberg\<close>.\<close>

record keyfile =
  load_from_file :: bool
  get_integer :: "string \<Rightarrow> int"
  get_string :: "string \<Rightarrow> string option"
  get_string_list :: "string \<Rightarrow> string list option"

subsection \<open>Configuration\<close>

record Settings =
  listen_port :: int
  master_ip :: string
  self_ip :: string
  master_port :: int
  slave_ip :: string
  ips :: "string list"
  ip_num :: nat
  slave_port :: int

text \<open>\<open>g_error\<close> aborts the process; the other failures return \<open>NULL\<close>.\<close>

definition load_conf :: "keyfile \<Rightarrow> Settings option outcome" where
  "load_conf kf =
     (if \<not> load_from_file kf then Inl Exit
      else Inr (let lport = get_integer kf ''listen_port'' in
        if lport = 0 then None
        else do {
          sip \<leftarrow> get_string kf ''self_ip'';
          mip \<leftarrow> get_string kf ''master_ip'';
          let mport = get_integer kf ''master_port'';
          if mport = 0 then None
          else do {
            slip \<leftarrow> get_string kf ''slave_ip'';
            let slport = get_integer kf ''slave_port'';
            if slport = 0 then None
            else do {
              l \<leftarrow> get_string_list kf ''ips'';
              if length l mod 2 \<noteq> 0 then None
              else Some \<lparr>listen_port = lport, master_ip = mip, self_ip = sip, master_port = mport,
                         slave_ip = slip, ips = l, ip_num = length l, slave_port = slport\<rparr>
            }
          }
        }))"

text \<open>The two loops of \<open>initHost\<close>, which step through the addresses by two.\<close>

fun init_masters :: "string list \<Rightarrow> DataType list" where
  "init_masters [] = []"
| "init_masters [m] = [Some m]"
| "init_masters (m # b # rest) = Some m # init_masters rest"

fun init_backups :: "string list \<Rightarrow> table_env \<Rightarrow> table_env option" where
  "init_backups [] t = Some t"
| "init_backups [m] t = None"
| "init_backups (m # b # rest) t = Option.bind (table_set t m b) (init_backups rest)"

definition initHost :: "string list \<Rightarrow> proxy \<Rightarrow> (int \<times> proxy) outcome" where
  "initHost addrs s =
     (let s = s\<lparr>host_master_num := host_master_num s + int (length (init_masters addrs)),
               host_masters := init_masters addrs\<rparr>
      in case ht_create True True 65536 of
           None \<Rightarrow> Inl Undefined
         | Some ht \<Rightarrow>
             andThen (of_opt Undefined (init_backups addrs (ht, snd (hashtable s)))) (\<lambda>t.
               Inr (1, s\<lparr>hashtable := t\<rparr>)))"

subsection \<open>Sending a value\<close>

definition post_url :: "string \<Rightarrow> string \<Rightarrow> string" where
  "post_url host encoded_key = ''http://'' @ host @ '':8090/writeData?key='' @ encoded_key"

definition sendToHost :: "('j, 'v) libs \<Rightarrow> string \<Rightarrow> string \<Rightarrow> string \<Rightarrow> proxy \<Rightarrow> proxy outcome" where
  "sendToHost L host key value s =
     (if curl_easy_init L then
        (case curl_easy_escape L key of
           None \<Rightarrow> Inl Undefined
         | Some encoded_key \<Rightarrow> Inr (emit (Posted (post_url host encoded_key) value) s))
      else Inr s)"

definition saveValue :: "('j, 'v) libs \<Rightarrow> 'j option \<Rightarrow> string \<Rightarrow> proxy \<Rightarrow> (int \<times> proxy) outcome" where
  "saveValue L object key s =
     (case object of
        None \<Rightarrow> Inl Exit
      | Some obj \<Rightarrow>
          (case json_dumps L obj of
             None \<Rightarrow> Inr (-1, s)
           | Some value \<Rightarrow>
               andThen (of_opt Undefined (myhash (hash_stack s 0) key (host_master_num s))) (\<lambda>h.
                 let s = s\<lparr>hash_stack := (\<lambda>n. hash_stack s (Suc n))\<rparr> in
                 if h < 0 \<or> h \<ge> int (length (host_masters s)) then Inl Undefined
                 else case host_masters s ! nat h of
                        None \<Rightarrow> Inr (1, s)
                      | Some host \<Rightarrow>
                          andThen (sendToHost L host key value s) (\<lambda>s.
                            let backup = table_get (hashtable s) host;
                                s = s\<lparr>hashtable := (fst (hashtable s), \<lambda>n. snd (hashtable s) (Suc n))\<rparr> in
                            (case backup of
                               None \<Rightarrow> Inr (1, s)
                             | Some b \<Rightarrow> andThen (sendToHost L b key value s) (\<lambda>s. Inr (1, s)))))))"

subsection \<open>The table of hosts\<close>

text \<open>
  The configured addresses are pairs of a file server and its backup.  \<open>hosts_ok\<close> is what the
  results ask of them: at least one pair, no server twice, and addresses the table of
  backups is a map on.
\<close>

definition addrs_of :: "(string \<times> string) list \<Rightarrow> string list" where
  "addrs_of hosts = concat (map (\<lambda>(m, b). [m, b]) hosts)"

definition hosts_ok :: "(string \<times> string) list \<Rightarrow> bool" where
  "hosts_ok hosts \<longleftrightarrow> hosts \<noteq> [] \<and> distinct (map fst hosts) \<and> (\<forall>(m, b) \<in> set hosts. table_key m)"

definition store_ok :: "(string \<times> string) list \<Rightarrow> proxy \<Rightarrow> bool" where
  "store_ok hosts s \<longleftrightarrow> hosts_ok hosts \<and>
     host_masters s = map (\<lambda>h. Some (fst h)) hosts \<and> host_master_num s = int (length hosts) \<and>
     table_inv (hashtable s) \<and> (\<forall>(m, b) \<in> set hosts. table_get (hashtable s) m = Some b) \<and>
     (\<forall>n. length (md5_buffer (hash_stack s n)) = 64)"

text \<open>The pair of servers a key is stored on.\<close>

definition host_of :: "(string \<times> string) list \<Rightarrow> string \<Rightarrow> string \<times> string" where
  "host_of hosts key = hosts ! nat (digest_sum key mod int (length hosts))"

text \<open>The requests that store an object under a key.\<close>

definition posts_of :: "('j, 'v) libs \<Rightarrow> (string \<times> string) list \<Rightarrow> string \<Rightarrow> 'j \<Rightarrow> act list" where
  "posts_of L hosts key obj =
     map (\<lambda>h. Posted (post_url h (the (curl_easy_escape L key))) (the (json_dumps L obj)))
       [fst (host_of hosts key), snd (host_of hosts key)]"

text \<open>The documented behaviour of the libraries when they do not run out of memory.\<close>

definition libs_ok :: "('j, 'v) libs \<Rightarrow> bool" where
  "libs_ok L \<longleftrightarrow> curl_easy_init L \<and> (\<forall>k. curl_easy_escape L k \<noteq> None) \<and> (\<forall>j. json_dumps L j \<noteq> None)"

lemma init_masters_addrs: "init_masters (addrs_of hosts) = map (\<lambda>h. Some (fst h)) hosts"
  by (induction hosts) (auto simp: addrs_of_def)

lemma init_backups_addrs: "init_backups (addrs_of hosts) t = upds table_set hosts t"
proof (induction hosts arbitrary: t)
  case (Cons h hosts)
  then have "init_backups (addrs_of hosts) = upds table_set hosts" by (simp add: fun_eq_iff)
  then show ?case by (cases h) (simp add: addrs_of_def)
qed (simp add: addrs_of_def)

lemma initHost_ok:
  assumes hosts: "hosts_ok hosts" and g: "\<forall>n. snd (hashtable s) n \<noteq> ULONG_MAX"
    and stack: "\<forall>n. length (md5_buffer (hash_stack s n)) = 64" and num: "host_master_num s = 0"
  shows "\<exists>t. initHost (addrs_of hosts) s =
      Inr (1, s\<lparr>host_master_num := int (length hosts),
                host_masters := map (\<lambda>h. Some (fst h)) hosts, hashtable := t\<rparr>) \<and>
    store_ok hosts (s\<lparr>host_master_num := int (length hosts),
                host_masters := map (\<lambda>h. Some (fst h)) hosts, hashtable := t\<rparr>)"
proof -
  obtain ht where ht: "ht_create True True 65536 = Some ht" by (simp add: ht_create_def)
  have keys: "\<forall>(m, b) \<in> set hosts. table_key m" and dist: "distinct (map fst hosts)"
    using hosts by (auto simp: hosts_ok_def)
  obtain t where t: "upds table_set hosts (ht, snd (hashtable s)) = Some t" "table_inv t"
    "\<forall>k. table_key k \<longrightarrow> table_get t k = (case map_of (rev hosts) k of
        None \<Rightarrow> table_get (ht, snd (hashtable s)) k | Some v \<Rightarrow> Some v)"
    using backups.upds_law [OF table_created [OF ht g] keys] by blast
  have "table_get t m = Some b" if "(m, b) \<in> set hosts" for m b
  proof -
    have "distinct (map fst (rev hosts))" using dist by (simp flip: rev_map)
    then have "map_of (rev hosts) m = Some b" using that by simp
    then show ?thesis using t(3) keys that by auto
  qed
  then have "\<forall>(m, b) \<in> set hosts. table_get t m = Some b" by blast
  then show ?thesis
    using hosts stack t(1,2) ht num
    by (intro exI [of _ t]) (simp add: initHost_def init_masters_addrs init_backups_addrs store_ok_def Let_def)
qed

lemma host_of_in: "hosts \<noteq> [] \<Longrightarrow> host_of hosts key \<in> set hosts"
  unfolding host_of_def by (intro nth_mem) (simp add: nat_less_iff)

lemma saveValue_ok:
  assumes ok: "store_ok hosts s" and L: "libs_ok L" and key: "length key < 2 ^ 32"
  shows "\<exists>t st. saveValue L (Some obj) key s =
      Inr (1, s\<lparr>trace := trace s @ posts_of L hosts key obj, hashtable := t, hash_stack := st\<rparr>) \<and>
    store_ok hosts (s\<lparr>trace := trace s @ posts_of L hosts key obj, hashtable := t, hash_stack := st\<rparr>)"
proof -
  have hosts: "hosts \<noteq> []" "0 < length hosts" using ok by (auto simp: store_ok_def hosts_ok_def)
  define h where "h = digest_sum key mod int (length hosts)"
  have h: "0 \<le> h" "h < int (length hosts)" using hosts by (simp_all add: h_def)
  obtain v e where ve: "json_dumps L obj = Some v" "curl_easy_escape L key = Some e"
    using L unfolding libs_ok_def by blast
  obtain m b where mb: "host_of hosts key = (m, b)" by (cases "host_of hosts key")
  have "myhash (hash_stack s 0) key (host_master_num s) = Some h"
    using myhash_eq [of "hash_stack s 0" key "int (length hosts)"] ok key hosts by (simp add: store_ok_def h_def)
  moreover have "host_masters s ! nat h = Some m" "length (host_masters s) = length hosts"
    using ok mb h by (auto simp: store_ok_def host_of_def h_def nat_less_iff)
  moreover have mem: "(m, b) \<in> set hosts" using host_of_in [OF hosts(1), of key] mb by simp
  then have "table_get (hashtable s) m = Some b" using ok by (auto simp: store_ok_def)
  ultimately have "saveValue L (Some obj) key s =
      Inr (1, s\<lparr>trace := trace s @ posts_of L hosts key obj,
        hashtable := (fst (hashtable s), \<lambda>n. snd (hashtable s) (Suc n)),
        hash_stack := (\<lambda>n. hash_stack s (Suc n))\<rparr>)"
    using ve L h by (cases s) (simp add: saveValue_def sendToHost_def libs_ok_def emit_def posts_of_def mb Let_def)
  moreover have "store_ok hosts (s\<lparr>trace := trace s @ posts_of L hosts key obj,
        hashtable := (fst (hashtable s), \<lambda>n. snd (hashtable s) (Suc n)),
        hash_stack := (\<lambda>n. hash_stack s (Suc n))\<rparr>)"
  proof -
    have "table_get (fst (hashtable s), \<lambda>n. snd (hashtable s) (Suc n)) m' = Some b'"
      if mem': "(m', b') \<in> set hosts" for m' b'
    proof -
      have "table_key m'" "table_get (hashtable s) m' = Some b'" "table_inv (hashtable s)"
        using ok mem' by (auto simp: store_ok_def hosts_ok_def)
      then show ?thesis using table_get_shift [of "hashtable s" m'] by simp
    qed
    then show ?thesis using ok by (auto simp: store_ok_def table_inv_def)
  qed
  ultimately show ?thesis by blast
qed


text \<open>Libraries on which the properties are applied: objects are lists of fields.\<close>

definition sample_libs :: "((string \<times> string) list, string) libs" where
  "sample_libs =
     \<lparr>json_object = [], json_string = Some,
      json_object_set = (\<lambda>j k v. case v of None \<Rightarrow> j | Some w \<Rightarrow> j @ [(k, w)]),
      json_dumps = (\<lambda>j. Some (concat (map (\<lambda>(k, v). k @ ''='' @ v @ '','') j))),
      curl_easy_init = True, curl_easy_escape = Some\<rparr>"

definition sample_hosts :: "(string \<times> string) list" where
  "sample_hosts = [(''10.0.0.1'', ''10.0.0.2''), (''10.0.0.3'', ''10.0.0.4'')]"

lemma sample_libs_ok: "libs_ok sample_libs"
  by (simp add: libs_ok_def sample_libs_def)

lemma sample_hosts_ok: "hosts_ok sample_hosts"
  by (simp add: hosts_ok_def sample_hosts_def table_key_def ascii_def schar_def)

lemma open_proxy_store [simp]:
  "snd (hashtable (open_proxy a)) n \<noteq> ULONG_MAX" "length (md5_buffer (hash_stack (open_proxy a) n)) = 64"
  "host_master_num (open_proxy a) = 0"
  by (simp_all add: open_proxy_def globals_def ULONG_MAX_def)


text \<open>
  \<open>load_conf\<close> hands out a configuration only when the file could be read, no port is 0 and
  the addresses come in pairs (so that \<open>initHost\<close> never reads past the list); an unreadable
  file ends the process.
\<close>

theorem load_conf_checks:
  "(case load_conf kf of
      Inl e \<Rightarrow> e = Exit \<and> \<not> load_from_file kf
    | Inr None \<Rightarrow> load_from_file kf
    | Inr (Some c) \<Rightarrow> load_from_file kf \<and> listen_port c \<noteq> 0 \<and> master_port c \<noteq> 0 \<and> slave_port c \<noteq> 0 \<and>
        ip_num c = length (ips c) \<and> (\<exists>hosts. ips c = addrs_of hosts \<and> init_masters (ips c) = map (Some \<circ> fst) hosts))"
proof -
  have pairs: "\<exists>hosts. l = addrs_of hosts" if "length l mod 2 = 0" for l
    using that
  proof (induction l rule: init_masters.induct)
    case (3 m b rest)
    then obtain hosts where "rest = addrs_of hosts" by auto
    then have "m # b # rest = addrs_of ((m, b) # hosts)" by (simp add: addrs_of_def)
    then show ?case by blast
  qed (auto simp: addrs_of_def intro: exI [of _ "[]"])
  have "\<exists>hosts. l = addrs_of hosts \<and> init_masters l = map (Some \<circ> fst) hosts" if "length l mod 2 = 0" for l
    using pairs [OF that] init_masters_addrs by (auto simp: comp_def)
  then show ?thesis
    by (auto simp: load_conf_def Let_def split: option.split bind_split)
qed

end
