(* ===== verification/Parser.thy ===== *)
theory Parser
  imports Store
begin

text \<open>
  The answers of the slave, \<^verbatim>\<open>proxy/parser.c\<close>: the proxy asks for the value of every key it
  sees deleted and reads the replies in chunks that may end anywhere.  The first part is the
  code; the second proves that replies are parsed wherever the chunks end, each stored under
  the key asked for first.
\<close>

subsection \<open>Saving an incomplete command\<close>

definition saveToBuf :: "WData \<Rightarrow> int \<Rightarrow> WData \<Rightarrow> WData outcome" where
  "saveToBuf w start buf =
     (let buf = buf\<lparr>len := i32 (len w - start)\<rparr> in
      if len buf < MAX_READ
      then andThen (strncpy (data buf) 0 (data w) start (len buf)) (\<lambda>d. Inr (buf\<lparr>data := d\<rparr>))
      else Inr (buf\<lparr>len := 0\<rparr>))"

text \<open>\<open>saveToBuf(wdata, start, &buf_slave_answer)\<close> before a \<open>return -1\<close>.\<close>

definition save_answer :: "WData \<Rightarrow> int \<Rightarrow> proxy \<Rightarrow> proxy outcome" where
  "save_answer w start s =
     andThen (saveToBuf w start (buf_slave_answer s)) (\<lambda>b. Inr (s\<lparr>buf_slave_answer := b\<rparr>))"

subsection \<open>Replies\<close>

text \<open>
  The digit loops.  \<open>data[index]\<close> is read before the bound is tested, but its value does not
  matter when the bound fails.  In \<open>parseArray\<close> the bound is tested inside the loop as well,
  which leaves it in the same cases with an index of at least \<open>len\<close>.
\<close>

function digits :: "WData \<Rightarrow> int \<Rightarrow> int \<Rightarrow> int \<times> int" where
  "digits w index acc =
     (if data w index \<noteq> CHR 0x0D \<and> index < len w
      then digits w (index + 1) (i32 (i32 (acc * 10) + schar (data w index) - 48))
      else (acc, index))"
  by pat_completeness auto
termination by (relation "measure (\<lambda>(w, index, acc). nat (len w - index))") auto

declare digits.simps [simp del]

text \<open>
  \<open>calloc\<close> of a positive length and one more, and \<open>strncpy\<close> into it: the C string the new memory
  holds.
\<close>

definition copy_item :: "WData \<Rightarrow> int \<Rightarrow> int \<Rightarrow> string" where
  "copy_item w item_start item_len = c_str (bytes_at (data w) item_start item_len)"

text \<open>The local \<open>item_key\<close>: not initialised, a string, or freed.\<close>

datatype cptr = Uninit | Ptr string | Freed

text \<open>
  The loop over the items of an array.  The first component of the result is \<open>None\<close> for the
  returns of -1, after the command was saved.
\<close>

function parse_items ::
  "('j, 'v) libs \<Rightarrow> WData \<Rightarrow> int \<Rightarrow> int \<Rightarrow> int \<Rightarrow> cptr \<Rightarrow> 'j \<Rightarrow> proxy \<Rightarrow>
   ((int \<times> 'j) option \<times> proxy) outcome" where
  "parse_items L w start index array_len item_key object s =
     (if array_len > 0 then
        if data w index \<noteq> CHR ''$'' then Inl Exit
        else if i32 (index + 1) \<ge> len w then andThen (save_answer w start s) (\<lambda>s. Inr (None, s))
        else case digits w (i32 (index + 1)) 0 of (item_len, index) \<Rightarrow>
          if index \<ge> len w then andThen (save_answer w start s) (\<lambda>s. Inr (None, s))
          else let index = i32 (index + 1);
                   item_start = i32 (index + 1);
                   index = i32 (index + i32 (item_len + 2));
                   index = i32 (index + 1) in
            if index > len w \<or> (index = len w \<and> array_len > 1)
            then andThen (save_answer w start s) (\<lambda>s. Inr (None, s))
            else if item_len > 0 then
              (if array_len mod 2 = 0 then
                 parse_items L w start index (array_len - 1)
                   (Ptr (copy_item w item_start item_len)) object s
               else
                 (case item_key of
                    Uninit \<Rightarrow> Inl Undefined
                  | Freed \<Rightarrow> Inl Undefined
                  | Ptr k \<Rightarrow>
                      parse_items L w start index (array_len - 1) Freed
                        (json_object_set L object k (json_string L (copy_item w item_start item_len))) s))
            else parse_items L w start index (array_len - 1) item_key object s
      else Inr (Some (index, object), s))"
  by pat_completeness auto
termination
  by (relation "measure (\<lambda>(L, w, start, index, array_len, item_key, object, s). nat array_len)") auto

declare parse_items.simps [simp del]

definition popHandle :: "('j, 'v) libs \<Rightarrow> 'j \<Rightarrow> proxy \<Rightarrow> proxy outcome" where
  "popHandle L object s =
     andThen (of_opt Blocked (pop_cir_queue (que s))) (\<lambda>(e, qu).
       let s = s\<lparr>que := qu\<rparr> in
       case e of
         None \<Rightarrow> Inl Exit
       | Some key \<Rightarrow> andThen (saveValue L (Some object) key s) (\<lambda>(r, s). Inr s))"

definition parseArray :: "('j, 'v) libs \<Rightarrow> WData \<Rightarrow> int \<Rightarrow> proxy \<Rightarrow> (int \<times> proxy) outcome" where
  "parseArray L w start s =
     (let index = i32 (start + 1) in
      if index \<ge> len w then andThen (save_answer w start s) (\<lambda>s. Inr (-1, s))
      else case digits w index 0 of (array_len, index) \<Rightarrow>
        if index \<ge> len w then andThen (save_answer w start s) (\<lambda>s. Inr (-1, s))
        else let index = i32 (index + 2) in
          if index > len w \<or> (index = len w \<and> array_len > 0)
          then andThen (save_answer w start s) (\<lambda>s. Inr (-1, s))
          else andThen (parse_items L w start index array_len Uninit (json_object L) s) (\<lambda>(r, s).
                 case r of
                   None \<Rightarrow> Inr (-1, s)
                 | Some (index, object) \<Rightarrow> andThen (popHandle L object s) (\<lambda>s. Inr (index, s))))"

text \<open>
  \<open>parseBulkString\<close> hands \<open>popHandle\<close> a character array where it expects a JSON object: with a
  key in the queue the JSON library then reads memory that is not an object.
\<close>

definition parseBulkString :: "WData \<Rightarrow> int \<Rightarrow> proxy \<Rightarrow> (int \<times> proxy) outcome" where
  "parseBulkString w start s =
     (case digits w (i32 (start + 1)) 0 of (item_len, index) \<Rightarrow>
        if index \<ge> len w then andThen (save_answer w start s) (\<lambda>s. Inr (-1, s))
        else let index = i32 (index + 1);
                 data_start = i32 (index + 1);
                 index = i32 (index + i32 (item_len + 2));
                 index = i32 (index + 1) in
          if index > len w then andThen (save_answer w start s) (\<lambda>s. Inr (-1, s))
          else andThen (calloc_copy (data w) data_start item_len) (\<lambda>saveData.
                 andThen (of_opt Blocked (pop_cir_queue (que s))) (\<lambda>(e, qu).
                   case e of None \<Rightarrow> Inl Exit | Some key \<Rightarrow> Inl Undefined)))"

function find_newline :: "WData \<Rightarrow> int \<Rightarrow> int option" where
  "find_newline w index =
     (if index < len w then
        (if data w index = CHR 0x0A then Some index else find_newline w (index + 1))
      else None)"
  by pat_completeness auto
termination by (relation "measure (\<lambda>(w, index). nat (len w - index))") auto

declare find_newline.simps [simp del]

definition parseSimple :: "WData \<Rightarrow> int \<Rightarrow> proxy \<Rightarrow> (int \<times> proxy) outcome" where
  "parseSimple w start s =
     (case find_newline w (i32 (start + 1)) of
        Some index \<Rightarrow>
          if data w index = CHR ''-'' \<or> index - start > 5
          then andThen (of_opt Blocked (pop_cir_queue (que s))) (\<lambda>(e, qu). Inr (index + 1, s\<lparr>que := qu\<rparr>))
          else Inr (index + 1, s)
      | None \<Rightarrow> andThen (save_answer w start s) (\<lambda>s. Inr (-1, s)))"

subsection \<open>One chunk\<close>

text \<open>
  One turn of the loop of \<open>parseReadData\<close>; \<open>None\<close> is the \<open>break\<close> at an unexpected byte.
\<close>

definition answer_turn :: "('j, 'v) libs \<Rightarrow> WData \<Rightarrow> int \<Rightarrow> proxy \<Rightarrow> (int option \<times> proxy) outcome" where
  "answer_turn L w index s =
     (if data w index = CHR ''*'' then andThen (parseArray L w index s) (\<lambda>(i, s). Inr (Some i, s))
      else if data w index = CHR ''$'' then andThen (parseBulkString w index s) (\<lambda>(i, s). Inr (Some i, s))
      else if data w index = CHR ''-'' \<or> data w index = CHR ''+'' \<or> data w index = CHR '':''
      then andThen (parseSimple w index s) (\<lambda>(i, s). Inr (Some i, s))
      else Inr (None, s))"

text \<open>The loop; a value of \<open>None\<close> is a loop that does not end.\<close>

partial_function (option) answer_loop ::
  "('j, 'v) libs \<Rightarrow> WData \<Rightarrow> int \<Rightarrow> proxy \<Rightarrow> proxy outcome option" where
  "answer_loop L w index s =
     (if 0 \<le> index \<and> index < len w then
        (case answer_turn L w index s of
           Inl e \<Rightarrow> Some (Inl e)
         | Inr r \<Rightarrow> (case fst r of None \<Rightarrow> Some (Inr (snd r)) | Some i \<Rightarrow> answer_loop L w i (snd r)))
      else Some (Inr s))"

text \<open>
  The merged buffer: zeroed memory of the total length with both parts copied in; \<open>heap\<close> is
  what lies around it.
\<close>

definition merge_buf :: "cmem \<Rightarrow> WData \<Rightarrow> WData \<Rightarrow> WData outcome" where
  "merge_buf heap buf w =
     (let n = i32 (len buf + len w);
          m = (\<lambda>i. if 0 \<le> i \<and> i < n then NUL else heap i) in
      andThen (strncpy m 0 (data buf) 0 (len buf)) (\<lambda>m.
      andThen (strncpy m (len buf) (data w) 0 (len w)) (\<lambda>m.
        Inr \<lparr>len = n, data = m\<rparr>)))"

definition parseReadData :: "('j, 'v) libs \<Rightarrow> cmem \<Rightarrow> WData \<Rightarrow> proxy \<Rightarrow> proxy outcome option" where
  "parseReadData L heap w s =
     (case (if len (buf_slave_answer s) > 0 \<and> len (buf_slave_answer s) + len w < MAX_READ * 2
            then merge_buf heap (buf_slave_answer s) w else Inr w) of
        Inl e \<Rightarrow> Some (Inl e)
      | Inr processData \<Rightarrow>
          answer_loop L processData 0
            (if len (buf_slave_answer s) > 0
             then s\<lparr>buf_slave_answer := (buf_slave_answer s)\<lparr>len := 0\<rparr>\<rparr> else s))"

subsection \<open>The encoding of replies\<close>

fun dec :: "nat \<Rightarrow> string" where
  "dec n = (if n < 10 then [char_of (48 + n)] else dec (n div 10) @ [char_of (48 + n mod 10)])"

declare dec.simps [simp del]

definition crlf :: string where
  "crlf = [CHR 0x0D, CHR 0x0A]"

definition bulk :: "string \<Rightarrow> string" where
  "bulk t = CHR ''$'' # dec (length t) @ crlf @ t @ crlf"

text \<open>The answer to \<open>hgetall\<close>: the fields and values of the hash in turn.\<close>

definition items :: "(string \<times> string) list \<Rightarrow> string" where
  "items kvs = concat (map (\<lambda>(k, v). bulk k @ bulk v) kvs)"

definition reply :: "(string \<times> string) list \<Rightarrow> string" where
  "reply kvs = CHR ''*'' # dec (2 * length kvs) @ crlf @ items kvs"

text \<open>
  The memory of a buffer from \<open>i\<close> on agrees with some text as far as the buffer goes.  This
  covers both a text that is complete in the buffer and one that the chunk cuts off.
\<close>

definition avail :: "WData \<Rightarrow> int \<Rightarrow> string \<Rightarrow> bool" where
  "avail w i xs \<longleftrightarrow> 0 \<le> i \<and> i \<le> len w \<and>
     (\<forall>j < length xs. i + int j < len w \<longrightarrow> data w (i + int j) = xs ! j)"

lemma avail_append:
  "avail w i (xs @ ys) \<Longrightarrow>
   avail w i xs \<and> (i + int (length xs) \<le> len w \<longrightarrow> avail w (i + int (length xs)) ys)"
proof -
  assume a: "avail w i (xs @ ys)"
  have "avail w i xs"
    using a by (auto simp: avail_def nth_append)
  moreover have "data w (i + int (length xs) + int j) = ys ! j"
    if "j < length ys" "i + int (length xs) + int j < len w" for j
  proof -
    have "i + int (length xs + j) < len w" using that by simp
    then have "data w (i + int (length xs + j)) = (xs @ ys) ! (length xs + j)"
      using a that(1) unfolding avail_def by (metis length_append nat_add_left_cancel_less)
    then show ?thesis by (simp add: add.assoc)
  qed
  ultimately show ?thesis using a by (auto simp: avail_def)
qed

lemma avail_Cons:
  "avail w i (x # xs) \<Longrightarrow> i < len w \<Longrightarrow> data w i = x \<and> avail w (i + 1) xs"
proof -
  assume a: "avail w i (x # xs)" and i: "i < len w"
  have "data w (i + int 0) = (x # xs) ! 0"
    using conjunct2 [OF conjunct2 [OF a [unfolded avail_def]], rule_format, of 0] i by simp
  moreover have "avail w (i + int (length [x])) xs" using avail_append [of w i "[x]" xs] a i by auto
  ultimately show ?thesis by simp
qed

lemma avail_bytes:
  "avail w i xs \<Longrightarrow> i + int (length xs) \<le> len w \<Longrightarrow> bytes_at (data w) i (int (length xs)) = xs"
  by (intro nth_equalityI) (auto simp: bytes_at_def avail_def)

subsection \<open>Digits\<close>

lemma schar_digit: "n < 10 \<Longrightarrow> schar (char_of (48 + n)) = 48 + int n"
proof -
  assume "n < 10"
  then have "n = 0 \<or> n = 1 \<or> n = 2 \<or> n = 3 \<or> n = 4 \<or> n = 5 \<or> n = 6 \<or> n = 7 \<or> n = 8 \<or> n = 9" by arith
  then show ?thesis by (elim disjE) (simp_all add: schar_def char_of_def bit_iff_odd)
qed

lemma dec_no_cr: "c \<in> set (dec n) \<Longrightarrow> c \<noteq> CHR 0x0D"
proof (induction n rule: dec.induct)
  case (1 n)
  have digit: "char_of (48 + m) \<noteq> CHR 0x0D" if "m < 10" for m :: nat
  proof
    assume "char_of (48 + m) = CHR 0x0D"
    then have "schar (char_of (48 + m)) = schar (CHR 0x0D)" by simp
    then show False using schar_digit [OF that] by (simp add: schar_def)
  qed
  show ?case using 1 digit [of n] digit [of "n mod 10"]
    by (cases "n < 10") (auto simp: dec.simps [of n])
qed

lemma dec_not_Nil: "dec n \<noteq> []"
  by (subst dec.simps) auto

lemma digits_stop:
  "data w i = CHR 0x0D \<or> len w \<le> i \<Longrightarrow> digits w i acc = (acc, i)"
  by (subst digits.simps) auto

lemma digits_turn:
  "data w i \<noteq> CHR 0x0D \<Longrightarrow> i < len w \<Longrightarrow>
   digits w i acc = digits w (i + 1) (i32 (i32 (acc * 10) + schar (data w i) - 48))"
  by (subst digits.simps) auto

text \<open>A run of bytes that are not \<open>\r\<close>, complete or cut off.\<close>

lemma digits_cut:
  "avail w i xs \<Longrightarrow> \<forall>c \<in> set xs. c \<noteq> CHR 0x0D \<Longrightarrow> len w \<le> i + int (length xs) \<Longrightarrow>
   \<exists>a. digits w i acc = (a, len w)"
proof (induction xs arbitrary: i acc)
  case Nil
  then show ?case by (auto simp: avail_def digits_stop)
next
  case (Cons x xs)
  show ?case
  proof (cases "i < len w")
    case True
    then show ?thesis using avail_Cons [OF Cons.prems(1) True] Cons by (simp add: digits_turn)
  next
    case False
    then show ?thesis using Cons.prems(1) by (auto simp: avail_def digits_stop)
  qed
qed

lemma digits_dec:
  "avail w i (dec n) \<Longrightarrow> i + int (length (dec n)) < len w \<Longrightarrow> int n < 2 ^ 27 \<Longrightarrow>
   digits w i 0 = digits w (i + int (length (dec n))) (int n)"
proof (induction n arbitrary: i rule: dec.induct)
  case (1 n)
  show ?case
  proof (cases "n < 10")
    case True
    then have d: "dec n = [char_of (48 + n)]" by (simp add: dec.simps)
    then have "data w i = char_of (48 + n)" using avail_Cons [of w i "char_of (48 + n)" "[]"] 1 by auto
    moreover have "char_of (48 + n) \<noteq> CHR 0x0D" using dec_no_cr [of "char_of (48 + n)" n] d by simp
    ultimately show ?thesis
      using 1 d True by (simp add: digits_turn [of w i] schar_digit i32_id)
  next
    case False
    let ?m = "n div 10" and ?c = "char_of (48 + n mod 10)"
    have d: "dec n = dec ?m @ [?c]" using False by (simp add: dec.simps [of n])
    let ?i = "i + int (length (dec ?m))"
    have av: "avail w i (dec ?m)" "avail w ?i [?c]" using avail_append [of w i "dec ?m" "[?c]"] 1(2,3) d by auto
    have "digits w i 0 = digits w ?i (int ?m)" using 1(1) [OF False av(1)] 1(3,4) d by simp
    also have "\<dots> = digits w (?i + 1) (i32 (i32 (int ?m * 10) + schar ?c - 48))"
    proof -
      have "data w ?i = ?c" using avail_Cons [OF av(2)] 1(3) d by simp
      moreover have "?c \<noteq> CHR 0x0D" using dec_no_cr [of ?c n] d by simp
      ultimately show ?thesis using 1(3) d by (simp add: digits_turn [of w ?i])
    qed
    also have "i32 (i32 (int ?m * 10) + schar ?c - 48) = int n"
    proof -
      have n: "int ?m * 10 + int (n mod 10) = int n" by presburger
      have "schar ?c = 48 + int (n mod 10)" by (rule schar_digit) simp
      moreover have "0 \<le> int ?m" "int (n mod 10) \<ge> 0" by simp_all
      ultimately show ?thesis using n 1(4) by (simp add: i32_id)
    qed
    finally show ?thesis by (simp add: d ac_simps)
  qed
qed

text \<open>The length in front of an item or an array, up to the \<open>\r\<close>.\<close>

lemma digits_header:
  assumes "avail w i (dec n @ crlf @ xs)" and "int n < 2 ^ 27"
  shows "if i + int (length (dec n)) < len w then digits w i 0 = (int n, i + int (length (dec n)))
         else \<exists>a. digits w i 0 = (a, len w)"
proof (cases "i + int (length (dec n)) < len w")
  case True
  have av: "avail w i (dec n)" "avail w (i + int (length (dec n))) (crlf @ xs)"
    using avail_append [OF assms(1)] True by auto
  then have "data w (i + int (length (dec n))) = CHR 0x0D"
    using avail_Cons True by (simp add: crlf_def)
  then show ?thesis using True digits_dec [OF av(1) True assms(2)] by (simp add: digits_stop)
next
  case False
  have "avail w i (dec n)" using avail_append [OF assms(1)] by blast
  then show ?thesis using False digits_cut [of w i "dec n" 0] dec_no_cr by auto
qed

subsection \<open>One item\<close>

lemma length_bulk: "length (bulk t) = length (dec (length t)) + length t + 5"
  by (simp add: bulk_def crlf_def)

abbreviation saved :: "WData \<Rightarrow> int \<Rightarrow> proxy \<Rightarrow> ((int \<times> 'j) option \<times> proxy) outcome" where
  "saved w start s \<equiv> andThen (save_answer w start s) (\<lambda>s. Inr (None, s))"

lemma parse_item:
  assumes av: "avail w i (bulk t @ rest)" and i: "i < len w" and w: "len w < 2 ^ 27"
    and t: "length t < 2 ^ 26" and n: "0 < n"
  shows "parse_items L w start i n key obj s =
    (let j = i + int (length (bulk t)) in
     if j > len w \<or> (j = len w \<and> n > 1) then saved w start s
     else if t = [] then parse_items L w start j (n - 1) key obj s
     else if n mod 2 = 0 then parse_items L w start j (n - 1) (Ptr (c_str t)) obj s
     else (case key of
             Uninit \<Rightarrow> Inl Undefined
           | Freed \<Rightarrow> Inl Undefined
           | Ptr k \<Rightarrow> parse_items L w start j (n - 1) Freed
               (json_object_set L obj k (json_string L (c_str t))) s))"
proof -
  let ?d = "int (length (dec (length t)))" and ?j = "i + int (length (bulk t))"
  have j: "?j = i + ?d + int (length t) + 5" by (simp add: length_bulk)
  have i0: "0 \<le> i" using av by (simp add: avail_def)
  have i1: "i32 (i + 1) = i + 1" using i0 i w by (intro i32_id) auto
  have hd: "data w i = CHR ''$''" and av1: "avail w (i + 1) (dec (length t) @ crlf @ t @ crlf @ rest)"
    using avail_Cons [of w i] av i by (auto simp: bulk_def)
  show ?thesis
  proof (cases "i + 1 + ?d < len w")
    case False
    then have "?j > len w" using j by simp
    then show ?thesis
      using digits_header [OF av1] False t hd i1 n by (subst parse_items.simps) (auto simp: Let_def)
  next
    case True
    then have dig: "digits w (i + 1) 0 = (int (length t), i + 1 + ?d)"
      using digits_header [OF av1] t by (simp add: add.assoc)
    have k: "i32 (i + 1 + ?d + 1) = i + ?d + 2" "i32 (i + ?d + 2 + 1) = i + ?d + 3"
      "i32 (int (length t) + 2) = int (length t) + 2"
      "i32 (i + ?d + 2 + (int (length t) + 2)) = ?j - 1" "i32 (?j - 1 + 1) = ?j"
      using True i0 w t by (simp_all add: j i32_id)
    have copy: "copy_item w (i + ?d + 3) (int (length t)) = c_str t" if "?j \<le> len w"
    proof -
      have "avail w (i + 1 + ?d) (crlf @ t @ crlf @ rest)" using avail_append [OF av1] True by simp
      then have "avail w (i + ?d + 3) (t @ crlf @ rest)"
        using avail_append [of w "i + 1 + ?d" crlf "t @ crlf @ rest"] that j by (simp add: crlf_def ac_simps)
      then have "avail w (i + ?d + 3) t" using avail_append by blast
      then show ?thesis using avail_bytes [of w "i + ?d + 3" t] that j by (simp add: copy_item_def)
    qed
    have lt: "(len w \<le> i + 1) = False" "(len w \<le> i + 1 + ?d) = False" "(0 < n) = True"
      "(data w i \<noteq> CHR ''$'') = False" using True n hd by simp_all
    have main: "parse_items L w start i n key obj s =
      (if ?j > len w \<or> (?j = len w \<and> n > 1) then saved w start s
       else if int (length t) > 0 then
         (if n mod 2 = 0 then
            parse_items L w start ?j (n - 1) (Ptr (copy_item w (i + ?d + 3) (int (length t)))) obj s
          else (case key of
             Uninit \<Rightarrow> Inl Undefined
           | Freed \<Rightarrow> Inl Undefined
           | Ptr k \<Rightarrow> parse_items L w start ?j (n - 1) Freed
               (json_object_set L obj k (json_string L (copy_item w (i + ?d + 3) (int (length t))))) s))
       else parse_items L w start ?j (n - 1) key obj s)"
      unfolding parse_items.simps [of L w start i] i1 dig
      by (simp only: lt k Let_def prod.case if_True if_False)
    show ?thesis
    proof (cases "?j \<le> len w")
      case True
      have "0 < int (length t) \<longleftrightarrow> t \<noteq> []" by simp
      then show ?thesis unfolding main copy [OF True] Let_def
        by (cases "t = []") (simp_all only: if_True if_False simp_thms)
    next
      case False
      then have "?j > len w" by simp
      then show ?thesis unfolding main Let_def by (simp only: if_True simp_thms)
    qed
  qed
qed

subsection \<open>A whole reply\<close>

text \<open>
  Field names are not empty (an empty one is an error case of the code), texts have no NUL,
  and the sizes stay far below the range of an \<open>int\<close>.  Fields with an empty value are left
  out of the object.
\<close>

definition fields_ok :: "(string \<times> string) list \<Rightarrow> bool" where
  "fields_ok kvs \<longleftrightarrow> (\<forall>(k, v) \<in> set kvs. k \<noteq> [] \<and> NUL \<notin> set k \<and> NUL \<notin> set v)"

definition add_field :: "('j, 'v) libs \<Rightarrow> 'j \<Rightarrow> string \<times> string \<Rightarrow> 'j" where
  "add_field L obj kv =
     (if snd kv = [] then obj else json_object_set L obj (fst kv) (json_string L (snd kv)))"

definition object_of :: "('j, 'v) libs \<Rightarrow> (string \<times> string) list \<Rightarrow> 'j" where
  "object_of L kvs = foldl (add_field L) (json_object L) kvs"

lemma c_str_id: "NUL \<notin> set t \<Longrightarrow> c_str t = t"
  unfolding c_str_def by (rule takeWhile_eq_all_conv [THEN iffD2]) auto

lemma items_simps [simp]:
  "items [] = []" "items ((k, v) # kvs) = bulk k @ bulk v @ items kvs"
  by (simp_all add: items_def)

lemma bulk_not_Nil [simp]: "bulk t \<noteq> []"
  by (simp add: bulk_def)

lemma length_bulk_pos: "0 < length (bulk t)"
  by (simp add: bulk_def)

lemma length_le_items: "(k, v) \<in> set kvs \<Longrightarrow> length k \<le> length (items kvs) \<and> length v \<le> length (items kvs)"
  by (induction kvs) (auto simp: length_bulk)

lemma parse_fields:
  "avail w i (items kvs) \<Longrightarrow> kvs \<noteq> [] \<longrightarrow> i < len w \<Longrightarrow> len w < 2 ^ 27 \<Longrightarrow> fields_ok kvs \<Longrightarrow>
   length (items kvs) < 2 ^ 26 \<Longrightarrow>
   parse_items L w start i (int (2 * length kvs)) key obj s =
     (if i + int (length (items kvs)) \<le> len w
      then Inr (Some (i + int (length (items kvs)), foldl (add_field L) obj kvs), s)
      else saved w start s)"
proof (induction kvs arbitrary: i key obj)
  case Nil
  then show ?case by (subst parse_items.simps) (simp add: avail_def)
next
  case (Cons kv kvs)
  obtain k v where kv: "kv = (k, v)" by (cases kv)
  let ?m = "int (2 * length kvs)" and ?kb = "int (length (bulk k))" and ?vb = "int (length (bulk v))"
  let ?n = "int (2 * length (kv # kvs))"
  have n: "?n = ?m + 2" "?n mod 2 = 0" "(?n - 1) mod 2 \<noteq> 0" "?n - 1 - 1 = ?m" "0 < ?n" "0 < ?n - 1" "1 < ?n"
    by auto
  have ok: "k \<noteq> []" "c_str k = k" "c_str v = v" "fields_ok kvs"
    using Cons.prems(4) kv by (auto simp: fields_ok_def c_str_id)
  have len: "length k < 2 ^ 26" "length v < 2 ^ 26" "length (items kvs) < 2 ^ 26"
    using Cons.prems(5) kv by (auto simp: length_bulk)
  have all: "int (length (items (kv # kvs))) = ?kb + ?vb + int (length (items kvs))" by (simp add: kv)
  have pos: "0 < ?vb" using length_bulk_pos [of v] by simp
  have i: "i < len w" using Cons.prems(2) by simp
  have av: "avail w i (bulk k @ bulk v @ items kvs)" using Cons.prems(1) kv by simp
  note step1 = parse_item [OF av i Cons.prems(3) len(1) n(5), of L start key obj s, unfolded Let_def ok(2)]
  show ?case
  proof (cases "i + ?kb < len w")
    case False
    then have "i + ?kb > len w \<or> i + ?kb = len w \<and> 1 < ?n" using n by auto
    moreover have "\<not> i + int (length (items (kv # kvs))) \<le> len w" using False all pos by linarith
    ultimately show ?thesis unfolding step1 by simp
  next
    case j1: True
    then have "parse_items L w start i ?n key obj s = parse_items L w start (i + ?kb) (?n - 1) (Ptr k) obj s"
      using n(2) ok(1) unfolding step1 by auto
    moreover have av': "avail w (i + ?kb) (bulk v @ items kvs)" using avail_append [OF av] j1 by simp
    note step2 = parse_item [OF av' j1 Cons.prems(3) len(2) n(6), of L start "Ptr k" obj s, unfolded Let_def ok(3)]
    let ?j = "i + ?kb + ?vb"
    let ?obj = "add_field L obj (k, v)"
    have "parse_items L w start (i + ?kb) (?n - 1) (Ptr k) obj s =
        (if ?j > len w \<or> ?j = len w \<and> 1 < ?n - 1 then saved w start s
         else parse_items L w start ?j ?m (if v = [] then Ptr k else Freed) ?obj s)"
      unfolding step2 n(4) using n(3) by (simp add: add_field_def)
    moreover have "parse_items L w start ?j ?m key' ?obj s =
        (if ?j + int (length (items kvs)) \<le> len w
         then Inr (Some (?j + int (length (items kvs)), foldl (add_field L) ?obj kvs), s)
         else saved w start s)" if j: "\<not> (?j > len w \<or> ?j = len w \<and> 1 < ?n - 1)" for key'
    proof -
      have "avail w ?j (items kvs)" using avail_append [OF av'] j by simp
      moreover have "kvs \<noteq> [] \<longrightarrow> ?j < len w" using j by (cases kvs) auto
      ultimately show ?thesis using Cons.IH [OF _ _ Cons.prems(3) ok(4) len(3)] by blast
    qed
    moreover have "\<not> i + int (length (items (kv # kvs))) \<le> len w"
      if j: "?j > len w \<or> ?j = len w \<and> 1 < ?n - 1"
    proof -
      have "0 < int (length (items kvs))" if "1 < ?n - 1"
        using that by (cases kvs) auto
      then show ?thesis using j all by linarith
    qed
    ultimately show ?thesis using all kv by (simp add: add.assoc) 
  qed
qed

lemma parseArray_reply:
  assumes av: "avail w i (reply kvs)" and i: "i < len w" and w: "len w < 2 ^ 27"
    and ok: "fields_ok kvs" and kvs: "length (reply kvs) < 2 ^ 26"
  shows "parseArray L w i s =
    (if i + int (length (reply kvs)) \<le> len w
     then andThen (popHandle L (object_of L kvs) s) (\<lambda>s. Inr (i + int (length (reply kvs)), s))
     else andThen (save_answer w i s) (\<lambda>s. Inr (-1, s)))"
proof -
  let ?n = "2 * length kvs"
  let ?d = "int (length (dec ?n))" and ?j = "i + int (length (reply kvs))"
  have j: "?j = i + ?d + 3 + int (length (items kvs))" by (simp add: reply_def crlf_def)
  have items: "length (items kvs) < 2 ^ 26" using kvs by (simp add: reply_def)
  have "length kvs \<le> length (items kvs)" by (induction kvs) (auto simp: length_bulk)
  then have n: "int ?n < 2 ^ 27" using items by simp
  have i0: "0 \<le> i" using av by (simp add: avail_def)
  have i1: "i32 (i + 1) = i + 1" using i0 i w by (intro i32_id) auto
  have av1: "avail w (i + 1) (dec ?n @ crlf @ items kvs)"
    using avail_Cons [of w i] av i by (auto simp: reply_def)
  show ?thesis
  proof (cases "i + 1 + ?d < len w")
    case False
    then have "\<not> ?j \<le> len w" using j by simp
    then show ?thesis using digits_header [OF av1 n] False
      by (auto simp: parseArray_def Let_def i1)
  next
    case True
    then have dig: "digits w (i + 1) 0 = (int ?n, i + 1 + ?d)"
      using digits_header [OF av1 n] by (simp add: add.assoc)
    have k: "i32 (i + 1 + ?d + 2) = i + ?d + 3" using True i0 w by (simp add: i32_id)
    have lt: "(len w \<le> i + 1) = False" "(len w \<le> i + 1 + ?d) = False" using True by auto
    have main: "parseArray L w i s =
      (if i + ?d + 3 > len w \<or> i + ?d + 3 = len w \<and> int ?n > 0
       then andThen (save_answer w i s) (\<lambda>s. Inr (-1, s))
       else andThen (parse_items L w i (i + ?d + 3) (int ?n) Uninit (json_object L) s) (\<lambda>(r, s).
                 case r of
                   None \<Rightarrow> Inr (-1, s)
                 | Some (index, object) \<Rightarrow> andThen (popHandle L object s) (\<lambda>s. Inr (index, s))))"
      unfolding parseArray_def i1 Let_def dig lt prod.case k by (simp only: if_False)
    show ?thesis
    proof (cases "i + ?d + 3 > len w \<or> i + ?d + 3 = len w \<and> int ?n > 0")
      case c: True
      have "0 < int (length (items kvs))" if "int ?n > 0" using that by (cases kvs) auto
      then have "\<not> ?j \<le> len w" using c j by linarith
      then show ?thesis unfolding main using c by (simp only: if_True if_False)
    next
      case c: False
      have "avail w (i + 1 + ?d) (crlf @ items kvs)" using avail_append [OF av1] True by simp
      then have av2: "avail w (i + ?d + 3) (items kvs)"
        using avail_append [of w "i + 1 + ?d" crlf "items kvs"] c by (simp add: crlf_def ac_simps)
      have ne: "kvs \<noteq> [] \<longrightarrow> i + ?d + 3 < len w" using c by (cases kvs) auto
      have "parse_items L w i (i + ?d + 3) (int ?n) Uninit (json_object L) s =
         (if ?j \<le> len w then Inr (Some (?j, object_of L kvs), s) else saved w i s)"
        unfolding j object_of_def by (rule parse_fields [OF av2 ne w ok items])
      then show ?thesis unfolding main if_not_P [OF c]
        by (cases "?j \<le> len w") (simp_all add: andThen_assoc)
    qed
  qed
qed

end
