(* ===== verification/Chunks.thy ===== *)
theory Chunks
  imports Parser "HOL-Library.Sublist"
begin

text \<open>
  Replies arrive in chunks of at most \<open>MAX_READ\<close> bytes that may end anywhere.  This theory
  proves that \<open>parseReadData\<close> puts them together again: the state after a stream of replies
  does not depend on where the chunks were part, and the n-th answer is stored under the n-th
  key that was asked for.
\<close>

subsection \<open>Buffers that hold a text\<close>

definition buf_holds :: "WData \<Rightarrow> string \<Rightarrow> bool" where
  "buf_holds b xs \<longleftrightarrow> len b = int (length xs) \<and> (\<forall>j < length xs. data b (int j) = xs ! j)"

lemma bytes_at_nth: "j < nat n \<Longrightarrow> bytes_at m i n ! j = m (i + int j)"
  by (simp add: bytes_at_def)

lemma length_bytes_at [simp]: "length (bytes_at m i n) = nat n"
  by (simp add: bytes_at_def)

lemma strncpy_ok [c_mem]:
  assumes "0 \<le> n" and "NUL \<notin> set (bytes_at src i n)"
  shows "strncpy dst d src i n = Inr (\<lambda>k. if d \<le> k \<and> k < d + n then src (i + (k - d)) else dst k)"
proof -
  have "strncpy_bytes src i n = bytes_at src i n"
    using assms by (simp add: strncpy_bytes_def c_str_id)
  then show ?thesis
    using assms(1) by (auto simp: strncpy_def fun_eq_iff bytes_at_nth)
qed

lemma bytes_at_holds: "buf_holds b xs \<Longrightarrow> bytes_at (data b) 0 (len b) = xs"
  by (intro nth_equalityI) (auto simp: buf_holds_def bytes_at_def)

lemma merge_buf_ok:
  assumes b: "buf_holds b xs" and w: "buf_holds w ys" and nul: "NUL \<notin> set xs" "NUL \<notin> set ys"
    and small: "length xs + length ys < 2 ^ 31"
  shows "\<exists>m. merge_buf heap b w = Inr m \<and> buf_holds m (xs @ ys)"
proof -
  have lens: "len b = int (length xs)" "len w = int (length ys)" using b w by (auto simp: buf_holds_def)
  have n: "i32 (len b + len w) = len b + len w" using small by (intro i32_id) (auto simp: lens)
  have "NUL \<notin> set (bytes_at (data b) 0 (len b))" "NUL \<notin> set (bytes_at (data w) 0 (len w))"
    using bytes_at_holds [OF b] bytes_at_holds [OF w] nul by auto
  note copies = strncpy_ok [OF _ this(1)] strncpy_ok [OF _ this(2)]
  have "merge_buf heap b w = Inr \<lparr>len = len b + len w, data = (\<lambda>k.
      if len b \<le> k \<and> k < len b + len w then data w (k - len b)
      else if 0 \<le> k \<and> k < len b then data b k
      else if 0 \<le> k \<and> k < len b + len w then NUL else heap k)\<rparr>"
    unfolding merge_buf_def n Let_def using copies lens by (simp cong: if_cong)
  moreover have "buf_holds \<lparr>len = len b + len w, data = (\<lambda>k.
      if len b \<le> k \<and> k < len b + len w then data w (k - len b)
      else if 0 \<le> k \<and> k < len b then data b k
      else if 0 \<le> k \<and> k < len b + len w then NUL else heap k)\<rparr> (xs @ ys)"
    using b w unfolding buf_holds_def
    by (auto simp: nth_append) (metis add_diff_inverse_nat nat_add_left_cancel_less of_nat_diff not_less)
  ultimately show ?thesis by blast
qed

lemma saveToBuf_ok [c_mem]:
  assumes part: "bytes_at (data w) i (len w - i) = part" "NUL \<notin> set part"
    and i: "0 \<le> i" "i \<le> len w" "len w - i < MAX_READ"
  shows "\<exists>b. saveToBuf w i buf = Inr b \<and> buf_holds b part"
proof -
  have n: "i32 (len w - i) = len w - i" using i by (intro i32_id) (auto simp: MAX_READ_def)
  have "strncpy (data buf) 0 (data w) i (len w - i) =
      Inr (\<lambda>k. if 0 \<le> k \<and> k < len w - i then data w (i + k) else data buf k)"
    using strncpy_ok [of "len w - i" "data w" i "data buf" 0] part i by (simp cong: if_cong)
  moreover have "buf_holds \<lparr>len = len w - i,
      data = (\<lambda>k. if 0 \<le> k \<and> k < len w - i then data w (i + k) else data buf k)\<rparr> part"
    using part(1) i by (auto simp: buf_holds_def bytes_at_def)
  ultimately show ?thesis
    using i(3) by (cases buf) (auto simp: saveToBuf_def n Let_def)
qed

lemma save_answer_ok:
  assumes "bytes_at (data w) i (len w - i) = part" "NUL \<notin> set part"
    and "0 \<le> i" "i \<le> len w" "len w - i < MAX_READ"
  shows "\<exists>b. save_answer w i s = Inr (s\<lparr>buf_slave_answer := b\<rparr>) \<and> buf_holds b part"
  using saveToBuf_ok [OF assms, of "buf_slave_answer s"] by (auto simp: save_answer_def)

subsection \<open>The loop over a buffer\<close>

text \<open>The handling of whole replies, one after the other.\<close>

fun answer_all :: "('j, 'v) libs \<Rightarrow> (string \<times> string) list list \<Rightarrow> proxy \<Rightarrow> proxy outcome" where
  "answer_all L [] s = Inr s"
| "answer_all L (kvs # rs) s = andThen (popHandle L (object_of L kvs) s) (answer_all L rs)"

definition stream :: "(string \<times> string) list list \<Rightarrow> string" where
  "stream rs = concat (map reply rs)"

lemma stream_simps [simp]: "stream [] = []" "stream (r # rs) = reply r @ stream rs"
  "stream (as @ bs) = stream as @ stream bs"
  by (simp_all add: stream_def)

text \<open>What the results ask of every reply of a stream.\<close>

definition reply_ok :: "(string \<times> string) list \<Rightarrow> bool" where
  "reply_ok kvs \<longleftrightarrow> fields_ok kvs \<and> int (length (reply kvs)) \<le> MAX_READ"

text \<open>Text that is a sequence of whole replies and the beginning of the next.\<close>

definition parsed_as ::
  "(string \<times> string) list list \<Rightarrow> string \<Rightarrow> (string \<times> string) list list \<Rightarrow> string \<Rightarrow> bool" where
  "parsed_as rs xs past part \<longleftrightarrow>
     (\<exists>rest. rs = past @ rest \<and> xs = stream past @ part \<and>
        (part = [] \<or> (\<exists>r rest'. rest = r # rest' \<and> strict_prefix part (reply r))))"

lemma saveValue_buf:
  "saveValue L j key (s\<lparr>buf_slave_answer := b\<rparr>) =
   andThen (saveValue L j key s) (\<lambda>(r, s'). Inr (r, s'\<lparr>buf_slave_answer := b\<rparr>))"
  by (cases s) (auto simp: saveValue_def sendToHost_def emit_def Let_def andThen_def of_opt_def
      split: option.split sum.split)

lemma popHandle_buf:
  "popHandle L obj (s\<lparr>buf_slave_answer := b\<rparr>) =
   andThen (popHandle L obj s) (\<lambda>s'. Inr (s'\<lparr>buf_slave_answer := b\<rparr>))"
proof -
  have save: "saveValue L j key (s\<lparr>buf_slave_answer := b, que := u\<rparr>) =
      andThen (saveValue L j key (s\<lparr>que := u\<rparr>)) (\<lambda>(r, s'). Inr (r, s'\<lparr>buf_slave_answer := b\<rparr>))" for j key u
    using saveValue_buf [where s = "s\<lparr>que := u\<rparr>"] by (cases s) simp
  then show ?thesis
  proof (cases "pop_cir_queue (que s)")
    case (Some r)
    obtain e u where "r = (e, u)" by (cases r)
    then show ?thesis using Some save
      by (cases e) (auto simp: popHandle_def Let_def andThen_assoc split_beta)
  qed (simp add: popHandle_def)
qed

lemma popHandle_keeps_buf:
  assumes "popHandle L obj s = Inr s'"
  shows "buf_slave_answer s' = buf_slave_answer s"
proof -
  have "popHandle L obj s = andThen (popHandle L obj s) (\<lambda>s'. Inr (s'\<lparr>buf_slave_answer := buf_slave_answer s\<rparr>))"
    using popHandle_buf [of L obj "buf_slave_answer s" s] by simp
  then have "s' = s'\<lparr>buf_slave_answer := buf_slave_answer s\<rparr>" using assms by simp
  then have "buf_slave_answer s' = buf_slave_answer (s'\<lparr>buf_slave_answer := buf_slave_answer s\<rparr>)"
    by (rule arg_cong)
  then show ?thesis by simp
qed

lemma answer_all_buf:
  "answer_all L rs (s\<lparr>buf_slave_answer := b\<rparr>) =
   andThen (answer_all L rs s) (\<lambda>s'. Inr (s'\<lparr>buf_slave_answer := b\<rparr>))"
proof (induction rs arbitrary: s)
  case (Cons r rs)
  then show ?case
    by (cases "popHandle L (object_of L r) s") (simp_all add: popHandle_buf)
qed simp

lemma answer_all_append:
  "answer_all L (as @ bs) s = andThen (answer_all L as s) (answer_all L bs)"
proof (induction as arbitrary: s)
  case (Cons a as)
  then have "answer_all L (as @ bs) = (\<lambda>s. andThen (answer_all L as s) (answer_all L bs))" by (rule ext)
  then show ?case by (simp add: andThen_assoc)
qed simp

text \<open>The loop on a buffer whose text from \<open>i\<close> on begins a stream of replies.\<close>

lemma answer_loop_end: "\<not> (0 \<le> i \<and> i < len w) \<Longrightarrow> answer_loop L w i s = Some (Inr s)"
  by (subst answer_loop.simps) (simp only: if_False)

lemma answer_loop_turn:
  "0 \<le> i \<Longrightarrow> i < len w \<Longrightarrow> answer_turn L w i s = Inr (Some i', s') \<Longrightarrow>
   answer_loop L w i s = answer_loop L w i' s'"
  by (subst answer_loop.simps) simp

lemma avail_prefix:
  "0 \<le> i \<Longrightarrow> i \<le> len w \<Longrightarrow> prefix (bytes_at (data w) i (len w - i)) xs \<Longrightarrow> avail w i xs"
proof -
  assume i: "0 \<le> i" "i \<le> len w" and p: "prefix (bytes_at (data w) i (len w - i)) xs"
  have "data w (i + int j) = xs ! j" if "i + int j < len w" for j
  proof -
    have j: "j < nat (len w - i)" using that i by linarith
    obtain zs where "xs = bytes_at (data w) i (len w - i) @ zs" using p by (auto simp: prefix_def)
    then have "xs ! j = bytes_at (data w) i (len w - i) ! j" using j by (simp add: nth_append)
    then show ?thesis using bytes_at_nth [OF j] by simp
  qed
  then show ?thesis using i by (simp add: avail_def)
qed

lemma bytes_at_drop:
  assumes "0 \<le> i" "0 \<le> n" "i + n \<le> l"
  shows "bytes_at m (i + n) (l - (i + n)) = drop (nat n) (bytes_at m i (l - i))"
  using assms by (intro nth_equalityI) (auto simp: bytes_at_def add.assoc)

text \<open>A turn of the loop at a reply: one that is there in full is handled, of another the bytes are saved.\<close>

lemma answer_loop_whole:
  assumes av: "avail w i (reply r)" and i: "0 \<le> i" "i < len w" "len w < 2 ^ 27" and r: "reply_ok r"
    and j: "i + int (length (reply r)) \<le> len w" and pop: "popHandle L (object_of L r) s = Inr s'"
  shows "answer_loop L w i s = answer_loop L w (i + int (length (reply r))) s'"
proof -
  have "fields_ok r" "length (reply r) < 2 ^ 26" using r by (auto simp: reply_ok_def MAX_READ_def)
  note parse = parseArray_reply [OF av i(2,3) this, of L s]
  have "data w i = CHR ''*''" using avail_Cons [of w i] av i by (auto simp: reply_def)
  then have "answer_turn L w i s = Inr (Some (i + int (length (reply r))), s')"
    using parse j pop by (simp add: answer_turn_def)
  then show ?thesis using answer_loop_turn i by blast
qed

lemma answer_loop_part:
  assumes av: "avail w i (reply r)" and i: "0 \<le> i" "i < len w" "len w < 2 ^ 27" and r: "reply_ok r"
    and j: "\<not> i + int (length (reply r)) \<le> len w" and nul: "NUL \<notin> set (bytes_at (data w) i (len w - i))"
  shows "\<exists>b. answer_loop L w i s = Some (Inr (s\<lparr>buf_slave_answer := b\<rparr>)) \<and> buf_holds b (bytes_at (data w) i (len w - i))"
proof -
  have ok: "fields_ok r" "length (reply r) < 2 ^ 26" using r by (auto simp: reply_ok_def MAX_READ_def)
  note parse = parseArray_reply [OF av i(2,3) this, of L s]
  have star: "data w i = CHR ''*''" using avail_Cons [of w i] av i by (auto simp: reply_def)
  have "len w - i < MAX_READ" using j r by (simp add: reply_ok_def)
  then obtain b where b: "save_answer w i s = Inr (s\<lparr>buf_slave_answer := b\<rparr>)" "buf_holds b (bytes_at (data w) i (len w - i))"
    using save_answer_ok [OF refl nul i(1)] i(2) by auto
  have turn: "answer_turn L w i s = Inr (Some (-1), s\<lparr>buf_slave_answer := b\<rparr>)"
    using parse j b(1) by (simp add: answer_turn_def star)
  have "answer_loop L w i s = Some (Inr (s\<lparr>buf_slave_answer := b\<rparr>))"
    unfolding answer_loop_turn [OF i(1,2) turn] by (rule answer_loop_end) simp
  then show ?thesis using b(2) by blast
qed

text \<open>How the text parses when the first reply is there, and when only a part of it is.\<close>

lemma parsed_as_Cons:
  assumes "parsed_as rs ys past part"
  shows "parsed_as (r # rs) (reply r @ ys) (r # past) part"
  using assms by (auto simp: parsed_as_def)

lemma parsed_as_short:
  assumes "prefix xs (stream (r # rs))" "length xs < length (reply r)"
  shows "parsed_as (r # rs) xs [] xs"
proof -
  have "prefix xs (reply r) \<or> (\<exists>us. xs = reply r @ us)"
    using assms(1) by (auto simp: prefix_append)
  moreover have "xs \<noteq> reply r @ us" for us
    using assms(2) by (metis length_append not_add_less1)
  ultimately have "strict_prefix xs (reply r)"
    by (metis append_Nil2 strict_prefix_def)
  then show ?thesis by (auto simp: parsed_as_def)
qed

lemma answer_loop_replies:
  assumes "0 \<le> i" "i \<le> len w" "len w < 2 ^ 27" "\<forall>r \<in> set rs. reply_ok r"
    and "prefix (bytes_at (data w) i (len w - i)) (stream rs)" and "NUL \<notin> set (bytes_at (data w) i (len w - i))"
    and "answer_all L rs s = Inr s_end" and "len (buf_slave_answer s) = 0"
  shows "\<exists>past part s' b. parsed_as rs (bytes_at (data w) i (len w - i)) past part \<and>
           answer_all L past s = Inr s' \<and> buf_holds b part \<and>
           answer_loop L w i s = Some (Inr (s'\<lparr>buf_slave_answer := b\<rparr>))"
  using assms
proof (induction rs arbitrary: i s)
  case Nil
  then have "i = len w" by (simp add: bytes_at_def)
  then show ?case using Nil
    by (intro exI [of _ "[]"] exI [of _ s] exI [of _ "buf_slave_answer s"])
      (simp add: parsed_as_def answer_loop_end buf_holds_def bytes_at_def)
next
  case (Cons r rs)
  let ?xs = "bytes_at (data w) i (len w - i)" and ?j = "i + int (length (reply r))"
  have r: "reply_ok r" using Cons.prems(4) by simp
  have "avail w i (reply r @ stream rs)" using avail_prefix [OF Cons.prems(1,2)] Cons.prems(5) by simp
  then have av: "avail w i (reply r)" using avail_append by blast
  consider (over) "i = len w" | (whole) "i < len w" "?j \<le> len w" | (part) "i < len w" "\<not> ?j \<le> len w"
    using Cons.prems(2) by linarith
  then show ?case
  proof cases
    case over
    then show ?thesis using Cons.prems
      by (intro exI [of _ "[]"] exI [of _ s] exI [of _ "buf_slave_answer s"])
        (simp add: parsed_as_def answer_loop_end buf_holds_def bytes_at_def)
  next
    case whole
    let ?ys = "bytes_at (data w) ?j (len w - ?j)"
    obtain s1 where s1: "popHandle L (object_of L r) s = Inr s1" "answer_all L rs s1 = Inr s_end"
      using Cons.prems(7) by (cases "popHandle L (object_of L r) s") auto
    have buf: "len (buf_slave_answer s1) = 0"
      using popHandle_keeps_buf [OF s1(1)] Cons.prems(8) by simp
    have xs: "?xs = reply r @ ?ys"
      using bytes_at_split [of "int (length (reply r))" "len w - ?j" "data w" i] avail_bytes [OF av whole(2)] whole(2) by simp
    have pre: "prefix ?ys (stream rs)" "NUL \<notin> set ?ys" using Cons.prems(5,6) by (simp_all add: xs)
    obtain past part s' b where IH: "parsed_as rs ?ys past part" "answer_all L past s1 = Inr s'" "buf_holds b part"
      "answer_loop L w ?j s1 = Some (Inr (s'\<lparr>buf_slave_answer := b\<rparr>))"
      using Cons.IH [OF _ whole(2) Cons.prems(3) _ pre s1(2) buf] Cons.prems(1,4) by auto
    have "answer_loop L w i s = answer_loop L w ?j s1"
      by (rule answer_loop_whole [OF av Cons.prems(1) whole(1) Cons.prems(3) r whole(2) s1(1)])
    then show ?thesis using IH s1(1) parsed_as_Cons [OF IH(1), of r]
      by (intro exI [of _ "r # past"] exI [of _ part] exI [of _ s'] exI [of _ b]) (simp add: xs)
  next
    case part
    obtain b where b: "answer_loop L w i s = Some (Inr (s\<lparr>buf_slave_answer := b\<rparr>))" "buf_holds b ?xs"
      using answer_loop_part [OF av Cons.prems(1) part(1) Cons.prems(3) r part(2) Cons.prems(6)] by blast
    have "length ?xs < length (reply r)" using part by simp
    then show ?thesis using b parsed_as_short [OF Cons.prems(5)]
      by (intro exI [of _ "[]"] exI [of _ ?xs] exI [of _ s] exI [of _ b]) simp
  qed
qed

subsection \<open>Chunks\<close>

text \<open>
  The chunks of a connection, each a buffer with the memory around its merge buffer, handled
  one after the other.
\<close>

fun feed :: "('j, 'v) libs \<Rightarrow> (cmem \<times> WData) list \<Rightarrow> proxy \<Rightarrow> proxy outcome option" where
  "feed L [] s = Some (Inr s)"
| "feed L ((heap, w) # ws) s =
     (case parseReadData L heap w s of
        None \<Rightarrow> None
      | Some (Inl e) \<Rightarrow> Some (Inl e)
      | Some (Inr s') \<Rightarrow> feed L ws s')"

text \<open>
  The state after some text of the stream arrived: whole replies are handled, the beginning of
  the next one is in \<open>buf_slave_answer\<close>.
\<close>

definition stream_state ::
  "('j, 'v) libs \<Rightarrow> (string \<times> string) list list \<Rightarrow> proxy \<Rightarrow> string \<Rightarrow> proxy \<Rightarrow> bool" where
  "stream_state L rs s0 xs s \<longleftrightarrow>
     (\<exists>past part s' b. parsed_as rs xs past part \<and> answer_all L past s0 = Inr s' \<and> buf_holds b part \<and>
        s = s'\<lparr>buf_slave_answer := b\<rparr>)"

lemma parsed_as_extend:
  assumes "parsed_as rs xs past part" and "rs = past @ rest" and "parsed_as rest (part @ c) past' part'"
  shows "parsed_as rs (xs @ c) (past @ past') part'"
  using assms by (auto simp: parsed_as_def)

lemma parseReadData_step:
  assumes st: "stream_state L rs s0 xs s" and all: "answer_all L rs s0 = Inr s_end"
    and rs: "\<forall>r \<in> set rs. reply_ok r" and nul: "NUL \<notin> set (stream rs)"
    and w: "buf_holds w c" "int (length c) \<le> MAX_READ" and pre: "prefix (xs @ c) (stream rs)"
  shows "\<exists>s'. parseReadData L heap w s = Some (Inr s') \<and> stream_state L rs s0 (xs @ c) s'"
proof -
  obtain past part s1 b rest where p: "parsed_as rs xs past part" "answer_all L past s0 = Inr s1"
    "buf_holds b part" "s = s1\<lparr>buf_slave_answer := b\<rparr>" and rest: "rs = past @ rest" "xs = stream past @ part"
    "part = [] \<or> (\<exists>r rest'. rest = r # rest' \<and> strict_prefix part (reply r))"
    using st unfolding stream_state_def parsed_as_def by blast
  have lens: "len b = int (length part)" "len w = int (length c)" using p(3) w(1) by (auto simp: buf_holds_def)
  have part: "int (length part) < MAX_READ"
  proof (cases "part = []")
    case False
    then obtain r rest' where "rest = r # rest'" "strict_prefix part (reply r)" using rest(3) by blast
    then show ?thesis using rs rest(1) prefix_length_less [of part "reply r"] by (auto simp: reply_ok_def)
  qed (simp add: MAX_READ_def)
  have pfx: "prefix (part @ c) (stream rest)" using pre rest by simp
  then have nul': "NUL \<notin> set (part @ c)" using nul rest set_mono_prefix [OF pfx] by auto
  have "length part + length c < 2 ^ 31" using part w(2) by (simp add: MAX_READ_def)
  then obtain m where m: "merge_buf heap b w = Inr m" "buf_holds m (part @ c)"
    using merge_buf_ok [OF p(3) w(1), of heap] nul' by auto
  define w' where "w' = (if len b > 0 then m else w)"
  have w': "buf_holds w' (part @ c)" using m(2) w(1) lens by (auto simp: w'_def)
  then have bytes: "bytes_at (data w') 0 (len w' - 0) = part @ c" using bytes_at_holds by simp
  have len': "len w' < 2 ^ 27" "0 \<le> len w'" using w' part w(2) by (auto simp: buf_holds_def MAX_READ_def)
  define bb where "bb = (if len b > 0 then b\<lparr>len := 0\<rparr> else b)"
  have bb: "len bb = 0" using lens by (auto simp: bb_def)
  have "parseReadData L heap w s = answer_loop L w' 0 (s1\<lparr>buf_slave_answer := bb\<rparr>)"
    using m(1) lens part w(2) by (auto simp: parseReadData_def p(4) w'_def bb_def MAX_READ_def)
  moreover obtain s2 where s2: "answer_all L rest s1 = Inr s2"
    using all p(2) unfolding rest(1) answer_all_append by auto
  have "answer_all L rest (s1\<lparr>buf_slave_answer := bb\<rparr>) = Inr (s2\<lparr>buf_slave_answer := bb\<rparr>)"
    by (simp add: answer_all_buf s2)
  then obtain past' part' s3 b' where step: "parsed_as rest (part @ c) past' part'"
    "answer_all L past' (s1\<lparr>buf_slave_answer := bb\<rparr>) = Inr s3" "buf_holds b' part'"
    "answer_loop L w' 0 (s1\<lparr>buf_slave_answer := bb\<rparr>) = Some (Inr (s3\<lparr>buf_slave_answer := b'\<rparr>))"
    using answer_loop_replies [of 0 w' rest L "s1\<lparr>buf_slave_answer := bb\<rparr>"] len' rs rest(1) pfx nul' bb
    unfolding bytes by auto
  obtain s4 where s4: "answer_all L past' s1 = Inr s4" "s3 = s4\<lparr>buf_slave_answer := bb\<rparr>"
    using step(2) unfolding answer_all_buf by (auto simp: andThen_Inr_iff)
  ultimately have "parseReadData L heap w s = Some (Inr (s4\<lparr>buf_slave_answer := b'\<rparr>))"
    using step(4) by simp
  moreover have "stream_state L rs s0 (xs @ c) (s4\<lparr>buf_slave_answer := b'\<rparr>)"
    unfolding stream_state_def using parsed_as_extend [OF p(1) rest(1) step(1)] p(2) s4(1) step(3)
    by (intro exI [of _ "past @ past'"] exI [of _ part'] exI [of _ s4] exI [of _ b']) (simp add: answer_all_append)
  ultimately show ?thesis by blast
qed

text \<open>A chunk is a buffer of at most \<open>MAX_READ\<close> bytes that holds its text.\<close>

definition is_chunk :: "cmem \<times> WData \<Rightarrow> string \<Rightarrow> bool" where
  "is_chunk hw c \<longleftrightarrow> buf_holds (snd hw) c \<and> int (length c) \<le> MAX_READ"

lemma feed_stream:
  assumes "list_all2 is_chunk ws cs" and "stream_state L rs s0 xs s" and "answer_all L rs s0 = Inr s_end"
    and "\<forall>r \<in> set rs. reply_ok r" and "NUL \<notin> set (stream rs)" and "prefix (xs @ concat cs) (stream rs)"
  shows "\<exists>s'. feed L ws s = Some (Inr s') \<and> stream_state L rs s0 (xs @ concat cs) s'"
  using assms
proof (induction ws cs arbitrary: s xs rule: list_all2_induct)
  case Nil
  then show ?case by simp
next
  case (Cons hw ws c cs)
  obtain heap w where hw: "hw = (heap, w)" by (cases hw)
  have w: "buf_holds w c" "int (length c) \<le> MAX_READ" using Cons.hyps(1) by (simp_all add: is_chunk_def hw)
  have pre: "prefix (xs @ c) (stream rs)" "prefix ((xs @ c) @ concat cs) (stream rs)"
    using Cons.prems(5) by (auto simp: append_prefixD)
  obtain s1 where s1: "parseReadData L heap w s = Some (Inr s1)" "stream_state L rs s0 (xs @ c) s1"
    using parseReadData_step [OF Cons.prems(1-4) w pre(1)] by blast
  obtain s2 where "feed L ws s1 = Some (Inr s2)" "stream_state L rs s0 ((xs @ c) @ concat cs) s2"
    using Cons.IH [OF s1(2) Cons.prems(2-4) pre(2)] by blast
  then show ?case using s1(1) hw by simp
qed

lemma reply_not_Nil [simp]: "reply r \<noteq> []"
  by (simp add: reply_def)

lemma parsed_as_whole:
  assumes "parsed_as rs (stream rs) past part"
  shows "past = rs \<and> part = []"
proof -
  obtain rest where rest: "rs = past @ rest" "stream rs = stream past @ part"
    "part = [] \<or> (\<exists>r rest'. rest = r # rest' \<and> strict_prefix part (reply r))"
    using assms by (auto simp: parsed_as_def)
  then have eq: "stream rest = part" by simp
  have "\<not> (\<exists>r rest'. rest = r # rest' \<and> strict_prefix part (reply r))"
  proof (intro notI, elim exE conjE)
    fix r rest' assume "rest = r # rest'" and less: "strict_prefix part (reply r)"
    then have "length part = length (reply r) + length (stream rest')" using eq by auto
    then show False using prefix_length_less [OF less] by simp
  qed
  then have "part = []" using rest(3) by blast
  moreover have "rest = []" using eq \<open>part = []\<close> by (cases rest) auto
  ultimately show ?thesis using rest(1) by simp
qed

subsection \<open>Answers and keys\<close>

lemma popHandle_ok:
  assumes ok: "store_ok hosts s" and L: "libs_ok L" and key: "length key < 2 ^ 32"
    and qu: "env_wf (que s)" "env_list (que s) = Some key # ks"
  shows "\<exists>s'. popHandle L obj s = Inr s' \<and> store_ok hosts s' \<and> env_wf (que s') \<and> env_list (que s') = ks \<and>
    trace s' = trace s @ posts_of L hosts key obj"
proof -
  let ?qu = "que s\<lparr>q := drop_front (q (que s))\<rparr>" and ?s = "s\<lparr>que := que s\<lparr>q := drop_front (q (que s))\<rparr>\<rparr>"
  have pop: "pop_cir_queue (que s) = Some (Some key, ?qu)" using pop_env [OF qu(1)] qu(2) by simp
  have wf: "env_wf ?qu" "env_list ?qu = ks"
    using env_wf_drop_front [OF qu(1)] queue_list_drop_front(1) [of "q (que s)"] qu by (auto simp: env_wf_def)
  have "store_ok hosts ?s" using ok by (simp add: store_ok_def)
  then obtain t st where save: "saveValue L (Some obj) key ?s =
      Inr (1, ?s\<lparr>trace := trace ?s @ posts_of L hosts key obj, hashtable := t, hash_stack := st\<rparr>)"
    "store_ok hosts (?s\<lparr>trace := trace ?s @ posts_of L hosts key obj, hashtable := t, hash_stack := st\<rparr>)"
    using saveValue_ok [OF _ L key] by blast
  have "popHandle L obj s = Inr (?s\<lparr>trace := trace ?s @ posts_of L hosts key obj, hashtable := t, hash_stack := st\<rparr>)"
    using pop save(1) by (simp add: popHandle_def)
  then show ?thesis using save(2) wf by simp
qed

lemma answer_all_ok:
  assumes "store_ok hosts s" and "libs_ok L" and "length keys = length rs" and "\<forall>k \<in> set keys. length k < 2 ^ 32"
    and "env_wf (que s)" and "env_list (que s) = map Some keys @ ks"
  shows "\<exists>s'. answer_all L rs s = Inr s' \<and> store_ok hosts s' \<and> env_wf (que s') \<and> env_list (que s') = ks \<and>
    trace s' = trace s @ concat (map2 (\<lambda>k r. posts_of L hosts k (object_of L r)) keys rs)"
  using assms(3,1,2,4-)
proof (induction keys rs arbitrary: s rule: list_induct2)
  case Nil
  then show ?case by simp
next
  case (Cons key keys r rs)
  have q: "env_list (que s) = Some key # (map Some keys @ ks)" using Cons.prems(5) by simp
  have k: "length key < 2 ^ 32" "\<forall>k \<in> set keys. length k < 2 ^ 32" using Cons.prems(3) by auto
  obtain s1 where s1: "popHandle L (object_of L r) s = Inr s1" "store_ok hosts s1" "env_wf (que s1)"
    "env_list (que s1) = map Some keys @ ks" "trace s1 = trace s @ posts_of L hosts key (object_of L r)"
    using popHandle_ok [OF Cons.prems(1,2) k(1) Cons.prems(4) q, of "object_of L r"] by blast
  show ?case using Cons.IH [OF s1(2) Cons.prems(2) k(2) s1(3,4)] s1(1,5) by auto
qed


text \<open>A process set up for the sample hosts that has asked for one key.\<close>

definition buf_of :: "string \<Rightarrow> WData" where
  "buf_of xs = \<lparr>len = int (length xs), data = mem_of xs (\<lambda>i. NUL)\<rparr>"

lemma buf_of_holds [simp]: "buf_holds (buf_of xs) xs"
  by (simp add: buf_of_def buf_holds_def mem_of_def)

lemma asked_proxy:
  "\<exists>s. store_ok sample_hosts s \<and> env_wf (que s) \<and> env_list (que s) = [Some ''key''] \<and> len (buf_slave_answer s) = 0"
proof -
  obtain t where t: "store_ok sample_hosts (open_proxy []\<lparr>host_master_num := int (length sample_hosts),
      host_masters := map (\<lambda>h. Some (fst h)) sample_hosts, hashtable := t\<rparr>)" (is "store_ok sample_hosts ?s")
    using initHost_ok [OF sample_hosts_ok, of "open_proxy []"] by auto
  let ?q = "que (open_proxy [])"
  have q: "env_wf ?q" "env_list ?q = []" by (simp_all add: init_env)
  have "length (env_list ?q) < queue_cap" unfolding q(2) by (simp add: queue_cap_def QUE_SIZE_def)
  then have "env_wf (?q\<lparr>q := put_rear (Some ''key'') (q ?q)\<rparr>)"
    "env_list (?q\<lparr>q := put_rear (Some ''key'') (q ?q)\<rparr>) = [Some ''key'']"
    using env_wf_put_rear [OF q(1)] queue_list_put_rear [of "q ?q"] q by (auto simp: env_wf_def)
  then show ?thesis
    using t by (intro exI [of _ "?s\<lparr>que := ?q\<lparr>q := put_rear (Some ''key'') (q ?q)\<rparr>\<rparr>"]) (simp add: store_ok_def)
qed

lemma sample_reply: "NUL \<notin> set (stream [[(''f'', ''v'')]])" "reply_ok [(''f'', ''v'')]"
  by (simp_all add: reply_ok_def fields_ok_def reply_def bulk_def crlf_def dec.simps NUL_def MAX_READ_def
      char_of_def bit_iff_odd)


subsection \<open>What is lost\<close>


lemma long_reply: "length (reply [(''f'', replicate 20000 CHR ''x'')]) < 2 ^ 26 \<and>
    MAX_READ < int (length (reply [(''f'', replicate 20000 CHR ''x'')])) \<and>
    fields_ok [(''f'', replicate 20000 CHR ''x'')]"
  by (simp add: reply_def length_bulk dec.simps MAX_READ_def crlf_def fields_ok_def NUL_def)


text \<open>
  A bulk reply is never handled: whatever the buffer and the state, \<open>parseBulkString\<close> either
  saves the command as incomplete, leaving the queue alone, or does not return.  The null
  reply \<open>$-1\<close> asks \<open>calloc\<close> and \<open>strncpy\<close> for a negative length.
\<close>

theorem bulk_reply_never_handled:
  "(case parseBulkString w start s of Inl e \<Rightarrow> True | Inr (i, s') \<Rightarrow> i = -1 \<and> que s' = que s) \<and>
   parseReadData L heap (buf_of (''$-1'' @ crlf)) (s\<lparr>buf_slave_answer := buf_of []\<rparr>) = Some (Inl Undefined)"
proof
  have save: "case andThen (save_answer w start s) (\<lambda>s. Inr (-1, s)) of
      Inl e \<Rightarrow> True | Inr (i, s') \<Rightarrow> i = -1 \<and> que s' = que s"
    by (cases "saveToBuf w start (buf_slave_answer s)") (auto simp: save_answer_def)
  have fault: "case andThen a (\<lambda>x. andThen (b x) (\<lambda>(e, qu). case e of None \<Rightarrow> Inl Exit | Some key \<Rightarrow> Inl Undefined)) of
      Inl e \<Rightarrow> True | Inr (i, s') \<Rightarrow> i = -1 \<and> que s' = que s" for a :: "string outcome" and b
    by (cases a; simp; cases "b (projr a)"; auto simp: split_beta split: option.split)
  show "case parseBulkString w start s of Inl e \<Rightarrow> True | Inr (i, s') \<Rightarrow> i = -1 \<and> que s' = que s"
    unfolding parseBulkString_def Let_def using save fault
    by (cases "digits w (i32 (start + 1)) 0") auto
  define u where "u = buf_of (''$-1'' @ crlf)"
  have mem: "data u 0 = CHR ''$''" "data u 1 = CHR ''-''" "data u 2 = CHR ''1''" "data u 3 = CHR 0x0D" "len u = 5"
    by (simp_all add: u_def buf_of_def mem_of_def crlf_def)
  have "digits u 1 0 = (-29, 3)"
    using mem by (simp add: digits_turn digits_stop schar_def i32_id)
  then have "parseBulkString u 0 s' = Inl Undefined" for s'
    using mem by (simp add: parseBulkString_def i32_id calloc_copy_def Let_def)
  then have "answer_turn L u 0 s' = Inl Undefined" for s' by (simp add: answer_turn_def mem)
  then have "answer_loop L u 0 s' = Some (Inl Undefined)" for s' by (subst answer_loop.simps) (simp add: mem)
  moreover have "len (buf_of []) = 0" by (simp add: buf_of_def)
  ultimately have "parseReadData L heap u (s\<lparr>buf_slave_answer := buf_of []\<rparr>) = Some (Inl Undefined)"
    by (simp add: parseReadData_def)
  then show "parseReadData L heap (buf_of (''$-1'' @ crlf)) (s\<lparr>buf_slave_answer := buf_of []\<rparr>) =
      Some (Inl Undefined)" by (simp only: u_def)
qed

end
