(* ===== verification/LruedQuery.thy ===== *)
theory LruedQuery
  imports Chunks
begin

text \<open>
  The commands of the master, \<^verbatim>\<open>proxy/lrued_query.c\<close>: the proxy watches the replication
  stream for \<open>DEL\<close> commands (which is how the master announces that it dropped a key) and asks
  the slave, which still has it, for the value of the key.  The second part proves that every
  \<open>DEL\<close> is seen, also when the command is cut after its first 14 bytes, and what happens when
  it is cut earlier.
\<close>

subsection \<open>The code\<close>

text \<open>
  \<open>key\<close> is the C string in \<open>len + 1\<close> zeroed bytes, so the \<open>strncpy\<close> of \<open>len\<close> bytes copies it and
  fills up with NUL.
\<close>

definition hgetall_cmd :: "int \<Rightarrow> string \<Rightarrow> string" where
  "hgetall_cmd n key = ''hgetall '' @ key @ replicate (nat n - length key) NUL @ crlf"

definition queryKey :: "int \<Rightarrow> string \<Rightarrow> proxy \<Rightarrow> proxy outcome" where
  "queryKey n key s =
     andThen (of_opt Blocked (is_full_cir_queue (que s))) (\<lambda>(full, qu).
       let s = s\<lparr>que := qu\<rparr> in
       if \<not> full then
         andThen (writeData (read_fd s) (mem_of (hgetall_cmd n key) (\<lambda>i. NUL)) (8 + 2 + n) s) (\<lambda>(wr, s).
           if wr = -1 then Inr s
           else andThen (of_opt Blocked (push_cir_queue (Some key) (que s))) (\<lambda>qu. Inr (s\<lparr>que := qu\<rparr>)))
       else Inr s)"

text \<open>\<open>saveToBuf(wdata, start, &buf_master_cmd)\<close>.\<close>

definition save_cmd :: "WData \<Rightarrow> int \<Rightarrow> proxy \<Rightarrow> proxy outcome" where
  "save_cmd w start s =
     andThen (saveToBuf w start (buf_master_cmd s)) (\<lambda>b. Inr (s\<lparr>buf_master_cmd := b\<rparr>))"

text \<open>
  The digit loop of \<open>delParser\<close> tests the bound inside; it leaves the loop in the same cases as
  the one of the parser, on an index below \<open>len\<close> with a \<open>\r\<close> or on one that is not below.
\<close>

definition delParser :: "WData \<Rightarrow> int \<Rightarrow> proxy \<Rightarrow> (int \<times> proxy) outcome" where
  "delParser w start s =
     (let index = i32 (start + 13) in
      if data w index = CHR ''$'' then
        let index = i32 (index + 1) in
        if index \<ge> len w then andThen (save_cmd w start s) (\<lambda>s. Inr (-1, s))
        else case digits w index 0 of (n, index) \<Rightarrow>
          if index \<ge> len w then andThen (save_cmd w start s) (\<lambda>s. Inr (-1, s))
          else let index = i32 (index + 2) in
            if index \<ge> len w then andThen (save_cmd w start s) (\<lambda>s. Inr (-1, s))
            else andThen
              (if i32 (index + n) \<le> len w
               then andThen (calloc_copy (data w) index n) (\<lambda>key. queryKey n key s)
               else save_cmd w start s) (\<lambda>s. Inr (i32 (i32 (index + n) + 2), s))
      else Inr (-1, s))"

function find_star :: "WData \<Rightarrow> int \<Rightarrow> int" where
  "find_star w index =
     (if data w index \<noteq> CHR ''*'' \<and> index < len w then find_star w (index + 1) else index)"
  by pat_completeness auto
termination by (relation "measure (\<lambda>(w, index). nat (len w - index))") auto

declare find_star.simps [simp del]

definition cmp1 :: string where
  "cmp1 = ''*2'' @ crlf @ ''$3'' @ crlf @ ''DEL'' @ crlf @ ''$''"

text \<open>
  One turn of the loop at a \<open>*\<close>; \<open>None\<close> is a \<open>break\<close>.  The 14 bytes of the local \<open>cmp\<close> have no
  terminator of their own: \<open>beyond\<close> is the byte behind them on the stack.
\<close>

definition del_turn :: "char \<Rightarrow> WData \<Rightarrow> int \<Rightarrow> proxy \<Rightarrow> (int option \<times> proxy) outcome" where
  "del_turn beyond w index s =
     (if len w - 14 > 0 then
        let cmp = strncpy_bytes (data w) index 14 in
        if strcmp (c_str (cmp @ [beyond])) cmp1 = 0 then
          andThen (delParser w index s) (\<lambda>(i, s). Inr (if i = -1 then None else Some i, s))
        else Inr (Some (i32 (index + 14)), s)
      else andThen (save_cmd w (index - 1) s) (\<lambda>s. Inr (None, s)))"

partial_function (option) del_loop :: "char \<Rightarrow> WData \<Rightarrow> int \<Rightarrow> proxy \<Rightarrow> proxy outcome option" where
  "del_loop beyond w index s =
     (if index < len w then
        (if find_star w index < len w then
           (case del_turn beyond w (find_star w index) s of
              Inl e \<Rightarrow> Some (Inl e)
            | Inr r \<Rightarrow> (case fst r of None \<Rightarrow> Some (Inr (snd r)) | Some i \<Rightarrow> del_loop beyond w i (snd r)))
         else Some (Inr s))
      else Some (Inr s))"

definition processInputBuffer :: "char \<Rightarrow> cmem \<Rightarrow> WData \<Rightarrow> proxy \<Rightarrow> proxy outcome option" where
  "processInputBuffer beyond heap w s =
     (case (if len (buf_master_cmd s) > 0 \<and> len (buf_master_cmd s) + len w < MAX_READ * 2
            then merge_buf heap (buf_master_cmd s) w else Inr w) of
        Inl e \<Rightarrow> Some (Inl e)
      | Inr processData \<Rightarrow>
          del_loop beyond processData 0
            (if len (buf_master_cmd s) > 0
             then s\<lparr>buf_master_cmd := (buf_master_cmd s)\<lparr>len := 0\<rparr>\<rparr> else s))"

subsection \<open>Asking for a key\<close>

lemma bytes_at_mem_of: "bytes_at (mem_of xs r) 0 (int (length xs)) = xs"
  by (intro nth_equalityI) (auto simp: bytes_at_def mem_of_def)

lemma length_hgetall: "length (hgetall_cmd (int (length key)) key) = 10 + length key"
  by (simp add: hgetall_cmd_def crlf_def)

lemma queryKey_ok:
  assumes fds: "master_fd s \<noteq> -1" "read_fd s \<noteq> -1"
    and qu: "env_wf (que s)" "length (env_list (que s)) < queue_cap"
    and key: "length key < 2 ^ 27" and ans: "pending s = rs @ later" "write_answers (10 + int (length key)) rs"
  shows "\<exists>qu e acts. queryKey (int (length key)) key s =
      Inr (s\<lparr>que := qu, pending := later, errno := e, trace := trace s @ acts\<rparr>) \<and>
    env_wf qu \<and> env_list qu = env_list (que s) @ [Some key] \<and>
    sent_to (read_fd s) acts = ''hgetall '' @ key @ crlf \<and> (\<forall>a \<in> set acts. \<exists>b. a = Sent (read_fd s) b)"
proof -
  let ?cmd = "hgetall_cmd (int (length key)) key" and ?n = "10 + int (length key)"
  obtain acts e where w: "writeData (read_fd s) (mem_of ?cmd (\<lambda>i. NUL)) ?n s =
      Inr (?n, s\<lparr>pending := later, errno := e, trace := trace s @ acts\<rparr>)"
    "sent_to (read_fd s) acts = bytes_at (mem_of ?cmd (\<lambda>i. NUL)) 0 ?n"
    "\<forall>a \<in> set acts. \<exists>b. a = Sent (read_fd s) b"
    using write_loop_ok [of ?n 0 rs s later "read_fd s" "mem_of ?cmd (\<lambda>i. NUL)"] fds key ans
    by (auto simp: writeData_def)
  have sent: "bytes_at (mem_of ?cmd (\<lambda>i. NUL)) 0 ?n = ''hgetall '' @ key @ crlf"
    using bytes_at_mem_of [of ?cmd "\<lambda>i. NUL"] by (simp add: length_hgetall) (simp add: hgetall_cmd_def)
  let ?q = "que s\<lparr>q := put_rear (Some key) (q (que s))\<rparr>"
  have full: "is_full_cir_queue (que s) = Some (False, que s)" using is_full_env [OF qu(1)] qu(2) by simp
  have push: "push_cir_queue (Some key) (que s) = Some ?q" using push_env [OF qu(1)] qu(2) by simp
  have wf: "env_wf ?q" "env_list ?q = env_list (que s) @ [Some key]"
    using env_wf_put_rear [OF qu] queue_list_put_rear [of "q (que s)"] qu by (auto simp: env_wf_def)
  have "queryKey (int (length key)) key s =
      Inr (s\<lparr>que := ?q, pending := later, errno := e, trace := trace s @ acts\<rparr>)"
    using full w(1) push by (cases s) (simp add: queryKey_def add.commute)
  then show ?thesis using wf w(2,3) unfolding sent
    by (intro exI [of _ ?q] exI [of _ e] exI [of _ acts]) simp
qed

subsection \<open>The replication stream\<close>

text \<open>
  The commands the results speak of: \<open>DEL\<close> of one key, and others that the scan passes over
  (of at least 14 bytes, with no \<open>*\<close> behind these; a \<open>PING\<close> has exactly 14).
\<close>

datatype cmd = Del string | Other string

fun cmd_text :: "cmd \<Rightarrow> string" where
  "cmd_text (Del k) = ''*2'' @ crlf @ ''$3'' @ crlf @ ''DEL'' @ crlf @ bulk k"
| "cmd_text (Other c) = c"

fun cmd_ok :: "cmd \<Rightarrow> bool" where
  "cmd_ok (Del k) \<longleftrightarrow> k \<noteq> [] \<and> NUL \<notin> set k \<and> length k < 2 ^ 26"
| "cmd_ok (Other c) \<longleftrightarrow> 14 \<le> length c \<and> hd c = CHR ''*'' \<and> take 14 c \<noteq> cmp1 \<and>
     CHR ''*'' \<notin> set (drop 14 c) \<and> NUL \<notin> set c"

fun dels :: "cmd list \<Rightarrow> string list" where
  "dels [] = []"
| "dels (Del k # cs) = k # dels cs"
| "dels (Other c # cs) = dels cs"

definition cmds_text :: "cmd list \<Rightarrow> string" where
  "cmds_text cs = concat (map cmd_text cs)"

lemma cmds_text_simps [simp]: "cmds_text [] = []" "cmds_text (c # cs) = cmd_text c @ cmds_text cs"
  by (simp_all add: cmds_text_def)

lemma del_text: "cmd_text (Del k) = cmp1 @ dec (length k) @ crlf @ k @ crlf"
  by (simp add: cmp1_def bulk_def)

declare cmd_text.simps(1) [simp del]

lemma length_cmp1: "length cmp1 = 14"
  by (simp add: cmp1_def crlf_def)

lemma cmp1_no_nul: "NUL \<notin> set cmp1"
  by (simp add: cmp1_def crlf_def NUL_def)

lemma find_star_stop: "data w i = CHR ''*'' \<or> len w \<le> i \<Longrightarrow> find_star w i = i"
  by (subst find_star.simps) auto

lemma find_star_lead:
  "avail w i (lead @ xs) \<Longrightarrow> CHR ''*'' \<notin> set lead \<Longrightarrow> i + int (length lead) \<le> len w \<Longrightarrow>
   find_star w i = find_star w (i + int (length lead))"
proof (induction lead arbitrary: i)
  case Nil
  then show ?case by simp
next
  case (Cons c lead)
  then have i: "i < len w" by simp
  note c = avail_Cons [OF Cons.prems(1) [unfolded append_Cons] i]
  have "find_star w i = find_star w (i + 1)"
    using c Cons.prems(2) i by (subst find_star.simps) auto
  then show ?case using Cons.IH [of "i + 1"] c Cons.prems by (simp add: add.assoc)
qed

lemma cmp_bytes:
  assumes "avail w i xs" and "14 \<le> length xs" and "i + 14 \<le> len w" and "NUL \<notin> set (take 14 xs)"
  shows "c_str (strncpy_bytes (data w) i 14 @ [NUL]) = take 14 xs"
proof -
  have "avail w i (take 14 xs)" using avail_append [of w i "take 14 xs" "drop 14 xs"] assms(1) by simp
  then have b: "bytes_at (data w) i 14 = take 14 xs"
    using avail_bytes [of w i "take 14 xs"] assms(2,3) by simp
  then have "strncpy_bytes (data w) i 14 = take 14 xs"
    using assms(2,4) by (simp add: strncpy_bytes_def c_str_id)
  then show ?thesis using assms(4) by (simp add: c_str_def takeWhile_append)
qed

lemma turn_other:
  assumes "avail w i (cmd_text (Other c))" and "cmd_ok (Other c)" and "i + 14 \<le> len w" "14 < len w" "len w < 2 ^ 27"
  shows "del_turn NUL w i s = Inr (Some (i + 14), s)"
proof -
  have "c_str (strncpy_bytes (data w) i 14 @ [NUL]) = take 14 c"
    using cmp_bytes [of w i c] assms(1-3) by (auto dest: in_set_takeD)
  moreover have "i32 (i + 14) = i + 14" using assms by (intro i32_id) (auto simp: avail_def)
  ultimately show ?thesis using assms by (simp add: del_turn_def)
qed

text \<open>
  \<open>delParser\<close> behind a header: with less than the length line the command is saved, else its key
  is queried, or saved when it is not all there.
\<close>

lemma delParser_header:
  assumes av: "avail w (i + 14) (dec (length k) @ crlf @ k @ crlf)" and dollar: "data w (i + 13) = CHR ''$''"
    and ok: "cmd_ok (Del k)" and i: "0 \<le> i" "i + 14 \<le> len w" "len w < 2 ^ 27"
  defines "e \<equiv> i + int (length (cmd_text (Del k)))" and "b \<equiv> i + 14 + int (length (dec (length k)))"
  shows "delParser w i s =
    (if len w \<le> b + 2 then andThen (save_cmd w i s) (\<lambda>s. Inr (-1, s))
     else andThen (if e - 2 \<le> len w then queryKey (int (length k)) k s else save_cmd w i s) (\<lambda>s. Inr (e, s)))"
proof -
  let ?d = "int (length (dec (length k)))"
  have e: "e = b + 2 + int (length k) + 2" by (simp add: e_def b_def del_text length_cmp1 crlf_def)
  have k: "k \<noteq> []" "int (length k) < 2 ^ 26" "NUL \<notin> set k" using ok by auto
  have idx: "i32 (i + 13) = i + 13" "i32 (i + 13 + 1) = i + 14" using i by (simp_all add: i32_id)
  show ?thesis
  proof (cases "b < len w")
    case False
    then have "delParser w i s = andThen (save_cmd w i s) (\<lambda>s. Inr (-1, s))"
      unfolding delParser_def idx Let_def using digits_header [OF av] k dollar by (auto simp: b_def)
    then show ?thesis using False by simp
  next
    case True
    then have dig: "digits w (i + 14) 0 = (int (length k), b)"
      using digits_header [OF av] k by (simp add: b_def)
    have idx': "i32 (b + 2) = b + 2" "i32 (b + 2 + int (length k)) = e - 2" "i32 (e - 2 + 2) = e"
      using True i k e by (simp_all add: i32_id b_def)
    have copy: "calloc_copy (data w) (b + 2) (int (length k)) = Inr k" if le: "e - 2 \<le> len w" and pos: "b + 2 < len w"
    proof -
      have "avail w b (crlf @ k @ crlf)" using avail_append [OF av] True by (simp add: b_def)
      then have "avail w (b + 2) (k @ crlf)"
        using avail_append [of w b crlf] pos by (simp add: crlf_def)
      then have "avail w (b + 2) k" using avail_append by blast
      then have "bytes_at (data w) (b + 2) (int (length k)) = k"
        using avail_bytes le e by simp
      then show ?thesis using k by (simp add: calloc_copy_def c_str_id)
    qed
    have "\<not> len w \<le> i + 14" using True by (simp add: b_def)
    then have "delParser w i s =
      (if b + 2 \<ge> len w then andThen (save_cmd w i s) (\<lambda>s. Inr (-1, s))
       else andThen (if e - 2 \<le> len w
               then andThen (calloc_copy (data w) (b + 2) (int (length k))) (\<lambda>key. queryKey (int (length k)) key s)
               else save_cmd w i s) (\<lambda>s. Inr (e, s)))"
      using True dollar unfolding delParser_def idx Let_def dig prod.case idx' by simp
    then show ?thesis using copy by simp
  qed
qed

text \<open>At a \<open>DEL\<close> of which at least 14 bytes are there.\<close>

lemma turn_del:
  assumes av: "avail w i (cmd_text (Del k))" and ok: "cmd_ok (Del k)" and i: "i + 14 \<le> len w"
    and w: "14 < len w" "len w < 2 ^ 27"
  shows "if i + int (length (cmd_text (Del k))) - 2 \<le> len w
    then del_turn NUL w i s =
      andThen (queryKey (int (length k)) k s) (\<lambda>s. Inr (Some (i + int (length (cmd_text (Del k)))), s))
    else \<exists>r. (r = None \<or> (\<exists>j \<ge> len w. r = Some j)) \<and>
      del_turn NUL w i s = andThen (save_cmd w i s) (\<lambda>s. Inr (r, s))"
proof -
  let ?b = "i + 14 + int (length (dec (length k)))" and ?e = "i + int (length (cmd_text (Del k)))"
  have i0: "0 \<le> i" using av by (simp add: avail_def)
  have "take 14 (cmd_text (Del k)) = cmp1" "14 \<le> length (cmd_text (Del k))"
    by (simp_all add: del_text length_cmp1)
  then have "c_str (strncpy_bytes (data w) i 14 @ [NUL]) = cmp1"
    using cmp_bytes [OF av _ i] cmp1_no_nul by simp
  then have turn: "del_turn NUL w i s =
      andThen (delParser w i s) (\<lambda>(i, s). Inr (if i = -1 then None else Some i, s))"
    using w(1) by (simp add: del_turn_def)
  have av1: "avail w (i + 14) (dec (length k) @ crlf @ k @ crlf)"
    using avail_append [of w i cmp1] av i by (simp add: del_text length_cmp1)
  have "avail w i cmp1" using avail_append [of w i cmp1] av by (simp add: del_text)
  then have dollar: "data w (i + 13) = CHR ''$''"
    using i unfolding avail_def by (elim conjE allE [of _ 13]) (simp add: length_cmp1, simp add: cmp1_def crlf_def)
  note parse = delParser_header [OF av1 dollar ok i0 i w(2), of s]
  have e: "?e - 2 = ?b + 2 + int (length k)" "0 < int (length k)" "?e \<noteq> -1"
    using ok i0 by (simp_all add: del_text length_cmp1 crlf_def)
  consider (whole) "?e - 2 \<le> len w" "\<not> len w \<le> ?b + 2" | (none) "\<not> ?e - 2 \<le> len w" "len w \<le> ?b + 2"
    | (part) "\<not> ?e - 2 \<le> len w" "\<not> len w \<le> ?b + 2"
    using e(1,2) by linarith
  then show ?thesis
  proof cases
    case whole
    then show ?thesis unfolding turn parse using e(3) by (simp add: andThen_assoc)
  next
    case none
    then show ?thesis unfolding turn parse by (auto simp: andThen_assoc)
  next
    case part
    then show ?thesis unfolding turn parse using e(3) by (auto simp: andThen_assoc intro!: exI [of _ "Some ?e"])
  qed
qed

subsection \<open>The loop\<close>

text \<open>
  What asking for some keys does to the process: they join the queue in order, one \<open>hgetall\<close>
  per key is sent to the slave, and nothing else is sent.
\<close>

definition asked :: "string list \<Rightarrow> sysret list \<Rightarrow> proxy \<Rightarrow> proxy \<Rightarrow> bool" where
  "asked ks later s s' \<longleftrightarrow>
     (\<exists>qu e acts. s' = s\<lparr>que := qu, pending := later, errno := e, trace := trace s @ acts\<rparr> \<and>
        env_wf qu \<and> env_list qu = env_list (que s) @ map Some ks \<and>
        sent_to (read_fd s) acts = concat (map (\<lambda>k. ''hgetall '' @ k @ crlf) ks) \<and>
        (\<forall>a \<in> set acts. \<exists>b. a = Sent (read_fd s) b))"

text \<open>The connections are open, the queue has room, and the kernel takes the questions.\<close>

definition can_ask :: "string list \<Rightarrow> sysret list \<Rightarrow> proxy \<Rightarrow> bool" where
  "can_ask ks later s \<longleftrightarrow>
     master_fd s \<noteq> -1 \<and> read_fd s \<noteq> -1 \<and> env_wf (que s) \<and>
     length (env_list (que s)) + length ks \<le> queue_cap \<and>
     (\<exists>rss. pending s = concat rss @ later \<and>
        list_all2 (\<lambda>k rs. length k < 2 ^ 27 \<and> write_answers (10 + int (length k)) rs) ks rss)"

lemma asked_none: "can_ask [] later s \<Longrightarrow> asked [] later s s"
  unfolding asked_def can_ask_def
  by (intro exI [of _ "que s"] exI [of _ "errno s"] exI [of _ "[]"]) simp

lemma asked_one:
  assumes "can_ask (k # ks) later s"
  shows "\<exists>s1 mid. queryKey (int (length k)) k s = Inr s1 \<and> asked [k] mid s s1 \<and> can_ask ks later s1"
proof -
  have ok: "master_fd s \<noteq> -1" "read_fd s \<noteq> -1" "env_wf (que s)" "length (env_list (que s)) + Suc (length ks) \<le> queue_cap"
    using assms by (auto simp: can_ask_def)
  obtain rs rss where rss: "pending s = rs @ concat rss @ later" "write_answers (10 + int (length k)) rs"
    "length k < 2 ^ 27" "list_all2 (\<lambda>k rs. length k < 2 ^ 27 \<and> write_answers (10 + int (length k)) rs) ks rss"
    using assms by (auto simp: can_ask_def list_all2_Cons1)
  have room: "length (env_list (que s)) < queue_cap" using ok(4) by simp
  obtain qu e acts where q: "queryKey (int (length k)) k s =
      Inr (s\<lparr>que := qu, pending := concat rss @ later, errno := e, trace := trace s @ acts\<rparr>)"
    "env_wf qu" "env_list qu = env_list (que s) @ [Some k]" "sent_to (read_fd s) acts = ''hgetall '' @ k @ crlf"
    "\<forall>a \<in> set acts. \<exists>b. a = Sent (read_fd s) b"
    using queryKey_ok [OF ok(1-3) room rss(3,1,2)] by blast
  let ?s = "s\<lparr>que := qu, pending := concat rss @ later, errno := e, trace := trace s @ acts\<rparr>"
  have "asked [k] (concat rss @ later) s ?s"
    unfolding asked_def using q(2-5) by (intro exI [of _ qu] exI [of _ e] exI [of _ acts]) simp
  moreover have "can_ask ks later ?s"
    unfolding can_ask_def using ok q(2,3) rss(4) by (simp del: length_queue_list) blast
  ultimately show ?thesis using q(1) by blast
qed

lemma asked_trans:
  assumes "asked ks mid s s1" and "asked ks' later s1 s2"
  shows "asked (ks @ ks') later s s2"
proof -
  obtain qu e acts where 1: "s1 = s\<lparr>que := qu, pending := mid, errno := e, trace := trace s @ acts\<rparr>"
    "env_list qu = env_list (que s) @ map Some ks"
    "sent_to (read_fd s) acts = concat (map (\<lambda>k. ''hgetall '' @ k @ crlf) ks)"
    "\<forall>a \<in> set acts. \<exists>b. a = Sent (read_fd s) b"
    using assms(1) unfolding asked_def by blast
  obtain qu' e' acts' where 2: "s2 = s1\<lparr>que := qu', pending := later, errno := e', trace := trace s1 @ acts'\<rparr>"
    "env_wf qu'" "env_list qu' = env_list (que s1) @ map Some ks'"
    "sent_to (read_fd s1) acts' = concat (map (\<lambda>k. ''hgetall '' @ k @ crlf) ks')"
    "\<forall>a \<in> set acts'. \<exists>b. a = Sent (read_fd s1) b"
    using assms(2) unfolding asked_def by blast
  have "s2 = s\<lparr>que := qu', pending := later, errno := e', trace := trace s @ acts @ acts'\<rparr>"
    using 1(1) 2(1) by simp
  then show ?thesis
    unfolding asked_def using 1 2 by (intro exI [of _ qu'] exI [of _ e'] exI [of _ "acts @ acts'"]) auto
qed

lemma asked_buf: "asked ks later s s' \<Longrightarrow> buf_master_cmd s' = buf_master_cmd s"
  by (auto simp: asked_def)

lemma save_cmd_ok:
  assumes "bytes_at (data w) i (len w - i) = part" "NUL \<notin> set part"
    and "0 \<le> i" "i \<le> len w" "len w - i < MAX_READ"
  shows "\<exists>b. save_cmd w i s = Inr (s\<lparr>buf_master_cmd := b\<rparr>) \<and> buf_holds b part"
  using saveToBuf_ok [OF assms, of "buf_master_cmd s"] by (auto simp: save_cmd_def)

lemma del_loop_end: "len w \<le> i \<or> len w \<le> find_star w i \<Longrightarrow> del_loop beyond w i s = Some (Inr s)"
  by (subst del_loop.simps) auto

lemma del_loop_turn:
  "i < len w \<Longrightarrow> find_star w i < len w \<Longrightarrow> del_turn beyond w (find_star w i) s = Inr (r, s') \<Longrightarrow>
   del_loop beyond w i s = (case r of None \<Rightarrow> Some (Inr s') | Some j \<Rightarrow> del_loop beyond w j s')"
  by (subst del_loop.simps) (simp split: option.split)

lemma avail_extend: "avail w i xs \<Longrightarrow> len w \<le> i + int (length xs) \<Longrightarrow> avail w i (xs @ ys)"
  by (auto simp: avail_def nth_append)

lemma length_cmd_text: "cmd_ok c \<Longrightarrow> 14 \<le> length (cmd_text c)"
  by (cases c) (simp_all add: del_text length_cmp1)

lemma cmd_text_star: "cmd_ok c \<Longrightarrow> \<exists>xs. cmd_text c = CHR ''*'' # xs"
proof (cases c)
  case (Other t)
  assume "cmd_ok c"
  then show ?thesis using Other by (cases t) auto
qed (simp add: del_text cmp1_def)

text \<open>
  The end of the text a buffer may have: the beginning of a \<open>DEL\<close>, with its first 14 bytes but
  not the whole key.
\<close>

definition cut_del :: "string \<Rightarrow> bool" where
  "cut_del part \<longleftrightarrow> part = [] \<or>
     (\<exists>k n. cmd_ok (Del k) \<and> part = take n (cmd_text (Del k)) \<and> 14 \<le> n \<and> n < length (cmd_text (Del k)) - 2)"

lemma dec_no_star: "CHR ''*'' \<notin> set (dec n)"
proof (induction n rule: dec.induct)
  case (1 n)
  have digit: "char_of (48 + m) \<noteq> CHR ''*''" if "m < 10" for m :: nat
  proof
    assume "char_of (48 + m) = CHR ''*''"
    then have "schar (char_of (48 + m)) = schar (CHR ''*'')" by simp
    then show False using schar_digit [OF that] by (simp add: schar_def)
  qed
  show ?case using 1 digit [of n] digit [of "n mod 10"]
    by (cases "n < 10") (auto simp: dec.simps [of n])
qed

text \<open>Only the header itself, with a NUL behind it, compares equal to the header.\<close>

lemma cmp_eq: "length xs = 14 \<Longrightarrow> c_str (xs @ [NUL]) = cmp1 \<Longrightarrow> xs = cmp1"
proof -
  assume len: "length xs = 14" and eq: "c_str (xs @ [NUL]) = cmp1"
  have "c_str (xs @ [NUL]) = c_str xs" unfolding c_str_def by (induction xs) auto
  moreover have "prefix (c_str xs) xs" unfolding c_str_def by (metis prefix_def takeWhile_dropWhile_id)
  ultimately show ?thesis using eq len length_cmp1 by (metis append_eq_append_conv append_Nil2 prefix_def)
qed

lemma strncpy_bytes_nul:
  assumes "NUL \<in> set (bytes_at m i n)"
  shows "NUL \<in> set (strncpy_bytes m i n)"
proof -
  let ?b = "bytes_at m i n"
  have app: "?b = c_str ?b @ dropWhile (\<lambda>c. c \<noteq> NUL) ?b" by (simp add: c_str_def)
  have "NUL \<notin> set (c_str ?b)" unfolding c_str_def by (auto dest: set_takeWhileD)
  then have "dropWhile (\<lambda>c. c \<noteq> NUL) ?b \<noteq> []" using assms app by (metis append_Nil2)
  then have "length (c_str ?b) < length ?b" using arg_cong [OF app, of length] by simp
  then show ?thesis by (simp add: strncpy_bytes_def Let_def)
qed

lemma dec_no_nul: "NUL \<notin> set (dec n)"
proof (induction n rule: dec.induct)
  case (1 n)
  have digit: "char_of (48 + m) \<noteq> NUL" if "m < 10" for m :: nat
  proof
    assume "char_of (48 + m) = NUL"
    then have "schar (char_of (48 + m)) = schar NUL" by simp
    then show False using schar_digit [OF that] by (simp add: schar_def NUL_def)
  qed
  show ?case using 1 digit [of n] digit [of "n mod 10"]
    by (cases "n < 10") (auto simp: dec.simps [of n])
qed

lemma del_loop_cut:
  assumes av: "avail w i (lead @ part)" and lw: "len w = i + int (length lead) + int (length part)"
    and w: "14 < len w" "len w < 2 ^ 27" and lead: "CHR ''*'' \<notin> set lead" and part: "cut_del part"
    and short: "int (length part) < MAX_READ" and can: "can_ask [] later s" and b: "len (buf_master_cmd s) = 0"
  shows "\<exists>s' b. asked [] later s s' \<and> buf_holds b part \<and>
           del_loop NUL w i s = Some (Inr (s'\<lparr>buf_master_cmd := b\<rparr>))"
proof -
  let ?j = "i + int (length lead)"
  have star: "find_star w i = find_star w ?j" using find_star_lead [OF av lead] lw by simp
  show ?thesis
  proof (cases "part = []")
    case True
    then have "len w \<le> find_star w i" using star lw find_star_stop [of w ?j] by simp
    then have "del_loop NUL w i s = Some (Inr s)" using del_loop_end by blast
    then show ?thesis using True b asked_none [OF can]
      by (intro exI [of _ s] exI [of _ "buf_master_cmd s"]) (simp add: buf_holds_def)
  next
    case False
    then obtain k n where k: "cmd_ok (Del k)" "part = take n (cmd_text (Del k))" "14 \<le> n"
      "n < length (cmd_text (Del k)) - 2" using part by (auto simp: cut_del_def)
    then have n: "length part = n" by simp
    have avj: "avail w ?j part" using avail_append [OF av] lw by simp
    then have "avail w ?j (part @ drop n (cmd_text (Del k)))" using avail_extend lw by simp
    then have avk: "avail w ?j (cmd_text (Del k))" using k(2) by simp
    have j: "?j < len w" "?j + 14 \<le> len w" "0 \<le> ?j" "?j \<le> len w" "len w - ?j < MAX_READ"
      using lw n k(3) avj short by (auto simp: avail_def)
    obtain xs where "cmd_text (Del k) = CHR ''*'' # xs" using cmd_text_star [OF k(1)] by blast
    then have "data w ?j = CHR ''*''" using avail_Cons [of w ?j] avk j by auto
    then have fs: "find_star w i = ?j" using star find_star_stop by simp
    have "\<not> ?j + int (length (cmd_text (Del k))) - 2 \<le> len w" using lw n k(4) by simp
    then obtain r where r: "r = None \<or> (\<exists>j \<ge> len w. r = Some j)"
      "del_turn NUL w ?j s = andThen (save_cmd w ?j s) (\<lambda>s. Inr (r, s))"
      using turn_del [OF avk k(1) j(2) w, of s] by auto
    have bytes: "bytes_at (data w) ?j (len w - ?j) = part"
      using avail_bytes [OF avj] lw by simp
    have "NUL \<notin> set (cmd_text (Del k))"
      using k(1) dec_no_nul cmp1_no_nul by (auto simp: del_text crlf_def NUL_def)
    then have nul: "NUL \<notin> set part" using k(2) by (auto dest: in_set_takeD)
    obtain b' where b': "save_cmd w ?j s = Inr (s\<lparr>buf_master_cmd := b'\<rparr>)" "buf_holds b' part"
      using save_cmd_ok [OF bytes nul j(3-5)] by blast
    have "del_loop NUL w i s = (case r of None \<Rightarrow> Some (Inr (s\<lparr>buf_master_cmd := b'\<rparr>))
        | Some j \<Rightarrow> del_loop NUL w j (s\<lparr>buf_master_cmd := b'\<rparr>))"
    proof (rule del_loop_turn)
      show "i < len w" using j(1) by simp
    qed (use j(1) fs r(2) b'(1) in simp_all)
    then have "del_loop NUL w i s = Some (Inr (s\<lparr>buf_master_cmd := b'\<rparr>))"
      using r(1) del_loop_end by (auto split: option.split)
    then show ?thesis using b'(2) asked_none [OF can] by blast
  qed
qed

lemma cmds_text_long: "cs \<noteq> [] \<Longrightarrow> \<forall>c \<in> set cs. cmd_ok c \<Longrightarrow> 14 \<le> length (cmds_text cs)"
  using length_cmd_text by (cases cs) (auto simp: trans_le_add1)

text \<open>
  The commands in front of some last \<open>part\<close>: whatever the loop does with that part, after \<open>lead\<close>
  bytes without a \<open>*\<close>, it does behind them, and has then asked for their keys.
\<close>

lemma del_loop_cmds_then:
  assumes "avail w i (lead @ cmds_text cs @ part)"
    and "len w = i + int (length (lead @ cmds_text cs @ part)) - int missing"
    and "14 < len w" "len w < 2 ^ 27" and "CHR ''*'' \<notin> set lead" and "\<forall>c \<in> set cs. cmd_ok c"
    and tail: "\<And>i lead s. avail w i (lead @ part) \<Longrightarrow> len w = i + int (length lead) + int (length part) \<Longrightarrow>
      CHR ''*'' \<notin> set lead \<Longrightarrow> can_ask [] later s \<Longrightarrow> len (buf_master_cmd s) = 0 \<Longrightarrow>
      \<exists>s' b. asked [] later s s' \<and> buf_holds b kept \<and> del_loop NUL w i s = Some (Inr (s'\<lparr>buf_master_cmd := b\<rparr>))"
    and kept: "part = [] \<Longrightarrow> kept = []"
    and "missing \<le> 2" and "missing \<noteq> 0 \<longrightarrow> part = [] \<and> cs \<noteq> [] \<and> (\<exists>k. last cs = Del k)"
    and "can_ask (dels cs) later s" and "len (buf_master_cmd s) = 0"
  shows "\<exists>s' b. asked (dels cs) later s s' \<and> buf_holds b kept \<and>
           del_loop NUL w i s = Some (Inr (s'\<lparr>buf_master_cmd := b\<rparr>))"
  using assms(1-6,9-)
proof (induction cs arbitrary: i lead s)
  case Nil
  then show ?case using tail [of i lead s] by simp
next
  case (Cons c cs)
  let ?j = "i + int (length lead)" and ?e = "int (length (cmd_text c))"
  have c: "cmd_ok c" "\<forall>c \<in> set cs. cmd_ok c" using Cons.prems(6) by auto
  note w = Cons.prems(3,4)
  have e: "14 \<le> ?e" using length_cmd_text [OF c(1)] by simp
  have lw: "len w = ?j + ?e + int (length (cmds_text cs @ part)) - int missing" using Cons.prems(2) by simp
  have av: "avail w i (lead @ cmd_text c @ cmds_text cs @ part)" using Cons.prems(1) by simp
  have j14: "?j + 14 \<le> len w"
  proof (cases "missing = 0 \<or> cs \<noteq> []")
    case True
    then have "int missing \<le> int (length (cmds_text cs @ part))"
      using Cons.prems(7) cmds_text_long [OF _ c(2)] by (cases "cs = []") auto
    then show ?thesis using lw e by linarith
  next
    case False
    then obtain k where "last (c # cs) = Del k" using Cons.prems(8) by blast
    then have "c = Del k" using False by simp
    moreover from this have "k \<noteq> []" using c(1) by simp
    ultimately have "19 \<le> ?e" by (cases k) (simp_all add: del_text length_cmp1 crlf_def)
    then show ?thesis using lw Cons.prems(7) by simp
  qed
  then have j: "?j < len w" by simp
  have avj: "avail w ?j (cmd_text c @ cmds_text cs @ part)" using avail_append [OF av] j by simp
  then have avc: "avail w ?j (cmd_text c)" using avail_append by blast
  obtain xs where "cmd_text c = CHR ''*'' # xs" using cmd_text_star [OF c(1)] by blast
  then have "data w ?j = CHR ''*''" using avail_Cons [of w ?j] avc j by auto
  then have fs: "find_star w i = ?j" using find_star_lead [OF av Cons.prems(5)] find_star_stop [of w ?j] j by simp
  have i: "i < len w" using j by simp
  show ?case
  proof (cases c)
    case (Other t)
    have turn: "del_turn NUL w (find_star w i) s = Inr (Some (?j + 14), s)"
      unfolding fs using turn_other [OF _ _ j14 w] avc c(1) Other by auto
    then have step: "del_loop NUL w i s = del_loop NUL w (?j + 14) s"
      using del_loop_turn [OF i _ turn] fs j by simp
    have t: "14 \<le> length t" "CHR ''*'' \<notin> set (drop 14 t)" using c(1) Other by auto
    have "avail w ?j (take 14 t @ drop 14 t @ cmds_text cs @ part)" using avj Other by (simp flip: append_assoc)
    then have av': "avail w (?j + 14) (drop 14 t @ cmds_text cs @ part)"
      using avail_append [of w ?j "take 14 t"] j14 t(1) by simp
    have lw': "len w = ?j + 14 + int (length (drop 14 t @ cmds_text cs @ part)) - int missing"
      using lw Other t(1) by (simp add: of_nat_diff)
    have miss: "missing \<noteq> 0 \<longrightarrow> part = [] \<and> cs \<noteq> [] \<and> (\<exists>k. last cs = Del k)"
      using Cons.prems(8) Other by (cases "cs = []") auto
    show ?thesis
      using Cons.IH [OF av' lw' w t(2) c(2) Cons.prems(7) miss, of s] Cons.prems(9,10) step Other by simp
  next
    case (Del k)
    have "?j + ?e - 2 \<le> len w" using lw Cons.prems(7) by simp
    then have turn: "del_turn NUL w ?j s = andThen (queryKey (int (length k)) k s) (\<lambda>s. Inr (Some (?j + ?e), s))"
      using turn_del [OF _ _ j14 w, of k s] avc c(1) Del by simp
    obtain s1 mid where s1: "queryKey (int (length k)) k s = Inr s1" "asked [k] mid s s1" "can_ask (dels cs) later s1"
      using asked_one [of k "dels cs" later s] Cons.prems(9) Del by auto
    have step: "del_loop NUL w i s = del_loop NUL w (?j + ?e) s1"
      using del_loop_turn [OF i, of NUL s "Some (?j + ?e)" s1] fs j turn s1(1) by simp
    show ?thesis
    proof (cases "missing \<noteq> 0 \<and> cs = []")
      case True
      then have "len w \<le> ?j + ?e" "part = []" using lw Cons.prems(8) by auto
      moreover have "asked [] later s1 s1" using asked_none s1(3) True by simp
      ultimately show ?thesis
        using step del_loop_end [of w "?j + ?e"] asked_trans [OF s1(2)] Del True Cons.prems(10) asked_buf [OF s1(2)]
        by (intro exI [of _ s1] exI [of _ "buf_master_cmd s1"]) (auto simp: buf_holds_def kept)
    next
      case False
      then have "int missing \<le> int (length (cmds_text cs @ part))"
        using Cons.prems(7) cmds_text_long [OF _ c(2)] by (cases "cs = []") auto
      then have le: "?j + ?e \<le> len w" using lw by linarith
      then have av': "avail w (?j + ?e) ([] @ cmds_text cs @ part)" using avail_append [OF avj] by simp
      have lw': "len w = ?j + ?e + int (length ([] @ cmds_text cs @ part)) - int missing" using lw by simp
      have miss: "missing \<noteq> 0 \<longrightarrow> part = [] \<and> cs \<noteq> [] \<and> (\<exists>k. last cs = Del k)"
        using Cons.prems(8) False Del by auto
      have buf: "len (buf_master_cmd s1) = 0" using asked_buf [OF s1(2)] Cons.prems(10) by simp
      obtain s' b where "asked (dels cs) later s1 s'" "buf_holds b kept"
        "del_loop NUL w (?j + ?e) s1 = Some (Inr (s'\<lparr>buf_master_cmd := b\<rparr>))"
        using Cons.IH [OF av' lw' w _ c(2) Cons.prems(7) miss s1(3) buf] by auto
      then show ?thesis using step asked_trans [OF s1(2)] Del by auto
    qed
  qed
qed

lemma del_loop_cmds:
  assumes "avail w i (lead @ cmds_text cs @ part)"
    and "len w = i + int (length (lead @ cmds_text cs @ part)) - int missing"
    and w: "14 < len w" "len w < 2 ^ 27" and "CHR ''*'' \<notin> set lead" and "\<forall>c \<in> set cs. cmd_ok c"
    and part: "cut_del part" "int (length part) < MAX_READ"
    and "missing \<le> 2" and "missing \<noteq> 0 \<longrightarrow> part = [] \<and> cs \<noteq> [] \<and> (\<exists>k. last cs = Del k)"
    and "can_ask (dels cs) later s" and "len (buf_master_cmd s) = 0"
  shows "\<exists>s' b. asked (dels cs) later s s' \<and> buf_holds b part \<and>
           del_loop NUL w i s = Some (Inr (s'\<lparr>buf_master_cmd := b\<rparr>))"
  using del_loop_cut [OF _ _ w _ part] by (intro del_loop_cmds_then [OF assms(1-6) _ _ assms(9-)]) simp_all

text \<open>A header that is cut is not recognised, unless the memory behind the text completes it.\<close>

lemma cmp_other:
  assumes "strncpy_bytes m i 14 \<noteq> cmp1 \<or> beyond \<noteq> NUL"
  shows "c_str (strncpy_bytes m i 14 @ [beyond]) \<noteq> cmp1"
proof
  let ?xs = "strncpy_bytes m i 14"
  assume eq: "c_str (?xs @ [beyond]) = cmp1"
  have len: "length ?xs = 14"
    using length_takeWhile_le [of "\<lambda>c. c \<noteq> NUL" "bytes_at m i 14"]
    by (simp add: strncpy_bytes_def c_str_def Let_def)
  show False
  proof (cases "NUL \<in> set ?xs")
    case True
    then have "takeWhile (\<lambda>c. c \<noteq> NUL) ?xs = cmp1" using eq takeWhile_append1 [OF True, of "\<lambda>c. c \<noteq> NUL"] by (simp add: c_str_def)
    then have "takeWhile (\<lambda>c. c \<noteq> NUL) ?xs = ?xs" using takeWhile_eq_take [of "\<lambda>c. c \<noteq> NUL" ?xs] len length_cmp1 by simp
    then show False using True takeWhile_eq_all_conv [of "\<lambda>c. c \<noteq> NUL" ?xs] by auto
  next
    case False
    then have "\<forall>c \<in> set ?xs. c \<noteq> NUL" by blast
    then have "c_str (?xs @ [beyond]) = ?xs @ c_str [beyond]" unfolding c_str_def by (simp add: takeWhile_append2)
    then show False using eq assms len length_cmp1 by (cases "beyond = NUL") (auto simp: c_str_def dest: arg_cong [of _ _ length])
  qed
qed

lemma turn_unknown:
  assumes "strncpy_bytes (data w) i 14 \<noteq> cmp1 \<or> beyond \<noteq> NUL" and "0 \<le> i" "i < len w" "14 < len w" "len w < 2 ^ 27"
  shows "del_turn beyond w i s = Inr (Some (i + 14), s)"
  using cmp_other [OF assms(1)] assms(2-) by (simp add: del_turn_def i32_id)

lemma del_loop_header_cut:
  assumes av: "avail w i (lead @ take n (cmd_text (Del k)))" and lw: "len w = i + int (length lead) + int n"
    and w: "14 < len w" "len w < 2 ^ 27" and lead: "CHR ''*'' \<notin> set lead" and n: "1 \<le> n" "n < 14"
    and stale: "strncpy_bytes (data w) (len w - int n) 14 \<noteq> cmp1"
  shows "del_loop NUL w i s = Some (Inr s)"
proof -
  let ?j = "i + int (length lead)"
  have "avail w ?j (take n (cmd_text (Del k)))" using avail_append [OF av] lw by simp
  moreover have "take n (cmd_text (Del k)) = CHR ''*'' # take (n - 1) (tl (cmd_text (Del k)))"
    using n(1) by (cases n) (simp_all add: del_text cmp1_def)
  ultimately have "data w ?j = CHR ''*''" using avail_Cons [of w ?j] lw n(1) by auto
  then have fs: "find_star w i = ?j" using find_star_lead [OF av lead] find_star_stop [of w ?j] lw by simp
  have "0 \<le> i" using av by (simp add: avail_def)
  moreover have "len w - int n = ?j" using lw by simp
  ultimately have "del_turn NUL w (find_star w i) s = Inr (Some (?j + 14), s)"
    using turn_unknown [of w ?j NUL s] stale lw n w fs by simp
  then have "del_loop NUL w i s = del_loop NUL w (?j + 14) s"
    using del_loop_turn [of i w NUL s "Some (?j + 14)" s] fs lw n(1) by simp
  also have "\<dots> = Some (Inr s)" using lw n(2) by (intro del_loop_end) simp
  finally show ?thesis .
qed

text \<open>With another byte than NUL behind \<open>cmp\<close> no header is ever recognised.\<close>

lemma find_star_from: "0 \<le> i \<Longrightarrow> i \<le> find_star w i"
proof (induction w i rule: find_star.induct)
  case (1 w i)
  then show ?case by (subst find_star.simps) auto
qed

lemma del_loop_blind:
  assumes "beyond \<noteq> NUL" "14 < len w" "len w < 2 ^ 27" "0 \<le> i"
  shows "del_loop beyond w i s = Some (Inr s)"
  using assms(4)
proof (induction "nat (len w - i)" arbitrary: i rule: less_induct)
  case less
  let ?j = "find_star w i"
  show ?case
  proof (cases "i < len w \<and> ?j < len w")
    case True
    have j: "i \<le> ?j" using find_star_from less.prems by simp
    then have "del_turn beyond w ?j s = Inr (Some (?j + 14), s)"
      using turn_unknown [of w ?j beyond s] assms(1-3) less.prems True by simp
    then have "del_loop beyond w i s = del_loop beyond w (?j + 14) s"
      using del_loop_turn [of i w beyond s "Some (?j + 14)" s] True by simp
    also have "\<dots> = Some (Inr s)" using less.hyps [of "?j + 14"] j True less.prems by simp
    finally show ?thesis .
  qed (auto intro: del_loop_end)
qed

subsection \<open>What the proxy captures and what it misses\<close>

lemma buf_holds_avail: "buf_holds w xs \<Longrightarrow> avail w 0 (xs @ ys)"
  using avail_extend [of w 0 xs ys] by (auto simp: buf_holds_def avail_def)

text \<open>What is scanned: the bytes kept from the last chunk, which are then no longer kept, and the new ones.\<close>

lemma input_buffer_scans:
  assumes "buf_holds (buf_master_cmd s) old" and "int (length old) < MAX_READ"
    and "buf_holds w c" and "int (length c) \<le> MAX_READ" and "NUL \<notin> set (old @ c)"
  shows "\<exists>m. buf_holds m (old @ c) \<and> len m < 2 ^ 27 \<and>
    processInputBuffer beyond heap w s = del_loop beyond m 0 (s\<lparr>buf_master_cmd := (buf_master_cmd s)\<lparr>len := 0\<rparr>\<rparr>)"
proof -
  let ?b = "buf_master_cmd s"
  have lens: "len ?b = int (length old)" "len w = int (length c)"
    using assms(1,3) by (auto simp: buf_holds_def)
  have small: "length old + length c < 2 ^ 31" using assms(2,4) by (simp add: MAX_READ_def)
  obtain m where m: "merge_buf heap ?b w = Inr m" "buf_holds m (old @ c)"
    using merge_buf_ok [OF assms(1,3) _ _ small, of heap] assms(5) by auto
  define w' where "w' = (if len ?b > 0 then m else w)"
  have w': "buf_holds w' (old @ c)" using m(2) assms(3) lens by (auto simp: w'_def)
  have bb: "(if len ?b > 0 then s\<lparr>buf_master_cmd := ?b\<lparr>len := 0\<rparr>\<rparr> else s) = s\<lparr>buf_master_cmd := ?b\<lparr>len := 0\<rparr>\<rparr>"
    using lens by (cases s, cases ?b) auto
  have "processInputBuffer beyond heap w s = del_loop beyond w' 0 (s\<lparr>buf_master_cmd := ?b\<lparr>len := 0\<rparr>\<rparr>)"
    using m(1) lens assms(2,4) unfolding processInputBuffer_def bb by (auto simp: w'_def MAX_READ_def)
  moreover have "len w' < 2 ^ 27" using w' assms(2,4) by (simp add: buf_holds_def MAX_READ_def)
  ultimately show ?thesis using w' by blast
qed

text \<open>A call that asks for some keys, in the words of the results.\<close>

lemma asked_result:
  assumes "asked ks later (s\<lparr>buf_master_cmd := bb\<rparr>) s'"
  shows "\<exists>qu e acts. s'\<lparr>buf_master_cmd := b\<rparr> =
      s\<lparr>que := qu, pending := later, errno := e, trace := trace s @ acts, buf_master_cmd := b\<rparr> \<and>
    env_wf qu \<and> env_list qu = env_list (que s) @ map Some ks \<and>
    sent_to (read_fd s) acts = concat (map (\<lambda>k. ''hgetall '' @ k @ crlf) ks) \<and>
    (\<forall>a \<in> set acts. \<exists>b. a = Sent (read_fd s) b)"
proof -
  obtain qu e acts where a: "s' = s\<lparr>buf_master_cmd := bb, que := qu, pending := later, errno := e, trace := trace s @ acts\<rparr>"
    "env_wf qu" "env_list qu = env_list (que s) @ map Some ks"
    "sent_to (read_fd s) acts = concat (map (\<lambda>k. ''hgetall '' @ k @ crlf) ks)"
    "\<forall>a \<in> set acts. \<exists>b. a = Sent (read_fd s) b"
    using assms unfolding asked_def by auto
  then show ?thesis by (intro exI [of _ qu] exI [of _ e] exI [of _ acts]) (cases s; simp)
qed

text \<open>The same with the whole state after the call.\<close>

lemma input_buffer_step:
  assumes "buf_holds (buf_master_cmd s) old" and "int (length old) < MAX_READ"
    and "buf_holds w c" and "int (length c) \<le> MAX_READ" and "14 < length (old @ c)" and "NUL \<notin> set (old @ c)"
    and "old @ c @ missing = lead @ cmds_text cs @ part"
    and "length missing \<le> 2" and "missing \<noteq> [] \<longrightarrow> part = [] \<and> cs \<noteq> [] \<and> (\<exists>k. last cs = Del k)"
    and "CHR ''*'' \<notin> set lead" and "\<forall>c \<in> set cs. cmd_ok c" and "cut_del part" and "int (length part) < MAX_READ"
    and "can_ask (dels cs) later s"
  shows "\<exists>qu e acts b. processInputBuffer NUL heap w s =
      Some (Inr (s\<lparr>que := qu, pending := later, errno := e, trace := trace s @ acts, buf_master_cmd := b\<rparr>)) \<and>
    env_wf qu \<and> env_list qu = env_list (que s) @ map Some (dels cs) \<and>
    sent_to (read_fd s) acts = concat (map (\<lambda>k. ''hgetall '' @ k @ crlf) (dels cs)) \<and>
    (\<forall>a \<in> set acts. \<exists>b. a = Sent (read_fd s) b) \<and> buf_holds b part"
proof -
  let ?s = "s\<lparr>buf_master_cmd := (buf_master_cmd s)\<lparr>len := 0\<rparr>\<rparr>"
  obtain m where m: "buf_holds m (old @ c)" "len m < 2 ^ 27" "processInputBuffer NUL heap w s = del_loop NUL m 0 ?s"
    using input_buffer_scans [OF assms(1-4,6)] by blast
  have len': "len m = int (length (old @ c))" using m(1) by (simp add: buf_holds_def)
  have av: "avail m 0 (lead @ cmds_text cs @ part)" using buf_holds_avail [OF m(1), of missing] assms(7) by simp
  have "length (old @ c) + length missing = length (lead @ cmds_text cs @ part)"
    using arg_cong [OF assms(7), of length] by simp
  then have lw: "len m = 0 + int (length (lead @ cmds_text cs @ part)) - int (length missing)" using len' by simp
  have sz: "14 < len m" using len' assms(5) by simp
  have miss: "length missing \<noteq> 0 \<longrightarrow> part = [] \<and> cs \<noteq> [] \<and> (\<exists>k. last cs = Del k)" using assms(9) by simp
  have can: "can_ask (dels cs) later ?s" using assms(14) by (simp add: can_ask_def)
  obtain s' b where s': "asked (dels cs) later ?s s'" "buf_holds b part"
    "del_loop NUL m 0 ?s = Some (Inr (s'\<lparr>buf_master_cmd := b\<rparr>))"
    using del_loop_cmds [OF av lw sz m(2) assms(10-13,8) miss can] by auto
  then show ?thesis using m(3) asked_result [OF s'(1), of b] by metis
qed


definition ping :: string where
  "ping = ''*1'' @ crlf @ ''$4'' @ crlf @ ''PING'' @ crlf"

lemma ping_ok: "cmd_ok (Other ping)" "length ping = 14"
  by (simp_all add: ping_def cmp1_def crlf_def NUL_def)


lemma rest_has_no_star:
  assumes "1 \<le> n" "n < 14" "CHR ''*'' \<notin> set k"
  shows "CHR ''*'' \<notin> set (drop n (cmd_text (Del k)))"
proof -
  have "CHR ''*'' \<notin> set (drop n cmp1)" using assms(1) by (cases n) (auto simp: cmp1_def crlf_def dest: in_set_dropD)
  moreover have "CHR ''*'' \<notin> set (dec (length k))" using dec_no_star by blast
  ultimately show ?thesis using assms(2,3) by (auto simp: del_text length_cmp1 crlf_def)
qed



end
