(* ===== verification/Handlers.thy ===== *)
theory Handlers
  imports LruedQuery
begin

text \<open>
  The event handlers of the proxy: \<^verbatim>\<open>proxy/read_handler.c\<close> (the three connections), the rest
  of \<^verbatim>\<open>proxy/event.c\<close> (timer and accept), and the start-up of \<^verbatim>\<open>proxy/main.c\<close>.  A handler
  returns \<open>None\<close> when one of its loops does not end.  The main results are that the proxy is
  transparent: the slave gets exactly the bytes the master sent, while a synchronisation runs
  and after it, and the deletions are captured on the way.
\<close>

subsection \<open>read_handler.c\<close>

definition wdata_of :: "string \<Rightarrow> int \<Rightarrow> cmem \<Rightarrow> WData" where
  "wdata_of bs n stack = \<lparr>len = n, data = mem_of bs stack\<rparr>"

text \<open>\<open>stack\<close> is what lies behind the bytes read, \<open>heap\<close> what lies around a merge buffer.\<close>

definition readDelValue :: "('j, 'v) libs \<Rightarrow> cmem \<Rightarrow> cmem \<Rightarrow> int \<Rightarrow> proxy \<Rightarrow> proxy outcome option" where
  "readDelValue L heap stack fd s =
     (case readData fd MAX_READ s of
        Inl e \<Rightarrow> Some (Inl e)
      | Inr (nread, bs, s) \<Rightarrow>
          if nread > 0 then parseReadData L heap (wdata_of bs nread stack) s else Some (Inr s))"

definition sync_cmd :: string where
  "sync_cmd = ''SYNC'' @ crlf"

definition readFromSlave :: "cmem \<Rightarrow> int \<Rightarrow> proxy \<Rightarrow> proxy outcome" where
  "readFromSlave stack fd s =
     andThen (readData fd MAX_READ s) (\<lambda>(nread, bs, s).
       if nread \<le> 0 then Inr s
       else
         let rdata = mem_of bs stack;
             (rdata, s) =
               (if nread = 6 then
                  let rdata = rdata(6 := NUL) in
                  (rdata, if strcmp sync_cmd (c_str (bytes_at rdata 0 7)) = 0
                          then s\<lparr>proxy_state := SYNC_START_STATE\<rparr> else s)
                else (rdata, s))
         in andThen (writeData (master_fd s) rdata nread s) (\<lambda>(wr, s). Inr s))"

text \<open>
  \<open>strtoull\<close> in base 10, converted to the signed \<open>bulk_size\<close>: white space, an optional sign,
  digits; the value saturates at the largest unsigned one.
\<close>

definition is_space :: "char \<Rightarrow> bool" where
  "is_space c \<longleftrightarrow> c = CHR '' '' \<or> schar c \<in> {9..13}"

definition is_digit :: "char \<Rightarrow> bool" where
  "is_digit c \<longleftrightarrow> schar c \<in> {48..57}"

definition digits_value :: "string \<Rightarrow> int" where
  "digits_value ds = foldl (\<lambda>v c. v * 10 + (schar c - 48)) 0 ds"

definition strtoull :: "string \<Rightarrow> int" where
  "strtoull s =
     (let t = dropWhile is_space s;
          neg = (t \<noteq> [] \<and> hd t = CHR ''-'');
          t = (if t \<noteq> [] \<and> (hd t = CHR ''-'' \<or> hd t = CHR ''+'') then tl t else t);
          v = digits_value (takeWhile is_digit t)
      in if v > 2 ^ 64 - 1 then 2 ^ 64 - 1 else if neg then (- v) mod 2 ^ 64 else v)"

text \<open>
  The loop of \<open>SYNC_START_STATE\<close>; \<open>line\<close> is \<open>rdata\<close> up to \<open>p\<close>.  A first component of \<open>None\<close> is a
  \<open>return\<close> out of the handler, otherwise it is the line.
\<close>

partial_function (option) sync_line ::
  "int \<Rightarrow> string \<Rightarrow> proxy \<Rightarrow> (string option \<times> proxy) outcome option" where
  "sync_line fd line s =
     (if int (length line) \<ge> MAX_READ then Some (Inl Undefined)
      else case readData fd 1 s of
        Inl e \<Rightarrow> Some (Inl e)
      | Inr r \<Rightarrow>
          (if fst r < 0 then Some (Inr (None, snd (snd r)))
           else if fst r = 0 then sync_line fd line (snd (snd r))
           else (case writeData (client_fd (snd (snd r))) (mem_of (fst (snd r)) (\<lambda>i. NUL)) 1 (snd (snd r)) of
              Inl e \<Rightarrow> Some (Inl e)
            | Inr w \<Rightarrow>
                (if fst w = -1 then Some (Inr (None, snd w))
                 else if hd (fst (snd r)) = CHR 0x0A
                 then (if line \<noteq> [] then Some (Inr (Some line, snd w)) else sync_line fd line (snd w))
                 else sync_line fd (line @ [hd (fst (snd r))]) (snd w)))))"

text \<open>The loop of \<open>SYNC_STATE\<close>; the result tells whether it ran to its end.\<close>

partial_function (option) sync_payload :: "int \<Rightarrow> proxy \<Rightarrow> (bool \<times> proxy) outcome option" where
  "sync_payload fd s =
     (if bulk_size s \<noteq> 0 then
        (case readData fd (if bulk_size s > MAX_READ then MAX_READ else bulk_size s) s of
           Inl e \<Rightarrow> Some (Inl e)
         | Inr r \<Rightarrow>
             (if fst r < 0 then Some (Inr (False, snd (snd r)))
              else if fst r = 0 then sync_payload fd (snd (snd r))
              else (case writeData (client_fd (snd (snd r))) (mem_of (fst (snd r)) (\<lambda>i. NUL)) (fst r) (snd (snd r)) of
                 Inl e \<Rightarrow> Some (Inl e)
               | Inr w \<Rightarrow>
                   (if fst w = -1 then Some (Inr (False, snd w))
                    else sync_payload fd ((snd w)\<lparr>bulk_size := bulk_size (snd w) - fst r\<rparr>)))))
      else Some (Inr (True, s)))"

definition continue_reply :: string where "continue_reply = ''+CONTINUE''"
definition fullresync_reply :: string where "fullresync_reply = ''+FULLRESYNC''"

definition readFromMaster :: "char \<Rightarrow> cmem \<Rightarrow> cmem \<Rightarrow> int \<Rightarrow> proxy \<Rightarrow> proxy outcome option" where
  "readFromMaster beyond heap stack fd s =
     (if proxy_state s = SYNC_START_STATE then
        (case sync_line fd [] s of
           None \<Rightarrow> None
         | Some (Inl e) \<Rightarrow> Some (Inl e)
         | Some (Inr (None, s)) \<Rightarrow> Some (Inr s)
         | Some (Inr (Some line, s)) \<Rightarrow>
             if hd line = CHR ''-'' then Some (Inl Exit)
             else Some (Inr (s\<lparr>bulk_size := signed_take_bit 63 (strtoull (c_str (tl line))), proxy_state := SYNC_STATE\<rparr>)))
      else if proxy_state s = SYNC_STATE then
        (case sync_payload fd s of
           None \<Rightarrow> None
         | Some (Inl e) \<Rightarrow> Some (Inl e)
         | Some (Inr (finished, s)) \<Rightarrow>
             Some (Inr (if finished then s\<lparr>proxy_state := RUNNING_STATE\<rparr> else s)))
      else
        (case readData fd MAX_READ s of
           Inl e \<Rightarrow> Some (Inl e)
         | Inr (nread, bs, s) \<Rightarrow>
             if nread > 0 then
               let w = wdata_of bs nread stack in
               if proxy_state s = RUNNING_STATE then
                 (case processInputBuffer beyond heap w s of
                    None \<Rightarrow> None
                  | Some (Inl e) \<Rightarrow> Some (Inl e)
                  | Some (Inr s) \<Rightarrow>
                      Some (andThen (writeData (client_fd s) (data w) (len w) s) (\<lambda>(wr, s). Inr s)))
               else
                 let s = (if nread > 9 \<and> nread < 100 \<and>
                             (take 9 (bytes_at (data w) 0 9) = continue_reply \<or>
                              bytes_at (data w) 0 11 = fullresync_reply)
                          then s\<lparr>proxy_state := SYNC_START_STATE\<rparr> else s)
                 in Some (andThen (writeData (client_fd s) (data w) (len w) s) (\<lambda>(wr, s). Inr s))
             else Some (Inr s)))"

subsection \<open>event.c\<close>

definition timeEvent :: "proxy \<Rightarrow> (int \<times> proxy) outcome" where
  "timeEvent s =
     andThen (if 1000 \<le> (1000 div 10 :: int) \<or> cronloops s mod (1000 div (1000 div 10)) = 0
              then (if master_fd s = -1 then andThen (connectToMaster s) (\<lambda>(r, s). Inr s) else Inr s)
              else Inr s) (\<lambda>s.
       Inr (1000 div 10, s\<lparr>cronloops := cronloops s + 1\<rparr>))"

definition readDataFromSlave :: "int \<Rightarrow> proxy \<Rightarrow> proxy outcome" where
  "readDataFromSlave fd s =
     (if fd \<noteq> -1 then
        andThen (register fd ReadFromSlave s) (\<lambda>(ci, s).
          if ci = AE_ERR then closeFd s
          else if read_fd s = -1 then
            andThen (syscall s) (\<lambda>(r, s).
              let s = s\<lparr>read_fd := ret r\<rparr> in
              if read_fd s = -1 then closeFd s
              else andThen (register (read_fd s) ReadDelValue s) (\<lambda>(st, s).
                     if st = AE_ERR then closeFd s else Inr s))
          else Inr s)
      else Inr s)"

text \<open>
  The answer of the environment stands for \<open>anetTcpAccept\<close> and the \<open>anetKeepAlive\<close> behind it, whose
  \<open>errno\<close> nobody looks at in between.  When \<open>accept\<close> fails, \<open>anetSetError\<close> prints its message to the
  string literal that \<open>acceptTcpHandler\<close> hands it as a buffer: the tests behind it are not reached.
\<close>

definition acceptTcpHandler :: "int \<Rightarrow> proxy \<Rightarrow> proxy outcome" where
  "acceptTcpHandler fd s =
     (if master_fd s \<noteq> -1 then
        let s = (if client_fd s \<noteq> -1 then close_fd (client_fd s) s else s) in
        andThen (syscall s) (\<lambda>(r, s).
          if ret r = -1 then Inl Undefined
          else let cfd = ret r; s = s\<lparr>client_fd := cfd\<rparr> in readDataFromSlave cfd s)
      else Inr s)"

subsection \<open>main.c\<close>

definition main_boot :: "keyfile \<Rightarrow> proxy \<Rightarrow> proxy outcome" where
  "main_boot kf s =
     andThen (load_conf kf) (\<lambda>c.
       case c of
         None \<Rightarrow> Inl Exit
       | Some conf \<Rightarrow>
           let s = s\<lparr>buf_master_cmd := (buf_master_cmd s)\<lparr>len := 0\<rparr>,
                     buf_slave_answer := (buf_slave_answer s)\<lparr>len := 0\<rparr>\<rparr> in
           andThen (initHost (ips conf) s) (\<lambda>(r, s).
           andThen (connectToMaster s) (\<lambda>(r, s).
             if r = -1 then Inl Exit
             else let s = s\<lparr>que := init_cir_queue\<rparr> in
               andThen (syscall s) (\<lambda>(now, s).
                 case aeCreateTimeEvent True (ret now) (loop s) 1 TimeEvent None of (i, l) \<Rightarrow>
                   Inr (s\<lparr>loop := l, time_event_id := i\<rparr>)))))"

subsection \<open>Transparency\<close>

lemma readData_ok:
  assumes "master_fd s \<noteq> -1" "fd \<noteq> -1" "pending s = r # rs" "0 < ret r"
  shows "readData fd sz s = Inr (ret r, bytes r,
    s\<lparr>pending := rs, errno := (case sets_errno r of None \<Rightarrow> errno s | Some e \<Rightarrow> e),
      trace := trace s @ [Received fd sz (bytes r)]\<rparr>)"
  using assms syscall_pending [OF assms(3)] by (simp add: readData_def emit_def Let_def)

lemma readData_again:
  assumes "master_fd s \<noteq> -1" "fd \<noteq> -1" "pending s = r # rs" "ret r \<le> 0"
    and "sets_errno r \<in> {Some EAGAIN, Some EINPROGRESS}"
  shows "\<exists>e. readData fd sz s = Inr (0, [], s\<lparr>pending := rs, errno := e\<rparr>)"
  using assms syscall_pending [OF assms(3)] by (auto simp: readData_def Let_def)

lemma writeData_ok:
  assumes "master_fd s \<noteq> -1" "fd \<noteq> -1" "0 \<le> n" "n < 2 ^ 31" "pending s = rs @ later" "write_answers n rs"
  shows "\<exists>acts e. writeData fd dat n s =
           Inr (n, s\<lparr>pending := later, errno := e, trace := trace s @ acts\<rparr>) \<and>
         sent_to fd acts = bytes_at dat 0 n \<and> (\<forall>a \<in> set acts. \<exists>b. a = Sent fd b)"
  using write_loop_ok [of n 0 rs s later fd dat] assms by (simp add: writeData_def)

text \<open>
  The rounds of the payload loop: a read, and the writes that pass its bytes on; a read may
  also find nothing.
\<close>

fun payload_rounds :: "int \<Rightarrow> (sysret \<times> sysret list) list \<Rightarrow> bool" where
  "payload_rounds n [] = (n = 0)"
| "payload_rounds n ((r, ws) # rounds) =
     (0 < n \<and>
      (if ret r \<le> 0 then sets_errno r \<in> {Some EAGAIN, Some EINPROGRESS} \<and> ws = [] \<and> payload_rounds n rounds
       else ret r \<le> n \<and> ret r \<le> MAX_READ \<and> int (length (bytes r)) = ret r \<and> write_answers (ret r) ws \<and>
            payload_rounds (n - ret r) rounds))"

definition round_answers :: "(sysret \<times> sysret list) list \<Rightarrow> sysret list" where
  "round_answers rounds = concat (map (\<lambda>(r, ws). r # ws) rounds)"

definition payload :: "(sysret \<times> sysret list) list \<Rightarrow> string" where
  "payload rounds = concat (map (\<lambda>(r, ws). if ret r \<le> 0 then [] else bytes r) rounds)"

lemma rounds_simps [simp]:
  "round_answers [] = []" "round_answers ((r, ws) # rounds) = r # ws @ round_answers rounds"
  "payload [] = []" "payload ((r, ws) # rounds) = (if ret r \<le> 0 then [] else bytes r) @ payload rounds"
  by (simp_all add: round_answers_def payload_def)

lemma sync_payload_end: "bulk_size s = 0 \<Longrightarrow> sync_payload fd s = Some (Inr (True, s))"
  by (subst sync_payload.simps) simp

lemma sync_payload_again:
  "bulk_size s \<noteq> 0 \<Longrightarrow> readData fd (if bulk_size s > MAX_READ then MAX_READ else bulk_size s) s = Inr (0, bs, s1) \<Longrightarrow>
   sync_payload fd s = sync_payload fd s1"
  by (subst sync_payload.simps) simp

lemma sync_payload_turn:
  "bulk_size s \<noteq> 0 \<Longrightarrow> readData fd (if bulk_size s > MAX_READ then MAX_READ else bulk_size s) s = Inr (n, bs, s1) \<Longrightarrow>
   0 < n \<Longrightarrow> writeData (client_fd s1) (mem_of bs (\<lambda>i. NUL)) n s1 = Inr (n, s2) \<Longrightarrow>
   sync_payload fd s = sync_payload fd (s2\<lparr>bulk_size := bulk_size s2 - n\<rparr>)"
  by (subst sync_payload.simps) simp

text \<open>
  The reads of a trace never ask for more than what is left of \<open>n\<close> bytes: every read is granted the
  bytes that the ones before it have not brought.
\<close>

fun reads_within :: "int \<Rightarrow> int \<Rightarrow> act list \<Rightarrow> bool" where
  "reads_within fd n [] = True"
| "reads_within fd n (Received f k b # as) =
     (if f = fd then k \<le> n \<and> reads_within fd (n - int (length b)) as else reads_within fd n as)"
| "reads_within fd n (a # as) = reads_within fd n as"

lemma reads_within_sent:
  "\<forall>a \<in> set acts. \<exists>b. a = Sent f b \<Longrightarrow> reads_within fd n (acts @ as) = reads_within fd n as"
  by (induction acts) auto

lemma sync_payload_ok:
  assumes "payload_rounds n rounds" "bulk_size s = n" "master_fd s \<noteq> -1" "client_fd s \<noteq> -1" "fd \<noteq> -1"
    and "pending s = round_answers rounds @ later"
  shows "\<exists>acts e. sync_payload fd s =
      Some (Inr (True, s\<lparr>bulk_size := 0, pending := later, errno := e, trace := trace s @ acts\<rparr>)) \<and>
    sent_to (client_fd s) acts = payload rounds \<and> reads_within fd n acts"
  using assms
proof (induction n rounds arbitrary: s rule: payload_rounds.induct)
  case (1 n)
  have "s = s\<lparr>bulk_size := 0, pending := later, errno := errno s, trace := trace s @ []\<rparr>" using 1 by simp
  moreover have "sync_payload fd s = Some (Inr (True, s))" using 1 by (intro sync_payload_end) simp
  ultimately show ?case by (metis rounds_simps(3) sent_to_simps(1) reads_within.simps(1))
next
  case (2 n r ws rounds)
  have n: "bulk_size s \<noteq> 0" using 2(3,4) by simp
  have p: "pending s = r # ws @ round_answers rounds @ later" using 2(8) by simp
  show ?case
  proof (cases "ret r \<le> 0")
    case True
    then have ws: "ws = []" "payload_rounds n rounds" "sets_errno r \<in> {Some EAGAIN, Some EINPROGRESS}"
      using 2(3) by auto
    obtain e where rd: "readData fd (if bulk_size s > MAX_READ then MAX_READ else bulk_size s) s =
        Inr (0, [], s\<lparr>pending := round_answers rounds @ later, errno := e\<rparr>)"
      using readData_again [OF 2(5,7) p True ws(3)] ws(1) by auto
    then show ?thesis
      using 2(1) [OF True ws(2), of "s\<lparr>pending := round_answers rounds @ later, errno := e\<rparr>"] 2(4-7) True ws(1)
      unfolding sync_payload_again [OF n rd] by simp
  next
    case False
    then have r: "ret r \<le> n" "ret r \<le> MAX_READ" "int (length (bytes r)) = ret r" "write_answers (ret r) ws"
      "payload_rounds (n - ret r) rounds" "0 < ret r"
      using 2(3) by auto
    let ?e = "case sets_errno r of None \<Rightarrow> errno s | Some e \<Rightarrow> e"
    let ?sz = "if bulk_size s > MAX_READ then MAX_READ else bulk_size s"
    let ?s1 = "s\<lparr>pending := ws @ round_answers rounds @ later, errno := ?e,
      trace := trace s @ [Received fd ?sz (bytes r)]\<rparr>"
    note rd = readData_ok [OF 2(5,7) p r(6), of ?sz]
    obtain acts e where w: "writeData (client_fd ?s1) (mem_of (bytes r) (\<lambda>i. NUL)) (ret r) ?s1 =
        Inr (ret r, ?s1\<lparr>pending := round_answers rounds @ later, errno := e, trace := trace ?s1 @ acts\<rparr>)"
      "sent_to (client_fd ?s1) acts = bytes_at (mem_of (bytes r) (\<lambda>i. NUL)) 0 (ret r)"
      "\<forall>a \<in> set acts. \<exists>b. a = Sent (client_fd ?s1) b"
      using writeData_ok [of ?s1 "client_fd ?s1" "ret r" ws "round_answers rounds @ later" "mem_of (bytes r) (\<lambda>i. NUL)"]
        2(5,6) r by (auto simp: MAX_READ_def)
    let ?s2 = "?s1\<lparr>pending := round_answers rounds @ later, errno := e, trace := trace ?s1 @ acts\<rparr>"
    have bs: "bytes_at (mem_of (bytes r) (\<lambda>i. NUL)) 0 (ret r) = bytes r"
      using bytes_at_mem_of [of "bytes r"] r(3) by simp
    obtain acts' e' where IH: "sync_payload fd (?s2\<lparr>bulk_size := bulk_size ?s2 - ret r\<rparr>) =
        Some (Inr (True, ?s2\<lparr>bulk_size := 0, pending := later, errno := e', trace := trace ?s2 @ acts'\<rparr>))"
      "sent_to (client_fd s) acts' = payload rounds" "reads_within fd (n - ret r) acts'"
      using 2(2) [OF False r(5), of "?s2\<lparr>bulk_size := bulk_size ?s2 - ret r\<rparr>"] 2(4-7) by auto
    have "sync_payload fd s = Some (Inr (True, ?s2\<lparr>bulk_size := 0, pending := later, errno := e', trace := trace ?s2 @ acts'\<rparr>))"
      using sync_payload_turn [OF n rd r(6) w(1)] IH(1) by simp
    moreover have "reads_within fd n (Received fd ?sz (bytes r) # acts @ acts')"
      using reads_within_sent [OF w(3)] IH(3) r(3) 2(4) by simp
    ultimately show ?thesis using IH(2) w(2) bs False
      by (intro exI [of _ "Received fd ?sz (bytes r) # acts @ acts'"] exI [of _ e'] conjI) (cases s; simp)+
  qed
qed

text \<open>
  C37. A synchronisation is passed through unchanged: in \<open>SYNC_STATE\<close> with \<open>bulk_size\<close> bytes to go
  and both connections open, whatever reads and writes the kernel splits the payload into (no
  read brings more than was asked for) and however often they would block, \<open>readFromMaster\<close> sends
  the slave exactly the bytes it received and leaves the process in \<open>RUNNING_STATE\<close> with nothing to
  go.  No read that brings bytes has asked for more than what was then left of the payload.
\<close>

theorem sync_payload_is_passed_through:
  assumes "proxy_state s = SYNC_STATE" and "payload_rounds (bulk_size s) rounds"
    and "master_fd s \<noteq> -1" and "client_fd s \<noteq> -1" and "fd \<noteq> -1" and "pending s = round_answers rounds @ later"
  shows "\<exists>s' acts. readFromMaster beyond heap stack fd s = Some (Inr s') \<and> trace s' = trace s @ acts \<and>
           sent_to (client_fd s) acts = payload rounds \<and> reads_within fd (bulk_size s) acts \<and> pending s' = later \<and>
           proxy_state s' = RUNNING_STATE \<and> bulk_size s' = 0"
proof -
  obtain acts e where "sync_payload fd s =
      Some (Inr (True, s\<lparr>bulk_size := 0, pending := later, errno := e, trace := trace s @ acts\<rparr>))"
    "sent_to (client_fd s) acts = payload rounds" "reads_within fd (bulk_size s) acts"
    using sync_payload_ok [OF assms(2) refl assms(3-6)] by blast
  then show ?thesis
    using assms(1) by (simp add: readFromMaster_def SYNC_STATE_def SYNC_START_STATE_def)
qed

theorem sync_payload_is_passed_through_witness:
  "\<exists>s' acts. readFromMaster NUL (\<lambda>i. NUL) (\<lambda>i. NUL) 5
      (open_proxy [\<lparr>ret = 3, sets_errno = None, bytes = ''abc''\<rparr>, \<lparr>ret = 1, sets_errno = None, bytes = []\<rparr>,
                   \<lparr>ret = 2, sets_errno = None, bytes = []\<rparr>, \<lparr>ret = -1, sets_errno = Some EAGAIN, bytes = []\<rparr>,
                   \<lparr>ret = 1, sets_errno = None, bytes = ''d''\<rparr>, \<lparr>ret = 1, sets_errno = None, bytes = []\<rparr>]
        \<lparr>proxy_state := SYNC_STATE, bulk_size := 4\<rparr>) = Some (Inr s') \<and>
     trace s' = acts \<and> sent_to 8 acts = ''abcd'' \<and> proxy_state s' = RUNNING_STATE"
  using sync_payload_is_passed_through
    [of "open_proxy [\<lparr>ret = 3, sets_errno = None, bytes = ''abc''\<rparr>, \<lparr>ret = 1, sets_errno = None, bytes = []\<rparr>,
                   \<lparr>ret = 2, sets_errno = None, bytes = []\<rparr>, \<lparr>ret = -1, sets_errno = Some EAGAIN, bytes = []\<rparr>,
                   \<lparr>ret = 1, sets_errno = None, bytes = ''d''\<rparr>, \<lparr>ret = 1, sets_errno = None, bytes = []\<rparr>]
        \<lparr>proxy_state := SYNC_STATE, bulk_size := 4\<rparr>"
      "[(\<lparr>ret = 3, sets_errno = None, bytes = ''abc''\<rparr>, [\<lparr>ret = 1, sets_errno = None, bytes = []\<rparr>, \<lparr>ret = 2, sets_errno = None, bytes = []\<rparr>]),
        (\<lparr>ret = -1, sets_errno = Some EAGAIN, bytes = []\<rparr>, []),
        (\<lparr>ret = 1, sets_errno = None, bytes = ''d''\<rparr>, [\<lparr>ret = 1, sets_errno = None, bytes = []\<rparr>])]" 5 "[]"
      NUL "\<lambda>i. NUL" "\<lambda>i. NUL"]
  by (simp add: MAX_READ_def) blast

lemma sent_to_other: "\<forall>a \<in> set acts. \<exists>b. a = Sent fd b \<Longrightarrow> fd' \<noteq> fd \<Longrightarrow> sent_to fd' acts = []"
  by (induction acts) auto

text \<open>
  A chunk \<open>r\<close> of the stream arrives on \<open>fd\<close>: \<open>old\<close> was kept from the chunk before, \<open>cs\<close> are the
  commands that are now complete (\<open>missing\<close> is their end of line, when it has not arrived), \<open>part\<close>
  is the command that is cut; the kernel answers the \<open>hgetall\<close> queries with \<open>asks\<close> and the writes to
  the slave with \<open>ws\<close>.
\<close>

definition stream_chunk ::
  "proxy \<Rightarrow> int \<Rightarrow> sysret \<Rightarrow> sysret list \<Rightarrow> sysret list \<Rightarrow> sysret list \<Rightarrow> string \<Rightarrow> string \<Rightarrow> string \<Rightarrow> cmd list \<Rightarrow> string \<Rightarrow> bool" where
  "stream_chunk s fd r asks ws later old missing lead cs part \<longleftrightarrow>
     proxy_state s = RUNNING_STATE \<and>
     master_fd s \<noteq> -1 \<and>
     client_fd s \<noteq> -1 \<and>
     fd \<noteq> -1 \<and>
     client_fd s \<noteq> read_fd s \<and>
     pending s = r # asks @ ws @ later \<and>
     ret r = int (length (bytes r)) \<and>
     length (bytes r) \<noteq> 0 \<and>
     write_answers (ret r) ws \<and>
     buf_holds (buf_master_cmd s) old \<and>
     int (length old) < MAX_READ \<and>
     ret r \<le> MAX_READ \<and>
     14 < length (old @ bytes r) \<and>
     NUL \<notin> set (old @ bytes r) \<and>
     old @ bytes r @ missing = lead @ cmds_text cs @ part \<and>
     length missing \<le> 2 \<and>
     (missing \<noteq> [] \<longrightarrow> part = [] \<and> cs \<noteq> [] \<and> (\<exists>k. last cs = Del k)) \<and>
     CHR ''*'' \<notin> set lead \<and>
     (\<forall>c \<in> set cs. cmd_ok c) \<and>
     cut_del part \<and>
     int (length part) < MAX_READ \<and>
     can_ask (dels cs) [] (s\<lparr>pending := asks\<rparr>)"

lemma stream_step:
  assumes chunk: "stream_chunk s fd r asks ws later old missing lead cs part"
  shows "\<exists>qu b e acts. readFromMaster NUL heap stack fd s =
      Some (Inr (s\<lparr>que := qu, buf_master_cmd := b, pending := later, errno := e, trace := trace s @ acts\<rparr>)) \<and>
    sent_to (client_fd s) acts = bytes r \<and>
    sent_to (read_fd s) acts = concat (map (\<lambda>k. ''hgetall '' @ k @ crlf) (dels cs)) \<and>
    env_list qu = env_list (que s) @ map Some (dels cs) \<and> buf_holds b part"
proof -
  have assms: "proxy_state s = RUNNING_STATE"
    "master_fd s \<noteq> -1"
    "client_fd s \<noteq> -1"
    "fd \<noteq> -1"
    "client_fd s \<noteq> read_fd s"
    "pending s = r # asks @ ws @ later"
    "ret r = int (length (bytes r))"
    "length (bytes r) \<noteq> 0"
    "write_answers (ret r) ws"
    "buf_holds (buf_master_cmd s) old"
    "int (length old) < MAX_READ"
    "ret r \<le> MAX_READ"
    "14 < length (old @ bytes r)"
    "NUL \<notin> set (old @ bytes r)"
    "old @ bytes r @ missing = lead @ cmds_text cs @ part"
    "length missing \<le> 2"
    "missing \<noteq> [] \<longrightarrow> part = [] \<and> cs \<noteq> [] \<and> (\<exists>k. last cs = Del k)"
    "CHR ''*'' \<notin> set lead"
    "\<forall>c \<in> set cs. cmd_ok c"
    "cut_del part"
    "int (length part) < MAX_READ"
    "can_ask (dels cs) [] (s\<lparr>pending := asks\<rparr>)"
    using chunk unfolding stream_chunk_def by blast+
  let ?e = "case sets_errno r of None \<Rightarrow> errno s | Some e \<Rightarrow> e" and ?w = "wdata_of (bytes r) (ret r) stack"
  let ?s1 = "s\<lparr>pending := asks @ ws @ later, errno := ?e, trace := trace s @ [Received fd MAX_READ (bytes r)]\<rparr>"
  have pos: "0 < ret r" using assms(7,8) by simp
  note rd = readData_ok [OF assms(2,4,6) pos, of MAX_READ]
  have w: "buf_holds ?w (bytes r)" using assms(7) by (simp add: wdata_of_def buf_holds_def mem_of_def)
  have old: "buf_holds (buf_master_cmd ?s1) old" using assms(10) by simp
  have can: "can_ask (dels cs) (ws @ later) ?s1" using assms(22) by (auto simp: can_ask_def)
  have c: "int (length (bytes r)) \<le> MAX_READ" using assms(7,12) by simp
  obtain qu e acts b where pib: "processInputBuffer NUL heap ?w ?s1 =
      Some (Inr (?s1\<lparr>que := qu, pending := ws @ later, errno := e, trace := trace ?s1 @ acts, buf_master_cmd := b\<rparr>))"
    "env_list qu = env_list (que ?s1) @ map Some (dels cs)"
    "sent_to (read_fd ?s1) acts = concat (map (\<lambda>k. ''hgetall '' @ k @ crlf) (dels cs))"
    "\<forall>a \<in> set acts. \<exists>b. a = Sent (read_fd ?s1) b" "buf_holds b part"
    using input_buffer_step [OF old assms(11) w c assms(13-21) can, of heap] by blast
  let ?s2 = "?s1\<lparr>que := qu, pending := ws @ later, errno := e, trace := trace ?s1 @ acts, buf_master_cmd := b\<rparr>"
  obtain acts' e' where wr: "writeData (client_fd ?s2) (data ?w) (ret r) ?s2 =
      Inr (ret r, ?s2\<lparr>pending := later, errno := e', trace := trace ?s2 @ acts'\<rparr>)"
    "sent_to (client_fd ?s2) acts' = bytes_at (data ?w) 0 (ret r)" "\<forall>a \<in> set acts'. \<exists>b. a = Sent (client_fd ?s2) b"
    using writeData_ok [of ?s2 "client_fd ?s2" "ret r" ws later "data ?w"] assms(2,3,9,12) pos
    by (auto simp: MAX_READ_def)
  have sent: "bytes_at (data ?w) 0 (ret r) = bytes r"
    using bytes_at_holds [OF w] by (simp add: wdata_of_def)
  have none: "sent_to (client_fd s) acts = []" "sent_to (read_fd s) acts' = []"
    using sent_to_other [OF pib(4)] sent_to_other [OF wr(3)] assms(5) by simp_all
  have "readFromMaster NUL heap stack fd s =
      Some (Inr (?s2\<lparr>pending := later, errno := e', trace := trace ?s2 @ acts'\<rparr>))"
    unfolding readFromMaster_def rd using assms(1) pib(1) wr(1) pos
    by (simp add: RUNNING_STATE_def SYNC_STATE_def SYNC_START_STATE_def Let_def) (simp add: wdata_of_def)
  then show ?thesis
    using pib(2,3,5) wr(2) sent none
    by (intro exI [of _ qu] exI [of _ b] exI [of _ e'] exI [of _ "Received fd MAX_READ (bytes r) # acts @ acts'"]) simp
qed

text \<open>
  The replication stream is passed through unchanged while its deletions are captured: in
  \<open>RUNNING_STATE\<close>, on a chunk of commands cut as \<open>processInputBuffer\<close> allows, \<open>readFromMaster\<close>
  sends the slave exactly the bytes it received, sends the query connection exactly one
  \<open>hgetall\<close> per deleted key, and queues these keys in order.
\<close>

theorem stream_passed_through_and_captured:
  assumes "proxy_state s = RUNNING_STATE" and "master_fd s \<noteq> -1" and "client_fd s \<noteq> -1" and "fd \<noteq> -1"
    and "client_fd s \<noteq> read_fd s" and "pending s = r # asks @ ws @ later" and "ret r = int (length (bytes r))"
    and "length (bytes r) \<noteq> 0" and "write_answers (ret r) ws"
    and "buf_holds (buf_master_cmd s) old" and "int (length old) < MAX_READ" and "ret r \<le> MAX_READ"
    and "14 < length (old @ bytes r)" and "NUL \<notin> set (old @ bytes r)"
    and "old @ bytes r @ missing = lead @ cmds_text cs @ part"
    and "length missing \<le> 2" and "missing \<noteq> [] \<longrightarrow> part = [] \<and> cs \<noteq> [] \<and> (\<exists>k. last cs = Del k)"
    and "CHR ''*'' \<notin> set lead" and "\<forall>c \<in> set cs. cmd_ok c" and "cut_del part" and "int (length part) < MAX_READ"
    and "can_ask (dels cs) [] (s\<lparr>pending := asks\<rparr>)"
  shows "\<exists>s' acts. readFromMaster NUL heap stack fd s = Some (Inr s') \<and> trace s' = trace s @ acts \<and>
           sent_to (client_fd s) acts = bytes r \<and>
           sent_to (read_fd s) acts = concat (map (\<lambda>k. ''hgetall '' @ k @ crlf) (dels cs)) \<and>
           env_list (que s') = env_list (que s) @ map Some (dels cs) \<and> buf_holds (buf_master_cmd s') part \<and>
           pending s' = later"
proof -
  have "stream_chunk s fd r asks ws later old missing lead cs part" unfolding stream_chunk_def using assms by blast
  from stream_step [OF this, of heap stack] show ?thesis by force
qed

definition del_chunk :: string where
  "del_chunk = ping @ cmd_text (Del ''key'')"

lemma del_chunk: "NUL \<notin> set del_chunk" "length del_chunk = 36"
  by (simp_all add: del_chunk_def ping_def del_text cmp1_def crlf_def NUL_def dec.simps char_of_def bit_iff_odd)

theorem stream_passed_through_and_captured_witness:
  "\<exists>s' acts. readFromMaster NUL (\<lambda>i. NUL) (\<lambda>i. NUL) 5
      (open_proxy [\<lparr>ret = 36, sets_errno = None, bytes = del_chunk\<rparr>, \<lparr>ret = 13, sets_errno = None, bytes = []\<rparr>,
                   \<lparr>ret = 36, sets_errno = None, bytes = []\<rparr>]\<lparr>buf_master_cmd := buf_of []\<rparr>) = Some (Inr s') \<and>
     trace s' = acts \<and> sent_to 8 acts = del_chunk \<and> sent_to 9 acts = ''hgetall key'' @ crlf \<and>
     env_list (que s') = [Some ''key'']"
proof -
  let ?r = "\<lparr>ret = 36, sets_errno = None, bytes = del_chunk\<rparr>"
  let ?asks = "[\<lparr>ret = 13, sets_errno = None, bytes = []\<rparr>]" and ?ws = "[\<lparr>ret = 36, sets_errno = None, bytes = []\<rparr>]"
  let ?s = "open_proxy (?r # ?asks @ ?ws)\<lparr>buf_master_cmd := buf_of []\<rparr>"
  have "env_wf (que ?s)" "env_list (que ?s) = []" by (simp_all add: init_env)
  then have can: "can_ask (dels [Other ping, Del ''key'']) [] (?s\<lparr>pending := ?asks\<rparr>)"
    by (simp add: can_ask_def queue_cap_def QUE_SIZE_def) (intro exI [of _ "[?asks]"], simp)
  have key: "NUL \<notin> set ''key''" by (simp add: NUL_def)
  have whole: "[] @ bytes ?r @ [] = [] @ cmds_text [Other ping, Del ''key''] @ []" by (simp add: del_chunk_def)
  show ?thesis
    using stream_passed_through_and_captured [of ?s 5 ?r ?asks ?ws "[]" "[]" "[]" "[]" "[Other ping, Del ''key'']" "[]"
        "\<lambda>i. NUL" "\<lambda>i. NUL"] can key del_chunk ping_ok whole
    by (simp add: cut_del_def MAX_READ_def init_env) blast
qed

subsection \<open>Connections\<close>

text \<open>
  \<open>closeFd\<close> on a loop whose kernel side has already forgotten \<open>client_fd\<close> is \<open>closeFd\<close> on the sound
  loop: unregistering ignores the refusal of the kernel.
\<close>

lemma delete_after_close:
  assumes "0 \<le> fd" "fd < setsize l"
  shows "\<exists>x y. aeDeleteFileEvent (epoll_close fd l) fd m = Inr x \<and> aeDeleteFileEvent l fd m = Inr y \<and>
    epoll_close fd x = epoll_close fd y"
proof -
  have "events (epoll_close fd l) = events l" "setsize (epoll_close fd l) = setsize l" "maxfd (epoll_close fd l) = maxfd l"
    by (simp_all add: epoll_close_def)
  then show ?thesis
    using assms
    by (cases l) (auto simp: aeDeleteFileEvent_def aeApiDelEvent_def epoll_ctl_def epoll_close_def Let_def fun_eq_iff)
qed

lemma delete_timer_after_close:
  "aeDeleteTimeEvent (epoll_close fd l) i =
   (case aeDeleteTimeEvent l i of (st, f, l') \<Rightarrow> (st, f, epoll_close fd l'))"
  by (cases l) (simp add: aeDeleteTimeEvent_def epoll_close_def split: option.split)

lemma closeFd_stale:
  assumes "0 \<le> fd" "fd < setsize l" "client_fd s = fd"
  shows "closeFd (s\<lparr>loop := epoll_close fd l\<rparr>) = closeFd (s\<lparr>loop := l\<rparr>)"
proof -
  obtain st f l' where del: "aeDeleteTimeEvent l (time_event_id s) = (st, f, l')"
    by (cases "aeDeleteTimeEvent l (time_event_id s)") auto
  have sz: "fd < setsize l'" using del assms(2) by (auto simp: aeDeleteTimeEvent_def split: option.splits)
  obtain x y where xy: "aeDeleteFileEvent (epoll_close fd l') fd AE_READABLE = Inr x"
    "aeDeleteFileEvent l' fd AE_READABLE = Inr y" "epoll_close fd x = epoll_close fd y"
    using delete_after_close [OF assms(1) sz] by blast
  have "drop_fd client_fd (\<lambda>s. s\<lparr>client_fd := -1\<rparr>) (s\<lparr>loop := epoll_close fd l'\<rparr>) =
      drop_fd client_fd (\<lambda>s. s\<lparr>client_fd := -1\<rparr>) (s\<lparr>loop := l'\<rparr>)"
    using xy assms by (simp add: drop_fd_def unregister_def close_fd_def emit_def)
  then show ?thesis by (simp add: closeFd_def del delete_timer_after_close)
qed

text \<open>
  C38. A slave that reconnects brings the whole proxy down to its start state: \<open>acceptTcpHandler\<close>
  closes the old \<open>client_fd\<close> without \<open>aeDeleteFileEvent\<close>, so when the kernel gives the new
  connection the number it has just freed, its registration fails and \<open>closeFd\<close> drops the
  connections to the master and the slave and the listening socket, empties both buffers and
  forgets all outstanding keys.
\<close>

theorem slave_reconnect_drops_everything:
  assumes "proxy_wf s" and "master_fd s \<noteq> -1" and "client_fd s \<noteq> -1"
    and "fd_mask (loop s) (client_fd s) = AE_READABLE"
    and "pending s = acc # ctl # now # later" and "ret acc = client_fd s" and "ret ctl = 0"
  shows "\<exists>s'. acceptTcpHandler fd s = Inr s' \<and> master_fd s' = -1 \<and> client_fd s' = -1 \<and> read_fd s' = -1 \<and>
           listen_fd s' = -1 \<and> proxy_state s' = START_STATE \<and> env_list (que s') = [] \<and>
           len (buf_master_cmd s') = 0 \<and> len (buf_slave_answer s') = 0"
proof -
  have wf: "el_wf (loop s)" "setsize (loop s) = 1024" "fd_ok (client_fd s)"
    using assms(1) by (auto simp: proxy_wf_def loop_ok_def)
  then have fd: "0 \<le> client_fd s" "client_fd s < setsize (loop s)" using assms(3) by (auto simp: fd_ok_def)
  let ?l = "epoll_close (client_fd s) (loop s)"
  have mask: "mask (events ?l ! nat (client_fd s)) = AE_READABLE"
    using assms(4) fd by (simp add: fd_mask_def epoll_close_def)
  have "aeApiAddEvent True ?l (client_fd s) AE_READABLE = (-1, ?l)"
    using mask by (simp add: aeApiAddEvent_def epoll_ctl_def Let_def AE_READABLE_def AE_NONE_def)
      (simp add: epoll_close_def)
  then have add: "aeCreateFileEvent True ?l (client_fd s) AE_READABLE ReadFromSlave 0 = Inr (AE_ERR, ?l)"
    using fd by (simp add: aeCreateFileEvent_def epoll_close_def)
  define s1 where "s1 = close_fd (client_fd s) s"
  have s1: "pending s1 = pending s" "loop s1 = ?l" "client_fd s1 = client_fd s" "errno s1 = errno s"
    by (simp_all add: s1_def close_fd_def emit_def)
  define s2 where "s2 = s1\<lparr>pending := ctl # now # later, errno := (case sets_errno acc of None \<Rightarrow> errno s1 | Some e \<Rightarrow> e), client_fd := client_fd s\<rparr>"
  define s3 where "s3 = s2\<lparr>pending := now # later, errno := (case sets_errno ctl of None \<Rightarrow> errno s2 | Some e \<Rightarrow> e)\<rparr>"
  have s3: "loop s3 = ?l" "client_fd s3 = client_fd s" "pending s3 = now # later" by (simp_all add: s3_def s2_def s1)
  have acc: "syscall s1 = Inr (acc, s2)"
    using s1(3) by (simp add: syscall_def s1(1,4) assms(5) s2_def)
  have same: "s3\<lparr>loop := ?l\<rparr> = s3" using s3(1) by (cases s3) simp
  have "client_fd s < setsize (loop s2)" using fd(2) by (simp add: s2_def s1 epoll_close_def)
  moreover have "pending s2 = ctl # now # later" by (simp add: s2_def)
  then have "syscall s2 = Inr (ctl, s3)" by (simp add: syscall_def s3_def)
  ultimately have reg: "register (client_fd s) ReadFromSlave s2 = Inr (AE_ERR, s3)"
    using add assms(7) by (simp add: register_def andThen_def s3(1) same)
  have s2c: "s2\<lparr>client_fd := client_fd s\<rparr> = s2" by (simp add: s2_def)
  have "acceptTcpHandler fd s = closeFd s3"
    using assms(2,3,6) reg acc by (simp add: acceptTcpHandler_def readDataFromSlave_def Let_def andThen_def s2c flip: s1_def)
  also have "\<dots> = closeFd (s3\<lparr>loop := ?l\<rparr>)" by (simp add: same)
  also have "\<dots> = closeFd (s3\<lparr>loop := loop s\<rparr>)" by (rule closeFd_stale) (simp_all add: fd s3)
  finally have eq: "acceptTcpHandler fd s = closeFd (s3\<lparr>loop := loop s\<rparr>)" .
  have "proxy_wf (s3\<lparr>loop := loop s\<rparr>)"
    using assms(1) by (simp add: proxy_wf_def s3_def s2_def s1_def close_fd_def emit_def)
  from closeFd_resets [OF this, of now later "client_fd s"] show ?thesis by (auto simp: eq s3)
qed

lemma registered_loop: "\<exists>l. loop_ok l \<and> fd_mask l 8 = AE_READABLE"
proof -
  define l0 :: "proc aeEventLoop" where "l0 = fresh_loop"
  have l0: "el_wf l0" "setsize l0 = 1024" "loop_ok l0"
    using fresh_loop_wf fresh_loop_setsize fresh_loop_loop_ok by (simp_all add: l0_def)
  have none: "fd_mask l0 fd = AE_NONE" for fd
    using aeCreateEventLoop_wf [OF fresh_loop_ok [where ?'a = proc]] by (simp add: l0_def)
  obtain fe where fe: "mask fe = AE_NONE OR AE_READABLE"
    "aeCreateFileEvent True l0 8 AE_READABLE ReadFromMaster 0 =
       Inr (AE_OK, (set_event 8 fe l0)\<lparr>maxfd := max (maxfd l0) 8\<rparr>)"
    using aeCreateFileEvent_ok [OF l0(1), of 8 AE_READABLE ReadFromMaster 0]
    by (auto simp: l0(2) none AE_READABLE_def)
  let ?l = "(set_event 8 fe l0)\<lparr>maxfd := max (maxfd l0) 8\<rparr>"
  have "el_wf ?l"
    by (rule el_wf_add [OF l0(1)]) (simp_all add: l0(2) fe AE_READABLE_def AE_NONE_def)
  moreover have "fd_mask ?l fd = (if fd = 8 then AE_READABLE else AE_NONE)" for fd
    using fd_mask_set_event [OF l0(1), of 8 fe fd] by (simp add: l0(2) fe none AE_NONE_def)
  moreover have "timers_wf ?l" "setsize ?l = 1024"
    using l0 by (simp_all add: loop_ok_def timers_wf_def set_event_def)
  ultimately have "loop_ok ?l \<and> fd_mask ?l 8 = AE_READABLE" by (simp add: loop_ok_def del: fd_mask_maxfd)
  then show ?thesis by blast
qed

theorem slave_reconnect_drops_everything_witness:
  "\<exists>l s'. fd_mask l 8 = AE_READABLE \<and>
     acceptTcpHandler 6 (open_proxy [\<lparr>ret = 8, sets_errno = None, bytes = []\<rparr>, \<lparr>ret = 0, sets_errno = None, bytes = []\<rparr>,
        \<lparr>ret = 100, sets_errno = None, bytes = []\<rparr>]\<lparr>loop := l\<rparr>) = Inr s' \<and> master_fd s' = -1 \<and> proxy_state s' = START_STATE"
proof -
  obtain l where l: "loop_ok l" "fd_mask l 8 = AE_READABLE" using registered_loop by blast
  let ?s = "open_proxy [\<lparr>ret = 8, sets_errno = None, bytes = []\<rparr>, \<lparr>ret = 0, sets_errno = None, bytes = []\<rparr>,
        \<lparr>ret = 100, sets_errno = None, bytes = []\<rparr>]\<lparr>loop := l\<rparr>"
  have "proxy_wf ?s" using l(1) by (simp add: proxy_wf_def init_env fd_ok_def)
  then show ?thesis
    using slave_reconnect_drops_everything [of ?s "\<lparr>ret = 8, sets_errno = None, bytes = []\<rparr>" "\<lparr>ret = 0, sets_errno = None, bytes = []\<rparr>"
        "\<lparr>ret = 100, sets_errno = None, bytes = []\<rparr>" "[]" 6] l(2) by auto
qed

subsection \<open>The timer\<close>

text \<open>What a successful registration leaves behind.\<close>

lemma register_ok:
  assumes ok: "loop_ok (loop s)" and fd: "0 \<le> fd" "fd < 1024" and rs: "pending s = r # rs" "ret r \<noteq> -1"
  shows "\<exists>l e. register fd p s = Inr (AE_OK, s\<lparr>pending := rs, errno := e, loop := l\<rparr>) \<and> loop_ok l \<and>
    (\<forall>fd'. fd_mask l fd' = (if fd' = fd then AE_READABLE else fd_mask (loop s) fd'))"
proof -
  have wf: "el_wf (loop s)" "setsize (loop s) = 1024" "timers_wf (loop s)"
    using ok by (simp_all add: loop_ok_def)
  obtain fe where fe: "mask fe = fd_mask (loop s) fd OR AE_READABLE"
    "aeCreateFileEvent True (loop s) fd AE_READABLE p 0 =
       Inr (AE_OK, (set_event fd fe (loop s))\<lparr>maxfd := max (maxfd (loop s)) fd\<rparr>)"
    using aeCreateFileEvent_ok [OF wf(1) fd(1), of AE_READABLE p 0] fd(2)
    by (auto simp: wf(2) AE_READABLE_def)
  let ?l = "(set_event fd fe (loop s))\<lparr>maxfd := max (maxfd (loop s)) fd\<rparr>"
  have masks: "fd_mask (loop s) fd' = AE_NONE \<or> fd_mask (loop s) fd' = AE_READABLE" for fd'
    using ok by (simp add: loop_ok_def)
  have fe1: "mask fe = AE_READABLE" using masks [of fd] by (auto simp: fe(1) AE_READABLE_def AE_NONE_def)
  then have m: "mask fe \<in> {0..3}" "mask fe \<noteq> AE_NONE" by (simp_all add: AE_READABLE_def AE_NONE_def)
  have "el_wf ?l" using el_wf_add [OF wf(1) fd(1) _ m] fd(2) by (simp add: wf(2))
  moreover have lm: "fd_mask ?l fd' = (if fd' = fd then AE_READABLE else fd_mask (loop s) fd')" for fd'
    using fd_mask_set_event [OF wf(1) fd(1), of fe fd'] fd(2) by (simp add: wf(2) fe1)
  moreover have "timers_wf ?l" "setsize ?l = 1024"
    using wf by (simp_all add: timers_wf_def set_event_def)
  ultimately have "loop_ok ?l" using masks by (simp add: loop_ok_def del: fd_mask_maxfd)
  moreover have "\<exists>e. register fd p s = Inr (AE_OK, s\<lparr>pending := rs, errno := e, loop := ?l\<rparr>)"
    using fd rs by (intro exI [of _ "case sets_errno r of None \<Rightarrow> errno s | Some e \<Rightarrow> e"])
      (simp add: register_def syscall_def andThen_def wf(2) fe(2))
  ultimately show ?thesis using lm by blast
qed

text \<open>
  The answers of the four system calls that reconnect the proxy: the connection and its
  registration, the listening socket and its registration.
\<close>

definition reconnect_answers :: "sysret list \<Rightarrow> bool" where
  "reconnect_answers rs \<longleftrightarrow>
     (case rs of
        fd # ctl # lfd # lctl # later \<Rightarrow>
          0 \<le> ret fd \<and> ret fd < 1024 \<and> ret ctl = 0 \<and> 0 \<le> ret lfd \<and> ret lfd < 1024 \<and> ret lctl = 0
      | _ \<Rightarrow> False)"

text \<open>The first half of a connection that comes about: the loop watches it, and \<open>listenToPort\<close> is next.\<close>

lemma connect_opens:
  assumes ok: "loop_ok (loop s)" and p: "pending s = a # b # rs" and r: "0 \<le> ret a" "ret a < 1024" "ret b \<noteq> -1"
  shows "\<exists>l e. connectToMaster s =
      andThen (listenToPort (s\<lparr>errno := e, pending := rs, master_fd := ret a, loop := l\<rparr>))
        (\<lambda>(r, s). if r = -1 then Inl Exit else Inr (1, s)) \<and>
    loop_ok l \<and> (\<forall>fd. fd_mask l fd = (if fd = ret a then AE_READABLE else fd_mask (loop s) fd))"
proof -
  define s1 where "s1 = s\<lparr>errno := (case sets_errno a of None \<Rightarrow> 0 | Some e \<Rightarrow> e), pending := b # rs, master_fd := ret a\<rparr>"
  obtain l e where l: "register (ret a) ReadFromMaster s1 = Inr (AE_OK, s1\<lparr>pending := rs, errno := e, loop := l\<rparr>)"
    "loop_ok l" "\<And>fd'. fd_mask l fd' = (if fd' = ret a then AE_READABLE else fd_mask (loop s) fd')"
    using register_ok [of s1 "ret a" b rs ReadFromMaster] ok r by (auto simp: s1_def)
  have "syscall (s\<lparr>errno := 0\<rparr>) = Inr (a, s1\<lparr>master_fd := master_fd s\<rparr>)"
    by (simp add: syscall_def p s1_def split: option.split)
  moreover have s1c: "master_fd s1 = ret a" "s1\<lparr>master_fd := ret a\<rparr> = s1" by (simp_all add: s1_def)
  moreover have "s1\<lparr>pending := rs, errno := e, loop := l\<rparr> = s\<lparr>errno := e, pending := rs, master_fd := ret a, loop := l\<rparr>"
    by (simp add: s1_def)
  ultimately have "connectToMaster s = andThen (listenToPort (s\<lparr>errno := e, pending := rs, master_fd := ret a, loop := l\<rparr>))
      (\<lambda>(r, s). if r = -1 then Inl Exit else Inr (1, s))"
    using r l(1) by (simp add: s1c connectToMaster_def andThen_def Let_def AE_OK_def AE_ERR_def)
  then show ?thesis using l(2,3) by blast
qed

lemma listenToPort_ok:
  assumes ok: "loop_ok (loop s)" and p: "pending s = c # d # rs" and r: "0 \<le> ret c" "ret c < 1024" "ret d \<noteq> -1"
  shows "\<exists>l e. listenToPort s = Inr (1, s\<lparr>errno := e, pending := rs, listen_fd := ret c, loop := l\<rparr>) \<and> loop_ok l \<and>
    (\<forall>fd. fd_mask l fd = (if fd = ret c then AE_READABLE else fd_mask (loop s) fd))"
proof -
  define s1 where "s1 = s\<lparr>errno := (case sets_errno c of None \<Rightarrow> errno s | Some e \<Rightarrow> e), pending := d # rs, listen_fd := ret c\<rparr>"
  obtain l e where l: "register (ret c) AcceptTcpHandler s1 = Inr (AE_OK, s1\<lparr>pending := rs, errno := e, loop := l\<rparr>)"
    "loop_ok l" "\<And>fd'. fd_mask l fd' = (if fd' = ret c then AE_READABLE else fd_mask (loop s) fd')"
    using register_ok [of s1 "ret c" d rs AcceptTcpHandler] ok r by (auto simp: s1_def)
  have "syscall s = Inr (c, s1\<lparr>listen_fd := listen_fd s\<rparr>)" by (simp add: syscall_def p s1_def)
  moreover have s1c: "listen_fd s1 = ret c" "s1\<lparr>listen_fd := ret c\<rparr> = s1" by (simp_all add: s1_def)
  moreover have "s1\<lparr>pending := rs, errno := e, loop := l\<rparr> = s\<lparr>errno := e, pending := rs, listen_fd := ret c, loop := l\<rparr>"
    by (simp add: s1_def)
  ultimately have "listenToPort s = Inr (1, s\<lparr>errno := e, pending := rs, listen_fd := ret c, loop := l\<rparr>)"
    using r l(1) by (simp add: s1c listenToPort_def andThen_def Let_def AE_OK_def AE_ERR_def)
  then show ?thesis using l(2,3) by blast
qed

text \<open>
  The answers on which \<open>listenToPort\<close> fails: no socket, a number the loop has no room for, or one
  that \<open>epoll_ctl\<close> refuses.
\<close>

definition listen_fails :: "sysret list \<Rightarrow> bool" where
  "listen_fails rs \<longleftrightarrow>
     (case rs of
        [] \<Rightarrow> False
      | c # rs \<Rightarrow> ret c = -1 \<or> 1024 \<le> ret c \<or> (0 \<le> ret c \<and> (case rs of [] \<Rightarrow> False | d # _ \<Rightarrow> ret d = -1)))"

lemma listenToPort_fails:
  assumes "loop_ok (loop s)" and "listen_fails (pending s)"
  shows "\<exists>s'. listenToPort s = Inr (-1, s')"
proof -
  obtain c rs where p: "pending s = c # rs"
    and f: "ret c = -1 \<or> 1024 \<le> ret c \<or> (0 \<le> ret c \<and> (\<exists>d ds. rs = d # ds \<and> ret d = -1))"
    using assms(2) by (auto simp: listen_fails_def split: list.splits)
  have sz: "setsize (loop s) = 1024" using assms(1) by (simp add: loop_ok_def)
  consider (none) "ret c = -1" | (room) "1024 \<le> ret c" | (ctl) d ds where "0 \<le> ret c" "ret c < 1024" "rs = d # ds" "ret d = -1"
    using f by force
  then show ?thesis
  proof cases
    case none
    then show ?thesis by (simp add: listenToPort_def syscall_def p)
  next
    case room
    then show ?thesis by (simp add: listenToPort_def syscall_def p register_def sz)
  next
    case ctl
    have "aeCreateFileEvent False (loop s) (ret c) AE_READABLE AcceptTcpHandler 0 = Inr (AE_ERR, loop s)"
      using ctl(1,2) by (simp add: sz aeCreateFileEvent_def aeApiAddEvent_def epoll_ctl_def Let_def split: ctl_op.split)
    then show ?thesis using ctl by (simp add: listenToPort_def syscall_def p register_def sz)
  qed
qed

lemma connectToMaster_ok:
  assumes ok: "loop_ok (loop s)" and rs: "reconnect_answers (pending s)"
  shows "\<exists>s'. connectToMaster s = Inr (1, s') \<and> master_fd s' = ret (pending s ! 0) \<and>
    listen_fd s' = ret (pending s ! 2) \<and> loop_ok (loop s') \<and>
    fd_mask (loop s') (master_fd s') = AE_READABLE \<and>
    fd_mask (loop s') (listen_fd s') = AE_READABLE \<and>
    proxy_state s' = proxy_state s \<and> que s' = que s \<and> trace s' = trace s \<and> pending s' = drop 4 (pending s) \<and> cronloops s' = cronloops s"
proof -
  obtain a b c d later where p: "pending s = a # b # c # d # later"
    using rs by (auto simp: reconnect_answers_def split: list.splits)
  have r: "0 \<le> ret a" "ret a < 1024" "ret b \<noteq> -1" "0 \<le> ret c" "ret c < 1024" "ret d \<noteq> -1"
    using rs by (simp_all add: p reconnect_answers_def)
  obtain l e where 1: "connectToMaster s =
      andThen (listenToPort (s\<lparr>errno := e, pending := c # d # later, master_fd := ret a, loop := l\<rparr>))
        (\<lambda>(r, s). if r = -1 then Inl Exit else Inr (1, s))" "loop_ok l"
    "\<forall>fd. fd_mask l fd = (if fd = ret a then AE_READABLE else fd_mask (loop s) fd)"
    using connect_opens [OF ok p r(1-3)] by blast
  let ?s1 = "s\<lparr>errno := e, pending := c # d # later, master_fd := ret a, loop := l\<rparr>"
  obtain l' e' where 2: "listenToPort ?s1 = Inr (1, ?s1\<lparr>errno := e', pending := later, listen_fd := ret c, loop := l'\<rparr>)" "loop_ok l'"
    "\<forall>fd. fd_mask l' fd = (if fd = ret c then AE_READABLE else fd_mask l fd)"
    using listenToPort_ok [of ?s1 c d later] 1(2) r(4-6) by auto
  show ?thesis using 1(1,3) 2 by (simp add: p)
qed

text \<open>
  C39. The proxy's heart beat: while the master is connected, and in nine calls of ten, \<open>timeEvent\<close>
  only counts the call.  In the tenth, with the master disconnected, it depends on the answers of
  the system calls: when the connection, the listening socket and both registrations succeed, both
  are watched for input afterwards; when the master refuses, nothing but the count changes; when the
  master is connected and the listening socket fails, the process exits.  (A connection that
  cannot be watched is the subject of \<open>ProxyFaults\<close>.)  Whenever \<open>timeEvent\<close> returns it asks to be
  called again in 100 milliseconds.
\<close>

theorem timer_reconnects_once_a_second:
  assumes "loop_ok (loop s)"
  shows "if master_fd s \<noteq> -1 \<or> cronloops s mod 10 \<noteq> 0 then timeEvent s = Inr (100, s\<lparr>cronloops := cronloops s + 1\<rparr>)
    else
      (reconnect_answers (pending s) \<longrightarrow>
         (\<exists>s'. timeEvent s = Inr (100, s') \<and> cronloops s' = cronloops s + 1 \<and> loop_ok (loop s') \<and>
            master_fd s' = ret (pending s ! 0) \<and> listen_fd s' = ret (pending s ! 2) \<and>
            fd_mask (loop s') (master_fd s') = AE_READABLE \<and> fd_mask (loop s') (listen_fd s') = AE_READABLE)) \<and>
      (\<forall>a later. pending s = a # later \<and> ret a = -1 \<longrightarrow>
         (\<exists>e. timeEvent s = Inr (100, s\<lparr>cronloops := cronloops s + 1, pending := later, errno := e\<rparr>))) \<and>
      (\<forall>a ctl later. pending s = a # ctl # later \<and> ret a \<in> {0..<1024} \<and> ret ctl \<noteq> -1 \<and> listen_fails later \<longrightarrow>
         timeEvent s = Inl Exit) \<and>
      (\<forall>n s'. timeEvent s = Inr (n, s') \<longrightarrow> n = 100)"
proof (cases "master_fd s \<noteq> -1 \<or> cronloops s mod 10 \<noteq> 0")
  case True
  then show ?thesis by (auto simp: timeEvent_def andThen_def)
next
  case False
  have te: "timeEvent s = andThen (connectToMaster s) (\<lambda>(r, s). Inr (100, s\<lparr>cronloops := cronloops s + 1\<rparr>))"
    using False by (simp add: timeEvent_def andThen_def split: sum.split prod.split)
  have "\<exists>s'. timeEvent s = Inr (100, s') \<and> cronloops s' = cronloops s + 1 \<and> loop_ok (loop s') \<and>
      master_fd s' = ret (pending s ! 0) \<and> listen_fd s' = ret (pending s ! 2) \<and>
      fd_mask (loop s') (master_fd s') = AE_READABLE \<and> fd_mask (loop s') (listen_fd s') = AE_READABLE"
    if rs: "reconnect_answers (pending s)"
    using connectToMaster_ok [OF assms rs] te by auto
  moreover have "\<exists>e. timeEvent s = Inr (100, s\<lparr>cronloops := cronloops s + 1, pending := later, errno := e\<rparr>)"
    if "pending s = a # later \<and> ret a = -1" for a later
    using that False unfolding te by (cases s) (auto simp: connectToMaster_def syscall_def)
  moreover have "timeEvent s = Inl Exit"
    if r: "pending s = a # ctl # later \<and> ret a \<in> {0..<1024} \<and> ret ctl \<noteq> -1 \<and> listen_fails later" for a ctl later
  proof -
    obtain l e where 1: "connectToMaster s =
        andThen (listenToPort (s\<lparr>errno := e, pending := later, master_fd := ret a, loop := l\<rparr>))
          (\<lambda>(r, s). if r = -1 then Inl Exit else Inr (1, s))" "loop_ok l"
      using connect_opens [OF assms, of a ctl later] r by auto
    then show ?thesis
      using listenToPort_fails [of "s\<lparr>errno := e, pending := later, master_fd := ret a, loop := l\<rparr>"] r by (auto simp: te)
  qed
  moreover have "n = 100" if "timeEvent s = Inr (n, s')" for n s'
    using that unfolding te by (auto simp: andThen_Inr_iff)
  ultimately show ?thesis unfolding if_not_P [OF False] by (intro conjI allI impI)
qed

definition two_connections :: "sysret list" where
  "two_connections =
     [\<lparr>ret = 7, sets_errno = None, bytes = []\<rparr>, \<lparr>ret = 0, sets_errno = None, bytes = []\<rparr>,
      \<lparr>ret = 8, sets_errno = None, bytes = []\<rparr>, \<lparr>ret = 0, sets_errno = None, bytes = []\<rparr>]"

theorem timer_reconnects_once_a_second_witness:
  "(\<exists>s'. timeEvent (open_proxy two_connections\<lparr>master_fd := -1, cronloops := 0\<rparr>) = Inr (100, s') \<and> master_fd s' = 7 \<and> listen_fd s' = 8) \<and>
   timeEvent (open_proxy (take 2 two_connections @ [\<lparr>ret = -1, sets_errno = Some 98, bytes = []\<rparr>])\<lparr>master_fd := -1, cronloops := 0\<rparr>) = Inl Exit"
  using timer_reconnects_once_a_second [of "open_proxy two_connections\<lparr>master_fd := -1, cronloops := 0\<rparr>"]
    timer_reconnects_once_a_second
      [of "open_proxy (take 2 two_connections @ [\<lparr>ret = -1, sets_errno = Some 98, bytes = []\<rparr>])\<lparr>master_fd := -1, cronloops := 0\<rparr>"]
  by (auto simp: fresh_loop_loop_ok two_connections_def reconnect_answers_def listen_fails_def)

end
