(* ===== verification/AeLoop.thy ===== *)
theory AeLoop
  imports Ae
begin

text \<open>
  The running event loop (\<^verbatim>\<open>proxy/ae.c\<close>): \<open>processTimeEvents\<close>, \<open>aeProcessEvents\<close>, \<open>aeWait\<close> and
  \<open>aeMain\<close>.  The handlers and the kernel are the fields of a record: what a handler does to the
  whole state of the program (of which the loop is a part), what the clock shows, and which
  descriptors \<open>epoll_wait\<close> reports.  A loop that does not end is \<open>None\<close>.
\<close>

subsection \<open>The world around the loop\<close>

record ('h, 's) world =
  get_loop :: "'s \<Rightarrow> 'h aeEventLoop"
  put_loop :: "'h aeEventLoop \<Rightarrow> 's \<Rightarrow> 's"
  clock :: "'s \<Rightarrow> int \<times> 's"
  epoll_wait :: "int \<Rightarrow> 's \<Rightarrow> (int \<times> int) list \<times> 's"
  run_timer :: "'h \<Rightarrow> int \<Rightarrow> 's \<Rightarrow> (int \<times> 's) outcome"
  run_file :: "'h \<Rightarrow> int \<Rightarrow> nat \<Rightarrow> int \<Rightarrow> 's \<Rightarrow> 's outcome"
  run_final :: "'h \<Rightarrow> 's \<Rightarrow> 's outcome"
  run_before :: "'h \<Rightarrow> 's \<Rightarrow> 's outcome"

definition upd_loop :: "('h, 's) world \<Rightarrow> ('h aeEventLoop \<Rightarrow> 'h aeEventLoop) \<Rightarrow> 's \<Rightarrow> 's" where
  "upd_loop w f s = put_loop w (f (get_loop w s)) s"

subsection \<open>Timers\<close>

text \<open>
  A set back clock makes every event due.
\<close>

definition fix_clock_skew :: "int \<Rightarrow> 'h aeEventLoop \<Rightarrow> 'h aeEventLoop" where
  "fix_clock_skew now el =
     (let el = (if now < lastTime el then el\<lparr>timeEventHead := map (\<lambda>te. te\<lparr>when_sec := 0\<rparr>) (timeEventHead el)\<rparr> else el)
      in el\<lparr>lastTime := now\<rparr>)"

definition timer_due :: "int \<Rightarrow> 'h aeTimeEvent \<Rightarrow> bool" where
  "timer_due now te =
     (let (now_sec, now_ms) = aeGetTime now
      in now_sec > when_sec te \<or> (now_sec = when_sec te \<and> now_ms \<ge> when_ms te))"

text \<open>
  After the handler ran, \<open>te\<close> still points to the event it was called for.  When the handler
  deleted that event, the block is freed and the write to it is \<open>Undefined\<close>; the events of the
  list are told apart by their numbers.
\<close>

definition reschedule :: "('h, 's) world \<Rightarrow> int \<Rightarrow> int \<Rightarrow> 's \<Rightarrow> 's outcome" where
  "reschedule w i retval s =
     (let (now, s) = clock w s; (sec, ms) = aeAddMillisecondsToNow now retval; tes = timeEventHead (get_loop w s)
      in if i \<in> te_id ` set tes then
           Inr (upd_loop w (\<lambda>el. el\<lparr>timeEventHead := map (\<lambda>te. if te_id te = i then te\<lparr>when_sec := sec, when_ms := ms\<rparr> else te) tes\<rparr>) s)
         else Inl Undefined)"

definition delete_timer :: "('h, 's) world \<Rightarrow> int \<Rightarrow> 's \<Rightarrow> 's outcome" where
  "delete_timer w i s =
     (let (r, final, el) = aeDeleteTimeEvent (get_loop w s) i; s = put_loop w el s
      in case final of None \<Rightarrow> Inr s | Some f \<Rightarrow> run_final w f s)"

definition fire_timer :: "('h, 's) world \<Rightarrow> 'h aeTimeEvent \<Rightarrow> 's \<Rightarrow> 's outcome" where
  "fire_timer w te s =
     andThen (run_timer w (timeProc te) (te_id te) s) (\<lambda>(retval, s).
       if retval \<noteq> AE_NOMORE then reschedule w (te_id te) retval s else delete_timer w (te_id te) s)"

text \<open>\<open>rest\<close> is the list from \<open>te\<close> on; after a handler ran the walk starts again from the head.\<close>

partial_function (option) timer_walk ::
  "('h, 's) world \<Rightarrow> int \<Rightarrow> 'h aeTimeEvent list \<Rightarrow> int \<Rightarrow> 's \<Rightarrow> (int \<times> 's) outcome option" where
  "timer_walk w maxId rest processed s =
     (case rest of
        [] \<Rightarrow> Some (Inr (processed, s))
      | te # rest' \<Rightarrow>
          if te_id te > maxId then timer_walk w maxId rest' processed s
          else
            case clock w s of (now, s1) \<Rightarrow>
            if timer_due now te then
              (case fire_timer w te s1 of
                 Inl e \<Rightarrow> Some (Inl e)
               | Inr s2 \<Rightarrow> timer_walk w maxId (timeEventHead (get_loop w s2)) (processed + 1) s2)
            else timer_walk w maxId rest' processed s1)"

definition processTimeEvents :: "('h, 's) world \<Rightarrow> 's \<Rightarrow> (int \<times> 's) outcome option" where
  "processTimeEvents w s =
     (let (now, s) = clock w s;
          s = upd_loop w (fix_clock_skew (now div 1000)) s
      in timer_walk w (timeEventNextId (get_loop w s) - 1) (timeEventHead (get_loop w s)) 0 s)"

subsection \<open>File events\<close>

text \<open>
  One entry of \<open>fired\<close>: the entry of the table is read again after the read handler ran.  A
  table entry without a handler, or outside the table, is \<open>Undefined\<close>.
\<close>

definition call_file :: "('h, 's) world \<Rightarrow> 'h option \<Rightarrow> int \<Rightarrow> nat \<Rightarrow> int \<Rightarrow> 's \<Rightarrow> 's outcome" where
  "call_file w proc fd cdata m s = (case proc of None \<Rightarrow> Inl Undefined | Some h \<Rightarrow> run_file w h fd cdata m s)"

definition file_event :: "('h, 's) world \<Rightarrow> int \<Rightarrow> 's \<Rightarrow> 'h aeFileEvent outcome" where
  "file_event w fd s =
     (let evs = events (get_loop w s) in if 0 \<le> fd \<and> nat fd < length evs then Inr (evs ! nat fd) else Inl Undefined)"

definition fire_file :: "('h, 's) world \<Rightarrow> int \<times> int \<Rightarrow> 's \<Rightarrow> 's outcome" where
  "fire_file w fired s =
     (let (fd, m) = fired in
      andThen (file_event w fd s) (\<lambda>fe.
      let rfired = (mask fe AND m AND AE_READABLE \<noteq> 0) in
      andThen (if rfired then call_file w (rfileProc fe) fd (clientData fe) m s else Inr s) (\<lambda>s.
      andThen (file_event w fd s) (\<lambda>fe.
        if mask fe AND m AND AE_WRITABLE \<noteq> 0 \<and> (\<not> rfired \<or> wfileProc fe \<noteq> rfileProc fe)
        then call_file w (wfileProc fe) fd (clientData fe) m s else Inr s))))"

fun fire_files :: "('h, 's) world \<Rightarrow> (int \<times> int) list \<Rightarrow> int \<Rightarrow> 's \<Rightarrow> (int \<times> 's) outcome" where
  "fire_files w [] processed s = Inr (processed, s)"
| "fire_files w (f # fs) processed s = andThen (fire_file w f s) (fire_files w fs (processed + 1))"

text \<open>The wait and the file events; the clock is read when there is a timer to wait for.\<close>

definition poll_files :: "('h, 's) world \<Rightarrow> int \<Rightarrow> 's \<Rightarrow> (int \<times> 's) outcome" where
  "poll_files w flags s =
     (let el = get_loop w s;
          (now, s) = (if flags AND AE_TIME_EVENTS \<noteq> 0 \<and> flags AND AE_DONT_WAIT = 0 \<and> aeSearchNearestTimer el \<noteq> None
                      then clock w s else (0, s));
          (reported, s) = epoll_wait w (epoll_timeout (poll_timeout now flags el)) s
      in fire_files w (aeApiPoll reported) 0 s)"

definition aeProcessEvents :: "('h, 's) world \<Rightarrow> int \<Rightarrow> 's \<Rightarrow> (int \<times> 's) outcome option" where
  "aeProcessEvents w flags s =
     (if flags AND AE_TIME_EVENTS = 0 \<and> flags AND AE_FILE_EVENTS = 0 then Some (Inr (0, s))
      else
        case (if maxfd (get_loop w s) \<noteq> - 1 \<or> (flags AND AE_TIME_EVENTS \<noteq> 0 \<and> flags AND AE_DONT_WAIT = 0)
              then poll_files w flags s else Inr (0, s)) of
          Inl e \<Rightarrow> Some (Inl e)
        | Inr (processed, s) \<Rightarrow>
            if flags AND AE_TIME_EVENTS \<noteq> 0
            then map_option (map_sum id (\<lambda>(n, s). (processed + n, s))) (processTimeEvents w s)
            else Some (Inr (processed, s)))"

subsection \<open>The main loop and aeWait\<close>

partial_function (option) main_loop :: "('h, 's) world \<Rightarrow> 's \<Rightarrow> 's outcome option" where
  "main_loop w s =
     (if stop (get_loop w s) then Some (Inr s)
      else
        case (case beforesleep (get_loop w s) of None \<Rightarrow> Inr s | Some h \<Rightarrow> run_before w h s) of
          Inl e \<Rightarrow> Some (Inl e)
        | Inr s1 \<Rightarrow>
            (case aeProcessEvents w AE_ALL_EVENTS s1 of
               None \<Rightarrow> None
             | Some (Inl e) \<Rightarrow> Some (Inl e)
             | Some (Inr (n, s2)) \<Rightarrow> main_loop w s2))"

definition aeMain :: "('h, 's) world \<Rightarrow> 's \<Rightarrow> 's outcome option" where
  "aeMain w s = main_loop w (upd_loop w (\<lambda>el. el\<lparr>stop := False\<rparr>) s)"

definition aeSetBeforeSleepProc :: "'h aeEventLoop \<Rightarrow> 'h option \<Rightarrow> 'h aeEventLoop" where
  "aeSetBeforeSleepProc el proc = el\<lparr>beforesleep := proc\<rparr>"

text \<open>\<open>poll\<close> of one descriptor answers its return value and the events that came.\<close>

definition POLLIN :: int where "POLLIN = 1"
definition POLLOUT :: int where "POLLOUT = 4"
definition POLLERR :: int where "POLLERR = 8"
definition POLLHUP :: int where "POLLHUP = 16"

definition aeWait :: "(int \<Rightarrow> int \<Rightarrow> int \<Rightarrow> int \<times> int) \<Rightarrow> int \<Rightarrow> int \<Rightarrow> int \<Rightarrow> int" where
  "aeWait poll fd m milliseconds =
     (let ev = 0;
          ev = (if m AND AE_READABLE \<noteq> 0 then ev OR POLLIN else ev);
          ev = (if m AND AE_WRITABLE \<noteq> 0 then ev OR POLLOUT else ev);
          (retval, revents) = poll fd ev milliseconds
      in if retval = 1 then
           (let retmask = 0;
                retmask = (if revents AND POLLIN \<noteq> 0 then retmask OR AE_READABLE else retmask);
                retmask = (if revents AND POLLOUT \<noteq> 0 then retmask OR AE_WRITABLE else retmask);
                retmask = (if revents AND POLLERR \<noteq> 0 then retmask OR AE_WRITABLE else retmask)
            in if revents AND POLLHUP \<noteq> 0 then retmask OR AE_WRITABLE else retmask)
         else retval)"


subsection \<open>Timers that behave\<close>

text \<open>
  What \<open>processTimeEvents\<close> needs of its clients to end with each due event handled once: in the
  states \<open>good\<close>, the clock stands still at \<open>now\<close>, and a handler leaves the loop alone, does \<open>tick h\<close>
  to the rest and asks to be called again after \<open>period h > 0\<close> milliseconds.
\<close>

locale steady_timers =
  fixes w :: "('h, 's) world" and now :: int and period :: "'h \<Rightarrow> int" and good :: "'s \<Rightarrow> bool" and tick :: "'h \<Rightarrow> 's \<Rightarrow> 's"
  assumes get_put: "get_loop w (put_loop w el s) = el"
    and put_get: "put_loop w (get_loop w s) s = s"
    and put_put: "put_loop w el (put_loop w el' s) = put_loop w el s"
    and good_put: "good s \<Longrightarrow> good (put_loop w el s)"
    and good_tick: "good s \<Longrightarrow> good (tick h s)"
    and steady_clock: "good s \<Longrightarrow> clock w s = (now, s)"
    and timer_runs: "good s \<Longrightarrow> run_timer w h i s = Inr (period h, tick h s)"
    and get_tick: "get_loop w (tick h s) = get_loop w s"
    and tick_put: "tick h (put_loop w el s) = put_loop w el (tick h s)"
    and period_pos: "0 < period h"
begin

definition advance :: "'h aeTimeEvent \<Rightarrow> 'h aeTimeEvent" where
  "advance te =
     (case aeAddMillisecondsToNow now (period (timeProc te)) of (sec, ms) \<Rightarrow> te\<lparr>when_sec := sec, when_ms := ms\<rparr>)"

definition step_due :: "'h aeTimeEvent \<Rightarrow> 'h aeTimeEvent" where
  "step_due te = (if timer_due now te then advance te else te)"

text \<open>The handlers of some timers, one after the other, and the list of timers they leave.\<close>

definition ticks :: "'h aeTimeEvent list \<Rightarrow> 's \<Rightarrow> 's" where
  "ticks tes = fold (\<lambda>te. tick (timeProc te)) tes"

definition set_timers :: "'h aeTimeEvent list \<Rightarrow> 's \<Rightarrow> 's" where
  "set_timers tes s = put_loop w ((get_loop w s)\<lparr>timeEventHead := tes\<rparr>) s"

lemma get_set_timers [simp]: "get_loop w (set_timers tes s) = (get_loop w s)\<lparr>timeEventHead := tes\<rparr>"
  by (simp add: set_timers_def get_put)

lemma set_set_timers [simp]: "set_timers tes (set_timers tes' s) = set_timers tes s"
  by (simp add: set_timers_def get_put put_put)

lemma set_same_timers: "timeEventHead (get_loop w s) = tes \<Longrightarrow> set_timers tes s = s"
proof -
  assume "timeEventHead (get_loop w s) = tes"
  then have "(get_loop w s)\<lparr>timeEventHead := tes\<rparr> = get_loop w s" by (cases "get_loop w s") simp
  then show ?thesis by (simp add: set_timers_def put_get)
qed

lemma ticks_put: "ticks tes (put_loop w el s) = put_loop w el (ticks tes s)"
  by (induction tes arbitrary: s) (simp_all add: ticks_def tick_put)

lemma get_ticks [simp]: "get_loop w (ticks tes s) = get_loop w s"
  by (induction tes arbitrary: s) (simp_all add: ticks_def get_tick)

lemma ticks_set_timers: "ticks tes (set_timers tes' s) = set_timers tes' (ticks tes s)"
  by (simp add: set_timers_def ticks_put)

lemma good_set_timers: "good s \<Longrightarrow> good (set_timers tes s)"
  by (simp add: set_timers_def good_put)

lemma advance_id: "te_id (advance te) = te_id te"
  by (simp add: advance_def split: prod.split)

lemma advance_not_due: "\<not> timer_due now (advance te)"
proof -
  obtain sec ms where a: "aeAddMillisecondsToNow now (period (timeProc te)) = (sec, ms)" by force
  then have "sec * 1000 + ms = now + period (timeProc te)" "0 \<le> ms" "ms < 1000"
    using aeAddMillisecondsToNow_due [of "period (timeProc te)" now] period_pos [of "timeProc te"] by auto
  moreover have "now div 1000 * 1000 + now mod 1000 = now" by simp
  ultimately have "\<not> sec < now div 1000" "\<not> (sec = now div 1000 \<and> ms \<le> now mod 1000)"
    using period_pos [of "timeProc te"] pos_mod_bound [of 1000 now] by linarith+
  then show ?thesis by (auto simp: advance_def a timer_due_def aeGetTime_def)
qed

lemma walk_skips:
  "good s \<Longrightarrow> \<forall>te \<in> set pre. \<not> timer_due now te \<Longrightarrow>
    timer_walk w m (pre @ rest) n s = timer_walk w m rest n s"
proof (induction pre)
  case (Cons te pre)
  then show ?case by (subst timer_walk.simps) (simp add: steady_clock)
qed simp

lemma fire_advances:
  assumes "good s" and tes: "timeEventHead (get_loop w s) = pre @ te # rest" and d: "distinct (map te_id (pre @ te # rest))"
  shows "fire_timer w te s = Inr (set_timers (pre @ advance te # rest) (tick (timeProc te) s))"
proof -
  have s1: "run_timer w (timeProc te) (te_id te) s = Inr (period (timeProc te), tick (timeProc te) s)"
    "good (tick (timeProc te) s)" "get_loop w (tick (timeProc te) s) = get_loop w s"
    using timer_runs good_tick get_tick assms(1) by auto
  obtain sec ms where a: "aeAddMillisecondsToNow now (period (timeProc te)) = (sec, ms)" by force
  let ?f = "\<lambda>u. if te_id u = te_id te then u\<lparr>when_sec := sec, when_ms := ms\<rparr> else u"
  have "map ?f pre = pre" "map ?f rest = rest"
    using d by (auto intro!: map_idI simp: image_iff dest: sym)
  then have "map ?f (pre @ te # rest) = pre @ advance te # rest" by (simp add: advance_def a)
  moreover have "period (timeProc te) \<noteq> AE_NOMORE" using period_pos [of "timeProc te"] by (simp add: AE_NOMORE_def)
  ultimately show ?thesis
    using s1 tes steady_clock [OF s1(2)]
    by (simp add: fire_timer_def reschedule_def a upd_loop_def set_timers_def)
qed

lemma walk_all:
  "good s \<Longrightarrow> timeEventHead (get_loop w s) = pre @ rest \<Longrightarrow> distinct (map te_id (pre @ rest)) \<Longrightarrow>
    \<forall>te \<in> set (pre @ rest). te_id te \<le> m \<Longrightarrow> \<forall>te \<in> set pre. \<not> timer_due now te \<Longrightarrow>
    timer_walk w m rest n s = Some (Inr (n + int (length (filter (timer_due now) rest)),
      set_timers (pre @ map step_due rest) (ticks (filter (timer_due now) rest) s)))"
proof (induction rest arbitrary: pre n s)
  case Nil
  then show ?case by (simp add: timer_walk.simps ticks_def set_same_timers)
next
  case (Cons te rest)
  show ?case
  proof (cases "timer_due now te")
    case False
    have "timer_walk w m (te # rest) n s = timer_walk w m rest n s"
      using walk_skips [OF Cons.prems(1), of "[te]"] False by simp
    then show ?thesis using Cons.IH [of s "pre @ [te]" n] Cons.prems False by (simp add: step_due_def)
  next
    case True
    define s1 where "s1 = set_timers (pre @ advance te # rest) (tick (timeProc te) s)"
    have s1: "fire_timer w te s = Inr s1" "good s1" "timeEventHead (get_loop w s1) = pre @ advance te # rest"
      using fire_advances [OF Cons.prems(1,2,3)] good_set_timers good_tick Cons.prems(1) by (simp_all add: s1_def)
    have "timer_walk w m (te # rest) n s = timer_walk w m (pre @ advance te # rest) (n + 1) s1"
      using Cons.prems(4) True s1(1,3) steady_clock [OF Cons.prems(1)] by (subst timer_walk.simps) simp
    also have "\<dots> = timer_walk w m rest (n + 1) s1"
      using walk_skips [OF s1(2), of "pre @ [advance te]" m rest] Cons.prems(5) advance_not_due [of te] by simp
    also have "\<dots> = Some (Inr (n + 1 + int (length (filter (timer_due now) rest)),
        set_timers ((pre @ [advance te]) @ map step_due rest) (ticks (filter (timer_due now) rest) s1)))"
      using Cons.prems s1(3) advance_not_due by (intro Cons.IH [OF s1(2)]) (simp_all add: advance_id)
    also have "ticks (filter (timer_due now) rest) s1 =
        set_timers (pre @ advance te # rest) (ticks (filter (timer_due now) (te # rest)) s)"
      using True unfolding s1_def ticks_set_timers by (simp add: ticks_def)
    finally show ?thesis using True by (simp add: step_due_def add.assoc)
  qed
qed

text \<open>The whole effect of a pass: every due timer's handler ran once, and the loop has new times.\<close>

lemma all_due_run_once:
  assumes "good s" and wf: "timers_wf (get_loop w s)" and time: "lastTime (get_loop w s) \<le> now div 1000"
  defines "tes \<equiv> timeEventHead (get_loop w s)"
  shows "processTimeEvents w s = Some (Inr (int (length (filter (timer_due now) tes)),
      put_loop w ((get_loop w s)\<lparr>lastTime := now div 1000, timeEventHead := map step_due tes\<rparr>)
        (ticks (filter (timer_due now) tes) s)))"
    and "\<forall>te \<in> set (map step_due tes). \<not> timer_due now te"
proof -
  define s1 where "s1 = upd_loop w (fix_clock_skew (now div 1000)) s"
  have l1: "get_loop w s1 = (get_loop w s)\<lparr>lastTime := now div 1000\<rparr>"
    using time by (simp add: s1_def upd_loop_def get_put fix_clock_skew_def Let_def)
  have g1: "good s1" using good_put [OF assms(1)] by (simp add: s1_def upd_loop_def)
  have "timer_walk w (timeEventNextId (get_loop w s) - 1) tes 0 s1 = Some (Inr (0 + int (length (filter (timer_due now) tes)),
      set_timers ([] @ map step_due tes) (ticks (filter (timer_due now) tes) s1)))"
    using wf by (intro walk_all [OF g1]) (auto simp: l1 tes_def timers_wf_def)
  moreover have "set_timers ts (ticks us s1) =
      put_loop w ((get_loop w s)\<lparr>lastTime := now div 1000, timeEventHead := ts\<rparr>) (ticks us s)" for ts us
  proof -
    have "s1 = put_loop w ((get_loop w s)\<lparr>lastTime := now div 1000\<rparr>) s"
      using l1 by (simp add: s1_def upd_loop_def get_put)
    then show ?thesis by (simp add: set_timers_def get_put put_put ticks_put)
  qed
  ultimately show "processTimeEvents w s = Some (Inr (int (length (filter (timer_due now) tes)),
      put_loop w ((get_loop w s)\<lparr>lastTime := now div 1000, timeEventHead := map step_due tes\<rparr>)
        (ticks (filter (timer_due now) tes) s)))"
    using steady_clock [OF assms(1)] by (simp add: processTimeEvents_def s1_def [symmetric] l1 tes_def [symmetric])
  show "\<forall>te \<in> set (map step_due tes). \<not> timer_due now te"
    using advance_not_due by (auto simp: step_due_def)
qed

end

end
