(* ===== verification/ProxyLoop.thy ===== *)
theory ProxyLoop
  imports Handlers AeLoop
begin

text \<open>
  The proxy in its event loop: \<^verbatim>\<open>aeMain\<close> of \<^verbatim>\<open>proxy/ae.c\<close> run on the handlers of
  \<^verbatim>\<open>proxy/event.c\<close> and \<^verbatim>\<open>proxy/read_handler.c\<close>, as \<^verbatim>\<open>proxy/main.c\<close> starts it.
\<close>

subsection \<open>The proxy's world\<close>

text \<open>
  What surrounds the proxy: the clock, what \<open>epoll_wait\<close> reports for a timeout, the libraries of
  the parser, and the bytes that lie behind the buffers.
\<close>

record ('j, 'v) surroundings =
  time_ms :: "proxy \<Rightarrow> int"
  ready :: "int \<Rightarrow> proxy \<Rightarrow> (int \<times> int) list"
  libraries :: "('j, 'v) libs"
  beyond_char :: char
  heap_bytes :: cmem
  stack_bytes :: cmem

text \<open>A handler that does not return leaves the process waiting.\<close>

definition settle :: "'a outcome option \<Rightarrow> 'a outcome" where
  "settle r = (case r of None \<Rightarrow> Inl Blocked | Some x \<Rightarrow> x)"

definition call_proc :: "('j, 'v) surroundings \<Rightarrow> proc \<Rightarrow> int \<Rightarrow> proxy \<Rightarrow> proxy outcome" where
  "call_proc e p fd s =
     (case p of
        ReadFromMaster \<Rightarrow> settle (readFromMaster (beyond_char e) (heap_bytes e) (stack_bytes e) fd s)
      | ReadFromSlave \<Rightarrow> readFromSlave (stack_bytes e) fd s
      | ReadDelValue \<Rightarrow> settle (readDelValue (libraries e) (heap_bytes e) (stack_bytes e) fd s)
      | AcceptTcpHandler \<Rightarrow> acceptTcpHandler fd s
      | TimeEvent \<Rightarrow> andThen (timeEvent s) (\<lambda>(r, s). Inr s))"

text \<open>Only \<open>timeEvent\<close> is ever created as a timer; it takes no notice of its arguments.\<close>

definition proxy_world :: "('j, 'v) surroundings \<Rightarrow> (proc, proxy) world" where
  "proxy_world e =
     \<lparr>get_loop = loop, put_loop = (\<lambda>l s. s\<lparr>loop := l\<rparr>), clock = (\<lambda>s. (time_ms e s, s)),
      epoll_wait = (\<lambda>t s. (ready e t s, s)),
      run_timer = (\<lambda>p i s. timeEvent s), run_file = (\<lambda>p fd cdata m s. call_proc e p fd s),
      run_final = (\<lambda>p s. Inr s), run_before = (\<lambda>p s. Inr s)\<rparr>"

definition main_run :: "('j, 'v) surroundings \<Rightarrow> keyfile \<Rightarrow> proxy \<Rightarrow> proxy outcome option" where
  "main_run e kf s =
     (case main_boot kf s of Inl f \<Rightarrow> Some (Inl f) | Inr s \<Rightarrow> aeMain (proxy_world e) s)"

text \<open>
  In a world whose clock shows one time, the heart beat of a connected proxy is a steady timer
  that changes nothing but its count and the list of timers.
\<close>

definition still_world :: "int \<Rightarrow> ('j, 'v) surroundings \<Rightarrow> (proc, proxy) world" where
  "still_world now e = proxy_world (e\<lparr>time_ms := \<lambda>s. now\<rparr>)"

lemma timeEvent_connected: "master_fd s \<noteq> -1 \<Longrightarrow> timeEvent s = Inr (100, s\<lparr>cronloops := cronloops s + 1\<rparr>)"
  by (simp add: timeEvent_def)

definition count_beat :: "proxy \<Rightarrow> proxy" where
  "count_beat s = s\<lparr>cronloops := cronloops s + 1\<rparr>"

interpretation heart_beat: steady_timers "still_world now e" now "\<lambda>p. 100" "\<lambda>s. master_fd s \<noteq> -1" "\<lambda>p. count_beat"
  for now e
  by unfold_locales (auto simp: still_world_def proxy_world_def timeEvent_connected count_beat_def)

lemma ticks_count: "heart_beat.ticks tes s = s\<lparr>cronloops := cronloops s + int (length tes)\<rparr>"
  unfolding heart_beat.ticks_def by (induction tes arbitrary: s) (simp_all add: count_beat_def)

lemma get_still: "get_loop (still_world now e) = loop"
  by (simp add: still_world_def proxy_world_def)

text \<open>The timer after its turn.\<close>

definition next_beat :: "int \<Rightarrow> proc aeTimeEvent \<Rightarrow> proc aeTimeEvent" where
  "next_beat now te =
     (if timer_due now te
      then te\<lparr>when_sec := fst (aeAddMillisecondsToNow now 100), when_ms := snd (aeAddMillisecondsToNow now 100)\<rparr> else te)"

lemma timers_pass:
  assumes "master_fd s \<noteq> -1" and "timers_wf (loop s)" and "lastTime (loop s) \<le> now div 1000"
  shows "processTimeEvents (still_world now e) s =
      (let due = int (length (filter (timer_due now) (timeEventHead (loop s)))) in
       Some (Inr (due, s\<lparr>cronloops := cronloops s + due,
         loop := (loop s)\<lparr>lastTime := now div 1000, timeEventHead := map (next_beat now) (timeEventHead (loop s))\<rparr>\<rparr>)))"
    and "\<forall>te \<in> set (map (next_beat now) (timeEventHead (loop s))). \<not> timer_due now te"
proof -
  have "heart_beat.step_due now = next_beat now"
    by (rule ext) (simp add: heart_beat.step_due_def heart_beat.advance_def next_beat_def case_prod_beta)
  note pass = heart_beat.all_due_run_once [OF assms(1), of now e, unfolded get_still this ticks_count, OF assms(2,3)]
  show "processTimeEvents (still_world now e) s =
      (let due = int (length (filter (timer_due now) (timeEventHead (loop s)))) in
       Some (Inr (due, s\<lparr>cronloops := cronloops s + due,
         loop := (loop s)\<lparr>lastTime := now div 1000, timeEventHead := map (next_beat now) (timeEventHead (loop s))\<rparr>\<rparr>)))"
    using pass(1) by (simp add: Let_def) (simp add: still_world_def proxy_world_def)
  show "\<forall>te \<in> set (map (next_beat now) (timeEventHead (loop s))). \<not> timer_due now te" by (rule pass(2))
qed

text \<open>
  C34.  While the master is connected and the clock stands still, at a time that is not before the
  last pass, one pass over the timers of the proxy, whose numbers differ, ends, although the list is walked again from its
  head after each handler: it calls the handler of every due timer exactly once (the count of heart
  beats goes up by their number, which is also returned), reschedules these to 100 milliseconds
  later, leaves none due, and changes nothing else of the process but the time of the last pass.
\<close>

theorem due_timers_run_once:
  assumes "master_fd s \<noteq> -1" and "timers_wf (loop s)" and "lastTime (loop s) \<le> now div 1000"
  shows "\<exists>s'. processTimeEvents (still_world now e) s =
      Some (Inr (int (length (filter (timer_due now) (timeEventHead (loop s)))), s')) \<and>
    s' = s\<lparr>cronloops := cronloops s + int (length (filter (timer_due now) (timeEventHead (loop s)))),
      loop := (loop s)\<lparr>lastTime := now div 1000, timeEventHead := map (next_beat now) (timeEventHead (loop s))\<rparr>\<rparr> \<and>
    (\<forall>te \<in> set (timeEventHead (loop s')). \<not> timer_due now te)"
  using timers_pass(1) [OF assms, of e] timers_pass(2) [OF assms] by (simp add: Let_def)

lemma watched_entry:
  assumes "el_wf l" and "fd_mask l fd = AE_READABLE"
  shows "0 \<le> fd" "nat fd < length (events l)" "mask (events l ! nat fd) = AE_READABLE" "maxfd l \<noteq> -1"
proof -
  have r: "0 \<le> fd \<and> fd < setsize l" using assms(2) by (auto simp: fd_mask_def ae_const split: if_splits)
  then show "0 \<le> fd" by simp
  show "nat fd < length (events l)" using r assms(1) by (auto simp: el_wf_def)
  show "mask (events l ! nat fd) = AE_READABLE" using assms(2) r by (simp add: fd_mask_def)
  have "\<not> maxfd l < fd" using assms unfolding el_wf_def by (auto simp: ae_const)
  then show "maxfd l \<noteq> -1" using r by simp
qed


subsection \<open>A proxy at work\<close>

text \<open>The loop of a running proxy: the master's connection 5 is watched, the heart beat is set.\<close>

definition busy_loop :: "proc aeEventLoop" where
  "busy_loop = (set_event 5 \<lparr>mask = AE_READABLE, rfileProc = Some ReadFromMaster, wfileProc = None, clientData = 0\<rparr> fresh_loop)
     \<lparr>maxfd := 5, timeEventNextId := 1,
      timeEventHead := [\<lparr>te_id = 0, when_sec = 7, when_ms = 250, timeProc = TimeEvent, finalizerProc = None\<rparr>]\<rparr>"

abbreviation chunk_answer :: sysret where "chunk_answer \<equiv> \<lparr>ret = 36, sets_errno = None, bytes = del_chunk\<rparr>"
abbreviation ask_answers :: "sysret list" where "ask_answers \<equiv> [\<lparr>ret = 13, sets_errno = None, bytes = []\<rparr>]"
abbreviation send_answers :: "sysret list" where "send_answers \<equiv> [\<lparr>ret = 36, sets_errno = None, bytes = []\<rparr>]"

definition busy_proxy :: proxy where
  "busy_proxy = open_proxy (chunk_answer # ask_answers @ send_answers)\<lparr>buf_master_cmd := buf_of [], loop := busy_loop\<rparr>"

definition busy_world :: "((string \<times> string) list, string) surroundings" where
  "busy_world = \<lparr>time_ms = \<lambda>s. 0, ready = \<lambda>t s. [(5, EPOLLIN)], libraries = sample_libs, beyond_char = NUL,
     heap_bytes = \<lambda>i. NUL, stack_bytes = \<lambda>i. NUL\<rparr>"

lemma el_wf_set_timers: "el_wf (l\<lparr>timeEventNextId := n, timeEventHead := tes\<rparr>) \<longleftrightarrow> el_wf l"
  by (simp add: el_wf_def fd_mask_def)

lemma busy_loop_ok:
  "el_wf busy_loop" "fd_mask busy_loop 5 = AE_READABLE" "rfileProc (events busy_loop ! nat 5) = Some ReadFromMaster"
  "timers_wf busy_loop" "lastTime busy_loop \<le> 7" and busy_loop_timers:
  "timeEventHead busy_loop = [\<lparr>te_id = 0, when_sec = 7, when_ms = 250, timeProc = TimeEvent, finalizerProc = None\<rparr>]"
proof -
  let ?fe = "\<lparr>mask = AE_READABLE, rfileProc = Some ReadFromMaster, wfileProc = None, clientData = 0\<rparr> :: proc aeFileEvent"
  let ?l = "(set_event 5 ?fe fresh_loop)\<lparr>maxfd := max (maxfd (fresh_loop :: proc aeEventLoop)) 5\<rparr>"
  have m: "maxfd (fresh_loop :: proc aeEventLoop) = -1" by (simp add: fresh_loop_def aeCreateEventLoop_def)
  have t: "lastTime (fresh_loop :: proc aeEventLoop) = 0" by (simp add: fresh_loop_def aeCreateEventLoop_def)
  have "el_wf ?l" by (rule el_wf_add [OF fresh_loop_wf]) (simp_all add: fresh_loop_setsize ae_const)
  moreover have b: "busy_loop = ?l\<lparr>timeEventNextId := 1,
      timeEventHead := [\<lparr>te_id = 0, when_sec = 7, when_ms = 250, timeProc = TimeEvent, finalizerProc = None\<rparr>]\<rparr>"
    by (simp add: busy_loop_def m)
  ultimately show "el_wf busy_loop" unfolding b el_wf_set_timers by blast
  show "timeEventHead busy_loop = [\<lparr>te_id = 0, when_sec = 7, when_ms = 250, timeProc = TimeEvent, finalizerProc = None\<rparr>]"
    by (simp add: busy_loop_def)
  show "timers_wf busy_loop" by (simp add: busy_loop_def timers_wf_def timer_wf_def)
  show "lastTime busy_loop \<le> 7" by (simp add: busy_loop_def t set_event_def)
  have len: "length (events (fresh_loop :: proc aeEventLoop)) = 1024" using fresh_loop_wf [where ?'a = proc] by (simp add: el_wf_def fresh_loop_setsize)
  then have e: "events busy_loop ! nat 5 = ?fe" by (simp add: busy_loop_def set_event_def)
  then show "rfileProc (events busy_loop ! nat 5) = Some ReadFromMaster" by simp
  have "setsize busy_loop = 1024" by (simp add: busy_loop_def fresh_loop_setsize)
  then show "fd_mask busy_loop 5 = AE_READABLE" using e by (simp add: fd_mask_def)
qed

lemma busy_proxy_fields:
  "master_fd busy_proxy = 5" "client_fd busy_proxy = 8" "read_fd busy_proxy = 9" "loop busy_proxy = busy_loop"
  "pending busy_proxy = chunk_answer # ask_answers @ send_answers" "que busy_proxy = init_cir_queue"
  "buf_master_cmd busy_proxy = buf_of []" "proxy_state busy_proxy = RUNNING_STATE"
  by (simp_all add: busy_proxy_def)

lemma busy_chunk: "stream_chunk busy_proxy 5 chunk_answer ask_answers send_answers [] [] [] [] [Other ping, Del ''key''] []"
proof -
  have "env_wf (que busy_proxy)" "env_list (que busy_proxy) = []" by (simp_all add: busy_proxy_fields init_env)
  then have "can_ask (dels [Other ping, Del ''key'']) [] (busy_proxy\<lparr>pending := ask_answers\<rparr>)"
    by (simp add: can_ask_def queue_cap_def QUE_SIZE_def busy_proxy_fields) (intro exI [of _ "[ask_answers]"], simp)
  moreover have "NUL \<notin> set ''key''" by (simp add: NUL_def)
  moreover have "[] @ bytes chunk_answer @ [] = [] @ cmds_text [Other ping, Del ''key''] @ []" by (simp add: del_chunk_def)
  ultimately show ?thesis
    using del_chunk ping_ok by (simp add: stream_chunk_def busy_proxy_fields cut_del_def MAX_READ_def)
qed

lemma beat_at: "aeAddMillisecondsToNow 7300 100 = (7, 400)"
  by (simp add: aeAddMillisecondsToNow_def aeGetTime_def signed_divide_int_def signed_modulo_int_def)

theorem due_timers_run_once_witness:
  "\<exists>s'. processTimeEvents (still_world 7300 busy_world) busy_proxy = Some (Inr (1, s')) \<and>
     cronloops s' = cronloops busy_proxy + 1 \<and>
     timeEventHead (loop s') = [\<lparr>te_id = 0, when_sec = 7, when_ms = 400, timeProc = TimeEvent, finalizerProc = None\<rparr>]"
  using due_timers_run_once [of busy_proxy 7300 busy_world] busy_loop_ok
  by (simp add: busy_proxy_fields busy_loop_timers timer_due_def aeGetTime_def next_beat_def beat_at)


text \<open>
  A timer handler must not delete its own event and ask to be called again: the event it was
  called for is then freed, and \<open>processTimeEvents\<close> writes the new time into the freed block.
\<close>

theorem self_deleting_timer_is_use_after_free:
  assumes "\<And>el s. get_loop w (put_loop w el s) = el" and "\<And>s. clock w s = (now, s)"
    and "timeEventHead (get_loop w s) = te # tes" and "timer_due now te" and "te_id te < timeEventNextId (get_loop w s)"
    and "lastTime (get_loop w s) \<le> now div 1000"
    and "\<And>s. \<exists>s' r. run_timer w (timeProc te) (te_id te) s = Inr (r, s') \<and> r \<noteq> AE_NOMORE \<and>
      te_id te \<notin> te_id ` set (timeEventHead (get_loop w s'))"
  shows "processTimeEvents w s = Some (Inl Undefined)"
proof -
  define s1 where "s1 = upd_loop w (fix_clock_skew (now div 1000)) s"
  have s1: "timeEventHead (get_loop w s1) = te # tes" "timeEventNextId (get_loop w s1) = timeEventNextId (get_loop w s)"
    using assms(1,3,6) by (simp_all add: s1_def upd_loop_def fix_clock_skew_def Let_def)
  obtain s2 r where r: "run_timer w (timeProc te) (te_id te) s1 = Inr (r, s2)" "r \<noteq> AE_NOMORE"
    "te_id te \<notin> te_id ` set (timeEventHead (get_loop w s2))" using assms(7) by blast
  then have "fire_timer w te s1 = Inl Undefined"
    using assms(2) by (simp add: fire_timer_def reschedule_def split: prod.split)
  then have "timer_walk w (timeEventNextId (get_loop w s1) - 1) (te # tes) 0 s1 = Some (Inl Undefined)"
    using assms(2,4,5) s1(2) by (subst timer_walk.simps) simp
  then show ?thesis using assms(2) s1 by (simp add: processTimeEvents_def s1_def [symmetric])
qed

text \<open>A program whose only timer deletes itself.\<close>

definition one_shot_world :: "(int, int aeEventLoop) world" where
  "one_shot_world =
     \<lparr>get_loop = id, put_loop = (\<lambda>el s. el), clock = (\<lambda>s. (9000, s)), epoll_wait = (\<lambda>t s. ([], s)),
      run_timer = (\<lambda>p i s. case aeDeleteTimeEvent s i of (r, f, s) \<Rightarrow> Inr (p, s\<lparr>timeEventHead := filter (\<lambda>te. te_id te \<noteq> i) (timeEventHead s)\<rparr>)),
      run_file = (\<lambda>p fd cdata m s. Inr s), run_final = (\<lambda>p s. Inr s), run_before = (\<lambda>p s. Inr s)\<rparr>"

theorem self_deleting_timer_is_use_after_free_witness:
  "processTimeEvents one_shot_world (snd (aeCreateTimeEvent True 5000 fresh_loop 1000 50 None)) = Some (Inl Undefined)"
proof (rule self_deleting_timer_is_use_after_free [where now = 9000 and tes = "[]"
      and te = "\<lparr>te_id = 0, when_sec = 6, when_ms = 0, timeProc = 50, finalizerProc = None\<rparr>"])
  show "timeEventHead (get_loop one_shot_world (snd (aeCreateTimeEvent True 5000 fresh_loop 1000 50 None))) =
      [\<lparr>te_id = 0, when_sec = 6, when_ms = 0, timeProc = 50, finalizerProc = None\<rparr>]"
    by (simp add: one_shot_world_def aeCreateTimeEvent_def aeAddMillisecondsToNow_def aeGetTime_def Let_def
        fresh_loop_def aeCreateEventLoop_def signed_divide_int_def signed_modulo_int_def)
qed (auto simp: one_shot_world_def aeCreateTimeEvent_def aeAddMillisecondsToNow_def aeGetTime_def Let_def AE_NOMORE_def
    fresh_loop_def aeCreateEventLoop_def timer_due_def split: prod.split)

end
