(* ===== verification/ProxyInv.thy ===== *)
theory ProxyInv
  imports Handlers
begin

text \<open>
  Properties that every handler of the proxy keeps.  The handlers of \<^verbatim>\<open>read_handler.c\<close> and
  \<^verbatim>\<open>event.c\<close> touch the state through a few primitive steps: system calls, the event table,
  the queue, the buffers, \<open>saveValue\<close> and \<open>closeFd\<close>.  A property closed under these steps is
  kept by every handler, whatever the peers and the kernel answer.
\<close>

lemma saveToBuf_range: "saveToBuf w i buf = Inr b \<Longrightarrow> 0 \<le> len b \<and> len b < MAX_READ"
  by (auto simp: saveToBuf_def strncpy_def andThen_Inr_iff Let_def MAX_READ_def split: if_splits)

text \<open>The loop over the items of a reply changes the state only when it saves the reply.\<close>

lemma parse_items_state:
  "parse_items L w start i n key object s = Inr (r, s') \<Longrightarrow> s' = s \<or> save_answer w start s = Inr s'"
proof (induction L w start i n key object s rule: parse_items.induct)
  case (1 L w start i n key object s)
  note eq = "1.prems" [unfolded parse_items.simps [of L w start i n key object s]]
  show ?case
  proof (cases "n > 0 \<and> data w i = CHR ''$'' \<and> \<not> i32 (i + 1) \<ge> len w")
    case False
    then show ?thesis using eq by (auto simp: andThen_Inr_iff split: if_splits)
  next
    case go: True
    obtain m j where d: "digits w (i32 (i + 1)) 0 = (m, j)" by (cases "digits w (i32 (i + 1)) 0")
    let ?j = "i32 (i32 (i32 (j + 1) + i32 (m + 2)) + 1)"
    show ?thesis
    proof (cases "j \<ge> len w \<or> ?j > len w \<or> (?j = len w \<and> n > 1)")
      case True
      then show ?thesis using eq go d by (auto simp: andThen_Inr_iff Let_def split: if_splits)
    next
      case False
      have turn: "(if m > 0 then
          (if n mod 2 = 0 then parse_items L w start ?j (n - 1) (Ptr (copy_item w (i32 (i32 (j + 1) + 1)) m)) object s
           else (case key of Uninit \<Rightarrow> Inl Undefined | Freed \<Rightarrow> Inl Undefined
             | Ptr k \<Rightarrow> parse_items L w start ?j (n - 1) Freed
                 (json_object_set L object k (json_string L (copy_item w (i32 (i32 (j + 1) + 1)) m))) s))
          else parse_items L w start ?j (n - 1) key object s) = Inr (r, s')"
      proof -
        have "(n > 0) = True" "(data w i \<noteq> CHR ''$'') = False" "(i32 (i + 1) \<ge> len w) = False" "(j \<ge> len w) = False"
          "(?j > len w \<or> (?j = len w \<and> n > 1)) = False" using go False by auto
        then show ?thesis using eq unfolding d prod.case Let_def by (simp only: if_True if_False)
      qed
      show ?thesis
      proof (cases "m > 0")
        case zero: False
        then show ?thesis using turn "1.IH"(3) [OF _ _ _ d [symmetric]] go False by simp
      next
        case pos: True
        show ?thesis
        proof (cases "n mod 2 = 0")
          case True
          then show ?thesis using turn "1.IH"(1) [OF _ _ _ d [symmetric]] go False pos by simp
        next
          case odd: False
          obtain k where k: "key = Ptr k" using turn pos odd by (cases key) simp_all
          then show ?thesis using turn "1.IH"(2) [OF _ _ _ d [symmetric]] go False pos odd by simp
        qed
      qed
    qed
  qed
qed

text \<open>
  First the laws that opening and closing connections asks of a property \<open>P\<close>: it does not
  depend on the environment, the descriptors and the trace (but for the requests to the file
  servers), and survives changes of the event table.
\<close>

locale connection_invariant =
  fixes P :: "proxy \<Rightarrow> bool"
  assumes env: "P s \<Longrightarrow> P (s\<lparr>pending := rs, errno := e\<rparr>)"
    and act: "P s \<Longrightarrow> (\<And>u v. ev \<noteq> Posted u v) \<Longrightarrow> P (emit ev s)"
    and descriptors: "P s \<Longrightarrow> P (s\<lparr>master_fd := fm, client_fd := fc, read_fd := fr, listen_fd := fl\<rparr>)"
    and forget: "P s \<Longrightarrow> P (s\<lparr>loop := epoll_close fd (loop s)\<rparr>)"
    and create: "P s \<Longrightarrow> aeCreateFileEvent ok (loop s) fd AE_READABLE p 0 = Inr (r, l) \<Longrightarrow> P (s\<lparr>loop := l\<rparr>)"
begin

subsection \<open>Connections and transfers\<close>

lemma master: "P s \<Longrightarrow> P (s\<lparr>master_fd := x\<rparr>)"
  using descriptors [where s = s and fm = x and fc = "client_fd s" and fr = "read_fd s" and fl = "listen_fd s"] by simp

lemma client: "P s \<Longrightarrow> P (s\<lparr>client_fd := x\<rparr>)"
  using descriptors [where s = s and fm = "master_fd s" and fc = x and fr = "read_fd s" and fl = "listen_fd s"] by simp

lemma reader: "P s \<Longrightarrow> P (s\<lparr>read_fd := x\<rparr>)"
  using descriptors [where s = s and fm = "master_fd s" and fc = "client_fd s" and fr = x and fl = "listen_fd s"] by simp

lemma listener: "P s \<Longrightarrow> P (s\<lparr>listen_fd := x\<rparr>)"
  using descriptors [where s = s and fm = "master_fd s" and fc = "client_fd s" and fr = "read_fd s" and fl = x] by simp

lemma err: "P s \<Longrightarrow> P (s\<lparr>errno := e\<rparr>)"
  using env [where s = s and rs = "pending s" and e = e] by simp

lemma syscall_keeps: "P s \<Longrightarrow> syscall s = Inr (r, s') \<Longrightarrow> P s'"
  using env by (auto simp: syscall_def split: list.splits)

lemma close_fd_keeps: "P s \<Longrightarrow> P (close_fd fd s)"
  using forget [OF act [where s = s and ev = "Closed fd"]] by (simp add: close_fd_def emit_def)

lemma register_keeps:
  assumes "P s" and "register fd p s = Inr (r, s')"
  shows "P s'"
proof (cases "fd \<ge> setsize (loop s)")
  case True
  then show ?thesis using assms err by (auto simp: register_def)
next
  case False
  then obtain x s1 l where "syscall s = Inr (x, s1)"
    "aeCreateFileEvent (ret x \<noteq> -1) (loop s1) fd AE_READABLE p 0 = Inr (r, l)" "s' = s1\<lparr>loop := l\<rparr>"
    using assms(2) by (auto simp: register_def andThen_Inr_iff)
  then show ?thesis using create [OF syscall_keeps [OF assms(1)]] by simp
qed

lemma listenToPort_keeps:
  assumes "P s" and "listenToPort s = Inr (r, s')"
  shows "P s'"
proof -
  obtain x s1 where s1: "syscall s = Inr (x, s1)" using assms(2) by (auto simp: listenToPort_def andThen_Inr_iff)
  have 1: "P (s1\<lparr>listen_fd := ret x\<rparr>)" by (rule listener [OF syscall_keeps [OF assms(1) s1]])
  show ?thesis
  proof (cases "ret x = -1")
    case True
    then show ?thesis using assms(2) s1 1 by (auto simp: listenToPort_def)
  next
    case False
    then obtain st s2 where s2: "register (ret x) AcceptTcpHandler (s1\<lparr>listen_fd := ret x\<rparr>) = Inr (st, s2)"
      and "s' = (if st = AE_ERR then close_fd (listen_fd s2) s2 else s2)"
      using assms(2) s1 by (auto simp: listenToPort_def andThen_Inr_iff Let_def split: if_splits)
    then show ?thesis using register_keeps [OF 1 s2] close_fd_keeps by simp
  qed
qed

lemma connectToMaster_keeps:
  assumes "P s" and "connectToMaster s = Inr (r, s')"
  shows "P s'"
proof -
  obtain x s1 where s1: "syscall (s\<lparr>errno := 0\<rparr>) = Inr (x, s1)"
    using assms(2) by (auto simp: connectToMaster_def andThen_Inr_iff)
  have 1: "P (s1\<lparr>master_fd := ret x\<rparr>)" by (rule master [OF syscall_keeps [OF err [OF assms(1)] s1]])
  show ?thesis
  proof (cases "ret x = -1")
    case True
    then show ?thesis using assms(2) s1 1 by (auto simp: connectToMaster_def)
  next
    case False
    then obtain st s2 where s2: "register (ret x) ReadFromMaster (s1\<lparr>master_fd := ret x\<rparr>) = Inr (st, s2)"
      and c: "if st = AE_ERR then s' = close_fd (master_fd s2) s2 else \<exists>r. listenToPort s2 = Inr (r, s')"
      using assms(2) s1 by (auto simp: connectToMaster_def andThen_Inr_iff Let_def split: if_splits)
    have "P s2" by (rule register_keeps [OF 1 s2])
    then show ?thesis using c close_fd_keeps listenToPort_keeps by (auto split: if_splits)
  qed
qed

lemma ensure_master_keeps:
  assumes "P s" and "(if master_fd s = -1 then andThen (connectToMaster s) (\<lambda>(r, s). Inr s) else Inr s) = Inr s'"
  shows "P s'"
  using assms connectToMaster_keeps by (auto simp: andThen_Inr_iff split: if_splits)

end

text \<open>Then the laws of the steps the handlers are made of besides.\<close>

locale handler_invariant = connection_invariant +
  fixes L :: "('j, 'v) libs"
  assumes counters: "P s \<Longrightarrow> P (s\<lparr>bulk_size := n, cronloops := m\<rparr>)"
    and mode: "P s \<Longrightarrow> st \<in> {0..3} \<Longrightarrow> P (s\<lparr>proxy_state := st\<rparr>)"
    and close: "P s \<Longrightarrow> closeFd s = Inr s' \<Longrightarrow> P s'"
    and popped: "P s \<Longrightarrow> pop_cir_queue (que s) = Some (x, qu) \<Longrightarrow> P (s\<lparr>que := qu\<rparr>)"
    and pushed: "P s \<Longrightarrow> push_cir_queue (Some y) (que s) = Some qu \<Longrightarrow> P (s\<lparr>que := qu\<rparr>)"
    and asked_full: "P s \<Longrightarrow> is_full_cir_queue (que s) = Some (f, qu) \<Longrightarrow> P (s\<lparr>que := qu\<rparr>)"
    and kept_cmd: "P s \<Longrightarrow> 0 \<le> len b \<Longrightarrow> len b < MAX_READ \<Longrightarrow> P (s\<lparr>buf_master_cmd := b\<rparr>)"
    and kept_answer: "P s \<Longrightarrow> 0 \<le> len b \<Longrightarrow> len b < MAX_READ \<Longrightarrow> P (s\<lparr>buf_slave_answer := b\<rparr>)"
    and saved: "P s \<Longrightarrow> saveValue L object key s = Inr (r, s') \<Longrightarrow> P s'"
begin

lemma bulk: "P s \<Longrightarrow> P (s\<lparr>bulk_size := n\<rparr>)"
  using counters [where s = s and n = n and m = "cronloops s"] by simp

lemma cron: "P s \<Longrightarrow> P (s\<lparr>cronloops := n\<rparr>)"
  using counters [where s = s and n = "bulk_size s" and m = n] by simp

lemma readData_keeps:
  assumes "P s" and "readData fd n s = Inr (k, bs, s')"
  shows "P s'"
proof -
  obtain s1 where s1: "(if master_fd s = -1 then andThen (connectToMaster s) (\<lambda>(r, s). Inr s) else Inr s) = Inr s1"
    using assms(2) by (auto simp: readData_def andThen_Inr_iff)
  have 1: "P s1" by (rule ensure_master_keeps [OF assms(1) s1])
  show ?thesis
  proof (cases "fd = -1")
    case True
    then show ?thesis using assms(2) s1 1 by (simp add: readData_def)
  next
    case False
    obtain x s2 where s2: "syscall s1 = Inr (x, s2)" using assms(2) s1 False by (auto simp: readData_def andThen_Inr_iff)
    have "P s2" by (rule syscall_keeps [OF 1 s2])
    then show ?thesis using assms(2) s1 s2 False close act [where s = s2 and ev = "Received fd n (bytes x)"]
      by (auto simp: readData_def andThen_Inr_iff Let_def split: if_splits)
  qed
qed

lemma write_loop_keeps: "P s \<Longrightarrow> write_loop fd dat n k s = Inr (r, s') \<Longrightarrow> P s'"
proof (induction fd dat n k s rule: write_loop.induct)
  case (1 fd dat n k s)
  show ?case
  proof (cases "k < n")
    case False
    then show ?thesis using 1(3,4) by (simp add: write_loop_done)
  next
    case True
    obtain x s1 where x: "syscall s = Inr (x, s1)"
      using 1(4) True by (subst (asm) write_loop.simps) (auto split: sum.splits)
    note turn = write_loop_turn [OF True x, of fd dat]
    have s1: "P s1" by (rule syscall_keeps [OF 1(3) x])
    then have s2: "P (emit (Sent fd (bytes_at dat k (ret x))) s1)" by (rule act) simp
    show ?thesis
      using 1(4) 1(1) [OF True x refl refl] 1(2) [OF True x refl refl] s1 s2 close [OF s1] unfolding turn
      by (auto simp: andThen_Inr_iff split: if_splits)
  qed
qed

lemma writeData_keeps:
  assumes "P s" and "writeData fd dat n s = Inr (r, s')"
  shows "P s'"
proof -
  obtain s1 where s1: "(if master_fd s = -1 then andThen (connectToMaster s) (\<lambda>(r, s). Inr s) else Inr s) = Inr s1"
    using assms(2) by (auto simp: writeData_def andThen_Inr_iff)
  have 1: "P s1" by (rule ensure_master_keeps [OF assms(1) s1])
  then show ?thesis using assms(2) s1 write_loop_keeps [OF 1] by (auto simp: writeData_def split: if_splits)
qed

subsection \<open>Answers\<close>

lemma save_answer_keeps: "P s \<Longrightarrow> save_answer w i s = Inr s' \<Longrightarrow> P s'"
  using kept_answer saveToBuf_range by (auto simp: save_answer_def andThen_Inr_iff)

lemma save_cmd_keeps: "P s \<Longrightarrow> save_cmd w i s = Inr s' \<Longrightarrow> P s'"
  using kept_cmd saveToBuf_range by (auto simp: save_cmd_def andThen_Inr_iff)

lemma parse_items_keeps:
  "P s \<Longrightarrow> parse_items L w start i n key object s = Inr (r, s') \<Longrightarrow> P s'"
  by (drule parse_items_state) (auto intro: save_answer_keeps)

lemma popHandle_keeps:
  assumes "P s" and "popHandle L object s = Inr s'"
  shows "P s'"
proof -
  obtain e qu key r where "pop_cir_queue (que s) = Some (e, qu)" "saveValue L (Some object) key (s\<lparr>que := qu\<rparr>) = Inr (r, s')"
    using assms(2) by (auto simp: popHandle_def andThen_Inr_iff of_opt_def split: option.splits)
  then show ?thesis using saved [OF popped [OF assms(1)]] by blast
qed

lemma parseArray_keeps:
  assumes "P s" and "parseArray L w start s = Inr (r, s')"
  shows "P s'"
proof -
  obtain n i where d: "digits w (i32 (start + 1)) 0 = (n, i)" by (cases "digits w (i32 (start + 1)) 0")
  note eq = assms(2) [unfolded parseArray_def Let_def d prod.case]
  show ?thesis
  proof (cases "i32 (start + 1) \<ge> len w \<or> i \<ge> len w \<or> i32 (i + 2) > len w \<or> (i32 (i + 2) = len w \<and> n > 0)")
    case True
    then have "\<exists>r. andThen (save_answer w start s) (\<lambda>s. Inr (-1 :: int, s)) = Inr (r, s')"
      using eq by (auto split: if_splits)
    then show ?thesis using save_answer_keeps [OF assms(1)] by (auto simp: andThen_Inr_iff)
  next
    case False
    then obtain x s1 where x: "parse_items L w start (i32 (i + 2)) n Uninit (json_object L) s = Inr (x, s1)"
      and r: "case x of None \<Rightarrow> s' = s1 | Some (j, object) \<Rightarrow> popHandle L object s1 = Inr s'"
      using eq by (auto simp: andThen_Inr_iff split: option.splits)
    have "P s1" by (rule parse_items_keeps [OF assms(1) x])
    then show ?thesis using r popHandle_keeps by (auto split: option.splits)
  qed
qed

lemma parseBulkString_keeps:
  assumes "P s" and "parseBulkString w start s = Inr (r, s')"
  shows "P s'"
  using assms(2) save_answer_keeps [OF assms(1)]
  by (auto simp: parseBulkString_def andThen_Inr_iff Let_def split: if_splits prod.splits option.splits)

lemma parseSimple_keeps:
  assumes "P s" and "parseSimple w start s = Inr (r, s')"
  shows "P s'"
proof (cases "find_newline w (i32 (start + 1))")
  case None
  then show ?thesis using assms(2) save_answer_keeps [OF assms(1)] by (auto simp: parseSimple_def andThen_Inr_iff)
next
  case (Some i)
  show ?thesis
  proof (cases "data w i = CHR ''-'' \<or> i - start > 5")
    case True
    then obtain e qu where "pop_cir_queue (que s) = Some (e, qu)" "s' = s\<lparr>que := qu\<rparr>"
      using assms(2) Some by (auto simp: parseSimple_def andThen_Inr_iff of_opt_def split: option.splits)
    then show ?thesis using popped [OF assms(1)] by simp
  next
    case False
    then have "s' = s" using assms(2) Some by (simp add: parseSimple_def split: if_splits)
    then show ?thesis using assms(1) by simp
  qed
qed

lemma answer_turn_keeps:
  assumes "P s" and "answer_turn L w i s = Inr (r, s')"
  shows "P s'"
proof -
  have "(\<exists>j. parseArray L w i s = Inr (j, s')) \<or> (\<exists>j. parseBulkString w i s = Inr (j, s')) \<or>
      (\<exists>j. parseSimple w i s = Inr (j, s')) \<or> s' = s"
    using assms(2) by (auto simp: answer_turn_def andThen_Inr_iff split: if_splits)
  then show ?thesis
    using assms(1) parseArray_keeps [OF assms(1)] parseBulkString_keeps [OF assms(1)] parseSimple_keeps [OF assms(1)] by blast
qed

lemma answer_loop_keeps:
  assumes "P s" and "answer_loop L w i s = Some (Inr s')"
  shows "P s'"
proof -
  have "L = L \<longrightarrow> P s \<longrightarrow> (\<forall>s'. x = Inr s' \<longrightarrow> P s')" if "answer_loop L w i s = Some x" for x
  proof (rule answer_loop.raw_induct [where P = "\<lambda>L' w i s x. L' = L \<longrightarrow> P s \<longrightarrow> (\<forall>s'. x = Inr s' \<longrightarrow> P s')", OF _ that],
      intro allI impI)
    fix f L' w i s x s'
    assume ih: "\<And>L' w i s y. f L' w i s = Some y \<Longrightarrow> L' = L \<longrightarrow> P s \<longrightarrow> (\<forall>s'. y = Inr s' \<longrightarrow> P s')"
      and body: "(if 0 \<le> i \<and> i < len w
        then case answer_turn L' w i s of Inl e \<Rightarrow> Some (Inl e)
          | Inr r \<Rightarrow> (case fst r of None \<Rightarrow> Some (Inr (snd r)) | Some i \<Rightarrow> f L' w i (snd r))
        else Some (Inr s)) = Some x"
      and s: "L' = L" "P s" "x = Inr s'"
    show "P s'"
    proof (cases "0 \<le> i \<and> i < len w")
      case False
      then show ?thesis using body s by auto
    next
      case True
      then obtain r s1 where r: "answer_turn L w i s = Inr (r, s1)" using body s by (auto split: sum.splits)
      have "P s1" by (rule answer_turn_keeps [OF s(2) r])
      then show ?thesis using body True r s ih by (auto split: option.splits)
    qed
  qed
  then show ?thesis using assms by blast
qed

lemma parseReadData_keeps:
  assumes "P s" and "parseReadData L h w s = Some (Inr s')"
  shows "P s'"
proof -
  have "P (if len (buf_slave_answer s) > 0 then s\<lparr>buf_slave_answer := (buf_slave_answer s)\<lparr>len := 0\<rparr>\<rparr> else s)"
    using assms(1) kept_answer by (simp add: MAX_READ_def)
  then show ?thesis using assms(2) answer_loop_keeps by (auto simp: parseReadData_def split: sum.splits)
qed

lemma readDelValue_keeps:
  assumes "P s" and "readDelValue L h stack fd s = Some (Inr s')"
  shows "P s'"
proof -
  obtain n bs s1 where r: "readData fd MAX_READ s = Inr (n, bs, s1)"
    and "(if n > 0 then parseReadData L h (wdata_of bs n stack) s1 else Some (Inr s1)) = Some (Inr s')"
    using assms(2) by (auto simp: readDelValue_def split: sum.splits)
  then show ?thesis using parseReadData_keeps [OF readData_keeps [OF assms(1) r]] readData_keeps [OF assms(1) r]
    by (auto split: if_splits)
qed

subsection \<open>Commands\<close>

lemma queryKey_keeps:
  assumes "P s" and "queryKey n k s = Inr s'"
  shows "P s'"
proof -
  obtain f qu where f: "is_full_cir_queue (que s) = Some (f, qu)"
    using assms(2) by (auto simp: queryKey_def of_opt_def split: option.splits)
  have 1: "P (s\<lparr>que := qu\<rparr>)" by (rule asked_full [OF assms(1) f])
  show ?thesis
  proof (cases f)
    case True
    then show ?thesis using assms(2) f 1 by (simp add: queryKey_def of_opt_def)
  next
    case False
    then obtain wr s1 where w: "writeData (read_fd s) (mem_of (hgetall_cmd n k) (\<lambda>i. NUL)) (8 + 2 + n) (s\<lparr>que := qu\<rparr>) = Inr (wr, s1)"
      and r: "s' = s1 \<or> (\<exists>qu. push_cir_queue (Some k) (que s1) = Some qu \<and> s' = s1\<lparr>que := qu\<rparr>)"
      using assms(2) f by (auto simp: queryKey_def of_opt_def andThen_Inr_iff split: option.splits if_splits)
    have "P s1" by (rule writeData_keeps [OF 1 w])
    then show ?thesis using r pushed by blast
  qed
qed

lemma delParser_keeps:
  assumes "P s" and "delParser w start s = Inr (r, s')"
  shows "P s'"
proof -
  have "s' = s \<or> save_cmd w start s = Inr s' \<or> (\<exists>n k. queryKey n k s = Inr s')"
    using assms(2) by (auto simp: delParser_def andThen_Inr_iff Let_def split: if_splits prod.splits)
  then show ?thesis using assms(1) save_cmd_keeps queryKey_keeps by blast
qed

lemma del_turn_keeps:
  assumes "P s" and "del_turn beyond w i s = Inr (r, s')"
  shows "P s'"
proof -
  have "s' = s \<or> save_cmd w (i - 1) s = Inr s' \<or> (\<exists>j. delParser w i s = Inr (j, s'))"
    using assms(2) by (auto simp: del_turn_def andThen_Inr_iff Let_def split: if_splits)
  then show ?thesis using assms(1) save_cmd_keeps delParser_keeps by blast
qed

lemma del_loop_keeps:
  assumes "P s" and "del_loop beyond w i s = Some (Inr s')"
  shows "P s'"
proof -
  have "P s \<longrightarrow> (\<forall>s'. x = Inr s' \<longrightarrow> P s')" if "del_loop beyond w i s = Some x" for x
  proof (rule del_loop.raw_induct [where P = "\<lambda>b w i s x. P s \<longrightarrow> (\<forall>s'. x = Inr s' \<longrightarrow> P s')", OF _ that],
      intro allI impI)
    fix f b w i s x s'
    assume ih: "\<And>b w i s y. f b w i s = Some y \<Longrightarrow> P s \<longrightarrow> (\<forall>s'. y = Inr s' \<longrightarrow> P s')"
      and body: "(if i < len w then
          if find_star w i < len w then
            case del_turn b w (find_star w i) s of Inl e \<Rightarrow> Some (Inl e)
            | Inr r \<Rightarrow> (case fst r of None \<Rightarrow> Some (Inr (snd r)) | Some i \<Rightarrow> f b w i (snd r))
          else Some (Inr s)
        else Some (Inr s)) = Some x"
      and s: "P s" "x = Inr s'"
    show "P s'"
    proof (cases "i < len w \<and> find_star w i < len w")
      case False
      then show ?thesis using body s by (auto split: if_splits)
    next
      case True
      then obtain r s1 where r: "del_turn b w (find_star w i) s = Inr (r, s1)" using body s by (auto split: sum.splits)
      have "P s1" by (rule del_turn_keeps [OF s(1) r])
      then show ?thesis using body True r s ih by (auto split: option.splits)
    qed
  qed
  then show ?thesis using assms by blast
qed

lemma processInputBuffer_keeps:
  assumes "P s" and "processInputBuffer beyond h w s = Some (Inr s')"
  shows "P s'"
proof -
  have "P (if len (buf_master_cmd s) > 0 then s\<lparr>buf_master_cmd := (buf_master_cmd s)\<lparr>len := 0\<rparr>\<rparr> else s)"
    using assms(1) kept_cmd by (simp add: MAX_READ_def)
  then show ?thesis using assms(2) del_loop_keeps by (auto simp: processInputBuffer_def split: sum.splits)
qed


subsection \<open>The handlers\<close>

lemma readFromSlave_keeps:
  assumes "P s" and "readFromSlave stack fd s = Inr s'"
  shows "P s'"
proof -
  obtain n bs s1 where r: "readData fd MAX_READ s = Inr (n, bs, s1)"
    using assms(2) by (auto simp: readFromSlave_def andThen_Inr_iff)
  have 1: "P s1" by (rule readData_keeps [OF assms(1) r])
  then have 2: "P (if b then s1\<lparr>proxy_state := SYNC_START_STATE\<rparr> else s1)" for b
    using mode by (simp add: SYNC_START_STATE_def)
  show ?thesis
  proof (cases "n \<le> 0")
    case True
    then show ?thesis using assms(2) r 1 by (simp add: readFromSlave_def)
  next
    case False
    then have "(\<exists>dat wr. writeData (master_fd s1) dat n (s1\<lparr>proxy_state := SYNC_START_STATE\<rparr>) = Inr (wr, s')) \<or>
        (\<exists>dat wr. writeData (master_fd s1) dat n s1 = Inr (wr, s'))"
      using assms(2) r by (auto simp: readFromSlave_def andThen_Inr_iff Let_def split: if_splits)
    then show ?thesis using writeData_keeps [OF 1] writeData_keeps [OF 2 [of True]] by auto
  qed
qed

lemma sync_line_keeps:
  assumes "P s" and "sync_line fd line s = Some (Inr (r, s'))"
  shows "P s'"
proof -
  have "P s \<longrightarrow> (\<forall>r s'. x = Inr (r, s') \<longrightarrow> P s')" if "sync_line fd line s = Some x" for x
  proof (rule sync_line.raw_induct [where P = "\<lambda>fd line s x. P s \<longrightarrow> (\<forall>r s'. x = Inr (r, s') \<longrightarrow> P s')", OF _ that],
      intro allI impI)
    fix f fd line s x r s'
    assume ih: "\<And>fd line s y. f fd line s = Some y \<Longrightarrow> P s \<longrightarrow> (\<forall>r s'. y = Inr (r, s') \<longrightarrow> P s')"
      and body: "(if int (length line) \<ge> MAX_READ then Some (Inl Undefined)
      else case readData fd 1 s of
        Inl e \<Rightarrow> Some (Inl e)
      | Inr r \<Rightarrow>
          (if fst r < 0 then Some (Inr (None, snd (snd r)))
           else if fst r = 0 then f fd line (snd (snd r))
           else (case writeData (client_fd (snd (snd r))) (mem_of (fst (snd r)) (\<lambda>i. NUL)) 1 (snd (snd r)) of
              Inl e \<Rightarrow> Some (Inl e)
            | Inr w \<Rightarrow>
                (if fst w = -1 then Some (Inr (None, snd w))
                 else if hd (fst (snd r)) = CHR 0x0A
                 then (if line \<noteq> [] then Some (Inr (Some line, snd w)) else f fd line (snd w))
                 else f fd (line @ [hd (fst (snd r))]) (snd w))))) = Some x"
      and s: "P s" "x = Inr (r, s')"
    obtain n bs s1 where rd: "readData fd 1 s = Inr (n, bs, s1)"
      using body s by (auto split: if_splits sum.splits)
    have 1: "P s1" by (rule readData_keeps [OF s(1) rd])
    show "P s'"
    proof (cases "n \<le> 0")
      case True
      then show ?thesis using body rd 1 s ih by (auto split: if_splits)
    next
      case False
      then obtain wr s2 where w: "writeData (client_fd s1) (mem_of bs (\<lambda>i. NUL)) 1 s1 = Inr (wr, s2)"
        using body rd s by (auto split: if_splits sum.splits)
      have "P s2" by (rule writeData_keeps [OF 1 w])
      then show ?thesis using body rd w False s ih by (auto split: if_splits)
    qed
  qed
  then show ?thesis using assms by blast
qed

lemma sync_payload_keeps:
  assumes "P s" and "sync_payload fd s = Some (Inr (r, s'))"
  shows "P s'"
proof -
  have "P s \<longrightarrow> (\<forall>r s'. x = Inr (r, s') \<longrightarrow> P s')" if "sync_payload fd s = Some x" for x
  proof (rule sync_payload.raw_induct [where P = "\<lambda>fd s x. P s \<longrightarrow> (\<forall>r s'. x = Inr (r, s') \<longrightarrow> P s')", OF _ that],
      intro allI impI)
    fix f fd s x r s'
    assume ih: "\<And>fd s y. f fd s = Some y \<Longrightarrow> P s \<longrightarrow> (\<forall>r s'. y = Inr (r, s') \<longrightarrow> P s')"
      and body: "(if bulk_size s \<noteq> 0 then
        (case readData fd (if bulk_size s > MAX_READ then MAX_READ else bulk_size s) s of
           Inl e \<Rightarrow> Some (Inl e)
         | Inr r \<Rightarrow>
             (if fst r < 0 then Some (Inr (False, snd (snd r)))
              else if fst r = 0 then f fd (snd (snd r))
              else (case writeData (client_fd (snd (snd r))) (mem_of (fst (snd r)) (\<lambda>i. NUL)) (fst r) (snd (snd r)) of
                 Inl e \<Rightarrow> Some (Inl e)
               | Inr w \<Rightarrow>
                   (if fst w = -1 then Some (Inr (False, snd w))
                    else f fd ((snd w)\<lparr>bulk_size := bulk_size (snd w) - fst r\<rparr>)))))
      else Some (Inr (True, s))) = Some x"
      and s: "P s" "x = Inr (r, s')"
    let ?sz = "if bulk_size s > MAX_READ then MAX_READ else bulk_size s"
    show "P s'"
    proof (cases "bulk_size s = 0")
      case True
      then show ?thesis using body s by simp
    next
      case go: False
      then obtain n bs s1 where rd: "readData fd ?sz s = Inr (n, bs, s1)" using body s by (auto split: sum.splits)
      have 1: "P s1" by (rule readData_keeps [OF s(1) rd])
      show ?thesis
      proof (cases "n \<le> 0")
        case True
        then show ?thesis using body go rd 1 s ih by (auto split: if_splits)
      next
        case False
        then obtain wr s2 where w: "writeData (client_fd s1) (mem_of bs (\<lambda>i. NUL)) n s1 = Inr (wr, s2)"
          using body go rd s by (auto split: sum.splits)
        have 2: "P s2" by (rule writeData_keeps [OF 1 w])
        then have "P (s2\<lparr>bulk_size := bulk_size s2 - n\<rparr>)" by (rule bulk)
        then show ?thesis using body go rd w False s ih 2 by (auto split: if_splits)
      qed
    qed
  qed
  then show ?thesis using assms by blast
qed

text \<open>What \<open>readFromMaster\<close> does outside a synchronisation.\<close>

lemma pass_on_keeps:
  assumes "P s" and "andThen (writeData fd dat n s) (\<lambda>(wr, s). Inr s) = Inr s'"
  shows "P s'"
  using assms writeData_keeps [OF assms(1)] by (auto simp: andThen_Inr_iff)

lemma readFromMaster_keeps:
  assumes "P s" and "readFromMaster beyond h stack fd s = Some (Inr s')"
  shows "P s'"
proof -
  consider (start) "proxy_state s = SYNC_START_STATE" | (sync) "proxy_state s = SYNC_STATE"
    | (plain) "proxy_state s \<noteq> SYNC_START_STATE" "proxy_state s \<noteq> SYNC_STATE" by blast
  then show ?thesis
  proof cases
    case start
    then obtain r s1 where l: "sync_line fd [] s = Some (Inr (r, s1))"
      and r: "s' = s1 \<or> s' = s1\<lparr>bulk_size := signed_take_bit 63 (strtoull (c_str (tl (the r)))), proxy_state := SYNC_STATE\<rparr>"
      using assms(2) by (auto simp: readFromMaster_def split: option.splits sum.splits if_splits)
    have 1: "P s1" by (rule sync_line_keeps [OF assms(1) l])
    have "P (s1\<lparr>bulk_size := n, proxy_state := SYNC_STATE\<rparr>)" for n
      using mode [OF bulk [OF 1, of n], of SYNC_STATE] by (simp add: SYNC_STATE_def)
    then show ?thesis using r 1 by blast
  next
    case sync
    then have "proxy_state s \<noteq> SYNC_START_STATE" by (simp add: SYNC_STATE_def SYNC_START_STATE_def)
    then obtain b s1 where l: "sync_payload fd s = Some (Inr (b, s1))"
      and r: "s' = (if b then s1\<lparr>proxy_state := RUNNING_STATE\<rparr> else s1)"
      using assms(2) sync by (auto simp: readFromMaster_def split: option.splits sum.splits)
    have 1: "P s1" by (rule sync_payload_keeps [OF assms(1) l])
    then show ?thesis using r mode [OF 1, of RUNNING_STATE] by (simp add: RUNNING_STATE_def)
  next
    case plain
    obtain n bs s1 where rd: "readData fd MAX_READ s = Inr (n, bs, s1)"
      using assms(2) plain by (auto simp: readFromMaster_def split: sum.splits)
    have 1: "P s1" by (rule readData_keeps [OF assms(1) rd])
    show ?thesis
    proof (cases "n > 0")
      case False
      then show ?thesis using assms(2) plain rd 1 by (simp add: readFromMaster_def)
    next
      case n: True
      show ?thesis
      proof (cases "proxy_state s1 = RUNNING_STATE")
        case True
        then obtain s2 where p: "processInputBuffer beyond h (wdata_of bs n stack) s1 = Some (Inr s2)"
          and w: "andThen (writeData (client_fd s2) (data (wdata_of bs n stack)) (len (wdata_of bs n stack)) s2)
            (\<lambda>(wr, s). Inr s) = Inr s'"
          using assms(2) plain rd n by (auto simp: readFromMaster_def Let_def split: option.splits sum.splits)
        show ?thesis by (rule pass_on_keeps [OF processInputBuffer_keeps [OF 1 p] w])
      next
        case False
        let ?w = "wdata_of bs n stack"
        define s2 where "s2 = (if n > 9 \<and> n < 100 \<and> (take 9 (bytes_at (data ?w) 0 9) = continue_reply \<or>
            bytes_at (data ?w) 0 11 = fullresync_reply) then s1\<lparr>proxy_state := SYNC_START_STATE\<rparr> else s1)"
        have "P s2" unfolding s2_def using 1 mode [OF 1, of SYNC_START_STATE] by (simp add: SYNC_START_STATE_def)
        moreover have "andThen (writeData (client_fd s2) (data ?w) (len ?w) s2) (\<lambda>(wr, s). Inr s) = Inr s'"
          using assms(2) plain rd n False unfolding s2_def by (simp add: readFromMaster_def Let_def)
        ultimately show ?thesis by (rule pass_on_keeps)
      qed
    qed
  qed
qed

lemma timeEvent_keeps:
  assumes "P s" and "timeEvent s = Inr (r, s')"
  shows "P s'" "r = 100"
proof -
  obtain s1 where s1: "s1 = s \<or>
      (if master_fd s = -1 then andThen (connectToMaster s) (\<lambda>(r, s). Inr s) else Inr s) = Inr s1"
    and r: "r = 100" "s' = s1\<lparr>cronloops := cronloops s1 + 1\<rparr>"
    using assms(2) by (auto simp: timeEvent_def andThen_Inr_iff split: if_splits)
  show "P s'" unfolding r(2) using s1 cron ensure_master_keeps [OF assms(1)] assms(1) by blast
  show "r = 100" by (fact r(1))
qed

lemma readDataFromSlave_keeps:
  assumes "P s" and "readDataFromSlave fd s = Inr s'"
  shows "P s'"
proof (cases "fd = -1")
  case True
  then show ?thesis using assms by (simp add: readDataFromSlave_def)
next
  case False
  then obtain ci s1 where c: "register fd ReadFromSlave s = Inr (ci, s1)"
    using assms(2) by (auto simp: readDataFromSlave_def andThen_Inr_iff)
  have 1: "P s1" by (rule register_keeps [OF assms(1) c])
  show ?thesis
  proof (cases "ci = AE_ERR \<or> read_fd s1 \<noteq> -1")
    case True
    then show ?thesis using assms(2) False c 1 close [OF 1] by (auto simp: readDataFromSlave_def split: if_splits)
  next
    case go: False
    then obtain x s2 where x: "syscall s1 = Inr (x, s2)"
      using assms(2) False c by (auto simp: readDataFromSlave_def andThen_Inr_iff)
    have 2: "P (s2\<lparr>read_fd := ret x\<rparr>)" by (rule reader [OF syscall_keeps [OF 1 x]])
    show ?thesis
    proof (cases "ret x = -1")
      case True
      then show ?thesis using assms(2) False c go x close [OF 2] by (simp add: readDataFromSlave_def)
    next
      case conn: False
      then obtain st s3 where st: "register (ret x) ReadDelValue (s2\<lparr>read_fd := ret x\<rparr>) = Inr (st, s3)"
        and e: "if st = AE_ERR then closeFd s3 = Inr s' else s3 = s'"
        using assms(2) False c go x by (auto simp: readDataFromSlave_def andThen_Inr_iff Let_def split: if_splits)
      have "P s3" by (rule register_keeps [OF 2 st])
      then show ?thesis using e close by (auto split: if_splits)
    qed
  qed
qed

lemma acceptTcpHandler_keeps:
  assumes "P s" and "acceptTcpHandler fd s = Inr s'"
  shows "P s'"
proof (cases "master_fd s = -1")
  case True
  then show ?thesis using assms by (simp add: acceptTcpHandler_def)
next
  case False
  let ?s = "if client_fd s \<noteq> -1 then close_fd (client_fd s) s else s"
  have 0: "P ?s" using assms(1) close_fd_keeps by simp
  obtain x s1 where x: "syscall ?s = Inr (x, s1)"
    and r: "readDataFromSlave (ret x) (s1\<lparr>client_fd := ret x\<rparr>) = Inr s'"
    using assms(2) False by (auto simp: acceptTcpHandler_def andThen_Inr_iff Let_def split: if_splits)
  have "P (s1\<lparr>client_fd := ret x\<rparr>)" by (rule client [OF syscall_keeps [OF 0 x]])
  then show ?thesis using r readDataFromSlave_keeps by blast
qed

end

end
