(* ===== verification/ProxyReach.thy ===== *)
theory ProxyReach
  imports ProxyLoop ProxyInv
begin

text \<open>
  The states the running proxy can be in: those \<open>main\<close> of \<^verbatim>\<open>proxy/main.c\<close> starts in, and those a
  turn of \<open>aeMain\<close> leads to, whatever the master, the slave, the file servers, the clock and the
  kernel answer.  A property closed under the steps of the handlers and under what the loop does to
  the timers holds in all of them; the main results are the shape every reachable state has and
  that the values only go to the configured servers.
\<close>

subsection \<open>What a turn of the loop keeps\<close>

lemma world_simps:
  "get_loop (proxy_world e) = loop" "put_loop (proxy_world e) = (\<lambda>l s. s\<lparr>loop := l\<rparr>)"
  "clock (proxy_world e) s = (time_ms e s, s)" "epoll_wait (proxy_world e) t s = (ready e t s, s)"
  "run_timer (proxy_world e) p i s = timeEvent s" "run_file (proxy_world e) p fd c m s = call_proc e p fd s"
  by (simp_all add: proxy_world_def)

locale loop_invariant = handler_invariant +
  assumes timers: "P s \<Longrightarrow> (\<And>te. te_id (f te) = te_id te \<and> timeProc (f te) = timeProc te \<and> finalizerProc (f te) = finalizerProc te) \<Longrightarrow>
      P (s\<lparr>loop := (loop s)\<lparr>timeEventHead := map f (timeEventHead (loop s)), lastTime := t\<rparr>\<rparr>)"
begin

lemma call_proc_keeps:
  assumes "P s" and "libraries e = L" and "call_proc e p fd s = Inr s'"
  shows "P s'"
proof (cases p)
  case ReadFromMaster
  then have "readFromMaster (beyond_char e) (heap_bytes e) (stack_bytes e) fd s = Some (Inr s')"
    using assms(3) by (simp add: call_proc_def settle_def split: option.splits)
  then show ?thesis by (rule readFromMaster_keeps [OF assms(1)])
next
  case ReadDelValue
  then have "readDelValue L (heap_bytes e) (stack_bytes e) fd s = Some (Inr s')"
    using assms(2,3) by (simp add: call_proc_def settle_def split: option.splits)
  then show ?thesis by (rule readDelValue_keeps [OF assms(1)])
next
  case ReadFromSlave
  then have "readFromSlave (stack_bytes e) fd s = Inr s'" using assms(3) by (simp add: call_proc_def)
  then show ?thesis by (rule readFromSlave_keeps [OF assms(1)])
next
  case AcceptTcpHandler
  then have "acceptTcpHandler fd s = Inr s'" using assms(3) by (simp add: call_proc_def)
  then show ?thesis by (rule acceptTcpHandler_keeps [OF assms(1)])
next
  case TimeEvent
  then obtain r where "timeEvent s = Inr (r, s')" using assms(3) by (auto simp: call_proc_def andThen_Inr_iff)
  then show ?thesis by (rule timeEvent_keeps(1) [OF assms(1)])
qed

lemma fire_file_keeps:
  assumes "P s" and "libraries e = L" and "fire_file (proxy_world e) f s = Inr s'"
  shows "P s'"
proof -
  obtain fd m where f: "f = (fd, m)" by (cases f)
  have call: "P s2" if "P s1" "call_file (proxy_world e) h fd c m s1 = Inr s2" for h c s1 s2
    using that call_proc_keeps [OF that(1) assms(2)] by (auto simp: call_file_def proxy_world_def split: option.splits)
  obtain fe where fe: "file_event (proxy_world e) fd s = Inr fe"
    using assms(3) by (auto simp: fire_file_def f andThen_Inr_iff)
  define rfired where "rfired = (mask fe AND m AND AE_READABLE \<noteq> 0)"
  obtain s1 where 1: "(if rfired then call_file (proxy_world e) (rfileProc fe) fd (clientData fe) m s else Inr s) = Inr s1"
    and 2: "andThen (file_event (proxy_world e) fd s1) (\<lambda>fe.
        if mask fe AND m AND AE_WRITABLE \<noteq> 0 \<and> (\<not> rfired \<or> wfileProc fe \<noteq> rfileProc fe)
        then call_file (proxy_world e) (wfileProc fe) fd (clientData fe) m s1 else Inr s1) = Inr s'"
    using assms(3) unfolding fire_file_def f prod.case Let_def fe andThen_simps rfired_def [symmetric] andThen_Inr_iff [of "if rfired then _ else _"]
    by blast
  have 3: "P s1" using 1 assms(1) call by (auto split: if_split_asm)
  obtain fe' :: "proc aeFileEvent"
    where "s' = s1 \<or> call_file (proxy_world e) (wfileProc fe') fd (clientData fe') m s1 = Inr s'"
    using 2 by (auto simp: andThen_Inr_iff split: if_split_asm)
  then show ?thesis using 3 call by blast
qed

lemma fire_files_keeps:
  "P s \<Longrightarrow> libraries e = L \<Longrightarrow> fire_files (proxy_world e) fs n s = Inr (k, s') \<Longrightarrow> P s'"
  by (induction fs arbitrary: n s) (auto simp: andThen_Inr_iff dest: fire_file_keeps)

lemma poll_files_keeps:
  "P s \<Longrightarrow> libraries e = L \<Longrightarrow> poll_files (proxy_world e) flags s = Inr (k, s') \<Longrightarrow> P s'"
  by (auto simp: poll_files_def proxy_world_def Let_def split: prod.splits if_splits dest: fire_files_keeps [unfolded proxy_world_def])

lemma fire_timer_keeps:
  assumes "P s" and "fire_timer (proxy_world e) te s = Inr s'"
  shows "P s'"
proof -
  obtain r s1 where t: "timeEvent s = Inr (r, s1)" "(if r \<noteq> AE_NOMORE then reschedule (proxy_world e) (te_id te) r s1
      else delete_timer (proxy_world e) (te_id te) s1) = Inr s'"
    using assms(2) unfolding fire_timer_def world_simps andThen_Inr_iff by auto
  have 1: "P s1" and r: "r = 100" using timeEvent_keeps [OF assms(1) t(1)] by auto
  let ?f = "\<lambda>(sec, ms) u. if te_id u = te_id te then u\<lparr>when_sec := sec, when_ms := ms\<rparr> else u"
  have "P (s1\<lparr>loop := (loop s1)\<lparr>timeEventHead := map (?f w) (timeEventHead (loop s1)), lastTime := lastTime (loop s1)\<rparr>\<rparr>)" for w
    by (rule timers [OF 1]) (simp split: prod.split)
  moreover obtain w where "s' = s1\<lparr>loop := (loop s1)\<lparr>timeEventHead := map (?f w) (timeEventHead (loop s1)), lastTime := lastTime (loop s1)\<rparr>\<rparr>"
    using t(2) by (auto simp: r AE_NOMORE_def reschedule_def world_simps upd_loop_def Let_def split: prod.splits if_splits)
  ultimately show ?thesis by simp
qed

lemma timer_walk_keeps:
  assumes "P s" and "timer_walk (proxy_world e) m tes n s = Some (Inr (k, s'))"
  shows "P s'"
proof -
  let ?Q = "\<lambda>w m tes n s x. w = proxy_world e \<longrightarrow> P s \<longrightarrow> (\<forall>k s'. x = Inr (k, s') \<longrightarrow> P s')"
  have "?Q (proxy_world e) m tes n s x" if "timer_walk (proxy_world e) m tes n s = Some x" for x
  proof (rule timer_walk.raw_induct [where P = ?Q, OF _ that], intro allI impI)
    fix g w m tes n s x k s'
    assume ih: "\<And>w m tes n s y. g w m tes n s = Some y \<Longrightarrow> ?Q w m tes n s y"
      and body: "(case tes of
        [] \<Rightarrow> Some (Inr (n, s))
      | te # rest' \<Rightarrow>
          if te_id te > m then g w m rest' n s
          else
            case clock w s of (now, s1) \<Rightarrow>
            if timer_due now te then
              (case fire_timer w te s1 of
                 Inl e \<Rightarrow> Some (Inl e)
               | Inr s2 \<Rightarrow> g w m (timeEventHead (get_loop w s2)) (n + 1) s2)
            else g w m rest' n s1) = Some x"
      and s: "w = proxy_world e" "P s" "x = Inr (k, s')"
    show "P s'"
    proof (cases tes)
      case Nil
      then show ?thesis using body s by simp
    next
      case (Cons te rest)
      have c: "clock w s = (time_ms e s, s)" by (simp add: s(1) proxy_world_def)
      show ?thesis
      proof (cases "te_id te > m \<or> \<not> timer_due (time_ms e s) te")
        case True
        then have "g w m rest n s = Some x" using body Cons c by (auto split: if_splits)
        then show ?thesis using ih s by blast
      next
        case False
        then obtain s2 where f: "fire_timer w te s = Inr s2" and y: "g w m (timeEventHead (get_loop w s2)) (n + 1) s2 = Some x"
          using body Cons c s(3) by (auto split: if_splits sum.splits)
        have "P s2" using fire_timer_keeps [OF s(2)] f s(1) by simp
        then show ?thesis using ih [OF y] s by blast
      qed
    qed
  qed
  then show ?thesis using assms by blast
qed

lemma processTimeEvents_keeps:
  assumes "P s" and "processTimeEvents (proxy_world e) s = Some (Inr (k, s'))"
  shows "P s'"
proof -
  define now where "now = time_ms e s div 1000"
  define s1 where "s1 = upd_loop (proxy_world e) (fix_clock_skew now) s"
  let ?f = "\<lambda>te. if now < lastTime (loop s) then te\<lparr>when_sec := 0\<rparr> else te"
  have "map ?f (timeEventHead (loop s)) = (if now < lastTime (loop s) then map (\<lambda>te. te\<lparr>when_sec := 0\<rparr>) (timeEventHead (loop s))
      else timeEventHead (loop s))" by simp
  then have "s1 = s\<lparr>loop := (loop s)\<lparr>timeEventHead := map ?f (timeEventHead (loop s)), lastTime := now\<rparr>\<rparr>"
    by (simp add: s1_def upd_loop_def world_simps fix_clock_skew_def)
  moreover have "P (s\<lparr>loop := (loop s)\<lparr>timeEventHead := map ?f (timeEventHead (loop s)), lastTime := now\<rparr>\<rparr>)"
    by (rule timers [OF assms(1)]) simp
  ultimately have "P s1" by simp
  moreover have "\<exists>m tes. timer_walk (proxy_world e) m tes 0 s1 = Some (Inr (k, s'))"
    using assms(2) unfolding processTimeEvents_def world_simps prod.case Let_def s1_def now_def by blast
  ultimately show ?thesis using timer_walk_keeps by blast
qed

lemma aeProcessEvents_keeps:
  assumes "P s" and "libraries e = L" and "aeProcessEvents (proxy_world e) flags s = Some (Inr (k, s'))"
  shows "P s'"
proof -
  let ?r = "if maxfd (loop s) \<noteq> - 1 \<or> (flags AND AE_TIME_EVENTS \<noteq> 0 \<and> flags AND AE_DONT_WAIT = 0)
      then poll_files (proxy_world e) flags s else Inr (0, s)"
  show ?thesis
  proof (cases "flags AND AE_TIME_EVENTS = 0 \<and> flags AND AE_FILE_EVENTS = 0")
    case True
    then show ?thesis using assms(1,3) by (simp add: aeProcessEvents_def)
  next
    case False
    then have turn: "(case ?r of Inl e \<Rightarrow> Some (Inl e)
        | Inr (processed, s) \<Rightarrow>
            if flags AND AE_TIME_EVENTS \<noteq> 0
            then map_option (map_sum id (\<lambda>(n, s). (processed + n, s))) (processTimeEvents (proxy_world e) s)
            else Some (Inr (processed, s))) = Some (Inr (k, s'))"
      using assms(3) unfolding aeProcessEvents_def world_simps by (simp only: if_False)
    then obtain n s1 where 1: "?r = Inr (n, s1)" by (cases ?r) auto
    have 2: "s' = s1 \<or> (\<exists>k. processTimeEvents (proxy_world e) s1 = Some (Inr (k, s')))"
    proof (cases "flags AND AE_TIME_EVENTS = 0")
      case True
      then show ?thesis using turn unfolding 1 by simp
    next
      case False
      then have "map_option (map_sum id (\<lambda>(k, s). (n + k, s))) (processTimeEvents (proxy_world e) s1) = Some (Inr (k, s'))"
        using turn unfolding 1 by simp
      then obtain x where "processTimeEvents (proxy_world e) s1 = Some x" "map_sum id (\<lambda>(k, s). (n + k, s)) x = Inr (k, s')"
        by blast
      then show ?thesis by (cases x) auto
    qed
    have "P s1" using 1 assms(1,2) poll_files_keeps by (auto split: if_splits)
    then show ?thesis using 2 processTimeEvents_keeps by blast
  qed
qed

end

subsection \<open>The shape of a reachable state\<close>

text \<open>
  The event table: 1024 entries, the highest one in use is \<open>maxfd\<close>, each is free or waits for
  input with a handler, and what the kernel watches is in the table.  (The table may know
  more than the kernel: \<open>acceptTcpHandler\<close> closes a descriptor that stays in the table.)
\<close>

definition table_ok :: "proc aeEventLoop \<Rightarrow> bool" where
  "table_ok l \<longleftrightarrow> setsize l = 1024 \<and> length (events l) = 1024 \<and> -1 \<le> maxfd l \<and> maxfd l < 1024 \<and>
     (\<forall>i < 1024. maxfd l < int i \<longrightarrow> mask (events l ! i) = AE_NONE) \<and>
     (\<forall>i < 1024. mask (events l ! i) = AE_NONE \<or>
        mask (events l ! i) = AE_READABLE \<and> rfileProc (events l ! i) \<noteq> None) \<and>
     (\<forall>fd. apidata l fd \<noteq> None \<longrightarrow> 0 \<le> fd \<and> fd < 1024 \<and> mask (events l ! nat fd) = AE_READABLE)"

text \<open>Nobody stops the loop, and nothing runs before it sleeps.\<close>

definition loop_runs :: "proc aeEventLoop \<Rightarrow> bool" where
  "loop_runs l \<longleftrightarrow> \<not> stop l \<and> beforesleep l = None"

definition buffer_ok :: "WData \<Rightarrow> bool" where
  "buffer_ok b \<longleftrightarrow> 0 \<le> len b \<and> len b < MAX_READ"

definition keys_ok :: "queue_env \<Rightarrow> bool" where
  "keys_ok qu \<longleftrightarrow> env_wf qu \<and> None \<notin> set (env_list qu)"

text \<open>Every request went to a configured file server or to a configured backup.\<close>

definition posts_ok :: "(string \<times> string) list \<Rightarrow> proxy \<Rightarrow> bool" where
  "posts_ok hosts s \<longleftrightarrow> (\<forall>u v. Posted u v \<in> set (trace s) \<longrightarrow>
     (\<exists>(m, b) \<in> set hosts. \<exists>k. u = post_url m k \<or> u = post_url b k))"

definition shape_ok :: "(string \<times> string) list \<Rightarrow> proxy \<Rightarrow> bool" where
  "shape_ok hosts s \<longleftrightarrow> table_ok (loop s) \<and> loop_runs (loop s) \<and> keys_ok (que s) \<and>
     buffer_ok (buf_master_cmd s) \<and> buffer_ok (buf_slave_answer s) \<and>
     proxy_state s \<in> {START_STATE, SYNC_START_STATE, SYNC_STATE, RUNNING_STATE} \<and>
     store_ok hosts s \<and> posts_ok hosts s"

text \<open>The heart beat: the only timer is the one \<open>time_event_id\<close> names, and it runs \<open>timeEvent\<close>.\<close>

definition beats :: "proxy \<Rightarrow> bool" where
  "beats s \<longleftrightarrow> (\<exists>te. timeEventHead (loop s) = [te] \<and> te_id te = time_event_id s \<and> timeProc te = TimeEvent \<and>
     finalizerProc te = None \<and> te_id te < timeEventNextId (loop s))"

definition sound :: "(string \<times> string) list \<Rightarrow> proxy \<Rightarrow> bool" where
  "sound hosts s \<longleftrightarrow> shape_ok hosts s \<and> beats s"

subsection \<open>The steps keep the shape\<close>

lemma table_entry:
  assumes "table_ok l" and "0 \<le> fd" and "fd < 1024"
  shows "mask (events l ! nat fd) = AE_NONE \<or>
    mask (events l ! nat fd) = AE_READABLE \<and> rfileProc (events l ! nat fd) \<noteq> None"
proof -
  have "nat fd < 1024" using assms by simp
  then show ?thesis using assms(1) unfolding table_ok_def by blast
qed

lemma event_table_created:
  assumes "aeCreateFileEvent ok l fd AE_READABLE p c = Inr (r, l')" and "table_ok l"
  shows "table_ok l' \<and> timeEventHead l' = timeEventHead l \<and> timeEventNextId l' = timeEventNextId l \<and>
    stop l' = stop l \<and> beforesleep l' = beforesleep l"
proof (cases "l' = l")
  case True
  then show ?thesis using assms(2) by simp
next
  case False
  have sz: "setsize l = 1024" "length (events l) = 1024" using assms(2) by (simp_all add: table_ok_def)
  have fd: "0 \<le> fd" "fd < 1024" using assms(1) False sz by (auto simp: aeCreateFileEvent_def split: if_splits)
  have entry: "mask (events l ! nat fd) = AE_NONE \<or> mask (events l ! nat fd) = AE_READABLE"
    using table_entry [OF assms(2) fd] by blast
  obtain w l1 where l1: "aeApiAddEvent ok l fd AE_READABLE = (0, l1)" "l1 = l\<lparr>apidata := w\<rparr>"
    and w: "\<And>d. d \<noteq> fd \<Longrightarrow> w d = apidata l d"
    using assms(1) False fd sz
    by (auto simp: aeCreateFileEvent_def aeApiAddEvent_def epoll_ctl_def Let_def split: prod.splits if_splits)
  let ?fe = "(events l ! nat fd)\<lparr>mask := AE_READABLE, rfileProc := Some p, clientData := c\<rparr>"
  have or: "mask (events l ! nat fd) OR AE_READABLE = AE_READABLE" using entry by (auto simp: ae_const)
  have "AE_READABLE AND AE_READABLE \<noteq> 0" "AE_READABLE AND AE_WRITABLE = 0" by (simp_all add: ae_const)
  then have l': "l' = (l1\<lparr>events := (events l)[nat fd := ?fe]\<rparr>)\<lparr>maxfd := max (maxfd l) fd\<rparr>"
    using assms(1) fd sz or by (auto simp: aeCreateFileEvent_def l1 Let_def)
  have "events l' ! i = (if i = nat fd then ?fe else events l ! i)" if "i < 1024" for i
    using that sz by (auto simp: l' l1(2))
  moreover have "apidata l' d = (if d = fd then w fd else apidata l d)" for d using w by (simp add: l' l1(2))
  moreover have "setsize l' = 1024" "length (events l') = 1024" "maxfd l' = max (maxfd l) fd"
    using sz by (simp_all add: l' l1(2))
  ultimately have "table_ok l'" using assms(2) fd unfolding table_ok_def by auto
  then show ?thesis by (simp add: l' l1(2))
qed

lemma table_forget: "table_ok l \<Longrightarrow> table_ok (epoll_close fd l)"
  by (auto simp: table_ok_def epoll_close_def)

lemma scan_down_bounds: "- 1 \<le> scan_down evs n" "scan_down evs n < int n"
  "i < n \<Longrightarrow> scan_down evs n < int i \<Longrightarrow> mask (evs ! i) = AE_NONE"
  using scan_down_spec [of evs n] by auto

lemma table_deleted:
  assumes "aeDeleteFileEvent l fd AE_READABLE = Inr l'" and "table_ok l"
  shows "table_ok l' \<and> timeEventHead l' = timeEventHead l \<and> timeEventNextId l' = timeEventNextId l \<and>
    stop l' = stop l \<and> beforesleep l' = beforesleep l"
proof (cases "l' = l")
  case True
  then show ?thesis using assms(2) by simp
next
  case False
  have sz: "setsize l = 1024" "length (events l) = 1024" using assms(2) by (simp_all add: table_ok_def)
  have fd: "0 \<le> fd" "fd < 1024" and used: "mask (events l ! nat fd) \<noteq> AE_NONE"
    using assms(1) False sz by (auto simp: aeDeleteFileEvent_def split: if_splits)
  then have m: "mask (events l ! nat fd) AND NOT AE_READABLE = AE_NONE"
    using table_entry [OF assms(2) fd] by (auto simp: ae_const)
  let ?fe = "(events l ! nat fd)\<lparr>mask := AE_NONE\<rparr>" and ?evs = "(events l)[nat fd := (events l ! nat fd)\<lparr>mask := AE_NONE\<rparr>]"
  have "aeApiDelEvent l fd AE_READABLE = l\<lparr>apidata := (apidata l)(fd := None)\<rparr>"
    by (cases "apidata l fd") (simp_all add: aeApiDelEvent_def m epoll_ctl_def Let_def fun_upd_idem)
  then have l': "l' = (l\<lparr>apidata := (apidata l)(fd := None)\<rparr>)\<lparr>events := ?evs,
      maxfd := (if fd = maxfd l then scan_down ?evs (nat (maxfd l)) else maxfd l)\<rparr>"
    using assms(1) fd sz used m by (auto simp: aeDeleteFileEvent_def Let_def)
  have ev: "events l' ! i = (if i = nat fd then ?fe else events l ! i)" if "i < 1024" for i
    using that sz by (auto simp: l')
  have free: "mask (events l' ! i) = AE_NONE" if i: "i < 1024" "maxfd l' < int i" for i
  proof (cases "fd = maxfd l \<and> i < nat fd")
    case True
    then have "maxfd l' = scan_down ?evs (nat fd)" "events l' = ?evs" by (simp_all add: l')
    then show ?thesis using True i(2) scan_down_bounds(3) [of i "nat fd" ?evs] by metis
  next
    case False
    then have "i = nat fd \<or> maxfd l < int i" using i fd by (auto simp: l' split: if_splits)
    then show ?thesis using ev [OF i(1)] assms(2) i(1) by (auto simp: table_ok_def)
  qed
  have "setsize l' = 1024" "length (events l') = 1024" "-1 \<le> maxfd l'" "maxfd l' < 1024"
    using sz scan_down_bounds(1,2) [of ?evs "nat (maxfd l)"] assms(2) fd by (auto simp: l' table_ok_def)
  moreover have "0 \<le> d \<and> d < 1024 \<and> mask (events l' ! nat d) = AE_READABLE" if "apidata l' d \<noteq> None" for d
  proof -
    have "d \<noteq> fd" "apidata l d \<noteq> None" using that by (auto simp: l' split: if_splits)
    then have "0 \<le> d" "d < 1024" "mask (events l ! nat d) = AE_READABLE" "nat d \<noteq> nat fd"
      using assms(2) fd unfolding table_ok_def by auto
    then show ?thesis using ev [of "nat d"] by simp
  qed
  ultimately have "table_ok l'" using assms(2) free ev unfolding table_ok_def by auto
  then show ?thesis by (simp add: l')
qed

text \<open>The parts of the state the shape does not speak of.\<close>

lemma shape_frame [simp]:
  "shape_ok hosts (s\<lparr>pending := rs\<rparr>) = shape_ok hosts s" "shape_ok hosts (s\<lparr>errno := e\<rparr>) = shape_ok hosts s"
  "shape_ok hosts (s\<lparr>master_fd := fd\<rparr>) = shape_ok hosts s" "shape_ok hosts (s\<lparr>client_fd := fd\<rparr>) = shape_ok hosts s"
  "shape_ok hosts (s\<lparr>read_fd := fd\<rparr>) = shape_ok hosts s" "shape_ok hosts (s\<lparr>listen_fd := fd\<rparr>) = shape_ok hosts s"
  "shape_ok hosts (s\<lparr>bulk_size := n\<rparr>) = shape_ok hosts s" "shape_ok hosts (s\<lparr>cronloops := n\<rparr>) = shape_ok hosts s"
  "shape_ok hosts (s\<lparr>time_event_id := i\<rparr>) = shape_ok hosts s"
  by (simp_all add: shape_ok_def store_ok_def posts_ok_def)

lemma beats_frame:
  "loop s' = loop s \<Longrightarrow> time_event_id s' = time_event_id s \<Longrightarrow> beats s' = beats s"
  by (simp add: beats_def)

lemma shape_loop:
  "shape_ok hosts s \<Longrightarrow> table_ok l \<Longrightarrow> stop l = stop (loop s) \<Longrightarrow> beforesleep l = beforesleep (loop s) \<Longrightarrow>
   shape_ok hosts (s\<lparr>loop := l\<rparr>)"
  by (simp add: shape_ok_def store_ok_def posts_ok_def loop_runs_def)

lemma table_ok_timers [simp]:
  "table_ok (l\<lparr>timeEventHead := tes\<rparr>) = table_ok l" "table_ok (l\<lparr>timeEventNextId := n\<rparr>) = table_ok l"
  "table_ok (l\<lparr>lastTime := t\<rparr>) = table_ok l" "table_ok (l\<lparr>stop := b\<rparr>) = table_ok l"
  by (simp_all add: table_ok_def)

lemma shape_table: "shape_ok hosts s \<Longrightarrow> table_ok (loop s)"
  by (simp add: shape_ok_def)

lemma shape_emit: "shape_ok hosts s \<Longrightarrow> (\<And>u v. ev \<noteq> Posted u v) \<Longrightarrow> shape_ok hosts (emit ev s)"
  by (auto simp: shape_ok_def store_ok_def posts_ok_def emit_def)

lemma shape_que: "shape_ok hosts s \<Longrightarrow> keys_ok qu \<Longrightarrow> shape_ok hosts (s\<lparr>que := qu\<rparr>)"
  by (simp add: shape_ok_def store_ok_def posts_ok_def)

lemma shape_keys: "shape_ok hosts s \<Longrightarrow> keys_ok (que s)"
  by (simp add: shape_ok_def)

lemma shape_buffers:
  "shape_ok hosts s \<Longrightarrow> buffer_ok b \<Longrightarrow> shape_ok hosts (s\<lparr>buf_master_cmd := b\<rparr>)"
  "shape_ok hosts s \<Longrightarrow> buffer_ok b \<Longrightarrow> shape_ok hosts (s\<lparr>buf_slave_answer := b\<rparr>)"
  by (simp_all add: shape_ok_def store_ok_def posts_ok_def)

lemma shape_mode: "shape_ok hosts s \<Longrightarrow> st \<in> {0..3} \<Longrightarrow> shape_ok hosts (s\<lparr>proxy_state := st\<rparr>)"
  by (auto simp: shape_ok_def store_ok_def posts_ok_def START_STATE_def SYNC_START_STATE_def SYNC_STATE_def RUNNING_STATE_def)

text \<open>The queue of outstanding keys.\<close>

lemma keys_pushed: "keys_ok qu \<Longrightarrow> push_cir_queue (Some k) qu = Some qu' \<Longrightarrow> keys_ok qu'"
  using env_wf_put_rear [of qu "Some k"] queue_list_put_rear [of "q qu" "Some k"] queue_wf_bound [of "q qu"]
  by (cases "length (env_list qu) = queue_cap")
    (auto simp: keys_ok_def push_env env_wf_def simp del: length_queue_list)

lemma keys_popped: "keys_ok qu \<Longrightarrow> pop_cir_queue qu = Some (x, qu') \<Longrightarrow> keys_ok qu'"
  using env_wf_drop_front [of qu] queue_list_drop_front [of "q qu"]
  by (cases "env_list qu = []") (auto simp: keys_ok_def pop_env env_wf_def dest: list.set_sel(2))

lemma keys_asked: "keys_ok qu \<Longrightarrow> is_full_cir_queue qu = Some (f, qu') \<Longrightarrow> keys_ok qu'"
  by (auto simp: keys_ok_def is_full_env)

lemma keys_cleared: "keys_ok qu \<Longrightarrow> clear_queue qu = Some qu' \<Longrightarrow> keys_ok qu'"
  using clear_env [of qu] by (auto simp: keys_ok_def env_wf_def)

text \<open>\<open>closeFd\<close> removes the heart beat and starts it anew.\<close>

lemma shape_close_fd:
  assumes "shape_ok hosts s"
  shows "shape_ok hosts (close_fd fd s)"
proof -
  have 1: "shape_ok hosts (emit (Closed fd) s)" by (rule shape_emit [OF assms]) simp
  have 2: "loop (emit (Closed fd) s) = loop s" by (simp add: emit_def)
  show ?thesis unfolding close_fd_def
    by (rule shape_loop [OF 1]) (simp_all add: 2 table_forget [OF shape_table [OF assms]], simp_all add: epoll_close_def)
qed

lemma shape_drop_fd:
  assumes "shape_ok hosts s" and "drop_fd get reset s = Inr s'"
    and reset: "\<And>t. shape_ok hosts (reset t) = shape_ok hosts t \<and> loop (reset t) = loop t"
  shows "shape_ok hosts s' \<and> timeEventHead (loop s') = timeEventHead (loop s) \<and>
    timeEventNextId (loop s') = timeEventNextId (loop s)"
proof (cases "get s = -1")
  case True
  then show ?thesis using assms(1,2) by (simp add: drop_fd_def)
next
  case False
  then obtain l where l: "aeDeleteFileEvent (loop s) (get s) AE_READABLE = Inr l"
    and s': "s' = reset (close_fd (get (s\<lparr>loop := l\<rparr>)) (s\<lparr>loop := l\<rparr>))"
    using assms(2) by (auto simp: drop_fd_def unregister_def andThen_Inr_iff)
  note del = table_deleted [OF l shape_table [OF assms(1)]]
  then have "shape_ok hosts (s\<lparr>loop := l\<rparr>)" using shape_loop [OF assms(1)] by simp
  then show ?thesis using del shape_close_fd by (simp add: s' reset) (simp add: close_fd_def epoll_close_def)
qed

lemma closeFd_sound:
  assumes "sound hosts s" and "closeFd s = Inr s'"
  shows "sound hosts s'"
proof -
  have 0: "shape_ok hosts s" and "beats s" using assms(1) by (simp_all add: sound_def)
  then obtain te where te: "timeEventHead (loop s) = [te]" "te_id te = time_event_id s" "te_id te < timeEventNextId (loop s)"
    by (auto simp: beats_def)
  then have del: "aeDeleteTimeEvent (loop s) (time_event_id s) = (AE_OK, finalizerProc te, (loop s)\<lparr>timeEventHead := []\<rparr>)"
    by (simp add: aeDeleteTimeEvent_def)
  let ?s0 = "s\<lparr>loop := (loop s)\<lparr>timeEventHead := []\<rparr>\<rparr>"
  have s0: "shape_ok hosts ?s0" "timeEventHead (loop ?s0) = []"
    using shape_loop [OF 0] shape_table [OF 0] by simp_all
  obtain s1 s2 s3 s4 where d: "drop_fd client_fd (\<lambda>s. s\<lparr>client_fd := -1\<rparr>) ?s0 = Inr s1"
    "drop_fd read_fd (\<lambda>s. s\<lparr>read_fd := -1\<rparr>) s1 = Inr s2" "drop_fd master_fd (\<lambda>s. s\<lparr>master_fd := -1\<rparr>) s2 = Inr s3"
    "drop_fd listen_fd (\<lambda>s. s\<lparr>listen_fd := -1\<rparr>) s3 = Inr s4"
    and r: "andThen (of_opt Blocked (clear_queue (que s4))) (\<lambda>qu.
          andThen (syscall (s4\<lparr>proxy_state := START_STATE, buf_master_cmd := (buf_master_cmd s4)\<lparr>len := 0\<rparr>,
              buf_slave_answer := (buf_slave_answer s4)\<lparr>len := 0\<rparr>, que := qu\<rparr>)) (\<lambda>(now, s).
            case aeCreateTimeEvent True (ret now) (loop s) 1 TimeEvent None of (i, l) \<Rightarrow>
              Inr (s\<lparr>loop := l, time_event_id := i\<rparr>))) = Inr s'"
    using assms(2) unfolding closeFd_def del prod.case andThen_Inr_iff [of "drop_fd _ _ _"] by (auto simp: Let_def)
  have s1: "shape_ok hosts s1 \<and> timeEventHead (loop s1) = []" using shape_drop_fd [OF s0(1) d(1)] s0(2) by simp
  have s2: "shape_ok hosts s2 \<and> timeEventHead (loop s2) = []" using shape_drop_fd [OF conjunct1 [OF s1] d(2)] s1 by simp
  have s3: "shape_ok hosts s3 \<and> timeEventHead (loop s3) = []" using shape_drop_fd [OF conjunct1 [OF s2] d(3)] s2 by simp
  have s4: "shape_ok hosts s4 \<and> timeEventHead (loop s4) = []" using shape_drop_fd [OF conjunct1 [OF s3] d(4)] s3 by simp
  obtain qu x s5 where qu: "clear_queue (que s4) = Some qu"
    and x: "syscall (s4\<lparr>proxy_state := START_STATE, buf_master_cmd := (buf_master_cmd s4)\<lparr>len := 0\<rparr>,
        buf_slave_answer := (buf_slave_answer s4)\<lparr>len := 0\<rparr>, que := qu\<rparr>) = Inr (x, s5)"
    and s': "(case aeCreateTimeEvent True (ret x) (loop s5) 1 TimeEvent None of (i, l) \<Rightarrow>
        s5\<lparr>loop := l, time_event_id := i\<rparr>) = s'"
    using r unfolding andThen_Inr_iff by (auto simp: of_opt_def case_prod_beta split: option.splits)
  have "shape_ok hosts (s4\<lparr>proxy_state := START_STATE, buf_master_cmd := (buf_master_cmd s4)\<lparr>len := 0\<rparr>,
        buf_slave_answer := (buf_slave_answer s4)\<lparr>len := 0\<rparr>, que := qu\<rparr>)"
    using s4 keys_cleared [OF _ qu] by (auto intro!: shape_que shape_buffers shape_mode dest: shape_keys simp: buffer_ok_def MAX_READ_def START_STATE_def)
  then have s5: "shape_ok hosts s5" "timeEventHead (loop s5) = []"
    using x s4 by (auto simp: syscall_def split: list.splits)
  obtain te' where "s' = s5\<lparr>loop := (loop s5)\<lparr>timeEventNextId := timeEventNextId (loop s5) + 1, timeEventHead := [te']\<rparr>,
      time_event_id := timeEventNextId (loop s5)\<rparr>"
    "te_id te' = timeEventNextId (loop s5)" "timeProc te' = TimeEvent" "finalizerProc te' = None"
    using s' s5(2) by (auto simp: aeCreateTimeEvent_def Let_def split: prod.splits)
  then show ?thesis using shape_loop [OF s5(1)] shape_table [OF s5(1)] by (simp add: sound_def beats_def)
qed

subsection \<open>Values only go to the configured servers\<close>

lemma sendToHost_shape:
  assumes "shape_ok hosts s" and "\<exists>(m, b) \<in> set hosts. h = m \<or> h = b" and "sendToHost L h key v s = Inr s'"
  shows "shape_ok hosts s' \<and> loop s' = loop s \<and> time_event_id s' = time_event_id s \<and> hashtable s' = hashtable s"
proof (cases "curl_easy_init L")
  case False
  then show ?thesis using assms(1,3) by (simp add: sendToHost_def)
next
  case True
  then obtain k where s': "s' = emit (Posted (post_url h k) v) s"
    using assms(3) by (auto simp: sendToHost_def split: option.splits)
  have "posts_ok hosts s'"
    using assms(1,2) by (fastforce simp: s' emit_def shape_ok_def posts_ok_def)
  then show ?thesis using assms(1) by (simp add: shape_ok_def s' emit_def store_ok_def)
qed

lemma shape_shift:
  assumes "shape_ok hosts s"
  shows "shape_ok hosts (s\<lparr>hash_stack := (\<lambda>n. hash_stack s (Suc n))\<rparr>)"
    "shape_ok hosts (s\<lparr>hashtable := (fst (hashtable s), \<lambda>n. snd (hashtable s) (Suc n))\<rparr>)"
proof -
  show "shape_ok hosts (s\<lparr>hash_stack := (\<lambda>n. hash_stack s (Suc n))\<rparr>)"
    using assms by (simp add: shape_ok_def store_ok_def posts_ok_def)
  have "table_get (fst (hashtable s), \<lambda>n. snd (hashtable s) (Suc n)) m = Some b" if "(m, b) \<in> set hosts" for m b
  proof -
    have "table_key m" "table_get (hashtable s) m = Some b" "table_inv (hashtable s)"
      using assms that by (auto simp: shape_ok_def store_ok_def hosts_ok_def)
    then show ?thesis using table_get_shift [of "hashtable s" m] by simp
  qed
  then show "shape_ok hosts (s\<lparr>hashtable := (fst (hashtable s), \<lambda>n. snd (hashtable s) (Suc n))\<rparr>)"
    using assms by (auto simp: shape_ok_def store_ok_def posts_ok_def table_inv_def)
qed

lemma saveValue_sound:
  assumes "sound hosts s" and "saveValue L object key s = Inr (r, s')"
  shows "sound hosts s'"
proof -
  have 0: "shape_ok hosts s" using assms(1) by (simp add: sound_def)
  have hm: "host_masters s = map (\<lambda>h. Some (fst h)) hosts" using 0 by (simp add: shape_ok_def store_ok_def)
  obtain obj where obj: "object = Some obj" using assms(2) by (cases object) (simp_all add: saveValue_def)
  show ?thesis
  proof (cases "json_dumps L obj")
    case None
    then show ?thesis using assms by (simp add: saveValue_def obj)
  next
    case (Some v)
    let ?s1 = "s\<lparr>hash_stack := (\<lambda>n. hash_stack s (Suc n))\<rparr>"
    obtain h where hash: "myhash (hash_stack s 0) key (host_master_num s) = Some h"
      using assms(2) by (auto simp: obj saveValue_def Some of_opt_def split: option.splits)
    have h: "0 \<le> h" "h < int (length hosts)"
      using assms(2) by (auto simp: obj saveValue_def Some hash of_opt_def hm Let_def split: if_split_asm)
    then have "host_masters s ! nat h = Some (fst (hosts ! nat h))" "(h < 0 \<or> h \<ge> int (length (host_masters s))) = False"
      by (auto simp: hm nat_less_iff)
    then have r: "andThen (sendToHost L (fst (hosts ! nat h)) key v ?s1) (\<lambda>s.
        let backup = table_get (hashtable s) (fst (hosts ! nat h));
            s = s\<lparr>hashtable := (fst (hashtable s), \<lambda>n. snd (hashtable s) (Suc n))\<rparr> in
        (case backup of None \<Rightarrow> Inr (1, s)
         | Some b \<Rightarrow> andThen (sendToHost L b key v s) (\<lambda>s. Inr (1, s)))) = Inr (r, s')"
      using assms(2) by (simp add: obj saveValue_def Some hash of_opt_def)
    obtain m b where mb: "hosts ! nat h = (m, b)" by (cases "hosts ! nat h")
    have mem: "(m, b) \<in> set hosts" using h nth_mem [of "nat h" hosts] by (simp add: mb nat_less_iff)
    obtain s2 where s2: "sendToHost L m key v ?s1 = Inr s2" using r by (auto simp: mb andThen_Inr_iff)
    have 2: "shape_ok hosts s2" "loop s2 = loop s" "time_event_id s2 = time_event_id s" "hashtable s2 = hashtable s"
      using sendToHost_shape [OF shape_shift(1) [OF 0] _ s2] mem by auto
    let ?s3 = "s2\<lparr>hashtable := (fst (hashtable s2), \<lambda>n. snd (hashtable s2) (Suc n))\<rparr>"
    have "table_get (hashtable s2) m = Some b" using 2(1) mem by (auto simp: shape_ok_def store_ok_def)
    then have s': "sendToHost L b key v ?s3 = Inr s'" using r s2 by (auto simp: mb andThen_Inr_iff)
    have "shape_ok hosts s' \<and> loop s' = loop s \<and> time_event_id s' = time_event_id s"
      using sendToHost_shape [OF shape_shift(2) [OF 2(1)] _ s'] mem 2 by auto
    then show ?thesis using assms(1) beats_frame [of s' s] by (simp add: sound_def)
  qed
qed

subsection \<open>The laws on the proxy\<close>

lemma shape_descriptors:
  "shape_ok hosts s \<Longrightarrow> shape_ok hosts (s\<lparr>master_fd := fm, client_fd := fc, read_fd := fr, listen_fd := fl\<rparr>)"
  by simp

lemma shape_created:
  assumes "shape_ok hosts s" and "aeCreateFileEvent ok (loop s) fd AE_READABLE p 0 = Inr (r, l)"
  shows "shape_ok hosts (s\<lparr>loop := l\<rparr>)"
  using shape_loop [OF assms(1)] event_table_created [OF assms(2) shape_table [OF assms(1)]] by simp

lemma shape_forget:
  assumes "shape_ok hosts s"
  shows "shape_ok hosts (s\<lparr>loop := epoll_close fd (loop s)\<rparr>)"
  using shape_loop [OF assms table_forget [OF shape_table [OF assms]]] by (simp add: epoll_close_def)

lemma epoll_loop: "timeEventHead (epoll_close fd l) = timeEventHead l" "loop (emit ev s) = loop s"
  by (simp_all add: epoll_close_def emit_def)

text \<open>Before the heart beat is set.\<close>

definition booting :: "(string \<times> string) list \<Rightarrow> proxy \<Rightarrow> bool" where
  "booting hosts s \<longleftrightarrow> shape_ok hosts s \<and> timeEventHead (loop s) = []"

interpretation boot: connection_invariant "booting hosts" for hosts
  by unfold_locales
    (auto simp: booting_def shape_emit shape_forget shape_created epoll_loop dest: event_table_created shape_table)

interpretation handlers: handler_invariant "sound hosts" L for hosts L
proof unfold_locales
  fix s :: proxy
  assume s: "sound hosts s"
  then have sh: "shape_ok hosts s" and b: "beats s" by (simp_all add: sound_def)
  show "sound hosts (s\<lparr>pending := rs, errno := e\<rparr>)" for rs e using sh b by (simp add: sound_def beats_def)
  show "sound hosts (emit ev s)" if "\<And>u v. ev \<noteq> Posted u v" for ev
    using shape_emit [OF sh that] b by (simp add: sound_def beats_def emit_def)
  show "sound hosts (s\<lparr>master_fd := fm, client_fd := fc, read_fd := fr, listen_fd := fl\<rparr>)" for fm fc fr fl
    using sh b by (simp add: sound_def beats_def)
  show "sound hosts (s\<lparr>loop := epoll_close fd (loop s)\<rparr>)" for fd
    using shape_forget [OF sh] b by (simp add: sound_def beats_def epoll_close_def)
  show "sound hosts (s\<lparr>loop := l\<rparr>)" if "aeCreateFileEvent ok (loop s) fd AE_READABLE p 0 = Inr (r, l)" for ok fd p r l
    using shape_created [OF sh that] event_table_created [OF that shape_table [OF sh]] b by (simp add: sound_def beats_def)
  show "sound hosts (s\<lparr>bulk_size := n, cronloops := m\<rparr>)" for n m using sh b by (simp add: sound_def beats_def)
  show "sound hosts (s\<lparr>proxy_state := st\<rparr>)" if "st \<in> {0..3}" for st
    using shape_mode [OF sh that] b by (simp add: sound_def beats_def)
  show "sound hosts s'" if "closeFd s = Inr s'" for s' by (rule closeFd_sound [OF s that])
  show "sound hosts (s\<lparr>que := qu\<rparr>)" if "pop_cir_queue (que s) = Some (x, qu)" for x qu
    using shape_que [OF sh keys_popped [OF shape_keys [OF sh] that]] b by (simp add: sound_def beats_def)
  show "sound hosts (s\<lparr>que := qu\<rparr>)" if "push_cir_queue (Some y) (que s) = Some qu" for y qu
    using shape_que [OF sh keys_pushed [OF shape_keys [OF sh] that]] b by (simp add: sound_def beats_def)
  show "sound hosts (s\<lparr>que := qu\<rparr>)" if "is_full_cir_queue (que s) = Some (f, qu)" for f qu
    using shape_que [OF sh keys_asked [OF shape_keys [OF sh] that]] b by (simp add: sound_def beats_def)
  show "sound hosts (s\<lparr>buf_master_cmd := w\<rparr>)" "sound hosts (s\<lparr>buf_slave_answer := w\<rparr>)"
    if "0 \<le> len w" "len w < MAX_READ" for w
    using shape_buffers [OF sh, of w] that b by (simp_all add: sound_def beats_def buffer_ok_def)
  show "sound hosts s'" if "saveValue L object key s = Inr (r, s')" for object key r s'
    by (rule saveValue_sound [OF s that])
qed

interpretation proxy: loop_invariant "sound hosts" L for hosts L
proof unfold_locales
  fix s :: proxy and f :: "proc aeTimeEvent \<Rightarrow> proc aeTimeEvent" and t :: int
  assume s: "sound hosts s" and f: "\<And>te. te_id (f te) = te_id te \<and> timeProc (f te) = timeProc te \<and> finalizerProc (f te) = finalizerProc te"
  then have sh: "shape_ok hosts s" and b: "beats s" by (simp_all add: sound_def)
  show "sound hosts (s\<lparr>loop := (loop s)\<lparr>timeEventHead := map f (timeEventHead (loop s)), lastTime := t\<rparr>\<rparr>)"
    using shape_loop [OF sh, of "(loop s)\<lparr>timeEventHead := map f (timeEventHead (loop s)), lastTime := t\<rparr>"] shape_table [OF sh] b f
    by (auto simp: sound_def beats_def)
qed

subsection \<open>The reachable states\<close>

text \<open>
  How \<open>main\<close> finds the globals, with a configuration that names the pairs \<open>hosts\<close>: the bytes of
  the allocated memory, the stack and the answers of the environment are arbitrary.
\<close>

definition boot_ok :: "(string \<times> string) list \<Rightarrow> keyfile \<Rightarrow> proxy \<Rightarrow> bool" where
  "boot_ok hosts kf s \<longleftrightarrow> hosts_ok hosts \<and> (\<forall>c. load_conf kf = Inr (Some c) \<longrightarrow> ips c = addrs_of hosts) \<and>
     (\<exists>now junk l ht stack m1 m2 answers. aeCreateEventLoop now junk True True 1024 = Some l \<and>
        (\<forall>n. snd ht n \<noteq> ULONG_MAX) \<and> (\<forall>n. length (md5_buffer (stack n)) = 64) \<and>
        s = globals l ht stack m1 m2 answers)"

inductive reach :: "('j, 'v) libs \<Rightarrow> keyfile \<Rightarrow> proxy \<Rightarrow> proxy \<Rightarrow> bool" for L kf s0 where
  started: "main_boot kf s0 = Inr s \<Longrightarrow> reach L kf s0 s"
| turned: "reach L kf s0 s \<Longrightarrow> libraries e = L \<Longrightarrow>
    aeProcessEvents (proxy_world e) AE_ALL_EVENTS s = Some (Inr (n, s')) \<Longrightarrow> reach L kf s0 s'"

lemma created_loop:
  assumes "aeCreateEventLoop now junk True True 1024 = Some l"
  shows "table_ok l" "loop_runs l" "timeEventHead l = []"
  using assms by (auto simp: aeCreateEventLoop_def table_ok_def loop_runs_def)

lemma boot_sound:
  assumes ok: "boot_ok hosts kf s0" and run: "main_boot kf s0 = Inr s"
  shows "sound hosts s"
proof -
  obtain now junk l ht stack m1 m2 answers where l: "aeCreateEventLoop now junk True True 1024 = Some l"
    and g: "\<forall>n. snd ht n \<noteq> ULONG_MAX" "\<forall>n. length (md5_buffer (stack n)) = 64"
    and s0: "s0 = globals l ht stack m1 m2 answers" and hosts: "hosts_ok hosts"
    using ok unfolding boot_ok_def by blast
  obtain c where c: "load_conf kf = Inr (Some c)" using run by (auto simp: main_boot_def andThen_Inr_iff split: option.splits)
  then have ips: "ips c = addrs_of hosts" using ok by (simp add: boot_ok_def)
  define s1 where "s1 = s0\<lparr>buf_master_cmd := (buf_master_cmd s0)\<lparr>len := 0\<rparr>, buf_slave_answer := (buf_slave_answer s0)\<lparr>len := 0\<rparr>\<rparr>"
  obtain t where t: "initHost (ips c) s1 = Inr (1, s1\<lparr>host_master_num := int (length hosts),
      host_masters := map (\<lambda>h. Some (fst h)) hosts, hashtable := t\<rparr>)"
    "store_ok hosts (s1\<lparr>host_master_num := int (length hosts), host_masters := map (\<lambda>h. Some (fst h)) hosts, hashtable := t\<rparr>)"
    using initHost_ok [OF hosts, of s1] g by (auto simp: ips s1_def s0 globals_def)
  define s2 where "s2 = s1\<lparr>host_master_num := int (length hosts), host_masters := map (\<lambda>h. Some (fst h)) hosts, hashtable := t\<rparr>"
  have "booting hosts s2"
    using t(2) created_loop [OF l] init_env
    by (simp add: booting_def shape_ok_def s2_def) (simp add: s1_def s0 globals_def keys_ok_def buffer_ok_def MAX_READ_def posts_ok_def)
  moreover obtain r s3 where s3: "connectToMaster s2 = Inr (r, s3)" and r: "(if r = -1 then Inl Exit
      else andThen (syscall (s3\<lparr>que := init_cir_queue\<rparr>)) (\<lambda>(now, s).
        case aeCreateTimeEvent True (ret now) (loop s) 1 TimeEvent None of (i, l) \<Rightarrow>
          Inr (s\<lparr>loop := l, time_event_id := i\<rparr>))) = Inr s"
    using run unfolding main_boot_def c andThen_simps option.case Let_def s1_def [symmetric] t(1) prod.case s2_def [symmetric]
      andThen_Inr_iff [of "connectToMaster _"] by auto
  ultimately have 3: "booting hosts s3" using boot.connectToMaster_keeps by blast
  obtain x s4 where x: "syscall (s3\<lparr>que := init_cir_queue\<rparr>) = Inr (x, s4)"
    and s: "(case aeCreateTimeEvent True (ret x) (loop s4) 1 TimeEvent None of (i, l) \<Rightarrow> s4\<lparr>loop := l, time_event_id := i\<rparr>) = s"
    using r by (auto simp: andThen_Inr_iff case_prod_beta split: if_splits)
  have "shape_ok hosts (s3\<lparr>que := init_cir_queue\<rparr>)"
    using 3 shape_que init_env by (simp add: booting_def keys_ok_def)
  then have s4: "shape_ok hosts s4" "timeEventHead (loop s4) = []"
    using x 3 by (auto simp: syscall_def booting_def split: list.splits)
  obtain te where "s = s4\<lparr>loop := (loop s4)\<lparr>timeEventNextId := timeEventNextId (loop s4) + 1, timeEventHead := [te]\<rparr>,
      time_event_id := timeEventNextId (loop s4)\<rparr>"
    "te_id te = timeEventNextId (loop s4)" "timeProc te = TimeEvent" "finalizerProc te = None"
    using s s4(2) by (auto simp: aeCreateTimeEvent_def Let_def split: prod.splits)
  then show ?thesis using shape_loop [OF s4(1)] shape_table [OF s4(1)] by (simp add: sound_def beats_def)
qed

lemma reach_sound: "reach L kf s0 s \<Longrightarrow> boot_ok hosts kf s0 \<Longrightarrow> sound hosts s"
  by (induction rule: reach.induct) (auto intro: boot_sound proxy.aeProcessEvents_keeps)

text \<open>
  C18.  The shape of every state the running proxy reaches, whatever the peers send and the kernel
  answers: the event table is sound and each entry in use has a handler, the kernel watches
  nothing that is not in the table, the queue of outstanding keys is well formed and holds no
  null key, both buffers fit, the mode is one of the four, the table of backups still answers
  for every configured server, each request made so far went to a configured file server or to a
  configured backup, and there is exactly one timer, the heart beat that \<open>time_event_id\<close> names: it
  is never lost and never doubled.  The
  process starts as \<open>main\<close> starts it: with the globals of C, a configuration of pairs of distinct
  servers (ASCII, at least two characters), and, in the variable that \<open>ht_hash\<close> does not
  initialise, any values other than \<open>ULONG_MAX\<close>.
\<close>

theorem reachable_states_are_sound:
  assumes "boot_ok hosts kf s0" and "reach L kf s0 s"
  shows "table_ok (loop s) \<and> loop_runs (loop s) \<and> keys_ok (que s) \<and> buffer_ok (buf_master_cmd s) \<and>
    buffer_ok (buf_slave_answer s) \<and> proxy_state s \<in> {START_STATE, SYNC_START_STATE, SYNC_STATE, RUNNING_STATE} \<and>
    store_ok hosts s \<and> posts_ok hosts s \<and> beats s"
  using reach_sound [OF assms(2,1)] by (simp add: sound_def shape_ok_def)

text \<open>
  The states inside a turn: \<open>epoll_wait\<close> has reported a batch of events and some of them have been
  dispatched, which may have registered and freed entries of the table.
\<close>

inductive in_turn :: "('j, 'v) libs \<Rightarrow> keyfile \<Rightarrow> proxy \<Rightarrow> proxy \<Rightarrow> bool" for L kf s0 where
  between: "reach L kf s0 s \<Longrightarrow> in_turn L kf s0 s"
| dispatched: "in_turn L kf s0 s \<Longrightarrow> libraries e = L \<Longrightarrow> fire_file (proxy_world e) ev s = Inr s' \<Longrightarrow> in_turn L kf s0 s'"

lemma in_turn_sound:
  assumes "in_turn L kf s0 s" and "boot_ok hosts kf s0"
  shows "sound hosts s"
  using assms
proof (induction rule: in_turn.induct)
  case (between s)
  then show ?case using reach_sound by blast
next
  case (dispatched s e ev s')
  then show ?case using proxy.fire_file_keeps by blast
qed

lemma in_turn_batch:
  "in_turn (libraries e) kf s0 s \<Longrightarrow> fire_files (proxy_world e) fs n s = Inr (k, s') \<Longrightarrow> in_turn (libraries e) kf s0 s'"
  by (induction fs arbitrary: n s) (auto simp: andThen_Inr_iff intro: in_turn.dispatched)

text \<open>
  C19.  Dispatch is safe in every state a run can be in when an event is dispatched, at the beginning
  of a turn or after any events of the same batch: an event reported for a descriptor of the table
  runs the one handler the entry was registered with, exactly once, and nothing when the entry is
  free, as it is when an earlier handler of the batch has freed it; no null handler is called, and
  the second, writable, half of the dispatch never runs.
\<close>

theorem dispatch_runs_the_registered_handler:
  assumes "boot_ok hosts kf s0" and "in_turn (libraries e) kf s0 s" and "0 \<le> fd" and "fd < 1024"
  shows "if fd_mask (loop s) fd = AE_NONE \<or> m AND AE_READABLE = 0
    then fire_file (proxy_world e) (fd, m) s = Inr s
    else \<exists>p. rfileProc (events (loop s) ! nat fd) = Some p \<and> fire_file (proxy_world e) (fd, m) s = call_proc e p fd s"
proof -
  have sound: "sound hosts s" by (rule in_turn_sound [OF assms(2,1)])
  have never: "file_event (proxy_world e) fd t = Inr (events (loop t) ! nat fd) \<and> mask (events (loop t) ! nat fd) AND m AND AE_WRITABLE = 0"
    if "sound hosts t" for t
  proof -
    have tab: "table_ok (loop t)" using that by (simp add: sound_def shape_ok_def)
    have "mask (events (loop t) ! nat fd) AND AE_WRITABLE = 0" using table_entry [OF tab assms(3,4)] by (auto simp: ae_const)
    then have "mask (events (loop t) ! nat fd) AND m AND AE_WRITABLE = 0" by (metis and.assoc and.commute and_zero_eq)
    then show ?thesis using tab assms(3,4) by (simp add: file_event_def world_simps table_ok_def)
  qed
  have tab: "table_ok (loop s)" using sound by (simp add: sound_def shape_ok_def)
  have fm: "fd_mask (loop s) fd = mask (events (loop s) ! nat fd)" using tab assms(3,4) by (simp add: fd_mask_def table_ok_def)
  show ?thesis
  proof (cases "fd_mask (loop s) fd = AE_NONE \<or> m AND AE_READABLE = 0")
    case True
    then have "mask (events (loop s) ! nat fd) AND m AND AE_READABLE = 0"
      by (auto simp: fm AE_NONE_def and.assoc)
    then show ?thesis using True never [OF sound] by (simp add: fire_file_def)
  next
    case False
    then obtain p where p: "mask (events (loop s) ! nat fd) = AE_READABLE" "rfileProc (events (loop s) ! nat fd) = Some p"
      using table_entry [OF tab assms(3,4)] by (auto simp: fm)
    have fired: "mask (events (loop s) ! nat fd) AND m AND AE_READABLE \<noteq> 0"
      using False by (simp add: p(1) and.assoc and.commute and.left_commute)
    have "fire_file (proxy_world e) (fd, m) s = andThen (call_proc e p fd s) (\<lambda>t. Inr t)"
    proof (cases "call_proc e p fd s")
      case (Inr t)
      have "sound hosts t" by (rule proxy.call_proc_keeps [OF sound refl Inr])
      then show ?thesis using never [OF sound] never fired p(2) Inr
        by (simp add: fire_file_def call_file_def world_simps)
    qed (use never [OF sound] fired p(2) in \<open>simp add: fire_file_def call_file_def world_simps\<close>)
    then show ?thesis using False p(2) by (cases "call_proc e p fd s") auto
  qed
qed

lemma main_loop_never_returns:
  assumes "sound hosts s"
  shows "main_loop (proxy_world e) s \<noteq> Some (Inr s')"
proof -
  let ?Q = "\<lambda>w s x. w = proxy_world e \<longrightarrow> sound hosts s \<longrightarrow> (\<forall>s'. x \<noteq> Inr s')"
  have "?Q (proxy_world e) s x" if "main_loop (proxy_world e) s = Some x" for x
  proof (rule main_loop.raw_induct [where P = ?Q, OF _ that], intro impI)
    fix f w s x
    assume ih: "\<And>w s y. f w s = Some y \<Longrightarrow> ?Q w s y"
      and body: "(if stop (get_loop w s) then Some (Inr s)
        else case (case beforesleep (get_loop w s) of None \<Rightarrow> Inr s | Some h \<Rightarrow> run_before w h s) of
          Inl e \<Rightarrow> Some (Inl e)
        | Inr s1 \<Rightarrow> (case aeProcessEvents w AE_ALL_EVENTS s1 of None \<Rightarrow> None
             | Some (Inl e) \<Rightarrow> Some (Inl e) | Some (Inr (n, s2)) \<Rightarrow> f w s2)) = Some x"
      and w: "w = proxy_world e" and s: "sound hosts s"
    have run: "\<not> stop (loop s)" "beforesleep (loop s) = None" using s by (auto simp: sound_def shape_ok_def loop_runs_def)
    then obtain y where y: "aeProcessEvents w AE_ALL_EVENTS s = Some y" using body w by (auto simp: world_simps split: option.splits)
    show "\<forall>s'. x \<noteq> Inr s'"
    proof (cases y)
      case (Inl a)
      then show ?thesis using body y run w by (auto simp: world_simps)
    next
      case (Inr b)
      then obtain n s2 where b: "y = Inr (n, s2)" by (cases b) auto
      have "sound hosts s2" using proxy.aeProcessEvents_keeps [OF s refl] y b w by blast
      moreover have "f w s2 = Some x" using body y b run w by (simp add: world_simps)
      ultimately show ?thesis using ih w by blast
    qed
  qed
  then show ?thesis using assms by blast
qed

text \<open>
  The proxy never returns from \<open>main\<close>: from no boot, in no surroundings, does \<open>aeMain\<close> come back
  with a state.  Nothing ever asks the loop to stop, so a run goes on for ever, waits, or ends
  in one of the calls of \<open>exit\<close>.
\<close>

theorem main_never_returns:
  assumes "boot_ok hosts kf s0"
  shows "main_run e kf s0 \<noteq> Some (Inr s)"
proof (cases "main_boot kf s0")
  case (Inl f)
  then show ?thesis by (simp add: main_run_def)
next
  case (Inr s1)
  have sound: "sound hosts s1" by (rule boot_sound [OF assms Inr])
  then have "(loop s1)\<lparr>stop := False\<rparr> = loop s1" by (simp add: sound_def shape_ok_def loop_runs_def)
  then have "upd_loop (proxy_world e) (\<lambda>el. el\<lparr>stop := False\<rparr>) s1 = s1" by (simp add: upd_loop_def world_simps)
  then show ?thesis using main_loop_never_returns [OF sound] Inr by (simp add: main_run_def aeMain_def)
qed

subsection \<open>A proxy that starts and turns once\<close>

definition sample_keyfile :: keyfile where
  "sample_keyfile = \<lparr>load_from_file = True, get_integer = (\<lambda>k. 6379), get_string = (\<lambda>k. Some ''10.0.0.9''),
     get_string_list = (\<lambda>k. Some (addrs_of sample_hosts))\<rparr>"

definition first_state :: proxy where
  "first_state = globals fresh_loop (the (ht_create True True 65536), \<lambda>n. 0)
     (\<lambda>n. \<lparr>count0 = 0, count1 = 0, md5_state = (0, 0, 0, 0), md5_buffer = replicate 64 0\<rparr>)
     (\<lambda>i. CHR ''x'') (\<lambda>i. CHR ''y'') (two_connections @ [\<lparr>ret = 4000, sets_errno = None, bytes = []\<rparr>])"

definition idle_world :: "int \<Rightarrow> ((string \<times> string) list, string) surroundings" where
  "idle_world now = \<lparr>time_ms = \<lambda>s. now, ready = \<lambda>t s. [], libraries = sample_libs, beyond_char = NUL,
     heap_bytes = \<lambda>i. NUL, stack_bytes = \<lambda>i. NUL\<rparr>"

lemma sample_conf: "load_conf sample_keyfile = Inr (Some \<lparr>listen_port = 6379, master_ip = ''10.0.0.9'', self_ip = ''10.0.0.9'',
    master_port = 6379, slave_ip = ''10.0.0.9'', ips = addrs_of sample_hosts, ip_num = 4, slave_port = 6379\<rparr>)"
  by (simp add: load_conf_def sample_keyfile_def Let_def addrs_of_def sample_hosts_def)

lemma first_state_ok: "boot_ok sample_hosts sample_keyfile first_state"
proof -
  have conf: "ips c = addrs_of sample_hosts" if "load_conf sample_keyfile = Inr (Some c)" for c
    using that by (simp add: sample_conf) (drule sym, simp)
  show ?thesis
    unfolding boot_ok_def first_state_def
    by (intro conjI sample_hosts_ok exI [of _ 0] exI [of _ fresh_loop] exI, simp add: conf, rule fresh_loop_ok [where ?'a = proc])
      (simp_all add: ULONG_MAX_def)
qed

lemma first_boot: "\<exists>s. main_boot sample_keyfile first_state = Inr s \<and> master_fd s = 7 \<and> timers_wf (loop s) \<and>
    fd_mask (loop s) 7 = AE_READABLE"
proof -
  let ?s1 = "first_state\<lparr>buf_master_cmd := (buf_master_cmd first_state)\<lparr>len := 0\<rparr>,
    buf_slave_answer := (buf_slave_answer first_state)\<lparr>len := 0\<rparr>\<rparr>"
  obtain t where t: "initHost (addrs_of sample_hosts) ?s1 = Inr (1, ?s1\<lparr>host_master_num := int (length sample_hosts),
      host_masters := map (\<lambda>h. Some (fst h)) sample_hosts, hashtable := t\<rparr>)"
    using initHost_ok [OF sample_hosts_ok, of ?s1] by (auto simp: first_state_def globals_def ULONG_MAX_def)
  let ?s2 = "?s1\<lparr>host_master_num := int (length sample_hosts), host_masters := map (\<lambda>h. Some (fst h)) sample_hosts, hashtable := t\<rparr>"
  have p: "pending ?s2 = two_connections @ [\<lparr>ret = 4000, sets_errno = None, bytes = []\<rparr>]" "loop ?s2 = fresh_loop"
    by (simp_all add: first_state_def globals_def)
  then obtain s3 where s3: "connectToMaster ?s2 = Inr (1, s3)" "master_fd s3 = 7" "pending s3 = [\<lparr>ret = 4000, sets_errno = None, bytes = []\<rparr>]"
    "loop_ok (loop s3)" "fd_mask (loop s3) 7 = AE_READABLE"
    using connectToMaster_ok [of ?s2] fresh_loop_loop_ok by (auto simp: two_connections_def reconnect_answers_def)
  obtain i l where new: "aeCreateTimeEvent True 4000 (loop s3) 1 TimeEvent None = (i, l)"
    by (cases "aeCreateTimeEvent True 4000 (loop s3) 1 TimeEvent None")
  then have "timers_wf l" "fd_mask l 7 = AE_READABLE"
    using timers.step_sim [of "loop s3" "StartTimer 4000 1 TimeEvent"] s3(4,5)
    by (auto simp: loop_ok_def aeCreateTimeEvent_def Let_def split: prod.splits)
  then show ?thesis
    using s3(2,3) new by (simp add: main_boot_def sample_conf t s3(1) syscall_def)
qed

lemma idle_turn:
  assumes "master_fd s \<noteq> -1" and "timers_wf (loop s)"
  shows "\<exists>n s'. aeProcessEvents (proxy_world (idle_world (lastTime (loop s) * 1000))) AE_ALL_EVENTS s = Some (Inr (n, s'))"
proof -
  let ?now = "lastTime (loop s) * 1000"
  have w: "proxy_world (idle_world ?now) = still_world ?now (idle_world ?now)" by (simp add: still_world_def idle_world_def)
  obtain k s' where t: "processTimeEvents (proxy_world (idle_world ?now)) s = Some (Inr (k, s'))"
    using timers_pass(1) [OF assms, of ?now "idle_world ?now"] unfolding w Let_def by auto
  have "poll_files (proxy_world (idle_world ?now)) AE_ALL_EVENTS s = Inr (0, s)"
    by (simp add: poll_files_def world_simps aeApiPoll_def idle_world_def Let_def)
  moreover have "AE_ALL_EVENTS AND AE_TIME_EVENTS \<noteq> 0"
    by (simp add: AE_ALL_EVENTS_def AE_TIME_EVENTS_def AE_FILE_EVENTS_def)
  ultimately have "aeProcessEvents (proxy_world (idle_world ?now)) AE_ALL_EVENTS s = Some (Inr (k, s'))"
    by (simp add: aeProcessEvents_def t)
  then show ?thesis by blast
qed

text \<open>The proxy has started and turned once.\<close>

lemma first_turn: "\<exists>s. reach sample_libs sample_keyfile first_state s"
proof -
  obtain s where s: "main_boot sample_keyfile first_state = Inr s" "master_fd s = 7" "timers_wf (loop s)"
    using first_boot by blast
  obtain n s' where turn: "aeProcessEvents (proxy_world (idle_world (lastTime (loop s) * 1000))) AE_ALL_EVENTS s = Some (Inr (n, s'))"
    using idle_turn [of s] s(2,3) by auto
  have "reach sample_libs sample_keyfile first_state s'"
    by (rule reach.turned [OF reach.started [OF s(1)] _ turn]) (simp add: idle_world_def)
  then show ?thesis ..
qed

theorem reachable_states_are_sound_witness:
  "\<exists>s. reach sample_libs sample_keyfile first_state s \<and> table_ok (loop s) \<and> beats s"
proof -
  obtain s where s: "reach sample_libs sample_keyfile first_state s" using first_turn by blast
  show ?thesis using reachable_states_are_sound [OF first_state_ok s] s by blast
qed

theorem dispatch_runs_the_registered_handler_witness:
  "\<exists>s p. in_turn (libraries (idle_world 0)) sample_keyfile first_state s \<and>
     rfileProc (events (loop s) ! nat 7) = Some p \<and>
     fire_file (proxy_world (idle_world 0)) (7, AE_READABLE) s = call_proc (idle_world 0) p 7 s"
proof -
  obtain s where s: "main_boot sample_keyfile first_state = Inr s" "fd_mask (loop s) 7 = AE_READABLE"
    using first_boot by blast
  have "in_turn (libraries (idle_world 0)) sample_keyfile first_state s"
    by (intro in_turn.between reach.started [OF s(1)])
  moreover have "(fd_mask (loop s) 7 = AE_NONE \<or> AE_READABLE AND AE_READABLE = 0) = False"
    using s(2) by (simp add: AE_READABLE_def AE_NONE_def)
  ultimately show ?thesis
    using dispatch_runs_the_registered_handler [OF first_state_ok, of "idle_world 0" s 7 AE_READABLE] by auto
qed

theorem main_never_returns_witness:
  "\<exists>s1. main_boot sample_keyfile first_state = Inr s1 \<and> main_run (idle_world 0) sample_keyfile first_state \<noteq> Some (Inr s1)"
  using main_never_returns [OF first_state_ok] first_boot by blast

end
