(* ===== verification/ProxyFaults.thy ===== *)
theory ProxyFaults
  imports Handlers
begin

text \<open>
  Two ways the proxy loses its master for good (\<^verbatim>\<open>proxy/event.c\<close>, \<^verbatim>\<open>proxy/io.c\<close>): the heart beat
  reconnects only when \<open>master_fd\<close> is -1, and both leave the number of a dead connection there.
\<close>

subsection \<open>A connection that could not be watched\<close>

text \<open>
  C21.  When the event loop has no room for the new connection to the master (its number is beyond the
  table, or \<open>epoll_ctl\<close> refuses it), \<open>connectToMaster\<close> closes it and reports the failure, but keeps
  its number in \<open>master_fd\<close>: from then on the heart beat takes the closed connection for an open
  one, so it never connects again.
\<close>

theorem failed_registration_stops_reconnecting:
  assumes "0 \<le> ret a" and "pending s = a # rs"
    and full: "ret a \<ge> setsize (loop s) \<or> (\<exists>b later. rs = b # later \<and> ret b = -1)"
  shows "\<exists>s'. connectToMaster s = Inr (-1, s') \<and> Closed (ret a) \<in> set (trace s') \<and> apidata (loop s') (ret a) = None \<and>
    master_fd s' = ret a \<and> timeEvent s' = Inr (100, s'\<lparr>cronloops := cronloops s' + 1\<rparr>)"
proof -
  define s1 where "s1 = s\<lparr>pending := rs, errno := (case sets_errno a of None \<Rightarrow> 0 | Some e \<Rightarrow> e), master_fd := ret a\<rparr>"
  have conn: "connectToMaster s = andThen (register (ret a) ReadFromMaster s1) (\<lambda>(st, s).
      if st = AE_ERR then Inr (-1, close_fd (master_fd s) s)
      else andThen (listenToPort s) (\<lambda>(r, s). if r = -1 then Inl Exit else Inr (1, s)))"
    using assms(1,2) by (simp add: connectToMaster_def syscall_def s1_def andThen_def Let_def split: option.split)
  have "\<exists>s2. register (ret a) ReadFromMaster s1 = Inr (AE_ERR, s2) \<and> master_fd s2 = ret a"
  proof (cases "ret a \<ge> setsize (loop s)")
    case True
    then show ?thesis by (simp add: register_def s1_def)
  next
    case False
    then obtain b later where "rs = b # later" "ret b = -1" using full by blast
    moreover have "aeCreateFileEvent False (loop s) (ret a) AE_READABLE ReadFromMaster 0 = Inr (AE_ERR, loop s)"
      using False assms(1) by (simp add: aeCreateFileEvent_def aeApiAddEvent_def epoll_ctl_def Let_def split: ctl_op.split)
    ultimately show ?thesis using False by (simp add: register_def s1_def syscall_def)
  qed
  then obtain s2 where s2: "register (ret a) ReadFromMaster s1 = Inr (AE_ERR, s2)" "master_fd s2 = ret a" by blast
  let ?s' = "close_fd (ret a) s2"
  have "master_fd ?s' = ret a" by (simp add: close_fd_def emit_def s2(2))
  moreover from this have "timeEvent ?s' = Inr (100, ?s'\<lparr>cronloops := cronloops ?s' + 1\<rparr>)"
    using assms(1) by (simp add: timeEvent_def)
  moreover have "connectToMaster s = Inr (-1, ?s')" by (simp add: conn s2)
  ultimately show ?thesis by (intro exI [of _ ?s']) (simp add: close_fd_def emit_def epoll_close_def)
qed

text \<open>The connection gets number 1024, one more than the table has.\<close>

theorem failed_registration_stops_reconnecting_witness:
  "\<exists>s'. connectToMaster (open_proxy [\<lparr>ret = 1024, sets_errno = None, bytes = []\<rparr>]\<lparr>master_fd := -1\<rparr>) = Inr (-1, s') \<and>
     Closed 1024 \<in> set (trace s') \<and> master_fd s' = 1024"
  using failed_registration_stops_reconnecting [of "\<lparr>ret = 1024, sets_errno = None, bytes = []\<rparr>"
      "open_proxy [\<lparr>ret = 1024, sets_errno = None, bytes = []\<rparr>]\<lparr>master_fd := -1\<rparr>" "[]"]
  by (simp add: fresh_loop_setsize) blast

subsection \<open>An end of file that is not seen\<close>

lemma readData_stale_eof:
  assumes "master_fd s \<noteq> -1" "fd \<noteq> -1" "pending s = r # rs" "ret r = 0" "sets_errno r = None" "errno s \<in> {EAGAIN, EINPROGRESS}"
  shows "readData fd sz s = Inr (0, [], s\<lparr>pending := rs\<rparr>)"
  using assms by (cases s) (auto simp: readData_def syscall_def Let_def)

text \<open>
  C20.  A lost connection to the master can go unnoticed: \<open>read\<close> reports the end of the file with 0 and
  leaves \<open>errno\<close> alone, and \<open>readData\<close> then looks at \<open>errno\<close>.  When an earlier call left \<open>EAGAIN\<close>
  there, the closed connection counts as one with nothing to read.  In the start state and in the
  running state \<open>readFromMaster\<close> does nothing and keeps the descriptor open; during a
  synchronisation, at the start of its line and inside its payload, the loop of the handler just
  reads again, as if the call had not been made.
\<close>

theorem eof_after_eagain_goes_unnoticed:
  assumes fds: "master_fd s \<noteq> -1" "fd \<noteq> -1" and eof: "pending s = r # later" "ret r = 0" "sets_errno r = None"
    and stale: "errno s \<in> {EAGAIN, EINPROGRESS}" and left: "proxy_state s = SYNC_STATE \<Longrightarrow> bulk_size s \<noteq> 0"
  shows "readFromMaster beyond heap stack fd s =
    (if proxy_state s \<in> {SYNC_START_STATE, SYNC_STATE} then readFromMaster beyond heap stack fd (s\<lparr>pending := later\<rparr>)
     else Some (Inr (s\<lparr>pending := later\<rparr>)))"
proof -
  have rd: "readData fd sz s = Inr (0, [], s\<lparr>pending := later\<rparr>)" for sz
    by (rule readData_stale_eof [OF fds eof stale])
  have "sync_line fd [] s = sync_line fd [] (s\<lparr>pending := later\<rparr>)"
    by (subst sync_line.simps) (simp add: rd MAX_READ_def)
  moreover have "sync_payload fd s = sync_payload fd (s\<lparr>pending := later\<rparr>)" if "bulk_size s \<noteq> 0"
    using sync_payload_again [OF that rd] .
  ultimately show ?thesis using left rd by (auto simp: readFromMaster_def)
qed

definition eof_answer :: sysret where
  "eof_answer = \<lparr>ret = 0, sets_errno = None, bytes = []\<rparr>"

theorem eof_after_eagain_goes_unnoticed_witness:
  "readFromMaster NUL (\<lambda>i. NUL) (\<lambda>i. NUL) 5 (open_proxy [eof_answer]\<lparr>errno := EAGAIN\<rparr>) =
     Some (Inr (open_proxy []\<lparr>errno := EAGAIN\<rparr>))"
proof -
  have "open_proxy [eof_answer]\<lparr>errno := EAGAIN, pending := []\<rparr> = open_proxy []\<lparr>errno := EAGAIN\<rparr>"
    by (simp add: open_proxy_def globals_def)
  then show ?thesis
    using eof_after_eagain_goes_unnoticed [of "open_proxy [eof_answer]\<lparr>errno := EAGAIN\<rparr>" 5 eof_answer "[]"]
    by (simp add: eof_answer_def RUNNING_STATE_def SYNC_START_STATE_def SYNC_STATE_def)
qed

end
