(* ===== verification/RbTree.thy ===== *)
theory RbTree
  imports Prelude
begin

text \<open>
  The red-black tree of \<^verbatim>\<open>nginx/c/util_rbtree.c\<close> (\<^verbatim>\<open>proxy/util_rbtree.c\<close> is the same file), at the
  level of its pointers: nodes are cells of a heap with parent, left and right links, the
  sentinel is a cell of the tree itself, and every access to a cell that is not allocated is
  \<open>Undefined\<close>.  A loop that does not end is \<open>None\<close>.  This theory holds the code; the
  representation of a tree in the heap is in \<open>RbRep\<close>, insertion and deletion are verified in
  \<open>RbInsert\<close> and \<open>RbDelete\<close>.
\<close>

subsection \<open>The heap\<close>

type_synonym addr = nat

record util_rbtree_node_t =
  key :: int
  parent :: addr
  right :: addr
  left :: addr
  color :: int
  vdata :: nat

record util_rbtree_t =
  root :: addr
  rb_size :: "32 word"
  heap :: "addr \<Rightarrow> util_rbtree_node_t option"

text \<open>\<open>NULL\<close> is never allocated; \<open>NIL\<close> is the address of \<open>rbtree->null\<close>.\<close>

definition NULL :: addr where "NULL = 0"
definition NIL :: addr where "NIL = 1"

lemma NULL_NIL [simp]: "NULL \<noteq> NIL" "NIL \<noteq> NULL"
  by (simp_all add: NULL_def NIL_def)

type_synonym 'a res = "'a outcome option"

definition bnd :: "'a res \<Rightarrow> ('a \<Rightarrow> 'b res) \<Rightarrow> 'b res" where
  "bnd m f = (case m of None \<Rightarrow> None | Some (Inl e) \<Rightarrow> Some (Inl e) | Some (Inr x) \<Rightarrow> f x)"

lemma bnd_simps [simp]:
  "bnd None f = None" "bnd (Some (Inl e)) f = Some (Inl e)" "bnd (Some (Inr x)) f = f x"
  by (simp_all add: bnd_def)

lemma bnd_mono [partial_function_mono]:
  assumes "mono_option m" and "\<And>y. mono_option (\<lambda>f. k f y)"
  shows "mono_option (\<lambda>f. bnd (m f) (\<lambda>y. k f y))"
proof -
  have eq: "bnd m f = Option.bind m (\<lambda>r. case r of Inl e \<Rightarrow> Some (Inl e) | Inr x \<Rightarrow> f x)"
    for m :: "'c res" and f :: "'c \<Rightarrow> 'd res"
    by (simp add: bnd_def split: option.split)
  have case_mono: "mono_option (\<lambda>f. case r of Inl e \<Rightarrow> Some (Inl e) | Inr x \<Rightarrow> k f x)" for r
    using assms(2) by (cases r) (simp_all add: monotone_def flat_ord_def)
  show ?thesis
    unfolding eq by (rule bind_mono [OF assms(1) case_mono])
qed

definition ok :: "'a \<Rightarrow> 'a res" where
  "ok x = Some (Inr x)"

definition rd :: "util_rbtree_t \<Rightarrow> addr \<Rightarrow> (util_rbtree_node_t \<Rightarrow> 'a) \<Rightarrow> 'a res" where
  "rd s a f = (case heap s a of None \<Rightarrow> Some (Inl Undefined) | Some n \<Rightarrow> ok (f n))"

definition wr :: "addr \<Rightarrow> (util_rbtree_node_t \<Rightarrow> util_rbtree_node_t) \<Rightarrow> util_rbtree_t \<Rightarrow> util_rbtree_t res" where
  "wr a g s =
     (case heap s a of None \<Rightarrow> Some (Inl Undefined) | Some n \<Rightarrow> ok (s\<lparr>heap := (heap s)(a \<mapsto> g n)\<rparr>))"

definition util_rbt_black :: "addr \<Rightarrow> util_rbtree_t \<Rightarrow> util_rbtree_t res" where
  "util_rbt_black a s = wr a (\<lambda>n. n\<lparr>color := 1\<rparr>) s"

definition util_rbt_red :: "addr \<Rightarrow> util_rbtree_t \<Rightarrow> util_rbtree_t res" where
  "util_rbt_red a s = wr a (\<lambda>n. n\<lparr>color := 0\<rparr>) s"

definition util_rbt_isblack :: "util_rbtree_t \<Rightarrow> addr \<Rightarrow> bool res" where
  "util_rbt_isblack s a = rd s a (\<lambda>n. color n = 1)"

definition util_rbt_isred :: "util_rbtree_t \<Rightarrow> addr \<Rightarrow> bool res" where
  "util_rbt_isred s a = rd s a (\<lambda>n. color n = 0)"

definition rbt_clear_node :: "addr \<Rightarrow> util_rbtree_t \<Rightarrow> util_rbtree_t res" where
  "rbt_clear_node a s = wr a (\<lambda>n. n\<lparr>left := NULL, right := NULL, parent := NULL\<rparr>) s"

definition util_rbtree_isempty :: "util_rbtree_t \<Rightarrow> bool" where
  "util_rbtree_isempty s \<longleftrightarrow> root s = NIL"

subsection \<open>Initialisation, minimum and maximum\<close>

definition util_rbtree_init :: "util_rbtree_t \<Rightarrow> util_rbtree_t res" where
  "util_rbtree_init s = bnd (util_rbt_black NIL s) (\<lambda>s. ok (s\<lparr>root := NIL, rb_size := 0\<rparr>))"

partial_function (option) min_loop :: "util_rbtree_t \<Rightarrow> addr \<Rightarrow> addr \<Rightarrow> addr res" where
  "min_loop s node sentinel =
     bnd (rd s node left) (\<lambda>l. if l \<noteq> sentinel then min_loop s l sentinel else ok node)"

definition util_rbsubtree_min :: "util_rbtree_t \<Rightarrow> addr \<Rightarrow> addr \<Rightarrow> addr res" where
  "util_rbsubtree_min s node sentinel =
     (if node = sentinel then ok NULL else min_loop s node sentinel)"

partial_function (option) max_loop :: "util_rbtree_t \<Rightarrow> addr \<Rightarrow> addr \<Rightarrow> addr res" where
  "max_loop s node sentinel =
     bnd (rd s node right) (\<lambda>r. if r \<noteq> sentinel then max_loop s r sentinel else ok node)"

definition util_rbsubtree_max :: "util_rbtree_t \<Rightarrow> addr \<Rightarrow> addr \<Rightarrow> addr res" where
  "util_rbsubtree_max s node sentinel =
     (if node = sentinel then ok NULL else max_loop s node sentinel)"

definition util_rbtree_min :: "util_rbtree_t \<Rightarrow> addr res" where
  "util_rbtree_min s = util_rbsubtree_min s (root s) NIL"

definition util_rbtree_max :: "util_rbtree_t \<Rightarrow> addr res" where
  "util_rbtree_max s = util_rbsubtree_max s (root s) NIL"

subsection \<open>Rotations\<close>

text \<open>The link from above: the root or the child link of \<open>node\<close>'s parent is set to \<open>a\<close>.\<close>

definition relink :: "addr \<Rightarrow> addr \<Rightarrow> util_rbtree_t \<Rightarrow> util_rbtree_t res" where
  "relink node a s =
     (if node = root s then ok (s\<lparr>root := a\<rparr>)
      else bnd (rd s node parent) (\<lambda>p.
             bnd (rd s p left) (\<lambda>l.
               if l = node then wr p (\<lambda>n. n\<lparr>left := a\<rparr>) s
               else wr p (\<lambda>n. n\<lparr>right := a\<rparr>) s)))"

definition rbtree_left_rotate :: "addr \<Rightarrow> util_rbtree_t \<Rightarrow> util_rbtree_t res" where
  "rbtree_left_rotate node s =
     bnd (rd s node right) (\<lambda>rc.
     bnd (rd s rc left) (\<lambda>rclc.
     bnd (rd s node parent) (\<lambda>p.
     bnd (wr rc (\<lambda>n. n\<lparr>parent := p\<rparr>) s) (\<lambda>s.
     bnd (relink node rc s) (\<lambda>s.
     bnd (wr node (\<lambda>n. n\<lparr>parent := rc\<rparr>) s) (\<lambda>s.
     bnd (wr rc (\<lambda>n. n\<lparr>left := node\<rparr>) s) (\<lambda>s.
     bnd (wr node (\<lambda>n. n\<lparr>right := rclc\<rparr>) s) (\<lambda>s.
       if rclc \<noteq> NIL then wr rclc (\<lambda>n. n\<lparr>parent := node\<rparr>) s else ok s))))))))"

definition rbtree_right_rotate :: "addr \<Rightarrow> util_rbtree_t \<Rightarrow> util_rbtree_t res" where
  "rbtree_right_rotate node s =
     bnd (rd s node left) (\<lambda>lc.
     bnd (rd s lc right) (\<lambda>lcrc.
     bnd (rd s node parent) (\<lambda>p.
     bnd (wr lc (\<lambda>n. n\<lparr>parent := p\<rparr>) s) (\<lambda>s.
     bnd (relink node lc s) (\<lambda>s.
     bnd (wr lc (\<lambda>n. n\<lparr>right := node\<rparr>) s) (\<lambda>s.
     bnd (wr node (\<lambda>n. n\<lparr>parent := lc\<rparr>) s) (\<lambda>s.
     bnd (wr node (\<lambda>n. n\<lparr>left := lcrc\<rparr>) s) (\<lambda>s.
       if lcrc \<noteq> NIL then wr lcrc (\<lambda>n. n\<lparr>parent := node\<rparr>) s else ok s))))))))"

subsection \<open>Insertion\<close>

text \<open>One turn of the repair loop for a parent that is a left child, and its mirror image.\<close>

definition insert_fixup_left :: "addr \<Rightarrow> addr \<Rightarrow> util_rbtree_t \<Rightarrow> (util_rbtree_t \<times> addr) res" where
  "insert_fixup_left node p s =
     bnd (rd s p parent) (\<lambda>g.
     bnd (rd s g right) (\<lambda>u.
     bnd (util_rbt_isred s u) (\<lambda>ured.
       if ured then
         bnd (util_rbt_black u s) (\<lambda>s.
         bnd (util_rbt_black p s) (\<lambda>s.
         bnd (rd s p parent) (\<lambda>g.
         bnd (util_rbt_red g s) (\<lambda>s.
         bnd (rd s p parent) (\<lambda>g. ok (s, g))))))
       else
         bnd (rd s p right) (\<lambda>pr.
         bnd (if node = pr
              then bnd (rbtree_left_rotate p s) (\<lambda>s. bnd (rd s p parent) (\<lambda>p'. ok (s, p, p')))
              else ok (s, node, p)) (\<lambda>(s, node, p).
         bnd (util_rbt_black p s) (\<lambda>s.
         bnd (rd s p parent) (\<lambda>g.
         bnd (util_rbt_red g s) (\<lambda>s.
         bnd (rd s p parent) (\<lambda>g.
         bnd (rbtree_right_rotate g s) (\<lambda>s. ok (s, node)))))))))))"

definition insert_fixup_right :: "addr \<Rightarrow> addr \<Rightarrow> util_rbtree_t \<Rightarrow> (util_rbtree_t \<times> addr) res" where
  "insert_fixup_right node p s =
     bnd (rd s p parent) (\<lambda>g.
     bnd (rd s g left) (\<lambda>u.
     bnd (util_rbt_isred s u) (\<lambda>ured.
       if ured then
         bnd (util_rbt_black u s) (\<lambda>s.
         bnd (util_rbt_black p s) (\<lambda>s.
         bnd (rd s p parent) (\<lambda>g.
         bnd (util_rbt_red g s) (\<lambda>s.
         bnd (rd s p parent) (\<lambda>g. ok (s, g))))))
       else
         bnd (rd s p left) (\<lambda>pl.
         bnd (if pl = node
              then bnd (rbtree_right_rotate p s) (\<lambda>s. bnd (rd s p parent) (\<lambda>p'. ok (s, p, p')))
              else ok (s, node, p)) (\<lambda>(s, node, p).
         bnd (util_rbt_black p s) (\<lambda>s.
         bnd (rd s p parent) (\<lambda>g.
         bnd (util_rbt_red g s) (\<lambda>s.
         bnd (rd s p parent) (\<lambda>g.
         bnd (rbtree_left_rotate g s) (\<lambda>s. ok (s, node)))))))))))"

partial_function (option) rbtree_insert_fixup :: "addr \<Rightarrow> util_rbtree_t \<Rightarrow> util_rbtree_t res" where
  "rbtree_insert_fixup node s =
     bnd (rd s node parent) (\<lambda>p.
     bnd (util_rbt_isred s p) (\<lambda>red.
       if red then
         bnd (rd s p parent) (\<lambda>g.
         bnd (rd s g left) (\<lambda>gl.
         bnd (if p = gl then insert_fixup_left node p s else insert_fixup_right node p s) (\<lambda>r.
           rbtree_insert_fixup (snd r) (fst r))))
       else util_rbt_black (root s) s))"

text \<open>The descent to the insert position: \<open>y\<close> trails \<open>x\<close>.\<close>

partial_function (option) insert_pos :: "util_rbtree_t \<Rightarrow> addr \<Rightarrow> addr \<Rightarrow> addr \<Rightarrow> addr res" where
  "insert_pos s node x y =
     (if x \<noteq> NIL then
        bnd (rd s node key) (\<lambda>k.
        bnd (rd s x key) (\<lambda>kx.
        bnd (if k < kx then rd s x left else rd s x right) (\<lambda>x'.
          insert_pos s node x' x)))
      else ok y)"

definition util_rbtree_insert :: "addr \<Rightarrow> util_rbtree_t \<Rightarrow> util_rbtree_t res" where
  "util_rbtree_insert node s =
     (if node = NULL \<or> node = NIL then ok s
      else
        bnd (if root s = NIL
             then wr node (\<lambda>n. n\<lparr>parent := NIL\<rparr>) (s\<lparr>root := node\<rparr>)
             else bnd (insert_pos s node (root s) NULL) (\<lambda>y.
                  bnd (wr node (\<lambda>n. n\<lparr>parent := y\<rparr>) s) (\<lambda>s.
                  bnd (rd s node key) (\<lambda>k.
                  bnd (rd s y key) (\<lambda>ky.
                    if k < ky then wr y (\<lambda>n. n\<lparr>left := node\<rparr>) s
                    else wr y (\<lambda>n. n\<lparr>right := node\<rparr>) s))))) (\<lambda>s.
        bnd (wr node (\<lambda>n. n\<lparr>left := NIL\<rparr>) s) (\<lambda>s.
        bnd (wr node (\<lambda>n. n\<lparr>right := NIL\<rparr>) s) (\<lambda>s.
        bnd (util_rbt_red node s) (\<lambda>s.
        bnd (rbtree_insert_fixup node s) (\<lambda>s.
          ok (s\<lparr>rb_size := rb_size s + 1\<rparr>)))))))"

subsection \<open>Deletion\<close>

definition delete_fixup_left :: "addr \<Rightarrow> util_rbtree_t \<Rightarrow> (util_rbtree_t \<times> addr) res" where
  "delete_fixup_left node s =
     bnd (rd s node parent) (\<lambda>p.
     bnd (rd s p right) (\<lambda>w.
     bnd (util_rbt_isred s w) (\<lambda>wred.
     bnd (if wred then
            bnd (util_rbt_black w s) (\<lambda>s.
            bnd (rd s node parent) (\<lambda>p.
            bnd (util_rbt_red p s) (\<lambda>s.
            bnd (rbtree_left_rotate p s) (\<lambda>s.
            bnd (rd s node parent) (\<lambda>p.
            bnd (rd s p right) (\<lambda>w. ok (s, w)))))))
          else ok (s, w)) (\<lambda>(s, w).
     bnd (rd s w left) (\<lambda>wl.
     bnd (util_rbt_isblack s wl) (\<lambda>lblack.
     bnd (if lblack then bnd (rd s w right) (\<lambda>x. util_rbt_isblack s x) else ok False) (\<lambda>both.
       if both then
         bnd (util_rbt_red w s) (\<lambda>s. bnd (rd s node parent) (\<lambda>p. ok (s, p)))
       else
         bnd (rd s w right) (\<lambda>x.
         bnd (util_rbt_isblack s x) (\<lambda>rblack.
         bnd (if rblack then
                bnd (rd s w left) (\<lambda>wl.
                bnd (util_rbt_black wl s) (\<lambda>s.
                bnd (util_rbt_red w s) (\<lambda>s.
                bnd (rbtree_right_rotate w s) (\<lambda>s.
                bnd (rd s node parent) (\<lambda>p.
                bnd (rd s p right) (\<lambda>w. ok (s, w)))))))
              else ok (s, w)) (\<lambda>(s, w).
         bnd (rd s node parent) (\<lambda>p.
         bnd (rd s p color) (\<lambda>c.
         bnd (wr w (\<lambda>n. n\<lparr>color := c\<rparr>) s) (\<lambda>s.
         bnd (util_rbt_black p s) (\<lambda>s.
         bnd (rd s w right) (\<lambda>x.
         bnd (util_rbt_black x s) (\<lambda>s.
         bnd (rbtree_left_rotate p s) (\<lambda>s.
           ok (s, root s))))))))))))))))))"

definition delete_fixup_right :: "addr \<Rightarrow> util_rbtree_t \<Rightarrow> (util_rbtree_t \<times> addr) res" where
  "delete_fixup_right node s =
     bnd (rd s node parent) (\<lambda>p.
     bnd (rd s p left) (\<lambda>w.
     bnd (util_rbt_isred s w) (\<lambda>wred.
     bnd (if wred then
            bnd (util_rbt_black w s) (\<lambda>s.
            bnd (rd s node parent) (\<lambda>p.
            bnd (util_rbt_red p s) (\<lambda>s.
            bnd (rbtree_right_rotate p s) (\<lambda>s.
            bnd (rd s node parent) (\<lambda>p.
            bnd (rd s p left) (\<lambda>w. ok (s, w)))))))
          else ok (s, w)) (\<lambda>(s, w).
     bnd (rd s w left) (\<lambda>wl.
     bnd (util_rbt_isblack s wl) (\<lambda>lblack.
     bnd (if lblack then bnd (rd s w right) (\<lambda>x. util_rbt_isblack s x) else ok False) (\<lambda>both.
       if both then
         bnd (util_rbt_red w s) (\<lambda>s. bnd (rd s node parent) (\<lambda>p. ok (s, p)))
       else
         bnd (rd s w left) (\<lambda>wl.
         bnd (util_rbt_isblack s wl) (\<lambda>lblack.
         bnd (if lblack then
                bnd (rd s w right) (\<lambda>x.
                bnd (util_rbt_black x s) (\<lambda>s.
                bnd (util_rbt_red w s) (\<lambda>s.
                bnd (rbtree_left_rotate w s) (\<lambda>s.
                bnd (rd s node parent) (\<lambda>p.
                bnd (rd s p left) (\<lambda>w. ok (s, w)))))))
              else ok (s, w)) (\<lambda>(s, w).
         bnd (rd s node parent) (\<lambda>p.
         bnd (rd s p color) (\<lambda>c.
         bnd (wr w (\<lambda>n. n\<lparr>color := c\<rparr>) s) (\<lambda>s.
         bnd (util_rbt_black p s) (\<lambda>s.
         bnd (rd s w left) (\<lambda>wl.
         bnd (util_rbt_black wl s) (\<lambda>s.
         bnd (rbtree_right_rotate p s) (\<lambda>s.
           ok (s, root s))))))))))))))))))"

partial_function (option) rbtree_delete_fixup :: "addr \<Rightarrow> util_rbtree_t \<Rightarrow> util_rbtree_t res" where
  "rbtree_delete_fixup node s =
     bnd (if node \<noteq> root s then util_rbt_isblack s node else ok False) (\<lambda>again.
       if again then
         bnd (rd s node parent) (\<lambda>p.
         bnd (rd s p left) (\<lambda>pl.
         bnd (if node = pl then delete_fixup_left node s else delete_fixup_right node s) (\<lambda>r.
           rbtree_delete_fixup (snd r) (fst r))))
       else util_rbt_black node s)"

text \<open>The choice of \<open>temp\<close>, the node that leaves its position, and of the child that takes it.\<close>

definition delete_pos :: "addr \<Rightarrow> util_rbtree_t \<Rightarrow> (addr \<times> addr) res" where
  "delete_pos node s =
     bnd (rd s node left) (\<lambda>l.
     bnd (rd s node right) (\<lambda>r.
       if l = NIL then ok (node, r)
       else if r = NIL then ok (node, l)
       else bnd (util_rbsubtree_min s r NIL) (\<lambda>temp.
            bnd (rd s temp left) (\<lambda>tl.
              if tl \<noteq> NIL then ok (temp, tl)
              else bnd (rd s temp right) (\<lambda>tr. ok (temp, tr))))))"

text \<open>\<open>temp\<close> is taken out of its position, \<open>subst\<close> takes it.\<close>

definition delete_unlink :: "addr \<Rightarrow> addr \<Rightarrow> addr \<Rightarrow> util_rbtree_t \<Rightarrow> util_rbtree_t res" where
  "delete_unlink node temp subst s =
     bnd (rd s temp parent) (\<lambda>tp.
     bnd (if tp = node then wr subst (\<lambda>n. n\<lparr>parent := temp\<rparr>) s
          else wr subst (\<lambda>n. n\<lparr>parent := tp\<rparr>) s) (\<lambda>s.
     bnd (rd s temp parent) (\<lambda>tp.
     bnd (rd s tp left) (\<lambda>tpl.
       if temp = tpl then wr tp (\<lambda>n. n\<lparr>left := subst\<rparr>) s
       else wr tp (\<lambda>n. n\<lparr>right := subst\<rparr>) s))))"

text \<open>\<open>temp\<close> takes the place of \<open>node\<close>.\<close>

definition delete_replace :: "addr \<Rightarrow> addr \<Rightarrow> util_rbtree_t \<Rightarrow> util_rbtree_t res" where
  "delete_replace node temp s =
     bnd (rd s node parent) (\<lambda>p.
     bnd (wr temp (\<lambda>n. n\<lparr>parent := p\<rparr>) s) (\<lambda>s.
     bnd (relink node temp s) (\<lambda>s.
     bnd (rd s node right) (\<lambda>r.
     bnd (wr temp (\<lambda>n. n\<lparr>right := r\<rparr>) s) (\<lambda>s.
     bnd (rd s node left) (\<lambda>l.
     bnd (wr temp (\<lambda>n. n\<lparr>left := l\<rparr>) s) (\<lambda>s.
     bnd (rd s temp left) (\<lambda>l.
     bnd (if l \<noteq> NIL then wr l (\<lambda>n. n\<lparr>parent := temp\<rparr>) s else ok s) (\<lambda>s.
     bnd (rd s temp right) (\<lambda>r.
     bnd (if r \<noteq> NIL then wr r (\<lambda>n. n\<lparr>parent := temp\<rparr>) s else ok s) (\<lambda>s.
     bnd (rd s node color) (\<lambda>c.
       wr temp (\<lambda>n. n\<lparr>color := c\<rparr>) s))))))))))))"

definition util_rbtree_delete :: "addr \<Rightarrow> util_rbtree_t \<Rightarrow> util_rbtree_t res" where
  "util_rbtree_delete node s =
     (if node = NULL \<or> node = NIL then ok s
      else
        let s = s\<lparr>rb_size := rb_size s - 1\<rparr> in
        bnd (delete_pos node s) (\<lambda>(temp, subst).
          if temp = root s then
            let s = s\<lparr>root := subst\<rparr> in
            bnd (util_rbt_black subst s) (\<lambda>s. rbt_clear_node temp s)
          else
            bnd (util_rbt_isblack s temp) (\<lambda>isblack.
            bnd (delete_unlink node temp subst s) (\<lambda>s.
            bnd (if temp \<noteq> node then delete_replace node temp s else ok s) (\<lambda>s.
            bnd (rbt_clear_node node s) (\<lambda>s.
              if isblack then rbtree_delete_fixup subst s else ok s))))))"

subsection \<open>Search, traversal and the self-check\<close>

partial_function (option) search_loop :: "util_rbtree_t \<Rightarrow> int \<Rightarrow> addr \<Rightarrow> addr res" where
  "search_loop s k node =
     (if node \<noteq> NIL then
        bnd (rd s node key) (\<lambda>kn.
          if k < kn then bnd (rd s node left) (\<lambda>l. search_loop s k l)
          else if k > kn then bnd (rd s node right) (\<lambda>r. search_loop s k r)
          else ok node)
      else ok NULL)"

definition util_rbtree_search :: "util_rbtree_t \<Rightarrow> int \<Rightarrow> addr res" where
  "util_rbtree_search s k = search_loop s k (root s)"

partial_function (option) lookup_loop :: "util_rbtree_t \<Rightarrow> int \<Rightarrow> addr \<Rightarrow> addr \<Rightarrow> addr res" where
  "lookup_loop s k node temp =
     (if temp \<noteq> NIL then
        bnd (rd s temp key) (\<lambda>kt.
          if k \<le> kt then bnd (rd s temp left) (\<lambda>l. lookup_loop s k temp l)
          else bnd (rd s temp right) (\<lambda>r. lookup_loop s k node r))
      else ok node)"

definition util_rbtree_lookup :: "util_rbtree_t \<Rightarrow> int \<Rightarrow> addr res" where
  "util_rbtree_lookup s k =
     (if \<not> util_rbtree_isempty s then
        bnd (lookup_loop s k NULL (root s)) (\<lambda>node.
          if node \<noteq> NULL then ok node else util_rbtree_min s)
      else ok NULL)"

text \<open>The traversal collects what \<open>opera\<close> is called with, in the order of the calls.\<close>

partial_function (option) mid_travel :: "util_rbtree_t \<Rightarrow> addr \<Rightarrow> (util_rbtree_node_t \<Rightarrow> 'd \<Rightarrow> 'd) \<Rightarrow> 'd \<Rightarrow> 'd res" where
  "mid_travel s node opera d =
     bnd (rd s node left) (\<lambda>l.
     bnd (if l \<noteq> NIL then mid_travel s l opera d else ok d) (\<lambda>d.
     bnd (rd s node (\<lambda>n. opera n d)) (\<lambda>d.
     bnd (rd s node right) (\<lambda>r.
       if r \<noteq> NIL then mid_travel s r opera d else ok d))))"

definition util_rbtree_mid_travel :: "util_rbtree_t \<Rightarrow> (util_rbtree_node_t \<Rightarrow> 'd \<Rightarrow> 'd) \<Rightarrow> 'd \<Rightarrow> 'd res" where
  "util_rbtree_mid_travel s opera d =
     (if \<not> util_rbtree_isempty s then mid_travel s (root s) opera d else ok d)"

record rbtree_check_t =
  rbh :: int
  maxd :: int
  fini :: int

text \<open>\<open>rbh\<close> and \<open>maxd\<close> are C shorts: the values stored in them wrap.\<close>

definition i16 :: "int \<Rightarrow> int" where
  "i16 x = signed_take_bit 15 x"

definition check_rb_height :: "int \<Rightarrow> int \<Rightarrow> rbtree_check_t \<Rightarrow> rbtree_check_t" where
  "check_rb_height level curheight ch =
     (let ch = (if rbh ch = 0 then ch\<lparr>rbh := i16 curheight\<rparr> else ch);
          ch = (if maxd ch < level then ch\<lparr>maxd := i16 level\<rparr> else ch)
      in if rbh ch \<noteq> curheight then ch\<lparr>fini := 3\<rparr> else ch)"

partial_function (option) rbtree_check_subtree ::
  "util_rbtree_t \<Rightarrow> addr \<Rightarrow> int \<Rightarrow> int \<Rightarrow> rbtree_check_t \<Rightarrow> rbtree_check_t res" where
  "rbtree_check_subtree s node level curheight ch =
     (if fini ch \<noteq> 0 then ok ch
      else
        bnd (rd s node id) (\<lambda>n.
          if color n \<noteq> 1 \<and> color n \<noteq> 0 then ok (ch\<lparr>fini := 2\<rparr>)
          else
            let curheight = (if color n = 1 then curheight + 1 else curheight) in
            if left n \<noteq> NIL then
              bnd (rd s (left n) id) (\<lambda>l.
                if color n = 0 \<and> color l = 0 then ok (ch\<lparr>fini := 4\<rparr>)
                else if key n < key l then ok (ch\<lparr>fini := 5\<rparr>)
                else
                  bnd (rbtree_check_subtree s (left n) (level + 1) curheight ch) (\<lambda>ch.
                    if right n \<noteq> NIL then
                      bnd (rd s (right n) id) (\<lambda>r.
                        if color n = 0 \<and> color r = 0 then ok (ch\<lparr>fini := 4\<rparr>)
                        else if key n > key r then ok (ch\<lparr>fini := 5\<rparr>)
                        else rbtree_check_subtree s (right n) (level + 1) curheight ch)
                    else ok (check_rb_height level curheight ch)))
            else ok (check_rb_height level curheight ch)))"

text \<open>The result is the code, the black height and the depth the caller gets.\<close>

definition util_rbtree_check :: "util_rbtree_t \<Rightarrow> (int \<times> (int \<times> int) option) res" where
  "util_rbtree_check s =
     (if root s = NIL then ok (0, None)
      else
        bnd (util_rbt_isblack s (root s)) (\<lambda>black.
          if \<not> black then ok (1, None)
          else
            bnd (rbtree_check_subtree s (root s) 1 0 \<lparr>rbh = 0, maxd = 0, fini = 0\<rparr>) (\<lambda>ch.
              ok (fini ch, Some (rbh ch, maxd ch)))))"

text \<open>The loops are executable by their equations.\<close>

lemmas rb_loops [code] =
  min_loop.simps max_loop.simps insert_pos.simps rbtree_insert_fixup.simps rbtree_delete_fixup.simps
  search_loop.simps lookup_loop.simps mid_travel.simps rbtree_check_subtree.simps

end
