(* ===== verification/RbRep.thy ===== *)
theory RbRep
  imports RbTree
begin

text \<open>
  What a heap means: the functional tree it holds.  \<open>rbt\<close> is a tree whose nodes carry their
  addresses, \<open>tree h q t\<close> says that the heap \<open>h\<close> holds \<open>t\<close> under the parent \<open>q\<close>, and a list of
  \<open>hole\<close>s is the way from a subtree up to the root (a zipper), so that the code's work at a node
  deep in the tree is one equation on the subtree there.  Rotations and colour changes are
  verified once, at an arbitrary place of a tree.
\<close>

subsection \<open>Trees and holes\<close>

datatype rbt = Tip | Br rbt addr int int nat rbt

fun addr_of :: "rbt \<Rightarrow> addr" where
  "addr_of Tip = NIL"
| "addr_of (Br l a c k d r) = a"

fun col :: "rbt \<Rightarrow> int" where
  "col Tip = 1"
| "col (Br l a c k d r) = c"

fun paint :: "int \<Rightarrow> rbt \<Rightarrow> rbt" where
  "paint c Tip = Tip"
| "paint c (Br l a c0 k d r) = Br l a c k d r"

text \<open>The entries in order: address, key and data of every node.\<close>

type_synonym entry = "addr \<times> int \<times> nat"

fun entries :: "rbt \<Rightarrow> entry list" where
  "entries Tip = []"
| "entries (Br l a c k d r) = entries l @ (a, k, d) # entries r"

abbreviation addrs :: "rbt \<Rightarrow> addr list" where
  "addrs t \<equiv> map fst (entries t)"

datatype hole = InL addr int int nat rbt | InR rbt addr int int nat

fun fill :: "hole \<Rightarrow> rbt \<Rightarrow> rbt" where
  "fill (InL a c k d r) t = Br t a c k d r"
| "fill (InR l a c k d) t = Br l a c k d t"

fun plug :: "hole list \<Rightarrow> rbt \<Rightarrow> rbt" where
  "plug [] t = t"
| "plug (x # cs) t = plug cs (fill x t)"

fun hole_addr :: "hole \<Rightarrow> addr" where
  "hole_addr (InL a c k d r) = a"
| "hole_addr (InR l a c k d) = a"

definition above :: "addr \<Rightarrow> hole list \<Rightarrow> addr" where
  "above q cs = (case cs of [] \<Rightarrow> q | x # _ \<Rightarrow> hole_addr x)"

lemma above_simps [simp]: "above q [] = q" "above q (x # cs) = hole_addr x"
  by (simp_all add: above_def)

fun before :: "hole list \<Rightarrow> entry list" where
  "before [] = []"
| "before (InL a c k d r # cs) = before cs"
| "before (InR l a c k d # cs) = before cs @ entries l @ [(a, k, d)]"

fun after :: "hole list \<Rightarrow> entry list" where
  "after [] = []"
| "after (InL a c k d r # cs) = (a, k, d) # entries r @ after cs"
| "after (InR l a c k d # cs) = after cs"

lemma entries_plug: "entries (plug cs t) = before cs @ entries t @ after cs"
proof (induction cs arbitrary: t)
  case (Cons x cs)
  then show ?case by (cases x) simp_all
qed simp

lemma entries_paint [simp]: "entries (paint c t) = entries t"
  by (cases t) simp_all

lemma addr_of_paint [simp]: "addr_of (paint c t) = addr_of t"
  by (cases t) simp_all

lemma addr_of_in: "t \<noteq> Tip \<Longrightarrow> addr_of t \<in> set (addrs t)"
  by (cases t) auto

lemma plug_append: "plug (cs @ ds) t = plug ds (plug cs t)"
  by (induction cs arbitrary: t) simp_all

subsection \<open>The heap holds a tree\<close>

fun tree :: "(addr \<Rightarrow> util_rbtree_node_t option) \<Rightarrow> addr \<Rightarrow> rbt \<Rightarrow> bool" where
  "tree h q Tip \<longleftrightarrow> True"
| "tree h q (Br l a c k d r) \<longleftrightarrow>
     h a = Some \<lparr>key = k, parent = q, right = addr_of r, left = addr_of l, color = c, vdata = d\<rparr> \<and>
     tree h a l \<and> tree h a r"

text \<open>\<open>path h q cs p\<close>: the heap holds everything above and beside the hole, which holds \<open>p\<close>.\<close>

fun path :: "(addr \<Rightarrow> util_rbtree_node_t option) \<Rightarrow> addr \<Rightarrow> hole list \<Rightarrow> addr \<Rightarrow> bool" where
  "path h q [] p \<longleftrightarrow> True"
| "path h q (InL a c k d r # cs) p \<longleftrightarrow>
     h a = Some \<lparr>key = k, parent = above q cs, right = addr_of r, left = p, color = c, vdata = d\<rparr> \<and>
     tree h a r \<and> path h q cs a"
| "path h q (InR l a c k d # cs) p \<longleftrightarrow>
     h a = Some \<lparr>key = k, parent = above q cs, right = p, left = addr_of l, color = c, vdata = d\<rparr> \<and>
     tree h a l \<and> path h q cs a"

lemma tree_plug: "tree h q (plug cs t) \<longleftrightarrow> path h q cs (addr_of t) \<and> tree h (above q cs) t"
proof (induction cs arbitrary: t)
  case (Cons x cs)
  then show ?case by (cases x) auto
qed simp

lemma tree_frame: "(\<And>a. a \<in> set (addrs t) \<Longrightarrow> h' a = h a) \<Longrightarrow> tree h' q t = tree h q t"
  by (induction t arbitrary: q) simp_all

definition around :: "hole list \<Rightarrow> addr set" where
  "around cs = fst ` set (before cs) \<union> fst ` set (after cs)"

lemma around_simps [simp]:
  "around [] = {}"
  "around (InL a c k d r # cs) = insert a (set (addrs r) \<union> around cs)"
  "around (InR l a c k d # cs) = insert a (set (addrs l) \<union> around cs)"
  by (auto simp: around_def)

lemma path_frame: "(\<And>a. a \<in> around cs \<Longrightarrow> h' a = h a) \<Longrightarrow> path h' q cs p = path h q cs p"
proof (induction cs arbitrary: p)
  case (Cons x cs)
  have rest: "path h' q cs b = path h q cs b" for b
    by (rule Cons.IH) (use Cons.prems in \<open>cases x; simp\<close>)
  show ?case
  proof (cases x)
    case InL: (InL a c k d r)
    have "tree h' a r = tree h a r"
      by (rule tree_frame) (use Cons.prems in \<open>simp add: InL\<close>)
    moreover have "h' a = h a" using Cons.prems by (simp add: InL)
    ultimately show ?thesis using InL rest by simp
  next
    case InR: (InR l a c k d)
    have "tree h' a l = tree h a l"
      by (rule tree_frame) (use Cons.prems in \<open>simp add: InR\<close>)
    moreover have "h' a = h a" using Cons.prems by (simp add: InR)
    ultimately show ?thesis using InR rest by simp
  qed
qed simp

lemma tree_upd [simp]: "a \<notin> set (addrs t) \<Longrightarrow> tree (h(a := v)) q t = tree h q t"
  by (rule tree_frame) auto

lemma path_upd [simp]: "a \<notin> around cs \<Longrightarrow> path (h(a := v)) q cs p = path h q cs p"
  by (rule path_frame) auto

lemma tree_root: "tree h q t \<Longrightarrow> t \<noteq> Tip \<Longrightarrow> \<exists>n. h (addr_of t) = Some n \<and> parent n = q \<and> color n = col t"
  by (cases t) simp_all

text \<open>The parent link of a subtree's root is set.\<close>

lemma tree_reparent:
  assumes "tree h q t" "distinct (addrs t)" "t \<noteq> Tip"
  shows "\<exists>n. h (addr_of t) = Some n \<and> tree (h(addr_of t \<mapsto> n\<lparr>parent := q'\<rparr>)) q' t"
  using assms by (cases t) auto

subsection \<open>States\<close>

definition rep :: "util_rbtree_t \<Rightarrow> addr \<Rightarrow> rbt \<Rightarrow> bool" where
  "rep s q t \<longleftrightarrow> tree (heap s) q t \<and> root s = addr_of t \<and> distinct (addrs t) \<and>
     NIL \<notin> set (addrs t) \<and> NULL \<notin> set (addrs t)"

text \<open>\<open>same s s' X\<close>: outside \<open>X\<close> the heap is unchanged, and so is the size.\<close>

definition same :: "util_rbtree_t \<Rightarrow> util_rbtree_t \<Rightarrow> addr set \<Rightarrow> bool" where
  "same s s' X \<longleftrightarrow> rb_size s' = rb_size s \<and> (\<forall>a. a \<notin> X \<longrightarrow> heap s' a = heap s a)"

lemma same_refl: "same s s X"
  by (simp add: same_def)

lemma same_trans: "same s s' X \<Longrightarrow> same s' s'' X \<Longrightarrow> same s s'' X"
  by (simp add: same_def)

lemma rep_plug:
  "rep s q (plug cs t) \<longleftrightarrow>
     path (heap s) q cs (addr_of t) \<and> tree (heap s) (above q cs) t \<and> root s = addr_of (plug cs t) \<and>
     distinct (addrs (plug cs t)) \<and> NIL \<notin> set (addrs (plug cs t)) \<and> NULL \<notin> set (addrs (plug cs t))"
  by (auto simp: rep_def tree_plug)

lemma addrs_plug: "fst ` set (entries (plug cs t)) = around cs \<union> fst ` set (entries t)"
  by (auto simp: entries_plug around_def)

lemma distinct_plug:
  "distinct (addrs (plug cs t)) \<longleftrightarrow>
     distinct (map fst (before cs @ after cs)) \<and> distinct (addrs t) \<and> around cs \<inter> set (addrs t) = {}"
  by (auto simp: entries_plug around_def)

lemma root_plug: "cs \<noteq> [] \<Longrightarrow> addr_of (plug cs t) = addr_of (plug cs Tip)"
proof (induction cs arbitrary: t)
  case (Cons x cs)
  show ?case
  proof (cases "cs = []")
    case True
    then show ?thesis by (cases x) simp_all
  next
    case False
    then show ?thesis using Cons.IH [of "fill x t"] Cons.IH [of "fill x Tip"] by simp
  qed
qed simp

lemma root_around: "cs \<noteq> [] \<Longrightarrow> addr_of (plug cs t) \<in> around cs"
proof (induction cs arbitrary: t)
  case (Cons x cs)
  show ?case
  proof (cases "cs = []")
    case True
    then show ?thesis by (cases x) simp_all
  next
    case False
    then have "addr_of (plug cs (fill x t)) \<in> around cs" by (rule Cons.IH)
    then show ?thesis by (cases x) simp_all
  qed
qed simp

lemma above_around: "cs \<noteq> [] \<Longrightarrow> above q cs \<in> around cs"
  by (cases cs; cases "hd cs") simp_all

text \<open>Every node of the tree is at some place of it.\<close>

lemma entry_place: "(a, k, d) \<in> set (entries t) \<Longrightarrow> \<exists>cs l c r. t = plug cs (Br l a c k d r)"
proof (induction t)
  case (Br l b c k' d' r)
  consider "(a, k, d) \<in> set (entries l)" | "(a, k, d) = (b, k', d')" | "(a, k, d) \<in> set (entries r)"
    using Br.prems by auto
  then show ?case
  proof cases
    case 1
    then obtain cs l' c' r' where "l = plug cs (Br l' a c' k d r')" using Br.IH(1) by blast
    then have "Br l b c k' d' r = plug (cs @ [InL b c k' d' r]) (Br l' a c' k d r')"
      by (simp add: plug_append)
    then show ?thesis by blast
  next
    case 2
    then have "Br l b c k' d' r = plug [] (Br l a c k d r)" by simp
    then show ?thesis by blast
  next
    case 3
    then obtain cs l' c' r' where "r = plug cs (Br l' a c' k d r')" using Br.IH(2) by blast
    then have "Br l b c k' d' r = plug (cs @ [InR l b c k' d']) (Br l' a c' k d r')"
      by (simp add: plug_append)
    then show ?thesis by blast
  qed
qed simp

subsection \<open>Reading and colouring\<close>

lemma rd_simp [simp]: "heap s a = Some n \<Longrightarrow> rd s a f = ok (f n)"
  by (simp add: rd_def)

lemma wr_simp [simp]: "heap s a = Some n \<Longrightarrow> wr a g s = ok (s\<lparr>heap := (heap s)(a \<mapsto> g n)\<rparr>)"
  by (simp add: wr_def)

lemma bnd_ok [simp]: "bnd (ok x) f = f x"
  by (simp add: ok_def)

lemma ok_eq [simp]: "ok x = ok y \<longleftrightarrow> x = y"
  by (simp add: ok_def)

lemma rep_cell:
  assumes "rep s q (plug cs (Br l a c k d r))"
  shows "heap s a = Some \<lparr>key = k, parent = above q cs, right = addr_of r, left = addr_of l, color = c, vdata = d\<rparr>"
  using assms by (simp add: rep_plug)

lemma rep_color:
  assumes "rep s q (plug cs (Br l a c k d r))"
  shows "\<exists>s'. wr a (\<lambda>n. n\<lparr>color := c'\<rparr>) s = ok s' \<and> rep s' q (plug cs (Br l a c' k d r)) \<and>
    same s s' (set (addrs (plug cs (Br l a c k d r))))"
proof -
  let ?t = "Br l a c k d r" and ?t' = "Br l a c' k d r"
  define s' where "s' = s\<lparr>heap := (heap s)(a \<mapsto> \<lparr>key = k, parent = above q cs, right = addr_of r,
    left = addr_of l, color = c', vdata = d\<rparr>)\<rparr>"
  have eq: "entries (plug cs ?t') = entries (plug cs ?t)" by (simp add: entries_plug)
  have root: "addr_of (plug cs ?t') = addr_of (plug cs ?t)"
    by (cases "cs = []") (simp_all add: root_plug [of cs ?t] root_plug [of cs ?t'])
  have d: "a \<notin> around cs" "a \<notin> set (addrs l)" "a \<notin> set (addrs r)"
    using assms by (auto simp: rep_plug distinct_plug)
  have "wr a (\<lambda>n. n\<lparr>color := c'\<rparr>) s = ok s'" using rep_cell [OF assms] by (simp add: s'_def)
  moreover have "rep s' q (plug cs ?t')"
    using assms d by (simp add: rep_plug eq root) (simp add: s'_def)
  moreover have "same s s' (set (addrs (plug cs ?t)))"
    by (simp add: same_def s'_def addrs_plug)
  ultimately show ?thesis by blast
qed

lemma rep_black:
  "rep s q (plug cs (Br l a c k d r)) \<Longrightarrow>
   \<exists>s'. util_rbt_black a s = ok s' \<and> rep s' q (plug cs (Br l a 1 k d r)) \<and>
    same s s' (set (addrs (plug cs (Br l a c k d r))))"
  unfolding util_rbt_black_def by (rule rep_color)

lemma rep_red:
  "rep s q (plug cs (Br l a c k d r)) \<Longrightarrow>
   \<exists>s'. util_rbt_red a s = ok s' \<and> rep s' q (plug cs (Br l a 0 k d r)) \<and>
    same s s' (set (addrs (plug cs (Br l a c k d r))))"
  unfolding util_rbt_red_def by (rule rep_color)

subsection \<open>Relinking and rotations\<close>

text \<open>\<open>relink\<close> puts another subtree's address into the hole.\<close>

lemma relink_ok:
  assumes "path (heap s) q cs node" and "cs = [] \<Longrightarrow> root s = node"
    and "cs \<noteq> [] \<Longrightarrow> root s \<in> around cs" and "node \<notin> around cs"
    and "heap s node = Some n" and "parent n = above q cs"
    and "distinct (map fst (before cs @ after cs))"
    and "\<forall>x l a c k d. cs = InR l a c k d # x \<longrightarrow> addr_of l \<noteq> node"
  shows "\<exists>s'. relink node p s = ok s' \<and> path (heap s') q cs p \<and>
     root s' = (if cs = [] then p else root s) \<and> same s s' (around cs)"
proof (cases cs)
  case Nil
  then show ?thesis using assms(2) by (simp add: relink_def same_def)
next
  case (Cons x ds)
  then have nr: "node \<noteq> root s" using assms(3,4) by auto
  show ?thesis
  proof (cases x)
    case x: (InL a c k d r)
    have a: "a \<notin> set (addrs r)" "a \<notin> around ds" using assms(7) by (auto simp: Cons x around_def)
    let ?n = "\<lparr>key = k, parent = above q ds, right = addr_of r, left = node, color = c, vdata = d\<rparr>"
    have p: "heap s a = Some ?n" "tree (heap s) a r" "path (heap s) q ds a"
      using assms(1) by (simp_all add: Cons x)
    have "relink node p s = ok (s\<lparr>heap := (heap s)(a \<mapsto> ?n\<lparr>left := p\<rparr>)\<rparr>)"
      using nr p(1) assms(5,6) by (simp add: relink_def Cons x)
    moreover have "path ((heap s)(a \<mapsto> ?n\<lparr>left := p\<rparr>)) q cs p" using p(2,3) a by (simp add: Cons x)
    ultimately show ?thesis by (intro exI conjI) (assumption, simp_all add: Cons x same_def)
  next
    case x: (InR l a c k d)
    have a: "a \<notin> set (addrs l)" "a \<notin> around ds" using assms(7) by (auto simp: Cons x around_def)
    let ?n = "\<lparr>key = k, parent = above q ds, right = node, left = addr_of l, color = c, vdata = d\<rparr>"
    have p: "heap s a = Some ?n" "tree (heap s) a l" "path (heap s) q ds a"
      using assms(1) by (simp_all add: Cons x)
    have "relink node p s = ok (s\<lparr>heap := (heap s)(a \<mapsto> ?n\<lparr>right := p\<rparr>)\<rparr>)"
      using nr p(1) assms(5,6,8) by (simp add: relink_def Cons x)
    moreover have "path ((heap s)(a \<mapsto> ?n\<lparr>right := p\<rparr>)) q cs p" using p(2,3) a by (simp add: Cons x)
    ultimately show ?thesis by (intro exI conjI) (assumption, simp_all add: Cons x same_def)
  qed
qed

text \<open>The last step of a rotation: the subtree that changes sides gets its new parent.\<close>

lemma give_parent:
  assumes "tree (heap s) q' t" "distinct (addrs t)" "NIL \<notin> set (addrs t)"
  shows "\<exists>s'. (if addr_of t \<noteq> NIL then wr (addr_of t) (\<lambda>n. n\<lparr>parent := p\<rparr>) s else ok s) = ok s' \<and>
    tree (heap s') p t \<and> root s' = root s \<and> same s s' (set (addrs t))"
proof (cases t)
  case Tip
  then show ?thesis by (simp add: same_def)
next
  case (Br l a c k d r)
  then show ?thesis using assms by (auto simp: same_def)
qed

text \<open>
  What both rotations do at a node \<open>x\<close> with a child \<open>y\<close>: \<open>y\<close> goes into the hole of \<open>x\<close>, the two cells
  get new contents \<open>fx\<close> and \<open>fy\<close>, and the subtree \<open>B\<close> between them becomes a child of \<open>x\<close>.
\<close>

lemma rotate_core:
  assumes h: "path (heap s) q cs x" "heap s x = Some nx" "parent nx = above q cs" "heap s y = Some ny"
    "tree (heap s) x A" "tree (heap s) y B" "tree (heap s) y C"
    and root: "cs = [] \<Longrightarrow> root s = x" "cs \<noteq> [] \<Longrightarrow> root s \<in> around cs"
    and d: "distinct (x # y # addrs A @ addrs B @ addrs C)"
      "around cs \<inter> set (x # y # addrs A @ addrs B @ addrs C) = {}"
      "distinct (map fst (before cs @ after cs))" "NIL \<notin> set (addrs B)" "NIL \<noteq> x"
  shows "\<exists>s1 s2. wr y (\<lambda>n. n\<lparr>parent := above q cs\<rparr>) s = ok s1 \<and> relink x y s1 = ok s2 \<and>
    heap s2 x = Some nx \<and> heap s2 y = Some (ny\<lparr>parent := above q cs\<rparr>) \<and>
    (\<forall>fx fy. \<exists>s4.
       (if addr_of B \<noteq> NIL then wr (addr_of B) (\<lambda>n. n\<lparr>parent := x\<rparr>) (s2\<lparr>heap := (heap s2)(x \<mapsto> fx, y \<mapsto> fy)\<rparr>)
        else ok (s2\<lparr>heap := (heap s2)(x \<mapsto> fx, y \<mapsto> fy)\<rparr>)) = ok s4 \<and>
       heap s4 x = Some fx \<and> heap s4 y = Some fy \<and> tree (heap s4) x A \<and> tree (heap s4) x B \<and>
       tree (heap s4) y C \<and> path (heap s4) q cs y \<and> root s4 = (if cs = [] then y else root s) \<and>
       same s s4 (around cs \<union> {x, y} \<union> set (addrs B)))"
proof -
  let ?y = "ny\<lparr>parent := above q cs\<rparr>"
  define s1 where "s1 = s\<lparr>heap := (heap s)(y \<mapsto> ?y)\<rparr>"
  have "path (heap s1) q cs x" "heap s1 x = Some nx" using h d(1,2) by (auto simp: s1_def)
  moreover have "\<forall>z l a c k d. cs = InR l a c k d # z \<longrightarrow> addr_of l \<noteq> x"
  proof (intro allI impI notI)
    fix z l a c k d
    assume cs: "cs = InR l a c k d # z" and x: "addr_of l = x"
    then have "l \<noteq> Tip" using d(5) by auto
    then have "x \<in> around cs" using addr_of_in [of l] cs x by simp
    then show False using d(2) by simp
  qed
  moreover have "cs = [] \<Longrightarrow> root s1 = x" "cs \<noteq> [] \<Longrightarrow> root s1 \<in> around cs" "x \<notin> around cs"
    using root d(2) by (auto simp: s1_def)
  ultimately obtain s2 where s2: "relink x y s1 = ok s2" "path (heap s2) q cs y"
    "root s2 = (if cs = [] then y else root s)" "same s1 s2 (around cs)"
    using relink_ok [of s1 q cs x nx y] h(3) d(3) by (auto simp: s1_def)
  have keep: "heap s2 b = (if b = y then Some ?y else heap s b)" if "b \<notin> around cs" for b
    using that s2(4) by (auto simp: same_def s1_def)
  have t2: "tree (heap s2) x A" "tree (heap s2) y B" "tree (heap s2) y C"
  proof -
    have eq: "tree (heap s2) r u = tree (heap s) r u"
      if "\<forall>b. b \<in> around cs \<longrightarrow> b \<notin> set (addrs u)" "y \<notin> set (addrs u)" for r u
      using that keep by (intro tree_frame) metis
    show "tree (heap s2) x A" "tree (heap s2) y B" "tree (heap s2) y C"
      using h(5,6,7) d(1,2) by (simp_all add: eq disjoint_iff)
  qed
  have final: "\<exists>s4.
       (if addr_of B \<noteq> NIL then wr (addr_of B) (\<lambda>n. n\<lparr>parent := x\<rparr>) (s2\<lparr>heap := (heap s2)(x \<mapsto> fx, y \<mapsto> fy)\<rparr>)
        else ok (s2\<lparr>heap := (heap s2)(x \<mapsto> fx, y \<mapsto> fy)\<rparr>)) = ok s4 \<and>
       heap s4 x = Some fx \<and> heap s4 y = Some fy \<and> tree (heap s4) x A \<and> tree (heap s4) x B \<and>
       tree (heap s4) y C \<and> path (heap s4) q cs y \<and> root s4 = (if cs = [] then y else root s) \<and>
       same s s4 (around cs \<union> {x, y} \<union> set (addrs B))" for fx fy
  proof -
    define s3 where "s3 = s2\<lparr>heap := (heap s2)(x \<mapsto> fx, y \<mapsto> fy)\<rparr>"
    have t3: "tree (heap s3) x A" "tree (heap s3) y B" "tree (heap s3) y C" "path (heap s3) q cs y"
      using t2 s2(2) d(1,2) by (auto simp: s3_def)
    obtain s4 where s4: "(if addr_of B \<noteq> NIL then wr (addr_of B) (\<lambda>n. n\<lparr>parent := x\<rparr>) s3 else ok s3) = ok s4"
      "tree (heap s4) x B" "root s4 = root s3" "same s3 s4 (set (addrs B))"
      using give_parent [OF t3(2), of x] d(1,4) by auto
    have off: "heap s4 b = heap s3 b" if "b \<notin> set (addrs B)" for b using s4(4) that by (simp add: same_def)
    have "tree (heap s4) x A \<longleftrightarrow> tree (heap s3) x A"
      by (rule tree_frame, rule off) (use d(1) in auto)
    moreover have "tree (heap s4) y C \<longleftrightarrow> tree (heap s3) y C"
      by (rule tree_frame, rule off) (use d(1) in auto)
    moreover have "path (heap s4) q cs y \<longleftrightarrow> path (heap s3) q cs y"
      by (rule path_frame, rule off) (use d(2) in auto)
    moreover have "heap s4 x = Some fx" "heap s4 y = Some fy"
      using off [of x] off [of y] d(1) by (auto simp: s3_def)
    moreover have "same s s4 (around cs \<union> {x, y} \<union> set (addrs B))"
      using s4(4) s2(4) by (simp add: same_def s3_def s1_def)
    ultimately show ?thesis
      using s4 t3 s2(3) unfolding s3_def [symmetric] by (intro exI [of _ s4]) (simp add: s3_def)
  qed
  have "wr y (\<lambda>n. n\<lparr>parent := above q cs\<rparr>) s = ok s1" using h(4) by (simp add: s1_def)
  moreover have "heap s2 x = Some nx" "heap s2 y = Some ?y"
    using keep [of x] keep [of y] d(1,2) h(2) by auto
  ultimately show ?thesis using s2(1) final by blast
qed

lemma upd_xyx: "x \<noteq> y \<Longrightarrow> f(x := a, y := b, x := c) = f(x := c, y := b)"
  by auto

lemma left_rotate_ok:
  assumes rep: "rep s q (plug cs (Br A x cx kx dx (Br B y cy ky dy C)))"
  shows "\<exists>s'. rbtree_left_rotate x s = ok s' \<and> rep s' q (plug cs (Br (Br A x cx kx dx B) y cy ky dy C)) \<and>
    same s s' (set (addrs (plug cs (Br A x cx kx dx (Br B y cy ky dy C)))))"
proof -
  let ?t = "Br A x cx kx dx (Br B y cy ky dy C)" and ?t' = "Br (Br A x cx kx dx B) y cy ky dy C"
  let ?nx = "\<lparr>key = kx, parent = above q cs, right = y, left = addr_of A, color = cx, vdata = dx\<rparr>"
  let ?ny = "\<lparr>key = ky, parent = x, right = addr_of C, left = addr_of B, color = cy, vdata = dy\<rparr>"
  let ?fx = "\<lparr>key = kx, parent = y, right = addr_of B, left = addr_of A, color = cx, vdata = dx\<rparr>"
  let ?fy = "\<lparr>key = ky, parent = above q cs, right = addr_of C, left = x, color = cy, vdata = dy\<rparr>"
  have eq: "entries (plug cs ?t') = entries (plug cs ?t)" by (simp add: entries_plug)
  have h: "path (heap s) q cs x" "root s = addr_of (plug cs ?t)" "heap s x = Some ?nx" "heap s y = Some ?ny"
    "tree (heap s) x A" "tree (heap s) y B" "tree (heap s) y C"
    using rep by (simp_all add: rep_plug)
  have d: "distinct (x # y # addrs A @ addrs B @ addrs C)" "NIL \<notin> set (addrs B)" "NIL \<noteq> x"
    "around cs \<inter> set (x # y # addrs A @ addrs B @ addrs C) = {}" "distinct (map fst (before cs @ after cs))"
    using rep by (auto simp: rep_plug distinct_plug addrs_plug)
  have xy: "x \<noteq> y" using d(1) by simp
  have root: "cs = [] \<Longrightarrow> root s = x" "cs \<noteq> [] \<Longrightarrow> root s \<in> around cs"
    using h(2) root_around [of cs ?t] by auto
  obtain s1 s2 where s12: "wr y (\<lambda>n. n\<lparr>parent := above q cs\<rparr>) s = ok s1" "relink x y s1 = ok s2"
    "heap s2 x = Some ?nx" "heap s2 y = Some (?ny\<lparr>parent := above q cs\<rparr>)" and
    fin: "\<forall>fx fy. \<exists>s4.
       (if addr_of B \<noteq> NIL then wr (addr_of B) (\<lambda>n. n\<lparr>parent := x\<rparr>) (s2\<lparr>heap := (heap s2)(x \<mapsto> fx, y \<mapsto> fy)\<rparr>)
        else ok (s2\<lparr>heap := (heap s2)(x \<mapsto> fx, y \<mapsto> fy)\<rparr>)) = ok s4 \<and>
       heap s4 x = Some fx \<and> heap s4 y = Some fy \<and> tree (heap s4) x A \<and> tree (heap s4) x B \<and>
       tree (heap s4) y C \<and> path (heap s4) q cs y \<and> root s4 = (if cs = [] then y else root s) \<and>
       same s s4 (around cs \<union> {x, y} \<union> set (addrs B))"
    using rotate_core [OF h(1,3) _ h(4,5,6,7) root d(1,4,5,2,3)] by auto
  from fin [rule_format, of ?fx ?fy] obtain s4 where s4: "(if addr_of B \<noteq> NIL then wr (addr_of B) (\<lambda>n. n\<lparr>parent := x\<rparr>) (s2\<lparr>heap := (heap s2)(x \<mapsto> ?fx, y \<mapsto> ?fy)\<rparr>)
        else ok (s2\<lparr>heap := (heap s2)(x \<mapsto> ?fx, y \<mapsto> ?fy)\<rparr>)) = ok s4"
       "heap s4 x = Some ?fx" "heap s4 y = Some ?fy" "tree (heap s4) x A" "tree (heap s4) x B"
       "tree (heap s4) y C" "path (heap s4) q cs y" "root s4 = (if cs = [] then y else root s)"
       "same s s4 (around cs \<union> {x, y} \<union> set (addrs B))"
    by (elim exE conjE)
  have "rbtree_left_rotate x s = ok s4"
    using h(3,4) s12 s4(1) by (cases "addr_of B = NIL") (simp_all add: rbtree_left_rotate_def upd_xyx [OF xy] xy xy [symmetric])
  moreover have "rep s4 q (plug cs ?t')"
  proof -
    have "root s4 = addr_of (plug cs ?t')"
      using s4(8) h(2) root_plug [of cs ?t] root_plug [of cs ?t'] by (cases "cs = []") simp_all
    then show ?thesis
      using rep s4(2-7) unfolding rep_plug [of s4] rep_plug [of s] eq by simp
  qed
  moreover have "same s s4 (set (addrs (plug cs ?t)))"
    using s4(9) by (auto simp: same_def addrs_plug)
  ultimately show ?thesis by blast
qed

lemma right_rotate_ok:
  assumes rep: "rep s q (plug cs (Br (Br C y cy ky dy B) x cx kx dx A))"
  shows "\<exists>s'. rbtree_right_rotate x s = ok s' \<and> rep s' q (plug cs (Br C y cy ky dy (Br B x cx kx dx A))) \<and>
    same s s' (set (addrs (plug cs (Br (Br C y cy ky dy B) x cx kx dx A))))"
proof -
  let ?t = "Br (Br C y cy ky dy B) x cx kx dx A" and ?t' = "Br C y cy ky dy (Br B x cx kx dx A)"
  let ?nx = "\<lparr>key = kx, parent = above q cs, right = addr_of A, left = y, color = cx, vdata = dx\<rparr>"
  let ?ny = "\<lparr>key = ky, parent = x, right = addr_of B, left = addr_of C, color = cy, vdata = dy\<rparr>"
  let ?fx = "\<lparr>key = kx, parent = y, right = addr_of A, left = addr_of B, color = cx, vdata = dx\<rparr>"
  let ?fy = "\<lparr>key = ky, parent = above q cs, right = x, left = addr_of C, color = cy, vdata = dy\<rparr>"
  have eq: "entries (plug cs ?t') = entries (plug cs ?t)" by (simp add: entries_plug)
  have h: "path (heap s) q cs x" "root s = addr_of (plug cs ?t)" "heap s x = Some ?nx" "heap s y = Some ?ny"
    "tree (heap s) x A" "tree (heap s) y B" "tree (heap s) y C"
    using rep by (simp_all add: rep_plug)
  have d: "distinct (x # y # addrs A @ addrs B @ addrs C)" "NIL \<notin> set (addrs B)" "NIL \<noteq> x"
    "around cs \<inter> set (x # y # addrs A @ addrs B @ addrs C) = {}" "distinct (map fst (before cs @ after cs))"
    using rep by (auto simp: rep_plug distinct_plug addrs_plug)
  have xy: "x \<noteq> y" using d(1) by simp
  have root: "cs = [] \<Longrightarrow> root s = x" "cs \<noteq> [] \<Longrightarrow> root s \<in> around cs"
    using h(2) root_around [of cs ?t] by auto
  obtain s1 s2 where s12: "wr y (\<lambda>n. n\<lparr>parent := above q cs\<rparr>) s = ok s1" "relink x y s1 = ok s2"
    "heap s2 x = Some ?nx" "heap s2 y = Some (?ny\<lparr>parent := above q cs\<rparr>)" and
    fin: "\<forall>fx fy. \<exists>s4.
       (if addr_of B \<noteq> NIL then wr (addr_of B) (\<lambda>n. n\<lparr>parent := x\<rparr>) (s2\<lparr>heap := (heap s2)(x \<mapsto> fx, y \<mapsto> fy)\<rparr>)
        else ok (s2\<lparr>heap := (heap s2)(x \<mapsto> fx, y \<mapsto> fy)\<rparr>)) = ok s4 \<and>
       heap s4 x = Some fx \<and> heap s4 y = Some fy \<and> tree (heap s4) x A \<and> tree (heap s4) x B \<and>
       tree (heap s4) y C \<and> path (heap s4) q cs y \<and> root s4 = (if cs = [] then y else root s) \<and>
       same s s4 (around cs \<union> {x, y} \<union> set (addrs B))"
    using rotate_core [OF h(1,3) _ h(4,5,6,7) root d(1,4,5,2,3)] by auto
  from fin [rule_format, of ?fx ?fy] obtain s4 where s4: "(if addr_of B \<noteq> NIL then wr (addr_of B) (\<lambda>n. n\<lparr>parent := x\<rparr>) (s2\<lparr>heap := (heap s2)(x \<mapsto> ?fx, y \<mapsto> ?fy)\<rparr>)
        else ok (s2\<lparr>heap := (heap s2)(x \<mapsto> ?fx, y \<mapsto> ?fy)\<rparr>)) = ok s4"
       "heap s4 x = Some ?fx" "heap s4 y = Some ?fy" "tree (heap s4) x A" "tree (heap s4) x B"
       "tree (heap s4) y C" "path (heap s4) q cs y" "root s4 = (if cs = [] then y else root s)"
       "same s s4 (around cs \<union> {x, y} \<union> set (addrs B))"
    by (elim exE conjE)
  have "rbtree_right_rotate x s = ok s4"
    using h(3,4) s12 s4(1) by (cases "addr_of B = NIL") (simp_all add: rbtree_right_rotate_def fun_upd_twist [OF xy [symmetric]] xy xy [symmetric])
  moreover have "rep s4 q (plug cs ?t')"
  proof -
    have "root s4 = addr_of (plug cs ?t')"
      using s4(8) h(2) root_plug [of cs ?t] root_plug [of cs ?t'] by (cases "cs = []") simp_all
    then show ?thesis
      using rep s4(2-7) unfolding rep_plug [of s4] rep_plug [of s] eq by simp
  qed
  moreover have "same s s4 (set (addrs (plug cs ?t)))"
    using s4(9) by (auto simp: same_def addrs_plug)
  ultimately show ?thesis by blast
qed

end
