(* ===== verification/RbInsert.thy ===== *)
theory RbInsert
  imports RbRep
begin

text \<open>
  Insertion into the red-black tree.  First the colour and height invariants, on trees and on
  the places of a tree; then the repair loop, one lemma for each case of the code; then the
  whole of \<open>util_rbtree_insert\<close>: it ends, it keeps the tree a red-black search tree, and the new
  entry stands behind those of smaller or equal keys.
\<close>

subsection \<open>Red-black invariants\<close>

fun bh :: "rbt \<Rightarrow> nat" where
  "bh Tip = 0"
| "bh (Br l a c k d r) = (if c = 1 then bh l + 1 else bh l)"

fun invh :: "rbt \<Rightarrow> bool" where
  "invh Tip \<longleftrightarrow> True"
| "invh (Br l a c k d r) \<longleftrightarrow> invh l \<and> invh r \<and> bh l = bh r"

fun invc :: "rbt \<Rightarrow> bool" where
  "invc Tip \<longleftrightarrow> True"
| "invc (Br l a c k d r) \<longleftrightarrow>
     (c = 0 \<or> c = 1) \<and> (c = 0 \<longrightarrow> col l = 1 \<and> col r = 1) \<and> invc l \<and> invc r"

definition red_black :: "rbt \<Rightarrow> bool" where
  "red_black t \<longleftrightarrow> invc t \<and> invh t \<and> col t = 1"

definition entry_key :: "entry \<Rightarrow> int" where
  "entry_key e = fst (snd e)"

lemma entry_key_simp [simp]: "entry_key (a, k, d) = k"
  by (simp add: entry_key_def)

definition keys :: "rbt \<Rightarrow> int list" where
  "keys t = map entry_key (entries t)"

fun hole_col :: "hole \<Rightarrow> int" where
  "hole_col (InL a c k d r) = c"
| "hole_col (InR l a c k d) = c"

fun side :: "hole \<Rightarrow> rbt" where
  "side (InL a c k d r) = r"
| "side (InR l a c k d) = l"

text \<open>The colour above a place; above the root it is black.\<close>

definition topc :: "hole list \<Rightarrow> int" where
  "topc cs = (case cs of [] \<Rightarrow> 1 | x # _ \<Rightarrow> hole_col x)"

lemma topc_simps [simp]: "topc [] = 1" "topc (x # cs) = hole_col x"
  by (simp_all add: topc_def)

text \<open>The surroundings are fit for a subtree of black height \<open>n\<close>.\<close>

fun fit :: "hole list \<Rightarrow> nat \<Rightarrow> bool" where
  "fit [] n \<longleftrightarrow> True"
| "fit (x # cs) n \<longleftrightarrow>
     (hole_col x = 0 \<or> hole_col x = 1) \<and> invc (side x) \<and> invh (side x) \<and> bh (side x) = n \<and>
     (hole_col x = 0 \<longrightarrow> col (side x) = 1 \<and> topc cs = 1 \<and> cs \<noteq> []) \<and>
     fit cs (if hole_col x = 1 then n + 1 else n)"

lemma fit_topc: "fit cs n \<Longrightarrow> topc cs = 0 \<or> topc cs = 1"
  by (cases cs) auto

lemma red_black_plug:
  "red_black (plug cs t) \<longleftrightarrow>
     fit cs (bh t) \<and> invc t \<and> invh t \<and> (topc cs = 0 \<or> cs = [] \<longrightarrow> col t = 1)"
proof (induction cs arbitrary: t)
  case Nil
  then show ?case by (auto simp: red_black_def)
next
  case (Cons x cs)
  show ?case
  proof (cases "cs = []")
    case True
    then show ?thesis by (cases x) (auto simp: red_black_def)
  next
    case False
    then show ?thesis
      using fit_topc [of cs "bh t"] fit_topc [of cs "bh t + 1"] Cons.IH [of "fill x t"] by (cases x) auto
  qed
qed

lemma fit_red: "fit cs n \<Longrightarrow> topc cs \<noteq> 1 \<Longrightarrow> \<exists>x g ds. cs = x # g # ds \<and> hole_col x = 0 \<and> hole_col g = 1"
  by (cases cs; cases "tl cs") auto

lemma bh_paint: "t \<noteq> Tip \<Longrightarrow> col t = 0 \<Longrightarrow> bh (paint 1 t) = bh t + 1"
  by (cases t) simp_all

lemma inv_paint: "invc t \<Longrightarrow> invc (paint 1 t)" "invh t \<Longrightarrow> invh (paint 1 t)" "col (paint 1 t) = 1"
  by (cases t; simp)+

lemma paint_black: "col t = 1 \<Longrightarrow> paint 1 t = t"
  by (cases t) simp_all

subsection \<open>The sentinel and the parent of the root\<close>

definition nil_black :: "util_rbtree_t \<Rightarrow> bool" where
  "nil_black s \<longleftrightarrow> (\<exists>n. heap s NIL = Some n \<and> color n = 1)"

lemma nil_black_same: "nil_black s \<Longrightarrow> same s s' X \<Longrightarrow> NIL \<notin> X \<Longrightarrow> nil_black s'"
  by (simp add: nil_black_def same_def)

lemma colour_reads:
  assumes "nil_black s" "tree (heap s) p t"
  shows "util_rbt_isred s (addr_of t) = ok (col t = 0)" "util_rbt_isblack s (addr_of t) = ok (col t = 1)"
  using assms by (cases t; auto simp: util_rbt_isred_def util_rbt_isblack_def nil_black_def)+

lemma rep_NIL: "rep s q t \<Longrightarrow> NIL \<notin> set (addrs t)"
  by (simp add: rep_def)

lemma paint_root:
  assumes "rep s q t" "t \<noteq> Tip"
  shows "\<exists>s'. util_rbt_black (root s) s = ok s' \<and> rep s' q (paint 1 t) \<and> same s s' (set (addrs t))"
proof (cases t)
  case (Br l a c k d r)
  then show ?thesis using rep_black [of s q "[]" l a c k d r] assms(1) by (simp add: rep_def)
qed (use assms in simp)

subsection \<open>One turn of the repair loop\<close>

lemma insert_left_red_uncle:
  assumes rep: "rep s q (plug cs (Br (Br pl p pc pk pd pr) g gc gk gd u))" and nb: "nil_black s" and u: "col u = 0"
  shows "\<exists>s'. insert_fixup_left node p s = ok (s', g) \<and>
    rep s' q (plug cs (Br (Br pl p 1 pk pd pr) g 0 gk gd (paint 1 u))) \<and>
    same s s' (set (addrs (plug cs (Br (Br pl p pc pk pd pr) g gc gk gd u))))"
proof -
  let ?T = "plug cs (Br (Br pl p pc pk pd pr) g gc gk gd u)"
  obtain ul ua uc uk ud ur where U: "u = Br ul ua uc uk ud ur" using u by (cases u) auto
  have c0: "heap s p = Some \<lparr>key = pk, parent = g, right = addr_of pr, left = addr_of pl, color = pc, vdata = pd\<rparr>"
    "heap s g = Some \<lparr>key = gk, parent = above q cs, right = addr_of u, left = p, color = gc, vdata = gd\<rparr>"
    using rep_cell [of s q "InL g gc gk gd u # cs" pl p pc pk pd pr] rep_cell [OF rep] rep by simp_all
  have isred: "util_rbt_isred s ua = ok True"
    using colour_reads(1) [OF nb, of g u] rep u U by (simp add: rep_plug)
  obtain s1 where s1: "util_rbt_black ua s = ok s1" "same s s1 (set (addrs ?T))"
    "rep s1 q (plug cs (Br (Br pl p pc pk pd pr) g gc gk gd (paint 1 u)))"
    using rep_black [of s q "InR (Br pl p pc pk pd pr) g gc gk gd # cs" ul ua uc uk ud ur] rep U by auto
  have e: "set (addrs (plug cs (Br (Br pl p pc pk pd pr) g gc gk gd (paint 1 u)))) = set (addrs ?T)"
    "set (addrs (plug cs (Br (Br pl p 1 pk pd pr) g gc gk gd (paint 1 u)))) = set (addrs ?T)"
    by (simp_all add: entries_plug)
  obtain s2 where s2: "util_rbt_black p s1 = ok s2" "same s1 s2 (set (addrs ?T))"
    "rep s2 q (plug cs (Br (Br pl p 1 pk pd pr) g gc gk gd (paint 1 u)))"
    using rep_black [of s1 q "InL g gc gk gd (paint 1 u) # cs" pl p pc pk pd pr] s1(3) e by auto
  obtain s3 where s3: "util_rbt_red g s2 = ok s3" "same s2 s3 (set (addrs ?T))"
    "rep s3 q (plug cs (Br (Br pl p 1 pk pd pr) g 0 gk gd (paint 1 u)))"
    using rep_red [OF s2(3)] e by auto
  have c2: "heap s2 p = Some \<lparr>key = pk, parent = g, right = addr_of pr, left = addr_of pl, color = 1, vdata = pd\<rparr>"
    using rep_cell [of s2 q "InL g gc gk gd (paint 1 u) # cs" pl p 1 pk pd pr] s2(3) by simp
  have c3: "heap s3 p = Some \<lparr>key = pk, parent = g, right = addr_of pr, left = addr_of pl, color = 1, vdata = pd\<rparr>"
    using rep_cell [of s3 q "InL g 0 gk gd (paint 1 u) # cs" pl p 1 pk pd pr] s3(3) by simp
  have "insert_fixup_left node p s = ok (s3, g)"
    using c0 U by (simp add: insert_fixup_left_def isred s1(1) s2(1) s3(1) c2 c3)
  then show ?thesis using s3(3) s1(2) s2(2) s3(2) by (blast intro: same_trans)
qed

lemma insert_left_outer:
  assumes rep: "rep s q (plug cs (Br (Br pl p pc pk pd pr) g gc gk gd u))" and nb: "nil_black s"
    and u: "col u \<noteq> 0" and node: "node \<noteq> addr_of pr"
  shows "\<exists>s'. insert_fixup_left node p s = ok (s', node) \<and>
    rep s' q (plug cs (Br pl p 1 pk pd (Br pr g 0 gk gd u))) \<and>
    same s s' (set (addrs (plug cs (Br (Br pl p pc pk pd pr) g gc gk gd u))))"
proof -
  let ?T = "plug cs (Br (Br pl p pc pk pd pr) g gc gk gd u)"
  have c0: "heap s p = Some \<lparr>key = pk, parent = g, right = addr_of pr, left = addr_of pl, color = pc, vdata = pd\<rparr>"
    "heap s g = Some \<lparr>key = gk, parent = above q cs, right = addr_of u, left = p, color = gc, vdata = gd\<rparr>"
    using rep_cell [of s q "InL g gc gk gd u # cs" pl p pc pk pd pr] rep_cell [OF rep] rep by simp_all
  have isred: "util_rbt_isred s (addr_of u) = ok False"
    using colour_reads(1) [OF nb, of g u] rep u by (simp add: rep_plug)
  have e: "set (addrs (plug cs (Br (Br pl p 1 pk pd pr) g gc gk gd u))) = set (addrs ?T)"
    "set (addrs (plug cs (Br (Br pl p 1 pk pd pr) g 0 gk gd u))) = set (addrs ?T)"
    by (simp_all add: entries_plug)
  obtain s2 where s2: "util_rbt_black p s = ok s2" "same s s2 (set (addrs ?T))"
    "rep s2 q (plug cs (Br (Br pl p 1 pk pd pr) g gc gk gd u))"
    using rep_black [of s q "InL g gc gk gd u # cs" pl p pc pk pd pr] rep by auto
  obtain s3 where s3: "util_rbt_red g s2 = ok s3" "same s2 s3 (set (addrs ?T))"
    "rep s3 q (plug cs (Br (Br pl p 1 pk pd pr) g 0 gk gd u))"
    using rep_red [OF s2(3)] e by auto
  obtain s4 where s4: "rbtree_right_rotate g s3 = ok s4" "same s3 s4 (set (addrs ?T))"
    "rep s4 q (plug cs (Br pl p 1 pk pd (Br pr g 0 gk gd u)))"
    using right_rotate_ok [OF s3(3)] e by auto
  have c2: "heap s2 p = Some \<lparr>key = pk, parent = g, right = addr_of pr, left = addr_of pl, color = 1, vdata = pd\<rparr>"
    using rep_cell [of s2 q "InL g gc gk gd u # cs" pl p 1 pk pd pr] s2(3) by simp
  have c3: "heap s3 p = Some \<lparr>key = pk, parent = g, right = addr_of pr, left = addr_of pl, color = 1, vdata = pd\<rparr>"
    using rep_cell [of s3 q "InL g 0 gk gd u # cs" pl p 1 pk pd pr] s3(3) by simp
  have "insert_fixup_left node p s = ok (s4, node)"
    using c0 node by (simp add: insert_fixup_left_def isred s2(1) s3(1) s4(1) c2 c3)
  then show ?thesis using s4(3) s2(2) s3(2) s4(2) by (blast intro: same_trans)
qed

lemma insert_left_inner:
  assumes rep: "rep s q (plug cs (Br (Br pl p pc pk pd (Br ml m mc mk md mr)) g gc gk gd u))" and nb: "nil_black s"
    and u: "col u \<noteq> 0"
  shows "\<exists>s'. insert_fixup_left m p s = ok (s', p) \<and>
    rep s' q (plug cs (Br (Br pl p pc pk pd ml) m 1 mk md (Br mr g 0 gk gd u))) \<and>
    same s s' (set (addrs (plug cs (Br (Br pl p pc pk pd (Br ml m mc mk md mr)) g gc gk gd u))))"
proof -
  let ?T = "plug cs (Br (Br pl p pc pk pd (Br ml m mc mk md mr)) g gc gk gd u)"
  have c0: "heap s p = Some \<lparr>key = pk, parent = g, right = m, left = addr_of pl, color = pc, vdata = pd\<rparr>"
    "heap s g = Some \<lparr>key = gk, parent = above q cs, right = addr_of u, left = p, color = gc, vdata = gd\<rparr>"
    using rep_cell [of s q "InL g gc gk gd u # cs" pl p pc pk pd "Br ml m mc mk md mr"] rep_cell [OF rep] rep by simp_all
  have isred: "util_rbt_isred s (addr_of u) = ok False"
    using colour_reads(1) [OF nb, of g u] rep u by (simp add: rep_plug)
  have e: "set (addrs (plug cs (Br (Br (Br pl p pc pk pd ml) m c mk md mr) g c' gk gd u))) = set (addrs ?T)" for c c'
    by (simp add: entries_plug)
  obtain s1 where s1: "rbtree_left_rotate p s = ok s1" "same s s1 (set (addrs ?T))"
    "rep s1 q (plug cs (Br (Br (Br pl p pc pk pd ml) m mc mk md mr) g gc gk gd u))"
    using left_rotate_ok [of s q "InL g gc gk gd u # cs" pl p pc pk pd ml m mc mk md mr] rep by auto
  obtain s2 where s2: "util_rbt_black m s1 = ok s2" "same s1 s2 (set (addrs ?T))"
    "rep s2 q (plug cs (Br (Br (Br pl p pc pk pd ml) m 1 mk md mr) g gc gk gd u))"
    using rep_black [of s1 q "InL g gc gk gd u # cs" "Br pl p pc pk pd ml" m mc mk md mr] s1(3) e [where c = mc and c' = gc] by auto
  obtain s3 where s3: "util_rbt_red g s2 = ok s3" "same s2 s3 (set (addrs ?T))"
    "rep s3 q (plug cs (Br (Br (Br pl p pc pk pd ml) m 1 mk md mr) g 0 gk gd u))"
    using rep_red [OF s2(3)] e [where c = 1 and c' = gc] by auto
  obtain s4 where s4: "rbtree_right_rotate g s3 = ok s4" "same s3 s4 (set (addrs ?T))"
    "rep s4 q (plug cs (Br (Br pl p pc pk pd ml) m 1 mk md (Br mr g 0 gk gd u)))"
    using right_rotate_ok [OF s3(3)] e [where c = 1 and c' = 0] by auto
  have c1: "heap s1 p = Some \<lparr>key = pk, parent = m, right = addr_of ml, left = addr_of pl, color = pc, vdata = pd\<rparr>"
    using rep_cell [of s1 q "InL m mc mk md mr # InL g gc gk gd u # cs" pl p pc pk pd ml] s1(3) by simp
  have c2: "heap s2 m = Some \<lparr>key = mk, parent = g, right = addr_of mr, left = p, color = 1, vdata = md\<rparr>"
    using rep_cell [of s2 q "InL g gc gk gd u # cs" "Br pl p pc pk pd ml" m 1 mk md mr] s2(3) by simp
  have c3: "heap s3 m = Some \<lparr>key = mk, parent = g, right = addr_of mr, left = p, color = 1, vdata = md\<rparr>"
    using rep_cell [of s3 q "InL g 0 gk gd u # cs" "Br pl p pc pk pd ml" m 1 mk md mr] s3(3) by simp
  have "insert_fixup_left m p s = ok (s4, p)"
    using c0 by (simp add: insert_fixup_left_def isred s1(1) s2(1) s3(1) s4(1) c1 c2 c3)
  then show ?thesis using s4(3) s1(2) s2(2) s3(2) s4(2) by (blast intro: same_trans)
qed

lemma insert_right_red_uncle:
  assumes rep: "rep s q (plug cs (Br u g gc gk gd (Br pr p pc pk pd pl)))" and nb: "nil_black s" and u: "col u = 0"
  shows "\<exists>s'. insert_fixup_right node p s = ok (s', g) \<and>
    rep s' q (plug cs (Br (paint 1 u) g 0 gk gd (Br pr p 1 pk pd pl))) \<and>
    same s s' (set (addrs (plug cs (Br u g gc gk gd (Br pr p pc pk pd pl)))))"
proof -
  let ?T = "plug cs (Br u g gc gk gd (Br pr p pc pk pd pl))"
  obtain ul ua uc uk ud ur where U: "u = Br ur ua uc uk ud ul" using u by (cases u) auto
  have c0: "heap s p = Some \<lparr>key = pk, parent = g, right = addr_of pl, left = addr_of pr, color = pc, vdata = pd\<rparr>"
    "heap s g = Some \<lparr>key = gk, parent = above q cs, right = p, left = addr_of u, color = gc, vdata = gd\<rparr>"
    using rep_cell [of s q "InR u g gc gk gd # cs" pr p pc pk pd pl] rep_cell [OF rep] rep by simp_all
  have isred: "util_rbt_isred s ua = ok True"
    using colour_reads(1) [OF nb, of g u] rep u U by (simp add: rep_plug)
  obtain s1 where s1: "util_rbt_black ua s = ok s1" "same s s1 (set (addrs ?T))"
    "rep s1 q (plug cs (Br (paint 1 u) g gc gk gd (Br pr p pc pk pd pl)))"
    using rep_black [of s q "InL g gc gk gd (Br pr p pc pk pd pl) # cs" ur ua uc uk ud ul] rep U by auto
  have e: "set (addrs (plug cs (Br (paint 1 u) g gc gk gd (Br pr p pc pk pd pl)))) = set (addrs ?T)"
    "set (addrs (plug cs (Br (paint 1 u) g gc gk gd (Br pr p 1 pk pd pl)))) = set (addrs ?T)"
    by (simp_all add: entries_plug)
  obtain s2 where s2: "util_rbt_black p s1 = ok s2" "same s1 s2 (set (addrs ?T))"
    "rep s2 q (plug cs (Br (paint 1 u) g gc gk gd (Br pr p 1 pk pd pl)))"
    using rep_black [of s1 q "InR (paint 1 u) g gc gk gd # cs" pr p pc pk pd pl] s1(3) e by auto
  obtain s3 where s3: "util_rbt_red g s2 = ok s3" "same s2 s3 (set (addrs ?T))"
    "rep s3 q (plug cs (Br (paint 1 u) g 0 gk gd (Br pr p 1 pk pd pl)))"
    using rep_red [OF s2(3)] e by auto
  have c2: "heap s2 p = Some \<lparr>key = pk, parent = g, right = addr_of pl, left = addr_of pr, color = 1, vdata = pd\<rparr>"
    using rep_cell [of s2 q "InR (paint 1 u) g gc gk gd # cs" pr p 1 pk pd pl] s2(3) by simp
  have c3: "heap s3 p = Some \<lparr>key = pk, parent = g, right = addr_of pl, left = addr_of pr, color = 1, vdata = pd\<rparr>"
    using rep_cell [of s3 q "InR (paint 1 u) g 0 gk gd # cs" pr p 1 pk pd pl] s3(3) by simp
  have "insert_fixup_right node p s = ok (s3, g)"
    using c0 U by (simp add: insert_fixup_right_def isred s1(1) s2(1) s3(1) c2 c3)
  then show ?thesis using s3(3) s1(2) s2(2) s3(2) by (blast intro: same_trans)
qed

lemma insert_right_outer:
  assumes rep: "rep s q (plug cs (Br u g gc gk gd (Br pr p pc pk pd pl)))" and nb: "nil_black s"
    and u: "col u \<noteq> 0" and node: "node \<noteq> addr_of pr"
  shows "\<exists>s'. insert_fixup_right node p s = ok (s', node) \<and>
    rep s' q (plug cs (Br (Br u g 0 gk gd pr) p 1 pk pd pl)) \<and>
    same s s' (set (addrs (plug cs (Br u g gc gk gd (Br pr p pc pk pd pl)))))"
proof -
  let ?T = "plug cs (Br u g gc gk gd (Br pr p pc pk pd pl))"
  have c0: "heap s p = Some \<lparr>key = pk, parent = g, right = addr_of pl, left = addr_of pr, color = pc, vdata = pd\<rparr>"
    "heap s g = Some \<lparr>key = gk, parent = above q cs, right = p, left = addr_of u, color = gc, vdata = gd\<rparr>"
    using rep_cell [of s q "InR u g gc gk gd # cs" pr p pc pk pd pl] rep_cell [OF rep] rep by simp_all
  have isred: "util_rbt_isred s (addr_of u) = ok False"
    using colour_reads(1) [OF nb, of g u] rep u by (simp add: rep_plug)
  have e: "set (addrs (plug cs (Br u g gc gk gd (Br pr p 1 pk pd pl)))) = set (addrs ?T)"
    "set (addrs (plug cs (Br u g 0 gk gd (Br pr p 1 pk pd pl)))) = set (addrs ?T)"
    by (simp_all add: entries_plug)
  obtain s2 where s2: "util_rbt_black p s = ok s2" "same s s2 (set (addrs ?T))"
    "rep s2 q (plug cs (Br u g gc gk gd (Br pr p 1 pk pd pl)))"
    using rep_black [of s q "InR u g gc gk gd # cs" pr p pc pk pd pl] rep by auto
  obtain s3 where s3: "util_rbt_red g s2 = ok s3" "same s2 s3 (set (addrs ?T))"
    "rep s3 q (plug cs (Br u g 0 gk gd (Br pr p 1 pk pd pl)))"
    using rep_red [OF s2(3)] e by auto
  obtain s4 where s4: "rbtree_left_rotate g s3 = ok s4" "same s3 s4 (set (addrs ?T))"
    "rep s4 q (plug cs (Br (Br u g 0 gk gd pr) p 1 pk pd pl))"
    using left_rotate_ok [OF s3(3)] e by auto
  have c2: "heap s2 p = Some \<lparr>key = pk, parent = g, right = addr_of pl, left = addr_of pr, color = 1, vdata = pd\<rparr>"
    using rep_cell [of s2 q "InR u g gc gk gd # cs" pr p 1 pk pd pl] s2(3) by simp
  have c3: "heap s3 p = Some \<lparr>key = pk, parent = g, right = addr_of pl, left = addr_of pr, color = 1, vdata = pd\<rparr>"
    using rep_cell [of s3 q "InR u g 0 gk gd # cs" pr p 1 pk pd pl] s3(3) by simp
  have "insert_fixup_right node p s = ok (s4, node)"
    using c0 node [symmetric] by (simp add: insert_fixup_right_def isred s2(1) s3(1) s4(1) c2 c3)
  then show ?thesis using s4(3) s2(2) s3(2) s4(2) by (blast intro: same_trans)
qed

lemma insert_right_inner:
  assumes rep: "rep s q (plug cs (Br u g gc gk gd (Br (Br mr m mc mk md ml) p pc pk pd pl)))" and nb: "nil_black s"
    and u: "col u \<noteq> 0"
  shows "\<exists>s'. insert_fixup_right m p s = ok (s', p) \<and>
    rep s' q (plug cs (Br (Br u g 0 gk gd mr) m 1 mk md (Br ml p pc pk pd pl))) \<and>
    same s s' (set (addrs (plug cs (Br u g gc gk gd (Br (Br mr m mc mk md ml) p pc pk pd pl)))))"
proof -
  let ?T = "plug cs (Br u g gc gk gd (Br (Br mr m mc mk md ml) p pc pk pd pl))"
  have c0: "heap s p = Some \<lparr>key = pk, parent = g, right = addr_of pl, left = m, color = pc, vdata = pd\<rparr>"
    "heap s g = Some \<lparr>key = gk, parent = above q cs, right = p, left = addr_of u, color = gc, vdata = gd\<rparr>"
    using rep_cell [of s q "InR u g gc gk gd # cs" "Br mr m mc mk md ml" p pc pk pd pl] rep_cell [OF rep] rep by simp_all
  have isred: "util_rbt_isred s (addr_of u) = ok False"
    using colour_reads(1) [OF nb, of g u] rep u by (simp add: rep_plug)
  have e: "set (addrs (plug cs (Br u g c' gk gd (Br mr m c mk md (Br ml p pc pk pd pl))))) = set (addrs ?T)" for c c'
    by (simp add: entries_plug)
  obtain s1 where s1: "rbtree_right_rotate p s = ok s1" "same s s1 (set (addrs ?T))"
    "rep s1 q (plug cs (Br u g gc gk gd (Br mr m mc mk md (Br ml p pc pk pd pl))))"
    using right_rotate_ok [of s q "InR u g gc gk gd # cs" mr m mc mk md ml p pc pk pd pl] rep by auto
  obtain s2 where s2: "util_rbt_black m s1 = ok s2" "same s1 s2 (set (addrs ?T))"
    "rep s2 q (plug cs (Br u g gc gk gd (Br mr m 1 mk md (Br ml p pc pk pd pl))))"
    using rep_black [of s1 q "InR u g gc gk gd # cs" mr m mc mk md "Br ml p pc pk pd pl"] s1(3) e [where c = mc and c' = gc] by auto
  obtain s3 where s3: "util_rbt_red g s2 = ok s3" "same s2 s3 (set (addrs ?T))"
    "rep s3 q (plug cs (Br u g 0 gk gd (Br mr m 1 mk md (Br ml p pc pk pd pl))))"
    using rep_red [OF s2(3)] e [where c = 1 and c' = gc] by auto
  obtain s4 where s4: "rbtree_left_rotate g s3 = ok s4" "same s3 s4 (set (addrs ?T))"
    "rep s4 q (plug cs (Br (Br u g 0 gk gd mr) m 1 mk md (Br ml p pc pk pd pl)))"
    using left_rotate_ok [OF s3(3)] e [where c = 1 and c' = 0] by auto
  have c1: "heap s1 p = Some \<lparr>key = pk, parent = m, right = addr_of pl, left = addr_of ml, color = pc, vdata = pd\<rparr>"
    using rep_cell [of s1 q "InR mr m mc mk md # InR u g gc gk gd # cs" ml p pc pk pd pl] s1(3) by simp
  have c2: "heap s2 m = Some \<lparr>key = mk, parent = g, right = p, left = addr_of mr, color = 1, vdata = md\<rparr>"
    using rep_cell [of s2 q "InR u g gc gk gd # cs" mr m 1 mk md "Br ml p pc pk pd pl"] s2(3) by simp
  have c3: "heap s3 m = Some \<lparr>key = mk, parent = g, right = p, left = addr_of mr, color = 1, vdata = md\<rparr>"
    using rep_cell [of s3 q "InR u g 0 gk gd # cs" mr m 1 mk md "Br ml p pc pk pd pl"] s3(3) by simp
  have "insert_fixup_right m p s = ok (s4, p)"
    using c0 by (simp add: insert_fixup_right_def isred s1(1) s2(1) s3(1) s4(1) c1 c2 c3)
  then show ?thesis using s4(3) s1(2) s2(2) s3(2) s4(2) by (blast intro: same_trans)
qed

subsection \<open>The repair loop\<close>

lemma insert_fixup_stop:
  assumes "rep s q (plug cs (Br l a c k d r))" "nil_black s" "topc cs \<noteq> 0"
    and q: "cs = [] \<Longrightarrow> \<exists>n. heap s q = Some n \<and> color n \<noteq> 0"
  shows "rbtree_insert_fixup a s = util_rbt_black (root s) s"
proof -
  have "\<exists>n. heap s (above q cs) = Some n \<and> color n \<noteq> 0"
  proof (cases cs)
    case Nil
    then show ?thesis using q by simp
  next
    case (Cons x ds)
    then show ?thesis using assms(1,3) by (cases x) (auto simp: rep_plug)
  qed
  then show ?thesis
    using rep_cell [OF assms(1)] by (subst rbtree_insert_fixup.simps) (auto simp: util_rbt_isred_def)
qed

lemma insert_fixup_enter:
  assumes "rep s q (plug (x # g # cs) (Br l a c k d r))" "hole_col x = 0"
  shows "rbtree_insert_fixup a s =
    bnd (case g of InL _ _ _ _ _ \<Rightarrow> insert_fixup_left a (hole_addr x) s
           | InR _ _ _ _ _ \<Rightarrow> insert_fixup_right a (hole_addr x) s)
      (\<lambda>r. rbtree_insert_fixup (snd r) (fst r))"
proof -
  have P: "path (heap s) q (x # g # cs) a" "heap s a = Some \<lparr>key = k, parent = hole_addr x, right = addr_of r, left = addr_of l, color = c, vdata = d\<rparr>"
    using iffD1 [OF rep_plug assms(1)] by (simp_all del: path.simps plug.simps)
  obtain n where n: "heap s (hole_addr x) = Some n" "color n = 0" "parent n = hole_addr g"
    using P(1) assms(2) by (cases x) auto
  have P2: "path (heap s) q (g # cs) (hole_addr x)" using P(1) by (cases x) simp_all
  have "distinct (map fst (before (x # g # cs) @ after (x # g # cs)))" "NIL \<notin> set (addrs (plug (x # g # cs) (Br l a c k d r)))"
    using iffD1 [OF rep_plug assms(1)] by (simp_all add: distinct_plug del: plug.simps before.simps after.simps)
  then have "hole_addr x \<notin> set (addrs (side g))" "hole_addr x \<noteq> NIL"
    unfolding set_map addrs_plug by (cases x; cases g; simp)+
  then have "hole_addr x \<noteq> addr_of (side g)" using addr_of_in [of "side g"] by (cases "side g") auto
  with P2 have "(case g of InL _ _ _ _ _ \<Rightarrow> True | InR _ _ _ _ _ \<Rightarrow> False) = (\<exists>m. heap s (hole_addr g) = Some m \<and> left m = hole_addr x)"
    "\<exists>m. heap s (hole_addr g) = Some m"
    by (cases g; simp)+
  then show ?thesis
    using P(2) n by (subst rbtree_insert_fixup.simps) (auto simp: util_rbt_isred_def split: hole.split)
qed

text \<open>A red node with fit surroundings and subtrees that may sit below a red node.\<close>

definition ripe :: "hole list \<Rightarrow> rbt \<Rightarrow> rbt \<Rightarrow> bool" where
  "ripe cs l r \<longleftrightarrow> fit cs (bh l) \<and> invc l \<and> invc r \<and> col l = 1 \<and> col r = 1 \<and> invh l \<and> invh r \<and> bh l = bh r"

lemma invc_col: "invc t \<Longrightarrow> col t = 0 \<or> col t = 1"
  by (cases t) auto

text \<open>
  The repair loop climbs to the root: at every second place on its way the parent is red and so is
  the uncle.  Only then does it read the cell that the parent link of the root points to.
\<close>

fun climbs :: "hole list \<Rightarrow> bool" where
  "climbs [] \<longleftrightarrow> True"
| "climbs [x] \<longleftrightarrow> False"
| "climbs (x # g # cs) \<longleftrightarrow> hole_col x = 0 \<and> col (side g) = 0 \<and> climbs cs"

lemma climbs_black [simp]: "hole_col x \<noteq> 0 \<Longrightarrow> \<not> climbs (x # cs)"
  by (cases cs) simp_all

text \<open>The black height of a tree from that of a part of it.\<close>

fun height_above :: "hole list \<Rightarrow> nat \<Rightarrow> nat" where
  "height_above [] n = n"
| "height_above (InL a c k d r # cs) n = height_above cs (if c = 1 then n + 1 else n)"
| "height_above (InR l a c k d # cs) n = height_above cs (if c = 1 then bh l + 1 else bh l)"

lemma bh_plug: "bh (plug cs t) = height_above cs (bh t)"
  by (induction cs "bh t" arbitrary: t rule: height_above.induct) simp_all

definition turned :: "util_rbtree_t \<Rightarrow> addr \<Rightarrow> hole list \<Rightarrow> rbt \<Rightarrow> (util_rbtree_t \<times> addr) res \<Rightarrow> bool" where
  "turned s q cs0 t m \<longleftrightarrow>
     (\<exists>s' cs l a k d r. m = ok (s', a) \<and> rep s' q (plug cs (Br l a 0 k d r)) \<and> ripe cs l r \<and>
        length cs < length cs0 \<and> (climbs cs \<longleftrightarrow> climbs cs0) \<and>
        bh (plug cs (Br l a 0 k d r)) = bh t \<and> entries (plug cs (Br l a 0 k d r)) = entries t \<and> same s s' (set (addrs t)))"

lemma turnedI:
  "m = ok (s', a) \<Longrightarrow> rep s' q (plug cs (Br l a 0 k d r)) \<Longrightarrow> ripe cs l r \<Longrightarrow> length cs < length cs0 \<Longrightarrow>
   (climbs cs \<longleftrightarrow> climbs cs0) \<Longrightarrow> bh (plug cs (Br l a 0 k d r)) = bh t \<Longrightarrow>
   entries (plug cs (Br l a 0 k d r)) = entries t \<Longrightarrow> same s s' (set (addrs t)) \<Longrightarrow>
   turned s q cs0 t m"
  unfolding turned_def by blast

text \<open>The parent of the node under repair is red, and the node is not in the parent's other subtree.\<close>

lemma red_parent: "hole_col x = 0 \<Longrightarrow> \<exists>pl p pk pd pr. fill x t = Br pl p 0 pk pd pr \<and> hole_addr x = p"
  by (cases x) auto

lemma turn_apart:
  assumes rep: "rep s q (plug (x # cs) (Br l a c k d r))"
  shows "a \<noteq> addr_of (side x)"
proof -
  have "around (x # cs) \<inter> set (addrs (Br l a c k d r)) = {}" "NIL \<notin> set (addrs (plug (x # cs) (Br l a c k d r)))"
    using iffD1 [OF rep_plug rep] by (simp_all add: distinct_plug del: plug.simps around_simps)
  moreover have "set (addrs (side x)) \<subseteq> around (x # cs)" by (cases x) auto
  ultimately have "a \<notin> set (addrs (side x))" "a \<noteq> NIL"
    unfolding set_map addrs_plug by auto
  then show ?thesis using addr_of_in [of "side x"] by (cases "side x") auto
qed

text \<open>The two cases of one turn, a red uncle and a black one, on either side of the grandparent.\<close>

lemma insert_turn_left_red:
  assumes rep: "rep s q (plug (x # InL b c gk gd u # ds) (Br l a 0 k d r))" and nb: "nil_black s"
    and red: "hole_col x = 0" "c = 1" and ripe: "ripe (x # InL b c gk gd u # ds) l r" and uncle: "col u = 0"
  shows "turned s q (x # InL b c gk gd u # ds) (plug (x # InL b c gk gd u # ds) (Br l a 0 k d r))
    (insert_fixup_left a (hole_addr x) s)"
proof -
  obtain pl p pk pd pr where P: "fill x (Br l a 0 k d r) = Br pl p 0 pk pd pr" "hole_addr x = p"
    using red_parent [OF red(1)] by blast
  have rep': "rep s q (plug ds (Br (Br pl p 0 pk pd pr) b c gk gd u))" using rep P by simp
  obtain s1 where s1: "insert_fixup_left a p s = ok (s1, b)"
    "rep s1 q (plug ds (Br (Br pl p 1 pk pd pr) b 0 gk gd (paint 1 u)))"
    "same s s1 (set (addrs (plug ds (Br (Br pl p 0 pk pd pr) b c gk gd u))))"
    using insert_left_red_uncle [OF rep' nb] uncle by blast
  moreover have "u \<noteq> Tip" using uncle by auto
  then have bhu: "bh (paint 1 u) = bh u + 1" using uncle by (rule bh_paint)
  moreover have "ripe ds (Br pl p 1 pk pd pr) (paint 1 u)"
    using bhu ripe red P by (cases x) (auto simp: ripe_def inv_paint)
  ultimately show ?thesis
    using P red(1) by (intro turnedI [where cs = ds and s' = s1 and a = b and k = gk and d = gd and l = "Br pl p 1 pk pd pr" and r = "paint 1 u"])
      (use red(2) bhu in \<open>simp_all add: entries_plug bh_plug uncle red(1)\<close>)
qed

lemma insert_turn_left_black:
  assumes rep: "rep s q (plug (x # InL b c gk gd u # ds) (Br l a 0 k d r))" and nb: "nil_black s"
    and red: "hole_col x = 0" "c = 1" and ripe: "ripe (x # InL b c gk gd u # ds) l r" and uncle: "col u \<noteq> 0"
  shows "turned s q (x # InL b c gk gd u # ds) (plug (x # InL b c gk gd u # ds) (Br l a 0 k d r))
    (insert_fixup_left a (hole_addr x) s)"
proof -
  obtain pl p pk pd pr where P: "fill x (Br l a 0 k d r) = Br pl p 0 pk pd pr" "hole_addr x = p"
    using red_parent [OF red(1)] by blast
  have as: "a \<noteq> addr_of (side x)" using rep by (rule turn_apart)
  have rep': "rep s q (plug ds (Br (Br pl p 0 pk pd pr) b c gk gd u))" using rep P by simp
  show ?thesis
  proof (cases x)
    case x: (InL p' c' pk' pd' sib)
    obtain s1 where "insert_fixup_left a p s = ok (s1, a)"
      "rep s1 q (plug ds (Br pl p 1 pk pd (Br pr b 0 gk gd u)))"
      "same s s1 (set (addrs (plug ds (Br (Br pl p 0 pk pd pr) b c gk gd u))))"
      using insert_left_outer [OF rep' nb uncle, of a] as P x by auto
    moreover have "ripe (InL p 1 pk pd (Br pr b 0 gk gd u) # ds) l r"
      using ripe red P uncle invc_col [of u] by (auto simp: ripe_def x)
    ultimately show ?thesis
      using P by (intro turnedI [where cs = "InL p 1 pk pd (Br pr b 0 gk gd u) # ds" and s' = s1 and a = a and k = k and d = d and l = l and r = r])
        (use red in \<open>simp_all add: x entries_plug bh_plug uncle\<close>)
  next
    case x: (InR sib p' c' pk' pd')
    have pq: "pr = Br l a 0 k d r" using P x by simp
    obtain s1 where "insert_fixup_left a p s = ok (s1, p)"
      "rep s1 q (plug ds (Br (Br pl p 0 pk pd l) a 1 k d (Br r b 0 gk gd u)))"
      "same s s1 (set (addrs (plug ds (Br (Br pl p 0 pk pd pr) b c gk gd u))))"
      using insert_left_inner [of s q ds pl p 0 pk pd l a 0 k d r b c gk gd u] rep' nb uncle P x by auto
    moreover have "ripe (InL a 1 k d (Br r b 0 gk gd u) # ds) pl l"
      using ripe red P uncle invc_col [of u] by (auto simp: ripe_def x)
    ultimately show ?thesis
      using P by (intro turnedI [where cs = "InL a 1 k d (Br r b 0 gk gd u) # ds" and s' = s1 and a = p and k = pk and d = pd and l = pl and r = l])
        (use red in \<open>simp_all add: x pq entries_plug bh_plug uncle\<close>)
  qed
qed

lemma insert_turn_right_red:
  assumes rep: "rep s q (plug (x # InR u b c gk gd # ds) (Br l a 0 k d r))" and nb: "nil_black s"
    and red: "hole_col x = 0" "c = 1" and ripe: "ripe (x # InR u b c gk gd # ds) l r" and uncle: "col u = 0"
  shows "turned s q (x # InR u b c gk gd # ds) (plug (x # InR u b c gk gd # ds) (Br l a 0 k d r))
    (insert_fixup_right a (hole_addr x) s)"
proof -
  obtain pl p pk pd pr where P: "fill x (Br l a 0 k d r) = Br pl p 0 pk pd pr" "hole_addr x = p"
    using red_parent [OF red(1)] by blast
  have rep': "rep s q (plug ds (Br u b c gk gd (Br pl p 0 pk pd pr)))" using rep P by simp
  obtain s1 where s1: "insert_fixup_right a p s = ok (s1, b)"
    "rep s1 q (plug ds (Br (paint 1 u) b 0 gk gd (Br pl p 1 pk pd pr)))"
    "same s s1 (set (addrs (plug ds (Br u b c gk gd (Br pl p 0 pk pd pr)))))"
    using insert_right_red_uncle [OF rep' nb] uncle by blast
  moreover have "u \<noteq> Tip" using uncle by auto
  then have bhu: "bh (paint 1 u) = bh u + 1" using uncle by (rule bh_paint)
  moreover have "ripe ds (paint 1 u) (Br pl p 1 pk pd pr)"
    using bhu ripe red P by (cases x) (auto simp: ripe_def inv_paint)
  ultimately show ?thesis
    using P red(1) by (intro turnedI [where cs = ds and s' = s1 and a = b and k = gk and d = gd and l = "paint 1 u" and r = "Br pl p 1 pk pd pr"])
      (use red(2) bhu in \<open>simp_all add: entries_plug bh_plug uncle red(1)\<close>)
qed

lemma insert_turn_right_black:
  assumes rep: "rep s q (plug (x # InR u b c gk gd # ds) (Br l a 0 k d r))" and nb: "nil_black s"
    and red: "hole_col x = 0" "c = 1" and ripe: "ripe (x # InR u b c gk gd # ds) l r" and uncle: "col u \<noteq> 0"
  shows "turned s q (x # InR u b c gk gd # ds) (plug (x # InR u b c gk gd # ds) (Br l a 0 k d r))
    (insert_fixup_right a (hole_addr x) s)"
proof -
  obtain pl p pk pd pr where P: "fill x (Br l a 0 k d r) = Br pl p 0 pk pd pr" "hole_addr x = p"
    using red_parent [OF red(1)] by blast
  have as: "a \<noteq> addr_of (side x)" using rep by (rule turn_apart)
  have rep': "rep s q (plug ds (Br u b c gk gd (Br pl p 0 pk pd pr)))" using rep P by simp
  show ?thesis
  proof (cases x)
    case x: (InR sib p' c' pk' pd')
    obtain s1 where "insert_fixup_right a p s = ok (s1, a)"
      "rep s1 q (plug ds (Br (Br u b 0 gk gd pl) p 1 pk pd pr))"
      "same s s1 (set (addrs (plug ds (Br u b c gk gd (Br pl p 0 pk pd pr)))))"
      using insert_right_outer [OF rep' nb uncle, of a] as P x by auto
    moreover have "ripe (InR (Br u b 0 gk gd pl) p 1 pk pd # ds) l r"
      using ripe red P uncle invc_col [of u] by (auto simp: ripe_def x)
    ultimately show ?thesis
      using P by (intro turnedI [where cs = "InR (Br u b 0 gk gd pl) p 1 pk pd # ds" and s' = s1 and a = a and k = k and d = d and l = l and r = r])
        (use red in \<open>simp_all add: x entries_plug bh_plug uncle\<close>)
  next
    case x: (InL p' c' pk' pd' sib)
    have pq: "pl = Br l a 0 k d r" using P x by simp
    obtain s1 where "insert_fixup_right a p s = ok (s1, p)"
      "rep s1 q (plug ds (Br (Br u b 0 gk gd l) a 1 k d (Br r p 0 pk pd pr)))"
      "same s s1 (set (addrs (plug ds (Br u b c gk gd (Br pl p 0 pk pd pr)))))"
      using insert_right_inner [of s q ds u b c gk gd l a 0 k d r p 0 pk pd pr] rep' nb uncle P x by auto
    moreover have "ripe (InR (Br u b 0 gk gd l) a 1 k d # ds) r pr"
      using ripe red P uncle invc_col [of u] by (auto simp: ripe_def x)
    ultimately show ?thesis
      using P by (intro turnedI [where cs = "InR (Br u b 0 gk gd l) a 1 k d # ds" and s' = s1 and a = p and k = pk and d = pd and l = r and r = pr])
        (use red in \<open>simp_all add: x pq entries_plug bh_plug uncle\<close>)
  qed
qed

lemma insert_turn:
  assumes "rep s q (plug (x # g # ds) (Br l a 0 k d r))" "nil_black s" "hole_col x = 0" "hole_col g = 1" "ripe (x # g # ds) l r"
  shows "turned s q (x # g # ds) (plug (x # g # ds) (Br l a 0 k d r))
    (case g of InL _ _ _ _ _ \<Rightarrow> insert_fixup_left a (hole_addr x) s
       | InR _ _ _ _ _ \<Rightarrow> insert_fixup_right a (hole_addr x) s)"
proof (cases g)
  case (InL b c gk gd u)
  then show ?thesis
    using assms insert_turn_left_red [of s q x b c gk gd u ds l a k d r] insert_turn_left_black [of s q x b c gk gd u ds l a k d r]
    by (cases "col u = 0") (simp_all del: plug.simps)
next
  case (InR u b c gk gd)
  then show ?thesis
    using assms insert_turn_right_red [of s q x u b c gk gd ds l a k d r] insert_turn_right_black [of s q x u b c gk gd ds l a k d r]
    by (cases "col u = 0") (simp_all del: plug.simps)
qed

text \<open>The parent of the root only has to be a cell outside the tree that is not red.\<close>

definition outer :: "util_rbtree_t \<Rightarrow> addr \<Rightarrow> rbt \<Rightarrow> bool" where
  "outer s q t \<longleftrightarrow> (\<exists>n. heap s q = Some n \<and> color n \<noteq> 0) \<and> q \<notin> set (addrs t)"

lemma insert_step:
  assumes rep: "rep s q (plug cs (Br l a 0 k d r))" and nb: "nil_black s" and ripe: "ripe cs l r" and red: "topc cs = 0"
  shows "\<exists>s1 cs1 l1 a1 k1 d1 r1. rbtree_insert_fixup a s = rbtree_insert_fixup a1 s1 \<and>
    rep s1 q (plug cs1 (Br l1 a1 0 k1 d1 r1)) \<and> nil_black s1 \<and> ripe cs1 l1 r1 \<and> length cs1 < length cs \<and>
    entries (plug cs1 (Br l1 a1 0 k1 d1 r1)) = entries (plug cs (Br l a 0 k d r)) \<and>
    same s s1 (set (addrs (plug cs (Br l a 0 k d r)))) \<and> (climbs cs1 \<longleftrightarrow> climbs cs) \<and>
    bh (plug cs1 (Br l1 a1 0 k1 d1 r1)) = bh (plug cs (Br l a 0 k d r))"
proof -
  have "fit cs (bh l)" using ripe unfolding ripe_def by blast
  then obtain x g ds where cs: "cs = x # g # ds" "hole_col x = 0" "hole_col g = 1"
    using fit_red red by fastforce
  define m where "m = (case g of InL _ _ _ _ _ \<Rightarrow> insert_fixup_left a (hole_addr x) s
    | InR _ _ _ _ _ \<Rightarrow> insert_fixup_right a (hole_addr x) s)"
  have "turned s q cs (plug cs (Br l a 0 k d r)) m"
    using insert_turn [OF _ nb cs(2,3)] rep ripe unfolding m_def cs(1) by blast
  then obtain s1 a1 cs1 l1 k1 d1 r1 where t1: "m = ok (s1, a1)"
    "rep s1 q (plug cs1 (Br l1 a1 0 k1 d1 r1))" "ripe cs1 l1 r1" "length cs1 < length cs" "climbs cs1 \<longleftrightarrow> climbs cs"
    "entries (plug cs1 (Br l1 a1 0 k1 d1 r1)) = entries (plug cs (Br l a 0 k d r))"
    "same s s1 (set (addrs (plug cs (Br l a 0 k d r))))"
    "bh (plug cs1 (Br l1 a1 0 k1 d1 r1)) = bh (plug cs (Br l a 0 k d r))"
    unfolding turned_def by blast
  have "rbtree_insert_fixup a s = bnd m (\<lambda>r. rbtree_insert_fixup (snd r) (fst r))"
    using insert_fixup_enter [of s q x g ds l a 0 k d r] rep cs(2) unfolding m_def cs(1) by blast
  moreover have "nil_black s1" by (rule nil_black_same [OF nb t1(7) rep_NIL [OF rep]])
  ultimately show ?thesis using t1 by (intro exI [of _ s1] exI [of _ cs1] exI [of _ l1] exI [of _ a1] exI [of _ k1] exI [of _ d1] exI [of _ r1]) simp
qed

lemma insert_fixup_ok:
  assumes "rep s q (plug cs (Br l a 0 k d r))" "nil_black s" "climbs cs \<longrightarrow> outer s q (plug cs (Br l a 0 k d r))" "ripe cs l r"
  shows "\<exists>s' t'. rbtree_insert_fixup a s = ok s' \<and> rep s' q t' \<and> red_black t' \<and>
    entries t' = entries (plug cs (Br l a 0 k d r)) \<and> same s s' (set (addrs (plug cs (Br l a 0 k d r)))) \<and>
    (\<not> climbs cs \<longrightarrow> bh t' = bh (plug cs (Br l a 0 k d r)))"
  using assms
proof (induction "length cs" arbitrary: s cs l a k d r rule: less_induct)
  case less
  let ?t = "plug cs (Br l a 0 k d r)"
  have fit: "fit cs (bh l)" using less.prems(4) unfolding ripe_def by blast
  show ?case
  proof (cases "topc cs = 0")
    case False
    then have "rbtree_insert_fixup a s = util_rbt_black (root s) s"
      using insert_fixup_stop [OF less.prems(1,2)] less.prems(3) by (cases "cs = []") (auto simp: outer_def)
    moreover obtain s' where "util_rbt_black (root s) s = ok s'" "rep s' q (paint 1 ?t)" "same s s' (set (addrs ?t))"
      using paint_root [OF less.prems(1)] by (metis addrs_plug all_not_in_conv entries.simps(1) entries.simps(2)
          append_is_Nil_conv image_is_empty list.distinct(1) set_empty sup_eq_bot_iff)
    moreover have "red_black (paint 1 ?t) \<and> (cs \<noteq> [] \<longrightarrow> paint 1 ?t = ?t)"
    proof (cases "cs = []")
      case True
      then show ?thesis using less.prems(4) by (simp add: red_black_def ripe_def)
    next
      case ne: False
      have "fit cs (bh r)" using less.prems(4) unfolding ripe_def by metis
      then have "red_black ?t" using ne False less.prems(4) unfolding red_black_plug ripe_def by simp
      then show ?thesis by (simp add: paint_black red_black_def)
    qed
    moreover have "cs = [] \<longrightarrow> climbs cs" by simp
    ultimately show ?thesis by (intro exI [of _ s'] exI [of _ "paint 1 ?t"]) auto
  next
    case True
    obtain s1 cs1 l1 a1 k1 d1 r1 where t1: "rbtree_insert_fixup a s = rbtree_insert_fixup a1 s1"
      "rep s1 q (plug cs1 (Br l1 a1 0 k1 d1 r1))" "nil_black s1" "ripe cs1 l1 r1" "length cs1 < length cs"
      "entries (plug cs1 (Br l1 a1 0 k1 d1 r1)) = entries ?t" "same s s1 (set (addrs ?t))" "climbs cs1 \<longleftrightarrow> climbs cs"
      "bh (plug cs1 (Br l1 a1 0 k1 d1 r1)) = bh ?t"
      using insert_step [OF less.prems(1,2,4) True] by blast
    have "climbs cs1 \<longrightarrow> outer s1 q (plug cs1 (Br l1 a1 0 k1 d1 r1))"
      using less.prems(3) t1(6-8) by (simp add: outer_def same_def)
    then obtain s2 t2 where "rbtree_insert_fixup a1 s1 = ok s2" "rep s2 q t2" "red_black t2"
      "entries t2 = entries ?t" "same s1 s2 (set (addrs ?t))" "\<not> climbs cs \<longrightarrow> bh t2 = bh ?t"
      using less.hyps [OF t1(5,2,3) _ t1(4)] t1(6,8,9) by auto
    then show ?thesis using t1(1,7) by (auto intro: same_trans)
  qed
qed

text \<open>When the repair climbs to the root, the cell behind the parent link of the root is read.\<close>

lemma insert_fixup_lost:
  assumes "rep s q (plug cs (Br l a 0 k d r))" "nil_black s" "ripe cs l r" "climbs cs"
    and "heap s q = None" "q \<notin> set (addrs (plug cs (Br l a 0 k d r)))"
  shows "rbtree_insert_fixup a s = Some (Inl Undefined)"
  using assms
proof (induction "length cs" arbitrary: s cs l a k d r rule: less_induct)
  case less
  let ?t = "plug cs (Br l a 0 k d r)"
  show ?case
  proof (cases "cs = []")
    case True
    then have "heap s a = Some \<lparr>key = k, parent = q, right = addr_of r, left = addr_of l, color = 0, vdata = d\<rparr>"
      using less.prems(1) by (simp add: rep_def)
    then show ?thesis using less.prems(5) by (subst rbtree_insert_fixup.simps) (simp add: util_rbt_isred_def rd_def)
  next
    case False
    then have "topc cs = 0" using less.prems(4) by (cases cs rule: climbs.cases) auto
    then obtain s1 cs1 l1 a1 k1 d1 r1 where t1: "rbtree_insert_fixup a s = rbtree_insert_fixup a1 s1"
      "rep s1 q (plug cs1 (Br l1 a1 0 k1 d1 r1))" "nil_black s1" "ripe cs1 l1 r1" "length cs1 < length cs"
      "entries (plug cs1 (Br l1 a1 0 k1 d1 r1)) = entries ?t" "same s s1 (set (addrs ?t))" "climbs cs1 \<longleftrightarrow> climbs cs"
      using insert_step [OF less.prems(1-3)] by blast
    have "heap s1 q = None" using less.prems(5,6) t1(7) by (simp add: same_def)
    then show ?thesis
      using less.hyps [OF t1(5,2,3,4)] less.prems(4,6) unfolding t1(1,6,8) by simp
  qed
qed

subsection \<open>Descent and insertion\<close>

text \<open>The place the descent for \<open>k\<close> ends at.\<close>

fun place :: "int \<Rightarrow> rbt \<Rightarrow> hole list \<Rightarrow> hole list" where
  "place k Tip cs = cs"
| "place k (Br l a c k' d r) cs =
     (if k < k' then place k l (InL a c k' d r # cs) else place k r (InR l a c k' d # cs))"

lemma plug_place [simp]: "plug (place k t cs) Tip = plug cs t"
  by (induction t arbitrary: cs) simp_all

lemma insert_pos_ok:
  "tree (heap s) q t \<Longrightarrow> NIL \<notin> set (addrs t) \<Longrightarrow> heap s node = Some n \<Longrightarrow>
   insert_pos s node (addr_of t) (above z cs) = ok (above z (place (key n) t cs))"
proof (induction t arbitrary: q cs)
  case Tip
  then show ?case by (subst insert_pos.simps) simp
next
  case (Br l a c k d r)
  have "insert_pos s node (addr_of l) a = ok (above z (place (key n) l (InL a c k d r # cs)))"
    "insert_pos s node (addr_of r) a = ok (above z (place (key n) r (InR l a c k d # cs)))"
    using Br.IH(1) [of a "InL a c k d r # cs"] Br.IH(2) [of a "InR l a c k d # cs"] Br.prems by auto
  then show ?case using Br.prems by (subst insert_pos.simps) auto
qed

lemma place_entries:
  assumes "sorted (keys t)"
  shows "before (place k t cs) = before cs @ takeWhile (\<lambda>e. entry_key e \<le> k) (entries t) \<and>
    after (place k t cs) = dropWhile (\<lambda>e. entry_key e \<le> k) (entries t) @ after cs"
  using assms
proof (induction t arbitrary: cs)
  case (Br l a c k' d r)
  have s: "sorted (keys l)" "sorted (keys r)" "\<forall>e \<in> set (entries l). entry_key e \<le> k'"
    "\<forall>e \<in> set (entries r). k' \<le> entry_key e"
    using Br.prems by (auto simp: keys_def sorted_append)
  show ?case
  proof (cases "k < k'")
    case True
    then show ?thesis using Br.IH(1) [OF s(1), of "InL a c k' d r # cs"] by (simp add: takeWhile_append dropWhile_append)
  next
    case False
    then have "\<forall>e \<in> set (entries l). entry_key e \<le> k" using s(3) by force
    then show ?thesis using False Br.IH(2) [OF s(2), of "InR l a c k' d # cs"] by (simp add: takeWhile_append dropWhile_append)
  qed
qed simp

text \<open>Every link of the descent is the one its comparison asks for.\<close>

fun way :: "int \<Rightarrow> hole \<Rightarrow> bool" where
  "way k (InL a c k' d r) \<longleftrightarrow> k < k'"
| "way k (InR l a c k' d) \<longleftrightarrow> k' \<le> k"

lemma place_way: "list_all (way k) cs \<Longrightarrow> list_all (way k) (place k t cs)"
  by (induction t arbitrary: cs) simp_all

text \<open>
  The invariant of a tree; \<open>q\<close> is where the parent link of its root points.  Insertion also needs
  \<open>outer\<close>, which a deletion keeps but which is lost when the cell \<open>q\<close> is freed.
\<close>

definition rb_wf :: "util_rbtree_t \<Rightarrow> addr \<Rightarrow> rbt \<Rightarrow> bool" where
  "rb_wf s q t \<longleftrightarrow> rep s q t \<and> red_black t \<and> sorted (keys t) \<and> nil_black s \<and>
     rb_size s = of_nat (length (entries t))"

definition rb_inv :: "util_rbtree_t \<Rightarrow> addr \<Rightarrow> rbt \<Rightarrow> bool" where
  "rb_inv s q t \<longleftrightarrow> rb_wf s q t \<and> outer s q t"

lemma tree_alloc: "tree h q t \<Longrightarrow> a \<in> set (addrs t) \<Longrightarrow> h a \<noteq> None"
  by (induction t arbitrary: q) force+

text \<open>What the code does before the repair: the new node is linked below the place of the descent.\<close>

lemma insert_link:
  assumes rep: "rep s q t" and n: "heap s node = Some n" and fresh: "node \<notin> set (addrs t)" "node \<noteq> NIL" "node \<noteq> NULL"
    and t: "t \<noteq> Tip"
  shows "\<exists>s1 n1. bnd (insert_pos s node (root s) NULL) (\<lambda>y.
       bnd (wr node (\<lambda>n. n\<lparr>parent := y\<rparr>) s) (\<lambda>s.
       bnd (rd s node key) (\<lambda>k.
       bnd (rd s y key) (\<lambda>ky.
         if k < ky then wr y (\<lambda>n. n\<lparr>left := node\<rparr>) s
         else wr y (\<lambda>n. n\<lparr>right := node\<rparr>) s)))) = ok s1 \<and>
    heap s1 node = Some n1 \<and> key n1 = key n \<and> vdata n1 = vdata n \<and>
    parent n1 = above q (place (key n) t []) \<and> path (heap s1) q (place (key n) t []) node \<and>
    root s1 = root s \<and> same s s1 (insert node (set (addrs t)))"
proof -
  define cs where "cs = place (key n) t []"
  have pl: "plug cs Tip = t" by (simp add: cs_def)
  then obtain x ds where cs: "cs = x # ds" using t by (cases cs) auto
  have pos: "insert_pos s node (root s) NULL = ok (hole_addr x)"
    using insert_pos_ok [of s q t node n NULL "[]"] rep n cs by (simp add: rep_def flip: cs_def)
  have p: "path (heap s) q cs NIL" using rep pl tree_plug [of "heap s" q cs Tip] by (simp add: rep_def)
  have d: "distinct (map fst (before cs @ after cs))" using rep pl entries_plug [of cs Tip] by (simp add: rep_def)
  have around: "around cs = set (addrs t)" using addrs_plug [of cs Tip] pl by simp
  have way: "way (key n) x" using place_way [of "key n" "[]" t] cs by (simp add: cs_def [symmetric])
  show ?thesis
  proof (cases x)
    case x: (InL a c k' dd r)
    have a: "a \<noteq> node" "a \<notin> set (addrs r)" "a \<notin> around ds" "node \<notin> set (addrs r)" "node \<notin> around ds"
      using d fresh around by (auto simp: cs x around_def)
    then show ?thesis
      using pos p n way around unfolding cs_def [symmetric] cs x
      by (simp add: same_def) blast
  next
    case x: (InR l a c k' dd)
    have a: "a \<noteq> node" "a \<notin> set (addrs l)" "a \<notin> around ds" "node \<notin> set (addrs l)" "node \<notin> around ds"
      using d fresh around by (auto simp: cs x around_def)
    then show ?thesis
      using pos p n way around unfolding cs_def [symmetric] cs x
      by (simp add: same_def) blast
  qed
qed

text \<open>The new node is coloured red and the repair loop runs.\<close>

lemma insert_prepare:
  assumes n1: "heap s1 node = Some n1" "parent n1 = above q cs" and p: "path (heap s1) q cs node"
    and root: "root s1 = addr_of (plug cs (Br Tip node 0 k d Tip))"
    and n1k: "key n1 = k" "vdata n1 = d" and t: "red_black (plug cs Tip)"
    and d: "distinct (node # addrs (plug cs Tip))" "NIL \<notin> set (node # addrs (plug cs Tip))" "NULL \<notin> set (node # addrs (plug cs Tip))"
    and nb: "nil_black s1"
  defines "s2 \<equiv> s1\<lparr>heap := (heap s1)(node \<mapsto> n1\<lparr>left := NIL, right := NIL, color := 0\<rparr>)\<rparr>"
  shows "rep s2 q (plug cs (Br Tip node 0 k d Tip))" "nil_black s2" "ripe cs Tip Tip"
    "bnd (wr node (\<lambda>n. n\<lparr>left := NIL\<rparr>) s1) (\<lambda>s. bnd (wr node (\<lambda>n. n\<lparr>right := NIL\<rparr>) s) (\<lambda>s.
       bnd (util_rbt_red node s) f)) = f s2"
proof -
  have ar: "around cs = set (addrs (plug cs Tip))" using addrs_plug [of cs Tip] by simp
  show "rep s2 q (plug cs (Br Tip node 0 k d Tip))"
    using p root n1 n1k d ar unfolding rep_plug
    by (cases n1) (auto simp: s2_def entries_plug around_def)
  show "nil_black s2" using nb d(2) by (auto simp: nil_black_def s2_def)
  show "ripe cs Tip Tip" using t by (simp add: red_black_plug ripe_def)
  show "bnd (wr node (\<lambda>n. n\<lparr>left := NIL\<rparr>) s1) (\<lambda>s. bnd (wr node (\<lambda>n. n\<lparr>right := NIL\<rparr>) s) (\<lambda>s.
       bnd (util_rbt_red node s) f)) = f s2"
    using n1 by (simp add: util_rbt_red_def s2_def)
qed

lemma insert_finish:
  assumes n1: "heap s1 node = Some n1" "parent n1 = above q cs" and p: "path (heap s1) q cs node"
    and root: "root s1 = addr_of (plug cs (Br Tip node 0 k d Tip))"
    and n1k: "key n1 = k" "vdata n1 = d" and t: "red_black (plug cs Tip)"
    and d: "distinct (node # addrs (plug cs Tip))" "NIL \<notin> set (node # addrs (plug cs Tip))" "NULL \<notin> set (node # addrs (plug cs Tip))"
    and nb: "nil_black s1" and q: "climbs cs \<longrightarrow> outer s1 q (plug cs Tip)" "q \<noteq> node"
  shows "\<exists>s' t'. bnd (wr node (\<lambda>n. n\<lparr>left := NIL\<rparr>) s1) (\<lambda>s.
        bnd (wr node (\<lambda>n. n\<lparr>right := NIL\<rparr>) s) (\<lambda>s.
        bnd (util_rbt_red node s) (\<lambda>s.
        bnd (rbtree_insert_fixup node s) (\<lambda>s.
          ok (s\<lparr>rb_size := rb_size s + 1\<rparr>))))) = ok s' \<and>
      rep s' q t' \<and> red_black t' \<and> nil_black s' \<and> (outer s1 q (plug cs Tip) \<longrightarrow> outer s' q t') \<and>
      entries t' = before cs @ (node, k, d) # after cs \<and> rb_size s' = rb_size s1 + 1 \<and>
      (\<not> climbs cs \<longrightarrow> bh t' = bh (plug cs Tip)) \<and> (\<forall>a. a \<notin> insert node (around cs) \<longrightarrow> heap s' a = heap s1 a)"
proof -
  let ?t = "plug cs (Br Tip node 0 k d Tip)"
  define s2 where "s2 = s1\<lparr>heap := (heap s1)(node \<mapsto> n1\<lparr>left := NIL, right := NIL, color := 0\<rparr>)\<rparr>"
  note pre = insert_prepare [OF n1 p root n1k t d nb, folded s2_def]
  have e: "entries ?t = before cs @ (node, k, d) # after cs" by (simp add: entries_plug)
  have out: "outer s1 q (plug cs Tip) \<longrightarrow> outer s2 q ?t" using q(2) by (auto simp: outer_def s2_def entries_plug)
  then obtain s3 t3 where s3: "rbtree_insert_fixup node s2 = ok s3" "rep s3 q t3" "red_black t3"
    "entries t3 = entries ?t" "same s2 s3 (set (addrs ?t))"
    "\<not> climbs cs \<longrightarrow> bh t3 = bh (plug cs Tip)"
    using insert_fixup_ok [OF pre(1,2) _ pre(3)] q(1) by (auto simp: bh_plug)
  let ?s' = "s3\<lparr>rb_size := rb_size s3 + 1\<rparr>"
  have "nil_black ?s'" using nil_black_same [OF pre(2) s3(5) rep_NIL [OF pre(1)]] by (simp add: nil_black_def)
  moreover have "outer s1 q (plug cs Tip) \<longrightarrow> outer ?s' q t3" using out s3(4,5) by (simp add: outer_def same_def)
  moreover have "\<forall>a. a \<notin> insert node (around cs) \<longrightarrow> heap ?s' a = heap s1 a"
    using s3(5) by (auto simp: same_def s2_def addrs_plug)
  moreover have "rb_size ?s' = rb_size s1 + 1" using s3(5) by (simp add: same_def s2_def)
  moreover have "rep ?s' q t3" using s3(2) by (simp add: rep_def)
  ultimately show ?thesis
    unfolding pre(4) using s3 e by (intro exI [of _ ?s'] exI [of _ t3]) simp
qed

lemma sorted_insert:
  "sorted (map f xs) \<Longrightarrow> sorted (map f (takeWhile (\<lambda>e. f e \<le> f x) xs @ x # dropWhile (\<lambda>e. f e \<le> f x) xs))"
  for f :: "'a \<Rightarrow> int"
proof (induction xs)
  case (Cons y ys)
  then show ?case
  proof (cases "f y \<le> f x")
    case True
    have "set (takeWhile (\<lambda>e. f e \<le> f x) ys) \<subseteq> set ys" "set (dropWhile (\<lambda>e. f e \<le> f x) ys) \<subseteq> set ys"
      by (auto dest: set_takeWhileD set_dropWhileD)
    then show ?thesis using True Cons by (auto dest: subsetD)
  next
    case False
    then show ?thesis using Cons.prems by (auto simp: less_imp_le)
  qed
qed simp

lemma insert_wf:
  assumes inv: "rb_wf s q t" and out: "t \<noteq> Tip \<longrightarrow> climbs (place (key n) t []) \<longrightarrow> outer s q t" and n: "heap s node = Some n"
    and fresh: "node \<notin> set (addrs t)" "node \<noteq> NIL" "node \<noteq> NULL" "node \<noteq> q"
  shows "\<exists>s' q' t'. util_rbtree_insert node s = ok s' \<and> rb_wf s' q' t' \<and> (q' = q \<or> t = Tip \<and> q' = NIL) \<and> (outer s q t \<or> t = Tip \<longrightarrow> outer s' q' t') \<and>
    entries t' = takeWhile (\<lambda>e. entry_key e \<le> key n) (entries t) @
       (node, key n, vdata n) # dropWhile (\<lambda>e. entry_key e \<le> key n) (entries t) \<and>
    (t \<noteq> Tip \<and> \<not> climbs (place (key n) t []) \<longrightarrow> bh t' = bh t) \<and> (\<forall>a. a \<notin> insert node (set (addrs t)) \<longrightarrow> heap s' a = heap s a)"
proof -
  have i: "rep s q t" "red_black t" "sorted (keys t)" "nil_black s" "rb_size s = of_nat (length (entries t))"
    using inv by (simp_all add: rb_wf_def)
  define cs where "cs = place (key n) t []"
  let ?le = "\<lambda>e. entry_key e \<le> key n"
  have pl: "plug cs Tip = t" by (simp add: cs_def)
  have ent: "before cs = takeWhile ?le (entries t)" "after cs = dropWhile ?le (entries t)"
    using place_entries [OF i(3), of "key n" "[]"] by (simp_all add: cs_def)
  have sorted: "sorted (map entry_key (takeWhile ?le (entries t) @ (node, key n, vdata n) # dropWhile ?le (entries t)))"
    using i(3) sorted_insert [of entry_key "entries t" "(node, key n, vdata n)"] by (simp add: keys_def)
  have "length (takeWhile ?le (entries t)) + length (dropWhile ?le (entries t)) = length (entries t)"
    by (metis length_append takeWhile_dropWhile_id)
  then have len: "of_nat (length (takeWhile ?le (entries t))) + of_nat (length (dropWhile ?le (entries t))) =
      (of_nat (length (entries t)) :: 32 word)"
    by (metis of_nat_add)
  have d: "distinct (node # addrs (plug cs Tip))" "NIL \<notin> set (node # addrs (plug cs Tip))" "NULL \<notin> set (node # addrs (plug cs Tip))"
    using i(1) fresh pl by (auto simp: rep_def)
  have ar: "around cs = set (addrs t)" using addrs_plug [of cs Tip] pl by simp
  show ?thesis
  proof (cases "t = Tip")
    case True
    then have cs: "cs = []" by (simp add: cs_def)
    define s1 where "s1 = s\<lparr>root := node, heap := (heap s)(node \<mapsto> n\<lparr>parent := NIL\<rparr>)\<rparr>"
    have nb: "nil_black s1" using i(4) fresh by (simp add: nil_black_def s1_def)
    then have "outer s1 NIL (plug cs Tip)" by (auto simp: outer_def nil_black_def cs)
    then obtain s' t' where "util_rbtree_insert node s = ok s'" "rep s' NIL t'" "red_black t'" "nil_black s'"
      "outer s' NIL t'" "entries t' = before cs @ (node, key n, vdata n) # after cs" "rb_size s' = rb_size s1 + 1"
      "\<forall>a. a \<notin> insert node (around cs) \<longrightarrow> heap s' a = heap s1 a"
      using insert_finish [of s1 node "n\<lparr>parent := NIL\<rparr>" NIL cs "key n" "vdata n"] n nb d fresh i(1,2) True pl
      by (auto simp: s1_def cs util_rbtree_insert_def rep_def)
    then show ?thesis
      using i(5) sorted ar ent by (intro exI [of _ s'] exI [of _ NIL] exI [of _ t']) (auto simp: rb_wf_def keys_def s1_def True)
  next
    case False
    obtain s1 n1 where s1: "bnd (insert_pos s node (root s) NULL) (\<lambda>y.
       bnd (wr node (\<lambda>n. n\<lparr>parent := y\<rparr>) s) (\<lambda>s.
       bnd (rd s node key) (\<lambda>k.
       bnd (rd s y key) (\<lambda>ky.
         if k < ky then wr y (\<lambda>n. n\<lparr>left := node\<rparr>) s
         else wr y (\<lambda>n. n\<lparr>right := node\<rparr>) s)))) = ok s1"
      "heap s1 node = Some n1" "key n1 = key n" "vdata n1 = vdata n" "parent n1 = above q cs"
      "path (heap s1) q cs node" "root s1 = root s" "same s s1 (insert node (set (addrs t)))"
      using insert_link [OF i(1) n fresh(1-3) False] unfolding cs_def by blast
    have "NIL \<notin> insert node (set (addrs t))" using d(2) pl by simp
    then have nb: "nil_black s1" using nil_black_same [OF i(4) s1(8)] by blast
    moreover have o1: "outer s1 q (plug cs Tip) \<longleftrightarrow> outer s q t" using s1(8) fresh(4) by (auto simp: outer_def same_def pl)
    then have "climbs cs \<longrightarrow> outer s1 q (plug cs Tip)" using out False by (simp add: cs_def)
    moreover have "root s \<noteq> NIL"
    proof
      assume "root s = NIL"
      then show False using i(1) addr_of_in [OF False] by (simp add: rep_def)
    qed
    moreover have "cs \<noteq> []" using False pl by auto
    then have "root s1 = addr_of (plug cs (Br Tip node 0 (key n) (vdata n) Tip))"
      using s1(7) i(1) pl by (simp add: rep_def root_plug [of cs "Br Tip node 0 (key n) (vdata n) Tip"])
    ultimately obtain s' t' where "util_rbtree_insert node s = ok s'" "rep s' q t'" "red_black t'" "nil_black s'"
      "outer s q t \<longrightarrow> outer s' q t'" "entries t' = before cs @ (node, key n, vdata n) # after cs" "rb_size s' = rb_size s1 + 1"
      "\<forall>a. a \<notin> insert node (around cs) \<longrightarrow> heap s' a = heap s1 a" "\<not> climbs cs \<longrightarrow> bh t' = bh t"
      using insert_finish [OF s1(2,5,6) _ s1(3,4) _ d] i(2) fresh pl s1(1) o1 by (auto simp: util_rbtree_insert_def)
    then show ?thesis
      using i(5) sorted ar ent s1(8) False by (intro exI [of _ s'] exI [of _ q] exI [of _ t'])
        (auto simp: rb_wf_def keys_def same_def len cs_def [symmetric])
  qed
qed

lemma insert_rb:
  assumes inv: "rb_inv s q t" and n: "heap s node = Some n"
    and fresh: "node \<notin> set (addrs t)" "node \<noteq> NIL" "node \<noteq> NULL" "node \<noteq> q"
  shows "\<exists>s' q' t'. util_rbtree_insert node s = ok s' \<and> rb_inv s' q' t' \<and> (q' = q \<or> q' = NIL) \<and>
    entries t' = takeWhile (\<lambda>e. entry_key e \<le> key n) (entries t) @
       (node, key n, vdata n) # dropWhile (\<lambda>e. entry_key e \<le> key n) (entries t) \<and>
    (\<forall>a. a \<notin> insert node (set (addrs t)) \<longrightarrow> heap s' a = heap s a)"
  using insert_wf [of s q t n node] assms unfolding rb_inv_def by blast

text \<open>
  With a dangling parent link the insertions are undefined whose repair climbs to the root, and
  by \<open>insert_wf\<close> only those.
\<close>

lemma insert_lost:
  assumes inv: "rb_wf s q t" and n: "heap s node = Some n"
    and fresh: "node \<notin> set (addrs t)" "node \<noteq> NIL" "node \<noteq> NULL" "node \<noteq> q"
    and lost: "t \<noteq> Tip" "climbs (place (key n) t [])" "heap s q = None"
  shows "util_rbtree_insert node s = Some (Inl Undefined)"
proof -
  have i: "rep s q t" "red_black t" "nil_black s" using inv by (simp_all add: rb_wf_def)
  define cs where "cs = place (key n) t []"
  have pl: "plug cs Tip = t" by (simp add: cs_def)
  have d: "distinct (node # addrs (plug cs Tip))" "NIL \<notin> set (node # addrs (plug cs Tip))" "NULL \<notin> set (node # addrs (plug cs Tip))"
    using i(1) fresh pl by (auto simp: rep_def)
  have ne: "root s \<noteq> NIL" using i(1) addr_of_in [OF lost(1)] by (metis rep_def)
  obtain s1 n1 where s1: "bnd (insert_pos s node (root s) NULL) (\<lambda>y.
     bnd (wr node (\<lambda>n. n\<lparr>parent := y\<rparr>) s) (\<lambda>s.
     bnd (rd s node key) (\<lambda>k.
     bnd (rd s y key) (\<lambda>ky.
       if k < ky then wr y (\<lambda>n. n\<lparr>left := node\<rparr>) s
       else wr y (\<lambda>n. n\<lparr>right := node\<rparr>) s)))) = ok s1"
    "heap s1 node = Some n1" "key n1 = key n" "vdata n1 = vdata n" "parent n1 = above q cs"
    "path (heap s1) q cs node" "root s1 = root s" "same s s1 (insert node (set (addrs t)))"
    using insert_link [OF i(1) n fresh(1-3) lost(1)] unfolding cs_def by blast
  have "NIL \<notin> insert node (set (addrs t))" using d(2) pl by simp
  then have nb: "nil_black s1" using nil_black_same [OF i(3) s1(8)] by blast
  define s2 where "s2 = s1\<lparr>heap := (heap s1)(node \<mapsto> n1\<lparr>left := NIL, right := NIL, color := 0\<rparr>)\<rparr>"
  have "cs \<noteq> []" using lost(1) pl by auto
  then have "root s1 = addr_of (plug cs (Br Tip node 0 (key n) (vdata n) Tip))"
    using s1(7) i(1) pl by (simp add: rep_def root_plug [of cs "Br Tip node 0 (key n) (vdata n) Tip"])
  moreover have rb: "red_black (plug cs Tip)" using i(2) pl by simp
  ultimately have pre: "rep s2 q (plug cs (Br Tip node 0 (key n) (vdata n) Tip))" "nil_black s2" "ripe cs Tip Tip"
    "bnd (wr node (\<lambda>n. n\<lparr>left := NIL\<rparr>) s1) (\<lambda>s. bnd (wr node (\<lambda>n. n\<lparr>right := NIL\<rparr>) s) (\<lambda>s.
       bnd (util_rbt_red node s) f)) = f s2" for f :: "util_rbtree_t \<Rightarrow> util_rbtree_t res"
    unfolding s2_def by (rule insert_prepare [OF s1(2,5,6) _ s1(3,4) _ d nb]; assumption)+
  have q: "q \<notin> set (addrs t)" using tree_alloc [of "heap s" q t q] i(1) lost(3) by (auto simp: rep_def)
  then have "heap s1 q = None" using s1(8) lost(3) fresh(4) by (simp add: same_def)
  then have "heap s2 q = None" using fresh(4) by (simp add: s2_def)
  then have lost': "rbtree_insert_fixup node s2 = Some (Inl Undefined)"
    using insert_fixup_lost [OF pre(1-3)] lost(2) q fresh(4) pl by (auto simp: entries_plug image_Un cs_def [symmetric])
  have ins: "util_rbtree_insert node s =
      bnd (wr node (\<lambda>n. n\<lparr>left := NIL\<rparr>) s1) (\<lambda>s. bnd (wr node (\<lambda>n. n\<lparr>right := NIL\<rparr>) s) (\<lambda>s.
        bnd (util_rbt_red node s) (\<lambda>s. bnd (rbtree_insert_fixup node s) (\<lambda>s. ok (s\<lparr>rb_size := rb_size s + 1\<rparr>)))))"
    using s1(1) ne fresh(2,3) by (simp add: util_rbtree_insert_def)
  show ?thesis unfolding ins pre(4) lost' by simp
qed

text \<open>
  C1. Insertion is total and correct: linking a fresh node into a red-black search tree ends
  without touching a cell outside the tree, the result is again a red-black search tree, its
  entries are the old ones with the new one behind those of smaller or equal keys, and
  \<open>size\<close> counts them (modulo \<open>2 ^ 32\<close>).  The freshness of \<open>node\<close> includes that it is not the
  cell the parent link of the root still points to.
\<close>

theorem insert_keeps_red_black:
  assumes inv: "rb_inv s q t" and n: "heap s node = Some n"
    and fresh: "node \<notin> set (addrs t)" "node \<noteq> NIL" "node \<noteq> NULL" "node \<noteq> q"
  shows "\<exists>s' q' t'. util_rbtree_insert node s = ok s' \<and> rb_inv s' q' t' \<and> (q' = q \<or> q' = NIL) \<and>
    entries t' = takeWhile (\<lambda>e. entry_key e \<le> key n) (entries t) @
       (node, key n, vdata n) # dropWhile (\<lambda>e. entry_key e \<le> key n) (entries t) \<and>
    (\<forall>a. a \<notin> insert node (set (addrs t)) \<longrightarrow> heap s' a = heap s a)"
  using insert_rb [OF inv n fresh] by blast

end
