(* ===== verification/RbDelFix.thy ===== *)
theory RbDelFix
  imports RbInsert
begin

text \<open>
  The repair loop of a deletion from the red-black tree, again one lemma for each case of the
  code: started where one black node is missing, \<open>rbtree_delete_fixup\<close> ends with a red-black
  tree of the same entries.
\<close>

subsection \<open>One turn of the repair loop\<close>

text \<open>The focus of the loop may be the sentinel, whose parent link then serves as that of a node.\<close>

definition linked :: "util_rbtree_t \<Rightarrow> addr \<Rightarrow> hole list \<Rightarrow> rbt \<Rightarrow> bool" where
  "linked s q cs t \<longleftrightarrow> (\<exists>n. heap s (addr_of t) = Some n \<and> parent n = above q cs)"

lemma linked_same:
  assumes "linked s q cs t" "above q ds = above q cs" "rep s' q (plug ds t)" "same s s' X" "NIL \<notin> X"
  shows "linked s' q ds t"
proof (cases t)
  case Tip
  then show ?thesis using assms by (simp add: linked_def same_def)
next
  case (Br l a c k d r)
  then show ?thesis using rep_cell [of s' q ds l a c k d r] assms(3) by (simp add: linked_def)
qed

lemma rep_linked: "rep s q (plug cs t) \<Longrightarrow> t \<noteq> Tip \<Longrightarrow> linked s q cs t"
  by (cases t) (auto simp: linked_def dest: rep_cell)

lemma linked_rd: "linked s q cs t \<Longrightarrow> rd s (addr_of t) parent = ok (above q cs)"
  by (auto simp: linked_def)

lemma delete_left_recolour:
  assumes rep: "rep s q (plug cs (Br t p pc pk pd (Br sl w wc wk wd sr)))" and nb: "nil_black s"
    and ln: "linked s q (InL p pc pk pd (Br sl w wc wk wd sr) # cs) t"
    and col: "wc = 1" "col sl = 1" "col sr = 1"
  shows "\<exists>s'. delete_fixup_left (addr_of t) s = ok (s', p) \<and>
    rep s' q (plug cs (Br t p pc pk pd (Br sl w 0 wk wd sr))) \<and>
    same s s' (set (addrs (plug cs (Br t p pc pk pd (Br sl w wc wk wd sr)))))"
proof -
  let ?T = "plug cs (Br t p pc pk pd (Br sl w wc wk wd sr))"
  define X where "X = set (addrs ?T)"
  have nX: "NIL \<notin> X" using rep_NIL [OF rep] by (simp add: X_def)
  have c0: "heap s p = Some \<lparr>key = pk, parent = above q cs, right = w, left = addr_of t, color = pc, vdata = pd\<rparr>"
    "heap s w = Some \<lparr>key = wk, parent = p, right = addr_of sr, left = addr_of sl, color = wc, vdata = wd\<rparr>"
    using rep_cell [of s q "InR t p pc pk pd # cs" sl w wc wk wd sr] rep_cell [OF rep] rep by simp_all
  have cr: "util_rbt_isred s w = ok False" "util_rbt_isblack s (addr_of sl) = ok True" "util_rbt_isblack s (addr_of sr) = ok True"
    using colour_reads [OF nb, of w sl] colour_reads [OF nb, of w sr] c0(2) rep col
    by (simp_all add: rep_plug util_rbt_isred_def)
  obtain s1 where s1: "util_rbt_red w s = ok s1" "same s s1 X"
    "rep s1 q (plug cs (Br t p pc pk pd (Br sl w 0 wk wd sr)))"
    using rep_red [of s q "InR t p pc pk pd # cs" sl w wc wk wd sr] rep X_def by auto
  have ln1: "linked s1 q (InL p pc pk pd (Br sl w 0 wk wd sr) # cs) t"
    using linked_same [OF ln _ _ s1(2) nX, of "InL p pc pk pd (Br sl w 0 wk wd sr) # cs"] s1(3) by simp
  have "delete_fixup_left (addr_of t) s = ok (s1, p)"
    using c0 by (simp add: delete_fixup_left_def linked_rd [OF ln] linked_rd [OF ln1] cr s1(1))
  then show ?thesis using s1 unfolding X_def by blast
qed

lemma delete_left_far_red:
  assumes rep: "rep s q (plug cs (Br t p pc pk pd (Br sl w wc wk wd sr)))" and nb: "nil_black s"
    and ln: "linked s q (InL p pc pk pd (Br sl w wc wk wd sr) # cs) t"
    and col: "wc = 1" "col sr = 0"
  shows "\<exists>s'. delete_fixup_left (addr_of t) s = ok (s', root s') \<and>
    rep s' q (plug cs (Br (Br t p 1 pk pd sl) w pc wk wd (paint 1 sr))) \<and>
    same s s' (set (addrs (plug cs (Br t p pc pk pd (Br sl w wc wk wd sr)))))"
proof -
  let ?T = "plug cs (Br t p pc pk pd (Br sl w wc wk wd sr))"
  define X where "X = set (addrs ?T)"
  have nX: "NIL \<notin> X" using rep_NIL [OF rep] by (simp add: X_def)
  obtain rl f rc fk fd rr where R: "sr = Br rl f rc fk fd rr" using col by (cases sr) auto
  have c0: "heap s p = Some \<lparr>key = pk, parent = above q cs, right = w, left = addr_of t, color = pc, vdata = pd\<rparr>"
    "heap s w = Some \<lparr>key = wk, parent = p, right = addr_of sr, left = addr_of sl, color = wc, vdata = wd\<rparr>"
    using rep_cell [of s q "InR t p pc pk pd # cs" sl w wc wk wd sr] rep_cell [OF rep] rep by simp_all
  have cr: "util_rbt_isred s w = ok False" "util_rbt_isblack s (addr_of sl) = ok (col sl = 1)" "util_rbt_isblack s (addr_of sr) = ok False"
    using colour_reads [OF nb, of w sl] colour_reads [OF nb, of w sr] c0(2) rep col
    by (simp_all add: rep_plug util_rbt_isred_def)
  have e: "fst ` set (entries (plug cs (Br t p c pk pd (Br sl w c' wk wd sr)))) = X"
    "fst ` set (entries (plug cs (Br t p c pk pd (Br sl w c' wk wd (paint 1 sr))))) = X" for c c'
    by (auto simp: X_def addrs_plug)
  obtain s1 where s1: "wr w (\<lambda>n. n\<lparr>color := pc\<rparr>) s = ok s1" "same s s1 X"
    "rep s1 q (plug cs (Br t p pc pk pd (Br sl w pc wk wd sr)))"
    using rep_color [of s q "InR t p pc pk pd # cs" sl w wc wk wd sr pc] rep X_def by auto
  obtain s2 where s2: "util_rbt_black p s1 = ok s2" "same s1 s2 X"
    "rep s2 q (plug cs (Br t p 1 pk pd (Br sl w pc wk wd sr)))"
    using rep_black [OF s1(3)] by (auto simp: e)
  obtain s3 where s3: "util_rbt_black f s2 = ok s3" "same s2 s3 X"
    "rep s3 q (plug cs (Br t p 1 pk pd (Br sl w pc wk wd (paint 1 sr))))"
    using rep_black [of s2 q "InR sl w pc wk wd # InR t p 1 pk pd # cs" rl f rc fk fd rr] s2(3) R by (auto simp: X_def addrs_plug)
  obtain s4 where s4: "rbtree_left_rotate p s3 = ok s4" "same s3 s4 X"
    "rep s4 q (plug cs (Br (Br t p 1 pk pd sl) w pc wk wd (paint 1 sr)))"
    using left_rotate_ok [OF s3(3)] by (auto simp: e)
  have c2: "heap s2 w = Some \<lparr>key = wk, parent = p, right = addr_of sr, left = addr_of sl, color = pc, vdata = wd\<rparr>"
    using rep_cell [of s2 q "InR t p 1 pk pd # cs" sl w pc wk wd sr] s2(3) by simp
  have "delete_fixup_left (addr_of t) s = ok (s4, root s4)"
    using c0 c2 R by (simp add: delete_fixup_left_def linked_rd [OF ln] cr [simplified R, simplified] s1(1) s2(1) s3(1) s4(1))
  then show ?thesis using s4(3) s1(2) s2(2) s3(2) s4(2) unfolding X_def by (blast intro: same_trans)
qed

lemma delete_left_near_red:
  assumes rep: "rep s q (plug cs (Br t p pc pk pd (Br (Br ml m mc mk md mr) w wc wk wd sr)))" and nb: "nil_black s"
    and ln: "linked s q (InL p pc pk pd (Br (Br ml m mc mk md mr) w wc wk wd sr) # cs) t"
    and col: "wc = 1" "mc = 0" "col sr = 1"
  shows "\<exists>s'. delete_fixup_left (addr_of t) s = ok (s', root s') \<and>
    rep s' q (plug cs (Br (Br t p 1 pk pd ml) m pc mk md (Br mr w 1 wk wd sr))) \<and>
    same s s' (set (addrs (plug cs (Br t p pc pk pd (Br (Br ml m mc mk md mr) w wc wk wd sr)))))"
proof -
  let ?T = "plug cs (Br t p pc pk pd (Br (Br ml m mc mk md mr) w wc wk wd sr))"
  define X where "X = set (addrs ?T)"
  have nX: "NIL \<notin> X" using rep_NIL [OF rep] by (simp add: X_def)
  have c0: "heap s p = Some \<lparr>key = pk, parent = above q cs, right = w, left = addr_of t, color = pc, vdata = pd\<rparr>"
    "heap s w = Some \<lparr>key = wk, parent = p, right = addr_of sr, left = m, color = wc, vdata = wd\<rparr>"
    using rep_cell [of s q "InR t p pc pk pd # cs" "Br ml m mc mk md mr" w wc wk wd sr] rep_cell [OF rep] rep by simp_all
  have cr: "util_rbt_isred s w = ok False" "util_rbt_isblack s m = ok False" "util_rbt_isblack s (addr_of sr) = ok True"
    using colour_reads [OF nb, of w "Br ml m mc mk md mr"] colour_reads [OF nb, of w sr] c0(2) rep col
    by (simp_all add: rep_plug util_rbt_isred_def)
  have e: "fst ` set (entries (plug cs (Br t p c pk pd (Br (Br ml m c' mk md mr) w c'' wk wd sr)))) = X"
    "fst ` set (entries (plug cs (Br t p c pk pd (Br ml m c' mk md (Br mr w c'' wk wd sr))))) = X" for c c' c''
    by (auto simp: X_def addrs_plug)
  obtain s1 where s1: "util_rbt_black m s = ok s1" "same s s1 X"
    "rep s1 q (plug cs (Br t p pc pk pd (Br (Br ml m 1 mk md mr) w wc wk wd sr)))"
    using rep_black [of s q "InL w wc wk wd sr # InR t p pc pk pd # cs" ml m mc mk md mr] rep X_def by auto
  obtain s2 where s2: "util_rbt_red w s1 = ok s2" "same s1 s2 X"
    "rep s2 q (plug cs (Br t p pc pk pd (Br (Br ml m 1 mk md mr) w 0 wk wd sr)))"
    using rep_red [of s1 q "InR t p pc pk pd # cs" "Br ml m 1 mk md mr" w wc wk wd sr] s1(3) by (auto simp: e)
  obtain s3 where s3: "rbtree_right_rotate w s2 = ok s3" "same s2 s3 X"
    "rep s3 q (plug cs (Br t p pc pk pd (Br ml m 1 mk md (Br mr w 0 wk wd sr))))"
    using right_rotate_ok [of s2 q "InR t p pc pk pd # cs" ml m 1 mk md mr w 0 wk wd sr] s2(3) by (auto simp: e)
  obtain s4 where s4: "wr m (\<lambda>n. n\<lparr>color := pc\<rparr>) s3 = ok s4" "same s3 s4 X"
    "rep s4 q (plug cs (Br t p pc pk pd (Br ml m pc mk md (Br mr w 0 wk wd sr))))"
    using rep_color [of s3 q "InR t p pc pk pd # cs" ml m 1 mk md "Br mr w 0 wk wd sr" pc] s3(3) by (auto simp: e)
  obtain s5 where s5: "util_rbt_black p s4 = ok s5" "same s4 s5 X"
    "rep s5 q (plug cs (Br t p 1 pk pd (Br ml m pc mk md (Br mr w 0 wk wd sr))))"
    using rep_black [OF s4(3)] by (auto simp: e)
  obtain s6 where s6: "util_rbt_black w s5 = ok s6" "same s5 s6 X"
    "rep s6 q (plug cs (Br t p 1 pk pd (Br ml m pc mk md (Br mr w 1 wk wd sr))))"
    using rep_black [of s5 q "InR ml m pc mk md # InR t p 1 pk pd # cs" mr w 0 wk wd sr] s5(3) by (auto simp: e)
  obtain s7 where s7: "rbtree_left_rotate p s6 = ok s7" "same s6 s7 X"
    "rep s7 q (plug cs (Br (Br t p 1 pk pd ml) m pc mk md (Br mr w 1 wk wd sr)))"
    using left_rotate_ok [OF s6(3)] by (auto simp: e)
  have s03: "same s s3 X" using s1(2) s2(2) s3(2) by (blast intro: same_trans)
  have ln3: "linked s3 q (InL p pc pk pd (Br ml m 1 mk md (Br mr w 0 wk wd sr)) # cs) t"
    using linked_same [OF ln _ _ s03 nX, of "InL p pc pk pd (Br ml m 1 mk md (Br mr w 0 wk wd sr)) # cs"] s3(3) by simp
  have c3: "heap s3 p = Some \<lparr>key = pk, parent = above q cs, right = m, left = addr_of t, color = pc, vdata = pd\<rparr>"
    using rep_cell [OF s3(3)] by simp
  have c5: "heap s5 m = Some \<lparr>key = mk, parent = p, right = w, left = addr_of ml, color = pc, vdata = md\<rparr>"
    using rep_cell [of s5 q "InR t p 1 pk pd # cs" ml m pc mk md "Br mr w 0 wk wd sr"] s5(3) by simp
  have "delete_fixup_left (addr_of t) s = ok (s7, root s7)"
    using c0 c3 c5 by (simp add: delete_fixup_left_def linked_rd [OF ln] linked_rd [OF ln3] cr s1(1) s2(1) s3(1) s4(1) s5(1) s6(1) s7(1))
  then show ?thesis using s7(3) s03 s4(2) s5(2) s6(2) s7(2) unfolding X_def by (blast intro: same_trans)
qed

lemma delete_left_red_sibling:
  assumes rep: "rep s q (plug cs (Br t p pc pk pd (Br sl w wc wk wd sr)))" and nb: "nil_black s"
    and ln: "linked s q (InL p pc pk pd (Br sl w wc wk wd sr) # cs) t"
    and col: "wc = 0" "col sl = 1"
  shows "\<exists>s'. delete_fixup_left (addr_of t) s = delete_fixup_left (addr_of t) s' \<and>
    rep s' q (plug cs (Br (Br t p 0 pk pd sl) w 1 wk wd sr)) \<and>
    same s s' (set (addrs (plug cs (Br t p pc pk pd (Br sl w wc wk wd sr)))))"
proof -
  let ?T = "plug cs (Br t p pc pk pd (Br sl w wc wk wd sr))"
  define X where "X = set (addrs ?T)"
  have nX: "NIL \<notin> X" using rep_NIL [OF rep] by (simp add: X_def)
  have c0: "heap s p = Some \<lparr>key = pk, parent = above q cs, right = w, left = addr_of t, color = pc, vdata = pd\<rparr>"
    "heap s w = Some \<lparr>key = wk, parent = p, right = addr_of sr, left = addr_of sl, color = wc, vdata = wd\<rparr>"
    using rep_cell [of s q "InR t p pc pk pd # cs" sl w wc wk wd sr] rep_cell [OF rep] rep by simp_all
  have cr: "util_rbt_isred s w = ok True" using c0(2) col by (simp add: util_rbt_isred_def)
  have e: "fst ` set (entries (plug cs (Br t p c pk pd (Br sl w c' wk wd sr)))) = X" for c c'
    by (auto simp: X_def addrs_plug)
  obtain s1 where s1: "util_rbt_black w s = ok s1" "same s s1 X"
    "rep s1 q (plug cs (Br t p pc pk pd (Br sl w 1 wk wd sr)))"
    using rep_black [of s q "InR t p pc pk pd # cs" sl w wc wk wd sr] rep X_def by auto
  obtain s2 where s2: "util_rbt_red p s1 = ok s2" "same s1 s2 X"
    "rep s2 q (plug cs (Br t p 0 pk pd (Br sl w 1 wk wd sr)))"
    using rep_red [OF s1(3)] by (auto simp: e)
  obtain s3 where s3: "rbtree_left_rotate p s2 = ok s3" "same s2 s3 X"
    "rep s3 q (plug cs (Br (Br t p 0 pk pd sl) w 1 wk wd sr))"
    using left_rotate_ok [OF s2(3)] by (auto simp: e)
  have s03: "same s s3 X" using s1(2) s2(2) s3(2) by (blast intro: same_trans)
  have ln1: "linked s1 q (InL p pc pk pd (Br sl w 1 wk wd sr) # cs) t"
    using linked_same [OF ln _ _ s1(2) nX, of "InL p pc pk pd (Br sl w 1 wk wd sr) # cs"] s1(3) by simp
  have ln3: "linked s3 q (InL p 0 pk pd sl # InL w 1 wk wd sr # cs) t"
    using linked_same [OF ln _ _ s03 nX, of "InL p 0 pk pd sl # InL w 1 wk wd sr # cs"] s3(3) by simp
  have c3: "heap s3 p = Some \<lparr>key = pk, parent = w, right = addr_of sl, left = addr_of t, color = 0, vdata = pd\<rparr>"
    using rep_cell [of s3 q "InL w 1 wk wd sr # cs" t p 0 pk pd sl] s3(3) by simp
  have nb3: "nil_black s3" by (rule nil_black_same [OF nb s03 nX])
  have cr3: "util_rbt_isred s3 (addr_of sl) = ok False"
    using colour_reads [OF nb3, of p sl] s3(3) col by (simp add: rep_plug)
  have "delete_fixup_left (addr_of t) s = delete_fixup_left (addr_of t) s3"
    using c0 c3 by (simp add: delete_fixup_left_def [of _ s] delete_fixup_left_def [of _ s3]
        linked_rd [OF ln] linked_rd [OF ln1] linked_rd [OF ln3] cr cr3 s1(1) s2(1) s3(1))
  then show ?thesis using s3(3) s03 unfolding X_def by blast
qed

lemma delete_right_recolour:
  assumes rep: "rep s q (plug cs (Br (Br sr w wc wk wd sl) p pc pk pd t))" and nb: "nil_black s"
    and ln: "linked s q (InR (Br sr w wc wk wd sl) p pc pk pd # cs) t"
    and col: "wc = 1" "col sl = 1" "col sr = 1"
  shows "\<exists>s'. delete_fixup_right (addr_of t) s = ok (s', p) \<and>
    rep s' q (plug cs (Br (Br sr w 0 wk wd sl) p pc pk pd t)) \<and>
    same s s' (set (addrs (plug cs (Br (Br sr w wc wk wd sl) p pc pk pd t))))"
proof -
  let ?T = "plug cs (Br (Br sr w wc wk wd sl) p pc pk pd t)"
  define X where "X = set (addrs ?T)"
  have nX: "NIL \<notin> X" using rep_NIL [OF rep] by (simp add: X_def)
  have c0: "heap s p = Some \<lparr>key = pk, parent = above q cs, right = addr_of t, left = w, color = pc, vdata = pd\<rparr>"
    "heap s w = Some \<lparr>key = wk, parent = p, right = addr_of sl, left = addr_of sr, color = wc, vdata = wd\<rparr>"
    using rep_cell [of s q "InL p pc pk pd t # cs" sr w wc wk wd sl] rep_cell [OF rep] rep by simp_all
  have cr: "util_rbt_isred s w = ok False" "util_rbt_isblack s (addr_of sl) = ok True" "util_rbt_isblack s (addr_of sr) = ok True"
    using colour_reads [OF nb, of w sl] colour_reads [OF nb, of w sr] c0(2) rep col
    by (simp_all add: rep_plug util_rbt_isred_def)
  obtain s1 where s1: "util_rbt_red w s = ok s1" "same s s1 X"
    "rep s1 q (plug cs (Br (Br sr w 0 wk wd sl) p pc pk pd t))"
    using rep_red [of s q "InL p pc pk pd t # cs" sr w wc wk wd sl] rep X_def by auto
  have ln1: "linked s1 q (InR (Br sr w 0 wk wd sl) p pc pk pd # cs) t"
    using linked_same [OF ln _ _ s1(2) nX, of "InR (Br sr w 0 wk wd sl) p pc pk pd # cs"] s1(3) by simp
  have "delete_fixup_right (addr_of t) s = ok (s1, p)"
    using c0 by (simp add: delete_fixup_right_def linked_rd [OF ln] linked_rd [OF ln1] cr s1(1))
  then show ?thesis using s1 unfolding X_def by blast
qed

lemma delete_right_far_red:
  assumes rep: "rep s q (plug cs (Br (Br sr w wc wk wd sl) p pc pk pd t))" and nb: "nil_black s"
    and ln: "linked s q (InR (Br sr w wc wk wd sl) p pc pk pd # cs) t"
    and col: "wc = 1" "col sr = 0"
  shows "\<exists>s'. delete_fixup_right (addr_of t) s = ok (s', root s') \<and>
    rep s' q (plug cs (Br (paint 1 sr) w pc wk wd (Br sl p 1 pk pd t))) \<and>
    same s s' (set (addrs (plug cs (Br (Br sr w wc wk wd sl) p pc pk pd t))))"
proof -
  let ?T = "plug cs (Br (Br sr w wc wk wd sl) p pc pk pd t)"
  define X where "X = set (addrs ?T)"
  have nX: "NIL \<notin> X" using rep_NIL [OF rep] by (simp add: X_def)
  obtain rl f rc fk fd rr where R: "sr = Br rr f rc fk fd rl" using col by (cases sr) auto
  have c0: "heap s p = Some \<lparr>key = pk, parent = above q cs, right = addr_of t, left = w, color = pc, vdata = pd\<rparr>"
    "heap s w = Some \<lparr>key = wk, parent = p, right = addr_of sl, left = addr_of sr, color = wc, vdata = wd\<rparr>"
    using rep_cell [of s q "InL p pc pk pd t # cs" sr w wc wk wd sl] rep_cell [OF rep] rep by simp_all
  have cr: "util_rbt_isred s w = ok False" "util_rbt_isblack s (addr_of sl) = ok (col sl = 1)" "util_rbt_isblack s (addr_of sr) = ok False"
    using colour_reads [OF nb, of w sl] colour_reads [OF nb, of w sr] c0(2) rep col
    by (simp_all add: rep_plug util_rbt_isred_def)
  have e: "fst ` set (entries (plug cs (Br (Br sr w c' wk wd sl) p c pk pd t))) = X"
    "fst ` set (entries (plug cs (Br (Br (paint 1 sr) w c' wk wd sl) p c pk pd t))) = X" for c c'
    by (auto simp: X_def addrs_plug)
  obtain s1 where s1: "wr w (\<lambda>n. n\<lparr>color := pc\<rparr>) s = ok s1" "same s s1 X"
    "rep s1 q (plug cs (Br (Br sr w pc wk wd sl) p pc pk pd t))"
    using rep_color [of s q "InL p pc pk pd t # cs" sr w wc wk wd sl] rep X_def by auto
  obtain s2 where s2: "util_rbt_black p s1 = ok s2" "same s1 s2 X"
    "rep s2 q (plug cs (Br (Br sr w pc wk wd sl) p 1 pk pd t))"
    using rep_black [OF s1(3)] by (auto simp: e)
  obtain s3 where s3: "util_rbt_black f s2 = ok s3" "same s2 s3 X"
    "rep s3 q (plug cs (Br (Br (paint 1 sr) w pc wk wd sl) p 1 pk pd t))"
    using rep_black [of s2 q "InL w pc wk wd sl # InL p 1 pk pd t # cs" rr f rc fk fd rl] s2(3) R by (auto simp: X_def addrs_plug)
  obtain s4 where s4: "rbtree_right_rotate p s3 = ok s4" "same s3 s4 X"
    "rep s4 q (plug cs (Br (paint 1 sr) w pc wk wd (Br sl p 1 pk pd t)))"
    using right_rotate_ok [OF s3(3)] by (auto simp: e)
  have c2: "heap s2 w = Some \<lparr>key = wk, parent = p, right = addr_of sl, left = addr_of sr, color = pc, vdata = wd\<rparr>"
    using rep_cell [of s2 q "InL p 1 pk pd t # cs" sr w pc wk wd sl] s2(3) by simp
  have "delete_fixup_right (addr_of t) s = ok (s4, root s4)"
    using c0 c2 R by (simp add: delete_fixup_right_def linked_rd [OF ln] cr [simplified R, simplified] s1(1) s2(1) s3(1) s4(1))
  then show ?thesis using s4(3) s1(2) s2(2) s3(2) s4(2) unfolding X_def by (blast intro: same_trans)
qed

lemma delete_right_near_red:
  assumes rep: "rep s q (plug cs (Br (Br sr w wc wk wd (Br mr m mc mk md ml)) p pc pk pd t))" and nb: "nil_black s"
    and ln: "linked s q (InR (Br sr w wc wk wd (Br mr m mc mk md ml)) p pc pk pd # cs) t"
    and col: "wc = 1" "mc = 0" "col sr = 1"
  shows "\<exists>s'. delete_fixup_right (addr_of t) s = ok (s', root s') \<and>
    rep s' q (plug cs (Br (Br sr w 1 wk wd mr) m pc mk md (Br ml p 1 pk pd t))) \<and>
    same s s' (set (addrs (plug cs (Br (Br sr w wc wk wd (Br mr m mc mk md ml)) p pc pk pd t))))"
proof -
  let ?T = "plug cs (Br (Br sr w wc wk wd (Br mr m mc mk md ml)) p pc pk pd t)"
  define X where "X = set (addrs ?T)"
  have nX: "NIL \<notin> X" using rep_NIL [OF rep] by (simp add: X_def)
  have c0: "heap s p = Some \<lparr>key = pk, parent = above q cs, right = addr_of t, left = w, color = pc, vdata = pd\<rparr>"
    "heap s w = Some \<lparr>key = wk, parent = p, right = m, left = addr_of sr, color = wc, vdata = wd\<rparr>"
    using rep_cell [of s q "InL p pc pk pd t # cs" sr w wc wk wd "Br mr m mc mk md ml"] rep_cell [OF rep] rep by simp_all
  have cr: "util_rbt_isred s w = ok False" "util_rbt_isblack s m = ok False" "util_rbt_isblack s (addr_of sr) = ok True"
    using colour_reads [OF nb, of w "Br mr m mc mk md ml"] colour_reads [OF nb, of w sr] c0(2) rep col
    by (simp_all add: rep_plug util_rbt_isred_def)
  have e: "fst ` set (entries (plug cs (Br (Br sr w c'' wk wd (Br mr m c' mk md ml)) p c pk pd t))) = X"
    "fst ` set (entries (plug cs (Br (Br (Br sr w c'' wk wd mr) m c' mk md ml) p c pk pd t))) = X" for c c' c''
    by (auto simp: X_def addrs_plug)
  obtain s1 where s1: "util_rbt_black m s = ok s1" "same s s1 X"
    "rep s1 q (plug cs (Br (Br sr w wc wk wd (Br mr m 1 mk md ml)) p pc pk pd t))"
    using rep_black [of s q "InR sr w wc wk wd # InL p pc pk pd t # cs" mr m mc mk md ml] rep X_def by auto
  obtain s2 where s2: "util_rbt_red w s1 = ok s2" "same s1 s2 X"
    "rep s2 q (plug cs (Br (Br sr w 0 wk wd (Br mr m 1 mk md ml)) p pc pk pd t))"
    using rep_red [of s1 q "InL p pc pk pd t # cs" sr w wc wk wd "Br mr m 1 mk md ml"] s1(3) by (auto simp: e)
  obtain s3 where s3: "rbtree_left_rotate w s2 = ok s3" "same s2 s3 X"
    "rep s3 q (plug cs (Br (Br (Br sr w 0 wk wd mr) m 1 mk md ml) p pc pk pd t))"
    using left_rotate_ok [of s2 q "InL p pc pk pd t # cs" sr w 0 wk wd mr m 1 mk md ml] s2(3) by (auto simp: e)
  obtain s4 where s4: "wr m (\<lambda>n. n\<lparr>color := pc\<rparr>) s3 = ok s4" "same s3 s4 X"
    "rep s4 q (plug cs (Br (Br (Br sr w 0 wk wd mr) m pc mk md ml) p pc pk pd t))"
    using rep_color [of s3 q "InL p pc pk pd t # cs" "Br sr w 0 wk wd mr" m 1 mk md ml] s3(3) by (auto simp: e)
  obtain s5 where s5: "util_rbt_black p s4 = ok s5" "same s4 s5 X"
    "rep s5 q (plug cs (Br (Br (Br sr w 0 wk wd mr) m pc mk md ml) p 1 pk pd t))"
    using rep_black [OF s4(3)] by (auto simp: e)
  obtain s6 where s6: "util_rbt_black w s5 = ok s6" "same s5 s6 X"
    "rep s6 q (plug cs (Br (Br (Br sr w 1 wk wd mr) m pc mk md ml) p 1 pk pd t))"
    using rep_black [of s5 q "InL m pc mk md ml # InL p 1 pk pd t # cs" sr w 0 wk wd mr] s5(3) by (auto simp: e)
  obtain s7 where s7: "rbtree_right_rotate p s6 = ok s7" "same s6 s7 X"
    "rep s7 q (plug cs (Br (Br sr w 1 wk wd mr) m pc mk md (Br ml p 1 pk pd t)))"
    using right_rotate_ok [OF s6(3)] by (auto simp: e)
  have s03: "same s s3 X" using s1(2) s2(2) s3(2) by (blast intro: same_trans)
  have ln3: "linked s3 q (InR (Br (Br sr w 0 wk wd mr) m 1 mk md ml) p pc pk pd # cs) t"
    using linked_same [OF ln _ _ s03 nX, of "InR (Br (Br sr w 0 wk wd mr) m 1 mk md ml) p pc pk pd # cs"] s3(3) by simp
  have c3: "heap s3 p = Some \<lparr>key = pk, parent = above q cs, right = addr_of t, left = m, color = pc, vdata = pd\<rparr>"
    using rep_cell [OF s3(3)] by simp
  have c5: "heap s5 m = Some \<lparr>key = mk, parent = p, right = addr_of ml, left = w, color = pc, vdata = md\<rparr>"
    using rep_cell [of s5 q "InL p 1 pk pd t # cs" "Br sr w 0 wk wd mr" m pc mk md ml] s5(3) by simp
  have "delete_fixup_right (addr_of t) s = ok (s7, root s7)"
    using c0 c3 c5 by (simp add: delete_fixup_right_def linked_rd [OF ln] linked_rd [OF ln3] cr s1(1) s2(1) s3(1) s4(1) s5(1) s6(1) s7(1))
  then show ?thesis using s7(3) s03 s4(2) s5(2) s6(2) s7(2) unfolding X_def by (blast intro: same_trans)
qed

lemma delete_right_red_sibling:
  assumes rep: "rep s q (plug cs (Br (Br sr w wc wk wd sl) p pc pk pd t))" and nb: "nil_black s"
    and ln: "linked s q (InR (Br sr w wc wk wd sl) p pc pk pd # cs) t"
    and col: "wc = 0" "col sl = 1"
  shows "\<exists>s'. delete_fixup_right (addr_of t) s = delete_fixup_right (addr_of t) s' \<and>
    rep s' q (plug cs (Br sr w 1 wk wd (Br sl p 0 pk pd t))) \<and>
    same s s' (set (addrs (plug cs (Br (Br sr w wc wk wd sl) p pc pk pd t))))"
proof -
  let ?T = "plug cs (Br (Br sr w wc wk wd sl) p pc pk pd t)"
  define X where "X = set (addrs ?T)"
  have nX: "NIL \<notin> X" using rep_NIL [OF rep] by (simp add: X_def)
  have c0: "heap s p = Some \<lparr>key = pk, parent = above q cs, right = addr_of t, left = w, color = pc, vdata = pd\<rparr>"
    "heap s w = Some \<lparr>key = wk, parent = p, right = addr_of sl, left = addr_of sr, color = wc, vdata = wd\<rparr>"
    using rep_cell [of s q "InL p pc pk pd t # cs" sr w wc wk wd sl] rep_cell [OF rep] rep by simp_all
  have cr: "util_rbt_isred s w = ok True" using c0(2) col by (simp add: util_rbt_isred_def)
  have e: "fst ` set (entries (plug cs (Br (Br sr w c' wk wd sl) p c pk pd t))) = X" for c c'
    by (auto simp: X_def addrs_plug)
  obtain s1 where s1: "util_rbt_black w s = ok s1" "same s s1 X"
    "rep s1 q (plug cs (Br (Br sr w 1 wk wd sl) p pc pk pd t))"
    using rep_black [of s q "InL p pc pk pd t # cs" sr w wc wk wd sl] rep X_def by auto
  obtain s2 where s2: "util_rbt_red p s1 = ok s2" "same s1 s2 X"
    "rep s2 q (plug cs (Br (Br sr w 1 wk wd sl) p 0 pk pd t))"
    using rep_red [OF s1(3)] by (auto simp: e)
  obtain s3 where s3: "rbtree_right_rotate p s2 = ok s3" "same s2 s3 X"
    "rep s3 q (plug cs (Br sr w 1 wk wd (Br sl p 0 pk pd t)))"
    using right_rotate_ok [OF s2(3)] by (auto simp: e)
  have s03: "same s s3 X" using s1(2) s2(2) s3(2) by (blast intro: same_trans)
  have ln1: "linked s1 q (InR (Br sr w 1 wk wd sl) p pc pk pd # cs) t"
    using linked_same [OF ln _ _ s1(2) nX, of "InR (Br sr w 1 wk wd sl) p pc pk pd # cs"] s1(3) by simp
  have ln3: "linked s3 q (InR sl p 0 pk pd # InR sr w 1 wk wd # cs) t"
    using linked_same [OF ln _ _ s03 nX, of "InR sl p 0 pk pd # InR sr w 1 wk wd # cs"] s3(3) by simp
  have c3: "heap s3 p = Some \<lparr>key = pk, parent = w, right = addr_of t, left = addr_of sl, color = 0, vdata = pd\<rparr>"
    using rep_cell [of s3 q "InR sr w 1 wk wd # cs" sl p 0 pk pd t] s3(3) by simp
  have nb3: "nil_black s3" by (rule nil_black_same [OF nb s03 nX])
  have cr3: "util_rbt_isred s3 (addr_of sl) = ok False"
    using colour_reads [OF nb3, of p sl] s3(3) col by (simp add: rep_plug)
  have "delete_fixup_right (addr_of t) s = delete_fixup_right (addr_of t) s3"
    using c0 c3 by (simp add: delete_fixup_right_def [of _ s] delete_fixup_right_def [of _ s3]
        linked_rd [OF ln] linked_rd [OF ln1] linked_rd [OF ln3] cr cr3 s1(1) s2(1) s3(1))
  then show ?thesis using s3(3) s03 unfolding X_def by blast
qed

subsection \<open>The repair loop\<close>

text \<open>
  The focus lacks one black node: its surroundings are fit for one more.  A red focus ends the
  loop, so a turn may leave the surroundings as large as they were when it makes the focus red.
\<close>

definition short :: "hole list \<Rightarrow> rbt \<Rightarrow> bool" where
  "short cs t \<longleftrightarrow> fit cs (bh t + 1) \<and> invc (paint 1 t) \<and> invh t \<and> (col t = 0 \<or> col t = 1)"

definition work :: "hole list \<Rightarrow> rbt \<Rightarrow> nat" where
  "work cs t = length cs + (if col t = 0 then 0 else 1)"

definition shorter :: "util_rbtree_t \<Rightarrow> addr \<Rightarrow> nat \<Rightarrow> rbt \<Rightarrow> (util_rbtree_t \<times> addr) res \<Rightarrow> bool" where
  "shorter s q n t m \<longleftrightarrow>
     (\<exists>s' cs u. m = ok (s', addr_of u) \<and> u \<noteq> Tip \<and> rep s' q (plug cs u) \<and> short cs u \<and>
        work cs u < n \<and> entries (plug cs u) = entries t \<and> same s s' (set (addrs t)))"

lemma shorterI:
  "m = ok (s', addr_of u) \<Longrightarrow> u \<noteq> Tip \<Longrightarrow> rep s' q (plug cs u) \<Longrightarrow> short cs u \<Longrightarrow> work cs u < n \<Longrightarrow>
   entries (plug cs u) = entries t \<Longrightarrow> same s s' (set (addrs t)) \<Longrightarrow> shorter s q n t m"
  unfolding shorter_def by blast

lemma finished:
  assumes "m = ok (s', root s')" "rep s' q t'" "red_black t'" "t' \<noteq> Tip" "1 < n" "entries t' = entries t"
    "same s s' (set (addrs t))"
  shows "shorter s q n t m"
proof (rule shorterI [where cs = "[]" and u = t'])
  show "m = ok (s', addr_of t')" using assms(1,2) by (simp add: rep_def)
  show "short [] t'" using assms(3) by (simp add: short_def red_black_def paint_black)
qed (use assms in \<open>auto simp: work_def\<close>)

lemma plug_not_Tip: "t \<noteq> Tip \<Longrightarrow> plug cs t \<noteq> Tip"
proof (induction cs arbitrary: t)
  case (Cons x cs)
  then show ?case by (cases x) simp_all
qed simp

lemma bh_pos: "invc t \<Longrightarrow> 0 < bh t \<Longrightarrow> \<exists>l a c k d r. t = Br l a c k d r \<and> (c = 0 \<or> c = 1)"
  by (cases t) auto

text \<open>A turn at a black sibling.\<close>

lemma delete_left_black_sibling:
  assumes rep: "rep s q (plug cs (Br t p pc pk pd (Br sl w 1 wk wd sr)))" and nb: "nil_black s"
    and ln: "linked s q (InL p pc pk pd (Br sl w 1 wk wd sr) # cs) t"
    and sh: "short (InL p pc pk pd (Br sl w 1 wk wd sr) # cs) t" "col t = 1"
    and n: "work cs (Br t p pc pk pd (Br sl w 1 wk wd sr)) < n" "1 < n"
  shows "shorter s q n (plug cs (Br t p pc pk pd (Br sl w 1 wk wd sr))) (delete_fixup_left (addr_of t) s)"
proof -
  have f: "pc = 0 \<or> pc = 1" "invc t" "invh t" "invc sl" "invh sl" "invc sr" "invh sr" "bh sl = bh t" "bh sr = bh t"
    "pc = 0 \<Longrightarrow> topc cs = 1 \<and> cs \<noteq> []" "fit cs (if pc = 1 then bh t + 2 else bh t + 1)"
    using sh by (auto simp: short_def paint_black split: if_splits)
  consider "col sl = 1" "col sr = 1" | "col sr = 0" | "col sr = 1" "col sl = 0"
    using invc_col [OF f(4)] invc_col [OF f(6)] by blast
  then show ?thesis
  proof cases
    case 1
    from delete_left_recolour [OF rep nb ln refl 1] obtain s' where
      "delete_fixup_left (addr_of t) s = ok (s', p)" "rep s' q (plug cs (Br t p pc pk pd (Br sl w 0 wk wd sr)))"
      "same s s' (set (addrs (plug cs (Br t p pc pk pd (Br sl w 1 wk wd sr)))))" by blast
    moreover have "short cs (Br t p pc pk pd (Br sl w 0 wk wd sr))"
      using f 1 by (auto simp: short_def sh(2))
    ultimately show ?thesis
      using n by (intro shorterI [where cs = cs and u = "Br t p pc pk pd (Br sl w 0 wk wd sr)" and s' = s'])
        (simp_all add: entries_plug work_def)
  next
    case 2
    then have ne: "sr \<noteq> Tip" by auto
    from delete_left_far_red [OF rep nb ln refl 2] obtain s' where
      "delete_fixup_left (addr_of t) s = ok (s', root s')"
      "rep s' q (plug cs (Br (Br t p 1 pk pd sl) w pc wk wd (paint 1 sr)))"
      "same s s' (set (addrs (plug cs (Br t p pc pk pd (Br sl w 1 wk wd sr)))))" by blast
    moreover have "red_black (plug cs (Br (Br t p 1 pk pd sl) w pc wk wd (paint 1 sr)))"
      using f bh_paint [OF ne 2] inv_paint [of sr] unfolding red_black_plug by auto
    ultimately show ?thesis
      using n by (intro finished [where t' = "plug cs (Br (Br t p 1 pk pd sl) w pc wk wd (paint 1 sr))"])
        (simp_all add: entries_plug plug_not_Tip)
  next
    case 3
    then obtain ml m mk md mr where M: "sl = Br ml m 0 mk md mr" by (cases sl) auto
    from delete_left_near_red [OF rep [unfolded M] nb ln [unfolded M] refl refl 3(1)] obtain s' where
      "delete_fixup_left (addr_of t) s = ok (s', root s')"
      "rep s' q (plug cs (Br (Br t p 1 pk pd ml) m pc mk md (Br mr w 1 wk wd sr)))"
      "same s s' (set (addrs (plug cs (Br t p pc pk pd (Br sl w 1 wk wd sr)))))" unfolding M by blast
    moreover have "red_black (plug cs (Br (Br t p 1 pk pd ml) m pc mk md (Br mr w 1 wk wd sr)))"
      using f 3 M unfolding red_black_plug by auto
    ultimately show ?thesis
      using n by (intro finished [where t' = "plug cs (Br (Br t p 1 pk pd ml) m pc mk md (Br mr w 1 wk wd sr))"])
        (simp_all add: entries_plug plug_not_Tip M)
  qed
qed

lemma delete_left_turn:
  assumes rep: "rep s q (plug (InL p pc pk pd w # cs) t)" and nb: "nil_black s"
    and ln: "linked s q (InL p pc pk pd w # cs) t"
    and sh: "short (InL p pc pk pd w # cs) t" "col t = 1"
  shows "shorter s q (work (InL p pc pk pd w # cs) t) (plug (InL p pc pk pd w # cs) t) (delete_fixup_left (addr_of t) s)"
proof -
  have f: "pc = 0 \<or> pc = 1" "invc t" "invh t" "invc w" "invh w" "bh w = bh t + 1"
    "pc = 0 \<Longrightarrow> col w = 1 \<and> topc cs = 1 \<and> cs \<noteq> []" "fit cs (if pc = 1 then bh t + 2 else bh t + 1)"
    using sh by (auto simp: short_def paint_black split: if_splits)
  obtain sl a wc wk wd sr where W: "w = Br sl a wc wk wd sr" "wc = 0 \<or> wc = 1" using bh_pos [OF f(4)] f(6) by auto
  have rep': "rep s q (plug cs (Br t p pc pk pd (Br sl a wc wk wd sr)))" using rep W(1) by simp
  have ln': "linked s q (InL p pc pk pd (Br sl a wc wk wd sr) # cs) t" using ln W(1) by simp
  have sh': "short (InL p pc pk pd (Br sl a wc wk wd sr) # cs) t" using sh(1) W(1) by simp
  show ?thesis
  proof (cases "wc = 1")
    case True
    have "work cs (Br t p pc pk pd (Br sl a 1 wk wd sr)) < work (InL p pc pk pd w # cs) t" using sh(2) by (simp add: work_def)
    moreover have "1 < work (InL p pc pk pd w # cs) t" using sh(2) by (simp add: work_def)
    ultimately show ?thesis
      using delete_left_black_sibling [OF rep' [unfolded True] nb ln' [unfolded True] sh' [unfolded True] sh(2)] W(1) True by simp
  next
    case False
    then have wc: "wc = 0" "pc = 1" "col sl = 1" "col sr = 1" "bh sl = bh t + 1" "invc sl" "invh sl"
      "bh sr = bh t + 1" "invc sr" "invh sr"
      using W f by auto
    from delete_left_red_sibling [OF rep' nb ln' wc(1) wc(3)] obtain s' where
      s': "delete_fixup_left (addr_of t) s = delete_fixup_left (addr_of t) s'"
      "rep s' q (plug cs (Br (Br t p 0 pk pd sl) a 1 wk wd sr))"
      "same s s' (set (addrs (plug cs (Br t p pc pk pd w))))" using W(1) by auto
    obtain ul u uc uk ud ur where U: "sl = Br ul u uc uk ud ur" "uc = 1" using bh_pos [OF wc(6)] wc(3,5) by auto
    have NX: "NIL \<notin> set (addrs (plug cs (Br t p pc pk pd w)))" using rep_NIL [OF rep] by simp
    have rep2: "rep s' q (plug (InL a 1 wk wd sr # cs) (Br t p 0 pk pd (Br ul u 1 uk ud ur)))" using s'(2) U by simp
    have ln2: "linked s' q (InL p 0 pk pd (Br ul u 1 uk ud ur) # InL a 1 wk wd sr # cs) t"
      using linked_same [OF ln _ _ s'(3) NX, of "InL p 0 pk pd (Br ul u 1 uk ud ur) # InL a 1 wk wd sr # cs"] s'(2) U by simp
    have sh2: "short (InL p 0 pk pd (Br ul u 1 uk ud ur) # InL a 1 wk wd sr # cs) t"
      using f wc sh(2) U by (simp add: short_def paint_black)
    have "work (InL a 1 wk wd sr # cs) (Br t p 0 pk pd (Br ul u 1 uk ud ur)) < work (InL p pc pk pd w # cs) t"
      "1 < work (InL p pc pk pd w # cs) t" using sh(2) by (simp_all add: work_def)
    then have "shorter s' q (work (InL p pc pk pd w # cs) t) (plug (InL a 1 wk wd sr # cs) (Br t p 0 pk pd (Br ul u 1 uk ud ur)))
        (delete_fixup_left (addr_of t) s')"
      by (rule delete_left_black_sibling [OF rep2 nil_black_same [OF nb s'(3) NX] ln2 sh2 sh(2)])
    moreover have "entries (plug (InL a 1 wk wd sr # cs) (Br t p 0 pk pd (Br ul u 1 uk ud ur))) = entries (plug (InL p pc pk pd w # cs) t)"
      by (simp add: entries_plug W U)
    ultimately show ?thesis
      using s'(3) unfolding shorter_def s'(1) by (fastforce intro: same_trans)
  qed
qed

lemma delete_right_black_sibling:
  assumes rep: "rep s q (plug cs (Br (Br sr w 1 wk wd sl) p pc pk pd t))" and nb: "nil_black s"
    and ln: "linked s q (InR (Br sr w 1 wk wd sl) p pc pk pd # cs) t"
    and sh: "short (InR (Br sr w 1 wk wd sl) p pc pk pd # cs) t" "col t = 1"
    and n: "work cs (Br (Br sr w 1 wk wd sl) p pc pk pd t) < n" "1 < n"
  shows "shorter s q n (plug cs (Br (Br sr w 1 wk wd sl) p pc pk pd t)) (delete_fixup_right (addr_of t) s)"
proof -
  have f: "pc = 0 \<or> pc = 1" "invc t" "invh t" "invc sl" "invh sl" "invc sr" "invh sr" "bh sl = bh t" "bh sr = bh t"
    "pc = 0 \<Longrightarrow> topc cs = 1 \<and> cs \<noteq> []" "fit cs (if pc = 1 then bh t + 2 else bh t + 1)"
    using sh by (auto simp: short_def paint_black split: if_splits)
  consider "col sl = 1" "col sr = 1" | "col sr = 0" | "col sr = 1" "col sl = 0"
    using invc_col [OF f(4)] invc_col [OF f(6)] by blast
  then show ?thesis
  proof cases
    case 1
    from delete_right_recolour [OF rep nb ln refl 1] obtain s' where
      "delete_fixup_right (addr_of t) s = ok (s', p)" "rep s' q (plug cs (Br (Br sr w 0 wk wd sl) p pc pk pd t))"
      "same s s' (set (addrs (plug cs (Br (Br sr w 1 wk wd sl) p pc pk pd t))))" by blast
    moreover have "short cs (Br (Br sr w 0 wk wd sl) p pc pk pd t)"
      using f 1 by (auto simp: short_def sh(2))
    ultimately show ?thesis
      using n by (intro shorterI [where cs = cs and u = "Br (Br sr w 0 wk wd sl) p pc pk pd t" and s' = s'])
        (simp_all add: entries_plug work_def)
  next
    case 2
    then have ne: "sr \<noteq> Tip" by auto
    from delete_right_far_red [OF rep nb ln refl 2] obtain s' where
      "delete_fixup_right (addr_of t) s = ok (s', root s')"
      "rep s' q (plug cs (Br (paint 1 sr) w pc wk wd (Br sl p 1 pk pd t)))"
      "same s s' (set (addrs (plug cs (Br (Br sr w 1 wk wd sl) p pc pk pd t))))" by blast
    moreover have "red_black (plug cs (Br (paint 1 sr) w pc wk wd (Br sl p 1 pk pd t)))"
      using f bh_paint [OF ne 2] inv_paint [of sr] unfolding red_black_plug by auto
    ultimately show ?thesis
      using n by (intro finished [where t' = "plug cs (Br (paint 1 sr) w pc wk wd (Br sl p 1 pk pd t))"])
        (simp_all add: entries_plug plug_not_Tip)
  next
    case 3
    then obtain ml m mk md mr where M: "sl = Br mr m 0 mk md ml" by (cases sl) auto
    from delete_right_near_red [OF rep [unfolded M] nb ln [unfolded M] refl refl 3(1)] obtain s' where
      "delete_fixup_right (addr_of t) s = ok (s', root s')"
      "rep s' q (plug cs (Br (Br sr w 1 wk wd mr) m pc mk md (Br ml p 1 pk pd t)))"
      "same s s' (set (addrs (plug cs (Br (Br sr w 1 wk wd sl) p pc pk pd t))))" unfolding M by blast
    moreover have "red_black (plug cs (Br (Br sr w 1 wk wd mr) m pc mk md (Br ml p 1 pk pd t)))"
      using f 3 M unfolding red_black_plug by auto
    ultimately show ?thesis
      using n by (intro finished [where t' = "plug cs (Br (Br sr w 1 wk wd mr) m pc mk md (Br ml p 1 pk pd t))"])
        (simp_all add: entries_plug plug_not_Tip M)
  qed
qed

lemma delete_right_turn:
  assumes rep: "rep s q (plug (InR w p pc pk pd # cs) t)" and nb: "nil_black s"
    and ln: "linked s q (InR w p pc pk pd # cs) t"
    and sh: "short (InR w p pc pk pd # cs) t" "col t = 1"
  shows "shorter s q (work (InR w p pc pk pd # cs) t) (plug (InR w p pc pk pd # cs) t) (delete_fixup_right (addr_of t) s)"
proof -
  have f: "pc = 0 \<or> pc = 1" "invc t" "invh t" "invc w" "invh w" "bh w = bh t + 1"
    "pc = 0 \<Longrightarrow> col w = 1 \<and> topc cs = 1 \<and> cs \<noteq> []" "fit cs (if pc = 1 then bh t + 2 else bh t + 1)"
    using sh by (auto simp: short_def paint_black split: if_splits)
  obtain sl a wc wk wd sr where W: "w = Br sr a wc wk wd sl" "wc = 0 \<or> wc = 1" using bh_pos [OF f(4)] f(6) by auto
  have rep': "rep s q (plug cs (Br (Br sr a wc wk wd sl) p pc pk pd t))" using rep W(1) by simp
  have ln': "linked s q (InR (Br sr a wc wk wd sl) p pc pk pd # cs) t" using ln W(1) by simp
  have sh': "short (InR (Br sr a wc wk wd sl) p pc pk pd # cs) t" using sh(1) W(1) by simp
  show ?thesis
  proof (cases "wc = 1")
    case True
    have "work cs (Br (Br sr a 1 wk wd sl) p pc pk pd t) < work (InR w p pc pk pd # cs) t" using sh(2) by (simp add: work_def)
    moreover have "1 < work (InR w p pc pk pd # cs) t" using sh(2) by (simp add: work_def)
    ultimately show ?thesis
      using delete_right_black_sibling [OF rep' [unfolded True] nb ln' [unfolded True] sh' [unfolded True] sh(2)] W(1) True by simp
  next
    case False
    then have wc: "wc = 0" "pc = 1" "col sl = 1" "col sr = 1" "bh sl = bh t + 1" "invc sl" "invh sl"
      "bh sr = bh t + 1" "invc sr" "invh sr"
      using W f by auto
    from delete_right_red_sibling [OF rep' nb ln' wc(1) wc(3)] obtain s' where
      s': "delete_fixup_right (addr_of t) s = delete_fixup_right (addr_of t) s'"
      "rep s' q (plug cs (Br sr a 1 wk wd (Br sl p 0 pk pd t)))"
      "same s s' (set (addrs (plug cs (Br w p pc pk pd t))))" using W(1) by auto
    obtain ul u uc uk ud ur where U: "sl = Br ur u uc uk ud ul" "uc = 1" using bh_pos [OF wc(6)] wc(3,5) by auto
    have NX: "NIL \<notin> set (addrs (plug cs (Br w p pc pk pd t)))" using rep_NIL [OF rep] by simp
    have rep2: "rep s' q (plug (InR sr a 1 wk wd # cs) (Br (Br ur u 1 uk ud ul) p 0 pk pd t))" using s'(2) U by simp
    have ln2: "linked s' q (InR (Br ur u 1 uk ud ul) p 0 pk pd # InR sr a 1 wk wd # cs) t"
      using linked_same [OF ln _ _ s'(3) NX, of "InR (Br ur u 1 uk ud ul) p 0 pk pd # InR sr a 1 wk wd # cs"] s'(2) U by simp
    have sh2: "short (InR (Br ur u 1 uk ud ul) p 0 pk pd # InR sr a 1 wk wd # cs) t"
      using f wc sh(2) U by (simp add: short_def paint_black)
    have "work (InR sr a 1 wk wd # cs) (Br (Br ur u 1 uk ud ul) p 0 pk pd t) < work (InR w p pc pk pd # cs) t"
      "1 < work (InR w p pc pk pd # cs) t" using sh(2) by (simp_all add: work_def)
    then have "shorter s' q (work (InR w p pc pk pd # cs) t) (plug (InR sr a 1 wk wd # cs) (Br (Br ur u 1 uk ud ul) p 0 pk pd t))
        (delete_fixup_right (addr_of t) s')"
      by (rule delete_right_black_sibling [OF rep2 nil_black_same [OF nb s'(3) NX] ln2 sh2 sh(2)])
    moreover have "entries (plug (InR sr a 1 wk wd # cs) (Br (Br ur u 1 uk ud ul) p 0 pk pd t)) = entries (plug (InR w p pc pk pd # cs) t)"
      by (simp add: entries_plug W U)
    ultimately show ?thesis
      using s'(3) unfolding shorter_def s'(1) by (fastforce intro: same_trans)
  qed
qed

text \<open>The repair stops at the root or at a red node, which it paints black.\<close>

lemma paint_hole:
  assumes rep: "rep s q (plug cs t)" and nb: "nil_black s" and t: "t = Tip \<Longrightarrow> cs = []"
  shows "\<exists>s'. util_rbt_black (addr_of t) s = ok s' \<and> rep s' q (plug cs (paint 1 t)) \<and> nil_black s' \<and>
    same s s' (insert NIL (set (addrs (plug cs t))))"
proof (cases t)
  case Tip
  then obtain n where "heap s NIL = Some n" "color n = 1" "cs = []" using nb t by (auto simp: nil_black_def)
  then show ?thesis using rep Tip by (auto simp: util_rbt_black_def same_def nil_black_def rep_def)
next
  case (Br l a c k d r)
  obtain s' where s': "util_rbt_black a s = ok s'" "rep s' q (plug cs (Br l a 1 k d r))" "same s s' (set (addrs (plug cs t)))"
    using rep_black [of s q cs l a c k d r] rep Br by auto
  then show ?thesis using nil_black_same [OF nb s'(3) rep_NIL [OF rep]] by (auto simp: Br same_def)
qed

lemma delete_fixup_stop:
  assumes rep: "rep s q (plug cs t)" and nb: "nil_black s" and sh: "short cs t" and stop: "cs = [] \<or> col t \<noteq> 1"
  shows "\<exists>s' t'. rbtree_delete_fixup (addr_of t) s = ok s' \<and> rep s' q t' \<and> red_black t' \<and> nil_black s' \<and>
    entries t' = entries (plug cs t) \<and> same s s' (insert NIL (set (addrs (plug cs t))))"
proof -
  have f: "fit cs (bh t + 1)" "invc (paint 1 t)" "invh t" "col t = 0 \<or> col t = 1"
    using sh by (simp_all add: short_def)
  have "tree (heap s) (above q cs) t" using rep by (simp add: rep_plug)
  from colour_reads(2) [OF nb this]
  have "rbtree_delete_fixup (addr_of t) s = util_rbt_black (addr_of t) s"
    using stop rep by (subst rbtree_delete_fixup.simps) (auto simp: rep_def)
  moreover have "fit cs (bh (paint 1 t))"
    using f(1,4) bh_paint [of t] stop by (cases t) auto
  then have "red_black (plug cs (paint 1 t))"
    using f(2,3) inv_paint [of t] unfolding red_black_plug by simp
  moreover have "entries (plug cs (paint 1 t)) = entries (plug cs t)" by (simp add: entries_plug)
  moreover have "t = Tip \<Longrightarrow> cs = []" using stop by auto
  ultimately show ?thesis using paint_hole [OF rep nb] by metis
qed

text \<open>Elsewhere the loop makes one turn, on the side where the short subtree hangs.\<close>

lemma delete_fixup_enter:
  assumes rep: "rep s q (plug cs t)" and nb: "nil_black s" and ln: "linked s q cs t" and sh: "short cs t"
    and go: "cs \<noteq> []" "col t = 1"
  shows "\<exists>s1 ds u. rbtree_delete_fixup (addr_of t) s = rbtree_delete_fixup (addr_of u) s1 \<and>
    u \<noteq> Tip \<and> rep s1 q (plug ds u) \<and> short ds u \<and> work ds u < work cs t \<and>
    entries (plug ds u) = entries (plug cs t) \<and> same s s1 (set (addrs (plug cs t)))"
proof -
  obtain x ds where cs: "cs = x # ds" using go(1) by (cases cs) auto
  have "tree (heap s) (above q cs) t" using rep by (simp add: rep_plug)
  note isb = colour_reads(2) [OF nb this]
  have d: "around cs \<inter> set (addrs t) = {}" "NIL \<notin> around cs"
    using rep unfolding rep_plug set_map addrs_plug distinct_plug by auto
  then have off: "addr_of t \<notin> around cs" using addr_of_in [of t] by (cases "t = Tip"; force)
  have "root s \<in> around cs" using root_around [OF go(1), of t] rep by (simp add: rep_def)
  then have nr: "addr_of t \<noteq> root s" using off by auto
  let ?turn = "case x of InL _ _ _ _ _ \<Rightarrow> delete_fixup_left (addr_of t) s | InR _ _ _ _ _ \<Rightarrow> delete_fixup_right (addr_of t) s"
  have turn: "rbtree_delete_fixup (addr_of t) s = bnd ?turn (\<lambda>r. rbtree_delete_fixup (snd r) (fst r)) \<and>
    shorter s q (work cs t) (plug cs t) ?turn"
  proof (cases x)
    case x: (InL p pc pk pd w)
    have "heap s p = Some \<lparr>key = pk, parent = above q ds, right = addr_of w, left = addr_of t, color = pc, vdata = pd\<rparr>"
      using rep_cell [of s q ds t p pc pk pd w] rep by (simp add: cs x)
    then show ?thesis
      using delete_left_turn [of s q p pc pk pd w ds t] rep nb ln sh go nr isb linked_rd [OF ln]
      by (subst rbtree_delete_fixup.simps) (simp add: cs x)
  next
    case x: (InR w p pc pk pd)
    have c: "heap s p = Some \<lparr>key = pk, parent = above q ds, right = addr_of t, left = addr_of w, color = pc, vdata = pd\<rparr>"
      using rep_cell [of s q ds w p pc pk pd t] rep by (simp add: cs x)
    have "w \<noteq> Tip" using sh by (auto simp: short_def cs x)
    then have "addr_of w \<in> around cs" using addr_of_in [of w] by (simp add: cs x)
    then have "addr_of t \<noteq> addr_of w" using off by auto
    then show ?thesis
      using delete_right_turn [of s q w p pc pk pd ds t] c rep nb ln sh go nr isb linked_rd [OF ln]
      by (subst rbtree_delete_fixup.simps) (simp add: cs x)
  qed
  obtain s1 ds u where u: "?turn = ok (s1, addr_of u)" "u \<noteq> Tip" "rep s1 q (plug ds u)" "short ds u" "work ds u < work cs t"
    "entries (plug ds u) = entries (plug cs t)" "same s s1 (set (addrs (plug cs t)))"
    using turn unfolding shorter_def by blast
  then have "rbtree_delete_fixup (addr_of t) s = rbtree_delete_fixup (addr_of u) s1" using turn by simp
  then show ?thesis using u(2-7) by blast
qed

lemma delete_fixup_ok:
  assumes "rep s q (plug cs t)" "nil_black s" "cs = [] \<or> linked s q cs t" "short cs t"
  shows "\<exists>s' t'. rbtree_delete_fixup (addr_of t) s = ok s' \<and> rep s' q t' \<and> red_black t' \<and> nil_black s' \<and>
    entries t' = entries (plug cs t) \<and> same s s' (insert NIL (set (addrs (plug cs t))))"
  using assms
proof (induction "work cs t" arbitrary: s cs t rule: less_induct)
  case less
  note rep = less.prems(1) and nb = less.prems(2) and sh = less.prems(4)
  show ?case
  proof (cases "cs = [] \<or> col t \<noteq> 1")
    case True
    then show ?thesis by (rule delete_fixup_stop [OF rep nb sh])
  next
    case False
    then obtain s1 ds u where s1: "rbtree_delete_fixup (addr_of t) s = rbtree_delete_fixup (addr_of u) s1"
      "u \<noteq> Tip" "rep s1 q (plug ds u)" "short ds u" "work ds u < work cs t" "entries (plug ds u) = entries (plug cs t)"
      "same s s1 (set (addrs (plug cs t)))"
      using delete_fixup_enter [OF rep nb _ sh] less.prems(3) by blast
    obtain s2 t2 where "rbtree_delete_fixup (addr_of u) s1 = ok s2" "rep s2 q t2" "red_black t2" "nil_black s2"
      "entries t2 = entries (plug cs t)" "same s1 s2 (insert NIL (set (addrs (plug cs t))))"
      using less.hyps [OF s1(5,3) nil_black_same [OF nb s1(7) rep_NIL [OF rep]] _ s1(4)] rep_linked [OF s1(3,2)] s1(6) by auto
    then show ?thesis using s1(1,7) by (auto simp: same_def)
  qed
qed

end
