(* ===== verification/RbDelete.thy ===== *)
theory RbDelete
  imports RbDelFix
begin

text \<open>
  Deletion from the red-black tree: the removal of a node with at most one child, or of the
  successor that then replaces the node, and the whole of \<open>util_rbtree_delete\<close>: it ends, it keeps
  the tree a red-black search tree and removes exactly the entry of the node it is given.
\<close>

subsection \<open>Taking a node out\<close>

text \<open>\<open>temp\<close> has at most one child, \<open>sub\<close>; its parent may be the node to delete.\<close>

lemma delete_unlink_ok:
  assumes p: "path (heap s) q cs temp" "cs \<noteq> []" and n: "heap s temp = Some n" "parent n = above q cs"
    and sub: "tree (heap s) temp sub" and nb: "nil_black s"
    and d: "distinct (map fst (before cs @ after cs))" "distinct (temp # addrs sub)" "around cs \<inter> set (temp # addrs sub) = {}"
      "NIL \<notin> around cs" "temp \<noteq> NIL" "NIL \<notin> set (addrs sub)"
  shows "\<exists>s'. delete_unlink node temp (addr_of sub) s = ok s' \<and> path (heap s') q cs (addr_of sub) \<and>
    tree (heap s') (if above q cs = node then temp else above q cs) sub \<and>
    (\<exists>m. heap s' (addr_of sub) = Some m \<and> parent m = (if above q cs = node then temp else above q cs)) \<and>
    heap s' temp = Some n \<and> nil_black s' \<and> root s' = root s \<and> same s s' (insert NIL (around cs \<union> set (addrs sub)))"
proof -
  let ?p = "if above q cs = node then temp else above q cs"
  obtain x ds where cs: "cs = x # ds" using p(2) by (cases cs) auto
  have ex: "\<exists>m. heap s (addr_of sub) = Some m" using nb sub by (cases sub) (auto simp: nil_black_def)
  then obtain m where m: "heap s (addr_of sub) = Some m" by blast
  define s1 where "s1 = s\<lparr>heap := (heap s)(addr_of sub \<mapsto> m\<lparr>parent := ?p\<rparr>)\<rparr>"
  have nt: "addr_of sub \<noteq> temp" "addr_of sub \<notin> around cs" using d addr_of_in [of sub] by (cases "sub = Tip"; auto)+
  have w1: "wr (addr_of sub) (\<lambda>n. n\<lparr>parent := ?p\<rparr>) s = ok s1" using m by (simp add: s1_def)
  have t1: "tree (heap s1) ?p sub" "heap s1 temp = Some n" "path (heap s1) q cs temp" "nil_black s1"
    "heap s1 (addr_of sub) = Some (m\<lparr>parent := ?p\<rparr>)"
    using sub m nt d n p nb by (cases sub; auto simp: s1_def nil_black_def)+
  show ?thesis
  proof (cases x)
    case x: (InL b c k dd r)
    have c: "heap s1 b = Some \<lparr>key = k, parent = above q ds, right = addr_of r, left = temp, color = c, vdata = dd\<rparr>"
      "tree (heap s1) b r" "path (heap s1) q ds b" using t1(3) by (simp_all add: cs x)
    have b: "b \<notin> set (addrs sub)" "b \<noteq> temp" "b \<notin> around ds" "b \<notin> set (addrs r)" "b \<noteq> NIL" "b \<noteq> addr_of sub"
      using d nt by (auto simp: cs x around_def)
    define s2 where "s2 = s1\<lparr>heap := (heap s1)(b \<mapsto> \<lparr>key = k, parent = above q ds, right = addr_of r, left = addr_of sub, color = c, vdata = dd\<rparr>)\<rparr>"
    have "delete_unlink node temp (addr_of sub) s = ok s2"
      using n t1(2) c(1) w1 by (auto simp: delete_unlink_def cs x s2_def)
    moreover have "path (heap s2) q cs (addr_of sub)" using c b by (simp add: cs x s2_def)
    moreover have "tree (heap s2) ?p sub" "heap s2 temp = Some n" "nil_black s2" "heap s2 (addr_of sub) = Some (m\<lparr>parent := ?p\<rparr>)"
      using t1 b by (simp_all add: s2_def nil_black_def)
    moreover have "root s2 = root s" "same s s2 (insert NIL (around cs \<union> set (addrs sub)))"
      using addr_of_in [of sub] by (cases "sub = Tip"; simp add: s2_def s1_def same_def cs x)+
    ultimately show ?thesis by auto
  next
    case x: (InR l b c k dd)
    have c: "heap s1 b = Some \<lparr>key = k, parent = above q ds, right = temp, left = addr_of l, color = c, vdata = dd\<rparr>"
      "tree (heap s1) b l" "path (heap s1) q ds b" using t1(3) by (simp_all add: cs x)
    have b: "b \<notin> set (addrs sub)" "b \<noteq> temp" "b \<notin> around ds" "b \<notin> set (addrs l)" "b \<noteq> NIL" "b \<noteq> addr_of sub" "temp \<noteq> addr_of l"
      using d nt addr_of_in [of l] by (cases "l = Tip"; auto simp: cs x around_def)+
    define s2 where "s2 = s1\<lparr>heap := (heap s1)(b \<mapsto> \<lparr>key = k, parent = above q ds, right = addr_of sub, left = addr_of l, color = c, vdata = dd\<rparr>)\<rparr>"
    have "delete_unlink node temp (addr_of sub) s = ok s2"
      using n t1(2) c(1) w1 b by (auto simp: delete_unlink_def cs x s2_def)
    moreover have "path (heap s2) q cs (addr_of sub)" using c b by (simp add: cs x s2_def)
    moreover have "tree (heap s2) ?p sub" "heap s2 temp = Some n" "nil_black s2" "heap s2 (addr_of sub) = Some (m\<lparr>parent := ?p\<rparr>)"
      using t1 b by (simp_all add: s2_def nil_black_def)
    moreover have "root s2 = root s" "same s s2 (insert NIL (around cs \<union> set (addrs sub)))"
      using addr_of_in [of sub] by (cases "sub = Tip"; simp add: s2_def s1_def same_def cs x)+
    ultimately show ?thesis by auto
  qed
qed

text \<open>\<open>temp\<close>, which is out of the tree, takes the place of \<open>node\<close>.\<close>

lemma delete_replace_ok:
  assumes p: "path (heap s) q cs a" and root: "cs = [] \<Longrightarrow> root s = a" "cs \<noteq> [] \<Longrightarrow> root s \<in> around cs"
    and na: "heap s a = Some na" "parent na = above q cs" "left na = addr_of l" "right na = addr_of r"
    and nm: "heap s m = Some nm" and t: "tree (heap s) pl l" "tree (heap s) pr r"
    and d: "distinct (a # m # addrs l @ addrs r)" "around cs \<inter> set (a # m # addrs l @ addrs r) = {}"
      "distinct (map fst (before cs @ after cs))" "NIL \<notin> set (a # m # addrs l @ addrs r)"
  shows "\<exists>s'. delete_replace a m s = ok s' \<and> path (heap s') q cs m \<and>
    heap s' m = Some \<lparr>key = key nm, parent = above q cs, right = addr_of r, left = addr_of l, color = color na, vdata = vdata nm\<rparr> \<and>
    tree (heap s') m l \<and> tree (heap s') m r \<and> heap s' a = Some na \<and> root s' = (if cs = [] then m else root s) \<and>
    same s s' (around cs \<union> insert m (set (addrs l) \<union> set (addrs r)))"
proof -
  let ?F = "set (addrs l) \<union> set (addrs r)"
  define s1 where "s1 = s\<lparr>heap := (heap s)(m \<mapsto> nm\<lparr>parent := above q cs\<rparr>)\<rparr>"
  have "path (heap s1) q cs a" "heap s1 a = Some na" "a \<notin> around cs" using p na(1) d(1,2) by (auto simp: s1_def)
  moreover have "cs = [] \<Longrightarrow> root s1 = a" "cs \<noteq> [] \<Longrightarrow> root s1 \<in> around cs" using root by (simp_all add: s1_def)
  moreover have "\<forall>z l a' c k d. cs = InR l a' c k d # z \<longrightarrow> addr_of l \<noteq> a"
  proof (intro allI impI notI)
    fix z u a' c k d'
    assume cs: "cs = InR u a' c k d' # z" and x: "addr_of u = a"
    then have "u \<noteq> Tip" using d(4) by auto
    then have "a \<in> around cs" using addr_of_in [of u] cs x by simp
    then show False using d(2) by simp
  qed
  ultimately obtain s2 where s2: "relink a m s1 = ok s2" "path (heap s2) q cs m"
    "root s2 = (if cs = [] then m else root s)" "same s1 s2 (around cs)"
    using relink_ok [of s1 q cs a na m] na(2) d(3) by (auto simp: s1_def)
  have keep: "heap s2 b = (if b = m then Some (nm\<lparr>parent := above q cs\<rparr>) else heap s b)" if "b \<notin> around cs" for b
    using that s2(4) by (auto simp: same_def s1_def)
  have t2: "tree (heap s2) pl l" "tree (heap s2) pr r"
  proof -
    have "tree (heap s2) v u = tree (heap s) v u"
      if "\<forall>b. b \<in> around cs \<longrightarrow> b \<notin> set (addrs u)" "m \<notin> set (addrs u)" for v u
      using that keep by (intro tree_frame) metis
    then show "tree (heap s2) pl l" "tree (heap s2) pr r" using t d(1,2) by (simp_all add: disjoint_iff)
  qed
  have c2: "heap s2 m = Some (nm\<lparr>parent := above q cs\<rparr>)" "heap s2 a = Some na"
    using keep [of m] keep [of a] na(1) d(1,2) by auto
  define s3 where "s3 = s2\<lparr>heap := (heap s2)(m \<mapsto> nm\<lparr>parent := above q cs, right := addr_of r\<rparr>)\<rparr>"
  define s4 where "s4 = s3\<lparr>heap := (heap s3)(m \<mapsto> nm\<lparr>parent := above q cs, right := addr_of r, left := addr_of l\<rparr>)\<rparr>"
  have w: "wr m (\<lambda>n. n\<lparr>right := addr_of r\<rparr>) s2 = ok s3" "wr m (\<lambda>n. n\<lparr>left := addr_of l\<rparr>) s3 = ok s4"
    using c2(1) by (simp_all add: s3_def s4_def)
  have t4: "tree (heap s4) pl l" "tree (heap s4) pr r" "path (heap s4) q cs m" "heap s3 a = Some na" "heap s4 a = Some na"
    "heap s4 m = Some (nm\<lparr>parent := above q cs, right := addr_of r, left := addr_of l\<rparr>)"
    using t2 s2(2) c2 d(1,2) by (simp_all add: s3_def s4_def)
  obtain s5 where s5: "(if addr_of l \<noteq> NIL then wr (addr_of l) (\<lambda>n. n\<lparr>parent := m\<rparr>) s4 else ok s4) = ok s5"
    "tree (heap s5) m l" "root s5 = root s4" "same s4 s5 (set (addrs l))"
    using give_parent [OF t4(1), of m] d(1,4) by auto
  have off5: "heap s5 b = heap s4 b" if "b \<notin> set (addrs l)" for b using s5(4) that by (simp add: same_def)
  have "tree (heap s5) pr r = tree (heap s4) pr r" by (rule tree_frame, rule off5) (use d(1) in auto)
  then obtain s6 where s6: "(if addr_of r \<noteq> NIL then wr (addr_of r) (\<lambda>n. n\<lparr>parent := m\<rparr>) s5 else ok s5) = ok s6"
    "tree (heap s6) m r" "root s6 = root s5" "same s5 s6 (set (addrs r))"
    using give_parent [of s5 pr r m] t4(2) d(1,4) by auto
  have off: "heap s6 b = heap s4 b" if "b \<notin> ?F" for b using s6(4) off5 that by (simp add: same_def)
  have t6: "path (heap s6) q cs m" "tree (heap s6) m l"
    using t4(3) s5(2) path_frame [of cs "heap s6" "heap s4" q m] tree_frame [of l "heap s6" "heap s5" m] off s6(4) d(1,2)
    by (auto simp: same_def disjoint_iff)
  have c6: "heap s5 m = Some (nm\<lparr>parent := above q cs, right := addr_of r, left := addr_of l\<rparr>)"
    "heap s6 m = Some (nm\<lparr>parent := above q cs, right := addr_of r, left := addr_of l\<rparr>)" "heap s6 a = Some na"
    using t4(5,6) off [of m] off [of a] off5 [of m] d(1) by auto
  define s7 where "s7 = s6\<lparr>heap := (heap s6)(m \<mapsto> nm\<lparr>parent := above q cs, right := addr_of r, left := addr_of l, color := color na\<rparr>)\<rparr>"
  have w7: "wr m (\<lambda>n. n\<lparr>color := color na\<rparr>) s6 = ok s7" using c6(2) by (simp add: s7_def)
  have "wr m (\<lambda>n. n\<lparr>parent := above q cs\<rparr>) s = ok s1" using nm by (simp add: s1_def)
  then have "delete_replace a m s = ok s7"
    using na s2(1) c2(2) w t4(4,6) s5(1) c6(1,3) s6(1) w7 by (simp add: delete_replace_def)
  moreover have "path (heap s7) q cs m" "tree (heap s7) m l" "tree (heap s7) m r" "heap s7 a = Some na"
    using t6 s6(2) c6(3) d(1,2) by (simp_all add: s7_def)
  moreover have "heap s7 m = Some \<lparr>key = key nm, parent = above q cs, right = addr_of r, left = addr_of l, color = color na, vdata = vdata nm\<rparr>"
    by (cases nm) (simp add: s7_def)
  moreover have "root s7 = (if cs = [] then m else root s)" using s2(3) s5(3) s6(3) by (simp add: s7_def s3_def s4_def)
  moreover have "same s s7 (around cs \<union> insert m ?F)"
    using s2(4) s5(4) s6(4) by (simp add: same_def s7_def s4_def s3_def s1_def)
  ultimately show ?thesis by blast
qed

subsection \<open>The place of the successor\<close>

definition all_left :: "hole list \<Rightarrow> bool" where
  "all_left es \<longleftrightarrow> (\<forall>x \<in> set es. \<exists>a c k d r. x = InL a c k d r)"

lemma all_left_before: "all_left es \<Longrightarrow> before es = []"
proof (induction es)
  case (Cons x es)
  then show ?case by (cases x) (auto simp: all_left_def)
qed simp

lemma addr_not_NIL: "NIL \<notin> set (addrs t) \<Longrightarrow> t \<noteq> Tip \<Longrightarrow> addr_of t \<noteq> NIL"
  by (metis addr_of_in)

lemma leftmost:
  "r \<noteq> Tip \<Longrightarrow> tree (heap s) p r \<Longrightarrow> NIL \<notin> set (addrs r) \<Longrightarrow>
   \<exists>es m mc mk md mr. r = plug es (Br Tip m mc mk md mr) \<and> all_left es \<and> min_loop s (addr_of r) NIL = ok m"
proof (induction r arbitrary: p)
  case (Br l a c k d r)
  show ?case
  proof (cases "l = Tip")
    case True
    then have "min_loop s a NIL = ok a" using Br.prems by (subst min_loop.simps) simp
    then show ?thesis using True by (intro exI [of _ "[]"]) (auto simp: all_left_def)
  next
    case False
    then obtain es m mc mk md mr where l: "l = plug es (Br Tip m mc mk md mr)" "all_left es" "min_loop s (addr_of l) NIL = ok m"
      using Br.IH(1) [of a] Br.prems by auto
    have "addr_of l \<noteq> NIL" by (rule addr_not_NIL [OF _ False]) (use Br.prems in simp)
    then have "min_loop s a NIL = ok m" using Br.prems l(3) by (subst min_loop.simps) simp
    moreover have "Br l a c k d r = plug (es @ [InL a c k d r]) (Br Tip m mc mk md mr)"
      by (simp add: plug_append l(1))
    moreover have "all_left (es @ [InL a c k d r])" using l(2) by (auto simp: all_left_def)
    ultimately show ?thesis by (metis addr_of.simps(2))
  qed
qed simp

lemma path_append:
  "path h q (es @ ds) (addr_of t) \<longleftrightarrow> path h (above q ds) es (addr_of t) \<and> path h q ds (addr_of (plug es t))"
proof (induction es arbitrary: t)
  case (Cons x es)
  have ab: "above q (es @ ds) = above (above q ds) es" for es by (cases es) simp_all
  show ?case
  proof (cases x)
    case (InL a c k d r)
    then show ?thesis using Cons.IH [of "Br t a c k d r"] by (simp add: ab)
  next
    case (InR l a c k d)
    then show ?thesis using Cons.IH [of "Br l a c k d t"] by (simp add: ab)
  qed
qed simp

lemma above_append: "above q (es @ ds) = above (above q ds) es"
  by (cases es) simp_all

lemma before_append: "before (es @ ds) = before ds @ before es"
proof (induction es)
  case (Cons x es)
  then show ?case by (cases x) simp_all
qed simp

lemma after_append: "after (es @ ds) = after es @ after ds"
proof (induction es)
  case (Cons x es)
  then show ?case by (cases x) simp_all
qed simp

lemma fit_rename: "fit (es @ InR l a c k d # cs) n \<longleftrightarrow> fit (es @ InR l a' c k' d' # cs) n"
proof (induction es arbitrary: n)
  case (Cons x es)
  have "topc (es @ InR l a c k d # cs) = topc (es @ InR l a' c k' d' # cs)" by (cases es) simp_all
  then show ?case using Cons by simp
qed simp

lemma topc_rename: "topc (es @ InR l a c k d # cs) = topc (es @ InR l a' c k' d' # cs)"
  by (cases es) simp_all

subsection \<open>The end of a deletion\<close>

lemma same_mono: "same s s' X \<Longrightarrow> X \<subseteq> Y \<Longrightarrow> same s s' Y"
  by (auto simp: same_def)


text \<open>The node is cleared, and the tree repaired when a black node has left its place.\<close>

lemma delete_finish:
  assumes rep: "rep s q (plug cs t)" and nb: "nil_black s" and ln: "linked s q cs t" and cs: "cs \<noteq> []"
    and black: "b \<Longrightarrow> short cs t" and red: "\<not> b \<Longrightarrow> red_black (plug cs t)"
    and a: "a \<notin> set (addrs (plug cs t))" "a \<noteq> NIL" "heap s a = Some n"
  shows "\<exists>s' t'. bnd (rbt_clear_node a s) (\<lambda>s. if b then rbtree_delete_fixup (addr_of t) s else ok s) = ok s' \<and>
    rep s' q t' \<and> red_black t' \<and> nil_black s' \<and> entries t' = entries (plug cs t) \<and>
    same s s' (insert a (insert NIL (set (addrs (plug cs t)))))"
proof -
  define s1 where "s1 = s\<lparr>heap := (heap s)(a \<mapsto> n\<lparr>left := NULL, right := NULL, parent := NULL\<rparr>)\<rparr>"
  have "rbt_clear_node a s = ok s1" using a(3) by (simp add: rbt_clear_node_def s1_def)
  have ac: "a \<notin> around cs" "a \<notin> set (addrs t)" using a(1) by (auto simp: addrs_plug)
  have rep1: "rep s1 q (plug cs t)" using rep ac by (simp add: rep_plug s1_def)
  have nb1: "nil_black s1" using nb a(2) by (simp add: nil_black_def s1_def)
  have ln1: "linked s1 q cs t"
    using ln ac a(2) addr_of_in [of t] by (cases "t = Tip") (auto simp: linked_def s1_def)
  have sm: "same s s1 (insert a (insert NIL (set (addrs (plug cs t)))))" by (simp add: same_def s1_def)
  show ?thesis
  proof (cases b)
    case True
    from delete_fixup_ok [OF rep1 nb1 _ black [OF True]] ln1 obtain s2 t2 where
      "rbtree_delete_fixup (addr_of t) s1 = ok s2" "rep s2 q t2" "red_black t2" "nil_black s2"
      "entries t2 = entries (plug cs t)" "same s1 s2 (insert NIL (set (addrs (plug cs t))))" by blast
    then show ?thesis using \<open>rbt_clear_node a s = ok s1\<close> True sm by (intro exI [of _ s2] exI [of _ t2]) (simp add: same_def)
  next
    case False
    then show ?thesis using \<open>rbt_clear_node a s = ok s1\<close> rep1 nb1 red sm by (intro exI [of _ s1] exI [of _ "plug cs t"]) simp
  qed
qed

text \<open>A node with at most one child that is not the root.\<close>

lemma delete_single:
  assumes rep: "rep s q (plug cs (Br l a c k d r))" and rb: "red_black (plug cs (Br l a c k d r))"
    and nb: "nil_black s" and cs: "cs \<noteq> []" and one: "l = Tip \<and> sub = r \<or> r = Tip \<and> sub = l"
  shows "\<exists>s' t'. bnd (delete_unlink a a (addr_of sub) s) (\<lambda>s. bnd (rbt_clear_node a s) (\<lambda>s.
      if c = 1 then rbtree_delete_fixup (addr_of sub) s else ok s)) = ok s' \<and>
    rep s' q t' \<and> red_black t' \<and> nil_black s' \<and> entries t' = before cs @ entries sub @ after cs \<and>
    same s s' (insert NIL (set (addrs (plug cs (Br l a c k d r)))))"
proof -
  let ?T = "plug cs (Br l a c k d r)"
  let ?n = "\<lparr>key = k, parent = above q cs, right = addr_of r, left = addr_of l, color = c, vdata = d\<rparr>"
  have h: "path (heap s) q cs a" "heap s a = Some ?n" "tree (heap s) a sub"
    using rep one by (auto simp: rep_plug)
  have d: "distinct (map fst (before cs @ after cs))" "distinct (a # addrs sub)" "around cs \<inter> set (a # addrs sub) = {}"
    "NIL \<notin> around cs" "a \<noteq> NIL" "NIL \<notin> set (addrs sub)"
    using rep one unfolding rep_plug distinct_plug set_map addrs_plug by auto
  have nul: "NULL \<notin> around cs" "NULL \<notin> set (addrs sub)"
    using rep one unfolding rep_plug set_map addrs_plug by auto
  have na: "above q cs \<noteq> a" using above_around [OF cs, of q] d(3) by auto
  obtain s1 where s1: "delete_unlink a a (addr_of sub) s = ok s1" "path (heap s1) q cs (addr_of sub)"
    "tree (heap s1) (above q cs) sub" "\<exists>m. heap s1 (addr_of sub) = Some m \<and> parent m = above q cs"
    "heap s1 a = Some ?n" "nil_black s1" "root s1 = root s" "same s s1 (insert NIL (around cs \<union> set (addrs sub)))"
    using delete_unlink_ok [OF h(1) cs h(2) _ h(3) nb d, of a] na by auto
  have rep1: "rep s1 q (plug cs sub)"
    using rep s1(2,3,7) d nul root_plug [OF cs, of sub] root_plug [OF cs, of "Br l a c k d r"]
    unfolding rep_plug distinct_plug set_map addrs_plug by simp
  have f: "fit cs (bh (Br l a c k d r))" "invc (Br l a c k d r)" "invh (Br l a c k d r)" "topc cs = 0 \<longrightarrow> c = 1"
    using rb by (simp_all add: red_black_plug)
  then have b: "bh sub = 0" "bh l = 0" "invc sub" "invh sub" "c = 0 \<or> c = 1" using one by auto
  have "short cs sub" if "c = 1" using f b that inv_paint [of sub] invc_col [of sub] by (simp add: short_def)
  moreover have "red_black (plug cs sub)" if "c \<noteq> 1" using f b that one cs by (auto simp: red_black_plug)
  moreover have "linked s1 q cs sub" using s1(4) by (simp add: linked_def)
  moreover have "a \<notin> set (addrs (plug cs sub))" using d by (auto simp: addrs_plug)
  ultimately obtain s2 t2 where s2: "bnd (rbt_clear_node a s1) (\<lambda>s. if c = 1 then rbtree_delete_fixup (addr_of sub) s else ok s) = ok s2"
    "rep s2 q t2" "red_black t2" "nil_black s2" "entries t2 = entries (plug cs sub)"
    "same s1 s2 (insert a (insert NIL (set (addrs (plug cs sub)))))"
    using delete_finish [OF rep1 s1(6) _ cs _ _ _ d(5) s1(5), of "c = 1"] by blast
  have "set (addrs sub) \<subseteq> set (addrs (Br l a c k d r))" using one by auto
  then have "same s s1 (insert NIL (set (addrs ?T)))" "same s1 s2 (insert NIL (set (addrs ?T)))"
    by (rule_tac same_mono [OF s1(8)], unfold set_map addrs_plug, blast)
      (rule_tac same_mono [OF s2(6)], unfold set_map addrs_plug, auto)
  then have "same s s2 (insert NIL (set (addrs ?T)))" by (rule same_trans)
  then show ?thesis using s1(1) s2(1-5) by (intro exI [of _ s2] exI [of _ t2]) (simp add: entries_plug)
qed

text \<open>
  A node with two children: its successor \<open>m\<close> is unlinked and takes its place.  The colours of
  the new tree are those of the old one, with \<open>m\<close> missing from its old place.
\<close>

lemma above_self:
  assumes "a \<notin> set (addrs (plug es t))"
  shows "above a es = a \<longleftrightarrow> es = []"
  using above_around [of es a] assms by (cases "es = []") (auto simp: addrs_plug)

lemma take_successor:
  assumes r: "r = plug es (Br Tip m mc mk md mr)" and rep: "rep s q (plug cs (Br l a c k d r))"
    and nb: "nil_black s" and es: "all_left es"
  shows "\<exists>s1 s2 n. delete_unlink a m (addr_of mr) s = ok s1 \<and> delete_replace a m s1 = ok s2 \<and>
    rep s2 q (plug (es @ InR l m c mk md # cs) mr) \<and> nil_black s2 \<and> linked s2 q (es @ InR l m c mk md # cs) mr \<and>
    heap s2 a = Some n \<and> a \<notin> set (addrs (plug (es @ InR l m c mk md # cs) mr)) \<and> a \<noteq> NIL \<and>
    set (addrs (plug (es @ InR l m c mk md # cs) mr)) \<subseteq> set (addrs (plug cs (Br l a c k d r))) \<and>
    same s s2 (insert NIL (set (addrs (plug cs (Br l a c k d r)))))"
proof -
  let ?T = "plug cs (Br l a c k d r)" and ?p = "es @ InR l a c k d # cs" and ?p' = "es @ InR l m c mk md # cs"
  let ?R = "plug es mr"
  let ?n = "\<lparr>key = mk, parent = above q ?p, right = addr_of mr, left = NIL, color = mc, vdata = md\<rparr>"
  let ?na = "\<lparr>key = k, parent = above q cs, right = addr_of ?R, left = addr_of l, color = c, vdata = d\<rparr>"
  have T: "?T = plug ?p (Br Tip m mc mk md mr)" by (simp add: plug_append r)
  have ent: "entries r = (m, mk, md) # entries ?R" using es by (simp add: r entries_plug all_left_before)
  have h: "path (heap s) q ?p m" "heap s m = Some ?n" "tree (heap s) m mr" "root s = addr_of ?T"
    using rep unfolding T rep_plug by simp_all
  have D: "distinct (addrs ?T)" "NIL \<notin> set (addrs ?T)" "NULL \<notin> set (addrs ?T)" using rep by (simp_all add: rep_def)
  have d: "distinct (map fst (before ?p @ after ?p))" "distinct (m # addrs mr)" "around ?p \<inter> set (m # addrs mr) = {}"
    "NIL \<notin> around ?p" "m \<noteq> NIL" "NIL \<notin> set (addrs mr)"
    using D unfolding T distinct_plug set_map addrs_plug by auto
  have D2: "distinct (map fst (before cs @ after cs))" "distinct (a # m # addrs l @ addrs ?R)"
    "around cs \<inter> set (a # m # addrs l @ addrs ?R) = {}" "NIL \<notin> set (a # m # addrs l @ addrs ?R)"
    using D ent unfolding distinct_plug set_map addrs_plug by auto
  obtain s1 where s1: "delete_unlink a m (addr_of mr) s = ok s1" "path (heap s1) q ?p (addr_of mr)"
    "tree (heap s1) (if above q ?p = a then m else above q ?p) mr"
    "\<exists>x. heap s1 (addr_of mr) = Some x \<and> parent x = (if above q ?p = a then m else above q ?p)"
    "heap s1 m = Some ?n" "nil_black s1" "root s1 = root s" "same s s1 (insert NIL (around ?p \<union> set (addrs mr)))"
    using delete_unlink_ok [OF h(1) _ h(2) _ h(3) nb d, of a] by auto
  have ab: "above q ?p = above a es" by (simp add: above_append)
  have esa: "above a es = a \<longleftrightarrow> es = []" using above_self [of a es mr] D2(2) by simp
  have p1: "path (heap s1) a es (addr_of mr)" "path (heap s1) q cs a" "heap s1 a = Some ?na" "tree (heap s1) a l"
    using s1(2) unfolding path_append by simp_all
  have tR: "tree (heap s1) (if es = [] then m else a) ?R"
    using s1(3) p1(1) by (auto simp: ab esa tree_plug)
  have root1: "cs = [] \<Longrightarrow> root s1 = a" "cs \<noteq> [] \<Longrightarrow> root s1 \<in> around cs"
    using h(4) s1(7) root_around [of cs "Br l a c k d r"] by auto
  obtain s2 where s2: "delete_replace a m s1 = ok s2" "path (heap s2) q cs m"
    "heap s2 m = Some \<lparr>key = mk, parent = above q cs, right = addr_of ?R, left = addr_of l, color = c, vdata = md\<rparr>"
    "tree (heap s2) m l" "tree (heap s2) m ?R" "heap s2 a = Some ?na" "root s2 = (if cs = [] then m else root s1)"
    "same s1 s2 (around cs \<union> insert m (set (addrs l) \<union> set (addrs ?R)))"
    using delete_replace_ok [OF p1(2) root1 p1(3) _ _ _ s1(5) p1(4) tR D2(2,3,1,4)] by auto
  let ?T2 = "plug cs (Br l m c mk md ?R)"
  have T2: "?T2 = plug ?p' mr" by (simp add: plug_append)
  have addrs2: "set (addrs ?T2) = around cs \<union> insert m (set (addrs l) \<union> set (addrs ?R))"
    unfolding set_map addrs_plug [of cs] by auto
  have addrsT: "set (addrs ?T) = insert a (set (addrs ?T2))"
    unfolding addrs2 unfolding set_map addrs_plug [of cs] by (auto simp: ent)
  then have out: "NULL \<notin> set (addrs ?T2)" "NIL \<notin> set (addrs ?T2)" using D(2,3) by auto
  have "root s2 = addr_of ?T2"
    using s2(7) h(4) s1(7) root_plug [of cs "Br l a c k d r"] root_plug [of cs "Br l m c mk md ?R"] by (cases "cs = []") simp_all
  moreover have "distinct (addrs ?T2)" using D2 unfolding distinct_plug by simp
  ultimately have rep2: "rep s2 q (plug ?p' mr)"
    using s2(2-5) out unfolding T2 [symmetric] rep_plug by simp
  moreover have "nil_black s2" using nil_black_same [OF s1(6) s2(8)] out(2) unfolding addrs2 by blast
  moreover have "linked s2 q ?p' mr"
  proof (cases "mr = Tip")
    case True
    have "above q ?p' = (if above q ?p = a then m else above q ?p)" using esa by (cases es) (simp_all add: ab above_append)
    then show ?thesis using True s1(4) s2(8) out(2) unfolding addrs2 by (auto simp: linked_def same_def)
  qed (rule rep_linked [OF rep2])
  moreover have "a \<notin> set (addrs (plug ?p' mr))" "a \<noteq> NIL" using D2 unfolding T2 [symmetric] addrs2 by auto
  moreover have "set (addrs (plug ?p' mr)) \<subseteq> set (addrs ?T)" unfolding T2 [symmetric] addrsT by blast
  moreover have "same s s1 (insert NIL (set (addrs ?T)))"
    by (rule same_mono [OF s1(8)]) (unfold T set_map addrs_plug [of ?p], auto)
  then have "same s s2 (insert NIL (set (addrs ?T)))"
    by (rule same_trans) (rule same_mono [OF s2(8)], unfold addrsT addrs2, auto)
  ultimately show ?thesis using s1(1) s2(1,6) by blast
qed

lemma successor_colours:
  assumes "red_black (plug (es @ InR l a c k d # cs) (Br Tip m mc mk md mr))"
  shows "mc = 1 \<Longrightarrow> short (es @ InR l m c mk md # cs) mr"
    "mc \<noteq> 1 \<Longrightarrow> red_black (plug (es @ InR l m c mk md # cs) mr)"
proof -
  let ?p = "es @ InR l a c k d # cs"
  have f: "fit ?p (bh (Br Tip m mc mk md mr))" "invc (Br Tip m mc mk md mr)" "invh (Br Tip m mc mk md mr)"
    "topc ?p = 0 \<longrightarrow> mc = 1" using assms unfolding red_black_plug by auto
  have b: "bh mr = 0" "invc mr" "invh mr" "mc = 0 \<or> mc = 1" using f(2,3) by auto
  show "short (es @ InR l m c mk md # cs) mr" if "mc = 1"
    using f(1) b that inv_paint [of mr] invc_col [of mr] fit_rename [of es l a c k d cs 1 m mk md] by (simp add: short_def)
  show "red_black (plug (es @ InR l m c mk md # cs) mr)" if "mc \<noteq> 1"
    using f b that fit_rename [of es l a c k d cs 0 m mk md] topc_rename [of es l a c k d cs m mk md] by (auto simp: red_black_plug)
qed

lemma delete_double:
  assumes r: "r = plug es (Br Tip m mc mk md mr)" and rep: "rep s q (plug cs (Br l a c k d r))" and rb: "red_black (plug cs (Br l a c k d r))"
    and nb: "nil_black s" and es: "all_left es"
  shows "\<exists>s' t'. bnd (delete_unlink a m (addr_of mr) s) (\<lambda>s. bnd (delete_replace a m s) (\<lambda>s. bnd (rbt_clear_node a s) (\<lambda>s.
      if mc = 1 then rbtree_delete_fixup (addr_of mr) s else ok s))) = ok s' \<and>
    rep s' q t' \<and> red_black t' \<and> nil_black s' \<and> entries t' = before cs @ entries l @ entries r @ after cs \<and>
    same s s' (insert NIL (set (addrs (plug cs (Br l a c k d r)))))"
proof -
  let ?T = "plug cs (Br l a c k d r)" and ?p' = "es @ InR l m c mk md # cs"
  obtain s1 s2 n where s2: "delete_unlink a m (addr_of mr) s = ok s1" "delete_replace a m s1 = ok s2"
    "rep s2 q (plug ?p' mr)" "nil_black s2" "linked s2 q ?p' mr" "heap s2 a = Some n" "a \<notin> set (addrs (plug ?p' mr))" "a \<noteq> NIL"
    "set (addrs (plug ?p' mr)) \<subseteq> set (addrs ?T)" "same s s2 (insert NIL (set (addrs ?T)))"
    using take_successor [OF r rep nb es] by blast
  have "red_black (plug (es @ InR l a c k d # cs) (Br Tip m mc mk md mr))" using rb by (simp add: plug_append r)
  note col = successor_colours [OF this]
  obtain s3 t3 where s3: "bnd (rbt_clear_node a s2) (\<lambda>s. if mc = 1 then rbtree_delete_fixup (addr_of mr) s else ok s) = ok s3"
    "rep s3 q t3" "red_black t3" "nil_black s3" "entries t3 = entries (plug ?p' mr)"
    "same s2 s3 (insert a (insert NIL (set (addrs (plug ?p' mr)))))"
    using delete_finish [OF s2(3,4) _ _ _ _ s2(7,8,6), of "mc = 1"] s2(5) col by blast
  have "same s2 s3 (insert NIL (set (addrs ?T)))"
    by (rule same_mono [OF s3(6)]) (use s2(9) in \<open>auto simp: entries_plug\<close>)
  then have "same s s3 (insert NIL (set (addrs ?T)))" by (rule same_trans [OF s2(10)])
  moreover have "entries (plug ?p' mr) = before cs @ entries l @ entries r @ after cs"
    using es by (simp add: r entries_plug all_left_before plug_append)
  ultimately show ?thesis using s2(1,2) s3(1-5) by (intro exI [of _ s3] exI [of _ t3]) simp
qed

text \<open>What \<open>util_rbtree_delete\<close> does after the choice of \<open>temp\<close>, when it is not the root.\<close>

lemma delete_pos_ok:
  assumes rep: "rep s q (plug cs (Br l a c k d r))"
  shows "\<exists>m sub. delete_pos a s = ok (m, addr_of sub) \<and>
    (m = a \<and> (l = Tip \<and> sub = r \<or> r = Tip \<and> sub = l) \<or>
     l \<noteq> Tip \<and> (\<exists>es mc mk md. r = plug es (Br Tip m mc mk md sub) \<and> all_left es))"
proof -
  have h: "heap s a = Some \<lparr>key = k, parent = above q cs, right = addr_of r, left = addr_of l, color = c, vdata = d\<rparr>"
    by (rule rep_cell [OF rep])
  have N: "NIL \<notin> set (addrs l)" "NIL \<notin> set (addrs r)" "tree (heap s) a r"
    using rep unfolding rep_plug set_map addrs_plug by auto
  show ?thesis
  proof (cases "l = Tip \<or> r = Tip")
    case True
    then show ?thesis using h N addr_not_NIL [of l] by (cases "l = Tip") (auto simp: delete_pos_def)
  next
    case False
    then obtain es m mc mk md mr where r: "r = plug es (Br Tip m mc mk md mr)" "all_left es" "min_loop s (addr_of r) NIL = ok m"
      using leftmost [OF _ N(3,2)] by blast
    have rs: "plug cs (Br l a c k d r) = plug (es @ InR l a c k d # cs) (Br Tip m mc mk md mr)"
      by (simp add: plug_append r(1))
    have "heap s m = Some \<lparr>key = mk, parent = above q (es @ InR l a c k d # cs), right = addr_of mr, left = NIL, color = mc, vdata = md\<rparr>"
      using rep_cell [of s q "es @ InR l a c k d # cs" Tip m mc mk md mr] rep unfolding rs by simp
    then have "delete_pos a s = ok (m, addr_of mr)"
      using h r(3) False addr_not_NIL [OF N(1)] addr_not_NIL [OF N(2)] by (simp add: delete_pos_def util_rbsubtree_min_def)
    then show ?thesis using False r(1,2) by blast
  qed
qed

lemma filter_out:
  assumes "distinct (map fst (xs @ (a, k, d) # ys))"
  shows "filter (\<lambda>e. fst e \<noteq> a) (xs @ (a, k, d) # ys) = xs @ ys"
proof -
  have "filter (\<lambda>e. fst e \<noteq> a) xs = xs" "filter (\<lambda>e. fst e \<noteq> a) ys = ys"
    using assms by (auto simp: filter_id_conv)
  then show ?thesis by simp
qed

text \<open>
  What a deletion of the node \<open>a\<close> leaves behind: again a red-black search tree, without the entry
  of \<open>a\<close>, in a heap unchanged outside the old tree and its sentinel.
\<close>

definition deleted :: "util_rbtree_t \<Rightarrow> addr \<Rightarrow> rbt \<Rightarrow> addr \<Rightarrow> util_rbtree_t \<Rightarrow> addr \<Rightarrow> rbt \<Rightarrow> bool" where
  "deleted s q t a s' q' t' \<longleftrightarrow> rb_wf s' q' t' \<and> (q' = q \<or> q' = a) \<and> (outer s q t \<longrightarrow> outer s' q' t') \<and>
     entries t' = filter (\<lambda>e. fst e \<noteq> a) (entries t) \<and>
     (\<forall>b. b \<notin> insert NIL (set (addrs t)) \<longrightarrow> heap s' b = heap s b)"

abbreviation one_less :: "util_rbtree_t \<Rightarrow> util_rbtree_t" where
  "one_less s \<equiv> s\<lparr>rb_size := rb_size s - 1\<rparr>"

lemma wf_place:
  assumes "rb_wf s q t" and t: "t = plug cs (Br l a c k d r)"
  shows "rep (one_less s) q (plug cs (Br l a c k d r))" "nil_black (one_less s)"
    "red_black (plug cs (Br l a c k d r))" "a \<noteq> NIL" "a \<noteq> NULL"
    "filter (\<lambda>e. fst e \<noteq> a) (entries t) = before cs @ entries l @ entries r @ after cs"
proof -
  have i: "rep s q t" "red_black t" "nil_black s" using assms(1) by (simp_all add: rb_wf_def)
  have D: "distinct (addrs t)" "NIL \<notin> set (addrs t)" "NULL \<notin> set (addrs t)" using i(1) by (simp_all add: rep_def)
  have ent: "entries t = (before cs @ entries l) @ (a, k, d) # (entries r @ after cs)" by (simp add: t entries_plug)
  show "rep (one_less s) q (plug cs (Br l a c k d r))" "nil_black (one_less s)" "red_black (plug cs (Br l a c k d r))"
    using i by (simp_all add: t rep_def nil_black_def)
  show "a \<noteq> NIL" "a \<noteq> NULL" using D(2,3) by (auto simp: ent)
  show "filter (\<lambda>e. fst e \<noteq> a) (entries t) = before cs @ entries l @ entries r @ after cs"
    unfolding ent by (subst filter_out) (use D(1) in \<open>simp_all add: ent\<close>)
qed

lemma wf_without:
  assumes "rb_wf s q t" "t = plug cs (Br l a c k d r)"
    and "rep s' q' t'" "red_black t'" "nil_black s'" "rb_size s' = rb_size s - 1"
      "entries t' = before cs @ entries l @ entries r @ after cs"
  shows "rb_wf s' q' t'"
  using assms unfolding rb_wf_def by (auto simp: keys_def entries_plug sorted_append)

lemma deleted_inside:
  assumes wf: "rb_wf s q t" and t: "t = plug cs (Br l a c k d r)"
    and r': "rep s' q t'" "red_black t'" "nil_black s'"
      "entries t' = before cs @ entries l @ entries r @ after cs" "same (one_less s) s' (insert NIL (set (addrs t)))"
  shows "deleted s q t a s' q t'"
proof -
  have "outer s' q t'" if o: "outer s q t"
    using o r'(3-5) unfolding outer_def t
    by (cases "q = NIL") (auto simp: nil_black_def same_def entries_plug)
  then show ?thesis
    using wf_without [OF wf t r'(1-3) _ r'(4)] wf_place(6) [OF wf t] r'(4,5) by (auto simp: deleted_def same_def)
qed

lemma below_root:
  assumes rep: "rep s q (plug cs (Br l a c k d r))" and cs: "cs \<noteq> []" and b: "b \<in> set (addrs (Br l a c k d r))"
  shows "b \<noteq> root s"
proof -
  have "root s \<in> around cs" using rep root_around [OF cs, of "Br l a c k d r"] by (simp add: rep_def)
  moreover have "distinct (addrs (plug cs (Br l a c k d r)))" using rep by (simp add: rep_def)
  then have "b \<notin> around cs" using b unfolding distinct_plug by auto
  ultimately show ?thesis by auto
qed

text \<open>The node has at most one child and is not the root.\<close>

lemma delete_one_inside:
  assumes wf: "rb_wf s q t" and t: "t = plug cs (Br l a c k d r)" and cs: "cs \<noteq> []"
    and pos: "delete_pos a (one_less s) = ok (a, addr_of sub)" and sub: "l = Tip \<and> sub = r \<or> r = Tip \<and> sub = l"
  shows "\<exists>s' t'. util_rbtree_delete a s = ok s' \<and> deleted s q t a s' q t'"
proof -
  note p = wf_place [OF wf t]
  obtain s' t' where s': "bnd (delete_unlink a a (addr_of sub) (one_less s)) (\<lambda>s. bnd (rbt_clear_node a s) (\<lambda>s.
      if c = 1 then rbtree_delete_fixup (addr_of sub) s else ok s)) = ok s'" and
    r': "rep s' q t'" "red_black t'" "nil_black s'" "entries t' = before cs @ entries sub @ after cs"
    "same (one_less s) s' (insert NIL (set (addrs t)))"
    using delete_single [OF p(1) _ p(2) cs] p(3) sub unfolding t by blast
  moreover have "a \<noteq> root (one_less s)" using below_root [OF p(1) cs] by simp
  moreover have "util_rbt_isblack (one_less s) a = ok (c = 1)" using rep_cell [OF p(1)] by (simp add: util_rbt_isblack_def)
  ultimately have "util_rbtree_delete a s = ok s'"
    using pos p(4,5) by (simp add: util_rbtree_delete_def Let_def)
  moreover have "entries t' = before cs @ entries l @ entries r @ after cs" using r'(4) sub by auto
  then have "deleted s q t a s' q t'" by (rule deleted_inside [OF wf t r'(1-3) _ r'(5)])
  ultimately show ?thesis by blast
qed

text \<open>The root has at most one child, which becomes the root and is painted black.\<close>

lemma blacken_child:
  assumes nb: "nil_black s" and a: "a \<noteq> NIL" "a \<notin> set (addrs sub)"
    and sub: "tree (heap s) a sub" "distinct (addrs sub)" "NIL \<notin> set (addrs sub)" "NULL \<notin> set (addrs sub)"
  shows "\<exists>s1. util_rbt_black (addr_of sub) (s\<lparr>root := addr_of sub\<rparr>) = ok s1 \<and> rep s1 a (paint 1 sub) \<and>
    nil_black s1 \<and> heap s1 a = heap s a \<and> same s s1 (insert NIL (set (addrs sub)))"
proof (cases "sub = Tip")
  case True
  then show ?thesis using nb a by (auto simp: util_rbt_black_def nil_black_def rep_def same_def)
next
  case False
  have "rep (s\<lparr>root := addr_of sub\<rparr>) a sub" using sub by (simp add: rep_def)
  from paint_root [OF this False] obtain s1 where s1: "util_rbt_black (addr_of sub) (s\<lparr>root := addr_of sub\<rparr>) = ok s1"
    "rep s1 a (paint 1 sub)" "same (s\<lparr>root := addr_of sub\<rparr>) s1 (set (addrs sub))" by auto
  moreover have "nil_black s1" using s1(3) nb sub(3) by (simp add: nil_black_def same_def)
  ultimately show ?thesis using a(2) by (auto simp: same_def)
qed

lemma delete_one_root:
  assumes wf: "rb_wf s q t" and t: "t = Br l a c k d r"
    and pos: "delete_pos a (one_less s) = ok (a, addr_of sub)" and sub: "l = Tip \<and> sub = r \<or> r = Tip \<and> sub = l"
  shows "\<exists>s' t'. util_rbtree_delete a s = ok s' \<and> deleted s q t a s' a t'"
proof -
  have t': "t = plug [] (Br l a c k d r)" by (simp add: t)
  note p = wf_place [OF wf t']
  have c: "c = 1" "invc sub" "invh sub" using p(3) sub by (auto simp: red_black_def)
  have ha: "heap (one_less s) a = Some \<lparr>key = k, parent = q, right = addr_of r, left = addr_of l, color = 1, vdata = d\<rparr>"
    "root (one_less s) = a" "tree (heap (one_less s)) a sub" using p(1) sub c by (auto simp: rep_def)
  have as: "a \<notin> set (addrs sub)" "distinct (addrs sub)" "NIL \<notin> set (addrs sub)" "NULL \<notin> set (addrs sub)"
    using p(1) sub by (auto simp: rep_def)
  obtain s1 where s1: "util_rbt_black (addr_of sub) ((one_less s)\<lparr>root := addr_of sub\<rparr>) = ok s1" "rep s1 a (paint 1 sub)"
    "nil_black s1" "heap s1 a = heap (one_less s) a" "same (one_less s) s1 (insert NIL (set (addrs sub)))"
    using blacken_child [OF p(2,4) as(1) ha(3) as(2-4)] by blast
  define n where "n = \<lparr>key = k, parent = NULL, right = NULL, left = NULL, color = 1, vdata = d\<rparr>"
  define s2 where "s2 = s1\<lparr>heap := (heap s1)(a \<mapsto> n)\<rparr>"
  have "rbt_clear_node a s1 = ok s2" using s1(4) ha(1) by (simp add: rbt_clear_node_def s2_def n_def)
  then have del: "util_rbtree_delete a s = ok s2"
    using pos p(4,5) ha(2) s1(1) by (simp add: util_rbtree_delete_def Let_def)
  have r2: "rep s2 a (paint 1 sub)" "red_black (paint 1 sub)" "nil_black s2"
    "rb_size s2 = rb_size s - 1" "outer s2 a (paint 1 sub)"
    using s1 as(1) c p(4) inv_paint [of sub]
    by (simp_all add: rep_def s2_def red_black_def nil_black_def same_def outer_def n_def)
  have en: "entries (paint 1 sub) = before [] @ entries l @ entries r @ after []" using sub by auto
  have "\<forall>b. b \<notin> insert NIL (set (addrs t)) \<longrightarrow> heap s2 b = heap s b"
    using s1(5) sub by (auto simp: s2_def same_def t)
  then have "deleted s q t a s2 a (paint 1 sub)"
    using wf_without [OF wf t' r2(1-4) en] r2(5) en p(6) by (simp add: deleted_def)
  then show ?thesis using del by blast
qed

text \<open>The node has two children: the least node of the right subtree takes its place.\<close>

lemma delete_two:
  assumes wf: "rb_wf s q t" and t: "t = plug cs (Br l a c k d r)"
    and pos: "delete_pos a (one_less s) = ok (m, addr_of sub)"
    and r: "r = plug es (Br Tip m mc mk md sub)" "all_left es" and l: "l \<noteq> Tip"
  shows "\<exists>s' t'. util_rbtree_delete a s = ok s' \<and> deleted s q t a s' q t'"
proof -
  note p = wf_place [OF wf t]
  obtain s' t' where "bnd (delete_unlink a m (addr_of sub) (one_less s)) (\<lambda>s. bnd (delete_replace a m s) (\<lambda>s.
      bnd (rbt_clear_node a s) (\<lambda>s. if mc = 1 then rbtree_delete_fixup (addr_of sub) s else ok s))) = ok s'" and
    r': "rep s' q t'" "red_black t'" "nil_black s'" "entries t' = before cs @ entries l @ entries r @ after cs"
    "same (one_less s) s' (insert NIL (set (addrs t)))"
    using delete_double [OF r(1) p(1) _ p(2) r(2)] p(3) unfolding t by blast
  moreover have m: "m \<in> set (addrs r)" by (auto simp: r(1) entries_plug)
  have "distinct (addrs (plug cs (Br l a c k d r)))" using p(1) by (simp add: rep_def)
  then have "m \<noteq> a" using m unfolding distinct_plug by auto
  moreover have "m \<noteq> root (one_less s)"
    using below_root [OF p(1), of m] m p(1) \<open>m \<noteq> a\<close> by (cases "cs = []") (auto simp: rep_def)
  moreover have "util_rbt_isblack (one_less s) m = ok (mc = 1)"
    using rep_cell [of "one_less s" q "es @ InR l a c k d # cs" Tip m mc mk md sub] p(1)
    by (simp add: util_rbt_isblack_def plug_append r(1))
  ultimately have "util_rbtree_delete a s = ok s'"
    using pos p(4,5) by (simp add: util_rbtree_delete_def Let_def)
  then show ?thesis using deleted_inside [OF wf t r'] by blast
qed

lemma delete_rb:
  assumes wf: "rb_wf s q t" and e: "(a, k, d) \<in> set (entries t)"
  shows "\<exists>s' q' t'. util_rbtree_delete a s = ok s' \<and> deleted s q t a s' q' t'"
proof -
  obtain cs l c r where t: "t = plug cs (Br l a c k d r)" using entry_place [OF e] by blast
  obtain m sub where pos: "delete_pos a (one_less s) = ok (m, addr_of sub)" and
    shape: "m = a \<and> (l = Tip \<and> sub = r \<or> r = Tip \<and> sub = l) \<or>
     l \<noteq> Tip \<and> (\<exists>es mc mk md. r = plug es (Br Tip m mc mk md sub) \<and> all_left es)"
    using delete_pos_ok [OF wf_place(1) [OF wf t]] by blast
  show ?thesis
  proof (cases "m = a \<and> (l = Tip \<and> sub = r \<or> r = Tip \<and> sub = l)")
    case True
    then show ?thesis
      using delete_one_inside [OF wf t, of sub] delete_one_root [OF wf, of l a c k d r sub] t pos
      by (cases "cs = []") auto
  next
    case False
    then show ?thesis using shape delete_two [OF wf t pos] by blast
  qed
qed

text \<open>
  C2. Deletion is total and correct: deleting a node of a red-black search tree ends without
  touching a cell outside the tree and its sentinel, the result is again a red-black search
  tree, its entries are the old ones without the deleted node's, and \<open>size\<close> counts them.  The
  parent link of the root may now point to the deleted node: the code does not reset it.
\<close>

theorem delete_keeps_red_black:
  assumes inv: "rb_wf s q t" and e: "(a, k, d) \<in> set (entries t)"
  shows "\<exists>s' q' t'. util_rbtree_delete a s = ok s' \<and> rb_wf s' q' t' \<and> (q' = q \<or> q' = a) \<and> (outer s q t \<longrightarrow> outer s' q' t') \<and>
    entries t' = filter (\<lambda>e. fst e \<noteq> a) (entries t) \<and>
    (\<forall>b. b \<notin> insert NIL (set (addrs t)) \<longrightarrow> heap s' b = heap s b)"
  using delete_rb [OF inv e] unfolding deleted_def by blast

end
