(* ===== verification/RbQuery.thy ===== *)
theory RbQuery
  imports RbDelete
begin

text \<open>
  What the red-black tree answers: an initialised tree is empty, \<open>util_rbtree_search\<close> finds a key
  exactly when it is there, \<open>util_rbtree_lookup\<close> finds the first key not below the one asked for
  and wraps around to the smallest, the traversal visits the entries in order, and the
  self-check accepts every red-black search tree.  Two theorems show where the code misbehaves:
  the self-check never looks at a right subtree below a missing left child, and the parent link
  of the root may point to a node that was deleted.
\<close>

lemma rb_wf_parts:
  "rb_wf s q t \<Longrightarrow> rep s q t" "rb_wf s q t \<Longrightarrow> red_black t" "rb_wf s q t \<Longrightarrow> sorted (keys t)"
  "rb_wf s q t \<Longrightarrow> tree (heap s) q t" "rb_wf s q t \<Longrightarrow> root s = addr_of t" "rb_wf s q t \<Longrightarrow> NIL \<notin> set (addrs t)"
  "rb_wf s q t \<Longrightarrow> NULL \<notin> set (addrs t)" "rb_wf s q t \<Longrightarrow> distinct (addrs t)" "rb_wf s q t \<Longrightarrow> nil_black s"
  by (simp_all add: rb_wf_def rep_def)

lemma empty_iff: "rb_wf s q t \<Longrightarrow> util_rbtree_isempty s \<longleftrightarrow> t = Tip"
  using addr_not_NIL [of t] by (auto simp: util_rbtree_isempty_def rb_wf_def rep_def)

subsection \<open>Initialisation\<close>

text \<open>
  \<open>util_rbtree_init\<close> turns any memory into an empty tree that satisfies the invariant:
  it blackens the sentinel and points the root at it.
\<close>

theorem init_is_empty_tree:
  assumes "heap s NIL = Some n"
  shows "\<exists>s'. util_rbtree_init s = ok s' \<and> rb_inv s' NIL Tip \<and> util_rbtree_isempty s' \<and>
    (\<forall>a. a \<noteq> NIL \<longrightarrow> heap s' a = heap s a)"
  using assms
  by (simp add: util_rbtree_init_def util_rbt_black_def rb_inv_def rb_wf_def rep_def red_black_def keys_def
      nil_black_def outer_def util_rbtree_isempty_def)

subsection \<open>Minimum, maximum and search\<close>

lemma min_loop_ok:
  "t \<noteq> Tip \<Longrightarrow> tree (heap s) q t \<Longrightarrow> NIL \<notin> set (addrs t) \<Longrightarrow> min_loop s (addr_of t) NIL = ok (fst (hd (entries t)))"
proof (induction t arbitrary: q)
  case (Br l a c k d r)
  show ?case
  proof (cases l)
    case Tip
    then show ?thesis using Br.prems by (subst min_loop.simps) simp
  next
    case L: (Br ll la lc lk ld lr)
    have "min_loop s (addr_of l) NIL = ok (fst (hd (entries l)))"
      using Br.IH(1) [of a] Br.prems L by auto
    then show ?thesis using Br.prems L by (subst min_loop.simps) (simp add: hd_append)
  qed
qed simp

lemma max_loop_ok:
  "t \<noteq> Tip \<Longrightarrow> tree (heap s) q t \<Longrightarrow> NIL \<notin> set (addrs t) \<Longrightarrow> max_loop s (addr_of t) NIL = ok (fst (last (entries t)))"
proof (induction t arbitrary: q)
  case (Br l a c k d r)
  show ?case
  proof (cases r)
    case Tip
    then show ?thesis using Br.prems by (subst max_loop.simps) simp
  next
    case R: (Br rl ra rc rk rd rr)
    have "max_loop s (addr_of r) NIL = ok (fst (last (entries r)))"
      using Br.IH(2) [of a] Br.prems R by auto
    then show ?thesis using Br.prems R by (subst max_loop.simps) simp
  qed
qed simp

text \<open>
  \<open>util_rbtree_min\<close> and \<open>util_rbtree_max\<close> return the first and the last entry of a tree, and
  \<open>NULL\<close> for an empty one.
\<close>

theorem min_max_are_ends:
  assumes "rb_wf s q t"
  shows "util_rbtree_min s = ok (if t = Tip then NULL else fst (hd (entries t))) \<and>
    util_rbtree_max s = ok (if t = Tip then NULL else fst (last (entries t)))"
proof (cases "t = Tip")
  case False
  then show ?thesis
    using min_loop_ok [OF False rb_wf_parts(4,6) [OF assms]] max_loop_ok [OF False rb_wf_parts(4,6) [OF assms]]
      addr_not_NIL [OF rb_wf_parts(6) [OF assms] False] rb_wf_parts(5) [OF assms]
    by (simp add: util_rbtree_min_def util_rbtree_max_def util_rbsubtree_min_def util_rbsubtree_max_def)
qed (use rb_wf_parts(5) [OF assms] in
    \<open>simp add: util_rbtree_min_def util_rbtree_max_def util_rbsubtree_min_def util_rbsubtree_max_def\<close>)

lemma sorted_keys_Br:
  "sorted (keys (Br l a c k d r)) \<longleftrightarrow>
     sorted (keys l) \<and> sorted (keys r) \<and> (\<forall>x \<in> set (keys l). x \<le> k) \<and> (\<forall>x \<in> set (keys r). k \<le> x)"
proof -
  have "keys (Br l a c k d r) = keys l @ k # keys r" by (simp add: keys_def)
  then show ?thesis by (auto simp: sorted_append) force
qed

lemma keys_simps [simp]: "keys Tip = []" "keys (Br l a c k d r) = keys l @ k # keys r"
  by (simp_all add: keys_def)

lemma search_loop_ok:
  "tree (heap s) q t \<Longrightarrow> NIL \<notin> set (addrs t) \<Longrightarrow> NULL \<notin> set (addrs t) \<Longrightarrow> sorted (keys t) \<Longrightarrow>
   \<exists>x. search_loop s k (addr_of t) = ok x \<and>
     (if k \<in> set (keys t) then \<exists>d. (x, k, d) \<in> set (entries t) else x = NULL)"
proof (induction t arbitrary: q)
  case Tip
  then show ?case by (subst search_loop.simps) simp
next
  case (Br l a c kt d r)
  note s = Br.prems(4) [unfolded sorted_keys_Br]
  have h: "heap s a = Some \<lparr>key = kt, parent = q, right = addr_of r, left = addr_of l, color = c, vdata = d\<rparr>" "a \<noteq> NIL"
    using Br.prems by auto
  obtain x y where x: "search_loop s k (addr_of l) = ok x" "if k \<in> set (keys l) then \<exists>d. (x, k, d) \<in> set (entries l) else x = NULL"
    and y: "search_loop s k (addr_of r) = ok y" "if k \<in> set (keys r) then \<exists>d. (y, k, d) \<in> set (entries r) else y = NULL"
    using Br.IH(1) [of a] Br.IH(2) [of a] Br.prems s by auto
  consider "k < kt" | "kt < k" | "k = kt" by linarith
  then show ?case
  proof cases
    case 1
    then have "k \<notin> set (keys r)" using s by auto
    then show ?thesis using 1 h x by (subst search_loop.simps) (auto split: if_splits)
  next
    case 2
    then have "k \<notin> set (keys l)" using s by auto
    then show ?thesis using 2 h y by (subst search_loop.simps) (auto split: if_splits)
  next
    case 3
    then show ?thesis using h by (subst search_loop.simps) auto
  qed
qed

lemma search_rb:
  assumes "rb_wf s q t"
  shows "\<exists>x. util_rbtree_search s k = ok x \<and>
    (if k \<in> set (keys t) then \<exists>d. (x, k, d) \<in> set (entries t) else x = NULL)"
  using search_loop_ok [OF rb_wf_parts(4,6,7,3) [OF assms]] rb_wf_parts(5) [OF assms]
  by (simp add: util_rbtree_search_def)

text \<open>
  C40. \<open>util_rbtree_search\<close> always ends; it returns a node with the key asked for when the tree
  has one, and \<open>NULL\<close> otherwise.
\<close>

theorem search_finds_exactly_the_keys:
  assumes "rb_wf s q t"
  shows "\<exists>x. util_rbtree_search s k = ok x \<and>
    (if k \<in> set (keys t) then \<exists>d. (x, k, d) \<in> set (entries t) else x = NULL)"
  using search_rb [OF assms] by blast

subsection \<open>Lookup on the ring\<close>

definition first_at_least :: "int \<Rightarrow> entry list \<Rightarrow> entry option" where
  "first_at_least k es = List.find (\<lambda>e. k \<le> entry_key e) es"

lemma find_append: "List.find P (xs @ ys) = (case List.find P xs of None \<Rightarrow> List.find P ys | Some x \<Rightarrow> Some x)"
  by (induction xs) auto

lemma find_none: "\<forall>x \<in> set xs. \<not> P x \<Longrightarrow> List.find P xs = None"
  by (simp add: find_None_iff)

lemma lookup_loop_ok:
  "tree (heap s) q t \<Longrightarrow> NIL \<notin> set (addrs t) \<Longrightarrow> sorted (keys t) \<Longrightarrow>
   lookup_loop s k best (addr_of t) = ok (case first_at_least k (entries t) of None \<Rightarrow> best | Some e \<Rightarrow> fst e)"
proof (induction t arbitrary: q best)
  case Tip
  then show ?case by (subst lookup_loop.simps) (simp add: first_at_least_def)
next
  case (Br l a c kt d r)
  note s = Br.prems(3) [unfolded sorted_keys_Br]
  have h: "heap s a = Some \<lparr>key = kt, parent = q, right = addr_of r, left = addr_of l, color = c, vdata = d\<rparr>" "a \<noteq> NIL"
    using Br.prems by auto
  have ih: "lookup_loop s k a (addr_of l) = ok (case first_at_least k (entries l) of None \<Rightarrow> a | Some e \<Rightarrow> fst e)"
    "lookup_loop s k best (addr_of r) = ok (case first_at_least k (entries r) of None \<Rightarrow> best | Some e \<Rightarrow> fst e)"
    using Br.IH Br.prems s by auto
  show ?case
  proof (cases "k \<le> kt")
    case True
    then show ?thesis using h ih(1)
      by (subst lookup_loop.simps) (auto simp: first_at_least_def find_append split: option.splits)
  next
    case False
    then have "\<forall>e \<in> set (entries l). \<not> k \<le> entry_key e" using s by (force simp: keys_def)
    then have "List.find (\<lambda>e. k \<le> entry_key e) (entries l) = None" by (rule find_none)
    then show ?thesis using False h ih(2)
      by (subst lookup_loop.simps) (auto simp: first_at_least_def find_append)
  qed
qed

lemma lookup_rb:
  assumes "rb_wf s q t" and "t \<noteq> Tip"
  shows "util_rbtree_lookup s k =
    ok (case first_at_least k (entries t) of None \<Rightarrow> fst (hd (entries t)) | Some e \<Rightarrow> fst e)"
proof -
  have "fst e \<noteq> NULL" if "first_at_least k (entries t) = Some e" for e
  proof -
    have "e \<in> set (entries t)" using that by (auto simp: first_at_least_def find_Some_iff)
    then have "fst e \<in> set (addrs t)" by simp
    then show ?thesis using rb_wf_parts(7) [OF assms(1)] by metis
  qed
  then show ?thesis
    using lookup_loop_ok [OF rb_wf_parts(4,6,3) [OF assms(1)], of k NULL] rb_wf_parts(5) [OF assms(1)] empty_iff [OF assms(1)]
      assms(2) min_loop_ok [OF assms(2) rb_wf_parts(4,6) [OF assms(1)]] addr_not_NIL [OF rb_wf_parts(6) [OF assms(1)] assms(2)]
    by (auto simp: util_rbtree_lookup_def util_rbtree_min_def util_rbsubtree_min_def split: option.split)
qed

text \<open>
  \<open>util_rbtree_lookup\<close> is the successor on the hash ring: on a non-empty tree it always
  returns a node, the first one whose key is not below the key asked for and, when there is
  none, the one with the smallest key.
\<close>

theorem lookup_is_ring_successor:
  assumes "rb_wf s q t" and "t \<noteq> Tip"
  shows "util_rbtree_lookup s k =
    ok (case first_at_least k (entries t) of None \<Rightarrow> fst (hd (entries t)) | Some e \<Rightarrow> fst e)"
  using lookup_rb [OF assms] by blast

subsection \<open>Traversal\<close>

lemma mid_travel_ok:
  "t \<noteq> Tip \<Longrightarrow> tree (heap s) q t \<Longrightarrow> NIL \<notin> set (addrs t) \<Longrightarrow>
   mid_travel s (addr_of t) opera x = ok (fold (\<lambda>a. opera (the (heap s a))) (addrs t) x)"
proof (induction t arbitrary: q x)
  case (Br l a c k d r)
  have h: "heap s a = Some \<lparr>key = k, parent = q, right = addr_of r, left = addr_of l, color = c, vdata = d\<rparr>"
    using Br.prems by simp
  have "(if addr_of l \<noteq> NIL then mid_travel s (addr_of l) opera x else ok x) = ok (fold (\<lambda>a. opera (the (heap s a))) (addrs l) x)" for x
    using Br.IH(1) [of a x] Br.prems addr_not_NIL [of l] by (cases "l = Tip") auto
  moreover have "(if addr_of r \<noteq> NIL then mid_travel s (addr_of r) opera x else ok x) = ok (fold (\<lambda>a. opera (the (heap s a))) (addrs r) x)" for x
    using Br.IH(2) [of a x] Br.prems addr_not_NIL [of r] by (cases "r = Tip") auto
  ultimately show ?case using h by (subst mid_travel.simps) simp
qed simp

lemma mid_travel_rb:
  assumes "rb_wf s q t"
  shows "util_rbtree_mid_travel s opera x = ok (fold (\<lambda>a. opera (the (heap s a))) (addrs t) x) \<and> sorted (keys t)"
  using mid_travel_ok [OF _ rb_wf_parts(4,6) [OF assms]] rb_wf_parts(3,5) [OF assms] empty_iff [OF assms]
  by (cases "t = Tip") (auto simp: util_rbtree_mid_travel_def)

text \<open>
  The traversal calls \<open>opera\<close> once for every node, in ascending order of the keys.
\<close>

theorem mid_travel_in_order:
  assumes "rb_wf s q t"
  shows "util_rbtree_mid_travel s opera x = ok (fold (\<lambda>a. opera (the (heap s a))) (addrs t) x) \<and> sorted (keys t)"
  by (rule mid_travel_rb [OF assms])

subsection \<open>The self-check\<close>

lemma bh_size: "invh t \<Longrightarrow> 2 ^ bh t \<le> length (entries t) + 1"
  by (induction t) auto

lemma check_subtree_ok:
  "t \<noteq> Tip \<Longrightarrow> tree (heap s) q t \<Longrightarrow> NIL \<notin> set (addrs t) \<Longrightarrow> invc t \<Longrightarrow> invh t \<Longrightarrow> sorted (keys t) \<Longrightarrow>
   fini ch = 0 \<Longrightarrow> 0 \<le> cur \<Longrightarrow> rbh ch = 0 \<or> rbh ch = cur + int (bh t) \<Longrightarrow> cur + int (bh t) < 2 ^ 15 \<Longrightarrow>
   \<exists>ch'. rbtree_check_subtree s (addr_of t) level cur ch = ok ch' \<and> fini ch' = 0 \<and> rbh ch' = cur + int (bh t)"
proof (induction t arbitrary: q ch level cur)
  case (Br l a c k d r)
  have h: "heap s a = Some \<lparr>key = k, parent = q, right = addr_of r, left = addr_of l, color = c, vdata = d\<rparr>"
    "c = 0 \<or> c = 1" using Br.prems by auto
  let ?cur = "if c = 1 then cur + 1 else cur"
  have cur: "?cur + int (bh l) = cur + int (bh (Br l a c k d r))" "bh r = bh l" using Br.prems(5) by auto
  note so = Br.prems(6) [unfolded sorted_keys_Br]
  have height: "fini (check_rb_height level ?cur ch) = 0 \<and> rbh (check_rb_height level ?cur ch) = cur + int (bh (Br l a c k d r))"
    if "bh l = 0" "fini ch = 0" "rbh ch = 0 \<or> rbh ch = ?cur" for ch
  proof -
    have "i16 ?cur = ?cur" using Br.prems(8,10) that(1) unfolding i16_def by (intro signed_take_bit_int_eq_self) auto
    then show ?thesis using that cur by (auto simp: check_rb_height_def Let_def)
  qed
  show ?case
  proof (cases l)
    case Tip
    then show ?thesis using h height [of ch] Br.prems(7,9)
      by (subst rbtree_check_subtree.simps) (auto simp: Let_def)
  next
    case L: (Br ll la lc lk ld lr)
    have l: "heap s la = Some \<lparr>key = lk, parent = a, right = addr_of lr, left = addr_of ll, color = lc, vdata = ld\<rparr>" "la \<noteq> NIL"
      "\<not> (c = 0 \<and> lc = 0)" "\<not> k < lk"
      using Br.prems so by (auto simp: L)
    obtain ch1 where ch1: "rbtree_check_subtree s (addr_of l) (level + 1) ?cur ch = ok ch1" "fini ch1 = 0" "rbh ch1 = ?cur + int (bh l)"
      using Br.IH(1) [of a ch ?cur "level + 1"] Br.prems so cur L by auto
    show ?thesis
    proof (cases r)
      case Tip
      then have "bh l = 0" using cur(2) by simp
      then show ?thesis using h l ch1 Tip height [of ch1] Br.prems(7) L
        by (subst rbtree_check_subtree.simps) (auto simp: Let_def)
    next
      case R: (Br rl ra rc rk rd rr)
      have r: "heap s ra = Some \<lparr>key = rk, parent = a, right = addr_of rr, left = addr_of rl, color = rc, vdata = rd\<rparr>" "ra \<noteq> NIL"
        "\<not> (c = 0 \<and> rc = 0)" "\<not> rk < k"
        using Br.prems so by (auto simp: R)
      obtain ch2 where "rbtree_check_subtree s (addr_of r) (level + 1) ?cur ch1 = ok ch2" "fini ch2 = 0" "rbh ch2 = ?cur + int (bh r)"
        using Br.IH(2) [of a ch1 ?cur "level + 1"] Br.prems so cur R ch1 by auto
      then show ?thesis using h l r ch1 Br.prems(7) L R cur
        by (subst rbtree_check_subtree.simps) (auto simp: Let_def)
    qed
  qed
qed simp

text \<open>
  The self-check accepts every tree the operations can build: it returns 0 with the black
  height of the tree, and that height is at most logarithmic in the number of nodes.
\<close>

theorem check_accepts_red_black:
  assumes "rb_wf s q t" and "t \<noteq> Tip" and "length (entries t) < 2 ^ 15"
  shows "\<exists>depth. util_rbtree_check s = ok (0, Some (int (bh t), depth)) \<and> 2 ^ bh t \<le> length (entries t) + 1"
proof -
  have b: "2 ^ bh t \<le> length (entries t) + 1" using bh_size rb_wf_parts(2) [OF assms(1)] by (simp add: red_black_def)
  have "bh t < 2 ^ bh t" by (rule less_exp)
  then have "bh t < 2 ^ 15" using b assms(3) by linarith
  then have "int (bh t) < 2 ^ 15" by simp
  then obtain ch where "rbtree_check_subtree s (addr_of t) 1 0 \<lparr>rbh = 0, maxd = 0, fini = 0\<rparr> = ok ch" "fini ch = 0" "rbh ch = int (bh t)"
    using check_subtree_ok [OF assms(2) rb_wf_parts(4,6) [OF assms(1)] _ _ rb_wf_parts(3) [OF assms(1)],
        of "\<lparr>rbh = 0, maxd = 0, fini = 0\<rparr>" 0 1] rb_wf_parts(2) [OF assms(1)] by (auto simp: red_black_def)
  moreover have "util_rbt_isblack s (root s) = ok True"
    using colour_reads(2) [OF rb_wf_parts(9) [OF assms(1)] rb_wf_parts(4) [OF assms(1)]] rb_wf_parts(2,5) [OF assms(1)] by (simp add: red_black_def)
  ultimately show ?thesis
    using addr_not_NIL [OF rb_wf_parts(6) [OF assms(1)] assms(2)] rb_wf_parts(5) [OF assms(1)] b by (simp add: util_rbtree_check_def)
qed

subsection \<open>A concrete tree, and two defects\<close>

definition is_undefined :: "'a res \<Rightarrow> bool" where
  "is_undefined m = (case m of Some (Inl e) \<Rightarrow> e = Undefined | _ \<Rightarrow> False)"

definition fresh_node :: "int \<Rightarrow> util_rbtree_node_t" where
  "fresh_node k = \<lparr>key = k, parent = 77, right = 77, left = 77, color = 7, vdata = 0\<rparr>"

text \<open>Unlinked nodes at the addresses 20 to 29, each with its address as its key.\<close>

definition pool :: "addr \<Rightarrow> util_rbtree_node_t option" where
  "pool a = (if 20 \<le> a \<and> a < 30 then Some (fresh_node (int a)) else None)"

definition two_nodes :: util_rbtree_t where
  "two_nodes = \<lparr>root = 10, rb_size = 2, heap = pool(
     1 \<mapsto> \<lparr>key = 0, parent = 77, right = 77, left = 77, color = 1, vdata = 0\<rparr>,
     10 \<mapsto> \<lparr>key = 10, parent = 1, right = 12, left = 1, color = 1, vdata = 7\<rparr>,
     12 \<mapsto> \<lparr>key = 22, parent = 10, right = 1, left = 1, color = 0, vdata = 8\<rparr>)\<rparr>"

definition two_tree :: rbt where
  "two_tree = Br Tip 10 1 10 7 (Br Tip 12 0 22 8 Tip)"

lemma two_nodes_inv: "rb_inv two_nodes NIL two_tree"
  by (simp add: rb_inv_def rb_wf_def rep_def two_nodes_def two_tree_def red_black_def nil_black_def outer_def NIL_def NULL_def pool_def)

lemma two_nodes_wf: "rb_wf two_nodes NIL two_tree"
  using two_nodes_inv by (simp add: rb_inv_def)

theorem insert_keeps_red_black_witness:
  "\<exists>s' q' t'. util_rbtree_insert 21 two_nodes = ok s' \<and> rb_inv s' q' t' \<and> entries t' = [(10, 10, 7), (21, 21, 0), (12, 22, 8)]"
  using insert_keeps_red_black [OF two_nodes_inv, of 21 "fresh_node 21"]
  by (force simp: two_nodes_def two_tree_def fresh_node_def pool_def NIL_def NULL_def)

theorem delete_keeps_red_black_witness:
  "\<exists>s' q' t'. util_rbtree_delete 10 two_nodes = ok s' \<and> rb_wf s' q' t' \<and> entries t' = [(12, 22, 8)]"
  using delete_keeps_red_black [OF two_nodes_wf, of 10 10 7] by (force simp: two_tree_def)

theorem init_is_empty_tree_witness:
  "\<exists>s'. util_rbtree_init two_nodes = ok s' \<and> rb_inv s' NIL Tip"
  using init_is_empty_tree [of two_nodes] by (force simp: two_nodes_def NIL_def)

theorem min_max_are_ends_witness: "util_rbtree_min two_nodes = ok 10 \<and> util_rbtree_max two_nodes = ok 12"
  using min_max_are_ends [OF two_nodes_wf] by (simp add: two_tree_def)

theorem search_finds_exactly_the_keys_witness: "util_rbtree_search two_nodes 22 = ok 12 \<and> util_rbtree_search two_nodes 11 = ok NULL"
  using search_finds_exactly_the_keys [OF two_nodes_wf, of 22] search_finds_exactly_the_keys [OF two_nodes_wf, of 11]
  by (auto simp: two_tree_def)

theorem lookup_is_ring_successor_witness: "util_rbtree_lookup two_nodes 11 = ok 12 \<and> util_rbtree_lookup two_nodes 23 = ok 10"
  using lookup_is_ring_successor [OF two_nodes_wf, of 11] lookup_is_ring_successor [OF two_nodes_wf, of 23]
  by (simp add: two_tree_def first_at_least_def)

theorem mid_travel_in_order_witness: "util_rbtree_mid_travel two_nodes (\<lambda>n ks. ks @ [key n]) [] = ok [10, 22]"
  using mid_travel_in_order [OF two_nodes_wf, of "\<lambda>n ks. ks @ [key n]" "[]"] by (simp add: two_tree_def two_nodes_def)

theorem check_accepts_red_black_witness: "\<exists>depth. util_rbtree_check two_nodes = ok (0, Some (1, depth))"
  using check_accepts_red_black [OF two_nodes_wf] by (simp add: two_tree_def)

definition use_after_root_deletion :: "(util_rbtree_t \<Rightarrow> util_rbtree_t) \<Rightarrow> util_rbtree_t res" where
  "use_after_root_deletion dispose =
     bnd (util_rbtree_delete 10 two_nodes) (\<lambda>s.
     bnd (util_rbtree_insert 21 (dispose s)) (\<lambda>s.
     bnd (util_rbtree_insert 23 s) (\<lambda>s. util_rbtree_insert 20 s)))"

text \<open>
  The code frees what the tree still points to: deleting the root of a two-node tree leaves
  the parent link of the new root on the deleted node.  When the node is then freed, as
  \<open>__conhash_del_replicas\<close> does, three insertions are enough for the repair loop to climb to
  the root and read the colour of the freed node; the same calls without the \<open>free\<close> are defined.
\<close>

theorem freed_root_is_read:
  "is_undefined (use_after_root_deletion (\<lambda>s. s\<lparr>heap := (heap s)(10 := None)\<rparr>)) \<and>
   \<not> is_undefined (use_after_root_deletion (\<lambda>s. s))"
  by code_simp

text \<open>
  The self-check does not check what its header promises: with no left child it skips the
  right subtree, so a tree with the smaller key on the right passes with code 0.
\<close>

theorem check_skips_right_subtrees:
  "util_rbtree_check (two_nodes\<lparr>heap := (heap two_nodes)(12 \<mapsto> \<lparr>key = 3, parent = 10, right = 1, left = 1, color = 0, vdata = 8\<rparr>)\<rparr>) =
     ok (0, Some (1, 1))"
  by code_simp

end
