(* ===== verification/Md5Deutsch.thy ===== *)
theory Md5Deutsch
  imports Md5Proxy
begin

text \<open>
  The second MD5 of the repository, \<^verbatim>\<open>nginx/c/md5.c\<close> (L. Peter Deutsch's), which the
  consistent hashing of the file servers uses through \<open>conhash_md5_digest\<close>
  (\<^verbatim>\<open>nginx/c/conhash_util.c\<close>).  It is proved to compress like the proxy's transform and to
  stream to the same digest, so both programs agree on every string.
\<close>

subsection \<open>The code\<close>

record md5_state_t =
  pms_count0 :: u32
  pms_count1 :: u32
  abcd :: quad
  pms_buf :: "u8 list"

definition T_MASK :: u32 where
  "T_MASK = NOT 0"

definition T_table :: "u32 list" where
  "T_table =
     [T_MASK XOR 0x28955b87, T_MASK XOR 0x173848a9,
      0x242070db, T_MASK XOR 0x3e423111,
      T_MASK XOR 0x0a83f050, 0x4787c62a,
      T_MASK XOR 0x57cfb9ec, T_MASK XOR 0x02b96afe,
      0x698098d8, T_MASK XOR 0x74bb0850,
      T_MASK XOR 0x0000a44e, T_MASK XOR 0x76a32841,
      0x6b901122, T_MASK XOR 0x02678e6c,
      T_MASK XOR 0x5986bc71, 0x49b40821,
      T_MASK XOR 0x09e1da9d, T_MASK XOR 0x3fbf4cbf,
      0x265e5a51, T_MASK XOR 0x16493855,
      T_MASK XOR 0x29d0efa2, 0x02441453,
      T_MASK XOR 0x275e197e, T_MASK XOR 0x182c0437,
      0x21e1cde6, T_MASK XOR 0x3cc8f829,
      T_MASK XOR 0x0b2af278, 0x455a14ed,
      T_MASK XOR 0x561c16fa, T_MASK XOR 0x03105c07,
      0x676f02d9, T_MASK XOR 0x72d5b375,
      T_MASK XOR 0x0005c6bd, T_MASK XOR 0x788e097e,
      0x6d9d6122, T_MASK XOR 0x021ac7f3,
      T_MASK XOR 0x5b4115bb, 0x4bdecfa9,
      T_MASK XOR 0x0944b49f, T_MASK XOR 0x4140438f,
      0x289b7ec6, T_MASK XOR 0x155ed805,
      T_MASK XOR 0x2b10cf7a, 0x04881d05,
      T_MASK XOR 0x262b2fc6, T_MASK XOR 0x1924661a,
      0x1fa27cf8, T_MASK XOR 0x3b53a99a,
      T_MASK XOR 0x0bd6ddbb, 0x432aff97,
      T_MASK XOR 0x546bdc58, T_MASK XOR 0x036c5fc6,
      0x655b59c3, T_MASK XOR 0x70f3336d,
      T_MASK XOR 0x00100b82, T_MASK XOR 0x7a7ba22e,
      0x6fa87e4f, T_MASK XOR 0x01d3191f,
      T_MASK XOR 0x5cfebceb, 0x4e0811a1,
      T_MASK XOR 0x08ac817d, T_MASK XOR 0x42c50dca,
      0x2ad7d2bb, T_MASK XOR 0x14792c6e]"

definition T :: "nat \<Rightarrow> u32" where
  "T i = T_table ! (i - 1)"

definition SET_F :: "u32 \<Rightarrow> u32 \<Rightarrow> u32 \<Rightarrow> u32 \<Rightarrow> u32 \<Rightarrow> nat \<Rightarrow> u32 \<Rightarrow> u32" where
  "SET_F a b c d xk s Ti = (let t = a + md5_F b c d + xk + Ti in ROTATE_LEFT t s + b)"

definition SET_G :: "u32 \<Rightarrow> u32 \<Rightarrow> u32 \<Rightarrow> u32 \<Rightarrow> u32 \<Rightarrow> nat \<Rightarrow> u32 \<Rightarrow> u32" where
  "SET_G a b c d xk s Ti = (let t = a + md5_G b c d + xk + Ti in ROTATE_LEFT t s + b)"

definition SET_H :: "u32 \<Rightarrow> u32 \<Rightarrow> u32 \<Rightarrow> u32 \<Rightarrow> u32 \<Rightarrow> nat \<Rightarrow> u32 \<Rightarrow> u32" where
  "SET_H a b c d xk s Ti = (let t = a + md5_H b c d + xk + Ti in ROTATE_LEFT t s + b)"

definition SET_I :: "u32 \<Rightarrow> u32 \<Rightarrow> u32 \<Rightarrow> u32 \<Rightarrow> u32 \<Rightarrow> nat \<Rightarrow> u32 \<Rightarrow> u32" where
  "SET_I a b c d xk s Ti = (let t = a + md5_I b c d + xk + Ti in ROTATE_LEFT t s + b)"

definition process_round1 :: "u32 list \<Rightarrow> quad \<Rightarrow> quad" where
  "process_round1 X q = (case q of (a, b, c, d) \<Rightarrow>
      let a = SET_F a b c d (X ! 0) 7 (T 1);
        d = SET_F d a b c (X ! 1) 12 (T 2);
        c = SET_F c d a b (X ! 2) 17 (T 3);
        b = SET_F b c d a (X ! 3) 22 (T 4);
        a = SET_F a b c d (X ! 4) 7 (T 5);
        d = SET_F d a b c (X ! 5) 12 (T 6);
        c = SET_F c d a b (X ! 6) 17 (T 7);
        b = SET_F b c d a (X ! 7) 22 (T 8);
        a = SET_F a b c d (X ! 8) 7 (T 9);
        d = SET_F d a b c (X ! 9) 12 (T 10);
        c = SET_F c d a b (X ! 10) 17 (T 11);
        b = SET_F b c d a (X ! 11) 22 (T 12);
        a = SET_F a b c d (X ! 12) 7 (T 13);
        d = SET_F d a b c (X ! 13) 12 (T 14);
        c = SET_F c d a b (X ! 14) 17 (T 15);
        b = SET_F b c d a (X ! 15) 22 (T 16)
      in (a, b, c, d))"

definition process_round2 :: "u32 list \<Rightarrow> quad \<Rightarrow> quad" where
  "process_round2 X q = (case q of (a, b, c, d) \<Rightarrow>
      let a = SET_G a b c d (X ! 1) 5 (T 17);
        d = SET_G d a b c (X ! 6) 9 (T 18);
        c = SET_G c d a b (X ! 11) 14 (T 19);
        b = SET_G b c d a (X ! 0) 20 (T 20);
        a = SET_G a b c d (X ! 5) 5 (T 21);
        d = SET_G d a b c (X ! 10) 9 (T 22);
        c = SET_G c d a b (X ! 15) 14 (T 23);
        b = SET_G b c d a (X ! 4) 20 (T 24);
        a = SET_G a b c d (X ! 9) 5 (T 25);
        d = SET_G d a b c (X ! 14) 9 (T 26);
        c = SET_G c d a b (X ! 3) 14 (T 27);
        b = SET_G b c d a (X ! 8) 20 (T 28);
        a = SET_G a b c d (X ! 13) 5 (T 29);
        d = SET_G d a b c (X ! 2) 9 (T 30);
        c = SET_G c d a b (X ! 7) 14 (T 31);
        b = SET_G b c d a (X ! 12) 20 (T 32)
      in (a, b, c, d))"

definition process_round3 :: "u32 list \<Rightarrow> quad \<Rightarrow> quad" where
  "process_round3 X q = (case q of (a, b, c, d) \<Rightarrow>
      let a = SET_H a b c d (X ! 5) 4 (T 33);
        d = SET_H d a b c (X ! 8) 11 (T 34);
        c = SET_H c d a b (X ! 11) 16 (T 35);
        b = SET_H b c d a (X ! 14) 23 (T 36);
        a = SET_H a b c d (X ! 1) 4 (T 37);
        d = SET_H d a b c (X ! 4) 11 (T 38);
        c = SET_H c d a b (X ! 7) 16 (T 39);
        b = SET_H b c d a (X ! 10) 23 (T 40);
        a = SET_H a b c d (X ! 13) 4 (T 41);
        d = SET_H d a b c (X ! 0) 11 (T 42);
        c = SET_H c d a b (X ! 3) 16 (T 43);
        b = SET_H b c d a (X ! 6) 23 (T 44);
        a = SET_H a b c d (X ! 9) 4 (T 45);
        d = SET_H d a b c (X ! 12) 11 (T 46);
        c = SET_H c d a b (X ! 15) 16 (T 47);
        b = SET_H b c d a (X ! 2) 23 (T 48)
      in (a, b, c, d))"

definition process_round4 :: "u32 list \<Rightarrow> quad \<Rightarrow> quad" where
  "process_round4 X q = (case q of (a, b, c, d) \<Rightarrow>
      let a = SET_I a b c d (X ! 0) 6 (T 49);
        d = SET_I d a b c (X ! 7) 10 (T 50);
        c = SET_I c d a b (X ! 14) 15 (T 51);
        b = SET_I b c d a (X ! 5) 21 (T 52);
        a = SET_I a b c d (X ! 12) 6 (T 53);
        d = SET_I d a b c (X ! 3) 10 (T 54);
        c = SET_I c d a b (X ! 10) 15 (T 55);
        b = SET_I b c d a (X ! 1) 21 (T 56);
        a = SET_I a b c d (X ! 8) 6 (T 57);
        d = SET_I d a b c (X ! 15) 10 (T 58);
        c = SET_I c d a b (X ! 6) 15 (T 59);
        b = SET_I b c d a (X ! 13) 21 (T 60);
        a = SET_I a b c d (X ! 4) 6 (T 61);
        d = SET_I d a b c (X ! 11) 10 (T 62);
        c = SET_I c d a b (X ! 2) 15 (T 63);
        b = SET_I b c d a (X ! 9) 21 (T 64)
      in (a, b, c, d))"

text \<open>
  The processor is little-endian, so the block is read as sixteen words in place (or, when it
  is not aligned, from a copy of its 64 bytes): the words are the same.
\<close>

definition md5_process :: "md5_state_t \<Rightarrow> u8 list \<Rightarrow> md5_state_t" where
  "md5_process pms data =
     (let (a, b, c, d) = abcd pms;
          X = block_words data;
          (a', b', c', d') =
            process_round4 X (process_round3 X (process_round2 X (process_round1 X (a, b, c, d))))
      in pms\<lparr>abcd := (a + a', b + b', c + c', d + d')\<rparr>)"

definition md5_init :: "md5_state_t \<Rightarrow> md5_state_t" where
  "md5_init pms =
     pms\<lparr>pms_count0 := 0, pms_count1 := 0,
         abcd := (0x67452301, T_MASK XOR 0x10325476, T_MASK XOR 0x67452301, 0x10325476)\<rparr>"

text \<open>The loop over the full blocks, then the partial block: \<open>p\<close> is what is left to read.\<close>

function append_blocks :: "md5_state_t \<Rightarrow> u8 list \<Rightarrow> int \<Rightarrow> md5_state_t" where
  "append_blocks pms p left =
     (if left \<ge> 64 then append_blocks (md5_process pms (take 64 p)) (drop 64 p) (left - 64)
      else if left \<noteq> 0 then pms\<lparr>pms_buf := memcpy_at (pms_buf pms) 0 p (nat left)\<rparr>
      else pms)"
  by pat_completeness auto
termination
  by (relation "measure (\<lambda>(pms, p, left). nat left)") auto

declare append_blocks.simps [simp del]

definition md5_append :: "md5_state_t \<Rightarrow> u8 list \<Rightarrow> int \<Rightarrow> md5_state_t" where
  "md5_append pms data nbytes =
     (let offset = uint (drop_bit 3 (pms_count0 pms) AND 63);
          nbits = push_bit 3 (of_int nbytes :: u32)
      in if nbytes \<le> 0 then pms
         else
           let c1 = pms_count1 pms + of_int (nbytes div 2 ^ 29);
               c0 = pms_count0 pms + nbits;
               c1 = (if c0 < nbits then c1 + 1 else c1);
               pms = pms\<lparr>pms_count0 := c0, pms_count1 := c1\<rparr>
           in if offset \<noteq> 0
              then let copy = (if offset + nbytes > 64 then 64 - offset else nbytes);
                       pms = pms\<lparr>pms_buf := memcpy_at (pms_buf pms) (nat offset) data (nat copy)\<rparr>
                   in if offset + copy < 64 then pms
                      else append_blocks (md5_process pms (pms_buf pms)) (drop (nat copy) data) (nbytes - copy)
              else append_blocks pms data nbytes)"

definition md5_finish_pad :: "u8 list" where
  "md5_finish_pad = 0x80 # replicate 63 0"

definition md5_finish :: "md5_state_t \<Rightarrow> u8 list" where
  "md5_finish pms =
     (let data = map (\<lambda>i. ucast (drop_bit (i mod 4 * 8) ([pms_count0 pms, pms_count1 pms] ! (i div 4)))) [0..<8];
          pms = md5_append pms md5_finish_pad (uint (((55 - drop_bit 3 (pms_count0 pms)) AND 63) + 1));
          pms = md5_append pms data 8;
          (a, b, c, d) = abcd pms
      in map (\<lambda>i. ucast (drop_bit (i mod 4 * 8) ([a, b, c, d] ! (i div 4)))) [0..<16])"

definition conhash_md5_digest :: "md5_state_t \<Rightarrow> string \<Rightarrow> u8 list" where
  "conhash_md5_digest md5state instr =
     (let md5state = md5_init md5state;
          md5state = md5_append md5state (map of_char instr) (int (length instr))
      in md5_finish md5state)"

subsection \<open>The same rounds as the proxy's\<close>

lemma T_values:
  "T 1 = 0xd76aa478"
  "T 2 = 0xe8c7b756"
  "T 3 = 0x242070db"
  "T 4 = 0xc1bdceee"
  "T 5 = 0xf57c0faf"
  "T 6 = 0x4787c62a"
  "T 7 = 0xa8304613"
  "T 8 = 0xfd469501"
  "T 9 = 0x698098d8"
  "T 10 = 0x8b44f7af"
  "T 11 = 0xffff5bb1"
  "T 12 = 0x895cd7be"
  "T 13 = 0x6b901122"
  "T 14 = 0xfd987193"
  "T 15 = 0xa679438e"
  "T 16 = 0x49b40821"
  "T 17 = 0xf61e2562"
  "T 18 = 0xc040b340"
  "T 19 = 0x265e5a51"
  "T 20 = 0xe9b6c7aa"
  "T 21 = 0xd62f105d"
  "T 22 = 0x2441453"
  "T 23 = 0xd8a1e681"
  "T 24 = 0xe7d3fbc8"
  "T 25 = 0x21e1cde6"
  "T 26 = 0xc33707d6"
  "T 27 = 0xf4d50d87"
  "T 28 = 0x455a14ed"
  "T 29 = 0xa9e3e905"
  "T 30 = 0xfcefa3f8"
  "T 31 = 0x676f02d9"
  "T 32 = 0x8d2a4c8a"
  "T 33 = 0xfffa3942"
  "T 34 = 0x8771f681"
  "T 35 = 0x6d9d6122"
  "T 36 = 0xfde5380c"
  "T 37 = 0xa4beea44"
  "T 38 = 0x4bdecfa9"
  "T 39 = 0xf6bb4b60"
  "T 40 = 0xbebfbc70"
  "T 41 = 0x289b7ec6"
  "T 42 = 0xeaa127fa"
  "T 43 = 0xd4ef3085"
  "T 44 = 0x4881d05"
  "T 45 = 0xd9d4d039"
  "T 46 = 0xe6db99e5"
  "T 47 = 0x1fa27cf8"
  "T 48 = 0xc4ac5665"
  "T 49 = 0xf4292244"
  "T 50 = 0x432aff97"
  "T 51 = 0xab9423a7"
  "T 52 = 0xfc93a039"
  "T 53 = 0x655b59c3"
  "T 54 = 0x8f0ccc92"
  "T 55 = 0xffeff47d"
  "T 56 = 0x85845dd1"
  "T 57 = 0x6fa87e4f"
  "T 58 = 0xfe2ce6e0"
  "T 59 = 0xa3014314"
  "T 60 = 0x4e0811a1"
  "T 61 = 0xf7537e82"
  "T 62 = 0xbd3af235"
  "T 63 = 0x2ad7d2bb"
  "T 64 = 0xeb86d391"
  by (simp_all add: T_def T_table_def T_MASK_def)

lemma SET_ops: "SET_F = FF" "SET_G = GG" "SET_H = HH" "SET_I = II"
  by (intro ext, simp add: SET_F_def SET_G_def SET_H_def SET_I_def FF_def GG_def HH_def II_def Let_def add.assoc)+

lemma process_rounds:
  "process_round1 = transform_round1" "process_round2 = transform_round2"
  "process_round3 = transform_round3" "process_round4 = transform_round4"
  by (intro ext, simp only: SET_ops T_values process_round1_def transform_round1_def
      process_round2_def transform_round2_def process_round3_def transform_round3_def
      process_round4_def transform_round4_def)+

lemma md5_process_ref: "md5_process pms data = pms\<lparr>abcd := md5_compress (abcd pms) data\<rparr>"
proof -
  have "md5_process pms data = pms\<lparr>abcd := MD5Transform (abcd pms) data\<rparr>"
    by (simp add: md5_process_def process_rounds MD5Transform_def MD5Decode_block Let_def split: prod.split)
  then show ?thesis by (simp only: MD5Transform_ref)
qed

subsection \<open>The streaming interface\<close>

definition pms_rep :: "md5_state_t \<Rightarrow> u8 list \<Rightarrow> bool" where
  "pms_rep c m \<longleftrightarrow>
     count_rep (pms_count0 c) (pms_count1 c) (length m) \<and> length (pms_buf c) = 64 \<and>
     absorb md5_iv m = (abcd c, take (length m mod 64) (pms_buf c))"

lemma append_blocks_absorb:
  assumes "0 \<le> left" "nat left \<le> length p" "length (pms_buf pms) = 64"
  shows "\<exists>buf. append_blocks pms p left =
           pms\<lparr>abcd := fst (absorb (abcd pms) (take (nat left) p)), pms_buf := buf\<rparr> \<and> length buf = 64 \<and>
           snd (absorb (abcd pms) (take (nat left) p)) = take (nat left mod 64) buf"
  using assms
proof (induction pms p left rule: append_blocks.induct)
  case (1 pms p left)
  show ?case
  proof (cases "left \<ge> 64")
    case True
    have "64 \<le> length (take (nat left) p)" "take 64 (take (nat left) p) = take 64 p"
      "drop 64 (take (nat left) p) = take (nat (left - 64)) (drop 64 p)"
      using True "1.prems" by (simp_all add: drop_take nat_diff_distrib)
    then have ab: "absorb (abcd pms) (take (nat left) p) =
        absorb (abcd (md5_process pms (take 64 p))) (take (nat (left - 64)) (drop 64 p))"
      by (simp add: absorb_block md5_process_ref)
    have md: "nat (left - 64) mod 64 = nat left mod 64"
      using True by (simp add: nat_diff_distrib mod_if [of "nat left"])
    have "\<exists>buf. append_blocks (md5_process pms (take 64 p)) (drop 64 p) (left - 64) =
        (md5_process pms (take 64 p))\<lparr>abcd := fst (absorb (abcd pms) (take (nat left) p)), pms_buf := buf\<rparr> \<and>
        length buf = 64 \<and> snd (absorb (abcd pms) (take (nat left) p)) = take (nat left mod 64) buf"
      unfolding ab using "1.IH" [OF True] True "1.prems" by (simp add: md md5_process_ref)
    with True show ?thesis
      by (simp add: append_blocks.simps [of pms p left] md5_process_ref)
  next
    case False
    let ?buf = "if left = 0 then pms_buf pms else memcpy_at (pms_buf pms) 0 p (nat left)"
    have "append_blocks pms p left = pms\<lparr>abcd := abcd pms, pms_buf := ?buf\<rparr>"
      using False by (simp add: append_blocks.simps [of pms p left])
    moreover have "length ?buf = 64" "take (nat left mod 64) ?buf = take (nat left) p"
      using False "1.prems" take_memcpy_at [of 0 "nat left" "pms_buf pms" p] by auto
    moreover have "absorb (abcd pms) (take (nat left) p) = (abcd pms, take (nat left) p)"
      using False "1.prems" by simp
    ultimately show ?thesis by (intro exI [of _ ?buf]) simp
  qed
qed

lemma append_blocks_nat:
  assumes "k \<le> length p" "length (pms_buf pms) = 64"
  shows "\<exists>buf. append_blocks pms p (int k) =
           pms\<lparr>abcd := fst (absorb (abcd pms) (take k p)), pms_buf := buf\<rparr> \<and> length buf = 64 \<and>
           snd (absorb (abcd pms) (take k p)) = take (k mod 64) buf"
  using append_blocks_absorb [of "int k" p pms] assms by simp

lemma count_words_int:
  "push_bit 3 (of_int (int k) :: u32) = push_bit 3 (of_nat k)"
  "k < 2 ^ 31 \<Longrightarrow> (of_int (int k div 2 ^ 29) :: u32) = drop_bit 29 (of_nat k)"
proof -
  show "(of_int (int k div 2 ^ 29) :: u32) = drop_bit 29 (of_nat k)" if "k < 2 ^ 31"
  proof -
    have "int k div 2 ^ 29 = int (k div 2 ^ 29)" by (simp add: zdiv_int)
    then have "(of_int (int k div 2 ^ 29) :: u32) = of_nat (k div 2 ^ 29)" by simp
    also have "\<dots> = drop_bit 29 (of_nat k)"
      using that by (intro word_unat_eq_iff [THEN iffD2])
        (simp add: unat_div unat_of_nat drop_bit_eq_div)
    finally show ?thesis .
  qed
qed simp

lemma md5_append_counts:
  assumes cnt: "count_rep (pms_count0 c) (pms_count1 c) n" and k: "k < 2 ^ 28"
    and c0: "c0 = pms_count0 c + push_bit 3 (of_nat k)"
    and c1: "c1 = (if c0 < push_bit 3 (of_nat k)
      then pms_count1 c + of_int (int k div 2 ^ 29) + 1 else pms_count1 c + of_int (int k div 2 ^ 29))"
  shows "count_rep c0 c1 (n + k)"
proof -
  have top: "(of_int (int k div 2 ^ 29) :: u32) = drop_bit 29 (of_nat k)"
    using k by (intro count_words_int(2)) simp
  have "c1 = (if c0 < push_bit 3 (of_nat k) then pms_count1 c + 1 else pms_count1 c) + drop_bit 29 (of_nat k)"
    unfolding c1 top by (cases "c0 < push_bit 3 (of_nat k)") (simp_all only: if_True if_False ac_simps)
  then show ?thesis
    using count_rep_add [OF cnt less_trans [OF k]] unfolding c0 by simp
qed

text \<open>
  The two paths of \<open>md5_append\<close>: the buffer is empty and whole blocks are taken from the input,
  or the buffer is filled first with \<open>cp\<close> bytes and a full one is processed.
\<close>

lemma md5_append_path:
  assumes "count_rep (pms_count0 c) (pms_count1 c) n" and "k < 2 ^ 28" and k0: "k \<noteq> 0"
  shows "\<exists>c0 c1. count_rep c0 c1 (n + k) \<and> md5_append c xs (int k) =
    (let c' = c\<lparr>pms_count0 := c0, pms_count1 := c1\<rparr>; r = n mod 64; cp = (if r + k > 64 then 64 - r else k);
         buf = memcpy_at (pms_buf c) r xs cp in
     if r = 0 then append_blocks c' xs (int k)
     else if r + cp < 64 then c'\<lparr>pms_buf := buf\<rparr>
     else append_blocks (md5_process (c'\<lparr>pms_buf := buf\<rparr>) buf) (drop cp xs) (int (k - cp)))"
proof -
  let ?r = "n mod 64"
  define cp where "cp = (if ?r + k > 64 then 64 - ?r else k)"
  define c0 where "c0 = pms_count0 c + push_bit 3 (of_nat k)"
  define c1 where "c1 = (if c0 < push_bit 3 (of_nat k)
      then pms_count1 c + of_int (int k div 2 ^ 29) + 1 else pms_count1 c + of_int (int k div 2 ^ 29))"
  have off: "uint (drop_bit 3 (pms_count0 c) AND 63) = int ?r"
    using count_rep_index [OF assms(1)] by (simp add: uint_nat)
  have r: "?r < 64" by simp
  have "(if int ?r + int k > 64 then 64 - int ?r else int k) = int cp" "cp \<le> k" "?r + cp \<le> 64"
    using r by (auto simp: cp_def)
  then have "md5_append c xs (int k) =
    (if ?r = 0 then append_blocks (c\<lparr>pms_count0 := c0, pms_count1 := c1\<rparr>) xs (int k)
     else if ?r + cp < 64 then c\<lparr>pms_count0 := c0, pms_count1 := c1, pms_buf := memcpy_at (pms_buf c) ?r xs cp\<rparr>
     else append_blocks (md5_process (c\<lparr>pms_count0 := c0, pms_count1 := c1, pms_buf := memcpy_at (pms_buf c) ?r xs cp\<rparr>)
       (memcpy_at (pms_buf c) ?r xs cp)) (drop cp xs) (int (k - cp)))"
    using k0 off by (simp add: md5_append_def Let_def c0_def c1_def count_words_int(1) of_nat_diff del: of_int_of_nat_eq)
  moreover have "count_rep c0 c1 (n + k)" by (rule md5_append_counts [OF assms(1,2) c0_def c1_def])
  ultimately show ?thesis by (intro exI [of _ c0] exI [of _ c1]) (simp add: Let_def cp_def)
qed

text \<open>A buffer that is not full keeps the bytes; a full one is compressed and the rest absorbed.\<close>

lemma absorb_filled:
  assumes "length r < 64" "64 \<le> length r + k" "k \<le> length xs" "cp = 64 - length r"
  shows "absorb h (r @ take k xs) = absorb (md5_compress h (r @ take cp xs)) (take (k - cp) (drop cp xs))"
proof -
  have "take 64 (r @ take k xs) = r @ take cp xs" "drop 64 (r @ take k xs) = take (k - cp) (drop cp xs)"
    "64 \<le> length (r @ take k xs)"
    using assms by (simp_all add: drop_take min_absorb1 min_absorb2)
  then show ?thesis by (simp only: absorb_block)
qed

lemma md5_append_rep:
  assumes rep: "pms_rep c m" and k: "k \<le> length xs" "k < 2 ^ 28"
  shows "pms_rep (md5_append c xs (int k)) (m @ take k xs)"
proof (cases "k = 0")
  case True
  then show ?thesis using rep by (simp add: md5_append_def Let_def)
next
  case False
  let ?n = "length m mod 64" and ?r = "take (length m mod 64) (pms_buf c)"
  define cp where "cp = (if ?n + k > 64 then 64 - ?n else k)"
  let ?buf = "memcpy_at (pms_buf c) ?n xs cp"
  have cnt: "count_rep (pms_count0 c) (pms_count1 c) (length m)" and len: "length (pms_buf c) = 64"
    and abs: "absorb md5_iv m = (abcd c, ?r)"
    using rep by (simp_all add: pms_rep_def)
  obtain c0 c1 where cnt': "count_rep c0 c1 (length m + k)" and upd: "md5_append c xs (int k) =
    (let c' = c\<lparr>pms_count0 := c0, pms_count1 := c1\<rparr> in
     if ?n = 0 then append_blocks c' xs (int k)
     else if ?n + cp < 64 then c'\<lparr>pms_buf := ?buf\<rparr>
     else append_blocks (md5_process (c'\<lparr>pms_buf := ?buf\<rparr>) ?buf) (drop cp xs) (int (k - cp)))"
    using md5_append_path [OF cnt k(2) False] unfolding Let_def cp_def by blast
  let ?c = "c\<lparr>pms_count0 := c0, pms_count1 := c1\<rparr>"
  have app: "absorb md5_iv (m @ take k xs) = absorb (abcd c) (?r @ take k xs)"
    by (subst absorb_append) (simp add: abs)
  have mod: "(length m + k) mod 64 = (?n + k) mod 64" by (simp add: mod_simps)
  have n: "?n < 64" by simp
  have cp: "?n + cp \<le> 64" "cp \<le> k" "?n + cp < 64 \<longleftrightarrow> ?n + k < 64" using n by (auto simp: cp_def)
  have buf: "length ?buf = 64" "take (?n + cp) ?buf = ?r @ take cp xs"
    using cp k len by (simp_all add: take_memcpy_at)
  consider (aligned) "?n = 0" | (kept) "?n \<noteq> 0" "?n + k < 64" | (full) "?n \<noteq> 0" "\<not> ?n + k < 64" by blast
  then show ?thesis
  proof cases
    case aligned
    obtain b where "append_blocks ?c xs (int k) =
        ?c\<lparr>abcd := fst (absorb (abcd c) (take k xs)), pms_buf := b\<rparr>" "length b = 64"
      "snd (absorb (abcd c) (take k xs)) = take (k mod 64) b"
      using append_blocks_nat [of k xs ?c] k len by auto
    then show ?thesis
      using cnt' aligned k app mod by (simp add: pms_rep_def upd prod_eq_iff)
  next
    case kept
    then show ?thesis
      using upd cp buf cnt' k app mod len by (simp add: pms_rep_def cp_def)
  next
    case full
    then have n64: "?n + cp = 64" "cp = 64 - ?n" using cp by simp_all
    then have bufe: "?buf = ?r @ take cp xs" using buf by simp
    have ab: "absorb (abcd c) (?r @ take k xs) = absorb (md5_compress (abcd c) ?buf) (take (k - cp) (drop cp xs))"
      unfolding bufe using full k len n64(2) by (intro absorb_filled) simp_all
    let ?d = "md5_process (?c\<lparr>pms_buf := ?buf\<rparr>) ?buf"
    have "k - cp \<le> length (drop cp xs)" "length (pms_buf ?d) = 64"
      using k cp(2) buf(1) by (simp_all add: md5_process_ref)
    then obtain b where b: "append_blocks ?d (drop cp xs) (int (k - cp)) =
        ?d\<lparr>abcd := fst (absorb (abcd ?d) (take (k - cp) (drop cp xs))), pms_buf := b\<rparr>" "length b = 64"
      "snd (absorb (abcd ?d) (take (k - cp) (drop cp xs))) = take ((k - cp) mod 64) b"
      using append_blocks_nat by blast
    have "?n + k = (k - cp) + 64" using n64(1) cp(2) by arith
    then have "(k - cp) mod 64 = (length m + k) mod 64" unfolding mod by (simp only: mod_add_self2)
    then show ?thesis
      using upd full(1) n64(1) b cnt' k app ab by (simp add: pms_rep_def md5_process_ref prod_eq_iff)
  qed
qed

lemma pad_length_word:
  assumes "count_rep lo hi n"
  shows "uint (((55 - drop_bit 3 lo) AND 63) + 1) = int (Suc ((119 - n mod 64) mod 64))"
proof -
  have and63: "x AND 63 = take_bit 6 x" for x :: u32
    using take_bit_eq_mask [of 6 x] by (simp add: mask_eq_exp_minus_1)
  have "uint (drop_bit 3 lo AND 63) = int (n mod 64)"
    unfolding count_rep_index [OF assms, symmetric] by simp
  then have n: "uint (drop_bit 3 lo) mod 64 = int (n mod 64)"
    by (simp only: and63 unsigned_take_bit_eq) (simp add: take_bit_eq_mod)
  have "uint ((55 - drop_bit 3 lo) AND 63) = (55 - uint (drop_bit 3 lo)) mod 64"
    by (simp only: and63 unsigned_take_bit_eq) (simp add: take_bit_eq_mod uint_word_ariths mod_mod_cancel)
  also have "\<dots> = (55 - int (n mod 64)) mod 64"
    by (simp add: mod_diff_right_eq flip: n)
  also have "\<dots> = int ((119 - n mod 64) mod 64)"
  proof -
    have "int (119 - n mod 64) = (55 - int (n mod 64)) + 64"
      using mod_less_divisor [of 64 n] by simp
    then show ?thesis by (simp only: zmod_int of_nat_numeral mod_add_self2)
  qed
  finally have u: "uint ((55 - drop_bit 3 lo) AND 63) = int ((119 - n mod 64) mod 64)" .
  then show ?thesis
    using mod_less_divisor [of 64 "119 - n mod 64"] by (simp add: uint_word_ariths)
qed

lemma finish_bytes:
  "map (\<lambda>i. ucast (drop_bit (i mod 4 * 8) ([a, b] ! (i div 4)))) [0..<8] = le_bytes a @ le_bytes (b :: u32)"
  "map (\<lambda>i. ucast (drop_bit (i mod 4 * 8) ([a, b, c, d] ! (i div 4)))) [0..<16] = quad_bytes (a, b, c, d)"
  by (simp_all add: upt_rec le_bytes_def quad_bytes_def)

lemma md5_finish_rep:
  assumes rep: "pms_rep c m"
  shows "md5_finish c = md5_digest m"
proof -
  let ?z = "(119 - length m mod 64) mod 64"
  let ?bits = "le_bytes (pms_count0 c) @ le_bytes (pms_count1 c)"
  have cnt: "count_rep (pms_count0 c) (pms_count1 c) (length m)" using rep by (simp add: pms_rep_def)
  have bits: "?bits = md5_length_bytes (length m)"
    using cnt by (simp only: count_rep_def md5_length_bytes_def)
  define c1 where "c1 = md5_append c md5_finish_pad (int (Suc ?z))"
  define c2 where "c2 = md5_append c1 ?bits 8"
  have z: "?z < 64" by simp
  have pad: "md5_padding (length m) = take (Suc ?z) md5_finish_pad"
    using take_PADDING [OF z] by (simp add: md5_padding_def md5_finish_pad_def PADDING_def)
  have "Suc ?z \<le> length md5_finish_pad" "Suc ?z < 2 ^ 28"
    using z by (simp_all add: md5_finish_pad_def)
  from md5_append_rep [OF rep this] have r1: "pms_rep c1 (m @ md5_padding (length m))"
    by (simp only: c1_def pad)
  have "pms_rep c2 ((m @ md5_padding (length m)) @ take 8 ?bits)"
    using md5_append_rep [OF r1, of 8 ?bits] by (simp add: c2_def)
  then have r2: "pms_rep c2 (m @ md5_padding (length m) @ md5_length_bytes (length m))"
    by (simp add: bits [symmetric])
  have "md5_finish c = quad_bytes (abcd c2)"
    unfolding md5_finish_def Let_def pad_length_word [OF cnt] finish_bytes c1_def [symmetric] c2_def [symmetric]
    by (simp split: prod.splits)
  also have "\<dots> = md5_digest m"
    using r2 by (simp add: pms_rep_def md5_digest_def)
  finally show ?thesis .
qed

lemma md5_init_rep: "length (pms_buf c) = 64 \<Longrightarrow> pms_rep (md5_init c) []"
  by (simp add: pms_rep_def md5_init_def count_rep_def md5_iv_def T_MASK_def)

interpretation pms_ctx: md5_stream "\<lambda>c xs. md5_append c xs (int (length xs))" md5_finish pms_rep "\<lambda>n. n < 2 ^ 28"
proof
  show "pms_rep (md5_append c xs (int (length xs))) (m @ xs)" if "pms_rep c m" "length xs < 2 ^ 28" for c m xs
    using md5_append_rep [OF that(1) order_refl that(2)] by simp
qed (rule md5_finish_rep)

lemma conhash_md5_digest_eq:
  assumes "length (pms_buf p) = 64" and "length s < 2 ^ 28"
  shows "conhash_md5_digest p s = md5_digest (map of_char s)"
  using pms_ctx.chunked_digest [OF md5_init_rep [OF assms(1)], of "[map of_char s]"] assms(2)
  by (simp add: conhash_md5_digest_def)

text \<open>
  C30. The two MD5 routines of the repository agree: the digest the consistent hashing of the
  file servers takes of a string (\<open>conhash_md5_digest\<close>, \<^verbatim>\<open>nginx/c/md5.c\<close>) is the digest the
  proxy's \<^verbatim>\<open>md5.c\<close> computes of it, whatever their uninitialised contexts held, for every
  string whose length in bits fits the \<open>int\<close> of \<open>md5_append\<close>.
\<close>

theorem md5_implementations_agree:
  assumes "length (pms_buf p) = 64" and "length (md5_buffer c) = 64" and "length s < 2 ^ 28"
  shows "conhash_md5_digest p s =
         MD5Final (MD5Update (MD5Init c) (map of_char s) (length s))"
  using conhash_md5_digest_eq [OF assms(1,3)] MD5_of_string [OF assms(2), of "map of_char s"] assms(3)
  by simp

theorem md5_implementations_agree_witness:
  "conhash_md5_digest \<lparr>pms_count0 = 1, pms_count1 = 2, abcd = (3, 4, 5, 6), pms_buf = replicate 64 7\<rparr> ''user:1'' =
   MD5Final (MD5Update (MD5Init \<lparr>count0 = 8, count1 = 9, md5_state = (1, 2, 3, 4), md5_buffer = replicate 64 5\<rparr>)
     (map of_char ''user:1'') (length ''user:1''))"
  by (rule md5_implementations_agree) simp_all

end
