(* ===== verification/ConHash.thy ===== *)
theory ConHash
  imports RbQuery Md5Deutsch
begin

text \<open>
  The consistent-hash ring of \<^verbatim>\<open>nginx/c/conhash.c\<close>, \<^verbatim>\<open>conhash_inter.c\<close> and \<^verbatim>\<open>conhash_util.c\<close>: a
  red-black tree of virtual nodes, each with a hash value and a pointer to the server it
  belongs to.  The cells of the tree are in the heap of the tree, the virtual nodes and the
  caller's server records in two further parts of the memory.  \<open>malloc\<close> is a parameter.
\<close>

subsection \<open>Data\<close>

record node_s =
  iden :: string
  replicas :: "32 word"
  flag :: "32 word"

definition NODE_FLAG_INIT :: "32 word" where "NODE_FLAG_INIT = 1"
definition NODE_FLAG_IN :: "32 word" where "NODE_FLAG_IN = 2"

record virtual_node_s =
  vhash :: int
  vserver :: addr

record conhash_s =
  vnode_tree :: util_rbtree_t
  ivnodes :: "32 word"
  cb_hashfunc :: "string \<Rightarrow> int"

text \<open>
  \<open>allocs\<close> numbers the calls of \<open>malloc\<close>; an allocator answers a call with an address (\<open>NULL\<close>
  when it fails) and the bytes that happen to be there.
\<close>

record memory =
  vnode_mem :: "addr \<Rightarrow> virtual_node_s option"
  node_mem :: "addr \<Rightarrow> node_s option"
  allocs :: nat

type_synonym allocator =
  "nat \<Rightarrow> (addr \<Rightarrow> util_rbtree_node_t option) \<Rightarrow> (addr \<Rightarrow> virtual_node_s option) \<Rightarrow> addr \<times> util_rbtree_node_t"

text \<open>
  What \<open>malloc\<close> promises: an address that is in use by nobody, or \<open>NULL\<close>.  \<open>malloc_succeeds\<close> is the
  allocator that never runs out of memory while finitely many addresses are in use.
\<close>

definition malloc_fresh :: "allocator \<Rightarrow> bool" where
  "malloc_fresh al \<longleftrightarrow> (\<forall>i h v. fst (al i h v) \<noteq> NULL \<longrightarrow>
     fst (al i h v) \<noteq> NIL \<and> h (fst (al i h v)) = None \<and> v (fst (al i h v)) = None)"

definition malloc_succeeds :: "allocator \<Rightarrow> bool" where
  "malloc_succeeds al \<longleftrightarrow> (\<forall>i h v. finite (dom h) \<longrightarrow> finite (dom v) \<longrightarrow> fst (al i h v) \<noteq> NULL)"

definition get :: "('k \<Rightarrow> 'v option) \<Rightarrow> 'k \<Rightarrow> ('v \<Rightarrow> 'b res) \<Rightarrow> 'b res" where
  "get h a f = (case h a of None \<Rightarrow> Some (Inl Undefined) | Some x \<Rightarrow> f x)"

lemma get_simp [simp]: "h a = Some x \<Longrightarrow> get h a f = f x"
  by (simp add: get_def)

subsection \<open>Hashing\<close>

text \<open>The default hash: the four little-endian words of the MD5 digest, added up.\<close>

definition digest_word :: "8 word list \<Rightarrow> nat \<Rightarrow> int" where
  "digest_word digest i =
     (push_bit 24 (uint (digest ! (i * 4 + 3))) OR push_bit 16 (uint (digest ! (i * 4 + 2)))) OR
     (push_bit 8 (uint (digest ! (i * 4 + 1))) OR uint (digest ! (i * 4)))"

definition conhash_hash_def :: "md5_state_t \<Rightarrow> string \<Rightarrow> int" where
  "conhash_hash_def md5state instr =
     (let digest = conhash_md5_digest md5state instr
      in fold (\<lambda>i hash. hash + digest_word digest i) [0..<4] 0)"

text \<open>\<open>%03d\<close>: the decimal digits, filled with zeros up to three characters, sign included.\<close>

definition format_03d :: "int \<Rightarrow> string" where
  "format_03d x =
     (let ds = decimal (nat \<bar>x\<bar>) in
      if x < 0 then ''-'' @ replicate (2 - length ds) (CHR ''0'') @ ds
      else replicate (3 - length ds) (CHR ''0'') @ ds)"

text \<open>
  The name of a replica; \<open>snprintf\<close> keeps 126 characters.  An \<open>iden\<close> without a terminating
  \<open>NUL\<close> in its 64 bytes is read past its end.
\<close>

definition conhash_node2string :: "node_s \<Rightarrow> nat \<Rightarrow> string res" where
  "conhash_node2string node replica_idx =
     (if CHR 0x00 \<in> set (iden node)
      then ok (take 126 (takeWhile (\<lambda>c. c \<noteq> CHR 0x00) (iden node) @ ''-'' @ format_03d (i32 (int replica_idx))))
      else Some (Inl Undefined))"

subsection \<open>Virtual nodes\<close>

definition conhash_get_rbnode :: "allocator \<Rightarrow> addr \<Rightarrow> int \<Rightarrow> util_rbtree_t \<times> memory \<Rightarrow> addr \<times> util_rbtree_t \<times> memory" where
  "conhash_get_rbnode al node hash = (\<lambda>(s, m).
     let (rbnode, junk) = al (allocs m) (heap s) (vnode_mem m);
         m = m\<lparr>allocs := Suc (allocs m)\<rparr>
     in if rbnode \<noteq> NULL then
          let s = s\<lparr>heap := (heap s)(rbnode \<mapsto> junk\<lparr>key := hash\<rparr>)\<rparr>;
              d = fst (al (allocs m) (heap s) (vnode_mem m));
              m = m\<lparr>allocs := Suc (allocs m)\<rparr>
          in if d \<noteq> NULL then
               (rbnode, s\<lparr>heap := (heap s)(rbnode \<mapsto> junk\<lparr>key := hash, vdata := d\<rparr>)\<rparr>,
                m\<lparr>vnode_mem := (vnode_mem m)(d \<mapsto> \<lparr>vhash = hash, vserver = node\<rparr>)\<rparr>)
             else (NULL, s\<lparr>heap := (heap s)(rbnode := None)\<rparr>, m)
        else (NULL, s, m))"

text \<open>Both blocks are freed: the virtual node, then the cell of the tree.\<close>

definition conhash_del_rbnode :: "addr \<Rightarrow> util_rbtree_t \<times> memory \<Rightarrow> (util_rbtree_t \<times> memory) res" where
  "conhash_del_rbnode rbnode = (\<lambda>(s, m).
     bnd (rd s rbnode vdata) (\<lambda>d.
     bnd (if d = NULL then ok m
          else get (vnode_mem m) d (\<lambda>_. ok (m\<lparr>vnode_mem := (vnode_mem m)(d := None)\<rparr>))) (\<lambda>m.
       ok (s\<lparr>heap := (heap s)(rbnode := None)\<rparr>, m))))"

subsection \<open>Replicas of a server\<close>

definition add_replica :: "allocator \<Rightarrow> addr \<Rightarrow> nat \<Rightarrow> conhash_s \<times> memory \<Rightarrow> (conhash_s \<times> memory) res" where
  "add_replica al node i = (\<lambda>(c, m).
     get (node_mem m) node (\<lambda>n.
     bnd (conhash_node2string n i) (\<lambda>buff.
     let hash = cb_hashfunc c buff in
     bnd (util_rbtree_search (vnode_tree c) hash) (\<lambda>found.
       if found = NULL then
         let (rbnode, s, m) = conhash_get_rbnode al node hash (vnode_tree c, m) in
         if rbnode \<noteq> NULL then
           bnd (util_rbtree_insert rbnode s) (\<lambda>s. ok (c\<lparr>vnode_tree := s, ivnodes := ivnodes c + 1\<rparr>, m))
         else ok (c\<lparr>vnode_tree := s\<rparr>, m)
       else ok (c, m)))))"

fun add_from :: "allocator \<Rightarrow> addr \<Rightarrow> nat list \<Rightarrow> conhash_s \<times> memory \<Rightarrow> (conhash_s \<times> memory) res" where
  "add_from al node [] cm = ok cm"
| "add_from al node (i # is) cm = bnd (add_replica al node i cm) (add_from al node is)"

definition conhash_add_replicas :: "allocator \<Rightarrow> addr \<Rightarrow> conhash_s \<times> memory \<Rightarrow> (conhash_s \<times> memory) res" where
  "conhash_add_replicas al node cm =
     get (node_mem (snd cm)) node (\<lambda>n. add_from al node [0..<unat (replicas n)] cm)"

definition del_replica :: "addr \<Rightarrow> nat \<Rightarrow> conhash_s \<times> memory \<Rightarrow> (conhash_s \<times> memory) res" where
  "del_replica node i = (\<lambda>(c, m).
     get (node_mem m) node (\<lambda>n.
     bnd (conhash_node2string n i) (\<lambda>buff.
     let hash = cb_hashfunc c buff in
     bnd (util_rbtree_search (vnode_tree c) hash) (\<lambda>rbnode.
       if rbnode \<noteq> NULL then
         bnd (rd (vnode_tree c) rbnode vdata) (\<lambda>d.
         get (vnode_mem m) d (\<lambda>vnode.
           if vhash vnode = hash \<and> vserver vnode = node then
             bnd (util_rbtree_delete rbnode (vnode_tree c)) (\<lambda>s.
             bnd (conhash_del_rbnode rbnode (s, m)) (\<lambda>(s, m).
               ok (c\<lparr>vnode_tree := s, ivnodes := ivnodes c - 1\<rparr>, m)))
           else ok (c, m)))
       else ok (c, m)))))"

fun del_from :: "addr \<Rightarrow> nat list \<Rightarrow> conhash_s \<times> memory \<Rightarrow> (conhash_s \<times> memory) res" where
  "del_from node [] cm = ok cm"
| "del_from node (i # is) cm = bnd (del_replica node i cm) (del_from node is)"

definition conhash_del_replicas :: "addr \<Rightarrow> conhash_s \<times> memory \<Rightarrow> (conhash_s \<times> memory) res" where
  "conhash_del_replicas node cm =
     get (node_mem (snd cm)) node (\<lambda>n. del_from node [0..<unat (replicas n)] cm)"

subsection \<open>The interface\<close>

text \<open>
  A pointer to a ring is an option, \<open>NULL\<close> is \<open>None\<close>.  The ring comes from \<open>calloc\<close>, which may
  fail; the bytes of the tree's sentinel are then zero.
\<close>

definition conhash_init :: "md5_state_t \<Rightarrow> (string \<Rightarrow> int) option \<Rightarrow> bool \<Rightarrow> conhash_s option res" where
  "conhash_init md5state pfhash allocated =
     (if \<not> allocated then ok None
      else
        bnd (util_rbtree_init \<lparr>root = NULL, rb_size = 0,
               heap = [NIL \<mapsto> \<lparr>key = 0, parent = NULL, right = NULL, left = NULL, color = 0, vdata = NULL\<rparr>]\<rparr>) (\<lambda>s.
          ok (Some \<lparr>vnode_tree = s, ivnodes = 0,
                    cb_hashfunc = (case pfhash of Some f \<Rightarrow> f | None \<Rightarrow> conhash_hash_def md5state)\<rparr>)))"

partial_function (option) fini_loop :: "util_rbtree_t \<times> memory \<Rightarrow> (util_rbtree_t \<times> memory) res" where
  "fini_loop sm =
     (if \<not> util_rbtree_isempty (fst sm) then
        bnd (util_rbtree_delete (root (fst sm)) (fst sm)) (\<lambda>s.
        bnd (conhash_del_rbnode (root (fst sm)) (s, snd sm)) (\<lambda>sm. fini_loop sm))
      else ok sm)"

text \<open>The ring itself is gone afterwards; what is left is the memory.\<close>

definition conhash_fini :: "conhash_s option \<Rightarrow> memory \<Rightarrow> memory res" where
  "conhash_fini conhash m =
     (case conhash of None \<Rightarrow> ok m | Some c \<Rightarrow> bnd (fini_loop (vnode_tree c, m)) (\<lambda>(s, m). ok m))"

definition strncpy :: "string \<Rightarrow> string \<Rightarrow> nat \<Rightarrow> string" where
  "strncpy dst src n = take n (src @ replicate n (CHR 0x00)) @ drop n dst"

definition conhash_set_node :: "addr \<Rightarrow> string \<Rightarrow> 32 word \<Rightarrow> memory \<Rightarrow> memory res" where
  "conhash_set_node node iden_str replica m =
     get (node_mem m) node (\<lambda>n.
       ok (m\<lparr>node_mem := (node_mem m)(node \<mapsto>
             \<lparr>iden = strncpy (iden n) iden_str 63, replicas = replica, flag = NODE_FLAG_INIT\<rparr>)\<rparr>))"

definition conhash_add_node :: "allocator \<Rightarrow> addr \<Rightarrow> conhash_s option \<Rightarrow> memory \<Rightarrow> (int \<times> conhash_s option \<times> memory) res" where
  "conhash_add_node al node conhash m =
     (case conhash of None \<Rightarrow> ok (- 1, None, m)
      | Some c \<Rightarrow>
          if node = NULL then ok (- 1, Some c, m)
          else
            get (node_mem m) node (\<lambda>n.
              if flag n AND NODE_FLAG_INIT = 0 \<or> flag n AND NODE_FLAG_IN \<noteq> 0 then ok (- 1, Some c, m)
              else
                let m = m\<lparr>node_mem := (node_mem m)(node \<mapsto> n\<lparr>flag := flag n OR NODE_FLAG_IN\<rparr>)\<rparr> in
                bnd (conhash_add_replicas al node (c, m)) (\<lambda>(c, m). ok (0, Some c, m))))"

definition conhash_del_node :: "addr \<Rightarrow> conhash_s option \<Rightarrow> memory \<Rightarrow> (int \<times> conhash_s option \<times> memory) res" where
  "conhash_del_node node conhash m =
     (case conhash of None \<Rightarrow> ok (- 1, None, m)
      | Some c \<Rightarrow>
          if node = NULL then ok (- 1, Some c, m)
          else
            get (node_mem m) node (\<lambda>n.
              if flag n AND NODE_FLAG_INIT = 0 \<or> flag n AND NODE_FLAG_IN = 0 then ok (- 1, Some c, m)
              else
                let m = m\<lparr>node_mem := (node_mem m)(node \<mapsto> n\<lparr>flag := flag n AND NOT NODE_FLAG_IN\<rparr>)\<rparr> in
                bnd (conhash_del_replicas node (c, m)) (\<lambda>(c, m). ok (0, Some c, m))))"

definition conhash_lookup :: "conhash_s option \<Rightarrow> string option \<Rightarrow> memory \<Rightarrow> addr res" where
  "conhash_lookup conhash obj m =
     (case (conhash, obj) of
        (Some c, Some ob) \<Rightarrow>
          if ivnodes c = 0 then ok NULL
          else
            let hash = cb_hashfunc c ob in
            bnd (util_rbtree_lookup (vnode_tree c) hash) (\<lambda>rbnode.
              if rbnode \<noteq> NULL then
                bnd (rd (vnode_tree c) rbnode vdata) (\<lambda>d. get (vnode_mem m) d (\<lambda>vnode. ok (vserver vnode)))
              else ok NULL)
      | _ \<Rightarrow> ok NULL)"

text \<open>
  \<open>values\<close> is the caller's array, \<open>cur\<close> counts what is written to it; a write behind the end of
  the array is \<open>Undefined\<close>.
\<close>

definition get_vnodes_step :: "int \<Rightarrow> util_rbtree_node_t \<Rightarrow> (int list \<times> nat) option \<Rightarrow> (int list \<times> nat) option" where
  "get_vnodes_step n node st =
     (case st of None \<Rightarrow> None
      | Some (values, cur) \<Rightarrow>
          if int cur < n then
            if cur < length values then Some (values[cur := key node], Suc cur) else None
          else Some (values, cur))"

definition conhash_get_vnodes :: "conhash_s option \<Rightarrow> int list option \<Rightarrow> int \<Rightarrow> int list option res" where
  "conhash_get_vnodes conhash values n =
     (case (conhash, values) of
        (Some c, Some vs) \<Rightarrow>
          if n \<le> 0 then ok values
          else bnd (util_rbtree_mid_travel (vnode_tree c) (get_vnodes_step n) (Some (vs, 0))) (\<lambda>r.
                 case r of None \<Rightarrow> Some (Inl Undefined) | Some (vs, _) \<Rightarrow> ok (Some vs))
      | _ \<Rightarrow> ok values)"

definition conhash_get_vnodes_num :: "conhash_s option \<Rightarrow> 32 word" where
  "conhash_get_vnodes_num conhash = (case conhash of None \<Rightarrow> 0 | Some c \<Rightarrow> ivnodes c)"

end
