(* ===== verification/RbPayload.thy ===== *)
theory RbPayload
  imports RbQuery
begin

text \<open>
  No operation of the red-black tree touches the key or the data of a node, and deletion keeps
  every cell: partial-correctness rules for the monad, and the theorem the ring needs before it
  frees a deleted node.
\<close>

definition post :: "('a \<Rightarrow> bool) \<Rightarrow> 'a res \<Rightarrow> bool" where
  "post P m \<longleftrightarrow> (\<forall>x. m = ok x \<longrightarrow> P x)"

definition payload :: "util_rbtree_t \<Rightarrow> addr \<Rightarrow> (int \<times> nat) option" where
  "payload s a = map_option (\<lambda>n. (key n, vdata n)) (heap s a)"

definition kp :: "(addr \<Rightarrow> (int \<times> nat) option) \<Rightarrow> util_rbtree_t \<Rightarrow> bool" where
  "kp p s \<longleftrightarrow> payload s = p"

named_theorems post_rule \<open>partial correctness of the operations on the tree\<close>

lemma bnd_ok_iff: "bnd m f = ok y \<longleftrightarrow> (\<exists>x. m = ok x \<and> f x = ok y)"
  by (auto simp: bnd_def ok_def split: option.splits sum.splits)

lemma post_bnd: "post Q m \<Longrightarrow> (\<And>x. Q x \<Longrightarrow> post P (f x)) \<Longrightarrow> post P (bnd m f)"
  by (auto simp: post_def bnd_ok_iff)

lemma post_read [post_rule]: "(\<And>x. post P (f x)) \<Longrightarrow> post P (bnd (rd s a g) f)"
  by (auto simp: post_def bnd_ok_iff)

lemma post_test [post_rule]:
  "(\<And>x. post P (f x)) \<Longrightarrow> post P (bnd (util_rbt_isblack s a) f)"
  "(\<And>x. post P (f x)) \<Longrightarrow> post P (bnd (util_rbt_isred s a) f)"
  by (simp_all add: util_rbt_isblack_def util_rbt_isred_def post_read)

lemma post_ok [post_rule]: "P x \<Longrightarrow> post P (ok x)"
  by (simp add: post_def)

lemma post_if [post_rule]: "(b \<Longrightarrow> post P m) \<Longrightarrow> (\<not> b \<Longrightarrow> post P m') \<Longrightarrow> post P (if b then m else m')"
  by simp

lemma post_state: "post (kp p) m \<Longrightarrow> (\<And>s. kp p s \<Longrightarrow> post P (f s)) \<Longrightarrow> post P (bnd m f)"
  by (rule post_bnd)

lemma post_pair: "post (\<lambda>r. kp p (fst r)) m \<Longrightarrow> (\<And>s w. kp p s \<Longrightarrow> post P (f (s, w))) \<Longrightarrow> post P (bnd m f)"
  by (erule post_bnd) auto

lemma post_any: "(\<And>x. post P (f x)) \<Longrightarrow> post P (bnd m f)"
  by (auto simp: post_def bnd_ok_iff)

lemma post_wr:
  assumes "kp p s" and "\<And>n. key (g n) = key n \<and> vdata (g n) = vdata n"
  shows "post (kp p) (wr a g s)"
proof (cases "heap s a")
  case None
  then show ?thesis by (simp add: post_def wr_def ok_def)
next
  case (Some n)
  then show ?thesis using assms by (auto simp: post_def kp_def payload_def fun_eq_iff) (metis option.simps(9))
qed

lemma kp_root [simp]: "kp p (s\<lparr>root := a\<rparr>) = kp p s" "kp p (s\<lparr>rb_size := w\<rparr>) = kp p s"
  by (simp_all add: kp_def payload_def fun_eq_iff)

lemma post_colour:
  "kp p s \<Longrightarrow> post (kp p) (util_rbt_black a s)" "kp p s \<Longrightarrow> post (kp p) (util_rbt_red a s)"
  "kp p s \<Longrightarrow> post (kp p) (rbt_clear_node a s)"
  by (simp_all add: util_rbt_black_def util_rbt_red_def rbt_clear_node_def post_wr)

lemma post_relink: "kp p s \<Longrightarrow> post (kp p) (relink node a s)"
  unfolding relink_def by (intro post_rule post_wr) simp_all

lemma post_rotate:
  "kp p s \<Longrightarrow> post (kp p) (rbtree_left_rotate a s)" "kp p s \<Longrightarrow> post (kp p) (rbtree_right_rotate a s)"
  unfolding rbtree_left_rotate_def rbtree_right_rotate_def
  by (intro post_rule post_state [where p = p] post_wr post_relink; simp)+

lemmas post_ops = post_wr post_colour post_relink post_rotate

lemma post_fix: "kp p s \<Longrightarrow> post (\<lambda>r. kp p (fst r)) (delete_fixup_left node s)"
  "kp p s \<Longrightarrow> post (\<lambda>r. kp p (fst r)) (delete_fixup_right node s)"
  unfolding delete_fixup_left_def delete_fixup_right_def
  by (rule post_read | rule post_test | rule post_any [where m = "if _ then _ else ok False"]
    | rule post_state [where p = p], erule post_ops | rule post_state [where p = p], rule post_wr, assumption, simp
    | rule post_pair [where p = p] | rule post_rule, (simp; fail) | rule post_if | simp)+

lemma post_delete_fixup: "kp p s \<Longrightarrow> post (kp p) (rbtree_delete_fixup node s)"
proof -
  have "\<forall>p. kp p s \<longrightarrow> (\<forall>s'. r = Inr s' \<longrightarrow> kp p s')" if "rbtree_delete_fixup node s = Some r" for r
  proof (rule rbtree_delete_fixup.raw_induct [where P = "\<lambda>node s r. \<forall>p. kp p s \<longrightarrow> (\<forall>s'. r = Inr s' \<longrightarrow> kp p s')", OF _ that],
      intro allI impI)
    fix f node s r p and s' :: util_rbtree_t
    assume ih: "\<And>node s y. f node s = Some y \<Longrightarrow> \<forall>p. kp p s \<longrightarrow> (\<forall>s'. y = Inr s' \<longrightarrow> kp p s')"
      and body: "bnd (if node \<noteq> root s then util_rbt_isblack s node else ok False) (\<lambda>again.
          if again then bnd (rd s node parent) (\<lambda>p. bnd (rd s p left) (\<lambda>pl.
            bnd (if node = pl then delete_fixup_left node s else delete_fixup_right node s) (\<lambda>r. f (snd r) (fst r))))
          else util_rbt_black node s) = Some r"
      and k: "kp p s" and r: "r = Inr s'"
    have rec: "post (kp p) (f node s)" if "kp p s" for node s
      using ih that by (force simp: post_def ok_def)
    have "post (kp p) (Some r)"
      unfolding body [symmetric]
      by (rule post_any, rule post_if, rule post_read, rule post_read,
          rule post_bnd [where Q = "\<lambda>r. kp p (fst r)"], rule post_if, rule post_fix [OF k], rule post_fix [OF k], rule rec, assumption,
          rule post_ops [OF k])
    then show "kp p s'" using r by (simp add: post_def ok_def)
  qed
  then show "kp p s \<Longrightarrow> ?thesis" by (simp add: post_def ok_def)
qed

lemma post_unlink: "kp p s \<Longrightarrow> post (kp p) (delete_unlink node temp subst s)"
  unfolding delete_unlink_def
  by (rule post_read post_wr post_if | rule post_state [where p = p] | simp)+

lemma post_replace: "kp p s \<Longrightarrow> post (kp p) (delete_replace node temp s)"
  unfolding delete_replace_def
  by (rule post_read post_wr post_if post_relink post_ok | rule post_state [where p = p] | simp)+

lemma post_split: "(\<And>x y. post P (f x y)) \<Longrightarrow> post P (case r of (x, y) \<Rightarrow> f x y)"
  by (cases r) simp

lemma post_delete: "kp p s \<Longrightarrow> post (kp p) (util_rbtree_delete node s)"
  unfolding util_rbtree_delete_def Let_def
  by (rule post_if post_ok post_ops post_unlink post_replace post_delete_fixup post_test post_split
    | assumption | rule post_any [where m = "delete_pos _ _"] | rule post_state [where p = p] | simp)+

lemma delete_keeps_payload:
  assumes "util_rbtree_delete a s = ok s'" and "heap s b = Some n"
  shows "\<exists>n'. heap s' b = Some n' \<and> key n' = key n \<and> vdata n' = vdata n"
proof -
  have "payload s' b = payload s b"
    using post_delete [of "payload s" s a] assms(1) by (simp add: post_def kp_def)
  then show ?thesis using assms(2) by (auto simp: payload_def)
qed

end
