(* ===== verification/Ring.thy ===== *)
theory Ring
  imports ConHash RbPayload
begin

text \<open>
  What the consistent-hash ring does.  Seen from outside a ring is a list of virtual nodes,
  hash value and server, in ascending order of the hash values.  Adding a server inserts its
  virtual nodes and changes no other, removing it takes them out, a lookup returns the server
  of the successor on the ring.  The locale \<open>consistent_hash\<close> draws the consequence the ring is
  built for from these laws: a change of one server moves no object of another.
\<close>

subsection \<open>The ring as a list of virtual nodes\<close>

type_synonym owner = "int \<times> addr"

definition owner_of :: "memory \<Rightarrow> entry \<Rightarrow> owner" where
  "owner_of m e = (entry_key e, vserver (the (vnode_mem m (snd (snd e)))))"

definition vnode_ok :: "memory \<Rightarrow> entry \<Rightarrow> bool" where
  "vnode_ok m e \<longleftrightarrow> snd (snd e) \<noteq> NULL \<and> (\<exists>n. vnode_mem m (snd (snd e)) = Some \<lparr>vhash = entry_key e, vserver = n\<rparr>)"

definition ring_rep :: "conhash_s \<Rightarrow> memory \<Rightarrow> addr \<Rightarrow> rbt \<Rightarrow> bool" where
  "ring_rep c m q t \<longleftrightarrow>
     rb_wf (vnode_tree c) q t \<and> distinct (keys t) \<and> (\<forall>e \<in> set (entries t). vnode_ok m e) \<and>
     distinct (map (snd \<circ> snd) (entries t)) \<and> ivnodes c = of_nat (length (entries t)) \<and>
     finite (dom (heap (vnode_tree c))) \<and> finite (dom (vnode_mem m))"

lemma finite_dom_frame:
  assumes "\<forall>a. a \<notin> X \<longrightarrow> h' a = h a" and "finite X" and "finite (dom h)"
  shows "finite (dom h')"
proof (rule finite_subset)
  show "dom h' \<subseteq> X \<union> dom h" using assms(1) by (force simp: dom_def)
qed (use assms in simp)

definition ring :: "conhash_s \<times> memory \<Rightarrow> owner list \<Rightarrow> bool" where
  "ring cm os \<longleftrightarrow> (\<exists>q t. ring_rep (fst cm) (snd cm) q t \<and> os = map (owner_of (snd cm)) (entries t))"

text \<open>A ring an insertion may be made in: the parent link of the root leads to no freed cell.\<close>

definition ring_ready :: "conhash_s \<times> memory \<Rightarrow> owner list \<Rightarrow> bool" where
  "ring_ready cm os \<longleftrightarrow> (\<exists>q t. ring_rep (fst cm) (snd cm) q t \<and> outer (vnode_tree (fst cm)) q t \<and>
     os = map (owner_of (snd cm)) (entries t))"

lemma ring_of_ready: "ring_ready cm os \<Longrightarrow> ring cm os"
  by (auto simp: ring_ready_def ring_def)

lemma fst_owner_of [simp]: "fst (owner_of m e) = entry_key e"
  by (simp add: owner_of_def)

lemma owner_keys: "map fst (map (owner_of m) (entries t)) = keys t"
  by (simp add: keys_def)

lemma entry_cell: "tree h q t \<Longrightarrow> (a, k, d) \<in> set (entries t) \<Longrightarrow> \<exists>n. h a = Some n \<and> key n = k \<and> vdata n = d"
  by (induction t arbitrary: q) auto

lemma ring_sorted: "ring cm os \<Longrightarrow> sorted_wrt (<) (map fst os)"
  by (auto simp: ring_def ring_rep_def rb_wf_def owner_keys strict_sorted_iff simp del: map_map)

text \<open>The server of the successor: the first virtual node at or after \<open>h\<close>, else the first of all.\<close>

definition ring_owner :: "int \<Rightarrow> owner list \<Rightarrow> addr" where
  "ring_owner h os =
     (if os = [] then NULL
      else case List.find (\<lambda>e. h \<le> fst e) os of None \<Rightarrow> snd (hd os) | Some e \<Rightarrow> snd e)"

lemma find_filter: "List.find Q xs = Some x \<Longrightarrow> P x \<Longrightarrow> List.find Q (filter P xs) = Some x"
  by (induction xs) (auto split: if_splits)

lemma find_filter_None: "List.find Q xs = None \<Longrightarrow> List.find Q (filter P xs) = None"
  by (simp add: find_None_iff)

text \<open>Taking out virtual nodes of one server moves only objects of this server.\<close>

lemma ring_owner_filter:
  assumes keep: "\<And>e. e \<in> set os \<Longrightarrow> snd e \<noteq> n \<Longrightarrow> P e" and other: "ring_owner h os \<noteq> n" and ne: "os \<noteq> []"
  shows "ring_owner h (filter P os) = ring_owner h os"
proof (cases "List.find (\<lambda>e. h \<le> fst e) os")
  case None
  then have "snd (hd os) \<noteq> n" using other ne by (simp add: ring_owner_def)
  then have "P (hd os)" using keep ne by simp
  then have "filter P os = hd os # filter P (tl os)" using ne by (cases os) simp_all
  then show ?thesis using None ne find_filter_None [OF None, of P] by (simp add: ring_owner_def)
next
  case (Some e)
  then have e: "e \<in> set os" by (auto simp: find_Some_iff)
  have "snd e \<noteq> n" using Some other ne by (simp add: ring_owner_def)
  then have "P e" using keep e by blast
  then have f: "List.find (\<lambda>e. h \<le> fst e) (filter P os) = Some e" using find_filter [OF Some] by blast
  then show ?thesis using Some ne by (auto simp: ring_owner_def)
qed

subsection \<open>Lookup\<close>

lemma find_map: "List.find P (map f xs) = map_option f (List.find (P \<circ> f) xs)"
  by (induction xs) auto

lemma lookup_owner:
  assumes "ring (c, m) os" and "length os < 2 ^ 32"
  shows "conhash_lookup (Some c) (Some ob) m = ok (ring_owner (cb_hashfunc c ob) os)"
proof -
  obtain q t where r: "ring_rep c m q t" and os: "os = map (owner_of m) (entries t)"
    using assms(1) by (auto simp: ring_def)
  have wf: "rb_wf (vnode_tree c) q t" and vn: "\<forall>e \<in> set (entries t). vnode_ok m e"
    and iv: "ivnodes c = of_nat (length (entries t))" using r by (auto simp: ring_rep_def)
  show ?thesis
  proof (cases "t = Tip")
    case True
    then show ?thesis using iv os by (simp add: conhash_lookup_def ring_owner_def)
  next
    case False
    let ?h = "cb_hashfunc c ob"
    have ne: "entries t \<noteq> []" using False by (cases t) auto
    have "unat (ivnodes c) = length (entries t)" using iv assms(2) os by (simp add: unat_of_nat)
    then have iv0: "ivnodes c \<noteq> 0" using ne by auto
    define e where "e = (case first_at_least ?h (entries t) of None \<Rightarrow> hd (entries t) | Some e \<Rightarrow> e)"
    have e: "e \<in> set (entries t)" using ne by (auto simp: e_def first_at_least_def find_Some_iff split: option.split)
    obtain a k d where ea: "e = (a, k, d)" by (cases e)
    have "util_rbtree_lookup (vnode_tree c) ?h = ok (fst e)"
      unfolding e_def using lookup_rb [OF wf False, of ?h] by (simp split: option.split)
    then have look: "util_rbtree_lookup (vnode_tree c) ?h = ok a" by (simp add: ea)
    have "a \<in> set (addrs t)" using e ea by force
    then have a: "a \<noteq> NULL" using rb_wf_parts(7) [OF wf] by metis
    obtain n where n: "heap (vnode_tree c) a = Some n" "vdata n = d"
      using entry_cell [OF rb_wf_parts(4) [OF wf]] e ea by blast
    obtain v where v: "vnode_mem m d = Some \<lparr>vhash = k, vserver = v\<rparr>" using vn e ea by (auto simp: vnode_ok_def)
    have "conhash_lookup (Some c) (Some ob) m = ok (snd (owner_of m e))"
      using iv0 look a n v ea by (simp add: conhash_lookup_def Let_def owner_of_def)
    moreover have "ring_owner ?h os = snd (owner_of m e)"
      using ne by (simp add: ring_owner_def os e_def first_at_least_def find_map comp_def hd_map split: option.split)
    ultimately show ?thesis by simp
  qed
qed

subsection \<open>Adding virtual nodes\<close>

definition added :: "addr \<Rightarrow> int set \<Rightarrow> owner list \<Rightarrow> owner list \<Rightarrow> bool" where
  "added node H os os' \<longleftrightarrow> os = filter (\<lambda>e. fst e \<in> fst ` set os) os' \<and>
     (\<forall>e \<in> set os'. fst e \<in> fst ` set os \<or> snd e = node \<and> fst e \<in> H)"

lemma added_refl: "added node H os os"
  by (auto simp: added_def intro!: filter_True [symmetric])

lemma added_subset: "added node H os os' \<Longrightarrow> set os \<subseteq> set os'"
  unfolding added_def by (metis filter_is_subset)

lemma added_trans:
  assumes "added node H os os1" and "added node H' os1 os2"
  shows "added node (H \<union> H') os os2"
proof -
  have sub: "fst ` set os \<subseteq> fst ` set os1" using added_subset [OF assms(1)] by blast
  have "os = filter (\<lambda>e. fst e \<in> fst ` set os) (filter (\<lambda>e. fst e \<in> fst ` set os1) os2)"
    using assms by (simp add: added_def)
  also have "\<dots> = filter (\<lambda>e. fst e \<in> fst ` set os) os2" using sub by (auto intro!: filter_cong)
  finally have "os = filter (\<lambda>e. fst e \<in> fst ` set os) os2" .
  moreover have "\<forall>e \<in> set os2. fst e \<in> fst ` set os \<or> snd e = node \<and> fst e \<in> H \<union> H'"
  proof
    fix e assume e: "e \<in> set os2"
    show "fst e \<in> fst ` set os \<or> snd e = node \<and> fst e \<in> H \<union> H'"
    proof (cases "fst e \<in> fst ` set os1")
      case True
      have "os1 = filter (\<lambda>e. fst e \<in> fst ` set os1) os2" using assms(2) by (simp add: added_def)
      then have eq: "set os1 = set (filter (\<lambda>e. fst e \<in> fst ` set os1) os2)" by (rule arg_cong)
      have "e \<in> set os1" by (rule eq [THEN equalityD2, THEN subsetD]) (use True e in simp)
      then show ?thesis using assms(1) by (auto simp: added_def)
    next
      case False
      then show ?thesis using e assms(2) by (auto simp: added_def)
    qed
  qed
  ultimately show ?thesis by (simp add: added_def)
qed

lemma malloc_freshD:
  assumes "malloc_fresh al" and "al i h v = (a, j)" and "a \<noteq> NULL"
  shows "a \<noteq> NIL \<and> h a = None \<and> v a = None"
proof -
  have "fst (al i h v) \<noteq> NULL \<longrightarrow> fst (al i h v) \<noteq> NIL \<and> h (fst (al i h v)) = None \<and> v (fst (al i h v)) = None"
    using assms(1) unfolding malloc_fresh_def by blast
  then show ?thesis using assms(2,3) by simp
qed

lemma get_rbnode_result:
  assumes fresh: "malloc_fresh al" and g: "conhash_get_rbnode al node hash (s, m) = (a, s', m')"
    and fin: "finite (dom (heap s))" "finite (dom (vnode_mem m))"
  shows "node_mem m' = node_mem m \<and>
    (a = NULL \<and> s' = s \<and> vnode_mem m' = vnode_mem m \<and> \<not> malloc_succeeds al \<or>
     a \<noteq> NULL \<and> a \<noteq> NIL \<and> heap s a = None \<and>
     (\<exists>d n. d \<noteq> NULL \<and> vnode_mem m d = None \<and> key n = hash \<and> vdata n = d \<and> s' = s\<lparr>heap := (heap s)(a \<mapsto> n)\<rparr> \<and>
       vnode_mem m' = (vnode_mem m)(d \<mapsto> \<lparr>vhash = hash, vserver = node\<rparr>)))"
proof -
  obtain b j where b: "al (allocs m) (heap s) (vnode_mem m) = (b, j)" by fastforce
  define s1 where "s1 = s\<lparr>heap := (heap s)(b \<mapsto> j\<lparr>key := hash\<rparr>)\<rparr>"
  obtain d j' where d: "al (Suc (allocs m)) (heap s1) (vnode_mem m) = (d, j')" by fastforce
  show ?thesis
  proof (cases "b = NULL \<or> d = NULL")
    case True
    have "finite (dom (heap s1))" using fin(1) by (simp add: s1_def)
    then have "\<not> malloc_succeeds al" using True b d fin unfolding malloc_succeeds_def by (metis fst_conv)
    moreover have "(heap s)(b := None) = heap s" if "b \<noteq> NULL"
      using malloc_freshD [OF fresh b that] by auto
    ultimately show ?thesis using g b d True
      by (auto simp: conhash_get_rbnode_def Let_def s1_def split: if_splits)
  next
    case False
    then have "b \<noteq> NIL \<and> heap s b = None" using malloc_freshD [OF fresh b] by simp
    moreover have "vnode_mem m d = None" using malloc_freshD [OF fresh d] False by simp
    moreover have "a = b" "s' = s\<lparr>heap := (heap s)(a \<mapsto> j\<lparr>key := hash, vdata := d\<rparr>)\<rparr>" "node_mem m' = node_mem m"
      "vnode_mem m' = (vnode_mem m)(d \<mapsto> \<lparr>vhash = hash, vserver = node\<rparr>)"
      using g b d False by (auto simp: conhash_get_rbnode_def Let_def s1_def)
    ultimately show ?thesis using False
      by (intro conjI disjI2 exI [of _ d] exI [of _ "j\<lparr>key := hash, vdata := d\<rparr>"]) simp_all
  qed
qed


lemma insert_owner:
  assumes dist: "h \<notin> fst ` set es" and m: "fst x = h"
  shows "filter (\<lambda>e. fst e \<in> fst ` set es) (takeWhile P es @ x # dropWhile P es) = es"
proof -
  have "filter (\<lambda>e. fst e \<in> fst ` set es) (takeWhile P es) = takeWhile P es"
    by (auto intro!: filter_True dest: set_takeWhileD)
  moreover have "filter (\<lambda>e. fst e \<in> fst ` set es) (dropWhile P es) = dropWhile P es"
    by (auto intro!: filter_True dest: set_dropWhileD)
  moreover have "fst x \<notin> fst ` set es" using dist m by simp
  ultimately show ?thesis by simp
qed

definition replica_hash :: "(string \<Rightarrow> int) \<Rightarrow> node_s \<Rightarrow> nat \<Rightarrow> int" where
  "replica_hash f n i =
     f (take 126 (takeWhile (\<lambda>c. c \<noteq> CHR 0x00) (iden n) @ ''-'' @ format_03d (i32 (int i))))"

lemma node2string_ok: "CHR 0x00 \<in> set (iden n) \<Longrightarrow>
   conhash_node2string n i = ok (take 126 (takeWhile (\<lambda>c. c \<noteq> CHR 0x00) (iden n) @ ''-'' @ format_03d (i32 (int i))))"
  by (simp add: conhash_node2string_def)

lemma owners_frame:
  "\<forall>e \<in> set es. vnode_mem m' (snd (snd e)) = vnode_mem m (snd (snd e)) \<Longrightarrow> map (owner_of m') es = map (owner_of m) es"
  by (simp add: owner_of_def)

lemma vnode_ok_frame:
  "vnode_mem m' (snd (snd e)) = vnode_mem m (snd (snd e)) \<Longrightarrow> vnode_ok m' e = vnode_ok m e"
  by (simp add: vnode_ok_def)

lemma distinct_split_while:
  "distinct (map f (takeWhile P es @ x # dropWhile P es)) \<longleftrightarrow> f x \<notin> f ` set es \<and> distinct (map f es)"
proof -
  have "distinct (map f (xs @ x # ys)) \<longleftrightarrow> f x \<notin> f ` set (xs @ ys) \<and> distinct (map f (xs @ ys))" for xs ys
    by auto
  from this [of "takeWhile P es" "dropWhile P es"] show ?thesis by simp
qed

lemma set_split_while: "set (takeWhile P es @ x # dropWhile P es) = insert x (set es)"
  by (metis (no_types, lifting) Un_insert_right list.simps(15) set_append takeWhile_dropWhile_id)

lemma added_insert:
  assumes "h \<notin> fst ` set os" shows "added node {h} os (takeWhile P os @ (h, node) # dropWhile P os)"
  unfolding added_def set_split_while using insert_owner [OF assms, of "(h, node)" P] by force

text \<open>One virtual node put into the tree.\<close>

lemma insert_vnode:
  assumes r: "ring_rep c m q t" "outer (vnode_tree c) q t" and h: "h \<notin> set (keys t)"
    and a: "a \<noteq> NULL" "a \<noteq> NIL" "heap (vnode_tree c) a = None"
    and d: "d \<noteq> NULL" "vnode_mem m d = None" and n: "key n = h" "vdata n = d"
    and s: "s = (vnode_tree c)\<lparr>heap := (heap (vnode_tree c))(a \<mapsto> n)\<rparr>"
    and m': "vnode_mem m' = (vnode_mem m)(d \<mapsto> \<lparr>vhash = h, vserver = node\<rparr>)"
  shows "\<exists>s' q' t'. util_rbtree_insert a s = ok s' \<and> ring_rep (c\<lparr>vnode_tree := s', ivnodes := ivnodes c + 1\<rparr>) m' q' t' \<and>
    outer s' q' t' \<and> added node {h} (map (owner_of m) (entries t)) (map (owner_of m') (entries t')) \<and> h \<in> set (keys t')"
proof -
  let ?P = "\<lambda>e :: entry. entry_key e \<le> h"
  let ?os = "map (owner_of m) (entries t)"
  have wf: "rb_wf (vnode_tree c) q t" using r by (simp add: ring_rep_def)
  have notin: "a \<notin> set (addrs t)"
  proof
    assume "a \<in> set (addrs t)"
    then obtain k d where "(a, k, d) \<in> set (entries t)" by auto
    then show False using entry_cell [OF rb_wf_parts(4) [OF wf]] a(3) by force
  qed
  have aq: "a \<noteq> q" using r(2) a(3) by (auto simp: outer_def)
  have inv: "rb_inv s q t"
    using wf r(2) notin a aq
    by (auto simp: rb_inv_def rb_wf_def rep_def outer_def nil_black_def s)
  have "heap s a = Some n" by (simp add: s)
  from insert_rb [OF inv this notin a(2,1) aq]
  obtain s' q' t' where ins: "util_rbtree_insert a s = ok s'" "rb_inv s' q' t'"
    and ent: "entries t' = takeWhile ?P (entries t) @ (a, h, d) # dropWhile ?P (entries t)"
    and out: "\<forall>b. b \<notin> insert a (set (addrs t)) \<longrightarrow> heap s' b = heap s b"
    unfolding n by blast
  have "finite (dom (heap s))" using r(1) by (simp add: s ring_rep_def)
  then have fin: "finite (dom (heap s'))" "finite (dom (vnode_mem m'))"
    using finite_dom_frame [OF out] r(1) by (simp_all add: m' ring_rep_def)
  have se: "set (entries t') = insert (a, h, d) (set (entries t))" unfolding ent by (rule set_split_while)
  have old: "vnode_mem m' (snd (snd e)) = vnode_mem m (snd (snd e))" if "e \<in> set (entries t)" for e
  proof -
    have "vnode_ok m e" using r(1) that by (simp add: ring_rep_def)
    then have "snd (snd e) \<noteq> d" using d(2) by (auto simp: vnode_ok_def)
    then show ?thesis by (simp add: m')
  qed
  have dnew: "d \<notin> (snd \<circ> snd) ` set (entries t)"
    using r(1) d(2) by (auto simp: ring_rep_def vnode_ok_def)
  have vn: "\<forall>e \<in> set (entries t'). vnode_ok m' e"
    using r(1) vnode_ok_frame [OF old] d(1) unfolding se by (auto simp: ring_rep_def) (simp add: vnode_ok_def m')
  have dk: "distinct (keys t')" and dd: "distinct (map (snd \<circ> snd) (entries t'))"
    using r(1) h dnew unfolding ent keys_def distinct_split_while by (simp_all add: ring_rep_def keys_def)
  have sz: "length (entries t') = Suc (length (entries t))"
    unfolding ent by (metis add_Suc_right length_Cons length_append takeWhile_dropWhile_id)
  have part: "map (owner_of m') es = map (owner_of m) es" if "set es \<subseteq> set (entries t)" for es
    using that old by (intro owners_frame) blast
  have sub: "set (takeWhile ?P (entries t)) \<subseteq> set (entries t)" "set (dropWhile ?P (entries t)) \<subseteq> set (entries t)"
    by (auto dest: set_takeWhileD set_dropWhileD)
  have "map (owner_of m') (entries t') =
      takeWhile (\<lambda>e. fst e \<le> h) ?os @ owner_of m' (a, h, d) # dropWhile (\<lambda>e. fst e \<le> h) ?os"
    unfolding ent map_append list.map(2) part [OF sub(1)] part [OF sub(2)]
    by (simp add: takeWhile_map dropWhile_map comp_def)
  moreover have "owner_of m' (a, h, d) = (h, node)" by (simp add: owner_of_def m')
  ultimately have os': "map (owner_of m') (entries t') = takeWhile (\<lambda>e. fst e \<le> h) ?os @ (h, node) # dropWhile (\<lambda>e. fst e \<le> h) ?os"
    by simp
  have "h \<notin> fst ` set ?os" using h by (simp add: keys_def image_image)
  then have "added node {h} ?os (map (owner_of m') (entries t'))"
    unfolding os' by (rule added_insert)
  moreover have "ring_rep (c\<lparr>vnode_tree := s', ivnodes := ivnodes c + 1\<rparr>) m' q' t'"
    using ins(2) dk dd vn sz fin r(1) by (simp add: ring_rep_def rb_inv_def)
  moreover have "h \<in> set (keys t')" by (simp add: keys_def se)
  ultimately show ?thesis using ins by (auto simp: rb_inv_def)
qed


lemma add_replica_ok:
  assumes al: "malloc_fresh al" and r: "ring_ready (c, m) os" and n: "node_mem m node = Some n" "CHR 0x00 \<in> set (iden n)"
  shows "\<exists>c' m' os'. add_replica al node i (c, m) = ok (c', m') \<and> ring_ready (c', m') os' \<and> node_mem m' = node_mem m \<and>
    cb_hashfunc c' = cb_hashfunc c \<and> added node {replica_hash (cb_hashfunc c) n i} os os' \<and>
    (malloc_succeeds al \<longrightarrow> replica_hash (cb_hashfunc c) n i \<in> fst ` set os')"
proof -
  let ?h = "replica_hash (cb_hashfunc c) n i"
  obtain q t where t: "ring_rep c m q t" "outer (vnode_tree c) q t" and os: "os = map (owner_of m) (entries t)"
    using r by (auto simp: ring_ready_def)
  have wf: "rb_wf (vnode_tree c) q t" using t by (simp add: ring_rep_def)
  have keys: "fst ` set os = set (keys t)" by (simp add: os keys_def image_image)
  obtain x where x: "util_rbtree_search (vnode_tree c) ?h = ok x"
    "if ?h \<in> set (keys t) then \<exists>d. (x, ?h, d) \<in> set (entries t) else x = NULL"
    using search_rb [OF wf] by blast
  have step: "add_replica al node i (c, m) =
     (if x = NULL then
        let (rbnode, s, m) = conhash_get_rbnode al node ?h (vnode_tree c, m) in
        if rbnode \<noteq> NULL then
          bnd (util_rbtree_insert rbnode s) (\<lambda>s. ok (c\<lparr>vnode_tree := s, ivnodes := ivnodes c + 1\<rparr>, m))
        else ok (c\<lparr>vnode_tree := s\<rparr>, m)
      else ok (c, m))"
    using n x(1) by (simp add: add_replica_def node2string_ok replica_hash_def Let_def)
  show ?thesis
  proof (cases "?h \<in> set (keys t)")
    case True
    then have "x \<in> set (addrs t)" using x(2) by force
    then have "x \<noteq> NULL" using rb_wf_parts(7) [OF wf] by metis
    then have "add_replica al node i (c, m) = ok (c, m)" using step by simp
    then show ?thesis
      by (intro exI [of _ c] exI [of _ m] exI [of _ os] conjI r added_refl) (use True keys in simp_all)
  next
    case False
    then have x0: "x = NULL" using x(2) by simp
    obtain a s m' where g: "conhash_get_rbnode al node ?h (vnode_tree c, m) = (a, s, m')" by (metis prod.exhaust)
    have fin: "finite (dom (heap (vnode_tree c)))" "finite (dom (vnode_mem m))" using t by (simp_all add: ring_rep_def)
    note res = get_rbnode_result [OF al g fin]
    show ?thesis
    proof (cases "a = NULL")
      case True
      then have e: "s = vnode_tree c" "vnode_mem m' = vnode_mem m" "node_mem m' = node_mem m" "\<not> malloc_succeeds al" using res by auto
      have "owner_of m' = owner_of m" "vnode_ok m' = vnode_ok m"
        by (simp_all add: fun_eq_iff owner_of_def vnode_ok_def e(2))
      then have rr: "ring_ready (c, m') os"
        using r by (simp add: ring_ready_def ring_rep_def e(2))
      have "add_replica al node i (c, m) = ok (c, m')" using step x0 g True e(1) by simp
      then show ?thesis
        by (intro exI [of _ c] exI [of _ m'] exI [of _ os] conjI rr added_refl) (use e in simp_all)
    next
      case False
      then obtain d k where a: "a \<noteq> NIL" "heap (vnode_tree c) a = None" and d: "d \<noteq> NULL" "vnode_mem m d = None"
        and k: "key k = ?h" "vdata k = d" and s: "s = (vnode_tree c)\<lparr>heap := (heap (vnode_tree c))(a \<mapsto> k)\<rparr>"
        and m': "vnode_mem m' = (vnode_mem m)(d \<mapsto> \<lparr>vhash = ?h, vserver = node\<rparr>)"
        using res by blast
      obtain s' q' t' where ins: "util_rbtree_insert a s = ok s'"
        "ring_rep (c\<lparr>vnode_tree := s', ivnodes := ivnodes c + 1\<rparr>) m' q' t'" "outer s' q' t'"
        "added node {?h} (map (owner_of m) (entries t)) (map (owner_of m') (entries t'))" "?h \<in> set (keys t')"
        using insert_vnode [OF t \<open>?h \<notin> set (keys t)\<close> False a d k s m'] by blast
      have "ring_ready (c\<lparr>vnode_tree := s', ivnodes := ivnodes c + 1\<rparr>, m') (map (owner_of m') (entries t'))"
        using ins(2,3) by (auto simp: ring_ready_def)
      moreover have "?h \<in> fst ` set (map (owner_of m') (entries t'))" using ins(5) by (simp add: keys_def image_image)
      moreover have "add_replica al node i (c, m) = ok (c\<lparr>vnode_tree := s', ivnodes := ivnodes c + 1\<rparr>, m')"
        using step x0 g False ins(1) by simp
      moreover have "node_mem m' = node_mem m" using res by blast
      ultimately show ?thesis unfolding os
        by (intro exI [of _ "c\<lparr>vnode_tree := s', ivnodes := ivnodes c + 1\<rparr>"] exI [of _ m']
            exI [of _ "map (owner_of m') (entries t')"] conjI ins(4)) simp_all
    qed
  qed
qed

lemma add_from_ok:
  assumes al: "malloc_fresh al"
  shows "ring_ready (c, m) os \<Longrightarrow> node_mem m node = Some n \<Longrightarrow> CHR 0x00 \<in> set (iden n) \<Longrightarrow>
   \<exists>c' m' os'. add_from al node is (c, m) = ok (c', m') \<and> ring_ready (c', m') os' \<and> node_mem m' = node_mem m \<and>
    cb_hashfunc c' = cb_hashfunc c \<and> added node (replica_hash (cb_hashfunc c) n ` set is) os os' \<and>
    (malloc_succeeds al \<longrightarrow> replica_hash (cb_hashfunc c) n ` set is \<subseteq> fst ` set os')"
proof (induction "is" arbitrary: c m os)
  case Nil
  then show ?case using added_refl by auto
next
  case (Cons i js)
  obtain c1 m1 os1 where 1: "add_replica al node i (c, m) = ok (c1, m1)" "ring_ready (c1, m1) os1" "node_mem m1 = node_mem m"
    "cb_hashfunc c1 = cb_hashfunc c" "added node {replica_hash (cb_hashfunc c) n i} os os1"
    "malloc_succeeds al \<longrightarrow> replica_hash (cb_hashfunc c) n i \<in> fst ` set os1"
    using add_replica_ok [OF al Cons.prems] by blast
  obtain c2 m2 os2 where 2: "add_from al node js (c1, m1) = ok (c2, m2)" "ring_ready (c2, m2) os2" "node_mem m2 = node_mem m1"
    "cb_hashfunc c2 = cb_hashfunc c1" "added node (replica_hash (cb_hashfunc c1) n ` set js) os1 os2"
    "malloc_succeeds al \<longrightarrow> replica_hash (cb_hashfunc c1) n ` set js \<subseteq> fst ` set os2"
    using Cons.IH [OF 1(2) _ Cons.prems(3)] 1(3) Cons.prems(2) by auto
  have "added node (replica_hash (cb_hashfunc c) n ` set (i # js)) os os2"
    using added_trans [OF 1(5) 2(5)] 1(4) by simp
  moreover have "malloc_succeeds al \<longrightarrow> replica_hash (cb_hashfunc c) n ` set (i # js) \<subseteq> fst ` set os2"
    using added_subset [OF 2(5)] 1(4,6) 2(6) by auto
  moreover have "add_from al node (i # js) (c, m) = ok (c2, m2)" using 1(1) 2(1) by simp
  ultimately show ?case using 1(3,4) 2(2,3,4)
    by (intro exI [of _ c2] exI [of _ m2] exI [of _ os2]) simp
qed


subsection \<open>Removing virtual nodes\<close>

lemma free_cell:
  assumes "rb_wf s q t" and "x \<notin> set (addrs t)" and "x \<noteq> NIL"
  shows "rb_wf (s\<lparr>heap := (heap s)(x := None)\<rparr>) q t"
  using assms by (auto simp: rb_wf_def rep_def nil_black_def)

lemma distinct_mapD: "distinct (map f xs) \<Longrightarrow> x \<in> set xs \<Longrightarrow> y \<in> set xs \<Longrightarrow> f x = f y \<Longrightarrow> x = y"
  by (auto simp: distinct_map dest: inj_onD)

text \<open>One cell and its virtual node are taken out and freed.\<close>

lemma remove_cell:
  assumes r: "ring_rep c m q t" and e: "(x, k, d) \<in> set (entries t)"
  shows "\<exists>s s' q' t'. util_rbtree_delete x (vnode_tree c) = ok s \<and>
    conhash_del_rbnode x (s, m) = ok (s', m\<lparr>vnode_mem := (vnode_mem m)(d := None)\<rparr>) \<and>
    ring_rep (c\<lparr>vnode_tree := s', ivnodes := ivnodes c - 1\<rparr>) (m\<lparr>vnode_mem := (vnode_mem m)(d := None)\<rparr>) q' t' \<and>
    entries t' = filter (\<lambda>e. fst e \<noteq> x) (entries t) \<and>
    map (owner_of (m\<lparr>vnode_mem := (vnode_mem m)(d := None)\<rparr>)) (entries t') = map (owner_of m) (entries t')"
proof -
  define m' where "m' = m\<lparr>vnode_mem := (vnode_mem m)(d := None)\<rparr>"
  have wf: "rb_wf (vnode_tree c) q t" using r by (simp add: ring_rep_def)
  have D: "distinct (addrs t)" "distinct (keys t)" "distinct (map (snd \<circ> snd) (entries t))"
    using r wf by (simp_all add: ring_rep_def rb_wf_def rep_def)
  have x: "x \<in> set (addrs t)" using e by force
  have xn: "x \<noteq> NIL" using x rb_wf_parts(6) [OF wf] by metis
  obtain s q' t' where del: "util_rbtree_delete x (vnode_tree c) = ok s" "rb_wf s q' t'"
    and ent: "entries t' = filter (\<lambda>e. fst e \<noteq> x) (entries t)"
    and out: "\<forall>b. b \<notin> insert NIL (set (addrs t)) \<longrightarrow> heap s b = heap (vnode_tree c) b"
    using delete_rb [OF wf e] unfolding deleted_def by blast
  obtain n where n: "heap (vnode_tree c) x = Some n" "vdata n = d"
    using entry_cell [OF rb_wf_parts(4) [OF wf] e] by blast
  obtain n' where n': "heap s x = Some n'" "vdata n' = d"
    using delete_keeps_payload [OF del(1) n(1)] n(2) by blast
  have "vnode_ok m (x, k, d)" using r e by (simp add: ring_rep_def)
  then obtain v where v: "d \<noteq> NULL" "vnode_mem m d = Some v" by (auto simp: vnode_ok_def)
  define s' where "s' = s\<lparr>heap := (heap s)(x := None)\<rparr>"
  have free: "conhash_del_rbnode x (s, m) = ok (s', m')"
    using n' v by (simp add: conhash_del_rbnode_def s'_def m'_def)
  have wf': "rb_wf s' q' t'" unfolding s'_def by (rule free_cell [OF del(2) _ xn]) (auto simp: ent)
  have rest: "snd (snd e') \<noteq> d" if "e' \<in> set (entries t')" for e'
  proof
    assume "snd (snd e') = d"
    then have "(snd \<circ> snd) e' = (snd \<circ> snd) (x, k, d)" by simp
    then have "e' = (x, k, d)" using that e by (intro distinct_mapD [OF D(3)]) (auto simp: ent)
    then show False using that by (simp add: ent)
  qed
  then have frame: "vnode_mem m' (snd (snd e')) = vnode_mem m (snd (snd e'))" if "e' \<in> set (entries t')" for e'
    using that by (simp add: m'_def)
  have vn: "\<forall>e' \<in> set (entries t'). vnode_ok m' e'"
    using r vnode_ok_frame [OF frame] by (auto simp: ent ring_rep_def)
  have dd: "distinct (keys t')" "distinct (map (snd \<circ> snd) (entries t'))"
    using D unfolding keys_def ent by (simp_all add: distinct_map_filter)
  have "entries t' = remove1 (x, k, d) (entries t)"
  proof -
    have "fst e' \<noteq> x \<longleftrightarrow> e' \<noteq> (x, k, d)" if "e' \<in> set (entries t)" for e'
      using distinct_mapD [OF D(1) that e] by auto
    then have "entries t' = filter (\<lambda>e'. e' \<noteq> (x, k, d)) (entries t)" unfolding ent by (rule filter_cong [OF refl])
    then show ?thesis using distinct_remove1_removeAll [of "entries t"] D(1)
      by (simp add: distinct_map removeAll_filter_not_eq eq_commute)
  qed
  then have sz: "length (entries t) = Suc (length (entries t'))"
    using e by (metis One_nat_def Suc_pred length_pos_if_in_set length_remove1)
  have "finite (dom (heap s))" using finite_dom_frame [OF out] r by (simp add: ring_rep_def)
  then have fin: "finite (dom (heap s'))" "finite (dom (vnode_mem m'))"
    using r by (simp_all add: s'_def m'_def ring_rep_def)
  have "ring_rep (c\<lparr>vnode_tree := s', ivnodes := ivnodes c - 1\<rparr>) m' q' t'"
    using wf' vn dd sz fin r by (simp add: ring_rep_def)
  moreover have "map (owner_of m') (entries t') = map (owner_of m) (entries t')"
    by (rule owners_frame) (use frame in blast)
  ultimately show ?thesis using del(1) free ent unfolding m'_def by blast
qed

definition without :: "addr \<Rightarrow> int set \<Rightarrow> owner list \<Rightarrow> owner list" where
  "without node H os = filter (\<lambda>e. \<not> (snd e = node \<and> fst e \<in> H)) os"

lemma without_id: "(\<And>e. e \<in> set os \<Longrightarrow> \<not> (snd e = node \<and> fst e \<in> H)) \<Longrightarrow> without node H os = os"
  by (auto simp: without_def intro: filter_True)

lemma without_Un: "without node H' (without node H os) = without node (H \<union> H') os"
  by (auto simp: without_def intro: filter_cong)

text \<open>No virtual node has the hash, or another server owns it.\<close>

lemma without_absent: "h \<notin> fst ` set os \<Longrightarrow> without node {h} os = os"
  by (rule without_id) auto

lemma without_other:
  assumes "distinct (map fst os)" "(h, other) \<in> set os" "other \<noteq> node"
  shows "without node {h} os = os"
proof (rule without_id)
  fix e assume "e \<in> set os"
  then show "\<not> (snd e = node \<and> fst e \<in> {h})"
    using distinct_mapD [OF assms(1) _ assms(2), of e] assms(3) by (metis fst_conv singletonD snd_conv)
qed

lemma without_owned:
  assumes "distinct (map fst os)" "(h, node) \<in> set os"
  shows "without node {h} os = filter (\<lambda>e. fst e \<noteq> h) os"
  unfolding without_def
proof (rule filter_cong [OF refl])
  fix e assume "e \<in> set os"
  then show "(\<not> (snd e = node \<and> fst e \<in> {h})) = (fst e \<noteq> h)"
    using distinct_mapD [OF assms(1) _ assms(2), of e] by (metis fst_conv singletonD singletonI snd_conv)
qed

text \<open>The cell of a virtual node the server owns is taken out of the ring.\<close>

lemma del_owned:
  assumes r: "ring_rep c m q t" and e: "(x, h, d) \<in> set (entries t)" and own: "owner_of m (x, h, d) = (h, node)"
  shows "\<exists>s s' m'. util_rbtree_delete x (vnode_tree c) = ok s \<and> conhash_del_rbnode x (s, m) = ok (s', m') \<and>
    ring (c\<lparr>vnode_tree := s', ivnodes := ivnodes c - 1\<rparr>, m') (without node {h} (map (owner_of m) (entries t))) \<and>
    node_mem m' = node_mem m"
proof -
  let ?m = "m\<lparr>vnode_mem := (vnode_mem m)(d := None)\<rparr>" and ?os = "map (owner_of m) (entries t)"
  obtain s s' q' t' where rc: "util_rbtree_delete x (vnode_tree c) = ok s" "conhash_del_rbnode x (s, m) = ok (s', ?m)"
    "ring_rep (c\<lparr>vnode_tree := s', ivnodes := ivnodes c - 1\<rparr>) ?m q' t'"
    "entries t' = filter (\<lambda>e. fst e \<noteq> x) (entries t)"
    "map (owner_of ?m) (entries t') = map (owner_of m) (entries t')"
    using remove_cell [OF r e] by blast
  have dk: "distinct (map entry_key (entries t))" and da: "distinct (map fst (entries t))"
    using r rb_wf_parts(8) [of "vnode_tree c" q t] by (simp_all add: ring_rep_def keys_def)
  have "(h, node) \<in> set ?os" using e own by (metis image_eqI list.set_map)
  moreover have "distinct (map fst ?os)" using dk by (simp add: comp_def)
  ultimately have "without node {h} ?os = filter (\<lambda>e. fst e \<noteq> h) ?os" by (intro without_owned)
  also have "\<dots> = map (owner_of m) (filter (\<lambda>e. entry_key e \<noteq> h) (entries t))" by (simp add: filter_map comp_def)
  also have "filter (\<lambda>e. entry_key e \<noteq> h) (entries t) = entries t'"
    unfolding rc(4)
  proof (rule filter_cong [OF refl])
    fix e' assume e': "e' \<in> set (entries t)"
    have "fst e' = x \<longleftrightarrow> e' = (x, h, d)" using distinct_mapD [OF da e' e] by auto
    moreover have "entry_key e' = h \<longleftrightarrow> e' = (x, h, d)" using distinct_mapD [OF dk e' e] by auto
    ultimately show "(entry_key e' \<noteq> h) = (fst e' \<noteq> x)" by simp
  qed
  finally have "without node {h} ?os = map (owner_of ?m) (entries t')" by (simp only: rc(5))
  then have "ring (c\<lparr>vnode_tree := s', ivnodes := ivnodes c - 1\<rparr>, ?m) (without node {h} ?os)"
    using rc(3) unfolding ring_def fst_conv snd_conv by metis
  then show ?thesis using rc(1,2) by (intro exI [of _ s] exI [of _ s'] exI [of _ ?m]) simp
qed

lemma del_replica_ok:
  assumes r: "ring (c, m) os" and n: "node_mem m node = Some n" "CHR 0x00 \<in> set (iden n)"
  shows "\<exists>c' m'. del_replica node i (c, m) = ok (c', m') \<and>
    ring (c', m') (without node {replica_hash (cb_hashfunc c) n i} os) \<and> node_mem m' = node_mem m \<and>
    cb_hashfunc c' = cb_hashfunc c"
proof -
  let ?h = "replica_hash (cb_hashfunc c) n i"
  obtain q t where t: "ring_rep c m q t" and os: "os = map (owner_of m) (entries t)"
    using r by (auto simp: ring_def)
  have wf: "rb_wf (vnode_tree c) q t" using t by (simp add: ring_rep_def)
  have keys: "fst ` set os = set (keys t)" by (simp add: os keys_def image_image)
  obtain x where x: "util_rbtree_search (vnode_tree c) ?h = ok x"
    "if ?h \<in> set (keys t) then \<exists>d. (x, ?h, d) \<in> set (entries t) else x = NULL"
    using search_rb [OF wf] by blast
  show ?thesis
  proof (cases "?h \<in> set (keys t)")
    case False
    then have "del_replica node i (c, m) = ok (c, m)"
      using n x by (simp add: del_replica_def node2string_ok replica_hash_def Let_def)
    then show ?thesis using r without_absent [of ?h os node] False keys by simp
  next
    case True
    then obtain d where e: "(x, ?h, d) \<in> set (entries t)" using x(2) by auto
    then have "x \<in> set (addrs t)" by force
    then have x0: "x \<noteq> NULL" using rb_wf_parts(7) [OF wf] by metis
    obtain k where k: "heap (vnode_tree c) x = Some k" "vdata k = d"
      using entry_cell [OF rb_wf_parts(4) [OF wf] e] by blast
    have "vnode_ok m (x, ?h, d)" using t e by (simp add: ring_rep_def)
    then obtain o' where v: "vnode_mem m d = Some \<lparr>vhash = ?h, vserver = o'\<rparr>" by (auto simp: vnode_ok_def)
    then have own: "owner_of m (x, ?h, d) = (?h, o')" by (simp add: owner_of_def)
    have step: "del_replica node i (c, m) =
       (if o' = node then
          bnd (util_rbtree_delete x (vnode_tree c)) (\<lambda>s.
          bnd (conhash_del_rbnode x (s, m)) (\<lambda>(s, m).
            ok (c\<lparr>vnode_tree := s, ivnodes := ivnodes c - 1\<rparr>, m)))
        else ok (c, m))"
      using n x(1) x0 k v by (simp add: del_replica_def node2string_ok replica_hash_def Let_def)
    have "distinct (map fst os)" using t by (simp add: os comp_def ring_rep_def keys_def)
    moreover have "(?h, o') \<in> set os" using e own unfolding os by (metis image_eqI list.set_map)
    ultimately show ?thesis
      using step r del_owned [OF t e] own without_other [of os ?h o' node] by (cases "o' = node") (auto simp: os)
  qed
qed

lemma del_from_ok:
  "ring (c, m) os \<Longrightarrow> node_mem m node = Some n \<Longrightarrow> CHR 0x00 \<in> set (iden n) \<Longrightarrow>
   \<exists>c' m'. del_from node is (c, m) = ok (c', m') \<and>
    ring (c', m') (without node (replica_hash (cb_hashfunc c) n ` set is) os) \<and> node_mem m' = node_mem m \<and>
    cb_hashfunc c' = cb_hashfunc c"
proof (induction "is" arbitrary: c m os)
  case Nil
  then show ?case by (simp add: without_id)
next
  case (Cons i js)
  let ?h = "replica_hash (cb_hashfunc c) n"
  obtain c1 m1 where 1: "del_replica node i (c, m) = ok (c1, m1)" "ring (c1, m1) (without node {?h i} os)"
    "node_mem m1 = node_mem m" "cb_hashfunc c1 = cb_hashfunc c"
    using del_replica_ok [OF Cons.prems] by blast
  obtain c2 m2 where 2: "del_from node js (c1, m1) = ok (c2, m2)"
    "ring (c2, m2) (without node (replica_hash (cb_hashfunc c1) n ` set js) (without node {?h i} os))"
    "node_mem m2 = node_mem m1" "cb_hashfunc c2 = cb_hashfunc c1"
    using Cons.IH [OF 1(2) _ Cons.prems(3)] 1(3) Cons.prems(2) by auto
  then show ?case using 1 by (simp add: without_Un)
qed

end
