(* ===== verification/RingApi.thy ===== *)
theory RingApi
  imports Ring
begin

text \<open>
  The interface of the consistent-hash ring: what \<open>conhash_add_node\<close>, \<open>conhash_del_node\<close> and
  \<open>conhash_lookup\<close> promise their caller, the locale \<open>consistent_hash\<close> of these promises with the
  consequences a caller relies on, and the start and the end of a ring's life.
\<close>

subsection \<open>Adding and removing a server\<close>

definition hashes_of :: "addr \<Rightarrow> conhash_s \<times> memory \<Rightarrow> int set" where
  "hashes_of node cm =
     (case node_mem (snd cm) node of None \<Rightarrow> {}
      | Some n \<Rightarrow> replica_hash (cb_hashfunc (fst cm)) n ` {..<unat (replicas n)})"

text \<open>A server record that is set up, and whether the ring holds it.\<close>

definition server :: "bool \<Rightarrow> addr \<Rightarrow> conhash_s \<times> memory \<Rightarrow> bool" where
  "server inside node cm \<longleftrightarrow> node \<noteq> NULL \<and>
     (\<exists>n. node_mem (snd cm) node = Some n \<and> CHR 0x00 \<in> set (iden n) \<and>
        flag n AND NODE_FLAG_INIT \<noteq> 0 \<and> (flag n AND NODE_FLAG_IN \<noteq> 0) = inside)"

lemma flag_ops:
  "(f OR NODE_FLAG_IN) AND NODE_FLAG_INIT = f AND NODE_FLAG_INIT"
  "(f OR NODE_FLAG_IN) AND NODE_FLAG_IN \<noteq> 0"
  "(f AND NOT NODE_FLAG_IN) AND NODE_FLAG_INIT = f AND NODE_FLAG_INIT"
  "(f AND NOT NODE_FLAG_IN) AND NODE_FLAG_IN = 0"
proof -
  show "(f OR NODE_FLAG_IN) AND NODE_FLAG_INIT = f AND NODE_FLAG_INIT"
    "(f AND NOT NODE_FLAG_IN) AND NODE_FLAG_INIT = f AND NODE_FLAG_INIT"
    "(f AND NOT NODE_FLAG_IN) AND NODE_FLAG_IN = 0"
    by (rule bit_word_eqI; auto simp: NODE_FLAG_INIT_def NODE_FLAG_IN_def bit_simps)+
  have "bit ((f OR NODE_FLAG_IN) AND NODE_FLAG_IN) 1"
    by (simp add: NODE_FLAG_IN_def bit_simps)
  then show "(f OR NODE_FLAG_IN) AND NODE_FLAG_IN \<noteq> 0" by (metis bit_0_eq bot_apply bot_bool_def)
qed

lemma flag_in: "NODE_FLAG_IN \<noteq> 0"
  by (simp add: NODE_FLAG_IN_def)

lemma ring_mem:
  "vnode_mem m' = vnode_mem m \<Longrightarrow> ring (c, m') os = ring (c, m) os"
  "vnode_mem m' = vnode_mem m \<Longrightarrow> ring_ready (c, m') os = ring_ready (c, m) os"
proof -
  assume e: "vnode_mem m' = vnode_mem m"
  then have "owner_of m' = owner_of m" "vnode_ok m' = vnode_ok m"
    by (simp_all add: fun_eq_iff owner_of_def vnode_ok_def)
  then show "ring (c, m') os = ring (c, m) os" "ring_ready (c, m') os = ring_ready (c, m) os"
    by (simp_all add: ring_def ring_ready_def ring_rep_def e)
qed

lemma add_node_full:
  assumes al: "malloc_fresh al" and r: "ring_ready (c, m) os" and n: "server False node (c, m)"
  shows "\<exists>c' m' os'. conhash_add_node al node (Some c) m = ok (0, Some c', m') \<and> ring_ready (c', m') os' \<and>
    cb_hashfunc c' = cb_hashfunc c \<and> server True node (c', m') \<and> hashes_of node (c', m') = hashes_of node (c, m) \<and>
    added node (hashes_of node (c, m)) os os' \<and> (malloc_succeeds al \<longrightarrow> hashes_of node (c, m) \<subseteq> fst ` set os') \<and>
    node_mem m' = (node_mem m)(node := map_option (\<lambda>n. n\<lparr>flag := flag n OR NODE_FLAG_IN\<rparr>) (node_mem m node))"
proof -
  obtain k where k: "node \<noteq> NULL" "node_mem m node = Some k" "CHR 0x00 \<in> set (iden k)" "flag k AND NODE_FLAG_INIT \<noteq> 0"
    "flag k AND NODE_FLAG_IN = 0" using n by (auto simp: server_def)
  let ?k = "k\<lparr>flag := flag k OR NODE_FLAG_IN\<rparr>"
  let ?m = "m\<lparr>node_mem := (node_mem m)(node \<mapsto> ?k)\<rparr>"
  have r': "ring_ready (c, ?m) os" using r ring_mem(2) [of ?m m c os] by simp
  obtain c' m' os' where s: "add_from al node [0..<unat (replicas k)] (c, ?m) = ok (c', m')" "ring_ready (c', m') os'"
    "node_mem m' = node_mem ?m" "cb_hashfunc c' = cb_hashfunc c"
    "added node (replica_hash (cb_hashfunc c) ?k ` set [0..<unat (replicas k)]) os os'"
    "malloc_succeeds al \<longrightarrow> replica_hash (cb_hashfunc c) ?k ` set [0..<unat (replicas k)] \<subseteq> fst ` set os'"
    using add_from_ok [OF al r', of node ?k "[0..<unat (replicas k)]"] k(3) by auto
  have h: "hashes_of node (c, m) = replica_hash (cb_hashfunc c) ?k ` set [0..<unat (replicas k)]"
    using k(2) by (simp add: hashes_of_def atLeast0LessThan replica_hash_def)
  have "conhash_add_node al node (Some c) m = ok (0, Some c', m')"
    using k s(1) by (simp add: conhash_add_node_def conhash_add_replicas_def Let_def)
  moreover have "server True node (c', m')" using k s(3) by (simp add: server_def flag_ops flag_in)
  moreover have "hashes_of node (c', m') = hashes_of node (c, m)"
    using s(3,4) k(2) by (simp add: hashes_of_def replica_hash_def)
  moreover have "node_mem m' = (node_mem m)(node := map_option (\<lambda>n. n\<lparr>flag := flag n OR NODE_FLAG_IN\<rparr>) (node_mem m node))"
    using s(3) k(2) by simp
  ultimately show ?thesis using s(2,4,5,6) unfolding h by blast
qed

lemma add_node_ok:
  assumes "malloc_fresh al" and "ring_ready (c, m) os" and "server False node (c, m)"
  shows "\<exists>c' m' os'. conhash_add_node al node (Some c) m = ok (0, Some c', m') \<and> ring_ready (c', m') os' \<and>
    cb_hashfunc c' = cb_hashfunc c \<and> server True node (c', m') \<and> hashes_of node (c', m') = hashes_of node (c, m) \<and>
    added node (hashes_of node (c, m)) os os' \<and> (malloc_succeeds al \<longrightarrow> hashes_of node (c, m) \<subseteq> fst ` set os')"
  using add_node_full [OF assms] by blast

lemma del_node_ok:
  assumes r: "ring (c, m) os" and n: "server True node (c, m)"
  shows "\<exists>c' m'. conhash_del_node node (Some c) m = ok (0, Some c', m') \<and> ring (c', m') (without node (hashes_of node (c, m)) os) \<and>
    cb_hashfunc c' = cb_hashfunc c \<and> server False node (c', m')"
proof -
  obtain k where k: "node \<noteq> NULL" "node_mem m node = Some k" "CHR 0x00 \<in> set (iden k)" "flag k AND NODE_FLAG_INIT \<noteq> 0"
    "flag k AND NODE_FLAG_IN \<noteq> 0" using n by (auto simp: server_def)
  let ?k = "k\<lparr>flag := flag k AND NOT NODE_FLAG_IN\<rparr>"
  let ?m = "m\<lparr>node_mem := (node_mem m)(node \<mapsto> ?k)\<rparr>"
  have r': "ring (c, ?m) os" using r ring_mem(1) [of ?m m c os] by simp
  obtain c' m' where s: "del_from node [0..<unat (replicas k)] (c, ?m) = ok (c', m')"
    "ring (c', m') (without node (replica_hash (cb_hashfunc c) ?k ` set [0..<unat (replicas k)]) os)"
    "node_mem m' = node_mem ?m" "cb_hashfunc c' = cb_hashfunc c"
    using del_from_ok [OF r', of node ?k "[0..<unat (replicas k)]"] k(3) by auto
  have h: "hashes_of node (c, m) = replica_hash (cb_hashfunc c) ?k ` set [0..<unat (replicas k)]"
    using k(2) by (simp add: hashes_of_def atLeast0LessThan replica_hash_def)
  have "conhash_del_node node (Some c) m = ok (0, Some c', m')"
    using k s(1) by (simp add: conhash_del_node_def conhash_del_replicas_def Let_def)
  moreover have "server False node (c', m')" using k s(3) by (simp add: server_def flag_ops flag_in)
  ultimately show ?thesis using s(2,4) unfolding h by blast
qed

lemma ring_distinct: "ring cm os \<Longrightarrow> distinct (map fst os)"
  using ring_sorted strict_sorted_iff by blast

lemma added_map_of:
  assumes a: "added node H os os'" and d: "distinct (map fst os')" and all: "H \<subseteq> fst ` set os'"
  shows "map_of os' k = (case map_of os k of Some n \<Rightarrow> Some n | None \<Rightarrow> if k \<in> H then Some node else None)"
proof -
  have d': "distinct (map fst os)" using a d unfolding added_def by (metis distinct_map_filter)
  show ?thesis
  proof (cases "map_of os k")
    case (Some n)
    then have "(k, n) \<in> set os'" using added_subset [OF a] map_of_SomeD by fastforce
    then show ?thesis using Some map_of_is_SomeI [OF d] by simp
  next
    case None
    then have k: "k \<notin> fst ` set os" by (simp add: map_of_eq_None_iff)
    show ?thesis
    proof (cases "map_of os' k")
      case None
      then have "k \<notin> fst ` set os'" by (simp add: map_of_eq_None_iff)
      then show ?thesis using None \<open>map_of os k = None\<close> all by auto
    next
      case (Some n)
      then have "(k, n) \<in> set os'" by (rule map_of_SomeD)
      then have "fst (k, n) \<in> fst ` set os \<or> snd (k, n) = node \<and> fst (k, n) \<in> H" using a unfolding added_def by blast
      then have "n = node \<and> k \<in> H" using k by simp
      then show ?thesis using Some \<open>map_of os k = None\<close> by simp
    qed
  qed
qed


subsection \<open>The contract of a consistent hash\<close>

text \<open>
  What a caller may rely on: \<open>rep r os\<close> says that \<open>r\<close> holds the virtual nodes \<open>os\<close>, \<open>ready r os\<close>
  that a server may be added.  The laws describe a lookup and the effect of adding and removing
  one server on the list.
\<close>

locale consistent_hash =
  fixes rep ready :: "'r \<Rightarrow> owner list \<Rightarrow> bool" and hash :: "'r \<Rightarrow> string \<Rightarrow> int" and hashes :: "addr \<Rightarrow> 'r \<Rightarrow> int set"
    and srv :: "bool \<Rightarrow> addr \<Rightarrow> 'r \<Rightarrow> bool" and usable :: "'al \<Rightarrow> bool"
    and look :: "'r \<Rightarrow> string \<Rightarrow> addr res" and add :: "'al \<Rightarrow> addr \<Rightarrow> 'r \<Rightarrow> 'r res" and del :: "addr \<Rightarrow> 'r \<Rightarrow> 'r res"
  assumes ready_rep: "ready r os \<Longrightarrow> rep r os"
    and look_law: "rep r os \<Longrightarrow> length os < 2 ^ 32 \<Longrightarrow> look r ob = ok (ring_owner (hash r ob) os)"
    and add_law: "usable al \<Longrightarrow> ready r os \<Longrightarrow> srv False n r \<Longrightarrow>
      \<exists>r' os'. add al n r = ok r' \<and> ready r' os' \<and> hash r' = hash r \<and> srv True n r' \<and> hashes n r' = hashes n r \<and>
        added n (hashes n r) os os'"
    and del_law: "rep r os \<Longrightarrow> srv True n r \<Longrightarrow>
      \<exists>r'. del n r = ok r' \<and> rep r' (without n (hashes n r) os) \<and> hash r' = hash r"
begin

lemma look_small: "rep r os \<Longrightarrow> length os < 2 ^ 32 \<Longrightarrow> look r ob = ok o' \<Longrightarrow> o' = ring_owner (hash r ob) os"
  using look_law by simp

lemma add_disruption:
  assumes "usable al" and "ready r os" and "srv False n r"
  shows "\<exists>r' os'. add al n r = ok r' \<and> ready r' os' \<and>
    (length os' < 2 ^ 32 \<longrightarrow> (\<forall>ob. look r' ob = look r ob \<or> look r' ob = ok n))"
proof -
  obtain r' os' where a: "add al n r = ok r'" "ready r' os'" "hash r' = hash r" "added n (hashes n r) os os'"
    using add_law [OF assms] by blast
  have "look r' ob = look r ob \<or> look r' ob = ok n" if l: "length os' < 2 ^ 32" for ob
  proof -
    let ?h = "hash r ob"
    have os: "os = filter (\<lambda>e. fst e \<in> fst ` set os) os'" using a(4) by (simp add: added_def)
    then have "length os \<le> length os'" by (metis length_filter_le)
    then have eq: "look r' ob = ok (ring_owner ?h os')" "look r ob = ok (ring_owner ?h os)"
      using look_law [OF ready_rep] a(2,3) assms(2) l by auto
    have "ring_owner ?h os' = n \<or> ring_owner ?h os = ring_owner ?h os'"
    proof (cases "os' = []")
      case True
      then have "os = []" using os by simp
      then show ?thesis using True by simp
    next
      case False
      have "ring_owner ?h os = ring_owner ?h os'" if "ring_owner ?h os' \<noteq> n"
        using ring_owner_filter [OF _ that False, of "\<lambda>e. fst e \<in> fst ` set os"] a(4) os unfolding added_def by metis
      then show ?thesis by blast
    qed
    then show ?thesis using eq by auto
  qed
  then show ?thesis using a(1,2) by blast
qed

lemma del_disruption:
  assumes "rep r os" and "srv True n r" and "length os < 2 ^ 32"
  shows "\<exists>r'. del n r = ok r' \<and> rep r' (without n (hashes n r) os) \<and> (\<forall>ob. look r ob = look r' ob \<or> look r ob = ok n)"
proof -
  let ?os = "without n (hashes n r) os"
  obtain r' where d: "del n r = ok r'" "rep r' ?os" "hash r' = hash r"
    using del_law [OF assms(1,2)] by blast
  have l: "length ?os < 2 ^ 32" using assms(3) le_less_trans [OF length_filter_le] unfolding without_def by blast
  have "look r ob = look r' ob \<or> look r ob = ok n" for ob
  proof -
    have eq: "look r ob = ok (ring_owner (hash r ob) os)" "look r' ob = ok (ring_owner (hash r ob) ?os)"
      using look_law [OF assms(1,3)] look_law [OF d(2) l] d(3) by simp_all
    show ?thesis
    proof (cases "os = [] \<or> ring_owner (hash r ob) os = n")
      case True
      then show ?thesis using eq by (auto simp: without_def)
    next
      case False
      then have "ring_owner (hash r ob) ?os = ring_owner (hash r ob) os"
        unfolding without_def by (intro ring_owner_filter [of os n]) auto
      then show ?thesis using eq by simp
    qed
  qed
  then show ?thesis using d(1,2) by blast
qed

lemma add_then_del:
  assumes "usable al" and "ready r os" and "srv False n r" and "n \<notin> snd ` set os"
  shows "\<exists>r' r''. add al n r = ok r' \<and> del n r' = ok r'' \<and> rep r'' os \<and>
    (length os < 2 ^ 32 \<longrightarrow> (\<forall>ob. look r'' ob = look r ob))"
proof -
  obtain r' os' where a: "add al n r = ok r'" "ready r' os'" "hash r' = hash r" "srv True n r'" "hashes n r' = hashes n r"
    "added n (hashes n r) os os'"
    using add_law [OF assms(1-3)] by blast
  obtain r'' where d: "del n r' = ok r''" "rep r'' (without n (hashes n r') os')" "hash r'' = hash r'"
    using del_law [OF ready_rep [OF a(2)] a(4)] by blast
  have os: "os = filter (\<lambda>e. fst e \<in> fst ` set os) os'" using a(6) by (simp add: added_def)
  have "(\<not> (snd e = n \<and> fst e \<in> hashes n r)) = (fst e \<in> fst ` set os)" if e: "e \<in> set os'" for e
  proof (cases "fst e \<in> fst ` set os")
    case True
    then have "e \<in> set (filter (\<lambda>e. fst e \<in> fst ` set os) os')" using e by simp
    then have "e \<in> set os" using os by simp
    then show ?thesis using True assms(4) by auto
  next
    case False
    then show ?thesis using a(6) e by (auto simp: added_def)
  qed
  then have "without n (hashes n r) os' = filter (\<lambda>e. fst e \<in> fst ` set os) os'"
    unfolding without_def by (rule filter_cong [OF refl])
  then have "rep r'' os" using d(2) a(5) os by simp
  moreover have "look r'' ob = look r ob" if "length os < 2 ^ 32" for ob
    using look_law [OF \<open>rep r'' os\<close> that] look_law [OF ready_rep [OF assms(2)] that] d(3) a(3) by simp
  ultimately show ?thesis using a(1) d(1) by blast
qed

end

text \<open>The ring's own operations, on a ring that exists, meet the contract.\<close>

definition ring_look :: "conhash_s \<times> memory \<Rightarrow> string \<Rightarrow> addr res" where
  "ring_look cm ob = conhash_lookup (Some (fst cm)) (Some ob) (snd cm)"

definition ring_result :: "(int \<times> conhash_s option \<times> memory) res \<Rightarrow> (conhash_s \<times> memory) res" where
  "ring_result r = bnd r (\<lambda>(_, co, m). case co of None \<Rightarrow> Some (Inl Undefined) | Some c \<Rightarrow> ok (c, m))"

definition ring_add :: "allocator \<Rightarrow> addr \<Rightarrow> conhash_s \<times> memory \<Rightarrow> (conhash_s \<times> memory) res" where
  "ring_add al n cm = ring_result (conhash_add_node al n (Some (fst cm)) (snd cm))"

definition ring_del :: "addr \<Rightarrow> conhash_s \<times> memory \<Rightarrow> (conhash_s \<times> memory) res" where
  "ring_del n cm = ring_result (conhash_del_node n (Some (fst cm)) (snd cm))"

interpretation ch: consistent_hash ring ring_ready "\<lambda>cm. cb_hashfunc (fst cm)" hashes_of server malloc_fresh
  ring_look ring_add ring_del
proof
  fix r :: "conhash_s \<times> memory" and os al n and ob :: string
  obtain c m where r: "r = (c, m)" by fastforce
  show "ring_ready r os \<Longrightarrow> ring r os" by (rule ring_of_ready)
  show "ring r os \<Longrightarrow> length os < 2 ^ 32 \<Longrightarrow> ring_look r ob = ok (ring_owner (cb_hashfunc (fst r) ob) os)"
    using lookup_owner by (simp add: r ring_look_def)
  show "malloc_fresh al \<Longrightarrow> ring_ready r os \<Longrightarrow> server False n r \<Longrightarrow>
      \<exists>r' os'. ring_add al n r = ok r' \<and> ring_ready r' os' \<and> cb_hashfunc (fst r') = cb_hashfunc (fst r) \<and>
        server True n r' \<and> hashes_of n r' = hashes_of n r \<and> added n (hashes_of n r) os os'"
    using add_node_ok [of al c m os n] by (force simp: r ring_add_def ring_result_def)
  show "ring r os \<Longrightarrow> server True n r \<Longrightarrow>
      \<exists>r'. ring_del n r = ok r' \<and> ring r' (without n (hashes_of n r) os) \<and> cb_hashfunc (fst r') = cb_hashfunc (fst r)"
    using del_node_ok [of c m os n] by (force simp: r ring_del_def ring_result_def)
qed

end
