(* ===== verification/RingLife.thy ===== *)
theory RingLife
  imports RingApi
begin

text \<open>
  The life of a ring, from \<open>conhash_init\<close> to \<open>conhash_fini\<close>, and what its interface guarantees a
  caller: the properties of the consistent hash over the code's own functions, a concrete ring
  that witnesses them.
\<close>

subsection \<open>Start and end\<close>

lemma init_ok:
  assumes "finite (dom (vnode_mem m))"
  shows "\<exists>c. conhash_init st pf True = ok (Some c) \<and> ring_ready (c, m) [] \<and>
    cb_hashfunc c = (case pf of Some f \<Rightarrow> f | None \<Rightarrow> conhash_hash_def st) \<and> dom (heap (vnode_tree c)) = {NIL}"
proof -
  let ?n = "\<lparr>key = 0, parent = NULL, right = NULL, left = NULL, color = 1, vdata = NULL\<rparr> :: util_rbtree_node_t"
  let ?s = "\<lparr>root = NIL, rb_size = 0, heap = [NIL \<mapsto> ?n]\<rparr>"
  let ?c = "\<lparr>vnode_tree = ?s, ivnodes = 0, cb_hashfunc = (case pf of Some f \<Rightarrow> f | None \<Rightarrow> conhash_hash_def st)\<rparr>"
  have "conhash_init st pf True = ok (Some ?c)"
    by (simp add: conhash_init_def util_rbtree_init_def util_rbt_black_def)
  moreover have "ring_rep ?c m NIL Tip \<and> outer ?s NIL Tip"
    using assms by (simp add: ring_rep_def rb_wf_def rep_def red_black_def nil_black_def outer_def)
  then have "ring_ready (?c, m) []" unfolding ring_ready_def by force
  ultimately show ?thesis by (intro exI [of _ ?c]) simp
qed

lemma fini_loop_ok:
  "ring_rep c m q t \<Longrightarrow> \<exists>s' m'. fini_loop (vnode_tree c, m) = ok (s', m') \<and> util_rbtree_isempty s' \<and> node_mem m' = node_mem m \<and>
    vnode_mem m' = vnode_mem m |` (- (snd \<circ> snd) ` set (entries t)) \<and>
    dom (heap s') = dom (heap (vnode_tree c)) - set (addrs t)"
proof (induction "length (entries t)" arbitrary: c m q t rule: less_induct)
  case less
  have wf: "rb_wf (vnode_tree c) q t" using less.prems by (simp add: ring_rep_def)
  show ?case
  proof (cases t)
    case Tip
    then show ?thesis using empty_iff [OF wf] by (subst fini_loop.simps) (simp add: restrict_map_def)
  next
    case (Br l x cl k d r)
    have e: "(x, k, d) \<in> set (entries t)" by (simp add: Br)
    obtain s1 s' q' t' where d: "util_rbtree_delete x (vnode_tree c) = ok s1"
      "conhash_del_rbnode x (s1, m) = ok (s', m\<lparr>vnode_mem := (vnode_mem m)(d := None)\<rparr>)"
      "ring_rep (c\<lparr>vnode_tree := s', ivnodes := ivnodes c - 1\<rparr>) (m\<lparr>vnode_mem := (vnode_mem m)(d := None)\<rparr>) q' t'"
      "entries t' = filter (\<lambda>e. fst e \<noteq> x) (entries t)"
      using remove_cell [OF less.prems e] by blast
    have "length (entries t') < length (entries t)"
      unfolding d(4) by (rule length_filter_less [OF e]) simp
    from less.hyps [OF this d(3)] obtain s2 m2 where f: "fini_loop (s', m\<lparr>vnode_mem := (vnode_mem m)(d := None)\<rparr>) = ok (s2, m2)"
      "util_rbtree_isempty s2" "node_mem m2 = node_mem m"
      "vnode_mem m2 = ((vnode_mem m)(d := None)) |` (- (snd \<circ> snd) ` set (entries t'))"
      "dom (heap s2) = dom (heap s') - set (addrs t')" by auto
    have eq: "set (entries t) = insert (x, k, d) (set (entries t'))"
    proof -
      have "fst e' \<noteq> x \<or> e' = (x, k, d)" if "e' \<in> set (entries t)" for e'
        using distinct_mapD [OF rb_wf_parts(8) [OF wf] that e] by auto
      then show ?thesis unfolding d(4) set_filter using e by blast
    qed
    have sets: "insert d ((snd \<circ> snd) ` set (entries t')) = (snd \<circ> snd) ` set (entries t)"
      "insert x (set (addrs t')) = set (addrs t)" by (simp_all add: eq)
    have "payload s1 = payload (vnode_tree c)"
      using post_delete [of "payload (vnode_tree c)" "vnode_tree c" x] d(1) by (simp add: post_def kp_def)
    then have "heap s1 b = None \<longleftrightarrow> heap (vnode_tree c) b = None" for b
      by (metis payload_def option.map_disc_iff)
    then have "dom (heap s1) = dom (heap (vnode_tree c))" by (auto simp: dom_def)
    moreover have "heap s' = (heap s1)(x := None)"
      using d(2) by (auto simp: conhash_del_rbnode_def rd_def get_def ok_def bnd_def split: option.splits sum.splits if_splits)
    ultimately have dom: "dom (heap s2) = dom (heap (vnode_tree c)) - set (addrs t)"
      unfolding f(5) sets(2) [symmetric] by auto
    have root: "root (vnode_tree c) = x" "\<not> util_rbtree_isempty (vnode_tree c)"
      using rb_wf_parts(5) [OF wf] empty_iff [OF wf] by (simp_all add: Br)
    have "vnode_mem m2 = vnode_mem m |` (- (snd \<circ> snd) ` set (entries t))"
      unfolding f(4) sets(1) [symmetric] by (auto simp: fun_eq_iff restrict_map_def)
    then show ?thesis using f(1-3) dom d(1,2) root
      by (subst fini_loop.simps) simp
  qed
qed

subsection \<open>Listing the virtual nodes\<close>

lemma get_vnodes_fold:
  "cur + min (nat n - cur) (length es) \<le> length vs \<Longrightarrow> 0 < n \<Longrightarrow>
   \<exists>cur'. fold (get_vnodes_step n) es (Some (vs, cur)) =
     Some (take cur vs @ take (nat n - cur) (map key es) @ drop (cur + min (nat n - cur) (length es)) vs, cur')"
proof (induction es arbitrary: vs cur)
  case (Cons e es)
  show ?case
  proof (cases "int cur < n")
    case True
    then have c: "cur < length vs" "nat n - cur = Suc (nat n - Suc cur)" using Cons.prems by auto
    have "Suc cur + min (nat n - Suc cur) (length es) \<le> length (vs[cur := key e])" using Cons.prems(1) c(2) by simp
    from Cons.IH [OF this Cons.prems(2)] show ?thesis using True c
      by (simp add: get_vnodes_step_def take_Suc_conv_app_nth drop_update_cancel)
  next
    case False
    then have "nat n - cur = 0" by simp
    then show ?thesis using Cons.IH [of cur vs] Cons.prems False by (simp add: get_vnodes_step_def)
  qed
qed simp


lemma ring_cells:
  assumes "rb_wf s q t"
  shows "map key (map (\<lambda>a. the (heap s a)) (addrs t)) = keys t"
proof -
  have "key (the (heap s (fst e))) = entry_key e" if "e \<in> set (entries t)" for e
  proof -
    obtain a k d where "e = (a, k, d)" by (cases e)
    then show ?thesis using entry_cell [OF rb_wf_parts(4) [OF assms]] that by fastforce
  qed
  then show ?thesis by (simp add: keys_def)
qed

subsection \<open>A concrete ring\<close>

definition blank :: util_rbtree_node_t where
  "blank = \<lparr>key = 0, parent = 7, right = 7, left = 7, color = 7, vdata = 7\<rparr>"

text \<open>An allocator that uses every address once, and one that never fails.\<close>

definition bump :: allocator where
  "bump i h v = (if h (100 + i) = None \<and> v (100 + i) = None then 100 + i else NULL, blank)"

definition high_water :: allocator where
  "high_water i h v =
     (let a = Suc (Max (insert 100 (dom h \<union> dom v)))
      in if h a = None \<and> v a = None \<and> a > 1 then a else NULL, blank)"

lemma bump_fresh: "malloc_fresh bump"
  by (simp add: malloc_fresh_def bump_def NIL_def)

lemma high_water_ok: "malloc_fresh high_water" "malloc_succeeds high_water"
proof -
  show "malloc_fresh high_water" by (simp add: malloc_fresh_def high_water_def Let_def NIL_def)
  have "fst (high_water i h v) \<noteq> NULL" if "finite (dom h)" "finite (dom v)" for i h v
  proof -
    let ?A = "insert 100 (dom h \<union> dom v)"
    have "x \<le> Max ?A" if "x \<in> ?A" for x using that \<open>finite (dom h)\<close> \<open>finite (dom v)\<close> by (intro Max_ge) simp_all
    from this [of "Suc (Max ?A)"] this [of 100] have "Suc (Max ?A) \<notin> ?A" "Suc (Max ?A) > 1" by force+
    then have "fst (high_water i h v) = Suc (Max ?A)" by (auto simp: high_water_def Let_def dom_def)
    then show ?thesis by (simp add: NULL_def)
  qed
  then show "malloc_succeeds high_water" by (simp add: malloc_succeeds_def)
qed

definition padded :: "string \<Rightarrow> string" where
  "padded s = s @ replicate (64 - length s) (CHR 0x00)"

definition servers :: memory where
  "servers = \<lparr>vnode_mem = Map.empty,
     node_mem = [10 \<mapsto> \<lparr>iden = padded ''a'', replicas = 1, flag = NODE_FLAG_INIT\<rparr>,
                 11 \<mapsto> \<lparr>iden = padded ''b'', replicas = 1, flag = NODE_FLAG_INIT\<rparr>,
                 12 \<mapsto> \<lparr>iden = padded ''c'', replicas = 3, flag = NODE_FLAG_INIT\<rparr>],
     allocs = 0\<rparr>"

definition sample_hash :: "string \<Rightarrow> int" where
  "sample_hash s =
     (if s = ''a-000'' then 10 else if s = ''b-000'' then 22 else if s = ''c-000'' then 21
      else if s = ''c-001'' then 23 else if s = ''c-002'' then 20 else 15)"

definition empty_ring :: conhash_s where
  "empty_ring = \<lparr>vnode_tree = \<lparr>root = NIL, rb_size = 0,
     heap = [NIL \<mapsto> \<lparr>key = 0, parent = NULL, right = NULL, left = NULL, color = 1, vdata = NULL\<rparr>]\<rparr>,
     ivnodes = 0, cb_hashfunc = sample_hash\<rparr>"

lemma empty_ring_ready: "ring_ready (empty_ring, servers) []"
  using init_ok [of servers undefined "Some sample_hash"]
  by (auto simp: conhash_init_def util_rbtree_init_def util_rbt_black_def empty_ring_def servers_def)

lemma servers_outside:
  "server False 10 (empty_ring, servers)" "server False 11 (empty_ring, servers)" "server False 12 (empty_ring, servers)"
  by (simp_all add: server_def servers_def padded_def NULL_def NODE_FLAG_INIT_def NODE_FLAG_IN_def)

lemma decimal_0: "decimal 0 = ''0''"
  by code_simp

lemma sample_hashes: "hashes_of 10 (empty_ring, servers) = {10}"
proof -
  have "{..<Suc 0} = {0}" by auto
  then show ?thesis
    by (simp add: hashes_of_def servers_def empty_ring_def replica_hash_def padded_def format_03d_def i32_def decimal_0 sample_hash_def numeral_2_eq_2)
qed


subsection \<open>What a caller gets\<close>

text \<open>
  C6. Adding a server works: with memory available \<open>conhash_add_node\<close> returns 0, every replica
  hash that was free now belongs to the server and no other virtual node changes; the ring
  stays fit for further insertions and \<open>ivnodes\<close> counts its virtual nodes.
\<close>

theorem add_node_inserts_replicas:
  assumes "malloc_fresh al" and "malloc_succeeds al" and "ring_ready (c, m) os" and "server False node (c, m)"
  shows "\<exists>c' m' os'. conhash_add_node al node (Some c) m = ok (0, Some c', m') \<and> ring_ready (c', m') os' \<and>
    server True node (c', m') \<and> conhash_get_vnodes_num (Some c') = of_nat (length os') \<and>
    map_of os' = (\<lambda>k. case map_of os k of Some n \<Rightarrow> Some n | None \<Rightarrow> if k \<in> hashes_of node (c, m) then Some node else None)"
proof -
  obtain c' m' os' where a: "conhash_add_node al node (Some c) m = ok (0, Some c', m')" "ring_ready (c', m') os'"
    "server True node (c', m')" "added node (hashes_of node (c, m)) os os'" "hashes_of node (c, m) \<subseteq> fst ` set os'"
    using add_node_ok [OF assms(1,3,4)] assms(2) by blast
  have "conhash_get_vnodes_num (Some c') = of_nat (length os')"
    using a(2) by (auto simp: ring_ready_def ring_rep_def conhash_get_vnodes_num_def)
  moreover note added_map_of [OF a(4) ring_distinct [OF ring_of_ready [OF a(2)]] a(5)]
  ultimately show ?thesis using a(1-3) by (intro exI [of _ c'] exI [of _ m'] exI [of _ os']) auto
qed

theorem add_node_inserts_replicas_witness:
  "\<exists>c' m' os'. conhash_add_node high_water 10 (Some empty_ring) servers = ok (0, Some c', m') \<and>
     ring_ready (c', m') os' \<and> map_of os' = [10 \<mapsto> 10]"
  using add_node_inserts_replicas [OF high_water_ok empty_ring_ready servers_outside(1)]
  by (fastforce simp: sample_hashes fun_eq_iff)

text \<open>
  C5. A lookup returns the server of the object's successor on the ring: the first virtual
  node at or after the object's hash, or the first of all when there is none, on a ring of fewer
  than \<open>2 ^ 32\<close> virtual nodes (the counter has 32 bits); for an empty ring the answer is \<open>NULL\<close>.
\<close>

theorem lookup_returns_successor_server:
  assumes "ring (c, m) os" and "length os < 2 ^ 32"
  shows "conhash_lookup (Some c) (Some ob) m = ok (ring_owner (cb_hashfunc c ob) os)"
  by (rule lookup_owner [OF assms])

text \<open>A ring of two virtual nodes, at 10 and 22; \<open>h\<close> is the hash of every object.\<close>

definition two_ring :: "int \<Rightarrow> conhash_s" where
  "two_ring h = \<lparr>vnode_tree = two_nodes, ivnodes = 2, cb_hashfunc = \<lambda>_. h\<rparr>"

definition two_vnodes :: memory where
  "two_vnodes = servers\<lparr>vnode_mem := [7 \<mapsto> \<lparr>vhash = 10, vserver = 10\<rparr>, 8 \<mapsto> \<lparr>vhash = 22, vserver = 11\<rparr>]\<rparr>"

lemma two_ring_rep: "ring_rep (two_ring h) two_vnodes NIL two_tree"
proof -
  have "dom (heap two_nodes) \<subseteq> {..<30}" by (auto simp: two_nodes_def pool_def split: if_splits)
  then have "finite (dom (heap two_nodes))" by (rule finite_subset) simp
  then show ?thesis
    using two_nodes_wf by (simp add: ring_rep_def two_ring_def two_vnodes_def two_tree_def vnode_ok_def NULL_def)
qed

lemma two_ring_ring: "ring (two_ring h, two_vnodes) [(10, 10), (22, 11)]"
  using two_ring_rep unfolding ring_def
  by (intro exI [of _ NIL] exI [of _ two_tree]) (simp add: two_tree_def owner_of_def two_vnodes_def)

theorem lookup_returns_successor_server_witness:
  "conhash_lookup (Some (two_ring 11)) (Some ''user:1'') two_vnodes = ok 11 \<and>
   conhash_lookup (Some (two_ring 23)) (Some ''user:1'') two_vnodes = ok 10"
  using lookup_returns_successor_server [OF two_ring_ring] by (simp add: ring_owner_def two_ring_def)

text \<open>
  C4. Adding a server moves objects only to the new server, even when some of its virtual
  nodes could not be allocated: afterwards every object is where it was or on the new server.
\<close>

theorem adding_moves_objects_only_to_the_new_server:
  assumes "malloc_fresh al" and "ring_ready cm os" and "server False node cm"
  shows "\<exists>cm' os'. ring_add al node cm = ok cm' \<and> ring_ready cm' os' \<and>
    (length os' < 2 ^ 32 \<longrightarrow> (\<forall>ob. ring_look cm' ob = ring_look cm ob \<or> ring_look cm' ob = ok node))"
  by (rule ch.add_disruption [OF assms])

theorem adding_moves_objects_only_to_the_new_server_witness:
  "\<exists>cm' os'. ring_add bump 10 (empty_ring, servers) = ok cm' \<and> ring_ready cm' os'"
  using adding_moves_objects_only_to_the_new_server [OF bump_fresh empty_ring_ready servers_outside(1)] by blast

lemma one_server_ring:
  "\<exists>cm os. ring_add bump 10 (empty_ring, servers) = ok cm \<and> ring_ready cm os \<and> server True 10 cm \<and> length os \<le> 1"
proof -
  obtain c m os where a: "ring_add bump 10 (empty_ring, servers) = ok (c, m)" "ring_ready (c, m) os" "server True 10 (c, m)"
    "added 10 {10} [] os"
    using ch.add_law [OF bump_fresh empty_ring_ready servers_outside(1)] unfolding sample_hashes by (metis surj_pair)
  have "set (map fst os) \<subseteq> {10}" using a(4) by (auto simp: added_def)
  then have "card (set (map fst os)) \<le> card {10 :: int}" by (intro card_mono) simp_all
  then have "length os \<le> 1" using distinct_card [OF ring_distinct [OF ring_of_ready [OF a(2)]]] by simp
  then show ?thesis using a by blast
qed

text \<open>
  C3. Removing a server moves only its own objects: on a ring of fewer than \<open>2 ^ 32\<close> virtual nodes,
  every object that was on another server is still there.
\<close>

theorem removing_moves_only_the_removed_servers_objects:
  assumes "ring cm os" and "server True node cm" and "length os < 2 ^ 32"
  shows "\<exists>cm'. ring_del node cm = ok cm' \<and> ring cm' (without node (hashes_of node cm) os) \<and>
    (\<forall>ob. ring_look cm ob = ring_look cm' ob \<or> ring_look cm ob = ok node)"
  by (rule ch.del_disruption [OF assms])

theorem removing_moves_only_the_removed_servers_objects_witness:
  "\<exists>cm cm' os. ring_add bump 10 (empty_ring, servers) = ok cm \<and> ring_del 10 cm = ok cm' \<and> ring cm' os"
proof -
  obtain cm os where "ring_add bump 10 (empty_ring, servers) = ok cm" "ring_ready cm os" "server True 10 cm" "length os \<le> 1"
    using one_server_ring by blast
  then show ?thesis using removing_moves_only_the_removed_servers_objects [OF ring_of_ready, of cm os 10] by auto
qed

text \<open>
  C7. Adding a server and removing it again restores the ring: the virtual nodes are the same
  as before, and so is the answer to every lookup.
\<close>

theorem add_then_remove_restores_the_ring:
  assumes "malloc_fresh al" and "ring_ready cm os" and "server False node cm" and "node \<notin> snd ` set os"
  shows "\<exists>cm' cm''. ring_add al node cm = ok cm' \<and> ring_del node cm' = ok cm'' \<and> ring cm'' os \<and>
    (length os < 2 ^ 32 \<longrightarrow> (\<forall>ob. ring_look cm'' ob = ring_look cm ob))"
  by (rule ch.add_then_del [OF assms])

theorem add_then_remove_restores_the_ring_witness:
  "\<exists>cm' cm''. ring_add bump 12 (empty_ring, servers) = ok cm' \<and> ring_del 12 cm' = ok cm'' \<and> ring cm'' []"
  using add_then_remove_restores_the_ring [OF bump_fresh empty_ring_ready servers_outside(3)] by auto

text \<open>
  C8. \<open>conhash_fini\<close> ends and leaks nothing: the loop deletes the root until the tree is empty,
  every virtual node and every cell of the tree is freed, and nothing else is.
\<close>

theorem fini_frees_everything:
  assumes "ring_rep c m q t"
  shows "(\<exists>s' m'. fini_loop (vnode_tree c, m) = ok (s', m') \<and> conhash_fini (Some c) m = ok m' \<and>
    dom (heap s') = dom (heap (vnode_tree c)) - set (addrs t) \<and>
    vnode_mem m' = vnode_mem m |` (- (snd \<circ> snd) ` set (entries t)) \<and> node_mem m' = node_mem m)"
  using fini_loop_ok [OF assms] by (auto simp: conhash_fini_def)

theorem fini_frees_everything_witness:
  "\<exists>m'. conhash_fini (Some (two_ring 0)) two_vnodes = ok m' \<and> vnode_mem m' 7 = None \<and> vnode_mem m' 8 = None"
  using fini_frees_everything [OF two_ring_rep, of 0] by (auto simp: two_tree_def)

text \<open>
  \<open>conhash_get_vnodes\<close> fills the caller's array with the hash values of the ring in
  ascending order, as many as it is asked for and the ring has, and writes nothing else.
\<close>

theorem get_vnodes_in_order:
  assumes "ring (c, m) os" and "0 < n" and "min (nat n) (length os) \<le> length vs"
  shows "conhash_get_vnodes (Some c) (Some vs) n = ok (Some (take (nat n) (map fst os) @ drop (min (nat n) (length os)) vs)) \<and>
    sorted_wrt (<) (map fst os)"
proof -
  obtain q t where r: "ring_rep c m q t" and os: "os = map (owner_of m) (entries t)"
    using assms(1) by (auto simp: ring_def)
  have wf: "rb_wf (vnode_tree c) q t" using r by (simp add: ring_rep_def)
  let ?es = "map (\<lambda>a. the (heap (vnode_tree c) a)) (addrs t)"
  have keys: "map key ?es = map fst os" using ring_cells [OF wf] by (simp add: os keys_def)
  have len: "length ?es = length os" by (simp add: os)
  obtain cur where f: "fold (get_vnodes_step n) ?es (Some (vs, 0)) =
      Some (take (nat n) (map fst os) @ drop (min (nat n) (length os)) vs, cur)"
    using get_vnodes_fold [of 0 n ?es vs] assms(2,3) unfolding keys len by auto
  have "fold (\<lambda>a. get_vnodes_step n (the (heap (vnode_tree c) a))) (addrs t) x = fold (get_vnodes_step n) ?es x" for x
    by (simp add: fold_map comp_def)
  then have "util_rbtree_mid_travel (vnode_tree c) (get_vnodes_step n) (Some (vs, 0)) =
      ok (Some (take (nat n) (map fst os) @ drop (min (nat n) (length os)) vs, cur))"
    using mid_travel_rb [OF wf, of "get_vnodes_step n" "Some (vs, 0)"] unfolding f [symmetric] by simp
  then show ?thesis using assms(2) ring_sorted [OF assms(1)] by (simp add: conhash_get_vnodes_def)
qed

theorem get_vnodes_in_order_witness:
  "conhash_get_vnodes (Some empty_ring) (Some [5, 6]) 2 = ok (Some [5, 6])"
  using get_vnodes_in_order [OF ring_of_ready [OF empty_ring_ready], of 2 "[5, 6]"] by simp

end
