(* ===== verification/RingFault.thy ===== *)
theory RingFault
  imports RingLife
begin

text \<open>
  The cell that stays behind.  When the root of a tree of two nodes is taken out, the parent link
  of the new root points to the old one, which the caller frees.  The insertions that follow are
  defined as long as their repair stays below the root; the first one that climbs to it reads
  the freed cell, and that is at the latest the third.
\<close>

subsection \<open>Small red-black trees\<close>

lemma only_leaf: "invc t \<Longrightarrow> bh t = 0 \<Longrightarrow> col t = 1 \<Longrightarrow> t = Tip"
  by (cases t) auto

lemma red_leaf:
  assumes "invc t" "invh t" "bh t = 0"
  shows "t = Tip \<or> (\<exists>a k d. t = Br Tip a 0 k d Tip)"
proof (cases t)
  case (Br l a c k d r)
  then have "l = Tip" "r = Tip" using assms only_leaf [of l] only_leaf [of r] by (auto split: if_splits)
  then show ?thesis using Br assms by (auto split: if_splits)
qed simp

lemma entries_nil: "entries t = [] \<longleftrightarrow> t = Tip"
  by (cases t) simp_all

text \<open>A tree of black height one: a black root with red leaves, or without.\<close>

lemma low_tree:
  assumes "red_black t" "bh t = 1"
  shows "\<exists>l a k d r. t = Br l a 1 k d r \<and> (l = Tip \<or> (\<exists>b i e. l = Br Tip b 0 i e Tip)) \<and>
    (r = Tip \<or> (\<exists>b i e. r = Br Tip b 0 i e Tip))"
proof (cases t)
  case (Br l a c k d r)
  then have "c = 1" "invc l" "invc r" "invh l" "invh r" "bh l = 0" "bh r = 0"
    using assms by (auto simp: red_black_def split: if_splits)
  then show ?thesis using Br red_leaf [of l] red_leaf [of r] by auto
qed (use assms in simp)

lemma low_tree_climbs:
  assumes "red_black t" "bh t = 1"
  shows "climbs (place k t []) \<longleftrightarrow> length (entries t) = 3"
  using low_tree [OF assms] by (elim exE conjE disjE) (simp_all split: if_split)

lemma filter_length_but_one:
  "distinct (map fst es) \<Longrightarrow> a \<in> set (map fst es) \<Longrightarrow> Suc (length (filter (\<lambda>e. fst e \<noteq> a) es)) = length es"
proof (induction es)
  case (Cons e es)
  have "filter (\<lambda>e. fst e \<noteq> a) es = es" if "fst e = a"
    using Cons.prems(1) that unfolding filter_id_conv by (metis distinct.simps(2) image_eqI list.simps(9) set_map)
  then show ?case using Cons by (cases "fst e = a") auto
qed simp

lemma single_height: "red_black t \<Longrightarrow> length (entries t) = 1 \<Longrightarrow> bh t = 1"
proof (cases t)
  case (Br l a c k d r)
  moreover assume "red_black t" "length (entries t) = 1"
  ultimately have "c = 1" "l = Tip" by (auto simp: red_black_def entries_nil)
  then show ?thesis using Br by simp
qed simp

subsection \<open>Insertions after the removal\<close>

text \<open>A new cell, as \<open>__conhash_get_rbnode\<close> allocates it, holds what its caller put there.\<close>

abbreviation with_cell :: "util_rbtree_t \<Rightarrow> addr \<Rightarrow> util_rbtree_node_t \<Rightarrow> util_rbtree_t" where
  "with_cell s x n \<equiv> s\<lparr>heap := (heap s)(x \<mapsto> n)\<rparr>"

lemma wf_with_cell: "rb_wf s q t \<Longrightarrow> x \<notin> set (addrs t) \<Longrightarrow> x \<noteq> NIL \<Longrightarrow> rb_wf (with_cell s x n) q t"
  by (auto simp: rb_wf_def rep_def nil_black_def)

lemma addrs_insert:
  "entries t' = takeWhile P (entries t) @ (x, k, d) # dropWhile P (entries t) \<Longrightarrow>
   set (addrs t') = insert x (set (addrs t)) \<and> length (entries t') = Suc (length (entries t))"
proof -
  assume e: "entries t' = takeWhile P (entries t) @ (x, k, d) # dropWhile P (entries t)"
  have "set (entries t) = set (takeWhile P (entries t)) \<union> set (dropWhile P (entries t))"
    "length (entries t) = length (takeWhile P (entries t)) + length (dropWhile P (entries t))"
    by (metis set_append takeWhile_dropWhile_id) (metis length_append takeWhile_dropWhile_id)
  then show ?thesis using e by auto
qed

text \<open>While the tree is small, no insertion climbs to the root, whatever the parent link is.\<close>

lemma low_insert:
  assumes wf: "rb_wf s q t" and low: "bh t = 1" "length (entries t) < 3"
    and x: "x \<notin> set (addrs t)" "x \<noteq> NIL" "x \<noteq> NULL" "x \<noteq> q"
  shows "\<exists>s' t'. util_rbtree_insert x (with_cell s x n) = ok s' \<and> rb_wf s' q t' \<and> bh t' = 1 \<and>
    length (entries t') = Suc (length (entries t)) \<and> set (addrs t') = insert x (set (addrs t)) \<and>
    (\<forall>b. b \<notin> insert x (set (addrs t)) \<longrightarrow> heap s' b = heap s b)"
proof -
  have calm: "\<not> climbs (place (key n) t [])"
    using low_tree_climbs [OF rb_wf_parts(2) [OF wf] low(1)] low(2) by simp
  have ne: "t \<noteq> Tip" using low(1) by auto
  obtain s' q' t' where s': "util_rbtree_insert x (with_cell s x n) = ok s'" "rb_wf s' q' t'" "q' = q \<or> t = Tip \<and> q' = NIL"
    "entries t' = takeWhile (\<lambda>e. entry_key e \<le> key n) (entries t) @ (x, key n, vdata n) # dropWhile (\<lambda>e. entry_key e \<le> key n) (entries t)"
    "t \<noteq> Tip \<and> \<not> climbs (place (key n) t []) \<longrightarrow> bh t' = bh t"
    "\<forall>a. a \<notin> insert x (set (addrs t)) \<longrightarrow> heap s' a = heap (with_cell s x n) a"
    using insert_wf [OF wf_with_cell [OF wf x(1,2)] _ _ x, of n n] calm by auto
  then show ?thesis using addrs_insert [OF s'(4)] calm ne low(1) by (intro exI [of _ s'] exI [of _ t']) auto
qed

lemma low_insert_lost:
  assumes wf: "rb_wf s q t" and low: "bh t = 1" "length (entries t) = 3"
    and x: "x \<notin> set (addrs t)" "x \<noteq> NIL" "x \<noteq> NULL" "x \<noteq> q" and q: "heap s q = None"
  shows "is_undefined (util_rbtree_insert x (with_cell s x n))"
proof -
  have "climbs (place (key n) t [])"
    using low_tree_climbs [OF rb_wf_parts(2) [OF wf] low(1)] low(2) by simp
  moreover have "t \<noteq> Tip" using low(1) by auto
  ultimately have "util_rbtree_insert x (with_cell s x n) = Some (Inl Undefined)"
    using insert_lost [OF wf_with_cell [OF wf x(1,2)] _ x, of n n] q x(4) by simp
  then show ?thesis by (simp add: is_undefined_def)
qed

text \<open>Taking the root out of a tree of two nodes leaves the parent link on the removed cell.\<close>

lemma delete_root_of_two:
  assumes wf: "rb_wf s q t" and two: "length (entries t) = 2" and a: "root s = a"
  shows "\<exists>s' t'. util_rbtree_delete a s = ok s' \<and> deleted s q t a s' a t'"
proof -
  obtain l c k d r where t: "t = Br l a c k d r" using two a rb_wf_parts(5) [OF wf] by (cases t) auto
  have t': "t = plug [] (Br l a c k d r)" by (simp add: t)
  have "l = Tip \<or> r = Tip" using two by (cases l; cases r) (auto simp: t)
  moreover obtain m sub where pos: "delete_pos a (one_less s) = ok (m, addr_of sub)" and
    "m = a \<and> (l = Tip \<and> sub = r \<or> r = Tip \<and> sub = l) \<or>
     l \<noteq> Tip \<and> (\<exists>es mc mk md. r = plug es (Br Tip m mc mk md sub) \<and> all_left es)"
    using delete_pos_ok [OF wf_place(1) [OF wf t']] by blast
  ultimately have "m = a" "l = Tip \<and> sub = r \<or> r = Tip \<and> sub = l"
    using plug_not_Tip by (metis rbt.distinct(1))+
  then show ?thesis using delete_one_root [OF wf t] pos by blast
qed

lemma free_removed_cell:
  assumes wf: "rb_wf s q t" and e: "(a, k, d) \<in> set (entries t)" and v: "d \<noteq> NULL" "vnode_mem m d = Some v"
    and del: "util_rbtree_delete a s = ok s1"
  shows "conhash_del_rbnode a (s1, m) = ok (s1\<lparr>heap := (heap s1)(a := None)\<rparr>, m\<lparr>vnode_mem := (vnode_mem m)(d := None)\<rparr>)"
proof -
  obtain n where n: "heap s a = Some n" "vdata n = d" using entry_cell [OF rb_wf_parts(4) [OF wf] e] by blast
  obtain n' where "heap s1 a = Some n'" "vdata n' = d" using delete_keeps_payload [OF del n(1)] n(2) by blast
  then show ?thesis using v by (simp add: conhash_del_rbnode_def)
qed

text \<open>
  C9. A removed virtual node is read again.  When a ring of two virtual nodes loses the one at
  the root of its tree, \<open>util_rbtree_delete\<close> leaves the parent link of the other on the removed
  cell, which \<open>__conhash_del_rbnode\<close> then frees.  Whatever the keys are and wherever the cells
  lie (other than at the freed address), the next two insertions succeed and the third is
  undefined; it is defined again if a cell that is not red is put back at the freed address and
  nothing else is changed, so the freed cell is what it reads.
\<close>

theorem removed_root_is_read_again:
  assumes wf: "rb_wf s q t" and two: "length (entries t) = 2"
    and a: "(a, k, d) \<in> set (entries t)" "root s = a" and v: "d \<noteq> NULL" "vnode_mem m d = Some v"
    and new: "distinct [x, y, z]" "\<forall>b \<in> {x, y, z}. b \<noteq> NULL \<and> b \<noteq> NIL \<and> heap s b = None"
  shows "\<exists>s1 s2 m' s3 s4. util_rbtree_delete a s = ok s1 \<and> conhash_del_rbnode a (s1, m) = ok (s2, m') \<and>
    heap s2 a = None \<and>
    util_rbtree_insert x (with_cell s2 x nx) = ok s3 \<and>
    util_rbtree_insert y (with_cell s3 y ny) = ok s4 \<and>
    is_undefined (util_rbtree_insert z (with_cell s4 z nz)) \<and>
    (\<forall>n. color n \<noteq> 0 \<longrightarrow> (\<exists>s5. util_rbtree_insert z (with_cell (with_cell s4 z nz) a n) = ok s5))"
proof -
  obtain s1 t1 where s1: "util_rbtree_delete a s = ok s1" "rb_wf s1 a t1" "entries t1 = filter (\<lambda>e. fst e \<noteq> a) (entries t)"
    using delete_root_of_two [OF wf two a(2)] unfolding deleted_def by blast
  define s2 where "s2 = s1\<lparr>heap := (heap s1)(a := None)\<rparr>"
  have free: "conhash_del_rbnode a (s1, m) = ok (s2, m\<lparr>vnode_mem := (vnode_mem m)(d := None)\<rparr>)"
    unfolding s2_def by (rule free_removed_cell [OF wf a(1) v s1(1)])
  have in_t: "a \<in> set (addrs t)" using a(1) by force
  then have aN: "a \<noteq> NIL" using rb_wf_parts(6) [OF wf] by blast
  have fresh: "b \<noteq> NULL" "b \<noteq> NIL" "b \<noteq> a" "b \<notin> set (addrs t)" if "b \<in> {x, y, z}" for b
    using new(2) that in_t tree_alloc [OF rb_wf_parts(4) [OF wf]] by blast+
  have sub: "set (addrs t1) \<subseteq> set (addrs t)" "a \<notin> set (addrs t1)" by (auto simp: s1(3))
  have one: "length (entries t1) = 1"
    using two filter_length_but_one [OF rb_wf_parts(8) [OF wf] in_t] by (simp add: s1(3))
  have wf2: "rb_wf s2 a t1" unfolding s2_def by (rule free_cell [OF s1(2) sub(2) aN])
  have low: "bh t1 = 1" by (rule single_height [OF rb_wf_parts(2) [OF s1(2)] one])
  have ax: "a \<notin> insert x (set (addrs t1))" "x \<notin> set (addrs t1)" using sub fresh [of x] by blast+
  obtain s3 t3 where s3: "util_rbtree_insert x (with_cell s2 x nx) = ok s3" "rb_wf s3 a t3" "bh t3 = 1"
    "length (entries t3) = 2" "set (addrs t3) = insert x (set (addrs t1))" "heap s3 a = None"
    using low_insert [OF wf2 low _ ax(2) fresh(2,1,3), of nx] one ax(1) by (auto simp: s2_def)
  have ay: "a \<notin> insert y (set (addrs t3))" "y \<notin> set (addrs t3)"
    using s3(5) ax(1) sub fresh [of y] new(1) by auto
  obtain s4 t4 where s4: "util_rbtree_insert y (with_cell s3 y ny) = ok s4" "rb_wf s4 a t4" "bh t4 = 1"
    "length (entries t4) = 3" "set (addrs t4) = insert y (set (addrs t3))" "heap s4 a = None"
    using low_insert [OF s3(2,3) _ ay(2) fresh(2,1,3), of ny] s3(4,6) ay(1) by auto
  have z: "z \<notin> set (addrs t4)" "z \<noteq> NIL" "z \<noteq> NULL" "z \<noteq> a" "a \<notin> set (addrs t4)"
    using s4(5) s3(5) sub fresh [of x] fresh [of y] fresh [of z] new(1) by auto
  have "is_undefined (util_rbtree_insert z (with_cell s4 z nz))"
    by (rule low_insert_lost [OF s4(2-4) z(1-4) s4(6)])
  moreover have "\<exists>s5. util_rbtree_insert z (with_cell (with_cell s4 z nz) a n) = ok s5" if "color n \<noteq> 0" for n
  proof -
    have "rb_wf (with_cell (with_cell s4 z nz) a n) a t4" by (intro wf_with_cell s4(2) z aN)
    moreover have "outer (with_cell (with_cell s4 z nz) a n) a t4" using that z(5) by (simp add: outer_def)
    ultimately show ?thesis using insert_wf [OF _ _ _ z(1-4), of _ nz] z(4) by fastforce
  qed
  ultimately show ?thesis using s1(1) free s3(1) s4(1) by (auto simp: s2_def)
qed

theorem removed_root_is_read_again_witness:
  "\<exists>s1 s2 m' s3 s4. util_rbtree_delete 10 two_nodes = ok s1 \<and>
     conhash_del_rbnode 10 (s1, servers\<lparr>vnode_mem := [7 \<mapsto> \<lparr>vhash = 10, vserver = 10\<rparr>]\<rparr>) = ok (s2, m') \<and>
     util_rbtree_insert 30 (with_cell s2 30 (fresh_node 5)) = ok s3 \<and>
     util_rbtree_insert 31 (with_cell s3 31 (fresh_node 30)) = ok s4 \<and>
     is_undefined (util_rbtree_insert 32 (with_cell s4 32 (fresh_node 40)))"
  using removed_root_is_read_again [OF two_nodes_wf, of 10 10 7
      "servers\<lparr>vnode_mem := [7 \<mapsto> \<lparr>vhash = 10, vserver = 10\<rparr>]\<rparr>" "\<lparr>vhash = 10, vserver = 10\<rparr>" 30 31 32 "fresh_node 5" "fresh_node 30" "fresh_node 40"]
  by (fastforce simp: two_tree_def two_nodes_def pool_def NULL_def NIL_def)

text \<open>
  The same on a whole ring: two servers of one virtual node each are added, the one at the root
  is removed, and adding a server of three virtual nodes is undefined; without the removal the
  same calls are defined.
\<close>

lemma add_after_remove_sample:
  "is_undefined (bnd (ring_add bump 10 (empty_ring, servers)) (\<lambda>r. bnd (ring_add bump 11 r) (\<lambda>r.
     bnd (ring_del 10 r) (ring_add bump 12)))) \<and>
   \<not> is_undefined (bnd (ring_add bump 10 (empty_ring, servers)) (\<lambda>r. bnd (ring_add bump 11 r) (ring_add bump 12)))"
  by code_simp

end
