(* ===== verification/PathHash.thy ===== *)
theory PathHash
  imports RingLife Md5Proxy "HOL-Library.Sublist"
begin

text \<open>
  The functions nginx calls through Lua, \<^verbatim>\<open>nginx/c/hash.c\<close>: the choice of a host on a ring of two
  servers, and the two functions that spread a key over three levels of directories.  The
  global buffer \<open>url\<close> has 45 bytes; a write behind its end or behind the end of the work
  string, and a read of a string without its end, are \<open>Undefined\<close>.  The global server records
  are at fixed addresses of the memory.
\<close>

subsection \<open>Hosts\<close>

definition HASH_SLOT :: nat where "HASH_SLOT = 10"
definition ROUTE_SLOT :: nat where "ROUTE_SLOT = 2"

definition g_nodes :: "nat \<Rightarrow> addr" where "g_nodes j = 2000 + j"
definition route_nodes :: "nat \<Rightarrow> addr" where "route_nodes j = 1000 + j"

fun add_nodes :: "allocator \<Rightarrow> (nat \<Rightarrow> addr) \<Rightarrow> nat list \<Rightarrow> conhash_s option \<Rightarrow> memory \<Rightarrow> (conhash_s option \<times> memory) res" where
  "add_nodes al nodes [] co m = ok (co, m)"
| "add_nodes al nodes (j # js) co m =
     bnd (conhash_add_node al (nodes j) co m) (\<lambda>(_, co, m). add_nodes al nodes js co m)"

definition init_route :: "allocator \<Rightarrow> md5_state_t \<Rightarrow> bool \<Rightarrow> memory \<Rightarrow> (int \<times> conhash_s option \<times> memory) res" where
  "init_route al st allocated m =
     bnd (conhash_init st None allocated) (\<lambda>routehash.
       if routehash \<noteq> None then
         bnd (conhash_set_node (route_nodes 0) ''10.50.8.73'' 1 m) (\<lambda>m.
         bnd (conhash_set_node (route_nodes 1) ''10.50.8.74'' 1 m) (\<lambda>m.
         bnd (add_nodes al route_nodes [0..<ROUTE_SLOT] routehash m) (\<lambda>(routehash, m).
           ok (1, routehash, m))))
       else ok (- 1, routehash, m))"

definition c_string :: "string \<Rightarrow> string res" where
  "c_string s = (if CHR 0x00 \<in> set s then ok (takeWhile (\<lambda>c. c \<noteq> CHR 0x00) s) else Some (Inl Undefined))"

definition getHost :: "allocator \<Rightarrow> md5_state_t \<Rightarrow> bool \<Rightarrow> string \<Rightarrow> memory \<Rightarrow> (string \<times> memory) res" where
  "getHost al st allocated ks m =
     bnd (init_route al st allocated m) (\<lambda>(r, routehash, m).
       if r \<noteq> 0 then
         bnd (conhash_lookup routehash (Some ks) m) (\<lambda>node.
         bnd (conhash_fini routehash m) (\<lambda>m.
           if node \<noteq> NULL then
             get (node_mem m) node (\<lambda>n. bnd (c_string (iden n)) (\<lambda>host. ok (host, m)))
           else ok (''error'', m)))
       else ok (''error'', m))"

fun set_nodes :: "nat list \<Rightarrow> memory \<Rightarrow> memory res" where
  "set_nodes [] m = ok m"
| "set_nodes (j # js) m = bnd (conhash_set_node (g_nodes j) (decimal j) 1 m) (set_nodes js)"

text \<open>\<open>init\<close> of \<^verbatim>\<open>hash.c\<close>.\<close>

definition init_slots :: "allocator \<Rightarrow> md5_state_t \<Rightarrow> bool \<Rightarrow> memory \<Rightarrow> (int \<times> conhash_s option \<times> memory) res" where
  "init_slots al st allocated m =
     bnd (conhash_init st None allocated) (\<lambda>conhash.
       if conhash \<noteq> None then
         bnd (set_nodes [0..<HASH_SLOT] m) (\<lambda>m.
         bnd (add_nodes al g_nodes [0..<HASH_SLOT] conhash m) (\<lambda>(conhash, m). ok (1, conhash, m)))
       else ok (- 1, conhash, m))"

subsection \<open>Paths\<close>

record path_state =
  url :: string
  index :: nat
  str :: string
  cur :: nat

definition poke :: "string \<Rightarrow> nat \<Rightarrow> char \<Rightarrow> string res" where
  "poke buf i c = (if i < length buf then ok (buf[i := c]) else Some (Inl Undefined))"

text \<open>The inner loop; \<open>num\<close> is not negative where it runs.\<close>

function path_digits :: "int \<Rightarrow> int \<Rightarrow> path_state \<Rightarrow> (int \<times> path_state) res" where
  "path_digits anchor num st =
     (if anchor > 1 then
        let anchor = anchor div 10 in
        if anchor = 0 then Some (Inl Undefined)
        else
          let c = char_of (nat ((num div anchor + 48) mod 256)) in
          bnd (poke (url st) (index st) c) (\<lambda>u.
          bnd (poke (str st) (cur st) c) (\<lambda>s.
            path_digits anchor (num mod anchor) \<lparr>url = u, index = Suc (index st), str = s, cur = Suc (cur st)\<rparr>))
      else ok (num, st))"
  by pat_completeness auto
termination
  by (relation "measure (\<lambda>(anchor, _, _). nat anchor)") auto

declare path_digits.simps [simp del]

definition hash_of :: "MD5_CTX \<Rightarrow> string \<Rightarrow> int \<Rightarrow> int res" where
  "hash_of md5 buf slot =
     bnd (c_string buf) (\<lambda>s. case myhash md5 s slot of None \<Rightarrow> Some (Inl Undefined) | Some n \<Rightarrow> ok n)"

text \<open>
  One turn of the outer loop.  \<open>writeGetPath\<close> also ends the string after every level and makes
  the directory when \<open>opendir\<close> does not find it; the list collects the directories made.
\<close>

definition write_turn :: "MD5_CTX \<Rightarrow> (string \<Rightarrow> bool) \<Rightarrow> int \<Rightarrow> int \<times> path_state \<times> string list \<Rightarrow> (int \<times> path_state \<times> string list) res" where
  "write_turn md5 is_dir slot = (\<lambda>(num, st, made).
     bnd (path_digits slot num st) (\<lambda>(num, st).
     bnd (poke (url st) (index st) (CHR ''/'')) (\<lambda>u.
     bnd (poke u (Suc (index st)) (CHR 0x00)) (\<lambda>u.
     let dir = takeWhile (\<lambda>c. c \<noteq> CHR 0x00) u;
         made = (if is_dir dir then made else made @ [dir]) in
     bnd (hash_of md5 (str st) slot) (\<lambda>num.
       ok (num, st\<lparr>url := u, index := Suc (index st)\<rparr>, made))))))"

definition read_turn :: "MD5_CTX \<Rightarrow> int \<Rightarrow> int \<times> path_state \<Rightarrow> (int \<times> path_state) res" where
  "read_turn md5 slot = (\<lambda>(num, st).
     bnd (path_digits slot num st) (\<lambda>(num, st).
     bnd (poke (url st) (index st) (CHR ''/'')) (\<lambda>u.
     bnd (hash_of md5 (str st) slot) (\<lambda>num.
       ok (num, st\<lparr>url := u, index := Suc (index st)\<rparr>)))))"

text \<open>
  \<open>is_dir\<close> is the answer of \<open>opendir\<close> to a path; each path asked for is longer than the one before,
  so a function of the path stands for any answers.  \<open>allocated\<close> tells whether \<open>calloc\<close> finds memory:
  its result is not checked, and \<open>strncpy\<close> writes to it.
\<close>

definition writeGetPath :: "bool \<Rightarrow> MD5_CTX \<Rightarrow> (string \<Rightarrow> bool) \<Rightarrow> string \<Rightarrow> int \<Rightarrow> string \<Rightarrow> (string \<times> string \<times> string list) res" where
  "writeGetPath allocated md5 is_dir ks slot url0 =
     bnd (hash_of md5 (ks @ [CHR 0x00]) slot) (\<lambda>num.
     if \<not> allocated then Some (Inl Undefined)
     else let st = \<lparr>url = strncpy url0 ''/usr/local/openresty/nginx/html/files/'' 38, index = 38,
               str = ks @ replicate 9 (CHR 0x00), cur = length ks\<rparr> in
     bnd (write_turn md5 is_dir slot (num, st, [])) (\<lambda>r.
     bnd (write_turn md5 is_dir slot r) (\<lambda>r.
     bnd (write_turn md5 is_dir slot r) (\<lambda>(_, st, made).
     bnd (poke (url st) (index st) (CHR 0x00)) (\<lambda>u.
       ok (takeWhile (\<lambda>c. c \<noteq> CHR 0x00) u, u, made))))))"

definition readGetPath :: "bool \<Rightarrow> MD5_CTX \<Rightarrow> string \<Rightarrow> int \<Rightarrow> string \<Rightarrow> (string \<times> string) res" where
  "readGetPath allocated md5 ks slot url0 =
     bnd (hash_of md5 (ks @ [CHR 0x00]) slot) (\<lambda>num.
     if \<not> allocated then Some (Inl Undefined)
     else let st = \<lparr>url = strncpy url0 ''/files/'' 7, index = 7,
               str = ks @ replicate 9 (CHR 0x00), cur = length ks\<rparr> in
     bnd (read_turn md5 slot (num, st)) (\<lambda>r.
     bnd (read_turn md5 slot r) (\<lambda>r.
     bnd (read_turn md5 slot r) (\<lambda>(_, st).
     bnd (poke (url st) (index st) (CHR 0x00)) (\<lambda>u.
       ok (takeWhile (\<lambda>c. c \<noteq> CHR 0x00) u, u))))))"


subsection \<open>One level of directories\<close>

fun dec_digits :: "nat \<Rightarrow> int \<Rightarrow> string" where
  "dec_digits 0 n = []"
| "dec_digits (Suc d) n = char_of (nat (n div 10 ^ d + 48)) # dec_digits d (n mod 10 ^ d)"

lemma length_dec_digits [simp]: "length (dec_digits d n) = d"
  by (induction d arbitrary: n) simp_all

lemma digit_not_NUL: "0 \<le> x \<Longrightarrow> x \<le> 9 \<Longrightarrow> char_of (nat (x + 48)) \<noteq> CHR 0x00"
proof -
  assume x: "0 \<le> x" "x \<le> 9"
  have "of_char (char_of (nat (x + 48))) = nat (x + 48) mod 256" by (simp add: of_char_of)
  then have "of_char (char_of (nat (x + 48))) \<noteq> (0 :: nat)" using x by simp
  moreover have "of_char (CHR 0x00) = (0 :: nat)" by simp
  ultimately show ?thesis by metis
qed

lemma digit_range:
  assumes "0 \<le> n" and "n < 10 ^ Suc d"
  shows "0 \<le> n div 10 ^ d \<and> n div 10 ^ d \<le> (9 :: int)"
proof -
  have "n div 10 ^ d < 10"
  proof (rule ccontr)
    assume "\<not> n div 10 ^ d < 10"
    then have "10 * 10 ^ d \<le> n div 10 ^ d * 10 ^ d" by (intro mult_right_mono) simp_all
    also have "\<dots> \<le> n" by (simp add: minus_mod_eq_div_mult [symmetric])
    finally show False using assms(2) by simp
  qed
  then show ?thesis using assms(1) by (simp add: pos_imp_zdiv_nonneg_iff)
qed

lemma dec_digits_no_NUL: "0 \<le> n \<Longrightarrow> n < 10 ^ d \<Longrightarrow> CHR 0x00 \<notin> set (dec_digits d n)"
proof (induction d arbitrary: n)
  case (Suc d)
  have "char_of (nat (n div 10 ^ d + 48)) \<noteq> CHR 0x00"
    using digit_not_NUL digit_range [OF Suc.prems] by blast
  then show ?case using Suc.IH [of "n mod 10 ^ d"] by (auto simp: eq_commute)
qed simp

definition splice :: "string \<Rightarrow> nat \<Rightarrow> string \<Rightarrow> string" where
  "splice buf i xs = take i buf @ xs @ drop (i + length xs) buf"

lemma splice_step: "i < length buf \<Longrightarrow> splice (buf[i := c]) (Suc i) xs = splice buf i (c # xs)"
  by (simp add: splice_def take_Suc_conv_app_nth drop_update_cancel)

lemma splice_nil [simp]: "splice buf i [] = buf"
  by (simp add: splice_def)

lemma path_digits_ok:
  "index st + d \<le> length (url st) \<Longrightarrow> cur st + d \<le> length (str st) \<Longrightarrow> 0 \<le> n \<Longrightarrow> n < 10 ^ d \<Longrightarrow>
   \<exists>n'. path_digits (10 ^ d) n st =
     ok (n', \<lparr>url = splice (url st) (index st) (dec_digits d n), index = index st + d,
              str = splice (str st) (cur st) (dec_digits d n), cur = cur st + d\<rparr>)"
proof (induction d arbitrary: n st)
  case 0
  then show ?case by (simp add: path_digits.simps)
next
  case (Suc d)
  let ?c = "char_of (nat (n div 10 ^ d + 48))"
  let ?st = "\<lparr>url = (url st)[index st := ?c], index = Suc (index st), str = (str st)[cur st := ?c], cur = Suc (cur st)\<rparr>"
  have "\<exists>n'. path_digits (10 ^ d) (n mod 10 ^ d) ?st =
     ok (n', \<lparr>url = splice (url ?st) (index ?st) (dec_digits d (n mod 10 ^ d)), index = index ?st + d,
              str = splice (str ?st) (cur ?st) (dec_digits d (n mod 10 ^ d)), cur = cur ?st + d\<rparr>)"
    by (rule Suc.IH) (use Suc.prems in simp_all)
  then obtain n' where "path_digits (10 ^ d) (n mod 10 ^ d) ?st =
     ok (n', \<lparr>url = splice (url st) (index st) (dec_digits (Suc d) n), index = index st + Suc d,
              str = splice (str st) (cur st) (dec_digits (Suc d) n), cur = cur st + Suc d\<rparr>)"
    using Suc.prems by (auto simp: splice_step)
  moreover have "(n div 10 ^ d + 48) mod 256 = n div 10 ^ d + 48"
    using digit_range [OF Suc.prems(3,4)] by simp
  moreover have "(10 :: int) ^ Suc d > 1" "(10 :: int) ^ d \<noteq> 0" by (simp_all add: one_less_power del: power_Suc)
  ultimately show ?case
    using Suc.prems(1,2) by (subst path_digits.simps) (simp add: poke_def Let_def)
qed


text \<open>\<open>at st P K z\<close>: the path so far is \<open>P\<close>, the work string \<open>K\<close> with \<open>z\<close> zero bytes behind it.\<close>

definition at :: "path_state \<Rightarrow> string \<Rightarrow> string \<Rightarrow> nat \<Rightarrow> bool" where
  "at st P K z \<longleftrightarrow> length (url st) = 45 \<and> index st = length P \<and> take (length P) (url st) = P \<and>
     str st = K @ replicate z (CHR 0x00) \<and> cur st = length K"

lemma takeWhile_no_NUL: "CHR 0x00 \<notin> set K \<Longrightarrow> takeWhile (\<lambda>c. c \<noteq> CHR 0x00) (K @ CHR 0x00 # r) = K"
  by (induction K) auto

lemma hash_of_string:
  assumes "length (md5_buffer md5) = 64" and "CHR 0x00 \<notin> set K" and "length K < 2 ^ 32" and "0 < slot"
  shows "hash_of md5 (K @ CHR 0x00 # r) slot = ok (digest_sum K mod slot)"
  using myhash_eq [OF assms(1,3,4)] takeWhile_no_NUL [OF assms(2)] by (simp add: hash_of_def c_string_def)

lemma hash_of_unended: "CHR 0x00 \<notin> set K \<Longrightarrow> hash_of md5 K slot = Some (Inl Undefined)"
  by (simp add: hash_of_def c_string_def)

lemma path_digits_turn:
  assumes st: "at st P K z" and d: "length P + d \<le> 45" "d \<le> z" and n: "0 \<le> n" "n < 10 ^ d"
  shows "\<exists>n' st'. path_digits (10 ^ d) n st = ok (n', st') \<and> at st' (P @ dec_digits d n) (K @ dec_digits d n) (z - d)"
proof -
  let ?D = "dec_digits d n"
  let ?st = "\<lparr>url = splice (url st) (index st) ?D, index = index st + d, str = splice (str st) (cur st) ?D, cur = cur st + d\<rparr>"
  obtain n' where "path_digits (10 ^ d) n st = ok (n', ?st)"
    using path_digits_ok [OF _ _ n, of st] st d by (auto simp: at_def)
  moreover have "replicate (z - d) (CHR 0x00) = drop d (replicate z (CHR 0x00))" by simp
  then have "at ?st (P @ ?D) (K @ ?D) (z - d)"
    using st d by (auto simp: at_def splice_def)
  ultimately show ?thesis by blast
qed

text \<open>The level a key leads to: its hash as \<open>d\<close> decimal digits.\<close>

definition level :: "nat \<Rightarrow> string \<Rightarrow> string" where
  "level d K = dec_digits d (digest_sum K mod 10 ^ d)"

lemma level_no_NUL: "CHR 0x00 \<notin> set (level d K)"
  unfolding level_def by (intro dec_digits_no_NUL) simp_all

lemma length_level [simp]: "length (level d K) = d"
  by (simp add: level_def)

lemma level_turn:
  assumes "at st P K z" and "length P + d \<le> 45" and "d \<le> z"
  shows "\<exists>n' st'. path_digits (10 ^ d) (digest_sum K mod 10 ^ d) st = ok (n', st') \<and> at st' (P @ level d K) (K @ level d K) (z - d)"
  unfolding level_def by (rule path_digits_turn [OF assms]) simp_all

lemma at_put:
  assumes "at st P K z" and "length P < 45" and "u = (url st)[index st := c]"
  shows "poke (url st) (index st) c = ok u" "at (st\<lparr>url := u, index := Suc (index st)\<rparr>) (P @ [c]) K z"
  using assms by (auto simp: at_def poke_def take_Suc_conv_app_nth)

lemma read_turn_ok:
  assumes st: "at st P K z" and P: "length P + d < 45" and z: "d < z" and K: "CHR 0x00 \<notin> set K" "length K + d < 2 ^ 32"
    and md5: "length (md5_buffer md5) = 64"
  shows "\<exists>st'. read_turn md5 (10 ^ d) (digest_sum K mod 10 ^ d, st) = ok (digest_sum (K @ level d K) mod 10 ^ d, st') \<and>
    at st' (P @ level d K @ ''/'') (K @ level d K) (z - d)"
proof -
  obtain n' st1 where 1: "path_digits (10 ^ d) (digest_sum K mod 10 ^ d) st = ok (n', st1)" "at st1 (P @ level d K) (K @ level d K) (z - d)"
    using level_turn [OF st, of d] P z by auto
  have "length (P @ level d K) < 45" using P by simp
  note put = at_put [OF 1(2) this refl, of "CHR ''/''"]
  have "str st1 = (K @ level d K) @ CHR 0x00 # replicate (z - d - 1) (CHR 0x00)"
    using 1(2) z by (cases "z - d") (auto simp: at_def)
  then have "hash_of md5 (str st1) (10 ^ d) = ok (digest_sum (K @ level d K) mod 10 ^ d)"
    using hash_of_string [OF md5, of "K @ level d K" "10 ^ d"] K level_no_NUL by simp
  then show ?thesis using 1(1) put by (simp add: read_turn_def)
qed

lemma write_turn_ok:
  assumes st: "at st P K z" and P: "length P + d + 1 < 45" "CHR 0x00 \<notin> set P" and z: "d < z"
    and K: "CHR 0x00 \<notin> set K" "length K + d < 2 ^ 32" and md5: "length (md5_buffer md5) = 64"
  shows "\<exists>st'. write_turn md5 is_dir (10 ^ d) (digest_sum K mod 10 ^ d, st, made) =
      ok (digest_sum (K @ level d K) mod 10 ^ d, st',
          if is_dir (P @ level d K @ ''/'') then made else made @ [P @ level d K @ ''/'']) \<and>
    at st' (P @ level d K @ ''/'') (K @ level d K) (z - d)"
proof -
  let ?P = "P @ level d K @ ''/''"
  obtain n' st1 where 1: "path_digits (10 ^ d) (digest_sum K mod 10 ^ d) st = ok (n', st1)" "at st1 (P @ level d K) (K @ level d K) (z - d)"
    using level_turn [OF st, of d] P z by auto
  have "length (P @ level d K) < 45" using P by simp
  note put = at_put [OF 1(2) this refl, of "CHR ''/''"]
  define st2 where "st2 = st1\<lparr>url := (url st1)[index st1 := CHR ''/''], index := Suc (index st1)\<rparr>"
  have 2: "at st2 ?P (K @ level d K) (z - d)" using put(2) by (simp add: st2_def)
  define u where "u = (url st2)[length ?P := CHR 0x00]"
  have l: "length ?P < length (url st2)" using 2 P by (simp add: at_def)
  have u: "poke (url st2) (index st2) (CHR 0x00) = ok u" using 2 l by (simp add: poke_def u_def at_def)
  have "u = take (length ?P) (url st2) @ CHR 0x00 # drop (Suc (length ?P)) (url st2)"
    unfolding u_def by (rule upd_conv_take_nth_drop [OF l])
  also have "take (length ?P) (url st2) = ?P" using 2 unfolding at_def by blast
  finally have "takeWhile (\<lambda>c. c \<noteq> CHR 0x00) u = ?P" using takeWhile_no_NUL [of ?P] P(2) level_no_NUL by force
  moreover have 3: "at (st2\<lparr>url := u\<rparr>) ?P (K @ level d K) (z - d)" using 2 by (simp add: at_def u_def)
  moreover have "str st1 = (K @ level d K) @ CHR 0x00 # replicate (z - d - 1) (CHR 0x00)"
    using 1(2) z by (cases "z - d") (auto simp: at_def)
  then have "hash_of md5 (str st1) (10 ^ d) = ok (digest_sum (K @ level d K) mod 10 ^ d)"
    using hash_of_string [OF md5, of "K @ level d K" "10 ^ d"] K level_no_NUL by simp
  moreover have "st1\<lparr>url := u, index := Suc (index st1)\<rparr> = st2\<lparr>url := u\<rparr>" "index st2 = Suc (index st1)"
    "url st2 = (url st1)[index st1 := CHR ''/'']" by (simp_all add: st2_def)
  ultimately show ?thesis using 1(1) put(1) u by (simp add: write_turn_def Let_def)
qed


lemma at_start:
  assumes "length u = 45" and "length P \<le> 45" and "n = length P"
  shows "at \<lparr>url = strncpy u P n, index = n, str = K @ replicate 9 (CHR 0x00), cur = length K\<rparr> P K 9"
  using assms by (simp add: at_def strncpy_def)

lemma at_end:
  assumes st: "at st P K z" and P: "length P < 45" "CHR 0x00 \<notin> set P"
  shows "\<exists>u. poke (url st) (index st) (CHR 0x00) = ok u \<and> takeWhile (\<lambda>c. c \<noteq> CHR 0x00) u = P \<and> length u = 45"
proof -
  let ?u = "(url st)[length P := CHR 0x00]"
  have l: "length P < length (url st)" using st P by (simp add: at_def)
  have "?u = take (length P) (url st) @ CHR 0x00 # drop (Suc (length P)) (url st)"
    by (rule upd_conv_take_nth_drop [OF l])
  also have "take (length P) (url st) = P" using st by (simp add: at_def)
  finally have "takeWhile (\<lambda>c. c \<noteq> CHR 0x00) ?u = P" using takeWhile_no_NUL [OF P(2)] by simp
  then show ?thesis using st l by (auto simp: at_def poke_def)
qed

definition three_levels :: "nat \<Rightarrow> string \<Rightarrow> string" where
  "three_levels d K =
     (let a = level d K; b = level d (K @ a); c = level d (K @ a @ b) in a @ ''/'' @ b @ ''/'' @ c @ ''/'')"

lemma three_levels_no_NUL: "CHR 0x00 \<notin> set (three_levels d K)"
  using level_no_NUL by (simp add: three_levels_def Let_def)

lemma hash_of_key:
  assumes "length (md5_buffer md5) = 64" and "CHR 0x00 \<notin> set K" and "length K < 2 ^ 32" and "0 < slot"
  shows "hash_of md5 (K @ [CHR 0x00]) slot = ok (digest_sum K mod slot)"
  using hash_of_string [OF assms, of "[]"] by simp

lemma read_path_ok:
  assumes d: "d \<le> 2" and K: "CHR 0x00 \<notin> set K" "length K < 2 ^ 31" and u: "length u = 45" and md5: "length (md5_buffer md5) = 64"
  shows "\<exists>u'. readGetPath True md5 K (10 ^ d) u = ok (''/files/'' @ three_levels d K, u') \<and> length u' = 45"
proof -
  note N = level_no_NUL
  have dd: "d < 9 - d" "d < 9 - 2 * d" "9 - d - d = 9 - 2 * d" "9 - 2 * d - d = 9 - 3 * d" using d by arith+
  define a b c where abc: "a = level d K" "b = level d (K @ a)" "c = level d (K @ a @ b)"
  define st where "st = \<lparr>url = strncpy u ''/files/'' 7, index = 7, str = K @ replicate 9 (CHR 0x00), cur = length K\<rparr>"
  have st: "at st ''/files/'' K 9" unfolding st_def by (rule at_start [OF u]) simp_all
  obtain st1 where 1: "read_turn md5 (10 ^ d) (digest_sum K mod 10 ^ d, st) = ok (digest_sum (K @ a) mod 10 ^ d, st1)"
      "at st1 (''/files/'' @ a @ ''/'') (K @ a) (9 - d)"
    using read_turn_ok [OF st, of d md5] d K md5 by (auto simp: abc)
  obtain st2 where 2: "read_turn md5 (10 ^ d) (digest_sum (K @ a) mod 10 ^ d, st1) = ok (digest_sum (K @ a @ b) mod 10 ^ d, st2)"
      "at st2 (''/files/'' @ a @ ''/'' @ b @ ''/'') (K @ a @ b) (9 - 2 * d)"
    using read_turn_ok [OF 1(2), of d md5] d dd K md5 N by (auto simp: abc)
  obtain st3 where 3: "read_turn md5 (10 ^ d) (digest_sum (K @ a @ b) mod 10 ^ d, st2) = ok (digest_sum (K @ a @ b @ c) mod 10 ^ d, st3)"
      "at st3 (''/files/'' @ three_levels d K) (K @ a @ b @ c) (9 - 3 * d)"
    using read_turn_ok [OF 2(2), of d md5] d dd K md5 N by (auto simp: abc three_levels_def Let_def)
  have l: "length (''/files/'' @ three_levels d K) < 45" using d by (simp add: three_levels_def Let_def)
  obtain u' where 4: "poke (url st3) (index st3) (CHR 0x00) = ok u'" "length u' = 45"
      "takeWhile (\<lambda>c. c \<noteq> CHR 0x00) u' = ''/files/'' @ three_levels d K"
    using at_end [OF 3(2) l] three_levels_no_NUL by auto
  have "length K < 2 ^ 32" using K(2) by simp
  then have "hash_of md5 (K @ [CHR 0x00]) (10 ^ d) = ok (digest_sum K mod 10 ^ d)"
    using hash_of_key [OF md5 K(1)] by simp
  then show ?thesis using 1(1) 2(1) 3(1) 4 by (simp add: readGetPath_def Let_def flip: st_def)
qed

lemma write_path_ok:
  assumes d: "d \<le> 1" and K: "CHR 0x00 \<notin> set K" "length K < 2 ^ 31" and u: "length u = 45" and md5: "length (md5_buffer md5) = 64"
  shows "\<exists>u' made. writeGetPath True md5 is_dir K (10 ^ d) u = ok (''/usr/local/openresty/nginx/html/files/'' @ three_levels d K, u', made) \<and> length u' = 45 \<and>
    made = filter (\<lambda>p. \<not> is_dir p)
      [''/usr/local/openresty/nginx/html/files/'' @ level d K @ ''/'',
       ''/usr/local/openresty/nginx/html/files/'' @ level d K @ ''/'' @ level d (K @ level d K) @ ''/'',
       ''/usr/local/openresty/nginx/html/files/'' @ three_levels d K]"
proof -
  note N = level_no_NUL
  have dd: "d < 9 - d" "d < 9 - 2 * d" "9 - d - d = 9 - 2 * d" "9 - 2 * d - d = 9 - 3 * d" using d by arith+
  define P where "P = ''/usr/local/openresty/nginx/html/files/''"
  have P: "length P = 38" "CHR 0x00 \<notin> set P" by (simp_all add: P_def)
  define a b c where abc: "a = level d K" "b = level d (K @ a)" "c = level d (K @ a @ b)"
  define st where "st = \<lparr>url = strncpy u P 38, index = 38, str = K @ replicate 9 (CHR 0x00), cur = length K\<rparr>"
  have st: "at st P K 9" unfolding st_def by (rule at_start [OF u]) (simp_all add: P)
  obtain st1 m1 where 1: "write_turn md5 is_dir (10 ^ d) (digest_sum K mod 10 ^ d, st, []) = ok (digest_sum (K @ a) mod 10 ^ d, st1, m1)"
      "at st1 (P @ a @ ''/'') (K @ a) (9 - d)" "m1 = filter (\<lambda>p. \<not> is_dir p) [P @ a @ ''/'']"
    using write_turn_ok [OF st, of d md5 is_dir "[]"] d K md5 P by (auto simp: abc)
  obtain st2 m2 where 2: "write_turn md5 is_dir (10 ^ d) (digest_sum (K @ a) mod 10 ^ d, st1, m1) = ok (digest_sum (K @ a @ b) mod 10 ^ d, st2, m2)"
      "at st2 (P @ a @ ''/'' @ b @ ''/'') (K @ a @ b) (9 - 2 * d)" "m2 = m1 @ filter (\<lambda>p. \<not> is_dir p) [P @ a @ ''/'' @ b @ ''/'']"
    using write_turn_ok [OF 1(2), of d md5 is_dir m1] d dd K md5 N P by (auto simp: abc)
  obtain st3 m3 where 3: "write_turn md5 is_dir (10 ^ d) (digest_sum (K @ a @ b) mod 10 ^ d, st2, m2) = ok (digest_sum (K @ a @ b @ c) mod 10 ^ d, st3, m3)"
      "at st3 (P @ three_levels d K) (K @ a @ b @ c) (9 - 3 * d)" "m3 = m2 @ filter (\<lambda>p. \<not> is_dir p) [P @ three_levels d K]"
    using write_turn_ok [OF 2(2), of d md5 is_dir m2] d dd K md5 N P by (auto simp: abc three_levels_def Let_def)
  have l: "length (P @ three_levels d K) < 45" using d by (simp add: three_levels_def Let_def P)
  obtain u' where 4: "poke (url st3) (index st3) (CHR 0x00) = ok u'" "length u' = 45"
      "takeWhile (\<lambda>c. c \<noteq> CHR 0x00) u' = P @ three_levels d K"
    using at_end [OF 3(2) l] three_levels_no_NUL P(2) by auto
  have "length K < 2 ^ 32" using K(2) by simp
  then have "hash_of md5 (K @ [CHR 0x00]) (10 ^ d) = ok (digest_sum K mod 10 ^ d)"
    using hash_of_key [OF md5 K(1)] by simp
  then show ?thesis using 1(1) 2(1) 3(1) 4 1(3) 2(3) 3(3) unfolding P_def [symmetric]
    by (simp add: writeGetPath_def Let_def abc flip: st_def P_def)
qed


subsection \<open>Properties of the paths\<close>

text \<open>The directories of the three levels, from the outermost in, below the document root.\<close>

definition level_dirs :: "nat \<Rightarrow> string \<Rightarrow> string list" where
  "level_dirs d ks =
     [''/files/'' @ level d ks @ ''/'',
      ''/files/'' @ level d ks @ ''/'' @ level d (ks @ level d ks) @ ''/'',
      ''/files/'' @ three_levels d ks]"

text \<open>
  C10. What is written is found again: for the slots 1 and 10, when the allocation succeeds, both
  functions are defined for every key, and the path files are written to is the document root
  followed by the path nginx reads them from.  The directories made are exactly those of the three
  levels that \<open>opendir\<close> does not find, from the outermost in.
\<close>

theorem written_path_is_read_path:
  assumes "d \<le> 1" and "CHR 0x00 \<notin> set K" and "length K < 2 ^ 31" and "length u = 45" and "length (md5_buffer md5) = 64"
  shows "\<exists>path u' u'' made. readGetPath True md5 K (10 ^ d) u = ok (path, u') \<and>
    writeGetPath True md5 is_dir K (10 ^ d) u = ok (''/usr/local/openresty/nginx/html'' @ path, u'', made) \<and>
    path = ''/files/'' @ three_levels d K \<and>
    made = filter (\<lambda>p. \<not> is_dir p) (map (\<lambda>p. ''/usr/local/openresty/nginx/html'' @ p) (level_dirs d K))"
proof -
  have "d \<le> 2" using assms(1) by simp
  then obtain u' where r: "readGetPath True md5 K (10 ^ d) u = ok (''/files/'' @ three_levels d K, u')"
    using read_path_ok [OF _ assms(2-5)] by blast
  obtain u'' made where "writeGetPath True md5 is_dir K (10 ^ d) u =
      ok (''/usr/local/openresty/nginx/html/files/'' @ three_levels d K, u'', made)"
    "made = filter (\<lambda>p. \<not> is_dir p)
      [''/usr/local/openresty/nginx/html/files/'' @ level d K @ ''/'',
       ''/usr/local/openresty/nginx/html/files/'' @ level d K @ ''/'' @ level d (K @ level d K) @ ''/'',
       ''/usr/local/openresty/nginx/html/files/'' @ three_levels d K]"
    using write_path_ok [OF assms, of is_dir] by blast
  then show ?thesis using r by (simp add: level_dirs_def)
qed

text \<open>A context as the process may have it.\<close>

definition any_ctx :: MD5_CTX where
  "any_ctx = \<lparr>count0 = 7, count1 = 9, md5_state = (1, 2, 3, 4), md5_buffer = replicate 64 5\<rparr>"

theorem written_path_is_read_path_witness:
  "\<exists>path u' u''. readGetPath True any_ctx ''user:1'' 10 (replicate 45 (CHR ''x'')) = ok (path, u') \<and>
     writeGetPath True any_ctx (\<lambda>p. False) ''user:1'' 10 (replicate 45 (CHR ''x'')) =
       ok (''/usr/local/openresty/nginx/html'' @ path, u'',
         map (\<lambda>p. ''/usr/local/openresty/nginx/html'' @ p) (level_dirs 1 ''user:1''))"
  using written_path_is_read_path [of 1 "''user:1''" "replicate 45 (CHR ''x'')" any_ctx "\<lambda>p. False"]
  by (fastforce simp: any_ctx_def)

text \<open>
  C11. The 1000 slots nginx uses do not fit: for every key \<open>writeGetPath\<close> writes behind the end
  of \<open>url\<close>, and \<open>readGetPath\<close> hashes the work string, which nine digits fill, without its end.
\<close>

theorem thousand_slots_overflow:
  assumes "CHR 0x00 \<notin> set K" and "length K < 2 ^ 31" and "length u = 45" and "length (md5_buffer md5) = 64"
  shows "writeGetPath True md5 is_dir K 1000 u = Some (Inl Undefined) \<and> readGetPath True md5 K 1000 u = Some (Inl Undefined)"
proof -
  have "length K < 2 ^ 32" using assms(2) by simp
  then have h: "hash_of md5 (K @ [CHR 0x00]) 1000 = ok (digest_sum K mod 10 ^ 3)"
    using hash_of_key [OF assms(4,1), of 1000] by simp
  define a b where ab: "a = level 3 K" "b = level 3 (K @ a)"
  define P where "P = ''/usr/local/openresty/nginx/html/files/''"
  have P: "length P = 38" "CHR 0x00 \<notin> set P" by (simp_all add: P_def)
  define st where "st = \<lparr>url = strncpy u P 38, index = 38, str = K @ replicate 9 (CHR 0x00), cur = length K\<rparr>"
  have st: "at st P K 9" unfolding st_def by (rule at_start [OF assms(3)]) (simp_all add: P)
  obtain st1 m1 where 1: "write_turn md5 is_dir 1000 (digest_sum K mod 10 ^ 3, st, []) = ok (digest_sum (K @ a) mod 10 ^ 3, st1, m1)"
      "at st1 (P @ a @ ''/'') (K @ a) 6"
    using write_turn_ok [OF st, of 3 md5 is_dir "[]"] assms P by (auto simp: ab)
  obtain n2 st2 where 2: "path_digits (10 ^ 3) (digest_sum (K @ a) mod 10 ^ 3) st1 = ok (n2, st2)" "at st2 ((P @ a @ ''/'') @ b) ((K @ a) @ b) 3"
    using level_turn [OF 1(2), of 3] P by (auto simp: ab)
  have "poke (url st2) (index st2) (CHR ''/'') = Some (Inl Undefined)"
    using 2(2) P by (simp add: at_def poke_def ab)
  then have "write_turn md5 is_dir 1000 (digest_sum (K @ a) mod 10 ^ 3, st1, m1) = Some (Inl Undefined)"
    using 2(1) by (simp add: write_turn_def)
  then have w: "writeGetPath True md5 is_dir K 1000 u = Some (Inl Undefined)"
    using h 1(1) by (simp add: writeGetPath_def Let_def flip: st_def P_def)
  define rt where "rt = \<lparr>url = strncpy u ''/files/'' 7, index = 7, str = K @ replicate 9 (CHR 0x00), cur = length K\<rparr>"
  have rt: "at rt ''/files/'' K 9" unfolding rt_def by (rule at_start [OF assms(3)]) simp_all
  obtain r1 where r1: "read_turn md5 1000 (digest_sum K mod 10 ^ 3, rt) = ok (digest_sum (K @ a) mod 10 ^ 3, r1)"
      "at r1 (''/files/'' @ a @ ''/'') (K @ a) 6"
    using read_turn_ok [OF rt, of 3 md5] assms by (auto simp: ab)
  obtain r2 where r2: "read_turn md5 1000 (digest_sum (K @ a) mod 10 ^ 3, r1) = ok (digest_sum (K @ a @ b) mod 10 ^ 3, r2)"
      "at r2 (''/files/'' @ a @ ''/'' @ b @ ''/'') (K @ a @ b) 3"
    using read_turn_ok [OF r1(2), of 3 md5] assms level_no_NUL by (auto simp: ab)
  let ?c = "level 3 (K @ a @ b)"
  obtain n3 r3 where r3: "path_digits (10 ^ 3) (digest_sum (K @ a @ b) mod 10 ^ 3) r2 = ok (n3, r3)"
      "at r3 ((''/files/'' @ a @ ''/'' @ b @ ''/'') @ ?c) ((K @ a @ b) @ ?c) 0"
    using level_turn [OF r2(2), of 3] by (auto simp: ab)
  have "hash_of md5 (str r3) 1000 = Some (Inl Undefined)"
    using r3(2) hash_of_unended [of "K @ a @ b @ ?c" md5 1000] assms(1) level_no_NUL by (simp add: at_def ab)
  moreover have "\<exists>u'. poke (url r3) (index r3) (CHR ''/'') = ok u'" using r3(2) by (simp add: at_def poke_def ab)
  ultimately have "read_turn md5 1000 (digest_sum (K @ a @ b) mod 10 ^ 3, r2) = Some (Inl Undefined)"
    using r3(1) by (auto simp: read_turn_def)
  then have "readGetPath True md5 K 1000 u = Some (Inl Undefined)"
    using h r1(1) r2(1) by (simp add: readGetPath_def Let_def flip: rt_def)
  then show ?thesis using w by blast
qed

theorem thousand_slots_overflow_witness:
  "writeGetPath True any_ctx (\<lambda>p. p = ''/'') ''user:1'' 1000 (replicate 45 (CHR ''x'')) = Some (Inl Undefined)"
  using thousand_slots_overflow [of "''user:1''" "replicate 45 (CHR ''x'')" any_ctx] by (simp add: any_ctx_def)


subsection \<open>The host of a key\<close>

text \<open>The global server records: allocated, and their last byte never written.\<close>

definition route_memory :: "memory \<Rightarrow> bool" where
  "route_memory m \<longleftrightarrow> finite (dom (vnode_mem m)) \<and>
     (\<forall>j < 2. \<exists>n. node_mem m (route_nodes j) = Some n \<and> length (iden n) = 64 \<and> iden n ! 63 = CHR 0x00)"

lemma strncpy_ends:
  assumes "length dst = 64" and "dst ! 63 = CHR 0x00" and "length src < 63" and "CHR 0x00 \<notin> set src"
  shows "CHR 0x00 \<in> set (strncpy dst src 63)" "takeWhile (\<lambda>c. c \<noteq> CHR 0x00) (strncpy dst src 63) = src"
proof -
  define r where "r = replicate (62 - length src) (CHR 0x00) @ drop 63 dst"
  have "take 63 (src @ replicate 63 (CHR 0x00)) = src @ replicate (63 - length src) (CHR 0x00)"
    using assms(3) by simp
  also have "replicate (63 - length src) (CHR 0x00) = CHR 0x00 # replicate (62 - length src) (CHR 0x00)"
    using assms(3) by (simp flip: replicate_Suc add: Suc_diff_le)
  finally have "strncpy dst src 63 = src @ CHR 0x00 # r" by (simp add: strncpy_def r_def)
  then show "CHR 0x00 \<in> set (strncpy dst src 63)" "takeWhile (\<lambda>c. c \<noteq> CHR 0x00) (strncpy dst src 63) = src"
    using takeWhile_no_NUL [OF assms(4)] by simp_all
qed

lemma ring_owner_in: "os \<noteq> [] \<Longrightarrow> ring_owner h os \<in> snd ` set os"
proof (cases "List.find (\<lambda>e. h \<le> fst e) os")
  case (Some e)
  then have "e \<in> set os" by (auto simp: find_Some_iff)
  then show "os \<noteq> [] \<Longrightarrow> ring_owner h os \<in> snd ` set os" using Some by (simp add: ring_owner_def)
qed (simp add: ring_owner_def)

lemma added_from_empty: "added n H [] os \<Longrightarrow> snd ` set os \<subseteq> {n} \<and> fst ` set os \<subseteq> H"
  by (auto simp: added_def)

lemma added_parts:
  assumes "added n H os os'"
  shows "snd ` set os' \<subseteq> insert n (snd ` set os)" "fst ` set os' \<subseteq> H \<union> fst ` set os"
proof -
  have "e \<in> set os \<or> snd e = n \<and> fst e \<in> H" if e: "e \<in> set os'" for e
  proof (cases "fst e \<in> fst ` set os")
    case True
    have eq: "os = filter (\<lambda>e. fst e \<in> fst ` set os) os'" using assms by (simp add: added_def)
    have "set os = set (filter (\<lambda>e. fst e \<in> fst ` set os) os')" by (rule arg_cong [OF eq])
    then have "{e \<in> set os'. fst e \<in> fst ` set os} \<subseteq> set os" unfolding set_filter by (rule equalityD2)
    then show ?thesis using True e by blast
  next
    case False
    then show ?thesis using assms e unfolding added_def by blast
  qed
  then show "snd ` set os' \<subseteq> insert n (snd ` set os)" "fst ` set os' \<subseteq> H \<union> fst ` set os" by blast+
qed

lemma card_hashes: "node_mem m n = Some k \<Longrightarrow> replicas k = 1 \<Longrightarrow> \<exists>h. hashes_of n (c, m) = {h}"
proof -
  have "{..<Suc 0} = {0}" by auto
  then show "node_mem m n = Some k \<Longrightarrow> replicas k = 1 \<Longrightarrow> \<exists>h. hashes_of n (c, m) = {h}"
    by (simp add: hashes_of_def)
qed


lemma route_ring:
  assumes al: "malloc_fresh al" and m: "route_memory m"
  shows "\<exists>c m' os. init_route al st True m = ok (1, Some c, m') \<and> ring (c, m') os \<and> length os \<le> 2 \<and>
    snd ` set os \<subseteq> {route_nodes 0, route_nodes 1} \<and> (malloc_succeeds al \<longrightarrow> os \<noteq> []) \<and>
    (\<exists>n. node_mem m' (route_nodes 0) = Some n \<and> c_string (iden n) = ok ''10.50.8.73'') \<and>
    (\<exists>n. node_mem m' (route_nodes 1) = Some n \<and> c_string (iden n) = ok ''10.50.8.74'')"
proof -
  have m': "\<exists>n. node_mem m (route_nodes j) = Some n \<and> length (iden n) = 64 \<and> iden n ! 63 = CHR 0x00" if "j < 2" for j
    using m that by (simp add: route_memory_def)
  obtain n0 n1 where n: "node_mem m (route_nodes 0) = Some n0" "length (iden n0) = 64" "iden n0 ! 63 = CHR 0x00"
    "node_mem m (route_nodes 1) = Some n1" "length (iden n1) = 64" "iden n1 ! 63 = CHR 0x00"
    using m' [of 0] m' [of 1] by auto
  have ne: "route_nodes 0 \<noteq> route_nodes 1" "route_nodes 0 \<noteq> NULL" "route_nodes 1 \<noteq> NULL"
    by (simp_all add: route_nodes_def NULL_def)
  define k0 where "k0 = \<lparr>iden = strncpy (iden n0) ''10.50.8.73'' 63, replicas = 1, flag = NODE_FLAG_INIT\<rparr>"
  define k1 where "k1 = \<lparr>iden = strncpy (iden n1) ''10.50.8.74'' 63, replicas = 1, flag = NODE_FLAG_INIT\<rparr>"
  define m2 where "m2 = m\<lparr>node_mem := (node_mem m)(route_nodes 0 \<mapsto> k0, route_nodes 1 \<mapsto> k1)\<rparr>"
  have set_up: "conhash_set_node (route_nodes 0) ''10.50.8.73'' 1 m = ok (m\<lparr>node_mem := (node_mem m)(route_nodes 0 \<mapsto> k0)\<rparr>)"
    "conhash_set_node (route_nodes 1) ''10.50.8.74'' 1 (m\<lparr>node_mem := (node_mem m)(route_nodes 0 \<mapsto> k0)\<rparr>) = ok m2"
    using n ne by (simp_all add: conhash_set_node_def k0_def k1_def m2_def)
  note ends = strncpy_ends [OF n(2,3), of "''10.50.8.73''"] strncpy_ends [OF n(5,6), of "''10.50.8.74''"]
  have "finite (dom (vnode_mem m2))" using m by (simp add: m2_def route_memory_def)
  then obtain c where c: "conhash_init st None True = ok (Some c)" "ring_ready (c, m2) []"
    using init_ok [of m2 st None] by blast
  have flags: "NODE_FLAG_INIT AND NODE_FLAG_INIT \<noteq> 0" "NODE_FLAG_INIT AND NODE_FLAG_IN = 0"
    by (simp_all add: NODE_FLAG_INIT_def NODE_FLAG_IN_def)
  have "server False (route_nodes 0) (c, m2)" using ne ends flags by (simp add: server_def m2_def k0_def)
  from add_node_full [OF al c(2) this] obtain c1 m1 os1 where 1:
    "conhash_add_node al (route_nodes 0) (Some c) m2 = ok (0, Some c1, m1)" "ring_ready (c1, m1) os1"
    "added (route_nodes 0) (hashes_of (route_nodes 0) (c, m2)) [] os1"
    "malloc_succeeds al \<longrightarrow> hashes_of (route_nodes 0) (c, m2) \<subseteq> fst ` set os1"
    "node_mem m1 = (node_mem m2)(route_nodes 0 := map_option (\<lambda>n. n\<lparr>flag := flag n OR NODE_FLAG_IN\<rparr>) (node_mem m2 (route_nodes 0)))"
    by blast
  have nm1: "node_mem m1 (route_nodes 0) = Some (k0\<lparr>flag := flag k0 OR NODE_FLAG_IN\<rparr>)" "node_mem m1 (route_nodes 1) = Some k1"
    using ne 1(5) by (simp_all add: m2_def)
  have "server False (route_nodes 1) (c1, m1)" using ne ends flags nm1 by (simp add: server_def k1_def)
  from add_node_full [OF al 1(2) this] obtain c2 m3 os2 where 2:
    "conhash_add_node al (route_nodes 1) (Some c1) m1 = ok (0, Some c2, m3)" "ring_ready (c2, m3) os2"
    "added (route_nodes 1) (hashes_of (route_nodes 1) (c1, m1)) os1 os2"
    "node_mem m3 = (node_mem m1)(route_nodes 1 := map_option (\<lambda>n. n\<lparr>flag := flag n OR NODE_FLAG_IN\<rparr>) (node_mem m1 (route_nodes 1)))"
    by blast
  have "init_route al st True m = ok (1, Some c2, m3)"
    using c(1) set_up 1(1) 2(1) by (simp add: init_route_def ROUTE_SLOT_def upt_rec numeral_2_eq_2)
  moreover obtain h0 where h0: "hashes_of (route_nodes 0) (c, m2) = {h0}"
    using card_hashes [of m2 "route_nodes 0" k0 c] ne by (auto simp: m2_def k0_def)
  moreover obtain h1 where h1: "hashes_of (route_nodes 1) (c1, m1) = {h1}"
    using card_hashes [OF nm1(2), of c1] by (auto simp: k1_def)
  note h = h0 h1
  have os1: "snd ` set os1 \<subseteq> {route_nodes 0}" "fst ` set os1 \<subseteq> {h0}" using added_from_empty [OF 1(3)] h by simp_all
  have os2: "snd ` set os2 \<subseteq> {route_nodes 0, route_nodes 1}" "fst ` set os2 \<subseteq> {h0, h1}"
    using added_parts [OF 2(3)] os1 h(2) by blast+
  have "card (fst ` set os2) \<le> card {h0, h1}" by (rule card_mono) (use os2(2) in simp_all)
  then have "length os2 \<le> 2"
    using distinct_card [OF ring_distinct [OF ring_of_ready [OF 2(2)]]] by (simp add: card_insert_if split: if_splits)
  moreover have "os2 \<noteq> []" if "malloc_succeeds al"
    using 1(4) that h added_subset [OF 2(3)] by auto
  moreover have "c_string (iden k0) = ok ''10.50.8.73''" "c_string (iden k1) = ok ''10.50.8.74''"
    using ends by (simp_all add: c_string_def k0_def k1_def)
  then have "\<exists>n. node_mem m3 (route_nodes 0) = Some n \<and> c_string (iden n) = ok ''10.50.8.73''"
    "\<exists>n. node_mem m3 (route_nodes 1) = Some n \<and> c_string (iden n) = ok ''10.50.8.74''"
    using nm1 2(4) ne by simp_all
  ultimately show ?thesis using os2(1) ring_of_ready [OF 2(2)]
    by (intro exI [of _ c2] exI [of _ m3] exI [of _ os2]) simp
qed

text \<open>
  Every key gets a host: \<open>getHost\<close> always ends and answers one of the two servers or, when
  memory runs out, \<open>error\<close>; also when the ring could not be allocated, although the caller takes
  the result -1 for a success.
\<close>

theorem getHost_answers:
  assumes al: "malloc_fresh al" and m: "route_memory m"
  shows "\<exists>host m'. getHost al st allocated ks m = ok (host, m') \<and>
    host \<in> {''10.50.8.73'', ''10.50.8.74'', ''error''} \<and> (allocated \<and> malloc_succeeds al \<longrightarrow> host \<noteq> ''error'')"
proof (cases allocated)
  case False
  then show ?thesis by (simp add: getHost_def init_route_def conhash_init_def conhash_lookup_def conhash_fini_def)
next
  case True
  obtain c m1 os where r: "init_route al st True m = ok (1, Some c, m1)" "ring (c, m1) os" "length os \<le> 2"
    "snd ` set os \<subseteq> {route_nodes 0, route_nodes 1}" "malloc_succeeds al \<longrightarrow> os \<noteq> []"
    "\<exists>n. node_mem m1 (route_nodes 0) = Some n \<and> c_string (iden n) = ok ''10.50.8.73''"
    "\<exists>n. node_mem m1 (route_nodes 1) = Some n \<and> c_string (iden n) = ok ''10.50.8.74''"
    using route_ring [OF al m] by blast
  let ?o = "ring_owner (cb_hashfunc c ks) os"
  have look: "conhash_lookup (Some c) (Some ks) m1 = ok ?o" by (rule lookup_owner [OF r(2)]) (use r(3) in simp)
  obtain q t where "ring_rep c m1 q t" using r(2) by (auto simp: ring_def)
  from fini_loop_ok [OF this] obtain m2 where f: "conhash_fini (Some c) m1 = ok m2" "node_mem m2 = node_mem m1"
    by (auto simp: conhash_fini_def)
  have nn: "route_nodes 0 \<noteq> NULL" "route_nodes 1 \<noteq> NULL" by (simp_all add: route_nodes_def NULL_def)
  show ?thesis
  proof (cases "os = []")
    case True
    then show ?thesis using r(1,5) look f \<open>allocated\<close> by (simp add: getHost_def ring_owner_def)
  next
    case False
    then have "?o = route_nodes 0 \<or> ?o = route_nodes 1" using ring_owner_in [OF False] r(4) by blast
    then show ?thesis using r(1,6,7) look f nn \<open>allocated\<close> by (auto simp: getHost_def)
  qed
qed

definition boot_memory :: memory where
  "boot_memory = \<lparr>vnode_mem = Map.empty,
     node_mem = (\<lambda>a. if 1000 \<le> a \<and> a < 1002 then Some \<lparr>iden = replicate 64 (CHR 0x00), replicas = 0, flag = 0\<rparr> else None),
     allocs = 0\<rparr>"

theorem getHost_answers_witness:
  "\<exists>host m'. getHost high_water undefined True ''user:1'' boot_memory = ok (host, m') \<and>
     host \<in> {''10.50.8.73'', ''10.50.8.74''}"
proof -
  have "route_memory boot_memory" by (simp add: route_memory_def boot_memory_def route_nodes_def)
  from getHost_answers [OF high_water_ok(1) this, of undefined True "''user:1''"] show ?thesis
    using high_water_ok(2) by auto
qed

end
