(* ===== verification/Sds.thy ===== *)
theory Sds
  imports Prelude
begin

text \<open>
  The dynamic strings of \<^verbatim>\<open>proxy/sds.c\<close>.  A string is its header with the bytes behind it; the
  bytes are as many as were allocated, a read or write outside them is \<open>Undefined\<close>.  Length and
  free space are 32-bit fields, sizes are computed in 64 bits.  A block comes from \<open>mem\<close>, which
  answers the bytes that happen to be in it, or nothing: \<open>zmalloc\<close> then aborts the process.
\<close>

subsection \<open>Header, blocks and raw writes\<close>

record sdshdr =
  slen :: "32 word"
  sfree :: "32 word"
  sbuf :: string

definition SDS_MAX_PREALLOC :: nat where "SDS_MAX_PREALLOC = 1024 * 1024"
definition SDS_LLSTR_SIZE :: nat where "SDS_LLSTR_SIZE = 21"

abbreviation NULc :: char where "NULc \<equiv> CHR 0x00"

type_synonym blocks = "nat \<Rightarrow> string option"

text \<open>What the allocator promises while memory lasts: a block of the size asked for.\<close>

definition mem_ok :: "blocks \<Rightarrow> bool" where
  "mem_ok mem \<longleftrightarrow> (\<forall>n. \<exists>b. mem n = Some b \<and> length b = n)"

definition size_t :: "nat \<Rightarrow> nat" where
  "size_t n = n mod 2 ^ 64"

text \<open>The bytes behind the header of a block of \<open>sizeof(struct sdshdr) + n + 1\<close> bytes.\<close>

definition hdr_block :: "blocks \<Rightarrow> nat \<Rightarrow> string outcome" where
  "hdr_block mem n = of_opt Exit (map_option (drop 8) (mem (size_t (8 + n + 1))))"

definition blit :: "string \<Rightarrow> nat \<Rightarrow> string \<Rightarrow> string outcome" where
  "blit b i xs = (if i + length xs \<le> length b then Inr (take i b @ xs @ drop (i + length xs) b) else Inl Undefined)"

definition chars_at :: "string \<Rightarrow> nat \<Rightarrow> nat \<Rightarrow> string outcome" where
  "chars_at b i n = (if i + n \<le> length b then Inr (take n (drop i b)) else Inl Undefined)"

text \<open>\<open>strlen\<close> of the bytes behind the header.\<close>

definition strlen_of :: "string \<Rightarrow> nat outcome" where
  "strlen_of b = (if NULc \<in> set b then Inr (length (takeWhile (\<lambda>c. c \<noteq> NULc) b)) else Inl Undefined)"

definition sdslen :: "sdshdr \<Rightarrow> nat" where "sdslen s = unat (slen s)"
definition sdsavail :: "sdshdr \<Rightarrow> nat" where "sdsavail s = unat (sfree s)"

subsection \<open>Creation\<close>

text \<open>\<open>init\<close> is \<open>NULL\<close> or the \<open>initlen\<close> bytes it points to; \<open>NULL\<close> gives zero bytes.\<close>

definition sdsnewlen :: "blocks \<Rightarrow> string option \<Rightarrow> nat \<Rightarrow> sdshdr outcome" where
  "sdsnewlen mem init initlen =
     andThen (case init of Some _ \<Rightarrow> hdr_block mem initlen
              | None \<Rightarrow> map_sum id (\<lambda>b. replicate (length b) NULc) (hdr_block mem initlen)) (\<lambda>b.
     andThen (case init of Some xs \<Rightarrow> if initlen \<noteq> 0 then blit b 0 (take initlen xs) else Inr b | None \<Rightarrow> Inr b) (\<lambda>b.
     andThen (blit b initlen [NULc]) (\<lambda>b.
       Inr \<lparr>slen = of_nat initlen, sfree = 0, sbuf = b\<rparr>)))"

definition sdsempty :: "blocks \<Rightarrow> sdshdr outcome" where
  "sdsempty mem = sdsnewlen mem (Some '''') 0"

text \<open>A C string argument is the list of its characters before the \<open>NUL\<close>.\<close>

definition sdsnew :: "blocks \<Rightarrow> string option \<Rightarrow> sdshdr outcome" where
  "sdsnew mem init = (let initlen = (case init of None \<Rightarrow> 0 | Some xs \<Rightarrow> length xs) in sdsnewlen mem init initlen)"

definition sdsdup :: "blocks \<Rightarrow> sdshdr \<Rightarrow> sdshdr outcome" where
  "sdsdup mem s = andThen (chars_at (sbuf s) 0 (sdslen s)) (\<lambda>xs. sdsnewlen mem (Some xs) (sdslen s))"

subsection \<open>Length and space\<close>

definition sdsupdatelen :: "sdshdr \<Rightarrow> sdshdr outcome" where
  "sdsupdatelen s =
     andThen (strlen_of (sbuf s)) (\<lambda>reallen.
       Inr (s\<lparr>sfree := sfree s + (slen s - of_nat reallen), slen := of_nat reallen\<rparr>))"

definition sdsclear :: "sdshdr \<Rightarrow> sdshdr outcome" where
  "sdsclear s =
     andThen (blit (sbuf s) 0 [NULc]) (\<lambda>b. Inr (s\<lparr>sfree := sfree s + slen s, slen := 0, sbuf := b\<rparr>))"

definition sdsMakeRoomFor :: "blocks \<Rightarrow> sdshdr \<Rightarrow> nat \<Rightarrow> sdshdr outcome" where
  "sdsMakeRoomFor mem s addlen =
     (if sdsavail s \<ge> addlen then Inr s
      else
        let newlen = size_t (sdslen s + addlen);
            newlen = (if newlen < SDS_MAX_PREALLOC then newlen * 2 else size_t (newlen + SDS_MAX_PREALLOC))
        in andThen (hdr_block mem newlen) (\<lambda>b.
             Inr (s\<lparr>sfree := of_nat newlen - slen s, sbuf := take (length b) (sbuf s) @ drop (length (sbuf s)) b\<rparr>)))"

definition sdsRemoveFreeSpace :: "blocks \<Rightarrow> sdshdr \<Rightarrow> sdshdr outcome" where
  "sdsRemoveFreeSpace mem s =
     andThen (hdr_block mem (sdslen s)) (\<lambda>b.
       Inr (s\<lparr>sfree := 0, sbuf := take (length b) (sbuf s) @ drop (length (sbuf s)) b\<rparr>))"

definition sdsAllocSize :: "sdshdr \<Rightarrow> nat" where
  "sdsAllocSize s = 8 + unat (slen s) + unat (sfree s) + 1"

text \<open>A failed \<open>assert\<close> aborts; \<open>incr\<close> is an \<open>int\<close>.\<close>

definition sdsIncrLen :: "sdshdr \<Rightarrow> int \<Rightarrow> sdshdr outcome" where
  "sdsIncrLen s incr =
     (if (if incr \<ge> 0 then int (unat (sfree s)) \<ge> incr else int (unat (slen s)) \<ge> - incr) then
        let s = s\<lparr>slen := slen s + of_int incr, sfree := sfree s - of_int incr\<rparr> in
        andThen (blit (sbuf s) (unat (slen s)) [NULc]) (\<lambda>b. Inr (s\<lparr>sbuf := b\<rparr>))
      else Inl Exit)"

definition sdsgrowzero :: "blocks \<Rightarrow> sdshdr \<Rightarrow> nat \<Rightarrow> sdshdr outcome" where
  "sdsgrowzero mem s n =
     (let curlen = sdslen s in
      if n \<le> curlen then Inr s
      else
        andThen (sdsMakeRoomFor mem s (n - curlen)) (\<lambda>s.
        andThen (blit (sbuf s) curlen (replicate (n - curlen + 1) NULc)) (\<lambda>b.
        let totlen = unat (slen s + sfree s)
        in Inr (s\<lparr>slen := of_nat n, sfree := of_nat totlen - of_nat n, sbuf := b\<rparr>))))"

subsection \<open>Appending and copying\<close>

definition sdscatlen :: "blocks \<Rightarrow> sdshdr \<Rightarrow> string \<Rightarrow> sdshdr outcome" where
  "sdscatlen mem s t =
     (let curlen = sdslen s; n = length t in
      andThen (sdsMakeRoomFor mem s n) (\<lambda>s.
      andThen (blit (sbuf s) curlen t) (\<lambda>b.
      andThen (blit b (curlen + n) [NULc]) (\<lambda>b.
        Inr (s\<lparr>slen := of_nat (curlen + n), sfree := sfree s - of_nat n, sbuf := b\<rparr>)))))"

definition sdscat :: "blocks \<Rightarrow> sdshdr \<Rightarrow> string \<Rightarrow> sdshdr outcome" where
  "sdscat mem s t = sdscatlen mem s t"

definition sdscatsds :: "blocks \<Rightarrow> sdshdr \<Rightarrow> sdshdr \<Rightarrow> sdshdr outcome" where
  "sdscatsds mem s t = andThen (chars_at (sbuf t) 0 (sdslen t)) (\<lambda>xs. sdscatlen mem s xs)"

definition sdscpylen :: "blocks \<Rightarrow> sdshdr \<Rightarrow> string \<Rightarrow> sdshdr outcome" where
  "sdscpylen mem s t =
     (let totlen = unat (sfree s + slen s); n = length t in
      andThen (if totlen < n then sdsMakeRoomFor mem s (n - sdslen s) else Inr s) (\<lambda>s.
      let totlen = unat (sfree s + slen s) in
      andThen (blit (sbuf s) 0 t) (\<lambda>b.
      andThen (blit b n [NULc]) (\<lambda>b.
        Inr (s\<lparr>slen := of_nat n, sfree := of_nat totlen - of_nat n, sbuf := b\<rparr>)))))"

definition sdscpy :: "blocks \<Rightarrow> sdshdr \<Rightarrow> string \<Rightarrow> sdshdr outcome" where
  "sdscpy mem s t = sdscpylen mem s t"

subsection \<open>Numbers\<close>

text \<open>The digits come out in reverse, then the buffer is reversed in place.\<close>

function ll_digits :: "nat \<Rightarrow> string \<Rightarrow> nat \<Rightarrow> (string \<times> nat) outcome" where
  "ll_digits v b p =
     andThen (blit b p [char_of (48 + v mod 10)]) (\<lambda>b.
       let v = v div 10 in if v \<noteq> 0 then ll_digits v b (p + 1) else Inr (b, p + 1))"
  by pat_completeness auto
termination
  by (relation "measure (\<lambda>(v, _, _). v)") auto

declare ll_digits.simps [simp del]

function ll_reverse :: "string \<Rightarrow> nat \<Rightarrow> nat \<Rightarrow> string" where
  "ll_reverse b s p = (if s < p then ll_reverse (b[s := b ! p, p := b ! s]) (s + 1) (p - 1) else b)"
  by pat_completeness auto
termination
  by (relation "measure (\<lambda>(_, s, p). p - s)") auto

declare ll_reverse.simps [simp del]

text \<open>
  \<open>value\<close> is a \<open>long long\<close>, its negation is taken modulo \<open>2 ^ 64\<close>.  The result is the buffer and
  the length.
\<close>

definition sdsll2str :: "string \<Rightarrow> 64 word \<Rightarrow> (string \<times> nat) outcome" where
  "sdsll2str s value =
     (let v = (if sint value < 0 then - value else value) in
      andThen (ll_digits (unat v) s 0) (\<lambda>(b, p).
      andThen (if sint value < 0 then map_sum id (\<lambda>b. (b, p + 1)) (blit b p ''-'') else Inr (b, p)) (\<lambda>(b, p).
      andThen (blit b p [NULc]) (\<lambda>b. Inr (ll_reverse b 0 (p - 1), p)))))"

definition sdsull2str :: "string \<Rightarrow> 64 word \<Rightarrow> (string \<times> nat) outcome" where
  "sdsull2str s v =
     andThen (ll_digits (unat v) s 0) (\<lambda>(b, p).
     andThen (blit b p [NULc]) (\<lambda>b. Inr (ll_reverse b 0 (p - 1), p)))"

definition sdsfromlonglong :: "blocks \<Rightarrow> string \<Rightarrow> 64 word \<Rightarrow> sdshdr outcome" where
  "sdsfromlonglong mem buf value =
     andThen (sdsll2str buf value) (\<lambda>(b, n). andThen (chars_at b 0 n) (\<lambda>xs. sdsnewlen mem (Some xs) n))"


subsection \<open>Formatting\<close>

text \<open>
  \<open>text\<close> is what \<open>vsnprintf\<close> makes of the format and its arguments.  It writes as much as fits,
  ended by \<open>NUL\<close>; the buffer is doubled until its last byte but one stays \<open>NUL\<close>.  The bytes of a
  fresh buffer come from \<open>mem\<close> again.
\<close>

definition vsnprintf_to :: "string \<Rightarrow> string \<Rightarrow> string outcome" where
  "vsnprintf_to b out = blit b 0 (take (length b - 1) out @ [NULc])"

definition try_format :: "string \<Rightarrow> string \<Rightarrow> (string \<times> bool) outcome" where
  "try_format b out =
     andThen (blit b (length b - 2) [NULc]) (\<lambda>b.
     andThen (vsnprintf_to b out) (\<lambda>b. Inr (b, b ! (length b - 2) \<noteq> NULc)))"

fun format_loop :: "nat \<Rightarrow> blocks \<Rightarrow> string \<Rightarrow> string \<Rightarrow> string outcome" where
  "format_loop 0 mem b out = Inl Blocked"
| "format_loop (Suc fuel) mem b out =
     andThen (try_format b out) (\<lambda>(b, again).
       if again then andThen (of_opt Exit (mem (size_t (length b * 2)))) (\<lambda>b'. format_loop fuel mem b' out)
       else Inr b)"

text \<open>The loop has 64 turns of fuel: the buffer length doubles in each and is a \<open>size_t\<close>.\<close>

definition sdscatvprintf :: "blocks \<Rightarrow> sdshdr \<Rightarrow> string \<Rightarrow> string \<Rightarrow> string \<Rightarrow> sdshdr outcome" where
  "sdscatvprintf mem s fmt staticbuf out =
     (let buflen = length fmt * 2 in
      andThen (if buflen > length staticbuf then of_opt Exit (mem buflen) else Inr staticbuf) (\<lambda>b.
      andThen (format_loop 64 mem b out) (\<lambda>b.
      andThen (strlen_of b) (\<lambda>n. sdscat mem s (take n b)))))"

definition sdscatprintf :: "blocks \<Rightarrow> sdshdr \<Rightarrow> string \<Rightarrow> string \<Rightarrow> string \<Rightarrow> sdshdr outcome" where
  "sdscatprintf mem s fmt staticbuf out = sdscatvprintf mem s fmt staticbuf out"

text \<open>The arguments of \<open>sdscatfmt\<close>, as the caller passes them.\<close>

datatype fmt_arg = ArgStr string | ArgSds sdshdr | ArgInt "32 word" | ArgLong "64 word" | ArgUint "32 word" | ArgUlong "64 word"

definition appstopat :: "blocks \<Rightarrow> sdshdr \<Rightarrow> nat \<Rightarrow> string \<Rightarrow> (sdshdr \<times> nat) outcome" where
  "appstopat mem s i str =
     (let l = length str in
      andThen (if sdsavail s < l then sdsMakeRoomFor mem s l else Inr s) (\<lambda>s.
      andThen (blit (sbuf s) i str) (\<lambda>b.
        Inr (s\<lparr>slen := slen s + of_nat l, sfree := sfree s - of_nat l, sbuf := b\<rparr>, i + l))))"

definition put_char :: "sdshdr \<Rightarrow> nat \<Rightarrow> char \<Rightarrow> (sdshdr \<times> nat) outcome" where
  "put_char s i c =
     andThen (blit (sbuf s) i [c]) (\<lambda>b. Inr (s\<lparr>slen := slen s + 1, sfree := sfree s - 1, sbuf := b\<rparr>, i + 1))"

text \<open>The text of one argument: the 21 bytes of the number buffer hold \<open>buf\<close> before.\<close>

definition arg_text :: "string \<Rightarrow> char \<Rightarrow> fmt_arg \<Rightarrow> string outcome" where
  "arg_text buf next a =
     (case a of
        ArgStr str \<Rightarrow> if next = CHR ''s'' then Inr str else Inl Undefined
      | ArgSds s \<Rightarrow> if next = CHR ''S'' then chars_at (sbuf s) 0 (sdslen s) else Inl Undefined
      | ArgInt x \<Rightarrow> if next = CHR ''i'' then andThen (sdsll2str buf (scast x)) (\<lambda>(b, l). chars_at b 0 l) else Inl Undefined
      | ArgLong x \<Rightarrow> if next = CHR ''I'' then andThen (sdsll2str buf x) (\<lambda>(b, l). chars_at b 0 l) else Inl Undefined
      | ArgUint x \<Rightarrow> if next = CHR ''u'' then andThen (sdsull2str buf (ucast x)) (\<lambda>(b, l). chars_at b 0 l) else Inl Undefined
      | ArgUlong x \<Rightarrow> if next = CHR ''U'' then andThen (sdsull2str buf x) (\<lambda>(b, l). chars_at b 0 l) else Inl Undefined)"

text \<open>
  The loop over the format.  A format that ends in a single \<open>%\<close> is read behind its end:
  \<open>f\<close> steps over the \<open>NUL\<close>.
\<close>

fun fmt_loop :: "blocks \<Rightarrow> string \<Rightarrow> string \<Rightarrow> fmt_arg list \<Rightarrow> sdshdr \<Rightarrow> nat \<Rightarrow> (sdshdr \<times> nat) outcome" where
  "fmt_loop mem buf [] args s i = Inr (s, i)"
| "fmt_loop mem buf (c # f) args s i =
     andThen (if sdsavail s = 0 then sdsMakeRoomFor mem s 1 else Inr s) (\<lambda>s.
       if c = CHR ''%'' then
         (case f of
            [] \<Rightarrow> Inl Undefined
          | next # f \<Rightarrow>
              if next \<in> set ''sSiIuU'' then
                (case args of
                   [] \<Rightarrow> Inl Undefined
                 | a # args \<Rightarrow>
                     andThen (arg_text buf next a) (\<lambda>str.
                     andThen (appstopat mem s i str) (\<lambda>(s, i). fmt_loop mem buf f args s i)))
              else andThen (put_char s i next) (\<lambda>(s, i). fmt_loop mem buf f args s i))
       else andThen (put_char s i c) (\<lambda>(s, i). fmt_loop mem buf f args s i))"

definition sdscatfmt :: "blocks \<Rightarrow> sdshdr \<Rightarrow> string \<Rightarrow> string \<Rightarrow> fmt_arg list \<Rightarrow> sdshdr outcome" where
  "sdscatfmt mem s buf fmt args =
     andThen (fmt_loop mem buf fmt args s (sdslen s)) (\<lambda>(s, i).
     andThen (blit (sbuf s) i [NULc]) (\<lambda>b. Inr (s\<lparr>sbuf := b\<rparr>)))"

subsection \<open>Cutting and mapping in place\<close>

text \<open>\<open>strchr\<close> also finds the \<open>NUL\<close> that ends \<open>cset\<close>.\<close>

definition in_cset :: "string \<Rightarrow> char \<Rightarrow> bool" where
  "in_cset cset c \<longleftrightarrow> c \<in> set cset \<or> c = NULc"

function trim_left :: "string \<Rightarrow> string \<Rightarrow> int \<Rightarrow> int \<Rightarrow> int outcome" where
  "trim_left cset b sp lst =
     (if sp \<le> lst then
        if sp < 0 \<or> sp \<ge> int (length b) then Inl Undefined
        else if in_cset cset (b ! nat sp) then trim_left cset b (sp + 1) lst else Inr sp
      else Inr sp)"
  by pat_completeness auto
termination
  by (relation "measure (\<lambda>(_, _, sp, lst). nat (lst + 1 - sp))") auto

function trim_right :: "string \<Rightarrow> string \<Rightarrow> int \<Rightarrow> int \<Rightarrow> int outcome" where
  "trim_right cset b ep start =
     (if ep > start then
        if ep < 0 \<or> ep \<ge> int (length b) then Inl Undefined
        else if in_cset cset (b ! nat ep) then trim_right cset b (ep - 1) start else Inr ep
      else Inr ep)"
  by pat_completeness auto
termination
  by (relation "measure (\<lambda>(_, _, ep, start). nat (ep - start))") auto

declare trim_left.simps trim_right.simps [simp del]

definition sdstrim :: "sdshdr \<Rightarrow> string \<Rightarrow> sdshdr outcome" where
  "sdstrim s cset =
     (let lst = int (sdslen s) - 1 in
      andThen (trim_left cset (sbuf s) 0 lst) (\<lambda>sp.
      andThen (trim_right cset (sbuf s) lst 0) (\<lambda>ep.
      let n = (if sp > ep then 0 else nat (ep - sp + 1)) in
      andThen (if sp \<noteq> 0 then andThen (chars_at (sbuf s) (nat sp) n) (blit (sbuf s) 0) else Inr (sbuf s)) (\<lambda>b.
      andThen (blit b n [NULc]) (\<lambda>b.
        Inr (s\<lparr>sfree := sfree s + (slen s - of_nat n), slen := of_nat n, sbuf := b\<rparr>))))))"

text \<open>The first index and the length of what a range keeps; the values are \<open>int\<close>s.\<close>

definition range_bounds :: "int \<Rightarrow> int \<Rightarrow> int \<Rightarrow> int \<times> int" where
  "range_bounds n start stop =
     (let start = (if start < 0 then (let start = i32 (n + start) in if start < 0 then 0 else start) else start);
          stop = (if stop < 0 then (let stop = i32 (n + stop) in if stop < 0 then 0 else stop) else stop);
          newlen = (if start > stop then 0 else stop - start + 1)
      in if newlen \<noteq> 0 then
           if start \<ge> i32 n then (start, 0)
           else if stop \<ge> i32 n then
             (let stop = i32 (n - 1) in (start, if start > stop then 0 else stop - start + 1))
           else (start, newlen)
         else (0, newlen))"

definition sdsrange :: "sdshdr \<Rightarrow> int \<Rightarrow> int \<Rightarrow> sdshdr outcome" where
  "sdsrange s start stop =
     (let n = int (sdslen s) in
      if n = 0 then Inr s
      else
        let (start, newlen) = range_bounds n start stop in
        andThen (if start \<noteq> 0 \<and> newlen \<noteq> 0 then andThen (chars_at (sbuf s) (nat start) (nat newlen)) (blit (sbuf s) 0)
                 else Inr (sbuf s)) (\<lambda>b.
        andThen (blit b (nat newlen) [NULc]) (\<lambda>b.
          Inr (s\<lparr>sfree := sfree s + (slen s - of_int newlen), slen := of_int newlen, sbuf := b\<rparr>))))"

text \<open>\<open>tolower\<close> and \<open>toupper\<close> of the C locale.\<close>

definition to_lower :: "char \<Rightarrow> char" where
  "to_lower c = (let n = of_char c :: nat in if 65 \<le> n \<and> n \<le> 90 then char_of (n + 32) else c)"

definition to_upper :: "char \<Rightarrow> char" where
  "to_upper c = (let n = of_char c :: nat in if 97 \<le> n \<and> n \<le> 122 then char_of (n - 32) else c)"

fun map_from :: "(char \<Rightarrow> char) \<Rightarrow> nat list \<Rightarrow> string \<Rightarrow> string outcome" where
  "map_from f [] b = Inr b"
| "map_from f (j # js) b = (if j < length b then map_from f js (b[j := f (b ! j)]) else Inl Undefined)"

definition sdstolower :: "sdshdr \<Rightarrow> sdshdr outcome" where
  "sdstolower s = andThen (map_from to_lower [0..<sdslen s] (sbuf s)) (\<lambda>b. Inr (s\<lparr>sbuf := b\<rparr>))"

definition sdstoupper :: "sdshdr \<Rightarrow> sdshdr outcome" where
  "sdstoupper s = andThen (map_from to_upper [0..<sdslen s] (sbuf s)) (\<lambda>b. Inr (s\<lparr>sbuf := b\<rparr>))"

text \<open>The inner loop of \<open>sdsmapchars\<close> stops at the first match.\<close>

fun map_char :: "string \<Rightarrow> string \<Rightarrow> char \<Rightarrow> char" where
  "map_char (f # from') (t # to') c = (if c = f then t else map_char from' to' c)"
| "map_char _ _ c = c"

definition sdsmapchars :: "sdshdr \<Rightarrow> string \<Rightarrow> string \<Rightarrow> nat \<Rightarrow> sdshdr outcome" where
  "sdsmapchars s from' to' setlen =
     (if setlen \<le> length from' \<and> setlen \<le> length to' then
        andThen (map_from (map_char (take setlen from') (take setlen to')) [0..<sdslen s] (sbuf s)) (\<lambda>b. Inr (s\<lparr>sbuf := b\<rparr>))
      else Inl Undefined)"

subsection \<open>Comparison\<close>

fun memcmp :: "string \<Rightarrow> string \<Rightarrow> int" where
  "memcmp (x # xs) (y # ys) =
     (let a = of_char x :: nat; b = of_char y in if a < b then - 1 else if b < a then 1 else memcmp xs ys)"
| "memcmp _ _ = 0"

definition sdscmp :: "sdshdr \<Rightarrow> sdshdr \<Rightarrow> int outcome" where
  "sdscmp s1 s2 =
     (let l1 = sdslen s1; l2 = sdslen s2; minlen = (if l1 < l2 then l1 else l2) in
      andThen (chars_at (sbuf s1) 0 minlen) (\<lambda>a.
      andThen (chars_at (sbuf s2) 0 minlen) (\<lambda>b.
        let cmp = memcmp a b in if cmp = 0 then Inr (i32 (int l1 - int l2)) else Inr cmp)))"

end
