(* ===== verification/SdsRep.thy ===== *)
theory SdsRep
  imports Sds
begin

text \<open>
  What the operations on dynamic strings do, seen as operations on lists of characters:
  \<open>sds_rep h s\<close> says that the header \<open>h\<close> holds the bytes \<open>s\<close>, any bytes, with the ending
  \<open>NUL\<close> behind them and the free space accounted for.
\<close>

subsection \<open>The representation\<close>

definition sds_rep :: "sdshdr \<Rightarrow> string \<Rightarrow> bool" where
  "sds_rep h s \<longleftrightarrow>
     unat (slen h) = length s \<and> length (sbuf h) = unat (slen h) + unat (sfree h) + 1 \<and>
     unat (slen h) + unat (sfree h) < 2 ^ 32 \<and> take (length s) (sbuf h) = s \<and> sbuf h ! length s = NULc"

named_theorems sds_simp \<open>lengths and fields of a represented string\<close>

lemma sds_rep_len [sds_simp]: "sds_rep h s \<Longrightarrow> sdslen h = length s"
  by (simp add: sds_rep_def sdslen_def)

lemma sds_rep_buf:
  assumes "sds_rep h s"
  shows "sbuf h = s @ NULc # drop (length s + 1) (sbuf h)"
proof -
  have l: "length s < length (sbuf h)" using assms by (simp add: sds_rep_def)
  then have "sbuf h = take (length s) (sbuf h) @ sbuf h ! length s # drop (Suc (length s)) (sbuf h)"
    by (rule id_take_nth_drop)
  then show ?thesis using assms by (simp add: sds_rep_def)
qed

lemma unat_of_nat32 [sds_simp]: "n < 2 ^ 32 \<Longrightarrow> unat (of_nat n :: 32 word) = n"
  by (simp add: unat_of_nat)

lemma unat_plus32: "unat a + unat b < 2 ^ 32 \<Longrightarrow> unat (a + b) = unat a + unat b" for a b :: "32 word"
  by (simp add: unat_word_ariths)

lemma unat_minus32: "unat b \<le> unat a \<Longrightarrow> unat (a - b) = unat a - unat b" for a b :: "32 word"
  by (simp add: unat_sub word_le_nat_alt)

lemma blit_ok: "i + length xs \<le> length b \<Longrightarrow> blit b i xs = Inr (take i b @ xs @ drop (i + length xs) b)"
  by (simp add: blit_def)

lemma blit_app: "length p = i \<Longrightarrow> length xs \<le> length q \<Longrightarrow> blit (p @ q) i xs = Inr (p @ xs @ drop (length xs) q)"
  by (simp add: blit_def)

lemma hdr_block_ok: "mem_ok mem \<Longrightarrow> n < 2 ^ 63 \<Longrightarrow> \<exists>b. hdr_block mem n = Inr b \<and> length b = n + 1"
  unfolding mem_ok_def hdr_block_def size_t_def
  by (drule spec [of _ "(8 + n + 1) mod 2 ^ 64"]) auto

lemma unat_sum32:
  assumes "v = of_nat a" and "w = of_nat b" and "a + b < 2 ^ 32"
  shows "unat (v + w :: 32 word) = a + b"
  using assms(3) by (simp add: assms(1,2) unat_of_nat flip: of_nat_add)

text \<open>A header is built from its parts.\<close>

lemma sds_repI:
  assumes "length s + f < 2 ^ 32" and "length b = f"
  shows "sds_rep \<lparr>slen = of_nat (length s), sfree = of_nat f, sbuf = s @ NULc # b\<rparr> s"
  using assms by (simp add: sds_rep_def sds_simp nth_append)

subsection \<open>Creation\<close>

lemma sdsnewlen_ok:
  assumes "mem_ok mem" and "length xs < 2 ^ 32"
  shows "\<exists>h. sdsnewlen mem (Some xs) (length xs) = Inr h \<and> sds_rep h xs \<and> sdsavail h = 0"
proof -
  obtain b where b: "hdr_block mem (length xs) = Inr b" "length b = length xs + 1"
    using hdr_block_ok [OF assms(1), of "length xs"] assms(2) by auto
  have "length (drop (length xs) b) = Suc 0" using b(2) by simp
  then obtain y where y: "drop (length xs) b = [y]" by (metis length_0_conv length_Suc_conv)
  have "sdsnewlen mem (Some xs) (length xs) = Inr \<lparr>slen = of_nat (length xs), sfree = 0, sbuf = xs @ [NULc]\<rparr>"
    using b y by (cases xs) (auto simp: sdsnewlen_def blit_ok)
  then show ?thesis using sds_repI [of xs 0 "[]"] assms(2) by (simp add: sdsavail_def)
qed

subsection \<open>Room\<close>

text \<open>The same without the ending \<open>NUL\<close>: how \<open>sdscatfmt\<close> leaves a string between two appends.\<close>

definition sds_open :: "sdshdr \<Rightarrow> string \<Rightarrow> bool" where
  "sds_open h s \<longleftrightarrow>
     unat (slen h) = length s \<and> length (sbuf h) = unat (slen h) + unat (sfree h) + 1 \<and>
     unat (slen h) + unat (sfree h) < 2 ^ 32 \<and> take (length s) (sbuf h) = s"

lemma sds_rep_open: "sds_rep h s \<longleftrightarrow> sds_open h s \<and> sbuf h ! length s = NULc"
  by (auto simp: sds_rep_def sds_open_def)

lemma sdsMakeRoomFor_open:
  assumes mem: "mem_ok mem" and h: "sds_open h s" and n: "length s + n < 2 ^ 31"
  shows "\<exists>h'. sdsMakeRoomFor mem h n = Inr h' \<and> sds_open h' s \<and> n \<le> sdsavail h' \<and> slen h' = slen h \<and>
    sbuf h' ! length s = sbuf h ! length s"
proof (cases "n \<le> sdsavail h")
  case True
  then show ?thesis using h by (simp add: sdsMakeRoomFor_def)
next
  case False
  define N where "N = (if length s + n < SDS_MAX_PREALLOC then (length s + n) * 2 else length s + n + SDS_MAX_PREALLOC)"
  have N: "N < 2 ^ 32" "length s + n \<le> N" using n by (auto simp: N_def SDS_MAX_PREALLOC_def)
  obtain b where b: "hdr_block mem N = Inr b" "length b = N + 1" using hdr_block_ok [OF mem, of N] N by auto
  let ?h = "h\<lparr>sfree := of_nat N - slen h, sbuf := take (length b) (sbuf h) @ drop (length (sbuf h)) b\<rparr>"
  have "(if size_t (sdslen h + n) < SDS_MAX_PREALLOC then size_t (sdslen h + n) * 2
     else size_t (size_t (sdslen h + n) + SDS_MAX_PREALLOC)) = N"
    using n h by (simp add: size_t_def sdslen_def sds_open_def N_def SDS_MAX_PREALLOC_def)
  then have run: "sdsMakeRoomFor mem h n = Inr ?h"
    using False b(1) by (simp add: sdsMakeRoomFor_def Let_def)
  have len: "unat (slen h) = length s" using h by (simp add: sds_open_def)
  then have fr: "unat (of_nat N - slen h) = N - length s"
    using N by (subst unat_minus32) (simp_all add: sds_simp)
  have short: "length (sbuf h) \<le> length b" using False h b N by (simp add: sds_open_def sdsavail_def)
  moreover have "length s < length (sbuf h)" using h by (simp add: sds_open_def)
  ultimately have "sds_open ?h s" "sbuf ?h ! length s = sbuf h ! length s"
    using h b N fr len by (simp_all add: sds_open_def nth_append)
  then show ?thesis using run N fr len by (simp add: sdsavail_def)
qed

lemma sdsMakeRoomFor_ok:
  assumes "mem_ok mem" and h: "sds_rep h s" and "length s + n < 2 ^ 31"
  shows "\<exists>h'. sdsMakeRoomFor mem h n = Inr h' \<and> sds_rep h' s \<and> n \<le> sdsavail h' \<and> slen h' = slen h"
  using sdsMakeRoomFor_open [OF assms(1) _ assms(3), of h] h by (auto simp: sds_rep_open)

subsection \<open>Appending\<close>

lemma sdscatlen_ok:
  assumes mem: "mem_ok mem" and h: "sds_rep h s" and n: "length s + length t < 2 ^ 31"
  shows "\<exists>h'. sdscatlen mem h t = Inr h' \<and> sds_rep h' (s @ t)"
proof -
  obtain g where g: "sdsMakeRoomFor mem h (length t) = Inr g" "sds_rep g s" "length t \<le> sdsavail g"
    using sdsMakeRoomFor_ok [OF assms] by blast
  note b = sds_rep_buf [OF g(2)]
  define r where "r = drop (length s + 1) (sbuf g)"
  have r: "sbuf g = s @ NULc # r" "length r = unat (sfree g)" "length t \<le> length r" "length s + length r < 2 ^ 32"
    using g(2,3) b by (simp_all add: r_def sds_rep_def sdsavail_def)
  let ?h = "\<lparr>slen = of_nat (length (s @ t)), sfree = of_nat (length r - length t), sbuf = (s @ t) @ NULc # drop (length t) r\<rparr>"
  have "sfree g = of_nat (length r)" by (simp add: r(2))
  then have "sfree g - of_nat (length t) = of_nat (length r - length t)" using r(3) by (simp add: of_nat_diff)
  moreover have "blit (sbuf g) (length s) t = Inr ((s @ t) @ drop (length t) (NULc # r))"
    using r(3) by (simp add: r(1) blit_app)
  moreover have "blit ((s @ t) @ drop (length t) (NULc # r)) (length s + length t) [NULc] = Inr ((s @ t) @ NULc # drop (length t) r)"
    using r(3) by (subst blit_app) simp_all
  ultimately have "sdscatlen mem h t = Inr ?h"
    using g(1) by (simp add: sdscatlen_def Let_def sds_rep_len [OF h])
  moreover have "sds_rep ?h (s @ t)" using r by (intro sds_repI) simp_all
  ultimately show ?thesis by blast
qed


subsection \<open>Operations in place\<close>

lemma sds_repE:
  assumes "sds_rep h s"
  obtains r where "sbuf h = s @ NULc # r" and "slen h = of_nat (length s)" and "sfree h = of_nat (length r)"
    and "length s + length r < 2 ^ 32"
proof -
  let ?r = "drop (length s + 1) (sbuf h)"
  have "length ?r = unat (sfree h)" "unat (slen h) = length s" "length s + length ?r < 2 ^ 32"
    using assms by (simp_all add: sds_rep_def)
  moreover have "of_nat (unat w) = w" for w :: "32 word" by simp
  from this [of "slen h"] this [of "sfree h"] have "slen h = of_nat (length s)" "sfree h = of_nat (length ?r)"
    unfolding calculation(1,2) by (simp_all only:)
  ultimately show thesis using that [of ?r] sds_rep_buf [OF assms] by simp
qed

lemma blit_cut: "take n b = xs \<Longrightarrow> length xs = n \<Longrightarrow> n < length b \<Longrightarrow> blit b n [NULc] = Inr (xs @ NULc # drop (Suc n) b)"
  by (simp add: blit_def)

lemma hdr_fields: "h\<lparr>sfree := f, slen := n, sbuf := b\<rparr> = \<lparr>slen = n, sfree = f, sbuf = b\<rparr>"
  by (cases h) simp

text \<open>A string cut down to \<open>xs\<close> in its own buffer.\<close>

lemma sds_cut_rep:
  assumes h: "sds_rep h s" and n: "length xs \<le> length s" and b: "take (length xs) b = xs" "length b = length (sbuf h)"
  shows "\<exists>b'. blit b (length xs) [NULc] = Inr b' \<and>
    sds_rep (h\<lparr>sfree := sfree h + (slen h - of_nat (length xs)), slen := of_nat (length xs), sbuf := b'\<rparr>) xs"
proof -
  obtain r where r: "sbuf h = s @ NULc # r" "slen h = of_nat (length s)" "sfree h = of_nat (length r)"
    "length s + length r < 2 ^ 32" using h by (rule sds_repE)
  define q where "q = drop (Suc (length xs)) b"
  have q: "length q = length r + (length s - length xs)" using b(2) n r(1) by (simp add: q_def)
  then have f: "sfree h + (slen h - of_nat (length xs)) = of_nat (length q)"
    using n by (simp add: r(2,3) of_nat_diff)
  have "blit b (length xs) [NULc] = Inr (xs @ NULc # q)"
    unfolding q_def by (rule blit_cut [OF b(1) refl]) (use b(2) n r(1) in simp)
  moreover have "sds_rep (h\<lparr>sfree := sfree h + (slen h - of_nat (length xs)), slen := of_nat (length xs), sbuf := xs @ NULc # q\<rparr>) xs"
    unfolding f hdr_fields by (rule sds_repI) (use q n r(4) in simp_all)
  ultimately show ?thesis by blast
qed

lemma sdsclear_ok: "sds_rep h s \<Longrightarrow> \<exists>h'. sdsclear h = Inr h' \<and> sds_rep h' []"
  using sds_cut_rep [of h s "[]" "sbuf h"] by (auto simp: sdsclear_def)

lemma strlen_of_ok: "sbuf h = s @ NULc # r \<Longrightarrow> strlen_of (sbuf h) = Inr (length (takeWhile (\<lambda>c. c \<noteq> NULc) s))"
proof -
  assume "sbuf h = s @ NULc # r"
  moreover have "takeWhile (\<lambda>c. c \<noteq> NULc) (s @ NULc # r) = takeWhile (\<lambda>c. c \<noteq> NULc) s" for s
    by (induction s) auto
  ultimately show ?thesis by (simp add: strlen_of_def)
qed

lemma sdsupdatelen_ok:
  assumes h: "sds_rep h s"
  shows "\<exists>h'. sdsupdatelen h = Inr h' \<and> sds_rep h' (takeWhile (\<lambda>c. c \<noteq> NULc) s)"
proof -
  let ?w = "takeWhile (\<lambda>c. c \<noteq> NULc) s"
  obtain r where r: "sbuf h = s @ NULc # r" "slen h = of_nat (length s)" "sfree h = of_nat (length r)"
    "length s + length r < 2 ^ 32" using h by (rule sds_repE)
  have split: "s @ NULc # r = ?w @ dropWhile (\<lambda>c. c \<noteq> NULc) s @ NULc # r"
    by (metis append.assoc takeWhile_dropWhile_id)
  obtain q where q: "sbuf h = ?w @ NULc # q"
  proof (cases "dropWhile (\<lambda>c. c \<noteq> NULc) s")
    case Nil
    then have w: "?w = s" by (simp add: takeWhile_eq_all_conv dropWhile_eq_Nil_conv)
    have "sbuf h = ?w @ NULc # r" unfolding w by (rule r(1))
    then show thesis by (rule that)
  next
    case (Cons c cs)
    then have c: "c = NULc" using hd_dropWhile [of "\<lambda>c. c \<noteq> NULc" s] by simp
    have "sbuf h = ?w @ NULc # cs @ NULc # r" using r(1) split unfolding Cons c by simp
    then show thesis by (rule that)
  qed
  have n: "length ?w \<le> length s" by (simp add: length_takeWhile_le)
  have t: "take (length ?w) (sbuf h) = ?w" unfolding q by simp
  obtain b' where b': "blit (sbuf h) (length ?w) [NULc] = Inr b'"
    "sds_rep (h\<lparr>sfree := sfree h + (slen h - of_nat (length ?w)), slen := of_nat (length ?w), sbuf := b'\<rparr>) ?w"
    using sds_cut_rep [OF h n t refl] by blast
  have "b' = sbuf h" using b'(1) unfolding q blit_def by simp
  then have "sds_rep (h\<lparr>sfree := sfree h + (slen h - of_nat (length ?w)), slen := of_nat (length ?w)\<rparr>) ?w"
    using b'(2) by simp
  then show ?thesis unfolding sdsupdatelen_def strlen_of_ok [OF r(1)] andThen_simps by blast
qed

lemma sdsRemoveFreeSpace_ok:
  assumes mem: "mem_ok mem" and h: "sds_rep h s"
  shows "\<exists>h'. sdsRemoveFreeSpace mem h = Inr h' \<and> sds_rep h' s \<and> sdsavail h' = 0"
proof -
  obtain r where r: "sbuf h = s @ NULc # r" "slen h = of_nat (length s)" "length s + length r < 2 ^ 32"
    using h by (rule sds_repE)
  obtain b where b: "hdr_block mem (length s) = Inr b" "length b = length s + 1"
    using hdr_block_ok [OF mem, of "length s"] r(3) by auto
  have "sdsRemoveFreeSpace mem h = Inr \<lparr>slen = of_nat (length s), sfree = of_nat (0 :: nat), sbuf = s @ NULc # []\<rparr>"
    using b r by (simp add: sdsRemoveFreeSpace_def sds_rep_len [OF h])
  then show ?thesis using sds_repI [of s 0 "[]"] r(3) by (simp add: sdsavail_def)
qed

lemma sdsgrowzero_ok:
  assumes mem: "mem_ok mem" and h: "sds_rep h s" and n: "n < 2 ^ 31" "length s < 2 ^ 31"
  shows "\<exists>h'. sdsgrowzero mem h n = Inr h' \<and> sds_rep h' (s @ replicate (n - length s) NULc)"
proof (cases "n \<le> length s")
  case True
  then show ?thesis using h by (simp add: sdsgrowzero_def sds_simp)
next
  case False
  let ?z = "replicate (n - length s) NULc"
  obtain g where g: "sdsMakeRoomFor mem h (n - length s) = Inr g" "sds_rep g s" "n - length s \<le> sdsavail g"
    using sdsMakeRoomFor_ok [OF mem h, of "n - length s"] n False by auto
  obtain r where r: "sbuf g = s @ NULc # r" "slen g = of_nat (length s)" "sfree g = of_nat (length r)"
    "length s + length r < 2 ^ 32" using g(2) by (rule sds_repE)
  have room: "n - length s \<le> length r" using g(3) r(3,4) by (simp add: sdsavail_def sds_simp)
  have z: "replicate (n - length s + 1) NULc = ?z @ [NULc]" by (simp add: replicate_append_same)
  have "blit (sbuf g) (length s) (replicate (n - length s + 1) NULc) = Inr ((s @ ?z) @ NULc # drop (n - length s) r)"
    unfolding z r(1) using room by (subst blit_app) simp_all
  moreover have "unat (slen g + sfree g) = length s + length r" by (rule unat_sum32 [OF r(2,3,4)])
  then have "of_nat (unat (slen g + sfree g)) - of_nat n = (of_nat (length r - (n - length s)) :: 32 word)"
    using room False by (simp add: add.commute flip: of_nat_diff of_nat_add)
  ultimately have "sdsgrowzero mem h n =
      Inr \<lparr>slen = of_nat (length (s @ ?z)), sfree = of_nat (length r - (n - length s)), sbuf = (s @ ?z) @ NULc # drop (n - length s) r\<rparr>"
    using g(1) False by (simp add: sdsgrowzero_def Let_def sds_rep_len [OF h])
  moreover have "sds_rep \<lparr>slen = of_nat (length (s @ ?z)), sfree = of_nat (length r - (n - length s)),
      sbuf = (s @ ?z) @ NULc # drop (n - length s) r\<rparr> (s @ ?z)"
    using room r(4) False by (intro sds_repI) simp_all
  ultimately show ?thesis by simp
qed


lemma sdscpylen_ok:
  assumes mem: "mem_ok mem" and h: "sds_rep h s" and n: "length s < 2 ^ 31" "length t < 2 ^ 31"
  shows "\<exists>h'. sdscpylen mem h t = Inr h' \<and> sds_rep h' t"
proof -
  have "\<exists>g. (if unat (sfree h + slen h) < length t then sdsMakeRoomFor mem h (length t - length s) else Inr h) = Inr g \<and>
      sds_rep g s \<and> length t \<le> length s + sdsavail g"
  proof (cases "unat (sfree h + slen h) < length t")
    case True
    have "length s + (length t - length s) < 2 ^ 31" using n by arith
    from sdsMakeRoomFor_ok [OF mem h this] obtain g where "sdsMakeRoomFor mem h (length t - length s) = Inr g"
      "sds_rep g s" "length t - length s \<le> sdsavail g" by blast
    then show ?thesis using True by (intro exI [of _ g]) auto
  next
    case False
    obtain r where r: "sbuf h = s @ NULc # r" "slen h = of_nat (length s)" "sfree h = of_nat (length r)" "length s + length r < 2 ^ 32"
      using h by (rule sds_repE)
    have "unat (sfree h + slen h) = length r + length s" by (rule unat_sum32 [OF r(3,2)]) (use r(4) in simp)
    moreover have "sdsavail h = length r" using r(3,4) by (simp add: sdsavail_def sds_simp)
    ultimately have "unat (sfree h + slen h) = length s + sdsavail h" by simp
    then show ?thesis using False h by auto
  qed
  then obtain g where g: "(if unat (sfree h + slen h) < length t then sdsMakeRoomFor mem h (length t - length s) else Inr h) = Inr g"
    "sds_rep g s" "length t \<le> length s + sdsavail g" by blast
  obtain r where r: "sbuf g = s @ NULc # r" "slen g = of_nat (length s)" "sfree g = of_nat (length r)"
    "length s + length r < 2 ^ 32" using g(2) by (rule sds_repE)
  have room: "length t \<le> length s + length r" using g(3) r(3,4) by (simp add: sdsavail_def sds_simp)
  define q where "q = drop (length t) (s @ NULc # r)"
  have q: "length q = Suc (length s + length r - length t)" using room by (simp add: q_def Suc_diff_le)
  then obtain x q' where q': "q = x # q'" by (cases q) auto
  have "blit (sbuf g) 0 t = Inr (t @ q)" using room by (simp add: blit_def r(1) q_def)
  moreover have "blit (t @ q) (length t) [NULc] = Inr (t @ NULc # q')" by (simp add: q' blit_app)
  moreover have "unat (sfree g + slen g) = length s + length r"
    using unat_sum32 [OF r(3,2)] r(4) by (simp add: add.commute)
  then have "of_nat (unat (sfree g + slen g)) - of_nat (length t) = (of_nat (length q') :: 32 word)"
    using room q by (simp add: q' flip: of_nat_diff of_nat_add)
  ultimately have "sdscpylen mem h t = Inr \<lparr>slen = of_nat (length t), sfree = of_nat (length q'), sbuf = t @ NULc # q'\<rparr>"
    unfolding sdscpylen_def Let_def sds_rep_len [OF h] g(1) andThen_simps by simp
  moreover have "sds_rep \<lparr>slen = of_nat (length t), sfree = of_nat (length q'), sbuf = t @ NULc # q'\<rparr> t"
    using q q' room r(4) by (intro sds_repI) auto
  ultimately show ?thesis by blast
qed

text \<open>Trimming and ranges: the part that stays is moved to the front.\<close>

lemma move_front:
  assumes h: "sds_rep h s" and xs: "i + length xs \<le> length s" "take (length xs) (drop i s) = xs"
  shows "\<exists>b. (if i \<noteq> 0 then andThen (chars_at (sbuf h) i (length xs)) (blit (sbuf h) 0) else Inr (sbuf h)) = Inr b \<and>
    take (length xs) b = xs \<and> length b = length (sbuf h)"
proof -
  obtain r where r: "sbuf h = s @ NULc # r" using h by (rule sds_repE)
  have "chars_at (sbuf h) i (length xs) = Inr xs" using xs by (simp add: chars_at_def r)
  moreover have "blit (sbuf h) 0 xs = Inr (xs @ drop (length xs) (sbuf h))" using xs by (simp add: blit_def r)
  moreover have "take (length xs) (sbuf h) = xs" if "i = 0" using xs that by (simp add: r)
  ultimately show ?thesis using xs by (auto simp: r)
qed

lemma trim_left_ok:
  assumes "i \<le> length s" "\<forall>c \<in> set (take i s). in_cset cset c"
  shows "trim_left cset (s @ q) (int i) (int (length s) - 1) = Inr (int (length (takeWhile (in_cset cset) s)))"
  using assms
proof (induction "length s - i" arbitrary: i)
  case 0
  then have "i = length s" by simp
  moreover from this 0 have "takeWhile (in_cset cset) s = s" by (simp add: takeWhile_eq_all_conv)
  then have "length (takeWhile (in_cset cset) s) = length s" by (rule arg_cong)
  ultimately show ?case by (subst trim_left.simps) simp
next
  case (Suc n)
  then have i: "i < length s" by simp
  show ?case
  proof (cases "in_cset cset (s ! i)")
    case True
    then have "\<forall>c \<in> set (take (Suc i) s). in_cset cset c" using Suc.prems(2) i by (auto simp: take_Suc_conv_app_nth)
    then have "trim_left cset (s @ q) (int (Suc i)) (int (length s) - 1) = Inr (int (length (takeWhile (in_cset cset) s)))"
      using Suc.hyps(1) [of "Suc i"] Suc.hyps(2) i by simp
    then show ?thesis using True i by (subst trim_left.simps) (simp add: nth_append add.commute)
  next
    case False
    have "takeWhile (in_cset cset) (take i s @ s ! i # drop (Suc i) s) = take i s"
      using Suc.prems(2) False by (simp add: takeWhile_append2)
    then have "takeWhile (in_cset cset) s = take i s" by (simp flip: id_take_nth_drop [OF i])
    then show ?thesis using False i by (subst trim_left.simps) (simp add: nth_append)
  qed
qed


lemma trim_right_ok:
  "j < length s \<Longrightarrow> start \<le> j \<Longrightarrow> 
   trim_right cset (s @ q) (int j) (int start) =
     Inr (int (start + length (dropWhile (in_cset cset) (rev (take (j - start) (drop (Suc start) s))))))"
proof (induction "j - start" arbitrary: j)
  case 0
  then show ?case by (subst trim_right.simps) simp
next
  case (Suc n)
  then have j: "start < j" "j < length s" by simp_all
  define D where "D = take (j - 1 - start) (drop (Suc start) s)"
  have e: "take (j - start) (drop (Suc start) s) = D @ [s ! j]"
    using j take_Suc_conv_app_nth [of "j - 1 - start" "drop (Suc start) s"] by (simp add: D_def Suc_diff_Suc)
  have "int j - 1 = int (j - 1)" using j by simp
  then have ih: "trim_right cset (s @ q) (int j - 1) (int start) = Inr (int (start + length (dropWhile (in_cset cset) (rev D))))"
    using Suc.hyps(1) [of "j - 1"] Suc.hyps(2) j unfolding D_def by simp
  have len: "length D = j - 1 - start" using j by (simp add: D_def)
  have "trim_right cset (s @ q) (int j) (int start) =
      (if in_cset cset (s ! j) then trim_right cset (s @ q) (int j - 1) (int start) else Inr (int j))"
    using j by (subst trim_right.simps) (simp add: nth_append)
  then show ?case unfolding e ih using j len by simp
qed


definition trim_spec :: "string \<Rightarrow> string \<Rightarrow> string" where
  "trim_spec cset s = rev (dropWhile (in_cset cset) (rev (dropWhile (in_cset cset) s)))"

lemma trim_bounds:
  assumes "s \<noteq> []" and k: "k = length (takeWhile P s)" and e: "e = length (dropWhile P (rev (tl s)))"
    and m: "m = rev (dropWhile P (rev (dropWhile P s)))"
  shows "if k > e then m = [] else length m = e - k + 1 \<and> take (e - k + 1) (drop k s) = m \<and> e < length s"
proof (cases "dropWhile P s")
  case Nil
  then have all: "\<forall>x \<in> set s. P x" by (simp add: dropWhile_eq_Nil_conv)
  then have "takeWhile P s = s" by (simp add: takeWhile_eq_all_conv)
  then have "k = length s" unfolding k by (rule arg_cong)
  moreover have "\<forall>x \<in> set (rev (tl s)). P x" using all by (auto dest: list.set_sel(2) [OF assms(1)])
  then have "e = 0" unfolding e by (simp add: dropWhile_eq_Nil_conv)
  moreover have "m = []" unfolding m Nil by simp
  ultimately show ?thesis using assms(1) by simp
next
  case (Cons y d')
  let ?d = "dropWhile P s"
  have y: "\<not> P y" using hd_dropWhile [of P s] Cons by simp
  have s: "s = takeWhile P s @ ?d" by simp
  have drop: "drop k s = ?d" by (simp add: k dropWhile_eq_drop)
  have yd: "y \<in> set (rev ?d)" by (simp add: Cons)
  have "dropWhile P (rev s) = dropWhile P (rev ?d @ rev (takeWhile P s))" by (metis rev_append s)
  also have "\<dots> = rev m @ rev (takeWhile P s)" using yd y by (simp add: m dropWhile_append1)
  finally have 1: "length (dropWhile P (rev s)) = length m + k" by (simp add: k)
  have mne: "m \<noteq> []" using yd y by (auto simp: m dropWhile_eq_Nil_conv)
  have s': "rev s = rev (tl s) @ [hd s]" using assms(1) by (metis list.collapse rev.simps(2))
  have 2: "length (dropWhile P (rev s)) = Suc e"
  proof (cases "\<forall>x \<in> set (tl s). P x")
    case True
    then have "e = 0" unfolding e by (simp add: dropWhile_eq_Nil_conv)
    moreover have "y \<in> set (dropWhile P s)" by (simp add: Cons)
    then have "y \<in> set s" by (rule set_dropWhileD)
    then have "\<not> P (hd s)" using True y assms(1) by (cases s) auto
    then have "dropWhile P (rev (tl s) @ [hd s]) = [hd s]" using True by (subst dropWhile_append2) simp_all
    ultimately show ?thesis unfolding s' by simp
  next
    case False
    then obtain x where "x \<in> set (rev (tl s))" "\<not> P x" by auto
    then show ?thesis unfolding s' by (simp add: e dropWhile_append1)
  qed
  have len: "length m + k = Suc e" using 1 2 by simp
  have "rev ?d = takeWhile P (rev ?d) @ rev m" by (simp add: m)
  then have "?d = m @ rev (takeWhile P (rev ?d))" by (metis rev_append rev_rev_ident)
  then have "take (length m) (drop k s) = m" unfolding drop by (metis append_eq_conv_conj)
  moreover have "e < length s" using len 1 2 length_dropWhile_le [of P "rev s"] by simp
  ultimately show ?thesis using len mne by (cases m) auto
qed

lemma sdstrim_ok:
  assumes h: "sds_rep h s" and n: "length s < 2 ^ 31"
  shows "\<exists>h'. sdstrim h cset = Inr h' \<and> sds_rep h' (trim_spec cset s)"
proof -
  let ?P = "in_cset cset"
  obtain r where r: "sbuf h = s @ NULc # r" using h by (rule sds_repE)
  define k where "k = length (takeWhile ?P s)"
  define xs where "xs = trim_spec cset s"
  have left: "trim_left cset (sbuf h) 0 (int (length s) - 1) = Inr (int k)"
    using trim_left_ok [of 0 s cset "NULc # r"] by (simp add: r k_def)
  obtain ep where right: "trim_right cset (sbuf h) (int (length s) - 1) 0 = Inr ep"
    and n: "(if int k > ep then 0 else nat (ep - int k + 1)) = length xs"
    and xs: "k + length xs \<le> length s \<or> xs = []" "take (length xs) (drop k s) = xs"
  proof (cases "s = []")
    case True
    then have "trim_right cset (sbuf h) (int (length s) - 1) 0 = Inr (- 1)" by (subst trim_right.simps) simp
    then show thesis by (rule that) (use True in \<open>simp_all add: xs_def trim_spec_def k_def\<close>)
  next
    case False
    define e where "e = length (dropWhile ?P (rev (tl s)))"
    have t: "take (length s - 1) (drop (Suc 0) s) = tl s" using False by (cases s) simp_all
    have j: "int (length s) - 1 = int (length s - 1)" using False by (cases s) simp_all
    have "trim_right cset (sbuf h) (int (length s) - 1) 0 = Inr (int e)"
      using trim_right_ok [of "length s - 1" s 0 cset "NULc # r"] False t unfolding j by (simp add: r e_def)
    moreover have "xs = rev (dropWhile ?P (rev (dropWhile ?P s)))" by (simp add: xs_def trim_spec_def)
    note b = trim_bounds [OF False k_def e_def this]
    have "k \<le> length s" by (simp add: k_def length_takeWhile_le)
    ultimately show thesis by (intro that) (use b in \<open>auto split: if_splits\<close>)
  qed
  show ?thesis
  proof (cases "xs = []")
    case True
    have "\<exists>b. (if int k \<noteq> 0 then andThen (chars_at (sbuf h) (nat (int k)) 0) (blit (sbuf h) 0) else Inr (sbuf h)) = Inr b \<and> length b = length (sbuf h)"
      using k_def length_takeWhile_le [of ?P s] by (auto simp: chars_at_def blit_def r)
    then obtain b where b: "(if int k \<noteq> 0 then andThen (chars_at (sbuf h) (nat (int k)) 0) (blit (sbuf h) 0) else Inr (sbuf h)) = Inr b" "length b = length (sbuf h)" by blast
    then show ?thesis using sds_cut_rep [OF h, of "[]" b] left right n True
      by (auto simp: sdstrim_def Let_def sds_rep_len [OF h] simp flip: xs_def)
  next
    case False
    then obtain b where b: "(if k \<noteq> 0 then andThen (chars_at (sbuf h) k (length xs)) (blit (sbuf h) 0) else Inr (sbuf h)) = Inr b"
      "take (length xs) b = xs" "length b = length (sbuf h)"
      using move_front [OF h, of k xs] xs by blast
    have le: "length xs \<le> length s" using xs False by auto
    show ?thesis using sds_cut_rep [OF h le b(2,3)] left right n b(1)
      by (auto simp: sdstrim_def Let_def sds_rep_len [OF h] simp flip: xs_def)
  qed
qed


text \<open>A range with Python's reading of negative indices, both ends included.\<close>

definition from_end :: "nat \<Rightarrow> int \<Rightarrow> nat" where
  "from_end n i = (if i < 0 then nat (int n + i) else nat i)"

definition range_spec :: "string \<Rightarrow> int \<Rightarrow> int \<Rightarrow> string" where
  "range_spec s a e = drop (from_end (length s) a) (take (Suc (from_end (length s) e)) s)"

lemma sdsrange_ok:
  assumes h: "sds_rep h s" and n: "length s < 2 ^ 31" and ints: "- (2 ^ 31) \<le> a" "a < 2 ^ 31" "- (2 ^ 31) \<le> e" "e < 2 ^ 31"
  shows "\<exists>h'. sdsrange h a e = Inr h' \<and> sds_rep h' (range_spec s a e)"
proof (cases "s = []")
  case True
  then show ?thesis using h by (simp add: sdsrange_def sds_simp range_spec_def)
next
  case False
  define A where "A = from_end (length s) a"
  define E where "E = from_end (length s) e"
  define xs where "xs = range_spec s a e"
  have l: "0 < length s" using False by simp
  have small: "i32 (int (length s)) = int (length s)" "i32 (int (length s) - 1) = int (length s) - 1"
    using n l by (simp_all add: i32_id)
  have a: "(if a < 0 then let a = i32 (int (length s) + a) in if a < 0 then 0 else a else a) = int A"
    using ints n by (simp add: A_def from_end_def i32_id)
  have e: "(if e < 0 then let e = i32 (int (length s) + e) in if e < 0 then 0 else e else e) = int E"
    using ints n by (simp add: E_def from_end_def i32_id)
  have len: "length xs = min (Suc E) (length s) - A" by (simp add: xs_def range_spec_def A_def E_def)
  define A' where "A' = (if A > E then 0 else A)"
  have rest: "range_bounds (int (length s)) a e = (int A', int (length xs))"
    unfolding range_bounds_def a e using l
    by (auto simp: small len A'_def Let_def min_def of_nat_diff)
  have run: "sdsrange h a e =
      andThen (if A' \<noteq> 0 \<and> length xs \<noteq> 0 then andThen (chars_at (sbuf h) A' (length xs)) (blit (sbuf h) 0) else Inr (sbuf h)) (\<lambda>b.
      andThen (blit b (length xs) [NULc]) (\<lambda>b.
        Inr (h\<lparr>sfree := sfree h + (slen h - of_nat (length xs)), slen := of_nat (length xs), sbuf := b\<rparr>)))"
    using l by (simp add: sdsrange_def sds_rep_len [OF h] rest)
  have le: "length xs \<le> length s" by (simp add: len)
  have "\<exists>b. (if A' \<noteq> 0 \<and> length xs \<noteq> 0 then andThen (chars_at (sbuf h) A' (length xs)) (blit (sbuf h) 0) else Inr (sbuf h)) = Inr b \<and>
      take (length xs) b = xs \<and> length b = length (sbuf h)"
  proof (cases "xs = []")
    case False
    then have "0 < length xs" by simp
    then have "A \<le> E" "A + length xs \<le> length s" using len by (simp_all add: min_def split: if_splits)
    moreover from this have "take (length xs) (drop A s) = xs"
      using False unfolding len by (simp add: xs_def range_spec_def A_def E_def take_drop min_def) 
    moreover have "A' = A" using calculation(1) by (simp add: A'_def)
    then have "(A' \<noteq> 0 \<and> length xs \<noteq> 0) = (A \<noteq> 0)" using False by simp
    ultimately show ?thesis using move_front [OF h, of A xs] \<open>A' = A\<close> by (simp only:)
  qed simp
  then obtain b where b: "(if A' \<noteq> 0 \<and> length xs \<noteq> 0 then andThen (chars_at (sbuf h) A' (length xs)) (blit (sbuf h) 0) else Inr (sbuf h)) = Inr b"
    "take (length xs) b = xs" "length b = length (sbuf h)" by blast
  show ?thesis using sds_cut_rep [OF h le b(2,3)] b(1) unfolding run xs_def [symmetric] by (auto simp del: length_0_conv)
qed

lemma map_from_ok:
  "map_from f [i..<i + k] b = (if i + k \<le> length b \<or> k = 0 then Inr (take i b @ map f (take k (drop i b)) @ drop (i + k) b) else Inl Undefined)"
proof (induction k arbitrary: i b)
  case (Suc k)
  have "[i..<i + Suc k] = i # [Suc i..<Suc i + k]" by (simp add: upt_conv_Cons)
  then show ?case using Suc.IH [of "Suc i" "b[i := f (b ! i)]"]
    by (auto simp: take_Suc_conv_app_nth drop_update_cancel simp flip: Cons_nth_drop_Suc) 
qed simp

lemma map_in_place:
  assumes h: "sds_rep h s"
  shows "\<exists>b. map_from f [0..<sdslen h] (sbuf h) = Inr b \<and> sds_rep (h\<lparr>sbuf := b\<rparr>) (map f s)"
proof -
  obtain r where r: "sbuf h = s @ NULc # r" using h by (rule sds_repE)
  have "map_from f [0..<0 + length s] (sbuf h) = Inr (map f s @ NULc # r)"
    unfolding map_from_ok by (simp add: r)
  then show ?thesis using h r by (simp add: sds_rep_len [OF h]) (simp add: sds_rep_def nth_append)
qed


subsection \<open>Comparison\<close>

text \<open>The order is that of the byte values, a proper prefix first.\<close>

definition byte_less :: "string \<Rightarrow> string \<Rightarrow> bool" where
  "byte_less s t \<longleftrightarrow> ord_class.lexordp (map of_char s :: nat list) (map of_char t)"

lemma of_char_inj: "(of_char a :: nat) = of_char b \<longleftrightarrow> a = b"
  by (metis char_of_char)

lemma memcmp_order:
  "length xs = length ys \<Longrightarrow> memcmp xs ys =
     (if xs = ys then 0 else if byte_less (xs @ zs) (ys @ ws) then - 1 else 1)"
proof (induction xs ys rule: list_induct2)
  case (Cons x xs y ys)
  then show ?case using of_char_inj [of x y] by (cases "x = y") (auto simp: byte_less_def Let_def)
qed simp

lemma byte_less_prefix: "byte_less (xs @ zs) (xs @ ws) \<longleftrightarrow> byte_less zs ws"
  by (induction xs) (simp_all add: byte_less_def)

lemma sdscmp_ok:
  assumes h: "sds_rep h s" "sds_rep g t" and n: "length s < 2 ^ 31" "length t < 2 ^ 31"
  shows "\<exists>r. sdscmp h g = Inr r \<and> (r < 0 \<longleftrightarrow> byte_less s t) \<and> (r = 0 \<longleftrightarrow> s = t)"
proof -
  define m where "m = min (length s) (length t)"
  obtain r where r: "sbuf h = s @ NULc # r" using h(1) by (rule sds_repE)
  obtain q where q: "sbuf g = t @ NULc # q" using h(2) by (rule sds_repE)
  have parts: "chars_at (sbuf h) 0 m = Inr (take m s)" "chars_at (sbuf g) 0 m = Inr (take m t)"
    by (simp_all add: chars_at_def r q m_def)
  have cmp: "memcmp (take m s) (take m t) = (if take m s = take m t then 0 else if byte_less s t then - 1 else 1)"
    using memcmp_order [of "take m s" "take m t" "drop m s" "drop m t"] by (simp add: m_def)
  have m: "(if length s < length t then length s else length t) = m" by (simp add: m_def)
  have run: "sdscmp h g = Inr (if memcmp (take m s) (take m t) = 0 then int (length s) - int (length t) else memcmp (take m s) (take m t))"
    unfolding sdscmp_def Let_def sds_rep_len [OF h(1)] sds_rep_len [OF h(2)] m parts andThen_simps
    using n by (simp add: i32_id)
  show ?thesis
  proof (cases "take m s = take m t")
    case False
    then have "s \<noteq> t" by auto
    then show ?thesis using run cmp False by (cases "byte_less s t") simp_all
  next
    case True
    have "byte_less (take m s @ drop m s) (take m t @ drop m t) \<longleftrightarrow> byte_less (drop m s) (drop m t)"
      unfolding True by (rule byte_less_prefix)
    then have less: "byte_less s t \<longleftrightarrow> drop m s = [] \<and> drop m t \<noteq> []"
      by (cases "drop m s"; cases "drop m t") (auto simp: byte_less_def m_def min_def split: if_splits)
    have "s = t \<longleftrightarrow> length s = length t" using True by (auto simp: m_def)
    then show ?thesis using run cmp True less by (auto simp: m_def)
  qed
qed

end
