(* ===== verification/SdsArgs.thy ===== *)
theory SdsArgs
  imports Sds
begin

text \<open>
  Splitting, joining, quoting and reading back quoted arguments (\<^verbatim>\<open>proxy/sds.c\<close>).  Token
  arrays are lists of strings; their blocks come from \<open>mem\<close> like every other.
\<close>

subsection \<open>Characters\<close>

text \<open>\<open>isprint\<close> and \<open>isspace\<close> of the C locale.\<close>

definition c_isprint :: "char \<Rightarrow> bool" where
  "c_isprint c \<longleftrightarrow> (let n = of_char c :: nat in 32 \<le> n \<and> n \<le> 126)"

definition c_isspace :: "char \<Rightarrow> bool" where
  "c_isspace c \<longleftrightarrow> (let n = of_char c :: nat in n = 32 \<or> 9 \<le> n \<and> n \<le> 13)"

definition is_hex_digit :: "char \<Rightarrow> bool" where
  "is_hex_digit c \<longleftrightarrow> (let n = of_char c :: nat in 48 \<le> n \<and> n \<le> 57 \<or> 97 \<le> n \<and> n \<le> 102 \<or> 65 \<le> n \<and> n \<le> 70)"

definition hex_digit_to_int :: "char \<Rightarrow> nat" where
  "hex_digit_to_int c =
     (let n = of_char c :: nat in
      if 48 \<le> n \<and> n \<le> 57 then n - 48 else if 97 \<le> n \<and> n \<le> 102 then n - 87
      else if 65 \<le> n \<and> n \<le> 70 then n - 55 else 0)"

text \<open>\<open>%02x\<close> of a byte.\<close>

definition hex_lower :: "nat \<Rightarrow> char" where
  "hex_lower n = (if n < 10 then char_of (48 + n) else char_of (87 + n))"

definition hex2 :: "char \<Rightarrow> string" where
  "hex2 c = (let n = of_char c :: nat in [hex_lower (n div 16), hex_lower (n mod 16)])"

subsection \<open>Splitting and joining\<close>

text \<open>
  \<open>NULL\<close> is \<open>None\<close>; \<open>slots\<close> grows by doubling, each growth asks for a block.  The lengths are
  \<open>int\<close>s, no larger than the strings.  With an empty separator, which \<open>sdssplitlen\<close> refuses, the
  loop would find it again and again at the same place.
\<close>

definition split_hit :: "string \<Rightarrow> string \<Rightarrow> nat \<Rightarrow> bool" where
  "split_hit s sep j \<longleftrightarrow> (length sep = 1 \<and> s ! j = sep ! 0) \<or> take (length sep) (drop j s) = sep"

function split_loop :: "blocks \<Rightarrow> string \<Rightarrow> string \<Rightarrow> nat \<Rightarrow> nat \<Rightarrow> nat \<Rightarrow> sdshdr list \<Rightarrow> (sdshdr list \<times> nat) outcome" where
  "split_loop mem s sep slots j start tokens =
     (if sep = [] then Inl Blocked
      else if int j < int (length s) - (int (length sep) - 1) then
        andThen (if slots < length tokens + 2 then map_sum id (\<lambda>_. slots * 2) (of_opt Exit (mem (size_t (8 * (slots * 2))))) else Inr slots) (\<lambda>slots.
          if split_hit s sep j then
            andThen (sdsnewlen mem (Some (drop start s)) (j - start)) (\<lambda>t.
              split_loop mem s sep slots (j + length sep - 1 + 1) (j + length sep) (tokens @ [t]))
          else split_loop mem s sep slots (j + 1) start tokens)
      else Inr (tokens, start))"
  by pat_completeness auto
termination
  by (relation "measure (\<lambda>(_, s, sep, _, j, _, _). length s + 1 - j)") (auto simp flip: length_greater_0_conv)

declare split_loop.simps [simp del]

definition sdssplitlen :: "blocks \<Rightarrow> string \<Rightarrow> string \<Rightarrow> sdshdr list option outcome" where
  "sdssplitlen mem s sep =
     (if length sep < 1 then Inr None
      else
        andThen (of_opt Exit (mem (8 * 5))) (\<lambda>_.
        if length s = 0 then Inr (Some [])
        else
          andThen (split_loop mem s sep 5 0 0 []) (\<lambda>(tokens, start).
          andThen (sdsnewlen mem (Some (drop start s)) (length s - start)) (\<lambda>t. Inr (Some (tokens @ [t]))))))"

text \<open>The loop of \<open>sdsjoin\<close> over the arguments from \<open>j\<close> on.\<close>

fun join_loop :: "blocks \<Rightarrow> string list \<Rightarrow> string \<Rightarrow> sdshdr \<Rightarrow> sdshdr outcome" where
  "join_loop mem [] sep join = Inr join"
| "join_loop mem (arg # args) sep join =
     andThen (sdscat mem join arg) (\<lambda>join.
     andThen (if args \<noteq> [] then sdscat mem join sep else Inr join) (\<lambda>join. join_loop mem args sep join))"

definition sdsjoin :: "blocks \<Rightarrow> string list \<Rightarrow> string \<Rightarrow> sdshdr outcome" where
  "sdsjoin mem argv sep = andThen (sdsempty mem) (join_loop mem argv sep)"

subsection \<open>Quoting\<close>

text \<open>One character of \<open>sdscatrepr\<close>; \<open>staticbuf\<close> is the format buffer of \<open>sdscatprintf\<close>.\<close>

definition cat_repr_char :: "blocks \<Rightarrow> string \<Rightarrow> sdshdr \<Rightarrow> char \<Rightarrow> sdshdr outcome" where
  "cat_repr_char mem staticbuf s c =
     (if c = CHR 0x5C \<or> c = CHR 0x22 then sdscatprintf mem s [CHR 0x5C, CHR ''%'', CHR ''c''] staticbuf [CHR 0x5C, c]
      else if c = CHR 0x0A then sdscatlen mem s [CHR 0x5C, CHR ''n'']
      else if c = CHR 0x0D then sdscatlen mem s [CHR 0x5C, CHR ''r'']
      else if c = CHR 0x09 then sdscatlen mem s [CHR 0x5C, CHR ''t'']
      else if c = CHR 0x07 then sdscatlen mem s [CHR 0x5C, CHR ''a'']
      else if c = CHR 0x08 then sdscatlen mem s [CHR 0x5C, CHR ''b'']
      else if c_isprint c then sdscatprintf mem s ''%c'' staticbuf [c]
      else sdscatprintf mem s (CHR 0x5C # ''x%02x'') staticbuf ([CHR 0x5C, CHR ''x''] @ hex2 c))"

fun repr_loop :: "blocks \<Rightarrow> string \<Rightarrow> sdshdr \<Rightarrow> string \<Rightarrow> sdshdr outcome" where
  "repr_loop mem staticbuf s [] = Inr s"
| "repr_loop mem staticbuf s (c # p) = andThen (cat_repr_char mem staticbuf s c) (\<lambda>s. repr_loop mem staticbuf s p)"

definition sdscatrepr :: "blocks \<Rightarrow> string \<Rightarrow> sdshdr \<Rightarrow> string \<Rightarrow> sdshdr outcome" where
  "sdscatrepr mem staticbuf s p =
     andThen (sdscatlen mem s [CHR 0x22]) (\<lambda>s.
     andThen (repr_loop mem staticbuf s p) (\<lambda>s. sdscatlen mem s [CHR 0x22]))"

subsection \<open>Reading arguments\<close>

text \<open>
  The line is the list of the characters before its \<open>NUL\<close>, \<open>p\<close> what is left of it; \<open>peek p\<close> is
  \<open>*p\<close>.  \<open>inq\<close> and \<open>insq\<close> are never set together.
\<close>

datatype quoting = Plain | Inq | Insq

definition peek :: "string \<Rightarrow> char" where
  "peek p = (case p of [] \<Rightarrow> NULc | c # _ \<Rightarrow> c)"

definition unescape :: "char \<Rightarrow> char" where
  "unescape c = (if c = CHR ''n'' then CHR 0x0A else if c = CHR ''r'' then CHR 0x0D else if c = CHR ''t'' then CHR 0x09
     else if c = CHR ''b'' then CHR 0x08 else if c = CHR ''a'' then CHR 0x07 else c)"

definition hex_byte :: "char \<Rightarrow> char \<Rightarrow> char" where
  "hex_byte a b = char_of (hex_digit_to_int a * 16 + hex_digit_to_int b)"

text \<open>The loop over one token: \<open>None\<close> is the jump to \<open>err\<close>.\<close>

function token_loop :: "blocks \<Rightarrow> quoting \<Rightarrow> string \<Rightarrow> sdshdr \<Rightarrow> (sdshdr \<times> string) option outcome" where
  "token_loop mem Inq [] current = Inr None"
| "token_loop mem Insq [] current = Inr None"
| "token_loop mem Plain [] current = Inr (Some (current, []))"
| "token_loop mem Inq (c # p) current =
     (if c = CHR 0x5C \<and> peek p = CHR ''x'' \<and> is_hex_digit (peek (drop 1 p)) \<and> is_hex_digit (peek (drop 2 p)) then
        andThen (sdscatlen mem current [hex_byte (peek (drop 1 p)) (peek (drop 2 p))]) (\<lambda>current.
          token_loop mem Inq (drop 3 p) current)
      else if c = CHR 0x5C \<and> peek p \<noteq> NULc then
        andThen (sdscatlen mem current [unescape (peek p)]) (\<lambda>current. token_loop mem Inq (drop 1 p) current)
      else if c = CHR 0x22 then
        if peek p \<noteq> NULc \<and> \<not> c_isspace (peek p) then Inr None else Inr (Some (current, p))
      else andThen (sdscatlen mem current [c]) (\<lambda>current. token_loop mem Inq p current))"
| "token_loop mem Insq (c # p) current =
     (if c = CHR 0x5C \<and> peek p = CHR 0x27 then
        andThen (sdscatlen mem current [CHR 0x27]) (\<lambda>current. token_loop mem Insq (drop 1 p) current)
      else if c = CHR 0x27 then
        if peek p \<noteq> NULc \<and> \<not> c_isspace (peek p) then Inr None else Inr (Some (current, p))
      else andThen (sdscatlen mem current [c]) (\<lambda>current. token_loop mem Insq p current))"
| "token_loop mem Plain (c # p) current =
     (if c = CHR '' '' \<or> c = CHR 0x0A \<or> c = CHR 0x0D \<or> c = CHR 0x09 then Inr (Some (current, p))
      else if c = CHR 0x22 then token_loop mem Inq p current
      else if c = CHR 0x27 then token_loop mem Insq p current
      else andThen (sdscatlen mem current [c]) (\<lambda>current. token_loop mem Plain p current))"
  by pat_completeness auto
termination
  by (relation "measure (\<lambda>(_, _, p, _). length p)") auto

declare token_loop.simps [simp del]

lemma token_shorter: "token_loop mem q p current = Inr (Some (t, p')) \<Longrightarrow> length p' \<le> length p - 1"
proof (induction "length p" arbitrary: q p current rule: less_induct)
  case less
  have IH: "length r' \<le> length p - 1" if "token_loop mem q' r x = Inr (Some (t, r'))" "length r < length p" "r' = p'" for q' r x r'
    using less.hyps [of r q' x] that by simp
  show ?case
  proof (cases p)
    case Nil
    then show ?thesis using less.prems by (cases q) (simp_all add: token_loop.simps)
  next
    case (Cons c p1)
    then show ?thesis using less.prems
      by (cases q) (auto simp: token_loop.simps andThen_Inr_iff split: if_splits dest!: IH)
  qed
qed

function args_loop :: "blocks \<Rightarrow> string \<Rightarrow> sdshdr list \<Rightarrow> sdshdr list option outcome" where
  "args_loop mem p vector =
     (let p = dropWhile c_isspace p in
      if p \<noteq> [] then
        andThen (sdsempty mem) (\<lambda>current.
        case token_loop mem Plain p current of
          Inl e \<Rightarrow> Inl e
        | Inr None \<Rightarrow> Inr None
        | Inr (Some (current, p')) \<Rightarrow>
            andThen (of_opt Exit (mem (size_t ((length vector + 1) * 8)))) (\<lambda>_. args_loop mem p' (vector @ [current])))
      else if vector = [] then andThen (of_opt Exit (mem 8)) (\<lambda>_. Inr (Some vector))
      else Inr (Some vector))"
  by pat_completeness auto
termination
  by (relation "measure (\<lambda>(_, p, _). length p)")
    (auto dest!: token_shorter intro!: le_less_trans [OF _ diff_less [THEN less_le_trans [OF _ length_dropWhile_le]]])

declare args_loop.simps [simp del]

definition sdssplitargs :: "blocks \<Rightarrow> string \<Rightarrow> sdshdr list option outcome" where
  "sdssplitargs mem line = args_loop mem line []"

end
