(* ===== verification/SdsQuote.thy ===== *)
theory SdsQuote
  imports SdsRep SdsArgs
begin

text \<open>
  Building strings piece by piece: the formatted append, quoting and reading back quoted
  arguments, splitting and joining.
\<close>

subsection \<open>Builders\<close>

text \<open>
  What the callers of \<open>sdscatlen\<close> rely on: while the allocator works, appending to a string that
  stays below \<open>cap\<close> bytes succeeds and appends.  Loops over pieces follow once and for all.
\<close>

locale string_builder =
  fixes usable :: "'m \<Rightarrow> bool" and rep :: "'h \<Rightarrow> string \<Rightarrow> bool" and cat :: "'m \<Rightarrow> 'h \<Rightarrow> string \<Rightarrow> 'h outcome" and cap :: nat
  assumes cat_rep: "usable m \<Longrightarrow> rep h s \<Longrightarrow> length s + length t < cap \<Longrightarrow> \<exists>h'. cat m h t = Inr h' \<and> rep h' (s @ t)"
begin

text \<open>A call that appends \<open>enc x\<close>, and a loop of such calls.\<close>

definition appends :: "'m \<Rightarrow> ('h \<Rightarrow> 'h outcome) \<Rightarrow> string \<Rightarrow> bool" where
  "appends m f t \<longleftrightarrow> (\<forall>h s. rep h s \<longrightarrow> length s + length t < cap \<longrightarrow> (\<exists>h'. f h = Inr h' \<and> rep h' (s @ t)))"

lemma appends_cat: "usable m \<Longrightarrow> appends m (\<lambda>h. cat m h t) t"
  by (simp add: appends_def cat_rep)

lemma appendsD: "appends m f t \<Longrightarrow> rep h s \<Longrightarrow> length s + length t < cap \<Longrightarrow> \<exists>h'. f h = Inr h' \<and> rep h' (s @ t)"
  by (simp add: appends_def)

lemma appends_nothing: "appends m Inr []"
  by (simp add: appends_def)

lemma appends_then: "appends m f t \<Longrightarrow> appends m g u \<Longrightarrow> appends m (\<lambda>h. andThen (f h) g) (t @ u)"
  unfolding appends_def by (intro allI impI) (metis andThen_simps(2) append_assoc length_append add.assoc add_lessD1)

lemma appends_if:
  "(P \<Longrightarrow> appends m f t) \<Longrightarrow> (\<not> P \<Longrightarrow> appends m g u) \<Longrightarrow>
    appends m (\<lambda>h. if P then f h else g h) (if P then t else u)"
  by simp

lemma appends_all:
  assumes "\<And>x. x \<in> set xs \<Longrightarrow> appends m (\<lambda>h. f h x) (enc x)"
    and "\<And>h. loop [] h = Inr h" and "\<And>x ys h. loop (x # ys) h = andThen (f h x) (loop ys)"
  shows "appends m (loop xs) (concat (map enc xs))"
  using assms(1)
proof (induction xs)
  case Nil
  then show ?case using appends_nothing assms(2) by (simp add: appends_def)
next
  case (Cons x xs)
  then show ?case using appends_then [of m "\<lambda>h. f h x" "enc x" "loop xs"] by (simp add: assms(3) [abs_def])
qed

end

interpretation sds: string_builder mem_ok sds_rep sdscatlen "2 ^ 31"
  by unfold_locales (rule sdscatlen_ok)


subsection \<open>The formatted append\<close>

lemma vsnprintf_all:
  assumes "length out + 1 \<le> length b"
  shows "vsnprintf_to b out = Inr (out @ NULc # drop (length out + 1) b)"
  using assms by (simp add: vsnprintf_to_def blit_def)

lemma vsnprintf_part:
  assumes "length b \<le> length out" "b \<noteq> []"
  shows "vsnprintf_to b out = Inr (take (length b - 1) out @ [NULc])"
  using assms by (cases b) (auto simp: vsnprintf_to_def blit_def)

lemma try_format_fits:
  assumes "length out + 2 \<le> length b"
  shows "\<exists>r. try_format b out = Inr (out @ NULc # r, False) \<and> length (out @ NULc # r) = length b"
proof -
  define b' where "b' = take (length b - 2) b @ [NULc] @ drop (length b - 2 + 1) b"
  have b': "blit b (length b - 2) [NULc] = Inr b'" "length b' = length b" "b' ! (length b - 2) = NULc"
    using assms by (simp_all add: blit_def b'_def nth_append)
  obtain j where j: "length b = length out + Suc (Suc j)" using assms by (metis add_2_eq_Suc' add_Suc_right le_iff_add add_Suc_shift)
  have "(out @ NULc # drop (length out + 1) b') ! (length out + j) = NULc"
    using b'(2,3) j by (cases j) (simp_all add: nth_append)
  then have "(out @ NULc # drop (length out + 1) b') ! (length b - 2) = NULc"
    using b'(2) j by simp
  moreover have "length (out @ NULc # drop (length out + 1) b') = length b" using assms b'(2) by simp
  moreover have "vsnprintf_to b' out = Inr (out @ NULc # drop (length out + 1) b')"
    using assms b'(2) by (intro vsnprintf_all) simp
  ultimately show ?thesis
    unfolding try_format_def b'(1) andThen_simps
    by (intro exI [of _ "drop (length out + 1) b'"]) simp
qed

lemma try_format_full:
  assumes "length b \<le> length out + 1" "2 \<le> length b" "NULc \<notin> set out"
  shows "\<exists>b'. try_format b out = Inr (b', True) \<and> length b' = length b"
proof -
  define b' where "b' = take (length b - 2) b @ [NULc] @ drop (length b - 2 + 1) b"
  have b': "blit b (length b - 2) [NULc] = Inr b'" "length b' = length b"
    using assms by (simp_all add: blit_def b'_def)
  define b'' where "b'' = take (length b - 1) out @ [NULc]"
  have v: "vsnprintf_to b' out = Inr b''" "length b'' = length b"
    using assms b'(2) by (simp_all add: vsnprintf_to_def blit_def b''_def)
  obtain k where k: "length b = Suc (Suc k)" using assms(2) by (metis add_2_eq_Suc le_iff_add)
  then have "b'' ! (length b - 2) = out ! (length b - 2)" using assms by (simp add: b''_def nth_append)
  moreover have "length b - 2 < length out" using assms by simp
  ultimately have "b'' ! (length b - 2) \<noteq> NULc" using assms(3) by (metis nth_mem)
  then show ?thesis using b' v by (simp add: try_format_def)
qed

lemma format_loop_ok:
  assumes mem: "mem_ok mem" and out: "NULc \<notin> set out" "length out < 2 ^ 32"
  shows "length out + 2 \<le> length b * 2 ^ n \<Longrightarrow> 2 \<le> length b \<Longrightarrow> n < fuel \<Longrightarrow>
    \<exists>r. format_loop fuel mem b out = Inr (out @ NULc # r)"
proof (induction fuel arbitrary: b n)
  case (Suc fuel)
  show ?case
  proof (cases "length out + 2 \<le> length b")
    case True
    then show ?thesis using try_format_fits [OF True] by auto
  next
    case False
    then obtain b' where b': "try_format b out = Inr (b', True)" "length b' = length b"
      using try_format_full [of b out] Suc.prems out by auto
    obtain m where m: "n = Suc m" using False Suc.prems by (cases n) auto
    have "size_t (length b * 2) = length b * 2" using False out by (simp add: size_t_def)
    then obtain c where c: "mem (size_t (length b' * 2)) = Some c" "length c = length b * 2"
      using mem b'(2) by (auto simp: mem_ok_def)
    have "\<exists>r. format_loop fuel mem c out = Inr (out @ NULc # r)"
      using Suc.IH [of c m] Suc.prems c m by (simp add: mult.assoc)
    then show ?thesis using b' c by simp
  qed
qed simp

lemma strlen_of_text: "NULc \<notin> set out \<Longrightarrow> strlen_of (out @ NULc # r) = Inr (length out)"
  by (simp add: strlen_of_def takeWhile_append)

text \<open>Whatever the length of the text, the buffer grows to hold it and the text is appended.\<close>

lemma sdscatvprintf_appends:
  assumes mem: "mem_ok mem" and out: "NULc \<notin> set out" and st: "2 \<le> length staticbuf"
  shows "sds.appends mem (\<lambda>h. sdscatvprintf mem h fmt staticbuf out) out"
  unfolding sds.appends_def
proof (intro allI impI)
  fix h s assume h: "sds_rep h s" and n: "length s + length out < 2 ^ 31"
  obtain b where b: "(if length fmt * 2 > length staticbuf then of_opt Exit (mem (length fmt * 2)) else Inr staticbuf) = Inr b" "2 \<le> length b"
    using spec [OF mem [unfolded mem_ok_def], of "length fmt * 2"] st
    by (cases "length fmt * 2 > length staticbuf") auto
  have "2 * 2 ^ 32 \<le> length b * 2 ^ 32" using b(2) by (intro mult_le_mono1)
  then have "length out + 2 \<le> length b * 2 ^ 32" using n by simp
  then obtain r where "format_loop 64 mem b out = Inr (out @ NULc # r)"
    using format_loop_ok [OF mem out, of b 32 64] b(2) n by auto
  then show "\<exists>h'. sdscatvprintf mem h fmt staticbuf out = Inr h' \<and> sds_rep h' (s @ out)"
    using b(1) sdscatlen_ok [OF mem h n] by (simp add: sdscatvprintf_def Let_def strlen_of_text [OF out] sdscat_def)
qed


subsection \<open>Quoting\<close>

definition quote_char :: "char \<Rightarrow> string" where
  "quote_char c =
     (if c = CHR 0x5C \<or> c = CHR 0x22 then [CHR 0x5C, c]
      else if c = CHR 0x0A then [CHR 0x5C, CHR ''n'']
      else if c = CHR 0x0D then [CHR 0x5C, CHR ''r'']
      else if c = CHR 0x09 then [CHR 0x5C, CHR ''t'']
      else if c = CHR 0x07 then [CHR 0x5C, CHR ''a'']
      else if c = CHR 0x08 then [CHR 0x5C, CHR ''b'']
      else if c_isprint c then [c]
      else [CHR 0x5C, CHR ''x''] @ hex2 c)"

definition quoted :: "string \<Rightarrow> string" where
  "quoted x = [CHR 0x22] @ concat (map quote_char x) @ [CHR 0x22]"

lemma hex_lower_digit: "n < 16 \<Longrightarrow> is_hex_digit (hex_lower n) \<and> hex_digit_to_int (hex_lower n) = n"
  by (simp add: hex_lower_def is_hex_digit_def hex_digit_to_int_def)

lemma hex_digit_not_NUL: "is_hex_digit c \<Longrightarrow> c \<noteq> NULc"
  by (auto simp: is_hex_digit_def)

lemma hex2_props:
  obtains a b where "hex2 c = [a, b]" "is_hex_digit a" "is_hex_digit b" "hex_byte a b = c"
proof
  let ?n = "of_char c :: nat"
  have n: "?n div 16 < 16" "?n mod 16 < 16" using nat_of_char_less_256 by (auto simp: less_mult_imp_div_less)
  show "hex2 c = [hex_lower (?n div 16), hex_lower (?n mod 16)]" by (simp add: hex2_def Let_def)
  show "hex_byte (hex_lower (?n div 16)) (hex_lower (?n mod 16)) = c"
    using hex_lower_digit [OF n(1)] hex_lower_digit [OF n(2)] by (simp add: hex_byte_def)
  show "is_hex_digit (hex_lower (?n div 16))" "is_hex_digit (hex_lower (?n mod 16))"
    using hex_lower_digit [OF n(1)] hex_lower_digit [OF n(2)] by simp_all
qed

lemma NUL_not_printable: "\<not> c_isprint NULc"
  by (simp add: c_isprint_def)

lemma quote_char_no_NUL: "NULc \<notin> set (quote_char c)"
  by (rule hex2_props [of c]) (use NUL_not_printable hex_digit_not_NUL in \<open>auto simp: quote_char_def\<close>)

lemma quoted_no_NUL: "NULc \<notin> set (quoted x)"
  using quote_char_no_NUL by (auto simp: quoted_def)

lemma length_quote_char: "length (quote_char c) \<le> 4"
  by (simp add: quote_char_def hex2_def Let_def)

lemma length_quoted: "length (quoted x) \<le> 4 * length x + 2"
proof (induction x)
  case (Cons c x)
  then show ?case using length_quote_char [of c] by (simp add: quoted_def)
qed (simp add: quoted_def)

lemma cat_repr_char_appends:
  assumes mem: "mem_ok mem" and st: "2 \<le> length staticbuf"
  shows "sds.appends mem (\<lambda>h. cat_repr_char mem staticbuf h c) (quote_char c)"
  using quote_char_no_NUL [of c]
  unfolding cat_repr_char_def quote_char_def sdscatprintf_def
  by (intro sds.appends_if sdscatvprintf_appends [OF mem _ st] sds.appends_cat [OF mem]) simp_all

lemma sdscatrepr_appends:
  assumes "mem_ok mem" "2 \<le> length staticbuf"
  shows "sds.appends mem (\<lambda>h. sdscatrepr mem staticbuf h x) (quoted x)"
  unfolding sdscatrepr_def quoted_def
  by (intro sds.appends_then sds.appends_cat assms(1)
      sds.appends_all [where f = "cat_repr_char mem staticbuf"] cat_repr_char_appends assms(2)) simp_all

subsection \<open>Reading back\<close>

lemma token_quote_char:
  "token_loop mem Inq (quote_char c @ p) h = andThen (sdscatlen mem h [c]) (token_loop mem Inq p)"
proof -
  obtain a b where ab: "hex2 c = [a, b]" "is_hex_digit a" "is_hex_digit b" "hex_byte a b = c" by (rule hex2_props)
  show ?thesis
    by (simp add: quote_char_def token_loop.simps peek_def unescape_def ab)
qed

lemma token_quoted:
  assumes mem: "mem_ok mem" and p: "p = [] \<or> c_isspace (hd p)"
  shows "sds_rep h s \<Longrightarrow> length s + length x < 2 ^ 31 \<Longrightarrow>
    \<exists>h'. token_loop mem Inq (concat (map quote_char x) @ CHR 0x22 # p) h = Inr (Some (h', p)) \<and> sds_rep h' (s @ x)"
proof (induction x arbitrary: h s)
  case Nil
  then show ?case using p by (cases p) (auto simp: token_loop.simps peek_def)
next
  case (Cons c x)
  obtain h' where h': "sdscatlen mem h [c] = Inr h'" "sds_rep h' (s @ [c])"
    using sdscatlen_ok [OF mem, of h s "[c]"] Cons.prems by auto
  show ?case using Cons.IH [OF h'(2)] Cons.prems h' by (simp add: token_quote_char)
qed

end
