(* ===== verification/SdsTokens.thy ===== *)
theory SdsTokens
  imports SdsQuote
begin

text \<open>
  Joining, splitting and reading arguments: the round trips.
\<close>

subsection \<open>Joining\<close>

fun joined :: "string \<Rightarrow> string list \<Rightarrow> string" where
  "joined sep [] = []"
| "joined sep [x] = x"
| "joined sep (x # y # ys) = x @ sep @ joined sep (y # ys)"

lemma joined_Cons: "joined sep (x # xs) = x @ (if xs = [] then [] else sep @ joined sep xs)"
  by (cases xs) simp_all

lemma joined_snoc: "joined sep (xs @ [x]) = concat (map (\<lambda>t. t @ sep) xs) @ x"
  by (induction xs) (simp_all add: joined_Cons)

text \<open>The characters of a string before its first \<open>NUL\<close>: what a caller of C string functions sees.\<close>

definition c_string :: "sdshdr \<Rightarrow> string" where
  "c_string h = takeWhile (\<lambda>c. c \<noteq> NULc) (sbuf h)"

lemma c_string_rep:
  assumes "sds_rep h s" and "NULc \<notin> set s"
  shows "c_string h = s"
proof -
  obtain r where "sbuf h = s @ NULc # r" using assms(1) by (rule sds_repE)
  then show ?thesis using assms(2) by (simp add: c_string_def takeWhile_append)
qed

lemma c_strings_rep: "list_all2 sds_rep hs xs \<Longrightarrow> NULc \<notin> set (concat xs) \<Longrightarrow> map c_string hs = xs"
  by (induction rule: list_all2_induct) (simp_all add: c_string_rep)

lemma join_loop_appends:
  assumes mem: "mem_ok mem"
  shows "sds.appends mem (join_loop mem xs sep) (joined sep xs)"
proof (induction xs)
  case Nil
  have "join_loop mem [] sep = Inr" by (rule ext) simp
  then show ?case using sds.appends_nothing [of mem] by simp
next
  case (Cons x xs)
  have "sds.appends mem (\<lambda>h. if xs \<noteq> [] then sdscatlen mem h sep else Inr h) (if xs \<noteq> [] then sep else [])"
    by (intro sds.appends_if sds.appends_cat [OF mem] sds.appends_nothing)
  from sds.appends_then [OF this Cons.IH]
  have "sds.appends mem (\<lambda>h. andThen (sdscatlen mem h x) (\<lambda>h. andThen (if xs \<noteq> [] then sdscatlen mem h sep else Inr h) (join_loop mem xs sep)))
    (x @ (if xs \<noteq> [] then sep else []) @ joined sep xs)"
    using sds.appends_then [OF sds.appends_cat [OF mem, of x]] by blast
  moreover have "x @ (if xs \<noteq> [] then sep else []) @ joined sep xs = joined sep (x # xs)" by (simp add: joined_Cons)
  moreover have "join_loop mem (x # xs) sep =
      (\<lambda>h. andThen (sdscatlen mem h x) (\<lambda>h. andThen (if xs \<noteq> [] then sdscatlen mem h sep else Inr h) (join_loop mem xs sep)))"
    unfolding join_loop.simps sdscat_def by (rule refl)
  ultimately show ?case by simp
qed

lemma sdsempty_ok: "mem_ok mem \<Longrightarrow> \<exists>h. sdsempty mem = Inr h \<and> sds_rep h []"
  using sdsnewlen_ok [of mem "[]"] by (auto simp: sdsempty_def)

lemma sdsjoin_ok:
  assumes "mem_ok mem" and "length (joined sep xs) < 2 ^ 31"
  shows "\<exists>h. sdsjoin mem xs sep = Inr h \<and> sds_rep h (joined sep xs)"
proof -
  obtain h where h: "sdsempty mem = Inr h" "sds_rep h []" using sdsempty_ok [OF assms(1)] by blast
  then show ?thesis
    using sds.appendsD [OF join_loop_appends [OF assms(1), of xs sep] h(2)] assms(2) by (simp add: sdsjoin_def)
qed

subsection \<open>Splitting\<close>

lemma split_hit_take: "split_hit s sep j \<Longrightarrow> j + length sep \<le> length s \<Longrightarrow> take (length sep) (drop j s) = sep"
  unfolding split_hit_def
  by (auto simp: take_Suc_conv_app_nth length_Suc_conv Cons_nth_drop_Suc [symmetric])

lemma sdsnewlen_token:
  assumes "mem_ok mem" "start + n \<le> length s" "length s < 2 ^ 31"
  shows "\<exists>h. sdsnewlen mem (Some (drop start s)) n = Inr h \<and> sds_rep h (take n (drop start s))"
proof -
  let ?t = "take n (drop start s)"
  have l: "length ?t = n" using assms(2) by simp
  have "sdsnewlen mem (Some (drop start s)) n = sdsnewlen mem (Some ?t) (length ?t)"
    unfolding sdsnewlen_def l by (simp cong: if_cong)
  moreover obtain h where "sdsnewlen mem (Some ?t) (length ?t) = Inr h" "sds_rep h ?t"
  proof -
    have "length ?t < 2 ^ 32" using assms(2,3) unfolding l by simp
    then show thesis using sdsnewlen_ok [OF assms(1), of ?t] that by blast
  qed
  ultimately show ?thesis by auto
qed

lemma split_loop_ok:
  assumes mem: "mem_ok mem" and sep: "sep \<noteq> []" and s: "length s < 2 ^ 31"
  shows "start \<le> j \<Longrightarrow> start \<le> length s \<Longrightarrow> list_all2 sds_rep hs ts \<Longrightarrow> concat (map (\<lambda>t. t @ sep) ts) @ drop start s = s \<Longrightarrow>
    \<exists>hs' ts' start'. split_loop mem s sep slots j start hs = Inr (hs', start') \<and> start' \<le> length s \<and>
      list_all2 sds_rep hs' ts' \<and> concat (map (\<lambda>t. t @ sep) ts') @ drop start' s = s"
proof (induction "length s + 1 - j" arbitrary: slots j start hs ts rule: less_induct)
  case less
  show ?case
  proof (cases "int j < int (length s) - (int (length sep) - 1)")
    case False
    then show ?thesis using less.prems sep by (subst split_loop.simps) auto
  next
    case in_range: True
    then have j: "j + length sep \<le> length s" by linarith
    obtain slots' where slots': "(if slots < length hs + 2 then map_sum id (\<lambda>_. slots * 2) (of_opt Exit (mem (size_t (8 * (slots * 2))))) else Inr slots) = (Inr slots' :: nat outcome)"
      using spec [OF mem [unfolded mem_ok_def], of "size_t (8 * (slots * 2))"] by (cases "slots < length hs + 2") auto
    show ?thesis
    proof (cases "split_hit s sep j")
      case False
      have "length s + 1 - (j + 1) < length s + 1 - j" using j by simp
      from less.hyps [OF this _ less.prems(2-4), of slots'] less.prems(1)
      show ?thesis using in_range slots' False sep by (subst split_loop.simps) simp
    next
      case True
      let ?t = "take (j - start) (drop start s)"
      obtain h where h: "sdsnewlen mem (Some (drop start s)) (j - start) = Inr h" "sds_rep h ?t"
        using sdsnewlen_token [OF mem _ s, of start "j - start"] less.prems(1) j by auto
      have pos: "0 < length sep" using sep by simp
      have "drop start s = ?t @ drop j s" using less.prems(1) by (metis append_take_drop_id drop_drop le_add_diff_inverse2)
      also have "drop j s = sep @ drop (j + length sep) s"
        using split_hit_take [OF True j] by (metis append_take_drop_id drop_drop add.commute)
      finally have "concat (map (\<lambda>t. t @ sep) (ts @ [?t])) @ drop (j + length sep) s = s" using less.prems(4) by simp
      moreover have "list_all2 sds_rep (hs @ [h]) (ts @ [?t])" using less.prems(3) h(2) by (simp add: list_all2_appendI)
      moreover have "length s + 1 - (j + length sep) < length s + 1 - j" using j pos by linarith
      moreover have "j + length sep - 1 + 1 = j + length sep" using pos by simp
      ultimately show ?thesis
        using less.hyps [of "j + length sep" "j + length sep" "hs @ [h]" "ts @ [?t]" slots'] j in_range slots' True sep h(1)
        by (subst split_loop.simps) simp
    qed
  qed
qed

lemma sdssplitlen_ok:
  assumes mem: "mem_ok mem" and sep: "sep \<noteq> []" and s: "length s < 2 ^ 31"
  shows "\<exists>hs ts. sdssplitlen mem s sep = Inr (Some hs) \<and> list_all2 sds_rep hs ts \<and> joined sep ts = s"
proof (cases "s = []")
  case True
  moreover obtain b where "mem 40 = Some b" using mem by (auto simp: mem_ok_def)
  ultimately show ?thesis using sep by (auto simp: sdssplitlen_def Suc_le_eq intro!: exI [of _ "[]"])
next
  case False
  obtain hs ts start where l: "split_loop mem s sep 5 0 0 [] = Inr (hs, start)" "start \<le> length s"
    "list_all2 sds_rep hs ts" "concat (map (\<lambda>t. t @ sep) ts) @ drop start s = s"
    using split_loop_ok [OF assms, of 0 0 "[]" "[]" 5] by auto
  obtain h where h: "sdsnewlen mem (Some (drop start s)) (length s - start) = Inr h" "sds_rep h (drop start s)"
    using sdsnewlen_token [OF mem _ s, of start "length s - start"] l(2) by auto
  obtain b where "mem (8 * 5) = Some b" using mem by (auto simp: mem_ok_def)
  then have "sdssplitlen mem s sep = Inr (Some (hs @ [h]))" using sep False l(1) h(1) by (simp add: sdssplitlen_def)
  moreover have "list_all2 sds_rep (hs @ [h]) (ts @ [drop start s])" using l(3) h(2) by (simp add: list_all2_appendI)
  moreover have "joined sep (ts @ [drop start s]) = s" using l(4) by (simp add: joined_snoc)
  ultimately show ?thesis by blast
qed

subsection \<open>Arguments\<close>

lemma args_loop_space: "c_isspace c \<Longrightarrow> args_loop mem (c # p) v = args_loop mem p v"
  by (subst (1 2) args_loop.simps) simp

lemma args_loop_quoted:
  assumes mem: "mem_ok mem" and p: "p = [] \<or> c_isspace (hd p)" and n: "length x < 2 ^ 31"
  shows "\<exists>h. args_loop mem (quoted x @ p) v = args_loop mem p (v @ [h]) \<and> sds_rep h x"
proof -
  obtain h0 where h0: "sdsempty mem = Inr h0" "sds_rep h0 []" using sdsempty_ok [OF mem] by blast
  obtain h where h: "token_loop mem Inq (concat (map quote_char x) @ CHR 0x22 # p) h0 = Inr (Some (h, p))" "sds_rep h x"
    using token_quoted [OF mem p h0(2)] n by auto
  obtain b where b: "mem (size_t ((length v + 1) * 8)) = Some b" using mem by (auto simp: mem_ok_def)
  have q: "quoted x @ p = CHR 0x22 # concat (map quote_char x) @ CHR 0x22 # p" by (simp add: quoted_def)
  have "token_loop mem Plain (quoted x @ p) h0 = Inr (Some (h, p))"
    unfolding q using h(1) by (simp add: token_loop.simps)
  moreover have "dropWhile c_isspace (quoted x @ p) = quoted x @ p" by (simp add: q c_isspace_def)
  ultimately have "args_loop mem (quoted x @ p) v = args_loop mem p (v @ [h])"
    using h0 b by (subst args_loop.simps) (simp add: q)
  then show ?thesis using h(2) by blast
qed

lemma args_loop_joined:
  assumes mem: "mem_ok mem"
  shows "\<forall>x \<in> set xs. length x < 2 ^ 31 \<Longrightarrow>
    \<exists>hs. args_loop mem (joined '' '' (map quoted xs)) v = Inr (Some (v @ hs)) \<and> list_all2 sds_rep hs xs"
proof (induction xs arbitrary: v)
  case Nil
  obtain b where "mem 8 = Some b" using mem by (auto simp: mem_ok_def)
  then show ?case by (subst args_loop.simps) simp
next
  case (Cons x xs)
  define p where "p = (if xs = [] then '''' else '' '' @ joined '' '' (map quoted xs))"
  have "p = [] \<or> c_isspace (hd p)" by (simp add: p_def c_isspace_def)
  then obtain h where h: "args_loop mem (quoted x @ p) v = args_loop mem p (v @ [h])" "sds_rep h x"
    using args_loop_quoted [OF mem] Cons.prems by (metis list.set_intros(1))
  have "args_loop mem p (v @ [h]) = args_loop mem (joined '' '' (map quoted xs)) (v @ [h])"
    by (simp add: p_def args_loop_space c_isspace_def)
  moreover obtain hs where "args_loop mem (joined '' '' (map quoted xs)) (v @ [h]) = Inr (Some ((v @ [h]) @ hs))" "list_all2 sds_rep hs xs"
    using Cons by (metis list.set_intros(2))
  moreover have "joined '' '' (map quoted (x # xs)) = quoted x @ p" by (simp add: joined_Cons p_def)
  ultimately show ?case using h by (intro exI [of _ "h # hs"]) simp
qed

lemma joined_quoted: "NULc \<notin> set (joined '' '' (map quoted xs))" "length (joined '' '' (map quoted xs)) \<le> (\<Sum>x\<leftarrow>xs. 4 * length x + 3)"
proof (induction xs)
  case (Cons x xs)
  { case 1 then show ?case using Cons quoted_no_NUL [of x] by (simp add: joined_Cons) }
  { case 2 then show ?case using Cons length_quoted [of x] by (simp add: joined_Cons) }
qed simp_all

end
