(* ===== verification/SdsFormat.thy ===== *)
theory SdsFormat
  imports SdsTokens
begin

text \<open>
  Printed numbers and \<open>sdscatfmt\<close>, and the behaviour of whole sequences of operations on one
  string.
\<close>

subsection \<open>Decimal numbers\<close>

lemma decimal_nonempty: "decimal n \<noteq> []"
  by (simp add: decimal.simps)

lemma length_decimal: "n < 10 ^ k \<Longrightarrow> 0 < k \<Longrightarrow> length (decimal n) \<le> k"
proof (induction n arbitrary: k rule: decimal.induct)
  case (1 n)
  show ?case
  proof (cases "n < 10")
    case True
    then show ?thesis using 1 by (simp add: decimal.simps)
  next
    case False
    then obtain k' where k: "k = Suc k'" "0 < k'" using 1 by (cases k; cases "k - 1") auto
    moreover have "n div 10 < 10 ^ k'" using 1 k by (simp add: less_mult_imp_div_less mult.commute)
    ultimately show ?thesis using 1(1) False by (subst decimal.simps) simp
  qed
qed

definition signed_decimal :: "int \<Rightarrow> string" where
  "signed_decimal i = (if i < 0 then ''-'' @ decimal (nat (- i)) else decimal (nat i))"

text \<open>The loop writes the digits backwards.\<close>

lemma ll_digits_ok:
  "p + length (decimal v) \<le> length b \<Longrightarrow>
    ll_digits v b p = Inr (take p b @ rev (decimal v) @ drop (p + length (decimal v)) b, p + length (decimal v))"
proof (induction v arbitrary: b p rule: decimal.induct)
  case (1 v)
  show ?case
  proof (cases "v < 10")
    case True
    then have "decimal v = [char_of (48 + v)]" by (simp add: decimal.simps)
    then show ?thesis using 1(2) True by (simp add: ll_digits.simps [of v] blit_def)
  next
    case False
    then have d: "decimal v = decimal (v div 10) @ [char_of (48 + v mod 10)]" by (simp add: decimal.simps [of v])
    define b' where "b' = take p b @ [char_of (48 + v mod 10)] @ drop (p + 1) b"
    have p: "p < length b" using 1(2) d by simp
    have "blit b p [char_of (48 + v mod 10)] = Inr b'" using p by (simp add: blit_def b'_def)
    moreover have "ll_digits (v div 10) b' (p + 1) = Inr (take (p + 1) b' @ rev (decimal (v div 10)) @
        drop (p + 1 + length (decimal (v div 10))) b', p + 1 + length (decimal (v div 10)))"
      using 1(1) [OF False, of "p + 1" b'] 1(2) p d by (simp add: b'_def)
    moreover have "take (p + 1) b' = take p b @ [char_of (48 + v mod 10)]" using p by (simp add: b'_def)
    moreover have "drop (p + 1 + length (decimal (v div 10))) b' = drop (p + length (decimal v)) b"
      using p d by (simp add: b'_def add.commute)
    moreover have "v div 10 \<noteq> 0" using False by (simp add: div_eq_0_iff)
    ultimately show ?thesis using False d by (simp add: ll_digits.simps [of v] Let_def)
  qed
qed

lemma ll_reverse_ok:
  "m \<noteq> [] \<Longrightarrow> ll_reverse (xs @ m @ ys) (length xs) (length xs + length m - 1) = xs @ rev m @ ys"
proof (induction "length m" arbitrary: m xs ys rule: less_induct)
  case less
  show ?case
  proof (cases "length m = 1")
    case True
    then show ?thesis by (cases m) (auto simp: ll_reverse.simps)
  next
    case False
    then obtain c m1 where m1: "m = c # m1" "m1 \<noteq> []" using less.prems by (cases m) auto
    then obtain m2 d where m: "m = c # m2 @ [d]" by (metis rev_exhaust)
    define b where "b = xs @ m @ ys"
    have at: "b ! length xs = c" "b ! (length xs + length m - 1) = d"
      by (simp_all add: b_def m nth_append)
    have "b[length xs := d, length xs + length m - 1 := c] = (xs @ [d]) @ m2 @ (c # ys)"
      by (simp add: b_def m list_update_append)
    then have step: "ll_reverse b (length xs) (length xs + length m - 1) =
        ll_reverse ((xs @ [d]) @ m2 @ (c # ys)) (length (xs @ [d])) (length xs + length m - 2)"
      using at by (subst ll_reverse.simps) (simp add: m)
    show ?thesis
    proof (cases "m2 = []")
      case True
      then show ?thesis using step by (simp add: b_def m ll_reverse.simps)
    next
      case m2: False
      have "length xs + length m - 2 = length (xs @ [d]) + length m2 - 1" using m2 by (simp add: m)
      then show ?thesis using step less.hyps [of m2 "xs @ [d]" "c # ys"] m2 by (simp add: b_def m)
    qed
  qed
qed

lemma sdsull2str_ok:
  assumes "SDS_LLSTR_SIZE \<le> length buf"
  shows "\<exists>b. sdsull2str buf v = Inr (b, length (decimal (unat v))) \<and>
    chars_at b 0 (length (decimal (unat v))) = Inr (decimal (unat v))"
proof -
  let ?d = "decimal (unat v)"
  have "unat v < 10 ^ 20" using unsigned_less [of v, where 'a = nat] by simp
  then have l: "length ?d < length buf" using length_decimal [of "unat v" 20] assms by (simp add: SDS_LLSTR_SIZE_def)
  have "ll_digits (unat v) buf 0 = Inr (rev ?d @ drop (length ?d) buf, length ?d)"
    using ll_digits_ok [of 0 "unat v" buf] l by simp
  moreover have "blit (rev ?d @ drop (length ?d) buf) (length ?d) [NULc] = Inr (rev ?d @ NULc # drop (Suc (length ?d)) buf)"
    using l by (simp add: blit_def)
  moreover have "ll_reverse (rev ?d @ NULc # drop (Suc (length ?d)) buf) 0 (length ?d - 1) = ?d @ NULc # drop (Suc (length ?d)) buf"
    using ll_reverse_ok [of "rev ?d" "[]"] decimal_nonempty by simp
  ultimately show ?thesis by (simp add: sdsull2str_def chars_at_def)
qed

lemma unat_neg_word: "sint v < 0 \<Longrightarrow> unat (- v) = nat (- sint v)" for v :: "64 word"
proof -
  assume neg: "sint v < 0"
  have "unat (word_of_int (- sint v) :: 64 word) = nat (take_bit 64 (- sint v))" by (simp only: unsigned_of_int) simp
  then have "unat (- v) = nat (take_bit 64 (- sint v))" by simp
  moreover have "take_bit 64 (- sint v) = - sint v"
    using neg sint_ge [of v] by (intro take_bit_int_eq_self) simp_all
  ultimately show ?thesis by simp
qed

lemma unat_pos_word: "0 \<le> sint v \<Longrightarrow> unat v = nat (sint v)" for v :: "64 word"
proof -
  assume pos: "0 \<le> sint v"
  have "unat (word_of_int (sint v) :: 64 word) = nat (take_bit 64 (sint v))" by (simp only: unsigned_of_int) simp
  then have "unat v = nat (take_bit 64 (sint v))" by simp
  moreover have "take_bit 64 (sint v) = sint v"
    using pos sint_lt [of v] by (intro take_bit_int_eq_self) simp_all
  ultimately show ?thesis by simp
qed

lemma sdsll2str_ok:
  assumes "SDS_LLSTR_SIZE \<le> length buf"
  shows "\<exists>b. sdsll2str buf v = Inr (b, length (signed_decimal (sint v))) \<and>
    chars_at b 0 (length (signed_decimal (sint v))) = Inr (signed_decimal (sint v))"
proof (cases "sint v < 0")
  case False
  then have "sdsll2str buf v = sdsull2str buf v" "signed_decimal (sint v) = decimal (unat v)"
    by (simp_all add: sdsll2str_def sdsull2str_def signed_decimal_def unat_pos_word)
  then show ?thesis using sdsull2str_ok [OF assms, of v] by simp
next
  case True
  let ?d = "decimal (unat (- v))"
  have sd: "signed_decimal (sint v) = ''-'' @ ?d" using True by (simp add: signed_decimal_def unat_neg_word)
  have "- (2 ^ 63) \<le> sint v" using sint_ge [of v] by simp
  then have "unat (- v) < 10 ^ 19" using True by (simp add: unat_neg_word)
  then have l: "Suc (length ?d) < length buf" using length_decimal [of "unat (- v)" 19] assms by (simp add: SDS_LLSTR_SIZE_def)
  define r where "r = drop (Suc (Suc (length ?d))) buf"
  have "ll_digits (unat (- v)) buf 0 = Inr (rev ?d @ drop (length ?d) buf, length ?d)"
    using ll_digits_ok [of 0 "unat (- v)" buf] l by simp
  moreover have "blit (rev ?d @ drop (length ?d) buf) (length ?d) ''-'' = Inr (rev ?d @ ''-'' @ drop (Suc (length ?d)) buf)"
    using l by (simp add: blit_def)
  moreover have "blit (rev ?d @ ''-'' @ drop (Suc (length ?d)) buf) (length ?d + 1) [NULc] = Inr ((rev ?d @ ''-'') @ NULc # r)"
    using l by (simp add: blit_def r_def)
  moreover have "ll_reverse ((rev ?d @ ''-'') @ NULc # r) 0 (length ?d + 1 - 1) = (''-'' @ ?d) @ NULc # r"
    using ll_reverse_ok [of "rev ?d @ ''-''" "[]" "NULc # r"] by simp
  ultimately have "sdsll2str buf v = Inr ((''-'' @ ?d) @ NULc # r, length ?d + 1)"
    using True by (simp add: sdsll2str_def)
  then show ?thesis by (simp add: sd chars_at_def)
qed


subsection \<open>The formatted append of mixed arguments\<close>

definition arg_spec :: "char \<Rightarrow> fmt_arg \<Rightarrow> string \<Rightarrow> bool" where
  "arg_spec next a t \<longleftrightarrow>
     (case a of
        ArgStr str \<Rightarrow> next = CHR ''s'' \<and> t = str
      | ArgSds h \<Rightarrow> next = CHR ''S'' \<and> sds_rep h t
      | ArgInt x \<Rightarrow> next = CHR ''i'' \<and> t = signed_decimal (sint x)
      | ArgLong x \<Rightarrow> next = CHR ''I'' \<and> t = signed_decimal (sint x)
      | ArgUint x \<Rightarrow> next = CHR ''u'' \<and> t = decimal (unat x)
      | ArgUlong x \<Rightarrow> next = CHR ''U'' \<and> t = decimal (unat x))"

text \<open>\<open>fmt_spec f args out\<close>: the format \<open>f\<close> with the arguments \<open>args\<close> means the text \<open>out\<close>.\<close>

inductive fmt_spec :: "string \<Rightarrow> fmt_arg list \<Rightarrow> string \<Rightarrow> bool" where
  fmt_end: "fmt_spec [] args []"
| fmt_arg: "next \<in> set ''sSiIuU'' \<Longrightarrow> arg_spec next a t \<Longrightarrow> fmt_spec f args out \<Longrightarrow>
    fmt_spec (CHR ''%'' # next # f) (a # args) (t @ out)"
| fmt_esc: "next \<notin> set ''sSiIuU'' \<Longrightarrow> fmt_spec f args out \<Longrightarrow> fmt_spec (CHR ''%'' # next # f) args (next # out)"
| fmt_char: "c \<noteq> CHR ''%'' \<Longrightarrow> fmt_spec f args out \<Longrightarrow> fmt_spec (c # f) args (c # out)"

lemma arg_text_ok:
  assumes "arg_spec next a t" and buf: "SDS_LLSTR_SIZE \<le> length buf"
  shows "arg_text buf next a = Inr t"
proof (cases a)
  case (ArgSds h)
  then have h: "sds_rep h t" and n: "next = CHR ''S''" using assms(1) by (simp_all add: arg_spec_def)
  obtain r where "sbuf h = t @ NULc # r" using h by (rule sds_repE)
  then show ?thesis by (simp add: arg_text_def ArgSds n sds_rep_len [OF h] chars_at_def)
next
  case (ArgInt x)
  have "sint (scast x :: 64 word) = sint x" by (simp add: sint_up_scast is_up)
  then show ?thesis using assms(1) sdsll2str_ok [OF buf, of "scast x"] by (auto simp: arg_text_def arg_spec_def ArgInt)
next
  case (ArgLong x)
  then show ?thesis using assms(1) sdsll2str_ok [OF buf, of x] by (auto simp: arg_text_def arg_spec_def)
next
  case (ArgUint x)
  have "unat (ucast x :: 64 word) = unat x" by (simp add: unsigned_ucast_eq take_bit_nat_eq_self order_less_trans [OF unsigned_less [where 'a = nat]])
  then show ?thesis using assms(1) sdsull2str_ok [OF buf, of "ucast x"] by (auto simp: arg_text_def arg_spec_def ArgUint)
next
  case (ArgUlong x)
  then show ?thesis using assms(1) sdsull2str_ok [OF buf, of x] by (auto simp: arg_text_def arg_spec_def)
qed (use assms(1) in \<open>simp add: arg_text_def arg_spec_def\<close>)

lemma open_write:
  assumes h: "sds_open h s" and n: "length t \<le> sdsavail h" "length s + length t < 2 ^ 31"
  shows "\<exists>b. blit (sbuf h) (length s) t = Inr b \<and>
    sds_open (h\<lparr>slen := slen h + of_nat (length t), sfree := sfree h - of_nat (length t), sbuf := b\<rparr>) (s @ t)"
proof -
  have l: "unat (slen h) = length s" "length (sbuf h) = length s + unat (sfree h) + 1" "length s + unat (sfree h) < 2 ^ 32"
    "take (length s) (sbuf h) = s" using h by (simp_all add: sds_open_def)
  have t: "unat (of_nat (length t) :: 32 word) = length t" using n(2) by (simp add: sds_simp)
  have "unat (slen h + of_nat (length t)) = length s + length t" "unat (sfree h - of_nat (length t)) = unat (sfree h) - length t"
    using n l t by (simp_all add: unat_plus32 unat_minus32 sdsavail_def)
  then show ?thesis using n l by (simp add: blit_def sds_open_def sdsavail_def)
qed

lemma put_char_ok:
  assumes "sds_open h s" "sdsavail h \<noteq> 0" "length s + 1 < 2 ^ 31"
  shows "\<exists>h'. put_char h (length s) c = Inr (h', length (s @ [c])) \<and> sds_open h' (s @ [c])"
  using open_write [OF assms(1), of "[c]"] assms(2,3) by (auto simp: put_char_def)

lemma appstopat_ok:
  assumes mem: "mem_ok mem" and h: "sds_open h s" and n: "length s + length t < 2 ^ 31"
  shows "\<exists>h'. appstopat mem h (length s) t = Inr (h', length (s @ t)) \<and> sds_open h' (s @ t)"
proof -
  obtain g where g: "(if sdsavail h < length t then sdsMakeRoomFor mem h (length t) else Inr h) = Inr g" "sds_open g s" "length t \<le> sdsavail g"
    using sdsMakeRoomFor_open [OF mem h n] h by (cases "sdsavail h < length t") auto
  show ?thesis using open_write [OF g(2,3) n] g(1) by (auto simp: appstopat_def Let_def)
qed

lemma fmt_loop_ok:
  assumes mem: "mem_ok mem" and buf: "SDS_LLSTR_SIZE \<le> length buf"
  shows "fmt_spec f args out \<Longrightarrow> sds_open h s \<Longrightarrow> length s + length out + 1 < 2 ^ 31 \<Longrightarrow>
    \<exists>h'. fmt_loop mem buf f args h (length s) = Inr (h', length (s @ out)) \<and> sds_open h' (s @ out)"
proof (induction arbitrary: h s rule: fmt_spec.induct)
  case (fmt_end args)
  then show ?case by simp
next
  case (fmt_arg nxt a t f args out)
  obtain g where g: "(if sdsavail h = 0 then sdsMakeRoomFor mem h 1 else Inr h) = Inr g" "sds_open g s"
    using sdsMakeRoomFor_open [OF mem fmt_arg.prems(1), of 1] fmt_arg.prems by (cases "sdsavail h = 0") auto
  obtain g' where g': "appstopat mem g (length s) t = Inr (g', length (s @ t))" "sds_open g' (s @ t)"
    using appstopat_ok [OF mem g(2), of t] fmt_arg.prems by auto
  from fmt_arg.IH [OF g'(2)] fmt_arg.prems
  show ?case using g(1) g'(1) fmt_arg.hyps(1) arg_text_ok [OF fmt_arg.hyps(2) buf] by simp
next
  case (fmt_esc nxt f args out)
  obtain g where g: "(if sdsavail h = 0 then sdsMakeRoomFor mem h 1 else Inr h) = Inr g" "sds_open g s" "sdsavail g \<noteq> 0"
    using sdsMakeRoomFor_open [OF mem fmt_esc.prems(1), of 1] fmt_esc.prems by (cases "sdsavail h = 0") auto
  obtain g' where g': "put_char g (length s) nxt = Inr (g', length (s @ [nxt]))" "sds_open g' (s @ [nxt])"
    using put_char_ok [OF g(2,3), of nxt] fmt_esc.prems by auto
  from fmt_esc.IH [OF g'(2)] fmt_esc.prems show ?case using g(1) g'(1) fmt_esc.hyps(1) by simp
next
  case (fmt_char c f args out)
  obtain g where g: "(if sdsavail h = 0 then sdsMakeRoomFor mem h 1 else Inr h) = Inr g" "sds_open g s" "sdsavail g \<noteq> 0"
    using sdsMakeRoomFor_open [OF mem fmt_char.prems(1), of 1] fmt_char.prems by (cases "sdsavail h = 0") auto
  obtain g' where g': "put_char g (length s) c = Inr (g', length (s @ [c]))" "sds_open g' (s @ [c])"
    using put_char_ok [OF g(2,3), of c] fmt_char.prems by auto
  from fmt_char.IH [OF g'(2)] fmt_char.prems show ?case using g(1) g'(1) fmt_char.hyps(1) by simp
qed

lemma sdscatfmt_ok:
  assumes "mem_ok mem" and buf: "SDS_LLSTR_SIZE \<le> length buf" and h: "sds_rep h s"
    and f: "fmt_spec f args out" and n: "length s + length out + 1 < 2 ^ 31"
  shows "\<exists>h'. sdscatfmt mem h buf f args = Inr h' \<and> sds_rep h' (s @ out)"
proof -
  have "sds_open h s" using h by (simp add: sds_rep_open)
  then obtain g where g: "fmt_loop mem buf f args h (length s) = Inr (g, length (s @ out))" "sds_open g (s @ out)"
    using fmt_loop_ok [OF assms(1) buf f] n by blast
  then have "blit (sbuf g) (length (s @ out)) [NULc] = Inr ((s @ out) @ NULc # drop (length (s @ out) + 1) (sbuf g))"
    by (simp add: sds_open_def blit_def)
  moreover from g(2) have "sds_rep (g\<lparr>sbuf := (s @ out) @ NULc # drop (length (s @ out) + 1) (sbuf g)\<rparr>) (s @ out)"
    by (simp add: sds_open_def sds_rep_def nth_append)
  ultimately show ?thesis using g(1) by (simp add: sdscatfmt_def sds_rep_len [OF h])
qed

end
