(* ===== verification/SdsSpec.thy ===== *)
theory SdsSpec
  imports SdsFormat
begin

text \<open>
  What the library of dynamic strings promises: a sequence of operations computes the list
  functions, quoting and splitting can be undone, numbers and formats print what they mean.
\<close>

subsection \<open>Sequences of operations\<close>

datatype sds_op =
  Cat string | Cpy string | Clear | GrowZero nat | RemoveFree | UpdateLen | Trim string | Range int int
| Lower | Upper | MapChars string string | Repr string | Printf string string | Format string "fmt_arg list" string

fun sds_step :: "blocks \<Rightarrow> string \<Rightarrow> sdshdr \<Rightarrow> sds_op \<Rightarrow> sdshdr outcome" where
  "sds_step mem buf h (Cat t) = sdscatlen mem h t"
| "sds_step mem buf h (Cpy t) = sdscpylen mem h t"
| "sds_step mem buf h Clear = sdsclear h"
| "sds_step mem buf h (GrowZero n) = sdsgrowzero mem h n"
| "sds_step mem buf h RemoveFree = sdsRemoveFreeSpace mem h"
| "sds_step mem buf h UpdateLen = sdsupdatelen h"
| "sds_step mem buf h (Trim cset) = sdstrim h cset"
| "sds_step mem buf h (Range a e) = sdsrange h a e"
| "sds_step mem buf h Lower = sdstolower h"
| "sds_step mem buf h Upper = sdstoupper h"
| "sds_step mem buf h (MapChars f t) = sdsmapchars h f t (length f)"
| "sds_step mem buf h (Repr x) = sdscatrepr mem buf h x"
| "sds_step mem buf h (Printf fmt out) = sdscatprintf mem h fmt buf out"
| "sds_step mem buf h (Format fmt args out) = sdscatfmt mem h buf fmt args"

text \<open>
  The same on lists.  For the formatted appends the operation carries the text that the format
  and its arguments mean.
\<close>

fun list_step :: "string \<Rightarrow> sds_op \<Rightarrow> string" where
  "list_step s (Cat t) = s @ t"
| "list_step s (Cpy t) = t"
| "list_step s Clear = []"
| "list_step s (GrowZero n) = s @ replicate (n - length s) NULc"
| "list_step s RemoveFree = s"
| "list_step s UpdateLen = takeWhile (\<lambda>c. c \<noteq> NULc) s"
| "list_step s (Trim cset) = trim_spec cset s"
| "list_step s (Range a e) = range_spec s a e"
| "list_step s Lower = map to_lower s"
| "list_step s Upper = map to_upper s"
| "list_step s (MapChars f t) = map (map_char f t) s"
| "list_step s (Repr x) = s @ quoted x"
| "list_step s (Printf fmt out) = s @ out"
| "list_step s (Format fmt args out) = s @ out"

text \<open>The bytes an operation can add, and what a caller must respect.\<close>

fun op_room :: "sds_op \<Rightarrow> nat" where
  "op_room (Cat t) = length t"
| "op_room (Cpy t) = length t"
| "op_room (GrowZero n) = n"
| "op_room (Repr x) = 4 * length x + 2"
| "op_room (Printf fmt out) = length out"
| "op_room (Format fmt args out) = length out + 1"
| "op_room _ = 0"

fun op_valid :: "sds_op \<Rightarrow> bool" where
  "op_valid (Range a e) = (- (2 ^ 31) \<le> a \<and> a < 2 ^ 31 \<and> - (2 ^ 31) \<le> e \<and> e < 2 ^ 31)"
| "op_valid (MapChars f t) = (length f = length t)"
| "op_valid (Printf fmt out) = (NULc \<notin> set out)"
| "op_valid (Format fmt args out) = fmt_spec fmt args out"
| "op_valid _ = True"

lemma list_step_room: "length (list_step s op) \<le> length s + op_room op"
proof (cases op)
  case (Trim cset)
  then show ?thesis by (simp add: trim_spec_def le_trans [OF length_dropWhile_le])
next
  case (Repr x)
  then show ?thesis using length_quoted [of x] by simp
qed (auto simp: range_spec_def length_takeWhile_le)

lemma sds_step_ok:
  assumes mem: "mem_ok mem" and buf: "SDS_LLSTR_SIZE \<le> length buf" and h: "sds_rep h s" and valid: "op_valid op"
    and n: "length s + op_room op < 2 ^ 31"
  shows "\<exists>h'. sds_step mem buf h op = Inr h' \<and> sds_rep h' (list_step s op)"
proof -
  have st: "2 \<le> length buf" using buf by (simp add: SDS_LLSTR_SIZE_def)
  have s: "length s < 2 ^ 31" using n by simp
  show ?thesis
  proof (cases op)
    case (Cat t)
    then show ?thesis using sdscatlen_ok [OF mem h] n by simp
  next
    case (Cpy t)
    then show ?thesis using sdscpylen_ok [OF mem h s] n by simp
  next
    case (GrowZero m)
    then show ?thesis using sdsgrowzero_ok [OF mem h _ s] n by simp
  next
    case RemoveFree
    then show ?thesis using sdsRemoveFreeSpace_ok [OF mem h] by auto
  next
    case (Range a e)
    then show ?thesis using sdsrange_ok [OF h s] valid by simp
  next
    case Lower
    then show ?thesis using map_in_place [OF h, of to_lower] by (auto simp: sdstolower_def)
  next
    case Upper
    then show ?thesis using map_in_place [OF h, of to_upper] by (auto simp: sdstoupper_def)
  next
    case (MapChars f t)
    then show ?thesis using map_in_place [OF h, of "map_char f t"] valid by (auto simp: sdsmapchars_def)
  next
    case (Repr x)
    then show ?thesis
      using sds.appendsD [OF sdscatrepr_appends [OF mem st] h, of x] length_quoted [of x] n by simp
  next
    case (Printf fmt out)
    then show ?thesis
      using sds.appendsD [OF sdscatvprintf_appends [OF mem _ st] h, of out fmt] valid n by (simp add: sdscatprintf_def)
  next
    case (Format fmt args out)
    then show ?thesis using sdscatfmt_ok [OF mem buf h, of fmt args out] valid n by simp
  qed (use sdsclear_ok [OF h] sdsupdatelen_ok [OF h] sdstrim_ok [OF h s] in simp_all)
qed

fun sds_run :: "blocks \<Rightarrow> string \<Rightarrow> sds_op list \<Rightarrow> sdshdr \<Rightarrow> sdshdr outcome" where
  "sds_run mem buf [] h = Inr h"
| "sds_run mem buf (op # ops) h = andThen (sds_step mem buf h op) (sds_run mem buf ops)"

lemma sds_run_ok:
  assumes mem: "mem_ok mem" and buf: "SDS_LLSTR_SIZE \<le> length buf"
  shows "sds_rep h s \<Longrightarrow> list_all op_valid ops \<Longrightarrow> length s + sum_list (map op_room ops) < 2 ^ 31 \<Longrightarrow>
    \<exists>h'. sds_run mem buf ops h = Inr h' \<and> sds_rep h' (foldl list_step s ops)"
proof (induction ops arbitrary: h s)
  case (Cons op ops)
  obtain g where g: "sds_step mem buf h op = Inr g" "sds_rep g (list_step s op)"
    using sds_step_ok [OF mem buf Cons.prems(1), of op] Cons.prems by auto
  show ?case using Cons.IH [OF g(2)] Cons.prems list_step_room [of s op] g(1) by simp
qed simp

text \<open>
  C12.  While memory lasts, any sequence of operations on a fresh string (appends, copies, cuts,
  case changes, formatted and quoted appends) that could not reach 2 GiB succeeds, and the string
  holds what the same operations make of a list of bytes, embedded NUL bytes included, with
  length, free space and the ending NUL right.
\<close>

theorem sds_operations_refine_lists:
  assumes "mem_ok mem" and "SDS_LLSTR_SIZE \<le> length buf" and "list_all op_valid ops" and "sum_list (map op_room ops) < 2 ^ 31"
  shows "\<exists>h. andThen (sdsempty mem) (sds_run mem buf ops) = Inr h \<and> sds_rep h (foldl list_step [] ops)"
proof -
  obtain h where "sdsempty mem = Inr h" "sds_rep h []" using sdsempty_ok [OF assms(1)] by blast
  then show ?thesis using sds_run_ok [OF assms(1,2) _ assms(3)] assms(4) by simp
qed

abbreviation new_blocks :: blocks where "new_blocks \<equiv> \<lambda>n. Some (replicate n CHR ''?'')"

abbreviation big_buf :: string where "big_buf \<equiv> replicate 1024 CHR ''!''"

lemma new_blocks_ok: "mem_ok new_blocks"
  by (simp add: mem_ok_def)

lemma big_buf_ok: "SDS_LLSTR_SIZE \<le> length big_buf"
  by (simp add: SDS_LLSTR_SIZE_def)

abbreviation demo_ops :: "sds_op list" where
  "demo_ops \<equiv> [Cat ''  Hello '', Format ''%i%%'' [ArgInt (- 5)] ''-5%'', Trim '' '', Upper, Range (- 6) (- 2), Repr [NULc]]"

lemma demo_ops_valid: "list_all op_valid demo_ops"
proof -
  have five: "char_of (53 :: nat) = CHR ''5''" by code_simp
  have "fmt_spec ''%i%%'' [ArgInt (- 5)] (''-5'' @ [CHR ''%''])"
    by (intro fmt_spec.intros) (simp_all add: arg_spec_def signed_decimal_def decimal.simps five)
  then show ?thesis by simp
qed

theorem sds_operations_refine_lists_witness:
  "\<exists>h. andThen (sdsempty new_blocks) (sds_run new_blocks big_buf demo_ops) = Inr h \<and>
     sds_rep h (foldl list_step [] demo_ops) \<and> foldl list_step [] demo_ops = ''LO -5'' @ quoted [NULc]"
proof -
  have "foldl list_step [] demo_ops = ''LO -5'' @ quoted [NULc]" by code_simp
  moreover have "\<exists>h. andThen (sdsempty new_blocks) (sds_run new_blocks big_buf demo_ops) = Inr h \<and> sds_rep h (foldl list_step [] demo_ops)"
    by (rule sds_operations_refine_lists [OF new_blocks_ok big_buf_ok demo_ops_valid]) simp
  ultimately show ?thesis by (simp only:) simp
qed


subsection \<open>Round trips\<close>

text \<open>
  C13.  Any byte strings, quoted one by one by \<open>sdscatrepr\<close> and joined with blanks by \<open>sdsjoin\<close>,
  are read back by \<open>sdssplitargs\<close> unchanged: control characters, quotes, NUL bytes and all.  The
  line is shorter than 2 GiB and the allocator does not fail.
\<close>

theorem quoted_arguments_read_back:
  assumes mem: "mem_ok mem" and buf: "2 \<le> length buf" and n: "(\<Sum>x\<leftarrow>xs. 4 * length x + 3) < 2 ^ 31"
  shows "\<exists>qs line hs.
    list_all2 (\<lambda>x q. andThen (sdsempty mem) (\<lambda>s. sdscatrepr mem buf s x) = Inr q) xs qs \<and>
    sdsjoin mem (map c_string qs) '' '' = Inr line \<and>
    sdssplitargs mem (c_string line) = Inr (Some hs) \<and> list_all2 sds_rep hs xs"
proof -
  have small: "\<forall>x \<in> set xs. 4 * length x + 3 < 2 ^ 31"
  proof
    fix x assume "x \<in> set xs"
    then have "4 * length x + 3 \<le> (\<Sum>x\<leftarrow>xs. 4 * length x + 3)" by (intro member_le_sum_list) auto
    then show "4 * length x + 3 < 2 ^ 31" using n by simp
  qed
  obtain h0 where h0: "sdsempty mem = Inr h0" "sds_rep h0 []" using sdsempty_ok [OF mem] by blast
  have "\<exists>q. andThen (sdsempty mem) (\<lambda>s. sdscatrepr mem buf s x) = Inr q \<and> sds_rep q (quoted x)" if "x \<in> set xs" for x
    using sds.appendsD [OF sdscatrepr_appends [OF mem buf] h0(2), of x] length_quoted [of x] small that h0(1) by fastforce
  then obtain q where q: "\<forall>x \<in> set xs. andThen (sdsempty mem) (\<lambda>s. sdscatrepr mem buf s x) = Inr (q x) \<and> sds_rep (q x) (quoted x)"
    by metis
  let ?line = "joined '' '' (map quoted xs)"
  have "map c_string (map q xs) = map quoted xs" using q quoted_no_NUL by (auto simp: c_string_rep)
  moreover obtain line where line: "sdsjoin mem (map quoted xs) '' '' = Inr line" "sds_rep line ?line"
    using sdsjoin_ok [OF mem, of "'' ''" "map quoted xs"] joined_quoted(2) [of xs] n by auto
  moreover have "c_string line = ?line" using line(2) joined_quoted(1) by (rule c_string_rep)
  moreover have "list_all2 (\<lambda>x q. andThen (sdsempty mem) (\<lambda>s. sdscatrepr mem buf s x) = Inr q) xs (map q xs)"
    using q by (simp add: list_all2_conv_all_nth)
  moreover obtain hs where "sdssplitargs mem ?line = Inr (Some hs)" "list_all2 sds_rep hs xs"
  proof -
    have "\<forall>x \<in> set xs. length x < 2 ^ 31" using small by fastforce
    then show thesis using args_loop_joined [OF mem, of xs "[]"] that by (auto simp: sdssplitargs_def)
  qed
  ultimately show ?thesis by metis
qed

theorem quoted_arguments_read_back_witness:
  "\<exists>qs line hs.
    list_all2 (\<lambda>x q. andThen (sdsempty new_blocks) (\<lambda>s. sdscatrepr new_blocks big_buf s x) = Inr q) [''say'', [CHR 0x22, NULc, CHR 0xFF], ''''] qs \<and>
    sdsjoin new_blocks (map c_string qs) '' '' = Inr line \<and>
    sdssplitargs new_blocks (c_string line) = Inr (Some hs) \<and> list_all2 sds_rep hs [''say'', [CHR 0x22, NULc, CHR 0xFF], '''']"
  by (rule quoted_arguments_read_back [OF new_blocks_ok]) simp_all

text \<open>
  Splitting a string without NUL bytes at a separator and joining the tokens with the same
  separator gives the string back.
\<close>

theorem split_tokens_join_back:
  assumes mem: "mem_ok mem" and sep: "sep \<noteq> []" "NULc \<notin> set sep" and s: "NULc \<notin> set s" "length s < 2 ^ 31"
  shows "\<exists>hs h. sdssplitlen mem s sep = Inr (Some hs) \<and> sdsjoin mem (map c_string hs) sep = Inr h \<and> sds_rep h s"
proof -
  obtain hs ts where ts: "sdssplitlen mem s sep = Inr (Some hs)" "list_all2 sds_rep hs ts" "joined sep ts = s"
    using sdssplitlen_ok [OF mem sep(1) s(2)] by blast
  have "set (concat ts) \<subseteq> set (joined sep ts)" by (induction ts) (auto simp: joined_Cons)
  then have "map c_string hs = ts" using c_strings_rep [OF ts(2)] ts(3) s(1) by blast
  then show ?thesis using sdsjoin_ok [OF mem, of sep ts] ts s(2) by auto
qed

theorem split_tokens_join_back_witness:
  "\<exists>hs h. sdssplitlen new_blocks ''foo_-_bar_-__-'' ''_-_'' = Inr (Some hs) \<and>
     sdsjoin new_blocks (map c_string hs) ''_-_'' = Inr h \<and> sds_rep h ''foo_-_bar_-__-''"
  by (rule split_tokens_join_back [OF new_blocks_ok]) simp_all

subsection \<open>Bounds\<close>

text \<open>
  The free space is a 32-bit field, the new size is computed in 64 bits: asked for room for
  4 GiB less 1 MiB, \<open>sdsMakeRoomFor\<close> gets a block of 4 GiB and records no free space at all.  (The
  refinement of the lists above is therefore stated for strings below 2 GiB.)
\<close>

theorem room_wraps_at_four_gib:
  assumes "mem_ok mem" and "sds_rep h []" and "sdsavail h < 2 ^ 32 - SDS_MAX_PREALLOC"
  shows "\<exists>h'. sdsMakeRoomFor mem h (2 ^ 32 - SDS_MAX_PREALLOC) = Inr h' \<and> length (sbuf h') = 2 ^ 32 + 1 \<and> sdsavail h' = 0"
proof -
  define N :: nat where "N = 2 ^ 32"
  obtain b where b: "hdr_block mem N = Inr b" "length b = N + 1"
    using hdr_block_ok [OF assms(1), of N] by (auto simp: N_def)
  have len: "slen h = 0" "sdslen h = 0" "length (sbuf h) \<le> length b"
    using assms(2,3) b(2) by (simp_all add: sds_rep_def sdslen_def sdsavail_def N_def unsigned_eq_0_iff)
  have big: "size_t (0 + (N - SDS_MAX_PREALLOC)) = N - SDS_MAX_PREALLOC" "\<not> N - SDS_MAX_PREALLOC < SDS_MAX_PREALLOC"
    "size_t (N - SDS_MAX_PREALLOC + SDS_MAX_PREALLOC) = N"
    by (simp_all add: size_t_def N_def SDS_MAX_PREALLOC_def)
  have "sdsMakeRoomFor mem h (N - SDS_MAX_PREALLOC) =
      Inr (h\<lparr>sfree := of_nat N - slen h, sbuf := take (length b) (sbuf h) @ drop (length (sbuf h)) b\<rparr>)"
    using assms(3) b(1) unfolding sdsMakeRoomFor_def Let_def len(2) big(1) if_not_P [OF big(2)] big(3)
    by (simp add: N_def)
  moreover have "(of_nat N :: 32 word) = 0" by (simp add: N_def)
  ultimately show ?thesis
    using b(2) len by (simp add: sdsavail_def) (simp add: N_def)
qed

theorem room_wraps_at_four_gib_witness:
  "\<exists>h'. sdsMakeRoomFor new_blocks \<lparr>slen = 0, sfree = 0, sbuf = [NULc]\<rparr> (2 ^ 32 - SDS_MAX_PREALLOC) = Inr h' \<and>
     length (sbuf h') = 2 ^ 32 + 1 \<and> sdsavail h' = 0"
  by (rule room_wraps_at_four_gib [OF new_blocks_ok]) (simp_all add: sds_rep_def sdsavail_def SDS_MAX_PREALLOC_def)

end
