(* ===== verification/Zmalloc.thy ===== *)
theory Zmalloc
  imports Prelude
begin

text \<open>
  The counting allocator of \<^verbatim>\<open>proxy/zmalloc.c\<close>, as it is compiled: without
  \<open>HAVE_MALLOC_SIZE\<close>, each block starts with eight bytes that hold its size.  The blocks of
  \<open>malloc\<close> are a finite store from addresses to the size in the prefix and the bytes behind it;
  \<open>malloc\<close> and \<open>realloc\<close> themselves are parameters that answer an address and the bytes found
  there, or nothing.  The pointers handed out lie eight bytes behind a block's address, \<open>NULL\<close> is
  0.  An access to a block that is not live is \<open>Undefined\<close>.
\<close>

subsection \<open>The state\<close>

type_synonym zaddr = nat

record zstate =
  used_memory :: "64 word"
  zmalloc_thread_safe :: bool
  oom_handler_returns :: bool
  zlive :: "zaddr \<rightharpoonup> 64 word \<times> string"

definition zinit :: zstate where
  "zinit = \<lparr>used_memory = 0, zmalloc_thread_safe = False, oom_handler_returns = False, zlive = Map.empty\<rparr>"

definition PREFIX_SIZE :: nat where "PREFIX_SIZE = 8"

type_synonym libc_malloc = "zstate \<Rightarrow> nat \<Rightarrow> (zaddr \<times> string) option"
type_synonym libc_realloc = "zstate \<Rightarrow> zaddr \<Rightarrow> nat \<Rightarrow> (zaddr \<times> string) option"

text \<open>What the C library promises of the blocks it answers.\<close>

definition blocks_fresh :: "libc_malloc \<Rightarrow> bool" where
  "blocks_fresh mal \<longleftrightarrow>
     (\<forall>h n p b. mal h n = Some (p, b) \<longrightarrow> p \<noteq> 0 \<and> p \<notin> dom (zlive h) \<and> length b = n)"

definition realloc_moves :: "libc_realloc \<Rightarrow> bool" where
  "realloc_moves rea \<longleftrightarrow>
     (\<forall>h q n p b. rea h q n = Some (p, b) \<longrightarrow> p \<noteq> 0 \<and> (p = q \<or> p \<notin> dom (zlive h)) \<and> length b = n)"

subsection \<open>The count\<close>

text \<open>Both macros round up to a multiple of \<open>sizeof(long)\<close>, in \<open>size_t\<close> arithmetic.\<close>

definition pad_long :: "64 word \<Rightarrow> 64 word" where
  "pad_long n = (if n mod 8 \<noteq> 0 then n + (8 - n mod 8) else n)"

definition update_zmalloc_stat_alloc :: "64 word \<Rightarrow> zstate \<Rightarrow> zstate" where
  "update_zmalloc_stat_alloc n h = h\<lparr>used_memory := used_memory h + pad_long n\<rparr>"

definition update_zmalloc_stat_free :: "64 word \<Rightarrow> zstate \<Rightarrow> zstate" where
  "update_zmalloc_stat_free n h = h\<lparr>used_memory := used_memory h - pad_long n\<rparr>"

definition prefix :: "64 word" where "prefix = of_nat PREFIX_SIZE"

text \<open>The default handler aborts; after one that returns, \<open>NULL\<close> is written to.\<close>

definition zmalloc_oom_handler :: "zstate \<Rightarrow> 'a outcome" where
  "zmalloc_oom_handler h = (if oom_handler_returns h then Inl Undefined else Inl Exit)"

text \<open>A block with its size written in front; a block without room for it is overrun.\<close>

definition new_block :: "zaddr \<Rightarrow> 64 word \<Rightarrow> string \<Rightarrow> zstate \<Rightarrow> zstate outcome" where
  "new_block p n b h = (if length b < PREFIX_SIZE then Inl Undefined else Inr (h\<lparr>zlive := (zlive h)(p \<mapsto> (n, drop PREFIX_SIZE b))\<rparr>))"

subsection \<open>The calls\<close>

definition zmalloc :: "libc_malloc \<Rightarrow> 64 word \<Rightarrow> zstate \<Rightarrow> (zaddr \<times> zstate) outcome" where
  "zmalloc mal n h =
     (case mal h (unat (n + prefix)) of
        None \<Rightarrow> zmalloc_oom_handler h
      | Some (p, b) \<Rightarrow>
          andThen (new_block p n b h) (\<lambda>h. Inr (p + PREFIX_SIZE, update_zmalloc_stat_alloc (n + prefix) h)))"

definition zcalloc :: "libc_malloc \<Rightarrow> 64 word \<Rightarrow> zstate \<Rightarrow> (zaddr \<times> zstate) outcome" where
  "zcalloc mal n h =
     (case mal h (unat (n + prefix)) of
        None \<Rightarrow> zmalloc_oom_handler h
      | Some (p, b) \<Rightarrow>
          andThen (new_block p n (replicate (length b) CHR 0x00) h) (\<lambda>h.
            Inr (p + PREFIX_SIZE, update_zmalloc_stat_alloc (n + prefix) h)))"

definition live_block :: "zstate \<Rightarrow> zaddr \<Rightarrow> (64 word \<times> string) outcome" where
  "live_block h ptr = (if ptr < PREFIX_SIZE then Inl Undefined else of_opt Undefined (zlive h (ptr - PREFIX_SIZE)))"

text \<open>\<open>realloc\<close> moves the bytes that both blocks have room for and frees the old block.\<close>

definition zrealloc :: "libc_malloc \<Rightarrow> libc_realloc \<Rightarrow> zaddr \<Rightarrow> 64 word \<Rightarrow> zstate \<Rightarrow> (zaddr \<times> zstate) outcome" where
  "zrealloc mal rea ptr n h =
     (if ptr = 0 then zmalloc mal n h
      else
        andThen (live_block h ptr) (\<lambda>(oldsize, old).
        case rea h (ptr - PREFIX_SIZE) (unat (n + prefix)) of
          None \<Rightarrow> zmalloc_oom_handler h
        | Some (p, b) \<Rightarrow>
            andThen (new_block p n (take PREFIX_SIZE b @ take (length b - PREFIX_SIZE) old @ drop (PREFIX_SIZE + length old) b)
              (h\<lparr>zlive := (zlive h)(ptr - PREFIX_SIZE := None)\<rparr>)) (\<lambda>h.
            Inr (p + PREFIX_SIZE, update_zmalloc_stat_alloc n (update_zmalloc_stat_free oldsize h)))))"

definition zmalloc_size :: "zstate \<Rightarrow> zaddr \<Rightarrow> 64 word outcome" where
  "zmalloc_size h ptr = andThen (live_block h ptr) (\<lambda>(n, _). Inr (pad_long n + prefix))"

definition zfree :: "zaddr \<Rightarrow> zstate \<Rightarrow> zstate outcome" where
  "zfree ptr h =
     (if ptr = 0 then Inr h
      else
        andThen (live_block h ptr) (\<lambda>(oldsize, _).
          let h = update_zmalloc_stat_free (oldsize + prefix) h
          in Inr (h\<lparr>zlive := (zlive h)(ptr - PREFIX_SIZE := None)\<rparr>)))"

text \<open>\<open>zlibc_free\<close> is for blocks of the C library: it takes the address itself and does not count.\<close>

definition zlibc_free :: "zaddr \<Rightarrow> zstate \<Rightarrow> zstate outcome" where
  "zlibc_free ptr h =
     (if ptr = 0 then Inr h
      else if zlive h ptr = None then Inl Undefined
      else Inr (h\<lparr>zlive := (zlive h)(ptr := None)\<rparr>))"

text \<open>The argument is the characters before the \<open>NUL\<close>, which is copied too.\<close>

definition zstrdup :: "libc_malloc \<Rightarrow> string \<Rightarrow> zstate \<Rightarrow> (zaddr \<times> zstate) outcome" where
  "zstrdup mal s h =
     (let l = length s + 1 in
      andThen (zmalloc mal (of_nat l) h) (\<lambda>(p, h).
      andThen (live_block h p) (\<lambda>(n, b).
        if length b < l then Inl Undefined
        else Inr (p, h\<lparr>zlive := (zlive h)(p - PREFIX_SIZE \<mapsto> (n, s @ [CHR 0x00] @ drop l b))\<rparr>))))"

definition zmalloc_used_memory :: "zstate \<Rightarrow> 64 word" where
  "zmalloc_used_memory h = used_memory h"

definition zmalloc_enable_thread_safeness :: "zstate \<Rightarrow> zstate" where
  "zmalloc_enable_thread_safeness h = h\<lparr>zmalloc_thread_safe := True\<rparr>"

text \<open>Of a handler only whether it returns matters here.\<close>

definition zmalloc_set_oom_handler :: "bool \<Rightarrow> zstate \<Rightarrow> zstate" where
  "zmalloc_set_oom_handler returns h = h\<lparr>oom_handler_returns := returns\<rparr>"

text \<open>
  \<open>config.h\<close> is not included, so \<open>HAVE_PROC_STAT\<close> and \<open>HAVE_PROC_SMAPS\<close> are never defined and the
  substitutes are compiled.
\<close>

definition zmalloc_get_rss :: "zstate \<Rightarrow> 64 word" where
  "zmalloc_get_rss h = zmalloc_used_memory h"

definition zmalloc_get_smap_bytes_by_field :: "string \<Rightarrow> 64 word" where
  "zmalloc_get_smap_bytes_by_field field = 0"

definition zmalloc_get_private_dirty :: "64 word" where
  "zmalloc_get_private_dirty = zmalloc_get_smap_bytes_by_field ''Private_Dirty:''"

subsection \<open>States a program can reach\<close>

inductive zreach :: "libc_malloc \<Rightarrow> libc_realloc \<Rightarrow> zstate \<Rightarrow> bool" for mal rea where
  z_init: "zreach mal rea zinit"
| z_malloc: "zreach mal rea h \<Longrightarrow> zmalloc mal n h = Inr (p, h') \<Longrightarrow> zreach mal rea h'"
| z_calloc: "zreach mal rea h \<Longrightarrow> zcalloc mal n h = Inr (p, h') \<Longrightarrow> zreach mal rea h'"
| z_realloc: "zreach mal rea h \<Longrightarrow> zrealloc mal rea q n h = Inr (p, h') \<Longrightarrow> zreach mal rea h'"
| z_free: "zreach mal rea h \<Longrightarrow> zfree q h = Inr h' \<Longrightarrow> zreach mal rea h'"
| z_strdup: "zreach mal rea h \<Longrightarrow> zstrdup mal s h = Inr (p, h') \<Longrightarrow> zreach mal rea h'"
| z_safe: "zreach mal rea h \<Longrightarrow> zreach mal rea (zmalloc_enable_thread_safeness h)"
| z_handler: "zreach mal rea h \<Longrightarrow> zreach mal rea (zmalloc_set_oom_handler r h)"

text \<open>Each live block counts with its padded size and its prefix.\<close>

definition live_bytes :: "zstate \<Rightarrow> 64 word" where
  "live_bytes h = (\<Sum>p \<in> dom (zlive h). pad_long (fst (the (zlive h p))) + prefix)"

definition stat_ok :: "zstate \<Rightarrow> bool" where
  "stat_ok h \<longleftrightarrow> finite (dom (zlive h)) \<and> used_memory h = live_bytes h"

lemma pad_long_prefix: "pad_long (n + prefix) = pad_long n + prefix"
proof -
  have "unat ((n + 8) mod 8) = unat (n mod 8)"
    by (simp add: unat_mod unat_word_ariths mod_mod_cancel)
  then have "(n + 8) mod 8 = n mod 8" by (simp only: word_unat_eq_iff)
  then show ?thesis by (simp add: pad_long_def prefix_def PREFIX_SIZE_def)
qed

lemma live_bytes_add:
  assumes "finite (dom (zlive h))" and "p \<notin> dom (zlive h)" and "zlive g = (zlive h)(p \<mapsto> (n, b))"
  shows "live_bytes g = live_bytes h + (pad_long n + prefix)"
proof -
  have "live_bytes g = (pad_long n + prefix) + (\<Sum>q \<in> dom (zlive h). pad_long (fst (the (zlive g q))) + prefix)"
    using assms by (simp add: live_bytes_def)
  also have "(\<Sum>q \<in> dom (zlive h). pad_long (fst (the (zlive g q))) + prefix) = live_bytes h"
    unfolding live_bytes_def using assms(2,3) by (intro sum.cong) auto
  finally show ?thesis by simp
qed

lemma live_bytes_del:
  assumes "finite (dom (zlive h))" and "zlive h p = Some (n, b)" and "zlive g = (zlive h)(p := None)"
  shows "live_bytes g = live_bytes h - (pad_long n + prefix)"
proof -
  have "finite (dom (zlive g))" "p \<notin> dom (zlive g)" using assms(1) by (simp_all add: assms(3))
  moreover have "zlive h = (zlive g)(p \<mapsto> (n, b))" using assms(2) by (simp add: assms(3) fun_upd_idem)
  ultimately show ?thesis using live_bytes_add [of g p h n b] by simp
qed

lemma live_bytes_same:
  assumes "zlive h p = Some (n, b)" and "zlive g = (zlive h)(p \<mapsto> (n, c))"
  shows "live_bytes g = live_bytes h" "dom (zlive g) = dom (zlive h)"
proof -
  show d: "dom (zlive g) = dom (zlive h)" using assms by auto
  show "live_bytes g = live_bytes h" unfolding live_bytes_def d using assms by (intro sum.cong) auto
qed

lemma new_block_Inr: "new_block p n b h = Inr g \<longleftrightarrow> PREFIX_SIZE \<le> length b \<and> g = h\<lparr>zlive := (zlive h)(p \<mapsto> (n, drop PREFIX_SIZE b))\<rparr>"
  by (auto simp: new_block_def)

lemma oom_Inr: "zmalloc_oom_handler h \<noteq> Inr x"
  by (simp add: zmalloc_oom_handler_def)

lemma live_block_Inr: "live_block h ptr = Inr (n, b) \<longleftrightarrow> PREFIX_SIZE \<le> ptr \<and> zlive h (ptr - PREFIX_SIZE) = Some (n, b)"
  by (auto simp: live_block_def of_opt_def split: option.splits)

subsection \<open>The count is right\<close>

text \<open>A successful call adds one block, counted, at a fresh address.\<close>

lemma zmalloc_adds:
  assumes mal: "blocks_fresh mal" and call: "zmalloc mal n h = Inr (p, g)"
  shows "\<exists>b. PREFIX_SIZE < p \<and> p - PREFIX_SIZE \<notin> dom (zlive h) \<and> zlive g = (zlive h)(p - PREFIX_SIZE \<mapsto> (n, b)) \<and>
    PREFIX_SIZE + length b = unat (n + prefix) \<and> used_memory g = used_memory h + (pad_long n + prefix)"
proof -
  obtain a b where a: "mal h (unat (n + prefix)) = Some (a, b)"
    using call by (cases "mal h (unat (n + prefix))") (auto simp: zmalloc_def oom_Inr)
  then have "a \<noteq> 0" "a \<notin> dom (zlive h)" "length b = unat (n + prefix)" using mal by (auto simp: blocks_fresh_def)
  then show ?thesis using call a
    by (auto simp: zmalloc_def andThen_Inr_iff new_block_Inr update_zmalloc_stat_alloc_def pad_long_prefix)
qed

lemma zcalloc_adds:
  assumes mal: "blocks_fresh mal" and call: "zcalloc mal n h = Inr (p, g)"
  shows "PREFIX_SIZE < p \<and> p - PREFIX_SIZE \<notin> dom (zlive h) \<and>
    zlive g = (zlive h)(p - PREFIX_SIZE \<mapsto> (n, replicate (unat (n + prefix) - PREFIX_SIZE) CHR 0x00)) \<and>
    used_memory g = used_memory h + (pad_long n + prefix)"
proof -
  obtain a b where a: "mal h (unat (n + prefix)) = Some (a, b)"
    using call by (cases "mal h (unat (n + prefix))") (auto simp: zcalloc_def oom_Inr)
  then have "a \<noteq> 0" "a \<notin> dom (zlive h)" "length b = unat (n + prefix)" using mal by (auto simp: blocks_fresh_def)
  then show ?thesis using call a
    by (auto simp: zcalloc_def andThen_Inr_iff new_block_Inr update_zmalloc_stat_alloc_def pad_long_prefix)
qed

lemma zfree_drops:
  assumes "zfree p h = Inr g" and "p \<noteq> 0"
  shows "\<exists>n b. zlive h (p - PREFIX_SIZE) = Some (n, b) \<and> zlive g = (zlive h)(p - PREFIX_SIZE := None) \<and>
    used_memory g = used_memory h - (pad_long n + prefix)"
  using assms
  by (auto simp: zfree_def andThen_Inr_iff live_block_Inr update_zmalloc_stat_free_def pad_long_prefix Let_def)

lemma zrealloc_moves:
  assumes rea: "realloc_moves rea" and call: "zrealloc mal rea q n h = Inr (p, g)" and q: "q \<noteq> 0"
  shows "\<exists>m old b. PREFIX_SIZE < p \<and> zlive h (q - PREFIX_SIZE) = Some (m, old) \<and>
    p - PREFIX_SIZE \<notin> dom ((zlive h)(q - PREFIX_SIZE := None)) \<and>
    zlive g = (zlive h)(q - PREFIX_SIZE := None, p - PREFIX_SIZE \<mapsto> (n, b)) \<and>
    take (length b) old = take (length old) b \<and> PREFIX_SIZE + length b = unat (n + prefix) \<and>
    used_memory g = used_memory h - pad_long m + pad_long n"
proof -
  obtain m old where old: "live_block h q = Inr (m, old)"
    using call q by (auto simp: zrealloc_def andThen_Inr_iff)
  obtain a b where a: "rea h (q - PREFIX_SIZE) (unat (n + prefix)) = Some (a, b)"
    using call q old by (cases "rea h (q - PREFIX_SIZE) (unat (n + prefix))") (auto simp: zrealloc_def oom_Inr)
  then have fresh: "a \<noteq> 0" "a = q - PREFIX_SIZE \<or> a \<notin> dom (zlive h)" "length b = unat (n + prefix)"
    using rea by (auto simp: realloc_moves_def)
  define b' where "b' = take PREFIX_SIZE b @ take (length b - PREFIX_SIZE) old @ drop (PREFIX_SIZE + length old) b"
  define c where "c = drop PREFIX_SIZE b'"
  obtain h1 where h1: "new_block a n b' (h\<lparr>zlive := (zlive h)(q - PREFIX_SIZE := None)\<rparr>) = Inr h1"
    "p = a + PREFIX_SIZE" "g = update_zmalloc_stat_alloc n (update_zmalloc_stat_free m h1)"
    using call q unfolding zrealloc_def old andThen_simps
    by (auto simp: a b'_def andThen_Inr_iff)
  have size_b': "length b' = length b" by (simp add: b'_def)
  have room: "PREFIX_SIZE \<le> length b" "h1 = h\<lparr>zlive := (zlive h)(q - PREFIX_SIZE := None, a \<mapsto> (n, c))\<rparr>"
    using h1(1) by (simp_all add: new_block_Inr size_b' c_def)
  have c: "c = take (length b - PREFIX_SIZE) old @ drop (PREFIX_SIZE + length old) b"
    using room(1) by (simp add: c_def b'_def)
  then have "take (length c) old = take (length old) c" "PREFIX_SIZE + length c = unat (n + prefix)"
    using room(1) fresh(3) by (auto simp: min_def)
  moreover have "zlive h (q - PREFIX_SIZE) = Some (m, old)" using old by (simp add: live_block_Inr)
  moreover have "used_memory g = used_memory h - pad_long m + pad_long n"
    using h1(3) room(2) by (simp add: update_zmalloc_stat_alloc_def update_zmalloc_stat_free_def)
  moreover have "zlive g = (zlive h)(q - PREFIX_SIZE := None, p - PREFIX_SIZE \<mapsto> (n, c))"
    using h1(2,3) room(2) by (simp add: update_zmalloc_stat_alloc_def update_zmalloc_stat_free_def)
  moreover have "PREFIX_SIZE < p" "p - PREFIX_SIZE \<notin> dom ((zlive h)(q - PREFIX_SIZE := None))"
    using h1(2) fresh(1,2) by auto
  ultimately show ?thesis by blast
qed

lemma stat_ok_add:
  "stat_ok h \<Longrightarrow> p \<notin> dom (zlive h) \<Longrightarrow> zlive g = (zlive h)(p \<mapsto> (n, b)) \<Longrightarrow>
    used_memory g = used_memory h + (pad_long n + prefix) \<Longrightarrow> stat_ok g"
  unfolding stat_ok_def using live_bytes_add [of h p g n b] by simp

lemma stat_ok_del:
  "stat_ok h \<Longrightarrow> zlive h p = Some (n, b) \<Longrightarrow> zlive g = (zlive h)(p := None) \<Longrightarrow>
    used_memory g = used_memory h - (pad_long n + prefix) \<Longrightarrow> stat_ok g"
  unfolding stat_ok_def using live_bytes_del [of h p n b g] by simp

lemma zstrdup_Inr:
  assumes "zstrdup mal s h = Inr (p, g)"
  obtains h1 n b where "zmalloc mal (of_nat (length s + 1)) h = Inr (p, h1)" "live_block h1 p = Inr (n, b)"
    "length s < length b" "g = h1\<lparr>zlive := (zlive h1)(p - PREFIX_SIZE \<mapsto> (n, s @ [CHR 0x00] @ drop (length s + 1) b))\<rparr>"
  using assms by (auto simp: zstrdup_def Let_def andThen_Inr_iff split: if_splits)

lemma zreach_stat:
  assumes "blocks_fresh mal" "realloc_moves rea"
  shows "zreach mal rea h \<Longrightarrow> stat_ok h"
proof (induction rule: zreach.induct)
  case z_init
  then show ?case by (simp add: stat_ok_def zinit_def live_bytes_def)
next
  case (z_malloc h n p h')
  then show ?case using zmalloc_adds [OF assms(1)] stat_ok_add by metis
next
  case (z_calloc h n p h')
  then show ?case using zcalloc_adds [OF assms(1)] stat_ok_add by metis
next
  case (z_realloc h q n p h')
  show ?case
  proof (cases "q = 0")
    case True
    then have "zmalloc mal n h = Inr (p, h')" using z_realloc by (simp add: zrealloc_def)
    then show ?thesis using zmalloc_adds [OF assms(1)] z_realloc.IH stat_ok_add by metis
  next
    case False
    obtain m old b where m: "zlive h (q - PREFIX_SIZE) = Some (m, old)"
      "p - PREFIX_SIZE \<notin> dom ((zlive h)(q - PREFIX_SIZE := None))"
      "zlive h' = (zlive h)(q - PREFIX_SIZE := None, p - PREFIX_SIZE \<mapsto> (n, b))"
      "used_memory h' = used_memory h - pad_long m + pad_long n"
      using zrealloc_moves [OF assms(2) z_realloc.hyps(2) False] by blast
    define k where "k = h\<lparr>zlive := (zlive h)(q - PREFIX_SIZE := None), used_memory := used_memory h - (pad_long m + prefix)\<rparr>"
    have "stat_ok k" by (rule stat_ok_del [OF z_realloc.IH m(1)]) (simp_all add: k_def)
    then show ?thesis by (rule stat_ok_add [where p = "p - PREFIX_SIZE" and n = n and b = b]) (use m(2-4) in \<open>simp_all add: k_def\<close>)
  qed
next
  case (z_free h q h')
  then show ?case
    using zfree_drops [of q h h'] stat_ok_del by (cases "q = 0") (auto simp: zfree_def)
next
  case (z_strdup h s p h')
  obtain h1 n b where d: "zmalloc mal (of_nat (length s + 1)) h = Inr (p, h1)" "live_block h1 p = Inr (n, b)"
    "h' = h1\<lparr>zlive := (zlive h1)(p - PREFIX_SIZE \<mapsto> (n, s @ [CHR 0x00] @ drop (length s + 1) b))\<rparr>"
    using z_strdup.hyps(2) by (rule zstrdup_Inr)
  have "stat_ok h1" using zmalloc_adds [OF assms(1) d(1)] z_strdup.IH stat_ok_add by metis
  then show ?case
    using live_bytes_same [of h1 "p - PREFIX_SIZE" n b h'] d(2,3) by (simp add: stat_ok_def live_block_Inr)
next
  case (z_safe h)
  then show ?case by (simp add: stat_ok_def live_bytes_def zmalloc_enable_thread_safeness_def)
next
  case (z_handler h r)
  then show ?case by (simp add: stat_ok_def live_bytes_def zmalloc_set_oom_handler_def)
qed

text \<open>
  C26.  Whatever calls a program makes (\<open>zmalloc\<close>, \<open>zcalloc\<close>, \<open>zrealloc\<close>, \<open>zfree\<close>, \<open>zstrdup\<close>, in any order, any
  sizes), \<open>zmalloc_used_memory\<close> is exactly the sum over the live blocks of their sizes, padded to
  eight bytes, and prefixes: although \<open>zrealloc\<close> counts without the prefix, \<open>zfree\<close> with it and
  the sums wrap, nothing leaks from the count, and it is 0 again when every block is freed.
\<close>

theorem used_memory_is_exact:
  assumes "blocks_fresh mal" and "realloc_moves rea" and "zreach mal rea h"
  shows "zmalloc_used_memory h = (\<Sum>p \<in> dom (zlive h). pad_long (fst (the (zlive h p))) + prefix) \<and>
    (zlive h = Map.empty \<longrightarrow> zmalloc_used_memory h = 0)"
  using zreach_stat [OF assms] by (auto simp: stat_ok_def live_bytes_def zmalloc_used_memory_def)

text \<open>A C library with room for two blocks that grows blocks in place.\<close>

definition two_slots :: libc_malloc where
  "two_slots h n =
     (if zlive h 16 = None then Some (16, replicate n CHR ''?'')
      else if zlive h 64 = None then Some (64, replicate n CHR ''?'') else None)"

definition in_place :: libc_realloc where
  "in_place h q n = (if q = 0 then None else Some (q, replicate n CHR ''?''))"

lemma two_slots_ok: "blocks_fresh two_slots" "realloc_moves in_place"
  by (auto simp: blocks_fresh_def realloc_moves_def two_slots_def in_place_def split: if_splits)

theorem used_memory_is_exact_witness:
  "\<exists>h. zreach two_slots in_place h \<and> zmalloc_used_memory h = 24 \<and>
     zmalloc_used_memory h = (\<Sum>p \<in> dom (zlive h). pad_long (fst (the (zlive h p))) + prefix)"
proof -
  let ?b = "replicate 5 CHR ''?'' @ replicate 4 CHR ''?''"
  define h1 where "h1 = zinit\<lparr>zlive := [16 \<mapsto> (5, replicate 5 CHR ''?'')], used_memory := 16\<rparr>"
  define h2 where "h2 = zinit\<lparr>zlive := [16 \<mapsto> (9, ?b)], used_memory := 24\<rparr>"
  have m1: "zmalloc two_slots 5 zinit = Inr (24, h1)"
    by (simp add: zmalloc_def two_slots_def zinit_def prefix_def PREFIX_SIZE_def new_block_def h1_def
        update_zmalloc_stat_alloc_def pad_long_def)
  have m2: "zrealloc two_slots in_place 24 9 h1 = Inr (24, h2)"
    by (simp add: zrealloc_def in_place_def zinit_def prefix_def PREFIX_SIZE_def new_block_def h1_def h2_def live_block_def
        update_zmalloc_stat_alloc_def update_zmalloc_stat_free_def pad_long_def)
  have r: "zreach two_slots in_place h2" by (rule z_realloc [OF z_malloc [OF z_init m1] m2])
  have "zmalloc_used_memory h2 = 24" by (simp add: h2_def zmalloc_used_memory_def)
  then show ?thesis using r used_memory_is_exact [OF two_slots_ok r] by blast
qed

text \<open>
  There is no check that a size leaves room for the prefix: for each of the eight largest
  sizes the request to \<open>malloc\<close> wraps to fewer than eight bytes, and writing the prefix overruns
  the block that \<open>malloc\<close> answers.
\<close>

theorem huge_sizes_overrun_the_prefix:
  assumes "blocks_fresh mal" and "2 ^ 64 - 8 \<le> unat n" and "mal h (unat n - (2 ^ 64 - 8)) = Some (p, b)"
  shows "zmalloc mal n h = Inl Undefined"
proof -
  have "unat n < 2 ^ 64" using unsigned_less [of n, where 'a = nat] by simp
  then have wrap: "unat (n + prefix) = unat n - (2 ^ 64 - 8)" using assms(2)
    by (simp add: prefix_def PREFIX_SIZE_def unat_word_ariths mod_if)
  have "length b = unat n - (2 ^ 64 - 8)" using assms(1,3) by (simp add: blocks_fresh_def)
  then have "length b < PREFIX_SIZE" using \<open>unat n < 2 ^ 64\<close> by (simp add: PREFIX_SIZE_def)
  then show ?thesis using assms(3) by (simp add: zmalloc_def wrap new_block_def)
qed

theorem huge_sizes_overrun_the_prefix_witness:
  "zmalloc two_slots 18446744073709551615 zinit = Inl Undefined"
  by (rule huge_sizes_overrun_the_prefix [OF two_slots_ok(1)]) (simp_all add: two_slots_def zinit_def)

lemma zfree_live:
  assumes "PREFIX_SIZE \<le> p" and "zlive h (p - PREFIX_SIZE) = Some (n, b)"
  shows "zfree p h = Inr (h\<lparr>zlive := (zlive h)(p - PREFIX_SIZE := None), used_memory := used_memory h - (pad_long n + prefix)\<rparr>)"
  using assms by (simp add: zfree_def live_block_def update_zmalloc_stat_free_def pad_long_prefix PREFIX_SIZE_def)

subsection \<open>What a client owns\<close>

text \<open>
  \<open>owns P h0 h\<close>: since the state \<open>h0\<close> a client has taken the blocks of the pointers \<open>P\<close>, and
  nothing else has changed.
\<close>

definition same_flags :: "zstate \<Rightarrow> zstate \<Rightarrow> bool" where
  "same_flags g h \<longleftrightarrow> zmalloc_thread_safe g = zmalloc_thread_safe h \<and> oom_handler_returns g = oom_handler_returns h"

definition owns :: "zaddr set \<Rightarrow> zstate \<Rightarrow> zstate \<Rightarrow> bool" where
  "owns P h0 h \<longleftrightarrow> stat_ok h \<and>
     (\<forall>p \<in> P. PREFIX_SIZE < p \<and> p - PREFIX_SIZE \<in> dom (zlive h) \<and> p - PREFIX_SIZE \<notin> dom (zlive h0)) \<and>
     zlive h |` (- (\<lambda>p. p - PREFIX_SIZE) ` P) = zlive h0 \<and>
     same_flags h h0"

lemma owns_empty: "stat_ok h \<Longrightarrow> owns {} h h"
  by (simp add: owns_def same_flags_def restrict_map_def)

text \<open>Giving back what was taken restores the state: the same blocks have the same count.\<close>

lemma owns_nothing:
  assumes "stat_ok h0" and "owns {} h0 h"
  shows "h = h0"
proof -
  have z: "zlive h = zlive h0" using assms(2) by (simp add: owns_def restrict_map_def)
  then have "used_memory h = used_memory h0" using assms by (simp add: stat_ok_def live_bytes_def owns_def)
  then show ?thesis using z assms(2) by (intro zstate.equality) (simp_all add: owns_def same_flags_def)
qed

lemma owns_block: "owns P h0 h \<Longrightarrow> p \<in> P \<Longrightarrow> PREFIX_SIZE < p \<and> (\<exists>n b. zlive h (p - PREFIX_SIZE) = Some (n, b))"
  by (auto simp: owns_def)

lemma owns_live: "owns P h0 h \<Longrightarrow> zlive h0 q = Some x \<Longrightarrow> zlive h q = Some x"
  unfolding owns_def by (metis option.distinct(1) restrict_map_def)

lemma owns_fresh:
  assumes "owns P h0 h" and "p - PREFIX_SIZE \<notin> dom (zlive h)"
  shows "p \<notin> P" "p - PREFIX_SIZE \<notin> dom (zlive h0)"
  using assms(2) owns_live [OF assms(1)] assms(1) by (auto simp: owns_def)

lemma owns_add:
  assumes o: "owns P h0 h" and "PREFIX_SIZE < p" "p - PREFIX_SIZE \<notin> dom (zlive h)"
    and g: "zlive g = (zlive h)(p - PREFIX_SIZE \<mapsto> x)" "stat_ok g" "same_flags g h"
  shows "owns (insert p P) h0 g"
proof -
  have "zlive g |` (- (\<lambda>p. p - PREFIX_SIZE) ` insert p P) = zlive h |` (- (\<lambda>p. p - PREFIX_SIZE) ` P)"
  proof -
    have "zlive h (p - PREFIX_SIZE) = None" using assms(3) by blast
    then show ?thesis by (auto simp only: g(1) restrict_map_def fun_eq_iff fun_upd_apply Compl_iff image_insert insert_iff split: if_split)
  qed
  moreover have "same_flags g h0" using o g(3) by (simp add: owns_def same_flags_def)
  moreover have "p - PREFIX_SIZE \<notin> dom (zlive h0)" by (rule owns_fresh [OF o assms(3)])
  ultimately show ?thesis using o assms(2) g(2) by (auto simp: owns_def g(1))
qed

lemma owns_del:
  assumes o: "owns P h0 h" and p: "p \<in> P"
    and g: "zlive g = (zlive h)(p - PREFIX_SIZE := None)" "stat_ok g" "same_flags g h"
  shows "owns (P - {p}) h0 g"
proof -
  have other: "q - PREFIX_SIZE \<noteq> p - PREFIX_SIZE" if "q \<in> P - {p}" for q
    using that owns_block [OF o p] owns_block [OF o, of q] by auto
  have "zlive g |` (- (\<lambda>p. p - PREFIX_SIZE) ` (P - {p})) = zlive h |` (- (\<lambda>p. p - PREFIX_SIZE) ` P)"
    using p other by (auto simp: g(1) restrict_map_def fun_eq_iff)
  moreover have "same_flags g h0" using o g(3) by (simp add: owns_def same_flags_def)
  ultimately show ?thesis using o g(2) other by (auto simp: owns_def g(1))
qed

lemma zmalloc_keeps_flags: "zmalloc mal n h = Inr (p, g) \<Longrightarrow> same_flags g h"
  by (auto simp: same_flags_def zmalloc_def andThen_Inr_iff new_block_Inr update_zmalloc_stat_alloc_def oom_Inr split: option.splits)

lemma owns_zmalloc:
  assumes "blocks_fresh mal" and "owns P h0 h" and "zmalloc mal n h = Inr (p, g)"
  shows "owns (insert p P) h0 g" "p \<notin> P"
proof -
  obtain b where b: "PREFIX_SIZE < p" "p - PREFIX_SIZE \<notin> dom (zlive h)" "zlive g = (zlive h)(p - PREFIX_SIZE \<mapsto> (n, b))"
    "used_memory g = used_memory h + (pad_long n + prefix)"
    using zmalloc_adds [OF assms(1,3)] by blast
  have "stat_ok g" by (rule stat_ok_add [OF _ b(2-4)]) (use assms(2) in \<open>simp add: owns_def\<close>)
  then show "owns (insert p P) h0 g" by (rule owns_add [OF assms(2) b(1-3) _ zmalloc_keeps_flags [OF assms(3)]])
  show "p \<notin> P" by (rule owns_fresh [OF assms(2) b(2)])
qed

lemma owns_zfree:
  assumes "owns P h0 h" and "p \<in> P"
  obtains g where "zfree p h = Inr g" "owns (P - {p}) h0 g"
proof -
  obtain n b where p: "PREFIX_SIZE \<le> p" "zlive h (p - PREFIX_SIZE) = Some (n, b)"
    using owns_block [OF assms] by auto
  let ?g = "h\<lparr>zlive := (zlive h)(p - PREFIX_SIZE := None), used_memory := used_memory h - (pad_long n + prefix)\<rparr>"
  have "stat_ok ?g" by (rule stat_ok_del [OF _ p(2)]) (use assms(1) in \<open>simp_all add: owns_def\<close>)
  then have "owns (P - {p}) h0 ?g" using owns_del [OF assms, of ?g] by (simp add: same_flags_def)
  then show thesis by (rule that [OF zfree_live [OF p]])
qed

text \<open>Several blocks freed one after the other.\<close>

fun zfree_all :: "zaddr list \<Rightarrow> zstate \<Rightarrow> zstate outcome" where
  "zfree_all [] h = Inr h"
| "zfree_all (p # ps) h = andThen (zfree p h) (zfree_all ps)"

lemma owns_zfree_all:
  assumes "owns P h0 h" and "distinct ps" and "set ps \<subseteq> P"
  shows "\<exists>g. zfree_all ps h = Inr g \<and> owns (P - set ps) h0 g"
  using assms
proof (induction ps arbitrary: P h)
  case Nil
  then show ?case by simp
next
  case (Cons p ps)
  obtain k where k: "zfree p h = Inr k" "owns (P - {p}) h0 k" using owns_zfree [OF Cons.prems(1), of p] Cons.prems(3) by auto
  have "set ps \<subseteq> P - {p}" using Cons.prems(2,3) by auto
  then obtain g where "zfree_all ps k = Inr g" "owns (P - {p} - set ps) h0 g"
    using Cons.IH [OF k(2)] Cons.prems(2) by auto
  moreover have "P - {p} - set ps = P - set (p # ps)" by auto
  ultimately show ?case using k(1) by simp
qed

lemma zrealloc_keeps_flags:
  "zrealloc mal rea q n h = Inr (p, g) \<Longrightarrow> q \<noteq> 0 \<Longrightarrow> same_flags g h"
  by (auto simp: same_flags_def zrealloc_def andThen_Inr_iff new_block_Inr update_zmalloc_stat_alloc_def update_zmalloc_stat_free_def oom_Inr
      split: option.splits)

lemma owns_zrealloc:
  assumes "realloc_moves rea" and "owns P h0 h" and "q \<in> P" and "zrealloc mal rea q n h = Inr (p, g)"
  shows "owns (insert p (P - {q})) h0 g" "p \<notin> P - {q}"
proof -
  have q: "q \<noteq> 0" using owns_block [OF assms(2,3)] by auto
  obtain m old b where m: "PREFIX_SIZE < p" "zlive h (q - PREFIX_SIZE) = Some (m, old)"
    "p - PREFIX_SIZE \<notin> dom ((zlive h)(q - PREFIX_SIZE := None))"
    "zlive g = (zlive h)(q - PREFIX_SIZE := None, p - PREFIX_SIZE \<mapsto> (n, b))"
    "used_memory g = used_memory h - pad_long m + pad_long n"
    using zrealloc_moves [OF assms(1,4) q] by blast
  define k where "k = h\<lparr>zlive := (zlive h)(q - PREFIX_SIZE := None), used_memory := used_memory h - (pad_long m + prefix)\<rparr>"
  have ok: "stat_ok k" by (rule stat_ok_del [OF _ m(2)]) (use assms(2) in \<open>simp_all add: k_def owns_def\<close>)
  have k: "owns (P - {q}) h0 k" by (rule owns_del [OF assms(2,3) _ ok]) (simp_all add: k_def same_flags_def)
  have fresh: "p - PREFIX_SIZE \<notin> dom (zlive k)" "zlive g = (zlive k)(p - PREFIX_SIZE \<mapsto> (n, b))"
    using m(3,4) by (simp_all add: k_def)
  have "stat_ok g" by (rule stat_ok_add [OF ok fresh]) (use m(5) in \<open>simp add: k_def\<close>)
  then show "owns (insert p (P - {q})) h0 g"
    by (rule owns_add [OF k m(1) fresh]) (use zrealloc_keeps_flags [OF assms(4) q] in \<open>simp add: k_def same_flags_def\<close>)
  show "p \<notin> P - {q}" by (rule owns_fresh [OF k fresh(1)])
qed

subsection \<open>Freeing behind the allocator's back\<close>

text \<open>
  Freed behind the allocator's back, a block stays in the count: \<open>zmalloc_used_memory\<close> is too
  large by its padded size and prefix from then on.
\<close>

theorem zlibc_free_miscounts:
  assumes "blocks_fresh mal" and "realloc_moves rea" and "zreach mal rea h"
    and "zlive h p = Some (n, b)" and "p \<noteq> 0" and "zlibc_free p h = Inr g"
  shows "zmalloc_used_memory g = live_bytes g + (pad_long n + prefix)"
proof -
  have "stat_ok h" by (rule zreach_stat [OF assms(1-3)])
  moreover have "zlive g = (zlive h)(p := None)" "used_memory g = used_memory h"
    using assms(4-6) by (auto simp: zlibc_free_def)
  ultimately show ?thesis
    using live_bytes_del [of h p n b g] assms(4) by (simp add: stat_ok_def zmalloc_used_memory_def)
qed

end
