(* ===== verification/SdsBlocks.thy ===== *)
theory SdsBlocks
  imports SdsArgs Zmalloc
begin

text \<open>
  Who frees the tokens of \<open>sdssplitlen\<close>: the blocks that \<^verbatim>\<open>proxy/sds.c\<close> takes from \<open>zmalloc\<close> for
  the array and its strings, and \<open>sdsfree\<close>, \<open>sdsfreesplitres\<close>, which give them back.  An \<open>sds\<close> is
  a pointer eight bytes (the header) behind its block.  \<^verbatim>\<open>SdsArgs\<close> models what the tokens
  contain; here the same walk over the string is followed on the allocator's store.
\<close>

subsection \<open>Strings as blocks\<close>

definition sizeof_sdshdr :: nat where "sizeof_sdshdr = 8"

definition sdsnewlen_block :: "libc_malloc \<Rightarrow> nat \<Rightarrow> zstate \<Rightarrow> (zaddr \<times> zstate) outcome" where
  "sdsnewlen_block mal n h =
     andThen (zmalloc mal (of_nat (sizeof_sdshdr + n + 1)) h) (\<lambda>(sh, h). Inr (sh + sizeof_sdshdr, h))"

definition sdsfree :: "zaddr \<Rightarrow> zstate \<Rightarrow> zstate outcome" where
  "sdsfree s h = (if s = 0 then Inr h else zfree (s - sizeof_sdshdr) h)"

text \<open>The loop of \<open>sdssplitlen\<close>: the array \<open>vec\<close> with room for \<open>slots\<close> pointers holds \<open>tokens\<close>.\<close>

function split_blocks ::
  "libc_malloc \<Rightarrow> libc_realloc \<Rightarrow> string \<Rightarrow> string \<Rightarrow> nat \<Rightarrow> nat \<Rightarrow> nat \<Rightarrow> zaddr \<Rightarrow> zaddr list \<Rightarrow> zstate \<Rightarrow>
   (zaddr \<times> zaddr list \<times> nat \<times> zstate) outcome" where
  "split_blocks mal rea s sep slots j start vec tokens h =
     (if sep = [] then Inl Blocked
      else if int j < int (length s) - (int (length sep) - 1) then
        andThen (if slots < length tokens + 2
                 then andThen (zrealloc mal rea vec (of_nat (8 * (slots * 2))) h) (\<lambda>(vec, h). Inr (slots * 2, vec, h))
                 else Inr (slots, vec, h)) (\<lambda>(slots, vec, h).
          if split_hit s sep j then
            andThen (sdsnewlen_block mal (j - start) h) (\<lambda>(t, h).
              split_blocks mal rea s sep slots (j + length sep - 1 + 1) (j + length sep) vec (tokens @ [t]) h)
          else split_blocks mal rea s sep slots (j + 1) start vec tokens h)
      else Inr (vec, tokens, start, h))"
  by pat_completeness auto
termination
  by (relation "measure (\<lambda>(_, _, s, sep, _, j, _). length s + 1 - j)") (auto simp flip: length_greater_0_conv)

declare split_blocks.simps [simp del]

definition sdssplitlen_blocks ::
  "libc_malloc \<Rightarrow> libc_realloc \<Rightarrow> string \<Rightarrow> string \<Rightarrow> zstate \<Rightarrow> ((zaddr \<times> zaddr list) option \<times> zstate) outcome" where
  "sdssplitlen_blocks mal rea s sep h =
     (if length sep < 1 then Inr (None, h)
      else
        andThen (zmalloc mal (of_nat (8 * 5)) h) (\<lambda>(vec, h).
        if length s = 0 then Inr (Some (vec, []), h)
        else
          andThen (split_blocks mal rea s sep 5 0 0 vec [] h) (\<lambda>(vec, tokens, start, h).
          andThen (sdsnewlen_block mal (length s - start) h) (\<lambda>(t, h). Inr (Some (vec, tokens @ [t]), h)))))"

text \<open>The loop \<open>while (count--)\<close> of \<open>sdsfreesplitres\<close>; it reads the array, which is freed last.\<close>

fun free_tokens :: "zaddr list \<Rightarrow> nat \<Rightarrow> zstate \<Rightarrow> zstate outcome" where
  "free_tokens tokens 0 h = Inr h"
| "free_tokens tokens (Suc count) h =
     (if length tokens \<le> count then Inl Undefined
      else andThen (sdsfree (tokens ! count) h) (free_tokens tokens count))"

definition sdsfreesplitres :: "(zaddr \<times> zaddr list) option \<Rightarrow> nat \<Rightarrow> zstate \<Rightarrow> zstate outcome" where
  "sdsfreesplitres tokens count h =
     (case tokens of
        None \<Rightarrow> Inr h
      | Some (vec, ts) \<Rightarrow> andThen (free_tokens ts count h) (zfree vec))"

subsection \<open>What the result owns\<close>

text \<open>\<open>split_owns vec ps h0 h\<close>: the array and the strings on the blocks \<open>ps\<close> were taken since \<open>h0\<close>.\<close>

definition split_owns :: "zaddr \<Rightarrow> zaddr list \<Rightarrow> zstate \<Rightarrow> zstate \<Rightarrow> bool" where
  "split_owns vec ps h0 h \<longleftrightarrow> distinct (vec # ps) \<and> owns (set (vec # ps)) h0 h"

abbreviation sds_of :: "zaddr list \<Rightarrow> zaddr list" where
  "sds_of ps \<equiv> map (\<lambda>p. p + sizeof_sdshdr) ps"

lemma sdsnewlen_block_owns:
  assumes "blocks_fresh mal" and "split_owns vec ps h0 h" and "sdsnewlen_block mal n h = Inr (t, g)"
  shows "\<exists>p. t = p + sizeof_sdshdr \<and> split_owns vec (ps @ [p]) h0 g"
proof -
  obtain p where p: "zmalloc mal (of_nat (sizeof_sdshdr + n + 1)) h = Inr (p, g)" "t = p + sizeof_sdshdr"
    using assms(3) unfolding sdsnewlen_block_def by (auto simp: andThen_Inr_iff)
  have "insert p (set (vec # ps)) = set (vec # ps @ [p])" by auto
  then show ?thesis
    using owns_zmalloc [OF assms(1) conjunct2 [OF assms(2) [unfolded split_owns_def]] p(1)] assms(2) p(2)
    by (auto simp: split_owns_def)
qed

lemma grow_owns:
  assumes "realloc_moves rea" and "split_owns vec ps h0 h" and "zrealloc mal rea vec n h = Inr (v, g)"
  shows "split_owns v ps h0 g"
proof -
  have "insert v (set (vec # ps) - {vec}) = set (v # ps)" using assms(2) by (auto simp: split_owns_def)
  then show ?thesis
    using owns_zrealloc [OF assms(1) conjunct2 [OF assms(2) [unfolded split_owns_def]] _ assms(3)] assms(2)
    by (auto simp: split_owns_def)
qed

lemma split_blocks_owns:
  "blocks_fresh mal \<Longrightarrow> realloc_moves rea \<Longrightarrow> split_blocks mal rea s sep slots j start vec tokens h = Inr (v, ts, st, g) \<Longrightarrow>
    tokens = sds_of ps \<Longrightarrow> split_owns vec ps h0 h \<Longrightarrow> \<exists>qs. ts = sds_of qs \<and> split_owns v qs h0 g"
proof (induction mal rea s sep slots j start vec tokens h arbitrary: ps rule: split_blocks.induct)
  case (1 mal rea s sep slots j start vec tokens h)
  let ?grow = "if slots < length tokens + 2
     then andThen (zrealloc mal rea vec (of_nat (8 * (slots * 2))) h) (\<lambda>(vec, h). Inr (slots * 2, vec, h)) else Inr (slots, vec, h)"
  note eq = "1.prems"(3) [unfolded split_blocks.simps [of mal rea s sep slots j start vec tokens h]]
  have sep: "sep \<noteq> []" using eq by auto
  show ?case
  proof (cases "int j < int (length s) - (int (length sep) - 1)")
    case False
    then show ?thesis using eq sep "1.prems"(4,5) by auto
  next
    case True
    obtain slots1 vec1 h1 where grow: "?grow = Inr (slots1, vec1, h1)"
      using eq sep True by (auto simp: andThen_Inr_iff)
    have o: "split_owns vec1 ps h0 h1"
    proof (cases "slots < length tokens + 2")
      case True
      then have "zrealloc mal rea vec (of_nat (8 * (slots * 2))) h = Inr (vec1, h1)" using grow by (auto simp: andThen_Inr_iff)
      then show ?thesis by (rule grow_owns [OF "1.prems"(2) "1.prems"(5)])
    next
      case False
      then show ?thesis using grow "1.prems"(5) by simp
    qed
    show ?thesis
    proof (cases "split_hit s sep j")
      case hit: True
      obtain t h2 where t: "sdsnewlen_block mal (j - start) h1 = Inr (t, h2)"
        and r: "split_blocks mal rea s sep slots1 (j + length sep - 1 + 1) (j + length sep) vec1 (tokens @ [t]) h2 = Inr (v, ts, st, g)"
        using eq sep True hit unfolding grow by (auto simp: andThen_Inr_iff)
      obtain p where p: "t = p + sizeof_sdshdr" "split_owns vec1 (ps @ [p]) h0 h2"
        using sdsnewlen_block_owns [OF "1.prems"(1) o t] by blast
      show ?thesis using "1.IH"(1) [OF sep True hit "1.prems"(1,2) r _ p(2)] "1.prems"(4) p(1) by simp
    next
      case miss: False
      have r: "split_blocks mal rea s sep slots1 (j + 1) start vec1 tokens h1 = Inr (v, ts, st, g)"
        using eq sep True miss unfolding grow by auto
      show ?thesis by (rule "1.IH"(2) [OF sep True miss "1.prems"(1,2) r "1.prems"(4) o])
    qed
  qed
qed

lemma free_tokens_all:
  "n \<le> length ps \<Longrightarrow> free_tokens (sds_of ps) n h = zfree_all (rev (take n ps)) h"
proof (induction n arbitrary: h)
  case 0
  then show ?case by simp
next
  case (Suc n)
  then show ?case
    by (cases "zfree (ps ! n) h") (auto simp: take_Suc_conv_app_nth sdsfree_def sizeof_sdshdr_def Suc_le_eq)
qed

lemma freesplitres_restores:
  assumes "stat_ok h0" and "split_owns vec ps h0 h"
  shows "sdsfreesplitres (Some (vec, sds_of ps)) (length ps) h = Inr h0"
proof -
  have app: "zfree_all (xs @ [v]) g = andThen (zfree_all xs g) (zfree v)" for xs v g
  proof (induction xs arbitrary: g)
    case Nil
    then show ?case by (cases "zfree v g") simp_all
  next
    case (Cons x xs)
    then show ?case by (cases "zfree x g") simp_all
  qed
  have "distinct (rev ps @ [vec])" "set (rev ps @ [vec]) \<subseteq> set (vec # ps)" "set (vec # ps) - set (rev ps @ [vec]) = {}"
    using assms(2) by (auto simp: split_owns_def)
  then obtain g where "zfree_all (rev ps @ [vec]) h = Inr g" "owns {} h0 g"
    using owns_zfree_all [OF conjunct2 [OF assms(2) [unfolded split_owns_def]]] by metis
  then show ?thesis
    using owns_nothing [OF assms(1)] by (simp add: sdsfreesplitres_def free_tokens_all app)
qed

text \<open>The walk follows the one of \<open>split_loop\<close>: the same tokens, in number and place.\<close>

lemma split_blocks_counts:
  "split_blocks mal rea s sep slots j start vec tokens h = Inr (v, ts, st, g) \<Longrightarrow>
   split_loop mem s sep slots j start xs = Inr (ys, st') \<Longrightarrow> length xs = length tokens \<Longrightarrow>
   length ys = length ts \<and> st' = st"
proof (induction mal rea s sep slots j start vec tokens h arbitrary: xs rule: split_blocks.induct)
  case (1 mal rea s sep slots j start vec tokens h)
  let ?grow = "if slots < length tokens + 2
     then andThen (zrealloc mal rea vec (of_nat (8 * (slots * 2))) h) (\<lambda>(vec, h). Inr (slots * 2, vec, h)) else Inr (slots, vec, h)"
  let ?grow' = "if slots < length xs + 2 then map_sum id (\<lambda>_. slots * 2) (of_opt Exit (mem (size_t (8 * (slots * 2))))) else Inr slots"
  note eq = "1.prems"(1) [unfolded split_blocks.simps [of mal rea s sep slots j start vec tokens h]]
  note eq' = "1.prems"(2) [unfolded split_loop.simps [of mem s sep slots j start xs]]
  have sep: "sep \<noteq> []" using eq by auto
  show ?case
  proof (cases "int j < int (length s) - (int (length sep) - 1)")
    case False
    then show ?thesis using eq eq' sep "1.prems"(3) by auto
  next
    case True
    obtain slots1 vec1 h1 where grow: "?grow = Inr (slots1, vec1, h1)"
      using eq sep True by (auto simp: andThen_Inr_iff)
    obtain slots2 where grow': "?grow' = Inr slots2"
      using eq' sep True by (auto simp: andThen_Inr_iff)
    have slots: "slots2 = slots1"
      using grow grow' "1.prems"(3) by (cases "mem (size_t (8 * (slots * 2)))") (auto simp: andThen_Inr_iff split: if_splits)
    show ?thesis
    proof (cases "split_hit s sep j")
      case hit: True
      obtain t h2 where r: "split_blocks mal rea s sep slots1 (j + length sep - 1 + 1) (j + length sep) vec1 (tokens @ [t]) h2 = Inr (v, ts, st, g)"
        using eq sep True hit unfolding grow by (auto simp: andThen_Inr_iff)
      obtain x where "split_loop mem s sep slots1 (j + length sep - 1 + 1) (j + length sep) (xs @ [x]) = Inr (ys, st')"
        using eq' sep True hit unfolding grow' slots by (auto simp: andThen_Inr_iff)
      then show ?thesis using "1.IH"(1) [OF sep True hit r] "1.prems"(3) by simp
    next
      case miss: False
      have r: "split_blocks mal rea s sep slots1 (j + 1) start vec1 tokens h1 = Inr (v, ts, st, g)"
        using eq sep True miss unfolding grow by auto
      have "split_loop mem s sep slots1 (j + 1) start xs = Inr (ys, st')"
        using eq' sep True miss unfolding grow' slots by auto
      then show ?thesis by (rule "1.IH"(2) [OF sep True miss r _ "1.prems"(3)])
    qed
  qed
qed

text \<open>
  Splitting a string and freeing the result restores the allocator: \<open>sdsfreesplitres\<close>, called with
  the array and the number of tokens \<open>sdssplitlen\<close> answers, frees each block once and nothing else,
  and the store and its count are as before the split.
\<close>

theorem split_then_free_restores:
  assumes "blocks_fresh mal" and "realloc_moves rea" and "zreach mal rea h"
    and "sdssplitlen_blocks mal rea s sep h = Inr (r, g)" and "sdssplitlen mem s sep = Inr tokens"
  shows "sdsfreesplitres r (case tokens of None \<Rightarrow> 0 | Some ts \<Rightarrow> length ts) g = Inr h"
proof (cases "length sep < 1")
  case True
  then show ?thesis using assms(4,5) by (auto simp: sdssplitlen_blocks_def sdssplitlen_def sdsfreesplitres_def)
next
  case False
  have ok: "stat_ok h" by (rule zreach_stat [OF assms(1-3)])
  obtain vec h1 where vec: "zmalloc mal (of_nat (8 * 5)) h = Inr (vec, h1)"
    using assms(4) False by (auto simp: sdssplitlen_blocks_def andThen_Inr_iff)
  have o: "split_owns vec [] h h1"
    using owns_zmalloc(1) [OF assms(1) owns_empty [OF ok] vec] by (simp add: split_owns_def)
  show ?thesis
  proof (cases "length s = 0")
    case True
    then have "r = Some (vec, sds_of [])" "g = h1" "tokens = Some []"
      using assms(4,5) False vec by (auto simp: sdssplitlen_blocks_def sdssplitlen_def andThen_Inr_iff)
    then show ?thesis using freesplitres_restores [OF ok o] by simp
  next
    case nonempty: False
    obtain v ts st h2 t where b: "split_blocks mal rea s sep 5 0 0 vec [] h1 = Inr (v, ts, st, h2)"
      "sdsnewlen_block mal (length s - st) h2 = Inr (t, g)" "r = Some (v, ts @ [t])"
      using assms(4) False nonempty vec by (auto simp: sdssplitlen_blocks_def andThen_Inr_iff)
    obtain ys st' y where m: "split_loop mem s sep 5 0 0 [] = Inr (ys, st')" "tokens = Some (ys @ [y])"
      using assms(5) False nonempty by (auto simp: sdssplitlen_def andThen_Inr_iff)
    obtain qs where qs: "ts = sds_of qs" "split_owns v qs h h2"
      using split_blocks_owns [OF assms(1,2) b(1) _ o] by auto
    obtain p where p: "t = p + sizeof_sdshdr" "split_owns v (qs @ [p]) h g"
      using sdsnewlen_block_owns [OF assms(1) qs(2) b(2)] by blast
    have "length ys = length qs" using split_blocks_counts [OF b(1) m(1)] qs(1) by simp
    then show ?thesis using freesplitres_restores [OF ok p(2)] by (simp add: b(3) m(2) qs(1) p(1))
  qed
qed

end
