(* ===== verification/SdsTests.thy ===== *)
theory SdsTests
  imports SdsQuote SdsFormat
begin

text \<open>
  The test program at the end of \<^verbatim>\<open>proxy/sds.c\<close> (built with \<open>SDS_TEST_MAIN\<close>): its blocks as
  functions of the allocator that answer the outcome of each test.  The theorem is that all tests
  pass whatever the memory holds, not only for the run a tester happens to see.
\<close>

subsection \<open>The tests\<close>

text \<open>\<open>memcmp(x, xs, n) == 0\<close>, and the usual test of the length and the bytes.\<close>

definition mem_is :: "sdshdr \<Rightarrow> string \<Rightarrow> bool outcome" where
  "mem_is x xs = andThen (chars_at (sbuf x) 0 (length xs)) (\<lambda>b. Inr (memcmp b xs = 0))"

definition str_is :: "sdshdr \<Rightarrow> nat \<Rightarrow> string \<Rightarrow> bool outcome" where
  "str_is x n xs = (if sdslen x = n then mem_is x xs else Inr False)"

definition test_copies :: "blocks \<Rightarrow> bool list outcome" where
  "test_copies mem =
     andThen (sdsnew mem (Some ''foo'')) (\<lambda>x. andThen (str_is x 3 (''foo'' @ [NULc])) (\<lambda>t1.
     andThen (sdsnewlen mem (Some ''foo'') 2) (\<lambda>x. andThen (str_is x 2 (''fo'' @ [NULc])) (\<lambda>t2.
     andThen (sdscat mem x ''bar'') (\<lambda>x. andThen (str_is x 5 (''fobar'' @ [NULc])) (\<lambda>t3.
     andThen (sdscpy mem x ''a'') (\<lambda>x. andThen (str_is x 1 (''a'' @ [NULc])) (\<lambda>t4.
     andThen (sdscpy mem x ''xyzxxxxxxxxxxyyyyyyyyyykkkkkkkkkk'') (\<lambda>x.
     andThen (str_is x 33 ''xyzxxxxxxxxxxyyyyyyyyyykkkkkkkkkk'') (\<lambda>t5.
       Inr [t1, t2, t3, t4, t5]))))))))))"

text \<open>\<open>buf\<close> holds the bytes of the buffers on the stack; 123 is printed as \<open>vsnprintf\<close> prints it.\<close>

definition test_formats :: "blocks \<Rightarrow> string \<Rightarrow> bool list outcome" where
  "test_formats mem buf =
     andThen (sdsempty mem) (\<lambda>x. andThen (sdscatprintf mem x ''%d'' buf (decimal 123)) (\<lambda>x.
     andThen (str_is x 3 (''123'' @ [NULc])) (\<lambda>t1.
     andThen (sdsnew mem (Some ''--'')) (\<lambda>x.
     andThen (sdscatfmt mem x buf ''Hello %s World %I,%I--''
        [ArgStr ''Hi!'', ArgLong (of_int (- (2 ^ 63))), ArgLong (of_int (2 ^ 63 - 1))]) (\<lambda>x.
     andThen (str_is x 60 ''--Hello Hi! World -9223372036854775808,9223372036854775807--'') (\<lambda>t2.
     andThen (sdsnew mem (Some ''--'')) (\<lambda>x.
     andThen (sdscatfmt mem x buf ''%u,%U--'' [ArgUint (- 1), ArgUlong (- 1)]) (\<lambda>x.
     andThen (str_is x 35 ''--4294967295,18446744073709551615--'') (\<lambda>t3.
       Inr [t1, t2, t3])))))))))"

text \<open>A range of a copy of \<open>x\<close>.\<close>

definition test_range :: "blocks \<Rightarrow> sdshdr \<Rightarrow> int \<Rightarrow> int \<Rightarrow> string \<Rightarrow> bool outcome" where
  "test_range mem x start stop xs =
     andThen (sdsdup mem x) (\<lambda>y. andThen (sdsrange y start stop) (\<lambda>y. str_is y (length xs) (xs @ [NULc])))"

definition test_ranges :: "blocks \<Rightarrow> bool list outcome" where
  "test_ranges mem =
     andThen (sdsnew mem (Some ''xxciaoyyy'')) (\<lambda>x. andThen (sdstrim x ''xy'') (\<lambda>x.
     andThen (str_is x 4 (''ciao'' @ [NULc])) (\<lambda>t0.
     andThen (test_range mem x 1 1 ''i'') (\<lambda>t1. andThen (test_range mem x 1 (-1) ''iao'') (\<lambda>t2.
     andThen (test_range mem x (-2) (-1) ''ao'') (\<lambda>t3. andThen (test_range mem x 2 1 '''') (\<lambda>t4.
     andThen (test_range mem x 1 100 ''iao'') (\<lambda>t5. andThen (test_range mem x 100 100 '''') (\<lambda>t6.
       Inr [t0, t1, t2, t3, t4, t5, t6])))))))))"

definition test_cmp :: "blocks \<Rightarrow> string \<Rightarrow> string \<Rightarrow> (int \<Rightarrow> bool) \<Rightarrow> bool outcome" where
  "test_cmp mem s t p =
     andThen (sdsnew mem (Some s)) (\<lambda>x. andThen (sdsnew mem (Some t)) (\<lambda>y. andThen (sdscmp x y) (\<lambda>r. Inr (p r))))"

definition test_comparisons :: "blocks \<Rightarrow> string \<Rightarrow> bool list outcome" where
  "test_comparisons mem buf =
     andThen (test_cmp mem ''foo'' ''foa'' (\<lambda>r. r > 0)) (\<lambda>t1.
     andThen (test_cmp mem ''bar'' ''bar'' (\<lambda>r. r = 0)) (\<lambda>t2.
     andThen (test_cmp mem ''aar'' ''bar'' (\<lambda>r. r < 0)) (\<lambda>t3.
     andThen (sdsnewlen mem (Some [CHR 0x07, CHR 0x0A, NULc, CHR ''f'', CHR ''o'', CHR ''o'', CHR 0x0D]) 7) (\<lambda>x.
     andThen (sdsempty mem) (\<lambda>y. andThen (chars_at (sbuf x) 0 (sdslen x)) (\<lambda>p. andThen (sdscatrepr mem buf y p) (\<lambda>y.
     andThen (mem_is y ([CHR 0x22, CHR 0x5C, CHR ''a'', CHR 0x5C, CHR ''n'', CHR 0x5C] @ ''x00foo'' @ [CHR 0x5C, CHR ''r'', CHR 0x22])) (\<lambda>t4.
       Inr [t1, t2, t3, t4]))))))))"

definition test_room :: "blocks \<Rightarrow> bool list outcome" where
  "test_room mem =
     andThen (sdsnew mem (Some ''0'')) (\<lambda>x.
     let t1 = (slen x = 1 \<and> sfree x = 0) in
     andThen (sdsMakeRoomFor mem x 1) (\<lambda>x.
     let t2 = (slen x = 1 \<and> sfree x > 0); oldfree = sfree x in
     andThen (blit (sbuf x) 1 ''1'') (\<lambda>b.
     andThen (sdsIncrLen (x\<lparr>sbuf := b\<rparr>) 1) (\<lambda>x.
     andThen (chars_at (sbuf x) 0 2) (\<lambda>c.
       Inr [t1, t2, c = ''01'', slen x = 2, sfree x = oldfree - 1])))))"

definition sds_test_main :: "blocks \<Rightarrow> string \<Rightarrow> bool list outcome" where
  "sds_test_main mem buf =
     andThen (test_copies mem) (\<lambda>a. andThen (test_formats mem buf) (\<lambda>b. andThen (test_ranges mem) (\<lambda>c.
     andThen (test_comparisons mem buf) (\<lambda>d. andThen (test_room mem) (\<lambda>e. Inr (a @ b @ c @ d @ e))))))"

subsection \<open>What the operations give\<close>

lemma memcmp_same: "memcmp xs xs = 0"
  by (induction xs) simp_all

lemma mem_is_ok:
  assumes "sds_rep h s" and "take (length xs) (s @ [NULc]) = xs" and "length xs \<le> length s + 1"
  shows "mem_is h xs = Inr True"
proof -
  obtain r where r: "sbuf h = s @ NULc # r" using assms(1) by (rule sds_repE)
  have "take (length xs) (sbuf h) = xs" using assms(2,3) by (cases "length xs - length s") (auto simp: r)
  then show ?thesis using assms(3) by (simp add: mem_is_def chars_at_def r memcmp_same)
qed

lemma str_is_ok:
  "sds_rep h s \<Longrightarrow> length s = n \<Longrightarrow> take (length xs) (s @ [NULc]) = xs \<Longrightarrow> length xs \<le> n + 1 \<Longrightarrow> str_is h n xs = Inr True"
  using mem_is_ok [of h s xs] by (simp add: str_is_def sds_rep_len)

lemma new_rep: "mem_ok mem \<Longrightarrow> length xs < 2 ^ 32 \<Longrightarrow> \<exists>h. sdsnew mem (Some xs) = Inr h \<and> sds_rep h xs \<and> sdsavail h = 0"
  using sdsnewlen_ok [of mem xs] by (simp add: sdsnew_def)

lemma empty_rep: "mem_ok mem \<Longrightarrow> \<exists>h. sdsempty mem = Inr h \<and> sds_rep h []"
  using sdsnewlen_ok [of mem "[]"] by (auto simp: sdsempty_def)

lemma dup_rep:
  assumes "mem_ok mem" and "sds_rep h s" and "length s < 2 ^ 32"
  shows "\<exists>g. sdsdup mem h = Inr g \<and> sds_rep g s"
proof -
  obtain r where "sbuf h = s @ NULc # r" using assms(2) by (rule sds_repE)
  then have "chars_at (sbuf h) 0 (sdslen h) = Inr s" by (simp add: chars_at_def sds_rep_len [OF assms(2)])
  then show ?thesis using sdsnewlen_ok [OF assms(1,3)] by (auto simp: sdsdup_def sds_rep_len [OF assms(2)])
qed

text \<open>Only the first \<open>n\<close> of the bytes are copied.\<close>

lemma newlen_cut: "sdsnewlen mem (Some xs) n = sdsnewlen mem (Some (take n xs)) n"
  by (simp add: sdsnewlen_def cong: if_cong)

text \<open>The caller writes \<open>t\<close> behind the string itself, then \<open>sdsIncrLen\<close> takes it in.\<close>

lemma sdsIncrLen_ok:
  assumes h: "sds_rep h s" and room: "length t \<le> sdsavail h" and b: "blit (sbuf h) (length s) t = Inr b" and n: "length s + length t < 2 ^ 31"
  shows "\<exists>g. sdsIncrLen (h\<lparr>sbuf := b\<rparr>) (int (length t)) = Inr g \<and> sds_rep g (s @ t) \<and>
    slen g = slen h + of_nat (length t) \<and> sfree g = sfree h - of_nat (length t)"
proof -
  obtain r where r: "sbuf h = s @ NULc # r" "slen h = of_nat (length s)" "sfree h = of_nat (length r)" "length s + length r < 2 ^ 32"
    using h by (rule sds_repE)
  have fit: "length t \<le> length r" using room r(3,4) by (simp add: sdsavail_def sds_simp)
  have b': "b = s @ t @ drop (length t) (NULc # r)" using b fit by (auto simp: r(1) blit_def split: if_splits)
  obtain c q where q: "drop (length t) (NULc # r) = c # q" "length q = length r - length t"
    using fit by (cases "drop (length t) (NULc # r)") (auto dest: arg_cong [where f = length])
  have len: "unat (slen h + of_nat (length t)) = length (s @ t)"
    using n r(2) unat_sum32 [of "slen h" "length s" "of_nat (length t)" "length t"] by simp
  have "sfree h - of_nat (length t) = of_nat (length q)" using fit r(3) by (simp add: q(2) of_nat_diff)
  moreover have "slen h + of_nat (length t) = of_nat (length (s @ t))" by (simp add: r(2))
  ultimately have g: "h\<lparr>slen := slen h + of_nat (length t), sfree := sfree h - of_nat (length t), sbuf := (s @ t) @ NULc # q\<rparr> =
      \<lparr>slen = of_nat (length (s @ t)), sfree = of_nat (length q), sbuf = (s @ t) @ NULc # q\<rparr>" by simp
  have "sds_rep (h\<lparr>slen := slen h + of_nat (length t), sfree := sfree h - of_nat (length t), sbuf := (s @ t) @ NULc # q\<rparr>) (s @ t)"
    unfolding g using fit r(4) q(2) by (intro sds_repI) simp_all
  moreover have "blit b (unat (slen h + of_nat (length t))) [NULc] = Inr ((s @ t) @ NULc # q)"
    unfolding len b' q(1) using blit_app [of "s @ t" "length (s @ t)" "[NULc]" "c # q"] by simp
  moreover have "int (length t) \<le> uint (sfree h)" using room unfolding sdsavail_def by (simp only: uint_nat of_nat_le_iff)
  ultimately show ?thesis by (simp add: sdsIncrLen_def Let_def)
qed

lemma fmt_chars: "CHR ''%'' \<notin> set p \<Longrightarrow> fmt_spec f args out \<Longrightarrow> fmt_spec (p @ f) args (p @ out)"
  by (induction p) (auto intro: fmt_spec.fmt_char)

lemma fmt_text: "CHR ''%'' \<notin> set p \<Longrightarrow> fmt_spec p [] p"
  using fmt_chars [of p "[]" "[]" "[]"] by (simp add: fmt_spec.fmt_end)

lemma fmt_insert:
  "c \<in> set ''sSiIuU'' \<Longrightarrow> arg_spec c a t \<Longrightarrow> fmt_spec f args out \<Longrightarrow> fmt_spec ([CHR ''%'', c] @ f) (a # args) (t @ out)"
  using fmt_spec.fmt_arg [of c a t] by simp

lemma digit_chars:
  "char_of (48 :: nat) = CHR ''0''" "char_of (49 :: nat) = CHR ''1''" "char_of (50 :: nat) = CHR ''2''" "char_of (51 :: nat) = CHR ''3''"
  "char_of (52 :: nat) = CHR ''4''" "char_of (53 :: nat) = CHR ''5''" "char_of (54 :: nat) = CHR ''6''" "char_of (55 :: nat) = CHR ''7''"
  "char_of (56 :: nat) = CHR ''8''" "char_of (57 :: nat) = CHR ''9''"
  by code_simp+

lemma number_texts:
  "decimal 123 = ''123''" "decimal 4294967295 = ''4294967295''" "decimal 18446744073709551615 = ''18446744073709551615''"
  "signed_decimal (- 9223372036854775808) = ''-9223372036854775808''" "signed_decimal 9223372036854775807 = ''9223372036854775807''"
  by (simp_all add: signed_decimal_def decimal.simps digit_chars)

lemma limit_args:
  "arg_spec CHR ''I'' (ArgLong (of_int (- (2 ^ 63)))) ''-9223372036854775808''"
  "arg_spec CHR ''I'' (ArgLong (of_int (2 ^ 63 - 1))) ''9223372036854775807''"
  "arg_spec CHR ''u'' (ArgUint (- 1)) ''4294967295''" "arg_spec CHR ''U'' (ArgUlong (- 1)) ''18446744073709551615''"
proof -
  have "sint (of_int (- (2 ^ 63)) :: 64 word) = - 9223372036854775808" by (simp add: sint_sbintrunc')
  moreover have "sint (of_int (2 ^ 63 - 1) :: 64 word) = 9223372036854775807" by (simp add: sint_sbintrunc')
  moreover have "unat (- 1 :: 32 word) = 4294967295" by (simp add: unat_eq_nat_uint uint_word_ariths)
  moreover have "unat (- 1 :: 64 word) = 18446744073709551615" by (simp add: unat_eq_nat_uint uint_word_ariths)
  ultimately show "arg_spec CHR ''I'' (ArgLong (of_int (- (2 ^ 63)))) ''-9223372036854775808''"
    "arg_spec CHR ''I'' (ArgLong (of_int (2 ^ 63 - 1))) ''9223372036854775807''"
    "arg_spec CHR ''u'' (ArgUint (- 1)) ''4294967295''" "arg_spec CHR ''U'' (ArgUlong (- 1)) ''18446744073709551615''"
    by (simp_all only: arg_spec_def fmt_arg.case number_texts simp_thms)
qed

subsection \<open>All tests pass\<close>

lemma copies_pass:
  assumes mem: "mem_ok mem"
  shows "test_copies mem = Inr (replicate 5 True)"
proof -
  obtain x1 where 1: "sdsnew mem (Some ''foo'') = Inr x1" "sds_rep x1 ''foo''" using new_rep [OF mem, of "''foo''"] by auto
  obtain x2 where 2: "sdsnewlen mem (Some ''foo'') 2 = Inr x2" "sds_rep x2 ''fo''"
    using sdsnewlen_ok [OF mem, of "''fo''"] newlen_cut [of mem "''foo''" 2] by (auto simp flip: numeral_2_eq_2)
  obtain x3 where 3: "sdscat mem x2 ''bar'' = Inr x3" "sds_rep x3 ''fobar''"
    using sdscatlen_ok [OF mem 2(2), of "''bar''"] by (auto simp: sdscat_def)
  obtain x4 where 4: "sdscpy mem x3 ''a'' = Inr x4" "sds_rep x4 ''a''"
    using sdscpylen_ok [OF mem 3(2), of "''a''"] by (auto simp: sdscpy_def)
  obtain x5 where 5: "sdscpy mem x4 ''xyzxxxxxxxxxxyyyyyyyyyykkkkkkkkkk'' = Inr x5" "sds_rep x5 ''xyzxxxxxxxxxxyyyyyyyyyykkkkkkkkkk''"
    using sdscpylen_ok [OF mem 4(2), of "''xyzxxxxxxxxxxyyyyyyyyyykkkkkkkkkk''"] by (auto simp: sdscpy_def)
  have t: "str_is x1 3 (''foo'' @ [NULc]) = Inr True" "str_is x2 2 (''fo'' @ [NULc]) = Inr True"
    "str_is x3 5 (''fobar'' @ [NULc]) = Inr True" "str_is x4 1 (''a'' @ [NULc]) = Inr True"
    "str_is x5 33 ''xyzxxxxxxxxxxyyyyyyyyyykkkkkkkkkk'' = Inr True"
    by (rule str_is_ok [OF 1(2)] str_is_ok [OF 2(2)] str_is_ok [OF 3(2)] str_is_ok [OF 4(2)] str_is_ok [OF 5(2)]; simp)+
  show ?thesis
    by (simp only: test_copies_def 1(1) 2(1) 3(1) 4(1) 5(1) t andThen_simps) (simp add: numeral_eq_Suc)
qed

lemma formats_pass:
  assumes mem: "mem_ok mem" and buf: "SDS_LLSTR_SIZE \<le> length buf"
  shows "test_formats mem buf = Inr (replicate 3 True)"
proof -
  have two: "2 \<le> length buf" using buf by (simp add: SDS_LLSTR_SIZE_def)
  obtain x0 where 0: "sdsempty mem = Inr x0" "sds_rep x0 []" using empty_rep [OF mem] by auto
  have "NULc \<notin> set (decimal 123)" by (simp add: number_texts)
  then obtain x1 where 1: "sdscatprintf mem x0 ''%d'' buf (decimal 123) = Inr x1" "sds_rep x1 ''123''"
    using sds.appendsD [OF sdscatvprintf_appends [OF mem _ two] 0(2), of "decimal 123" "''%d''"]
    by (auto simp: sdscatprintf_def number_texts)
  obtain x2 where 2: "sdsnew mem (Some ''--'') = Inr x2" "sds_rep x2 ''--''" using new_rep [OF mem, of "''--''"] by auto
  have "fmt_spec (''Hello '' @ [CHR ''%'', CHR ''s''] @ '' World '' @ [CHR ''%'', CHR ''I''] @ '','' @ [CHR ''%'', CHR ''I''] @ ''--'')
      [ArgStr ''Hi!'', ArgLong (of_int (- (2 ^ 63))), ArgLong (of_int (2 ^ 63 - 1))]
      (''Hello '' @ ''Hi!'' @ '' World '' @ ''-9223372036854775808'' @ '','' @ ''9223372036854775807'' @ ''--'')"
    by (intro fmt_chars fmt_insert fmt_text limit_args) (simp_all add: arg_spec_def)
  then obtain x3 where 3: "sdscatfmt mem x2 buf ''Hello %s World %I,%I--''
      [ArgStr ''Hi!'', ArgLong (of_int (- (2 ^ 63))), ArgLong (of_int (2 ^ 63 - 1))] = Inr x3"
    "sds_rep x3 ''--Hello Hi! World -9223372036854775808,9223372036854775807--''"
    using sdscatfmt_ok [OF mem buf 2(2)] by fastforce
  have "fmt_spec ([CHR ''%'', CHR ''u''] @ '','' @ [CHR ''%'', CHR ''U''] @ ''--'') [ArgUint (- 1), ArgUlong (- 1)]
      (''4294967295'' @ '','' @ ''18446744073709551615'' @ ''--'')"
    by (intro fmt_chars fmt_insert fmt_text limit_args) simp_all
  then obtain x4 where 4: "sdscatfmt mem x2 buf ''%u,%U--'' [ArgUint (- 1), ArgUlong (- 1)] = Inr x4"
    "sds_rep x4 ''--4294967295,18446744073709551615--''"
    using sdscatfmt_ok [OF mem buf 2(2)] by fastforce
  have t: "str_is x1 3 (''123'' @ [NULc]) = Inr True"
    "str_is x3 60 ''--Hello Hi! World -9223372036854775808,9223372036854775807--'' = Inr True"
    "str_is x4 35 ''--4294967295,18446744073709551615--'' = Inr True"
    by (rule str_is_ok [OF 1(2)] str_is_ok [OF 3(2)] str_is_ok [OF 4(2)]; simp)+
  show ?thesis
    by (simp only: test_formats_def 0(1) 1(1) 2(1) 3(1) 4(1) t andThen_simps) (simp add: numeral_eq_Suc)
qed

lemma range_passes:
  assumes mem: "mem_ok mem" and x: "sds_rep x s" "length s < 2 ^ 31" and ints: "- (2 ^ 31) \<le> a" "a < 2 ^ 31" "- (2 ^ 31) \<le> e" "e < 2 ^ 31"
    and xs: "range_spec s a e = xs"
  shows "test_range mem x a e xs = Inr True"
proof -
  obtain y where y: "sdsdup mem x = Inr y" "sds_rep y s" using dup_rep [OF mem x(1)] x(2) by auto
  obtain z where "sdsrange y a e = Inr z" "sds_rep z xs" using sdsrange_ok [OF y(2) x(2) ints] xs by auto
  then show ?thesis using str_is_ok [of z xs "length xs" "xs @ [NULc]"] by (simp add: test_range_def y(1))
qed

lemma ranges_pass:
  assumes mem: "mem_ok mem"
  shows "test_ranges mem = Inr (replicate 7 True)"
proof -
  obtain x0 where 0: "sdsnew mem (Some ''xxciaoyyy'') = Inr x0" "sds_rep x0 ''xxciaoyyy''"
    using new_rep [OF mem, of "''xxciaoyyy''"] by auto
  have "trim_spec ''xy'' ''xxciaoyyy'' = ''ciao''" by code_simp
  then obtain x where 1: "sdstrim x0 ''xy'' = Inr x" "sds_rep x ''ciao''" using sdstrim_ok [OF 0(2), of "''xy''"] by auto
  have t: "str_is x 4 (''ciao'' @ [NULc]) = Inr True" by (rule str_is_ok [OF 1(2)]; simp)
  have r: "range_spec ''ciao'' 1 1 = ''i''" "range_spec ''ciao'' 1 (-1) = ''iao''" "range_spec ''ciao'' (-2) (-1) = ''ao''"
    "range_spec ''ciao'' 2 1 = ''''" "range_spec ''ciao'' 1 100 = ''iao''" "range_spec ''ciao'' 100 100 = ''''"
    by code_simp+
  have "test_range mem x 1 1 ''i'' = Inr True" "test_range mem x 1 (-1) ''iao'' = Inr True"
    "test_range mem x (-2) (-1) ''ao'' = Inr True" "test_range mem x 2 1 '''' = Inr True"
    "test_range mem x 1 100 ''iao'' = Inr True" "test_range mem x 100 100 '''' = Inr True"
    by (rule range_passes [OF mem 1(2)]; simp add: r)+
  then show ?thesis by (simp only: test_ranges_def 0(1) 1(1) t andThen_simps) (simp add: numeral_eq_Suc)
qed

lemma cmp_passes:
  assumes mem: "mem_ok mem" and s: "length s < 2 ^ 31" "length t < 2 ^ 31"
    and p: "\<And>r. (r < 0 \<longleftrightarrow> byte_less s t) \<Longrightarrow> (r = 0 \<longleftrightarrow> s = t) \<Longrightarrow> p r"
  shows "test_cmp mem s t p = Inr True"
proof -
  obtain x where x: "sdsnew mem (Some s) = Inr x" "sds_rep x s" using new_rep [OF mem, of s] s by auto
  obtain y where y: "sdsnew mem (Some t) = Inr y" "sds_rep y t" using new_rep [OF mem, of t] s by auto
  obtain r where "sdscmp x y = Inr r" "r < 0 \<longleftrightarrow> byte_less s t" "r = 0 \<longleftrightarrow> s = t"
    using sdscmp_ok [OF x(2) y(2) s] by auto
  then show ?thesis using p by (simp add: test_cmp_def x(1) y(1))
qed

lemma comparisons_pass:
  assumes mem: "mem_ok mem" and buf: "SDS_LLSTR_SIZE \<le> length buf"
  shows "test_comparisons mem buf = Inr (replicate 4 True)"
proof -
  let ?s = "[CHR 0x07, CHR 0x0A, NULc, CHR ''f'', CHR ''o'', CHR ''o'', CHR 0x0D]"
  let ?q = "[CHR 0x22, CHR 0x5C, CHR ''a'', CHR 0x5C, CHR ''n'', CHR 0x5C] @ ''x00foo'' @ [CHR 0x5C, CHR ''r'', CHR 0x22]"
  have less: "\<not> byte_less ''foo'' ''foa''" "byte_less ''aar'' ''bar''" "\<not> byte_less ''bar'' ''bar''" by code_simp+
  have c: "test_cmp mem ''foo'' ''foa'' (\<lambda>r. r > 0) = Inr True" "test_cmp mem ''bar'' ''bar'' (\<lambda>r. r = 0) = Inr True"
    "test_cmp mem ''aar'' ''bar'' (\<lambda>r. r < 0) = Inr True"
    by (rule cmp_passes [OF mem]; simp add: less)+
  have seven: "length ?s = 7" by simp
  obtain x where x: "sdsnewlen mem (Some ?s) 7 = Inr x" "sds_rep x ?s"
    using sdsnewlen_ok [OF mem, of ?s, unfolded seven] by auto
  obtain y where y: "sdsempty mem = Inr y" "sds_rep y []" using empty_rep [OF mem] by auto
  obtain r where "sbuf x = ?s @ NULc # r" using x(2) by (rule sds_repE)
  then have p: "chars_at (sbuf x) 0 (sdslen x) = Inr ?s" by (simp add: chars_at_def sds_rep_len [OF x(2)])
  have q: "quoted ?s = ?q" by code_simp
  obtain z where z: "sdscatrepr mem buf y ?s = Inr z" "sds_rep z ?q"
    using sds.appendsD [OF sdscatrepr_appends [OF mem] y(2), of buf ?s] buf q by (auto simp: SDS_LLSTR_SIZE_def)
  have "mem_is z ?q = Inr True" by (rule mem_is_ok [OF z(2)]) simp_all
  then show ?thesis by (simp only: test_comparisons_def c x(1) y(1) p z(1) andThen_simps) (simp add: numeral_eq_Suc)
qed

lemma room_passes:
  assumes mem: "mem_ok mem"
  shows "test_room mem = Inr (replicate 5 True)"
proof -
  obtain x0 where 0: "sdsnew mem (Some ''0'') = Inr x0" "sds_rep x0 ''0''" "sdsavail x0 = 0"
    using new_rep [OF mem, of "''0''"] by auto
  obtain x where 1: "sdsMakeRoomFor mem x0 1 = Inr x" "sds_rep x ''0''" "1 \<le> sdsavail x" "slen x = slen x0"
    using sdsMakeRoomFor_ok [OF mem 0(2), of 1] by auto
  obtain r where r: "sbuf x = ''0'' @ NULc # r" "slen x = of_nat (length ''0'')" using 1(2) by (rule sds_repE)
  obtain b where b: "blit (sbuf x) 1 ''1'' = Inr b" by (simp add: r blit_def)
  obtain y where y: "sdsIncrLen (x\<lparr>sbuf := b\<rparr>) 1 = Inr y" "sds_rep y ''01''" "slen y = slen x + 1" "sfree y = sfree x - 1"
    using sdsIncrLen_ok [OF 1(2), of "''1''" b] 1(3) b by auto
  obtain r' where "sbuf y = ''01'' @ NULc # r'" using y(2) by (rule sds_repE)
  then have c: "chars_at (sbuf y) 0 2 = Inr ''01''" by (simp add: chars_at_def numeral_2_eq_2)
  have "sfree x0 = 0" using 0(3) by (simp add: sdsavail_def unat_eq_0)
  moreover have "sfree x > 0" using 1(3) by (simp add: sdsavail_def word_gt_0 flip: unat_eq_0)
  moreover have "slen x = 1" "slen x0 = 1" using r(2) 1(4) by simp_all
  ultimately show ?thesis
    using y(3,4) by (simp only: test_room_def 0(1) 1(1) b y(1) c Let_def andThen_simps) (simp add: eval_nat_numeral)
qed

text \<open>
  C14.  The test program of the string library passes as a whole: with any allocator that answers
  blocks of the size asked for, whatever bytes they and the stack hold, it ends without a fault
  and each of its 24 tests is true.
\<close>

theorem sds_tests_pass:
  assumes "mem_ok mem" and "SDS_LLSTR_SIZE \<le> length buf"
  shows "sds_test_main mem buf = Inr (replicate 24 True)"
  by (simp only: sds_test_main_def copies_pass [OF assms(1)] formats_pass [OF assms] ranges_pass [OF assms(1)]
      comparisons_pass [OF assms] room_passes [OF assms(1)] andThen_simps) (simp add: numeral_eq_Suc)

theorem sds_tests_pass_witness:
  "sds_test_main (\<lambda>n. Some (replicate n CHR ''?'')) (replicate 1024 CHR ''!'') = Inr (replicate 24 True)"
  by (rule sds_tests_pass) (simp_all add: mem_ok_def SDS_LLSTR_SIZE_def)

end
