(* ===== verification/AeBlocks.thy ===== *)
theory AeBlocks
  imports Ae Zmalloc
begin

text \<open>
  The memory and the descriptor of an event loop: what \<open>aeCreateEventLoop\<close>, \<open>aeApiCreate\<close>,
  \<open>aeCreateTimeEvent\<close>, \<open>aeDeleteTimeEvent\<close>, \<open>aeResizeSetSize\<close>, \<open>aeApiResize\<close>, \<open>aeApiFree\<close> and
  \<open>aeDeleteEventLoop\<close> of \<^verbatim>\<open>proxy/ae.c\<close> take from \<open>zmalloc\<close> and \<open>epoll_create\<close> and give back.
  \<^verbatim>\<open>Ae\<close> models what these calls do to the tables; here are the blocks the tables lie in.
\<close>

subsection \<open>The blocks of a loop\<close>

definition sizeof_aeEventLoop :: "64 word" where "sizeof_aeEventLoop = 72"
definition sizeof_aeFileEvent :: "64 word" where "sizeof_aeFileEvent = 32"
definition sizeof_aeFiredEvent :: "64 word" where "sizeof_aeFiredEvent = 8"
definition sizeof_aeTimeEvent :: "64 word" where "sizeof_aeTimeEvent = 56"
definition sizeof_aeApiState :: "64 word" where "sizeof_aeApiState = 16"
definition sizeof_epoll_event :: "64 word" where "sizeof_epoll_event = 12"

record api_state =
  api_ptr :: zaddr
  epoll_events_ptr :: zaddr
  epfd :: int

record loop_blocks = api_state +
  loop_ptr :: zaddr
  events_ptr :: zaddr
  fired_ptr :: zaddr
  timer_ptrs :: "zaddr list"

text \<open>The allocator and the descriptors that are open.\<close>

type_synonym sys = "zstate \<times> int set"

subsection \<open>The calls\<close>

text \<open>\<open>ep\<close> is the answer of \<open>epoll_create\<close>.  \<open>zmalloc\<close> never returns \<open>NULL\<close>: it ends the process.\<close>

definition aeApiCreate :: "libc_malloc \<Rightarrow> int \<Rightarrow> int \<Rightarrow> sys \<Rightarrow> (api_state option \<times> sys) outcome" where
  "aeApiCreate mal ep sz = (\<lambda>(h, opened).
     andThen (zmalloc mal sizeof_aeApiState h) (\<lambda>(state, h).
     andThen (zmalloc mal (sizeof_epoll_event * of_int sz) h) (\<lambda>(evs, h).
       if ep = -1 then
         andThen (zfree evs h) (\<lambda>h. andThen (zfree state h) (\<lambda>h. Inr (None, (h, opened))))
       else Inr (Some \<lparr>api_ptr = state, epoll_events_ptr = evs, epfd = ep\<rparr>, (h, insert ep opened)))))"

definition aeCreateEventLoop_blocks ::
  "libc_malloc \<Rightarrow> int \<Rightarrow> int \<Rightarrow> sys \<Rightarrow> (loop_blocks option \<times> sys) outcome" where
  "aeCreateEventLoop_blocks mal ep sz = (\<lambda>(h, opened).
     andThen (zmalloc mal sizeof_aeEventLoop h) (\<lambda>(l, h).
     andThen (zmalloc mal (sizeof_aeFileEvent * of_int sz) h) (\<lambda>(evs, h).
     andThen (zmalloc mal (sizeof_aeFiredEvent * of_int sz) h) (\<lambda>(fired, h).
     andThen (aeApiCreate mal ep sz (h, opened)) (\<lambda>(api, h, opened).
       case api of
         None \<Rightarrow>
           andThen (zfree evs h) (\<lambda>h. andThen (zfree fired h) (\<lambda>h. andThen (zfree l h) (\<lambda>h.
             Inr (None, (h, opened)))))
       | Some a \<Rightarrow>
           Inr (Some \<lparr>api_ptr = api_ptr a, epoll_events_ptr = epoll_events_ptr a, epfd = epfd a,
                      loop_ptr = l, events_ptr = evs, fired_ptr = fired, timer_ptrs = []\<rparr>, (h, opened)))))))"

definition aeApiResize :: "libc_malloc \<Rightarrow> libc_realloc \<Rightarrow> int \<Rightarrow> loop_blocks \<Rightarrow> zstate \<Rightarrow> (loop_blocks \<times> zstate) outcome" where
  "aeApiResize mal rea sz l h =
     andThen (zrealloc mal rea (epoll_events_ptr l) (sizeof_epoll_event * of_int sz) h) (\<lambda>(p, h).
       Inr (l\<lparr>epoll_events_ptr := p\<rparr>, h))"

text \<open>The part of \<open>aeResizeSetSize\<close> behind its two guards.\<close>

definition aeResizeSetSize_blocks ::
  "libc_malloc \<Rightarrow> libc_realloc \<Rightarrow> int \<Rightarrow> loop_blocks \<Rightarrow> zstate \<Rightarrow> (loop_blocks \<times> zstate) outcome" where
  "aeResizeSetSize_blocks mal rea sz l h =
     andThen (aeApiResize mal rea sz l h) (\<lambda>(l, h).
     andThen (zrealloc mal rea (events_ptr l) (sizeof_aeFileEvent * of_int sz) h) (\<lambda>(p, h).
     andThen (zrealloc mal rea (fired_ptr l) (sizeof_aeFiredEvent * of_int sz) h) (\<lambda>(r, h).
       Inr (l\<lparr>events_ptr := p, fired_ptr := r\<rparr>, h))))"

definition aeCreateTimeEvent_block :: "libc_malloc \<Rightarrow> loop_blocks \<Rightarrow> zstate \<Rightarrow> (loop_blocks \<times> zstate) outcome" where
  "aeCreateTimeEvent_block mal l h =
     andThen (zmalloc mal sizeof_aeTimeEvent h) (\<lambda>(te, h). Inr (l\<lparr>timer_ptrs := te # timer_ptrs l\<rparr>, h))"

text \<open>The event \<open>aeDeleteTimeEvent\<close> finds is the \<open>i\<close>-th of the list, or there is none.\<close>

definition aeDeleteTimeEvent_block :: "nat option \<Rightarrow> loop_blocks \<Rightarrow> zstate \<Rightarrow> (loop_blocks \<times> zstate) outcome" where
  "aeDeleteTimeEvent_block found l h =
     (case found of
        None \<Rightarrow> Inr (l, h)
      | Some i \<Rightarrow>
          if length (timer_ptrs l) \<le> i then Inl Undefined
          else andThen (zfree (timer_ptrs l ! i) h) (\<lambda>h.
            Inr (l\<lparr>timer_ptrs := take i (timer_ptrs l) @ drop (Suc i) (timer_ptrs l)\<rparr>, h)))"

definition aeApiFree :: "loop_blocks \<Rightarrow> sys \<Rightarrow> sys outcome" where
  "aeApiFree l = (\<lambda>(h, opened).
     andThen (zfree (epoll_events_ptr l) h) (\<lambda>h.
     andThen (zfree (api_ptr l) h) (\<lambda>h. Inr (h, opened - {epfd l}))))"

definition aeDeleteEventLoop :: "loop_blocks \<Rightarrow> sys \<Rightarrow> sys outcome" where
  "aeDeleteEventLoop l w =
     andThen (aeApiFree l w) (\<lambda>(h, opened).
     andThen (zfree (events_ptr l) h) (\<lambda>h.
     andThen (zfree (fired_ptr l) h) (\<lambda>h.
     andThen (zfree (loop_ptr l) h) (\<lambda>h. Inr (h, opened)))))"

definition aeApiName :: string where "aeApiName = ''epoll''"
definition aeGetApiName :: string where "aeGetApiName = aeApiName"

subsection \<open>What a loop owns\<close>

definition fixed_blocks :: "loop_blocks \<Rightarrow> zaddr list" where
  "fixed_blocks l = [epoll_events_ptr l, api_ptr l, events_ptr l, fired_ptr l, loop_ptr l]"

lemma fixed_blocks_timers [simp]: "fixed_blocks (l\<lparr>timer_ptrs := ps\<rparr>) = fixed_blocks l"
  by (simp add: fixed_blocks_def)

definition loop_owns :: "loop_blocks \<Rightarrow> zstate \<Rightarrow> zstate \<Rightarrow> bool" where
  "loop_owns l h0 h \<longleftrightarrow> distinct (fixed_blocks l @ timer_ptrs l) \<and> owns (set (fixed_blocks l @ timer_ptrs l)) h0 h"

lemma create_loop_owns:
  assumes mal: "blocks_fresh mal" and ok: "stat_ok h"
    and call: "aeCreateEventLoop_blocks mal ep sz (h, opened) = Inr (Some l, (g, opened'))"
  shows "loop_owns l h g \<and> ep \<noteq> -1 \<and> epfd l = ep \<and> timer_ptrs l = [] \<and> opened' = insert ep opened"
proof -
  obtain a h1 b h2 c h3 d h4 e where
    s: "zmalloc mal sizeof_aeEventLoop h = Inr (a, h1)"
    "zmalloc mal (sizeof_aeFileEvent * of_int sz) h1 = Inr (b, h2)"
    "zmalloc mal (sizeof_aeFiredEvent * of_int sz) h2 = Inr (c, h3)"
    "zmalloc mal sizeof_aeApiState h3 = Inr (d, h4)"
    "zmalloc mal (sizeof_epoll_event * of_int sz) h4 = Inr (e, g)"
    and r: "ep \<noteq> -1" "opened' = insert ep opened"
      "l = \<lparr>api_ptr = d, epoll_events_ptr = e, epfd = ep, loop_ptr = a, events_ptr = b, fired_ptr = c, timer_ptrs = []\<rparr>"
    using call unfolding aeCreateEventLoop_blocks_def aeApiCreate_def
    by (auto simp: andThen_Inr_iff split: if_splits option.splits)
  note o1 = owns_zmalloc [OF mal owns_empty [OF ok] s(1)]
  note o2 = owns_zmalloc [OF mal o1(1) s(2)]
  note o3 = owns_zmalloc [OF mal o2(1) s(3)]
  note o4 = owns_zmalloc [OF mal o3(1) s(4)]
  note o5 = owns_zmalloc [OF mal o4(1) s(5)]
  have "distinct (fixed_blocks l)" using o2(2) o3(2) o4(2) o5(2) by (auto simp: fixed_blocks_def r(3))
  moreover have "set (fixed_blocks l) = {e, d, c, b, a}" by (auto simp: fixed_blocks_def r(3))
  ultimately show ?thesis using o5(1) by (simp add: loop_owns_def r)
qed

text \<open>When \<open>epoll_create\<close> fails, the creation gives back everything it had taken.\<close>

lemma failed_create_restores:
  assumes mal: "blocks_fresh mal" and ok: "stat_ok h"
    and call: "aeCreateEventLoop_blocks mal (-1) sz (h, opened) = Inr (r, w)"
  shows "r = None \<and> w = (h, opened)"
proof -
  obtain a h1 b h2 c h3 d h4 e h5 g where
    s: "zmalloc mal sizeof_aeEventLoop h = Inr (a, h1)"
    "zmalloc mal (sizeof_aeFileEvent * of_int sz) h1 = Inr (b, h2)"
    "zmalloc mal (sizeof_aeFiredEvent * of_int sz) h2 = Inr (c, h3)"
    "zmalloc mal sizeof_aeApiState h3 = Inr (d, h4)"
    "zmalloc mal (sizeof_epoll_event * of_int sz) h4 = Inr (e, h5)"
    and f: "zfree_all [e, d, b, c, a] h5 = Inr g" and r: "r = None" "w = (g, opened)"
    using call unfolding aeCreateEventLoop_blocks_def aeApiCreate_def
    by (auto simp: andThen_Inr_iff split: if_splits option.splits)
  note o1 = owns_zmalloc [OF mal owns_empty [OF ok] s(1)]
  note o2 = owns_zmalloc [OF mal o1(1) s(2)]
  note o3 = owns_zmalloc [OF mal o2(1) s(3)]
  note o4 = owns_zmalloc [OF mal o3(1) s(4)]
  note o5 = owns_zmalloc [OF mal o4(1) s(5)]
  have "distinct [e, d, b, c, a]" using o2(2) o3(2) o4(2) o5(2) by auto
  then obtain g' where "zfree_all [e, d, b, c, a] h5 = Inr g'" "owns ({e, d, c, b, a} - set [e, d, b, c, a]) h g'"
    using owns_zfree_all [OF o5(1), of "[e, d, b, c, a]"] by auto
  moreover have "{e, d, c, b, a} - set [e, d, b, c, a] = {}" by auto
  ultimately have "owns {} h g" using f by simp
  then show ?thesis using owns_nothing [OF ok] r by simp
qed

lemma delete_loop_frees:
  assumes "loop_owns l h0 h"
  shows "\<exists>g. aeDeleteEventLoop l (h, opened) = Inr (g, opened - {epfd l}) \<and> owns (set (timer_ptrs l)) h0 g"
proof -
  have d: "distinct (fixed_blocks l)" "set (fixed_blocks l) \<subseteq> set (fixed_blocks l @ timer_ptrs l)"
    "set (fixed_blocks l @ timer_ptrs l) - set (fixed_blocks l) = set (timer_ptrs l)"
    using assms by (auto simp: loop_owns_def)
  then obtain g where "zfree_all (fixed_blocks l) h = Inr g" "owns (set (timer_ptrs l)) h0 g"
    using owns_zfree_all [of _ h0 h, OF conjunct2 [OF assms [unfolded loop_owns_def]] d(1,2)] by auto
  then show ?thesis
    by (auto simp: aeDeleteEventLoop_def aeApiFree_def fixed_blocks_def andThen_assoc andThen_Inr_iff)
qed

subsection \<open>The life of a loop\<close>

datatype life_op = NewTimer | DropTimer "nat option" | Resize int

fun life_step :: "libc_malloc \<Rightarrow> libc_realloc \<Rightarrow> life_op \<Rightarrow> loop_blocks \<Rightarrow> zstate \<Rightarrow> (loop_blocks \<times> zstate) outcome" where
  "life_step mal rea NewTimer l h = aeCreateTimeEvent_block mal l h"
| "life_step mal rea (DropTimer found) l h = aeDeleteTimeEvent_block found l h"
| "life_step mal rea (Resize sz) l h = aeResizeSetSize_blocks mal rea sz l h"

fun life :: "libc_malloc \<Rightarrow> libc_realloc \<Rightarrow> life_op list \<Rightarrow> loop_blocks \<Rightarrow> zstate \<Rightarrow> (loop_blocks \<times> zstate) outcome" where
  "life mal rea [] l h = Inr (l, h)"
| "life mal rea (x # xs) l h = andThen (life_step mal rea x l h) (\<lambda>(l, h). life mal rea xs l h)"

lemma start_timer_owns:
  assumes "blocks_fresh mal" and "loop_owns l h0 h" and "aeCreateTimeEvent_block mal l h = Inr (l', g)"
  shows "loop_owns l' h0 g"
proof -
  obtain p where p: "zmalloc mal sizeof_aeTimeEvent h = Inr (p, g)" "l' = l\<lparr>timer_ptrs := p # timer_ptrs l\<rparr>"
    using assms(3) by (auto simp: aeCreateTimeEvent_block_def andThen_Inr_iff)
  show ?thesis
    using owns_zmalloc [OF assms(1) conjunct2 [OF assms(2) [unfolded loop_owns_def]] p(1)] assms(2)
    by (auto simp: loop_owns_def p(2))
qed

lemma cancel_timer_owns:
  assumes "loop_owns l h0 h" and "aeDeleteTimeEvent_block found l h = Inr (l', g)"
  shows "loop_owns l' h0 g"
proof (cases found)
  case None
  then show ?thesis using assms by (simp add: aeDeleteTimeEvent_block_def)
next
  case (Some i)
  let ?t = "timer_ptrs l" and ?t' = "take i (timer_ptrs l) @ drop (Suc i) (timer_ptrs l)"
  have i: "i < length ?t" and g: "zfree (?t ! i) h = Inr g" and l': "l' = l\<lparr>timer_ptrs := ?t'\<rparr>"
    using assms(2) Some by (auto simp: aeDeleteTimeEvent_block_def andThen_Inr_iff split: if_splits)
  have d: "distinct (fixed_blocks l @ ?t)" and o: "owns (set (fixed_blocks l @ ?t)) h0 h"
    using assms(1) by (simp_all add: loop_owns_def)
  have t: "?t = take i ?t @ ?t ! i # drop (Suc i) ?t" by (rule id_take_nth_drop [OF i])
  have "distinct (fixed_blocks l @ take i ?t @ ?t ! i # drop (Suc i) ?t)" using d t by simp
  then have "distinct (fixed_blocks l @ ?t')"
    "set (fixed_blocks l @ take i ?t @ ?t ! i # drop (Suc i) ?t) - {?t ! i} = set (fixed_blocks l @ ?t')"
    by auto
  moreover obtain g' where "zfree (?t ! i) h = Inr g'" "owns (set (fixed_blocks l @ ?t) - {?t ! i}) h0 g'"
    using owns_zfree [OF o, of "?t ! i"] i by auto
  ultimately show ?thesis using g t by (simp add: loop_owns_def l')
qed

lemma owns_moved:
  assumes "realloc_moves rea" and "distinct (xs @ q # ys)" and "owns (set (xs @ q # ys)) h0 h"
    and "zrealloc mal rea q n h = Inr (p, g)"
  shows "distinct (xs @ p # ys) \<and> owns (set (xs @ p # ys)) h0 g"
proof -
  have "set (xs @ q # ys) - {q} = set (xs @ ys)" using assms(2) by auto
  then show ?thesis using owns_zrealloc [OF assms(1,3) _ assms(4)] assms(2) by auto
qed

lemma resize_owns:
  assumes "realloc_moves rea" and "loop_owns l h0 h" and "aeResizeSetSize_blocks mal rea sz l h = Inr (l', g)"
  shows "loop_owns l' h0 g"
proof -
  obtain a h1 b h2 c where
    s: "zrealloc mal rea (epoll_events_ptr l) (sizeof_epoll_event * of_int sz) h = Inr (a, h1)"
    "zrealloc mal rea (events_ptr l) (sizeof_aeFileEvent * of_int sz) h1 = Inr (b, h2)"
    "zrealloc mal rea (fired_ptr l) (sizeof_aeFiredEvent * of_int sz) h2 = Inr (c, g)"
    and l': "l' = l\<lparr>epoll_events_ptr := a, events_ptr := b, fired_ptr := c\<rparr>"
    using assms(3) by (auto simp: aeResizeSetSize_blocks_def aeApiResize_def andThen_Inr_iff)
  let ?t = "timer_ptrs l"
  have o: "distinct ([] @ epoll_events_ptr l # [api_ptr l, events_ptr l, fired_ptr l, loop_ptr l] @ ?t)"
    "owns (set ([] @ epoll_events_ptr l # [api_ptr l, events_ptr l, fired_ptr l, loop_ptr l] @ ?t)) h0 h"
    using assms(2) by (simp_all add: loop_owns_def fixed_blocks_def)
  have o1: "distinct ([a, api_ptr l] @ events_ptr l # [fired_ptr l, loop_ptr l] @ ?t)"
    "owns (set ([a, api_ptr l] @ events_ptr l # [fired_ptr l, loop_ptr l] @ ?t)) h0 h1"
    using owns_moved [OF assms(1) o s(1)] by simp_all
  have o2: "distinct ([a, api_ptr l, b] @ fired_ptr l # [loop_ptr l] @ ?t)"
    "owns (set ([a, api_ptr l, b] @ fired_ptr l # [loop_ptr l] @ ?t)) h0 h2"
    using owns_moved [OF assms(1) o1 s(2)] by simp_all
  show ?thesis
    using owns_moved [OF assms(1) o2 s(3)] by (simp add: loop_owns_def fixed_blocks_def l')
qed

lemma life_owns:
  assumes "blocks_fresh mal" and "realloc_moves rea"
  shows "loop_owns l h0 h \<Longrightarrow> life mal rea ops l h = Inr (l', g) \<Longrightarrow> loop_owns l' h0 g \<and> epfd l' = epfd l"
proof (induction ops arbitrary: l h)
  case Nil
  then show ?case by simp
next
  case (Cons x xs)
  obtain l1 h1 where s: "life_step mal rea x l h = Inr (l1, h1)" "life mal rea xs l1 h1 = Inr (l', g)"
    using Cons.prems(2) by (auto simp: andThen_Inr_iff)
  have "loop_owns l1 h0 h1 \<and> epfd l1 = epfd l"
  proof (cases x)
    case NewTimer
    then have c: "aeCreateTimeEvent_block mal l h = Inr (l1, h1)" using s(1) by simp
    then have "epfd l1 = epfd l" by (auto simp: aeCreateTimeEvent_block_def andThen_Inr_iff)
    then show ?thesis using start_timer_owns [OF assms(1) Cons.prems(1) c] by simp
  next
    case (DropTimer found)
    then have c: "aeDeleteTimeEvent_block found l h = Inr (l1, h1)" using s(1) by simp
    then have "epfd l1 = epfd l"
      by (auto simp: aeDeleteTimeEvent_block_def andThen_Inr_iff split: option.splits if_splits)
    then show ?thesis using cancel_timer_owns [OF Cons.prems(1) c] by simp
  next
    case (Resize sz)
    then have c: "aeResizeSetSize_blocks mal rea sz l h = Inr (l1, h1)" using s(1) by simp
    then have "epfd l1 = epfd l" by (auto simp: aeResizeSetSize_blocks_def aeApiResize_def andThen_Inr_iff)
    then show ?thesis using resize_owns [OF assms(2) Cons.prems(1) c] by simp
  qed
  then show ?case using Cons.IH [OF _ s(2)] by simp
qed

text \<open>
  C28.  A loop gives back what it took, except its timers: whatever timers are started and cancelled
  and however the tables are resized between \<open>aeCreateEventLoop\<close> and \<open>aeDeleteEventLoop\<close>, deletion
  closes the descriptor of \<open>epoll\<close>, frees only blocks of the loop, and leaves of its blocks exactly
  the time events that were not cancelled; when there are none, the allocator and its count are as
  before the creation.
\<close>

theorem loop_gives_back_all_but_timers:
  assumes "blocks_fresh mal" and "realloc_moves rea" and "zreach mal rea h" and "ep \<notin> opened"
    and "aeCreateEventLoop_blocks mal ep sz (h, opened) = Inr (Some l, (h1, opened1))"
    and "life mal rea ops l h1 = Inr (l', h2)"
  shows "\<exists>g. aeDeleteEventLoop l' (h2, opened1) = Inr (g, opened) \<and> owns (set (timer_ptrs l')) h g \<and>
    distinct (timer_ptrs l') \<and> (timer_ptrs l' = [] \<longrightarrow> g = h)"
proof -
  have ok: "stat_ok h" by (rule zreach_stat [OF assms(1-3)])
  have l: "loop_owns l h h1" "epfd l = ep" "opened1 = insert ep opened"
    using create_loop_owns [OF assms(1) ok assms(5)] by simp_all
  have l': "loop_owns l' h h2" "epfd l' = ep" using life_owns [OF assms(1,2) l(1) assms(6)] l(2) by simp_all
  obtain g where g: "aeDeleteEventLoop l' (h2, opened1) = Inr (g, opened1 - {ep})" "owns (set (timer_ptrs l')) h g"
    using delete_loop_frees [OF l'(1), of opened1] l'(2) by auto
  moreover have "opened1 - {ep} = opened" using l(3) assms(4) by auto
  moreover have "distinct (timer_ptrs l')" using l'(1) by (simp add: loop_owns_def)
  ultimately show ?thesis using owns_nothing [OF ok] by auto
qed

text \<open>A C library with seven blocks to give.\<close>

definition seven_slots :: libc_malloc where
  "seven_slots h n = map_option (\<lambda>a. (a, replicate n CHR ''?'')) (find (\<lambda>a. zlive h a = None) [16, 32, 48, 64, 80, 96, 112])"

lemma seven_slots_ok: "blocks_fresh seven_slots"
  by (auto simp: blocks_fresh_def seven_slots_def find_Some_iff nth_Cons' split: if_splits)

theorem loop_gives_back_all_but_timers_witness:
  "\<exists>l h1 l' h2 g. aeCreateEventLoop_blocks seven_slots 5 1 (zinit, {3}) = Inr (Some l, (h1, {5, 3})) \<and>
     life seven_slots in_place [NewTimer, Resize 2, NewTimer, DropTimer (Some 1)] l h1 = Inr (l', h2) \<and>
     aeDeleteEventLoop l' (h2, {5, 3}) = Inr (g, {3}) \<and> length (timer_ptrs l') = 1 \<and>
     owns (set (timer_ptrs l')) zinit g"
proof -
  note defs = aeCreateEventLoop_blocks_def aeApiCreate_def zmalloc_def seven_slots_def zinit_def prefix_def PREFIX_SIZE_def
    new_block_def update_zmalloc_stat_alloc_def update_zmalloc_stat_free_def pad_long_def sizeof_aeEventLoop_def sizeof_aeFileEvent_def
    sizeof_aeFiredEvent_def sizeof_aeTimeEvent_def sizeof_aeApiState_def sizeof_epoll_event_def
  note more_defs = aeCreateTimeEvent_block_def aeDeleteTimeEvent_block_def aeResizeSetSize_blocks_def aeApiResize_def
    zrealloc_def zfree_def live_block_def in_place_def
  have "\<exists>l h1 l' h2. aeCreateEventLoop_blocks seven_slots 5 1 (zinit, {3}) = Inr (Some l, (h1, {5, 3})) \<and>
     life seven_slots in_place [NewTimer, Resize 2, NewTimer, DropTimer (Some 1)] l h1 = Inr (l', h2) \<and>
     length (timer_ptrs l') = 1"
    by (simp add: defs more_defs)
  then obtain l h1 l' h2 where
    c: "aeCreateEventLoop_blocks seven_slots 5 1 (zinit, {3}) = Inr (Some l, (h1, {5, 3}))"
    and f: "life seven_slots in_place [NewTimer, Resize 2, NewTimer, DropTimer (Some 1)] l h1 = Inr (l', h2)"
    and n: "length (timer_ptrs l') = 1" by blast
  show ?thesis
    using loop_gives_back_all_but_timers [OF seven_slots_ok two_slots_ok(2) z_init _ c f] c f n by auto
qed

end
