(* ===== verification/AeSelect.thy ===== *)
theory AeSelect
  imports Ae
begin

text \<open>
  The other polling layer of the repository, \<^verbatim>\<open>proxy/ae_select.c\<close>, and the calls of \<^verbatim>\<open>ae.c\<close> compiled
  with it in place of the one for \<open>epoll\<close>.  An \<open>fd_set\<close> has 1024 bits; outside, its macros touch
  other memory.  \<open>select\<close> is the kernel's: a parameter that answers a number and the two sets.  The
  results are that both builds are the same map from descriptors to masks and that, asked
  by the same kernel, they report the same events.
\<close>

subsection \<open>The state\<close>

type_synonym fd_set = "bool list"

definition FD_SETSIZE :: nat where "FD_SETSIZE = 1024"

definition FD_ZERO :: fd_set where "FD_ZERO = replicate FD_SETSIZE False"

definition FD_put :: "bool \<Rightarrow> int \<Rightarrow> fd_set \<Rightarrow> fd_set outcome" where
  "FD_put b fd s = (if 0 \<le> fd \<and> fd < int FD_SETSIZE then Inr (s[nat fd := b]) else Inl Undefined)"

definition FD_ISSET :: "int \<Rightarrow> fd_set \<Rightarrow> bool outcome" where
  "FD_ISSET fd s = (if 0 \<le> fd \<and> fd < int FD_SETSIZE then Inr (s ! nat fd) else Inl Undefined)"

record select_state =
  rfds :: fd_set
  wfds :: fd_set
  rfds_copy :: fd_set
  wfds_copy :: fd_set

subsection \<open>The polling layer\<close>

text \<open>The copies are not initialised: \<open>junk\<close> is what they hold.\<close>

definition aeApiCreate_select :: "fd_set \<times> fd_set \<Rightarrow> select_state" where
  "aeApiCreate_select junk = \<lparr>rfds = FD_ZERO, wfds = FD_ZERO, rfds_copy = fst junk, wfds_copy = snd junk\<rparr>"

definition aeApiResize_select :: "int \<Rightarrow> int" where
  "aeApiResize_select sz = (if sz \<ge> int FD_SETSIZE then -1 else 0)"

definition put_bits :: "bool \<Rightarrow> select_state \<Rightarrow> int \<Rightarrow> int \<Rightarrow> select_state outcome" where
  "put_bits b st fd m =
     andThen (if m AND AE_READABLE \<noteq> 0 then FD_put b fd (rfds st) else Inr (rfds st)) (\<lambda>r.
     andThen (if m AND AE_WRITABLE \<noteq> 0 then FD_put b fd (wfds st) else Inr (wfds st)) (\<lambda>w.
       Inr (st\<lparr>rfds := r, wfds := w\<rparr>)))"

definition aeApiAddEvent_select :: "select_state \<Rightarrow> int \<Rightarrow> int \<Rightarrow> (int \<times> select_state) outcome" where
  "aeApiAddEvent_select st fd m = map_sum id (Pair 0) (put_bits True st fd m)"

definition aeApiDelEvent_select :: "select_state \<Rightarrow> int \<Rightarrow> int \<Rightarrow> select_state outcome" where
  "aeApiDelEvent_select st fd m = put_bits False st fd m"

text \<open>The loop over all descriptors: an entry for each registered one, ready or not.\<close>

fun select_scan :: "'h aeFileEvent list \<Rightarrow> fd_set \<Rightarrow> fd_set \<Rightarrow> nat list \<Rightarrow> (int \<times> int) list outcome" where
  "select_scan evs r w [] = Inr []"
| "select_scan evs r w (j # js) =
     (let m = mask (evs ! j) in
      if m = AE_NONE then select_scan evs r w js
      else
        andThen (if m AND AE_READABLE \<noteq> 0 then FD_ISSET (int j) r else Inr False) (\<lambda>rd.
        andThen (if m AND AE_WRITABLE \<noteq> 0 then FD_ISSET (int j) w else Inr False) (\<lambda>wr.
        andThen (select_scan evs r w js) (\<lambda>rest.
          Inr ((int j, (if rd then AE_READABLE else 0) OR (if wr then AE_WRITABLE else 0)) # rest)))))"

type_synonym select_call = "int \<Rightarrow> fd_set \<Rightarrow> fd_set \<Rightarrow> int \<times> fd_set \<times> fd_set"

definition aeApiPoll_select ::
  "select_call \<Rightarrow> 'h aeEventLoop \<Rightarrow> select_state \<Rightarrow> ((int \<times> int) list \<times> select_state) outcome" where
  "aeApiPoll_select sel el st =
     (let (retval, r, w) = sel (maxfd el + 1) (rfds st) (wfds st);
          st = st\<lparr>rfds_copy := r, wfds_copy := w\<rparr>
      in if retval > 0
         then andThen (select_scan (events el) r w [0..<nat (maxfd el + 1)]) (\<lambda>fired. Inr (fired, st))
         else Inr ([], st))"

definition aeApiName_select :: string where "aeApiName_select = ''select''"

subsection \<open>The calls of the loop, compiled with it\<close>

text \<open>What \<open>aeCreateFileEvent\<close> and \<open>aeDeleteFileEvent\<close> do to the table, behind the polling layer.\<close>

definition add_event :: "'h aeEventLoop \<Rightarrow> int \<Rightarrow> int \<Rightarrow> 'h \<Rightarrow> nat \<Rightarrow> 'h aeEventLoop" where
  "add_event el fd m proc cdata =
     (let fe = events el ! nat fd;
          fe = fe\<lparr>mask := mask fe OR m\<rparr>;
          fe = (if m AND AE_READABLE \<noteq> 0 then fe\<lparr>rfileProc := Some proc\<rparr> else fe);
          fe = (if m AND AE_WRITABLE \<noteq> 0 then fe\<lparr>wfileProc := Some proc\<rparr> else fe);
          fe = fe\<lparr>clientData := cdata\<rparr>;
          el = el\<lparr>events := (events el)[nat fd := fe]\<rparr>
      in if fd > maxfd el then el\<lparr>maxfd := fd\<rparr> else el)"

definition drop_event :: "'h aeEventLoop \<Rightarrow> int \<Rightarrow> int \<Rightarrow> 'h aeEventLoop" where
  "drop_event el fd m =
     (let fe = events el ! nat fd;
          fe = fe\<lparr>mask := mask fe AND NOT m\<rparr>;
          el = el\<lparr>events := (events el)[nat fd := fe]\<rparr>
      in if fd = maxfd el \<and> mask fe = AE_NONE
         then el\<lparr>maxfd := scan_down (events el) (nat (maxfd el))\<rparr> else el)"

type_synonym 'h select_loop = "'h aeEventLoop \<times> select_state"

definition aeCreateFileEvent_select ::
  "'h select_loop \<Rightarrow> int \<Rightarrow> int \<Rightarrow> 'h \<Rightarrow> nat \<Rightarrow> (int \<times> 'h select_loop) outcome" where
  "aeCreateFileEvent_select = (\<lambda>(el, st) fd m proc cdata.
     if fd \<ge> setsize el then Inr (AE_ERR, (el, st))
     else if fd < 0 then Inl Undefined
     else andThen (aeApiAddEvent_select st fd m) (\<lambda>(r, st).
       if r = -1 then Inr (AE_ERR, (el, st)) else Inr (AE_OK, (add_event el fd m proc cdata, st))))"

definition aeDeleteFileEvent_select :: "'h select_loop \<Rightarrow> int \<Rightarrow> int \<Rightarrow> 'h select_loop outcome" where
  "aeDeleteFileEvent_select = (\<lambda>(el, st) fd m.
     if fd \<ge> setsize el then Inr (el, st)
     else if fd < 0 then Inl Undefined
     else if mask (events el ! nat fd) = AE_NONE then Inr (el, st)
     else andThen (aeApiDelEvent_select st fd m) (\<lambda>st. Inr (drop_event el fd m, st)))"

text \<open>\<open>aeResizeSetSize\<close> asks the polling layer first.\<close>

definition aeResizeSetSize_select ::
  "(nat \<Rightarrow> 'h aeFileEvent) \<Rightarrow> 'h select_loop \<Rightarrow> int \<Rightarrow> int \<times> 'h select_loop" where
  "aeResizeSetSize_select junk = (\<lambda>(el, st) sz.
     if sz = setsize el then (AE_OK, (el, st))
     else if maxfd el \<ge> sz then (AE_ERR, (el, st))
     else if aeApiResize_select sz = -1 then (AE_ERR, (el, st))
     else case aeResizeSetSize junk el sz of (r, el') \<Rightarrow> (r, (el', st)))"

subsection \<open>The sets against the masks\<close>

lemma readable_iff: "x AND AE_READABLE \<noteq> 0 \<longleftrightarrow> bit x 0"
  using and_exp_eq_0_iff_not_bit [of x 0] by (simp add: AE_READABLE_def)

lemma writable_iff: "x AND AE_WRITABLE \<noteq> 0 \<longleftrightarrow> bit x 1"
  using and_exp_eq_0_iff_not_bit [of x 1] by (simp add: AE_WRITABLE_def)

definition sets_show :: "(int \<Rightarrow> int) \<Rightarrow> select_state \<Rightarrow> bool" where
  "sets_show M st \<longleftrightarrow> length (rfds st) = FD_SETSIZE \<and> length (wfds st) = FD_SETSIZE \<and>
     (\<forall>i < FD_SETSIZE. rfds st ! i = bit (M (int i)) 0 \<and> wfds st ! i = bit (M (int i)) 1)"

lemma sets_show_init: "sets_show (\<lambda>fd. AE_NONE) (aeApiCreate_select junk)"
  by (simp add: sets_show_def aeApiCreate_select_def FD_ZERO_def AE_NONE_def)

lemma put_bits_in_range:
  assumes "0 \<le> fd" and "fd < int FD_SETSIZE"
  shows "put_bits b st fd m = Inr (st\<lparr>rfds := (if bit m 0 then (rfds st)[nat fd := b] else rfds st),
    wfds := (if bit m 1 then (wfds st)[nat fd := b] else wfds st)\<rparr>)"
  using assms by (simp add: put_bits_def readable_iff writable_iff FD_put_def)

lemma add_shows:
  assumes "sets_show M st" and "0 \<le> fd" and "fd < int FD_SETSIZE"
  shows "\<exists>st'. aeApiAddEvent_select st fd m = Inr (0, st') \<and> sets_show (M(fd := M fd OR m)) st'"
  using assms by (auto simp: aeApiAddEvent_select_def put_bits_in_range sets_show_def nth_list_update bit_simps)

lemma del_shows:
  assumes "sets_show M st" and "0 \<le> fd" and "fd < int FD_SETSIZE"
  shows "\<exists>st'. aeApiDelEvent_select st fd m = Inr st' \<and> sets_show (M(fd := M fd AND NOT m)) st'"
  using assms by (auto simp: aeApiDelEvent_select_def put_bits_in_range sets_show_def nth_list_update bit_simps)

text \<open>The tables of the two builds are the same: only the polling layer differs.\<close>

lemma fd_mask_apidata [simp]: "fd_mask (el\<lparr>apidata := a\<rparr>) = fd_mask el"
  by (simp add: fd_mask_def fun_eq_iff)

lemma add_event_apidata: "add_event (el\<lparr>apidata := a\<rparr>) fd m proc cdata = (add_event el fd m proc cdata)\<lparr>apidata := a\<rparr>"
  by (simp add: add_event_def Let_def)

lemma drop_event_apidata: "drop_event (el\<lparr>apidata := a\<rparr>) fd m = (drop_event el fd m)\<lparr>apidata := a\<rparr>"
  by (cases el) (auto simp: drop_event_def Let_def)

lemma create_adds_event:
  assumes "aeCreateFileEvent ok el fd m proc cdata = Inr (AE_OK, el1)"
  shows "\<exists>a. el1 = (add_event el fd m proc cdata)\<lparr>apidata := a\<rparr>"
proof -
  obtain w where w: "aeApiAddEvent ok el fd m = (0, el\<lparr>apidata := w\<rparr>)"
    using assms by (auto simp: aeCreateFileEvent_def aeApiAddEvent_def Let_def AE_OK_def AE_ERR_def
        split: if_splits prod.splits)
  have "el1 = add_event (el\<lparr>apidata := w\<rparr>) fd m proc cdata"
    using assms by (auto simp: aeCreateFileEvent_def w Let_def add_event_def AE_OK_def AE_ERR_def split: if_splits)
  then show ?thesis unfolding add_event_apidata by blast
qed

lemma delete_drops_event:
  assumes "aeDeleteFileEvent el fd m = Inr el1" and "0 \<le> fd" "fd < setsize el" "mask (events el ! nat fd) \<noteq> AE_NONE"
  shows "\<exists>a. el1 = (drop_event el fd m)\<lparr>apidata := a\<rparr>"
proof -
  obtain w where w: "aeApiDelEvent el fd m = el\<lparr>apidata := w\<rparr>" by (simp add: aeApiDelEvent_def Let_def)
  have "el1 = drop_event (el\<lparr>apidata := w\<rparr>) fd m"
    using assms by (auto simp: aeDeleteFileEvent_def w Let_def drop_event_def split: if_splits)
  then show ?thesis unfolding drop_event_apidata by blast
qed

subsection \<open>The same map\<close>

definition select_wf :: "'h select_loop \<Rightarrow> bool" where
  "select_wf s \<longleftrightarrow> (\<exists>a. el_wf ((fst s)\<lparr>apidata := a\<rparr>)) \<and> setsize (fst s) = 1024 \<and> sets_show (fd_mask (fst s)) (snd s)"

abbreviation select_mask :: "'h select_loop \<Rightarrow> int \<Rightarrow> int" where
  "select_mask s \<equiv> fd_mask (fst s)"

fun select_call :: "'h fd_op \<Rightarrow> 'h select_loop \<Rightarrow> (int \<times> 'h select_loop) option" where
  "select_call (Register fd k proc cdata) s =
     (case aeCreateFileEvent_select s (int fd) (ev_mask k) proc cdata of Inl e \<Rightarrow> None | Inr r \<Rightarrow> Some r)"
| "select_call (Remove fd k) s =
     (case aeDeleteFileEvent_select s (int fd) (ev_mask k) of Inl e \<Rightarrow> None | Inr s' \<Rightarrow> Some (0, s'))"
| "select_call (GetMask fd) s =
     (case aeGetFileEvents (fst s) (int fd) of Inl e \<Rightarrow> None | Inr r \<Rightarrow> Some (r, s))"

lemma fd_call_el:
  assumes "el_wf el" and "setsize el = 1024"
  obtains el' where "fd_call x el = Some (fst (fd_spec 1024 x (fd_mask el)), el')" "el_wf el'" "setsize el' = 1024"
    "fd_mask el' = snd (fd_spec 1024 x (fd_mask el))"
  using fd_call_sim [of el 1024 x] assms by blast

lemma select_call_sim:
  assumes wf: "select_wf s"
  shows "\<exists>s'. select_call x s = Some (fst (fd_spec 1024 x (select_mask s)), s') \<and> select_wf s' \<and>
    select_mask s' = snd (fd_spec 1024 x (select_mask s))"
proof -
  obtain el st where s: "s = (el, st)" by (cases s)
  obtain a where a: "el_wf (el\<lparr>apidata := a\<rparr>)" "setsize el = 1024" "sets_show (fd_mask el) st"
    using wf by (auto simp: select_wf_def s)
  obtain el1 where call: "fd_call x (el\<lparr>apidata := a\<rparr>) = Some (fst (fd_spec 1024 x (fd_mask el)), el1)"
    "el_wf el1" "setsize el1 = 1024" "fd_mask el1 = snd (fd_spec 1024 x (fd_mask el))"
    by (rule fd_call_el [OF a(1), of x]) (use a(2) in auto)
  show ?thesis
  proof (cases x)
    case (Register fd k proc cdata)
    show ?thesis
    proof (cases "int fd < 1024")
      case True
      obtain st1 where st1: "aeApiAddEvent_select st (int fd) (ev_mask k) = Inr (0, st1)"
        "sets_show ((fd_mask el)(int fd := fd_mask el (int fd) OR ev_mask k)) st1"
        using add_shows [OF a(3), of "int fd"] True by (auto simp: FD_SETSIZE_def)
      have "aeCreateFileEvent True (el\<lparr>apidata := a\<rparr>) (int fd) (ev_mask k) proc cdata = Inr (AE_OK, el1)"
        using call(1) True by (simp add: Register split: sum.splits)
      then obtain b where "el1 = (add_event el (int fd) (ev_mask k) proc cdata)\<lparr>apidata := b\<rparr>"
        using create_adds_event by (force simp: add_event_apidata)
      then show ?thesis
        using call st1 True a(2)
        by (auto simp: s Register aeCreateFileEvent_select_def select_wf_def)
    next
      case False
      then show ?thesis using a(2) wf by (simp add: s Register aeCreateFileEvent_select_def)
    qed
  next
    case (Remove fd k)
    show ?thesis
    proof (cases "int fd < 1024 \<and> mask (events el ! fd) \<noteq> AE_NONE")
      case True
      obtain st1 where st1: "aeApiDelEvent_select st (int fd) (ev_mask k) = Inr st1"
        "sets_show ((fd_mask el)(int fd := fd_mask el (int fd) AND NOT (ev_mask k))) st1"
        using del_shows [OF a(3), of "int fd"] True by (auto simp: FD_SETSIZE_def)
      have "aeDeleteFileEvent (el\<lparr>apidata := a\<rparr>) (int fd) (ev_mask k) = Inr el1"
        using call(1) by (simp add: Remove split: sum.splits)
      then obtain b where "el1 = (drop_event el (int fd) (ev_mask k))\<lparr>apidata := b\<rparr>"
        using delete_drops_event [of "el\<lparr>apidata := a\<rparr>" "int fd" "ev_mask k" el1] True a(2)
        by (auto simp: drop_event_apidata)
      then show ?thesis
        using call st1 True a(2)
        by (auto simp: s Remove aeDeleteFileEvent_select_def select_wf_def)
    next
      case False
      then have "fd_mask el (int fd) = AE_NONE" if "int fd < 1024" using that a(2) by (simp add: fd_mask_def)
      then show ?thesis using False a(2) wf
        by (auto simp: s Remove aeDeleteFileEvent_select_def AE_NONE_def fun_eq_iff)
    qed
  next
    case (GetMask fd)
    then show ?thesis using wf a(2) by (auto simp: s aeGetFileEvents_def fd_mask_def AE_NONE_def)
  qed
qed

interpretation select_table: simulation select_call "fd_spec 1024" select_wf select_mask
  by unfold_locales (rule select_call_sim)

subsection \<open>The same events\<close>

text \<open>
  A kernel in which \<open>ready fd\<close> is what can be done on \<open>fd\<close> without waiting (a mask of the loop):
  \<open>select\<close> keeps the bits of the ready descriptors below its bound, \<open>epoll_wait\<close> reports the
  watched descriptors with something ready.
\<close>

definition select_answers :: "(int \<Rightarrow> int) \<Rightarrow> select_call \<Rightarrow> bool" where
  "select_answers ready sel \<longleftrightarrow> (\<forall>n r w. case sel n r w of (k, r', w') \<Rightarrow>
     (\<forall>i < FD_SETSIZE. r' ! i = (int i < n \<and> r ! i \<and> bit (ready (int i)) 0) \<and>
                        w' ! i = (int i < n \<and> w ! i \<and> bit (ready (int i)) 1)) \<and>
     (k > 0 \<longleftrightarrow> (\<exists>i < FD_SETSIZE. r' ! i \<or> w' ! i)))"

definition epoll_answers :: "(int \<Rightarrow> int) \<Rightarrow> (int \<Rightarrow> int option) \<Rightarrow> (int \<times> int) list \<Rightarrow> bool" where
  "epoll_answers ready watch reported \<longleftrightarrow>
     set reported = {(fd, ev AND ee_events (ready fd)) | fd ev. watch fd = Some ev \<and> ev AND ee_events (ready fd) \<noteq> 0}"

lemma ee_events_and: "m \<in> {0..3} \<Longrightarrow> r \<in> {0..3} \<Longrightarrow> ee_events m AND ee_events r = ee_events (m AND r)"
  unfolding mask_cases
  by (elim disjE) (simp_all add: ee_events_def EPOLLIN_def EPOLLOUT_def AE_READABLE_def AE_WRITABLE_def)

lemma poll_mask_ee_events: "m \<in> {0..3} \<Longrightarrow> poll_mask (ee_events m) = m \<and> (ee_events m = 0 \<longleftrightarrow> m = 0)"
  unfolding mask_cases
  by (elim disjE) (simp_all add: poll_mask_def ee_events_def EPOLLIN_def EPOLLOUT_def EPOLLERR_def EPOLLHUP_def
      AE_READABLE_def AE_WRITABLE_def)

lemma mask_and: "m \<in> {0..3} \<Longrightarrow> k \<in> {0..3} \<Longrightarrow> (m AND k :: int) \<in> {0..3}"
  unfolding mask_cases by (elim disjE) simp_all

lemma mask_nonzero: "m \<in> {0..3} \<Longrightarrow> m \<noteq> (0 :: int) \<longleftrightarrow> bit m 0 \<or> bit m 1"
  unfolding mask_cases by (elim disjE) simp_all

lemma mask_of_bits: "m \<in> {0..3} \<Longrightarrow> (if bit m 0 then AE_READABLE else 0) OR (if bit m 1 then AE_WRITABLE else 0) = m"
  unfolding mask_cases by (elim disjE) (simp_all add: AE_READABLE_def AE_WRITABLE_def)

lemma select_scan_reports:
  assumes "\<forall>j \<in> set js. j < FD_SETSIZE \<and> int j < setsize el \<and> fd_mask el (int j) \<in> {0..3} \<and> ready (int j) \<in> {0..3} \<and>
     r ! j = (bit (fd_mask el (int j)) 0 \<and> bit (ready (int j)) 0) \<and>
     w ! j = (bit (fd_mask el (int j)) 1 \<and> bit (ready (int j)) 1)"
  shows "select_scan (events el) r w js =
    Inr (map (\<lambda>j. (int j, fd_mask el (int j) AND ready (int j))) (filter (\<lambda>j. fd_mask el (int j) \<noteq> AE_NONE) js))"
  using assms
proof (induction js)
  case Nil
  then show ?case by simp
next
  case (Cons j js)
  let ?m = "fd_mask el (int j)" and ?b = "fd_mask el (int j) AND ready (int j)"
  have m: "mask (events el ! j) = ?m" using Cons.prems by (simp add: fd_mask_def)
  have "?b \<in> {0..3}" using Cons.prems by (intro mask_and) auto
  then have b: "(if bit ?b 0 then AE_READABLE else 0) OR (if bit ?b 1 then AE_WRITABLE else 0) = ?b" by (rule mask_of_bits)
  have j: "j < FD_SETSIZE" "r ! j = bit ?b 0" "w ! j = bit ?b 1" using Cons.prems by (auto simp: bit_and_iff)
  have rd: "(if ?m AND AE_READABLE \<noteq> 0 then FD_ISSET (int j) r else Inr False) = Inr (bit ?b 0)"
    and wr: "(if ?m AND AE_WRITABLE \<noteq> 0 then FD_ISSET (int j) w else Inr False) = Inr (bit ?b 1)"
    using j by (auto simp: readable_iff writable_iff FD_ISSET_def bit_and_iff)
  have "select_scan (events el) r w js =
      Inr (map (\<lambda>j. (int j, fd_mask el (int j) AND ready (int j))) (filter (\<lambda>j. fd_mask el (int j) \<noteq> AE_NONE) js))"
    using Cons by simp
  then show ?case by (cases "?m = AE_NONE") (simp_all add: Let_def m rd wr b [unfolded One_nat_def] split del: if_split)
qed

text \<open>In a loop of the invariant: the range of the masks, and the descriptors without one.\<close>

lemma select_wf_masks:
  assumes "select_wf (el, st)"
  shows "fd_mask el fd \<in> {0..3}" and "maxfd el < fd \<or> fd < 0 \<Longrightarrow> fd_mask el fd = AE_NONE" and "maxfd el < 1024"
proof -
  obtain a where a: "el_wf (el\<lparr>apidata := a\<rparr>)" "setsize el = 1024" using assms by (auto simp: select_wf_def)
  show "fd_mask el fd \<in> {0..3}" using a(1) unfolding el_wf_def by simp
  show "maxfd el < fd \<or> fd < 0 \<Longrightarrow> fd_mask el fd = AE_NONE" using a(1) by (auto simp: el_wf_def fd_mask_def)
  have "fd_mask el (maxfd el) = AE_NONE" if "\<not> maxfd el < 1024" using that a(2) by (simp add: fd_mask_def)
  moreover have "0 \<le> maxfd el \<longrightarrow> fd_mask el (maxfd el) \<noteq> AE_NONE" using a(1) by (simp add: el_wf_def)
  ultimately show "maxfd el < 1024" by (cases "maxfd el < 1024") auto
qed

text \<open>The sets \<open>select\<close> leaves hold the bits of what is both registered and ready.\<close>

lemma select_bits:
  assumes wf: "select_wf (el, st)" and sel: "select_answers ready sel" and ready: "\<forall>fd. ready fd \<in> {0..3}"
    and call: "sel (maxfd el + 1) (rfds st) (wfds st) = (k, r, w)"
  shows "\<forall>i < FD_SETSIZE. r ! i = bit (fd_mask el (int i) AND ready (int i)) 0 \<and>
      w ! i = bit (fd_mask el (int i) AND ready (int i)) 1"
    and "k > 0 \<longleftrightarrow> (\<exists>i < FD_SETSIZE. fd_mask el (int i) AND ready (int i) \<noteq> 0)"
proof -
  have M: "sets_show (fd_mask el) st" using wf by (simp add: select_wf_def)
  have low: "bit (fd_mask el (int i)) n \<longrightarrow> int i < maxfd el + 1" for i n
    using select_wf_masks(2) [OF wf, of "int i"] by (cases "maxfd el < int i") (auto simp: AE_NONE_def)
  note s = sel [unfolded select_answers_def, rule_format, of "maxfd el + 1" "rfds st" "wfds st", unfolded call]
  show bits: "\<forall>i < FD_SETSIZE. r ! i = bit (fd_mask el (int i) AND ready (int i)) 0 \<and>
      w ! i = bit (fd_mask el (int i) AND ready (int i)) 1"
  proof (intro allI impI)
    fix i
    assume i: "i < FD_SETSIZE"
    have "r ! i = (int i < maxfd el + 1 \<and> rfds st ! i \<and> bit (ready (int i)) 0)"
      "w ! i = (int i < maxfd el + 1 \<and> wfds st ! i \<and> bit (ready (int i)) 1)" using s i by simp_all
    moreover have "rfds st ! i = bit (fd_mask el (int i)) 0" "wfds st ! i = bit (fd_mask el (int i)) 1"
      using M i by (simp_all add: sets_show_def)
    ultimately show "r ! i = bit (fd_mask el (int i) AND ready (int i)) 0 \<and> w ! i = bit (fd_mask el (int i) AND ready (int i)) 1"
      using low [of i] by (auto simp only: bit_and_iff)
  qed
  have "fd_mask el fd AND ready fd \<noteq> 0 \<longleftrightarrow> bit (fd_mask el fd AND ready fd) 0 \<or> bit (fd_mask el fd AND ready fd) 1" for fd
    using mask_nonzero [OF mask_and [OF select_wf_masks(1) [OF wf, of fd]]] ready by blast
  moreover have "k > 0 \<longleftrightarrow> (\<exists>i < FD_SETSIZE. r ! i \<or> w ! i)" using s by simp
  ultimately show "k > 0 \<longleftrightarrow> (\<exists>i < FD_SETSIZE. fd_mask el (int i) AND ready (int i) \<noteq> 0)" using bits by metis
qed

lemma select_reports:
  assumes wf: "select_wf (el, st)" and sel: "select_answers ready sel" and ready: "\<forall>fd. ready fd \<in> {0..3}"
  shows "\<exists>fired st'. aeApiPoll_select sel el st = Inr (fired, st') \<and>
    {e \<in> set fired. snd e \<noteq> 0} = {(fd, fd_mask el fd AND ready fd) | fd. fd_mask el fd AND ready fd \<noteq> 0}"
proof -
  obtain k r w where call: "sel (maxfd el + 1) (rfds st) (wfds st) = (k, r, w)" by (cases "sel (maxfd el + 1) (rfds st) (wfds st)")
  note bits = select_bits(1) [OF wf sel ready call] and k = select_bits(2) [OF wf sel ready call]
  note range = select_wf_masks(1) [OF wf] and high = select_wf_masks(3) [OF wf]
  let ?b = "\<lambda>fd. fd_mask el fd AND ready fd"
  have none: "?b fd = 0" if "maxfd el < fd \<or> fd < 0" for fd
    using select_wf_masks(2) [OF wf that] by (simp add: AE_NONE_def)
  show ?thesis
  proof (cases "k > 0")
    case False
    have "?b fd = 0" for fd
    proof (cases "0 \<le> fd \<and> fd \<le> maxfd el")
      case True
      then have "nat fd < FD_SETSIZE" using high unfolding FD_SETSIZE_def by linarith
      then show ?thesis using k False True by fastforce
    qed (use none in auto)
    then show ?thesis using False by (simp add: aeApiPoll_select_def call)
  next
    case True
    let ?fired = "map (\<lambda>j. (int j, ?b (int j))) (filter (\<lambda>j. fd_mask el (int j) \<noteq> AE_NONE) [0..<nat (maxfd el + 1)])"
    have "select_scan (events el) r w [0..<nat (maxfd el + 1)] = Inr ?fired"
      using bits range ready high wf by (intro select_scan_reports) (auto simp: FD_SETSIZE_def bit_and_iff select_wf_def)
    moreover have "{e \<in> set ?fired. snd e \<noteq> 0} = {(fd, ?b fd) | fd. ?b fd \<noteq> 0}"
    proof -
      have "\<exists>j. fd = int j \<and> j < nat (maxfd el + 1) \<and> fd_mask el (int j) \<noteq> AE_NONE" if "?b fd \<noteq> 0" for fd
      proof -
        have "\<not> (maxfd el < fd \<or> fd < 0)" using that none [of fd] by blast
        then have "0 \<le> fd" "fd \<le> maxfd el" "fd_mask el fd \<noteq> AE_NONE" using that by (auto simp: AE_NONE_def)
        then show ?thesis by (intro exI [of _ "nat fd"]) auto
      qed
      then show ?thesis by force
    qed
    ultimately show ?thesis using True by (simp add: aeApiPoll_select_def call)
  qed
qed

text \<open>The kernel never watches a descriptor outside the table.\<close>

definition outside_clear :: "'h aeEventLoop \<Rightarrow> bool" where
  "outside_clear el \<longleftrightarrow> setsize el = 1024 \<and> (\<forall>fd. fd < 0 \<or> 1024 \<le> fd \<longrightarrow> apidata el fd = None)"

lemma fd_call_outside: "outside_clear el \<Longrightarrow> fd_call x el = Some (r, el') \<Longrightarrow> outside_clear el'"
  by (cases x) (auto simp: outside_clear_def aeCreateFileEvent_def aeApiAddEvent_def aeDeleteFileEvent_def aeApiDelEvent_def
      epoll_ctl_def Let_def split: if_splits sum.splits option.splits ctl_op.splits)

lemma run_outside: "outside_clear el \<Longrightarrow> run_calls fd_call ops el = Some (rs, el') \<Longrightarrow> outside_clear el'"
proof (induction ops arbitrary: el rs)
  case Nil
  then show ?case by simp
next
  case (Cons x xs)
  then show ?case by (auto simp: bind_eq_Some_conv dest: fd_call_outside)
qed

lemma watch_everywhere:
  assumes "el_wf el" and "outside_clear el"
  shows "apidata el fd = watch_of (fd_mask el fd)"
  using el_wf_watch [OF assms(1), of fd] assms(2)
  by (cases "0 \<le> fd \<and> fd < 1024") (auto simp: outside_clear_def fd_mask_def watch_of_def)

lemma epoll_reports:
  assumes wf: "el_wf el" and out: "outside_clear el"
    and epoll: "epoll_answers ready (apidata el) reported" and ready: "\<forall>fd. ready fd \<in> {0..3}"
  shows "set (aeApiPoll reported) = {(fd, fd_mask el fd AND ready fd) | fd. fd_mask el fd AND ready fd \<noteq> 0}"
proof -
  let ?b = "\<lambda>fd. fd_mask el fd AND ready fd"
  have range: "fd_mask el fd \<in> {0..3}" for fd using wf unfolding el_wf_def by blast
  have b: "?b fd \<in> {0..3}" for fd using mask_and [OF range [of fd]] ready by blast
  have ev: "ee_events (fd_mask el fd) AND ee_events (ready fd) = ee_events (?b fd)" for fd
    using ee_events_and [OF range] ready by blast
  have one: "watch_of (fd_mask el fd) = Some v \<and> v AND ee_events (ready fd) \<noteq> 0 \<longleftrightarrow>
      v = ee_events (fd_mask el fd) \<and> ?b fd \<noteq> 0" for fd v
    using ev [of fd] poll_mask_ee_events [OF b, of fd] by (auto simp: watch_of_def AE_NONE_def)
  have "set reported = {(fd, ee_events (?b fd)) | fd. ?b fd \<noteq> 0}"
    unfolding epoll [unfolded epoll_answers_def] watch_everywhere [OF wf out] one by (auto simp: ev)
  then have "set (aeApiPoll reported) = (\<lambda>fd. (fd, poll_mask (ee_events (?b fd)))) ` {fd. ?b fd \<noteq> 0}"
    by (auto simp: aeApiPoll_def)
  then show ?thesis using poll_mask_ee_events [OF b] by auto
qed

text \<open>
  Compiled with \<open>select\<close> instead of \<open>epoll\<close>, the loop behaves the same: after the creation of a loop
  for 1024 descriptors and any registrations, removals and queries, both builds have given the
  same answers, and asked by the same kernel they report the same events, except that \<open>select\<close>
  also reports, with an empty mask, registered descriptors for which nothing has happened.
\<close>

theorem backends_agree:
  assumes "aeCreateEventLoop now junk True True 1024 = Some el" and "run_calls fd_call ops el = Some (rs, el')"
    and "\<forall>fd. ready fd \<in> {0..3}" and "select_answers ready sel" and "epoll_answers ready (apidata el') reported"
  shows "\<exists>sl fired st. run_calls select_call ops (el, aeApiCreate_select bits) = Some (rs, sl) \<and>
    aeApiPoll_select sel (fst sl) (snd sl) = Inr (fired, st) \<and>
    {e \<in> set fired. snd e \<noteq> 0} = set (aeApiPoll reported)"
proof -
  have el: "el_wf el" "setsize el = 1024" "fd_mask el = (\<lambda>fd. AE_NONE)" "outside_clear el"
    using aeCreateEventLoop_wf [OF assms(1)] assms(1) by (auto simp: aeCreateEventLoop_def outside_clear_def)
  then have sl: "select_wf (el, aeApiCreate_select bits)"
    unfolding select_wf_def fst_conv snd_conv el(3) by (intro conjI exI [of _ "apidata el"] sets_show_init) auto
  have e: "rs = fst (run_spec (fd_spec 1024) ops (fd_mask el))" "el_wf el'" "setsize el' = 1024"
    "fd_mask el' = snd (run_spec (fd_spec 1024) ops (fd_mask el))"
    using fd_table.run_sim [of el ops] el(1,2) assms(2) by auto
  obtain el2 st where s: "run_calls select_call ops (el, aeApiCreate_select bits) = Some (rs, (el2, st))"
    "select_wf (el2, st)" "fd_mask el2 = fd_mask el'"
    using select_table.run_sim [OF sl, of ops] by (auto simp: e)
  have "set (aeApiPoll reported) = {(fd, fd_mask el' fd AND ready fd) | fd. fd_mask el' fd AND ready fd \<noteq> 0}"
    by (rule epoll_reports [OF e(2) run_outside [OF el(4) assms(2)] assms(5,3)])
  moreover obtain fired st' where "aeApiPoll_select sel el2 st = Inr (fired, st')"
    "{e \<in> set fired. snd e \<noteq> 0} = {(fd, fd_mask el' fd AND ready fd) | fd. fd_mask el' fd AND ready fd \<noteq> 0}"
    using select_reports [OF s(2) assms(4,3)] unfolding s(3) by blast
  ultimately show ?thesis using s(1) by auto
qed

text \<open>A kernel that answers as documented, and a descriptor that is readable.\<close>

definition kernel_select :: "(int \<Rightarrow> int) \<Rightarrow> select_call" where
  "kernel_select ready n r w =
     (let r' = map (\<lambda>i. int i < n \<and> r ! i \<and> bit (ready (int i)) 0) [0..<FD_SETSIZE];
          w' = map (\<lambda>i. int i < n \<and> w ! i \<and> bit (ready (int i)) 1) [0..<FD_SETSIZE]
      in (int (length (filter (\<lambda>i. r' ! i) [0..<FD_SETSIZE]) + length (filter (\<lambda>i. w' ! i) [0..<FD_SETSIZE])), r', w'))"

lemma kernel_select_answers: "select_answers ready (kernel_select ready)"
proof -
  have some: "0 < length (filter P xs) \<longleftrightarrow> (\<exists>i \<in> set xs. P i)" for P and xs :: "nat list" by (induction xs) auto
  have pos: "0 < int (m + n) \<longleftrightarrow> 0 < m \<or> 0 < n" for m n by auto
  show ?thesis unfolding select_answers_def kernel_select_def Let_def prod.case pos some by auto
qed

theorem backends_agree_witness:
  "\<exists>sl fired st. run_calls select_call [Register 5 RW (0 :: nat) 0, Register 7 R 0 0] (fresh_loop, aeApiCreate_select ([], [])) =
      Some ([AE_OK, AE_OK], sl) \<and>
    aeApiPoll_select (kernel_select (\<lambda>fd. if fd = 5 then 1 else 0)) (fst sl) (snd sl) = Inr (fired, st) \<and>
    {e \<in> set fired. snd e \<noteq> 0} = {(5, AE_READABLE)}"
proof -
  let ?ops = "[Register 5 RW (0 :: nat) 0, Register 7 R 0 0]" and ?ready = "\<lambda>fd :: int. if fd = 5 then 1 else 0 :: int"
  have clear: "outside_clear (fresh_loop :: nat aeEventLoop)"
    by (simp add: outside_clear_def fresh_loop_def aeCreateEventLoop_def)
  have zero: "fd_mask (fresh_loop :: nat aeEventLoop) = (\<lambda>fd. AE_NONE)" using aeCreateEventLoop_wf [OF fresh_loop_ok] by blast
  have spec: "run_spec (fd_spec 1024) ?ops (\<lambda>fd. AE_NONE) = ([AE_OK, AE_OK], (\<lambda>fd. AE_NONE)(5 := 3, 7 := 1))"
    by (simp add: Let_def AE_NONE_def AE_READABLE_def AE_WRITABLE_def)
  obtain el where el: "run_calls fd_call ?ops fresh_loop = Some ([AE_OK, AE_OK], el)" "el_wf el"
    "fd_mask el = (\<lambda>fd. AE_NONE)(5 := 3, 7 := 1)"
    using fd_table.run_sim [of "fresh_loop :: nat aeEventLoop" ?ops] fresh_loop_wf fresh_loop_setsize
    unfolding zero spec fst_conv snd_conv by blast
  have w: "apidata el fd = (if fd = 5 then Some 5 else if fd = 7 then Some 1 else None)" for fd
    using watch_everywhere [OF el(2) run_outside [OF clear el(1)], of fd] unfolding el(3)
    by (auto simp: watch_of_def ee_events_def ae_consts)
  have "epoll_answers ?ready (apidata el) [(5, 1)]"
    unfolding epoll_answers_def w by (auto simp: ee_events_def ae_consts split: if_splits)
  then show ?thesis
    using backends_agree [OF fresh_loop_ok el(1), of ?ready "kernel_select ?ready" "[(5, 1)]" "([], [])"]
    by (auto simp: kernel_select_answers aeApiPoll_def poll_mask_def ae_consts EPOLLERR_def EPOLLHUP_def)
qed

text \<open>
  The \<open>select\<close> build checks the size of the set when a loop is resized, not when it is created: in a
  loop for more descriptors, registering the first one too many writes outside the set.
\<close>

theorem large_loop_overruns_the_set:
  assumes "setsize el > int FD_SETSIZE" and "m \<in> {1..3}"
  shows "aeCreateFileEvent_select (el, st) (int FD_SETSIZE) m proc cdata = Inl Undefined"
proof -
  have "bit m 0 \<or> bit m 1" using mask_nonzero [of m] assms(2) by auto
  then show ?thesis
    using assms(1) by (auto simp: aeCreateFileEvent_select_def aeApiAddEvent_select_def put_bits_def readable_iff writable_iff FD_put_def FD_SETSIZE_def)
qed

end
