(* ===== verification/Anet.thy ===== *)
theory Anet
  imports Prelude "HOL-Library.Signed_Division"
begin

text \<open>
  The socket helpers of \<^verbatim>\<open>proxy/anet.c\<close>.  The kernel is its table of open descriptors and a list
  of what it answers to the calls to come; a call for which the list has no answer is \<open>Blocked\<close>.
  New descriptors are the lowest ones free, as POSIX has it.  Every call is recorded.
\<close>

subsection \<open>The kernel\<close>

datatype sockaddr = Sin string nat | Sin6 string nat | Sun | Other_family

datatype sockopt =
  SO_KEEPALIVE | TCP_KEEPIDLE | TCP_KEEPINTVL | TCP_KEEPCNT | TCP_NODELAY | SO_SNDBUF | SO_SNDTIMEO | SO_REUSEADDR | IPV6_V6ONLY

datatype sockcall =
  Socket int | Setsockopt nat sockopt int | Getfl nat | Setfl nat int | Bind nat string | Connect nat string | Listen nat nat
| Accept nat | Close nat | Read nat nat | Write nat string | Getpeername nat | Getsockname nat | Chmod string int

text \<open>An answer: the value returned, \<open>errno\<close> in case of failure, and what is written to the caller's buffers.\<close>

record answer =
  val :: int
  err_no :: int
  got :: string
  peer :: sockaddr

record kernel =
  fds :: "nat list"
  errnum :: int
  answers :: "answer list"
  calls :: "sockcall list"
  err :: "(string \<times> int) option option"

definition ANET_OK :: int where "ANET_OK = 0"
definition ANET_ERR :: int where "ANET_ERR = -1"

named_theorems anet_const \<open>the constants of the socket helpers\<close>

lemmas anet_consts [anet_const] = ANET_OK_def ANET_ERR_def

definition lowest_free :: "nat list \<Rightarrow> nat" where
  "lowest_free ds = hd (filter (\<lambda>n. n \<notin> set ds) [0..<Suc (length ds)])"

definition EINTR :: int where "EINTR = 4"
definition EINPROGRESS :: int where "EINPROGRESS = 115"
definition O_NONBLOCK :: int where "O_NONBLOCK = 2048"
definition AF_LOCAL :: int where "AF_LOCAL = 1"
definition AF_INET :: int where "AF_INET = 2"
definition AF_INET6 :: int where "AF_INET6 = 10"

text \<open>
  A failing call sets \<open>errno\<close>; a successful \<open>socket\<close> or \<open>accept\<close> opens a descriptor, \<open>close\<close>
  frees it.  Closing never fails here, its result is not looked at anywhere.
\<close>

definition sys :: "sockcall \<Rightarrow> kernel \<Rightarrow> (answer \<times> kernel) outcome" where
  "sys c k =
     (case answers k of
        [] \<Rightarrow> Inl Blocked
      | a # rest \<Rightarrow>
          let k = k\<lparr>answers := rest, calls := calls k @ [c]\<rparr> in
          if val a = -1 then Inr (a, k\<lparr>errnum := err_no a\<rparr>)
          else
            (case c of
               Socket domain \<Rightarrow> let n = lowest_free (fds k) in Inr (a\<lparr>val := int n\<rparr>, k\<lparr>fds := n # fds k\<rparr>)
             | Accept s \<Rightarrow> let n = lowest_free (fds k) in Inr (a\<lparr>val := int n\<rparr>, k\<lparr>fds := n # fds k\<rparr>)
             | _ \<Rightarrow> Inr (a, k)))"

definition close_sock :: "nat \<Rightarrow> kernel \<Rightarrow> kernel" where
  "close_sock s k = k\<lparr>fds := filter (\<lambda>n. n \<noteq> s) (fds k), calls := calls k @ [Close s]\<rparr>"

text \<open>\<open>err\<close> is \<open>None\<close> when the caller passed \<open>NULL\<close>, otherwise the last message and its number.\<close>

definition anetSetError :: "string \<Rightarrow> int \<Rightarrow> kernel \<Rightarrow> kernel" where
  "anetSetError fmt n k = (case err k of None \<Rightarrow> k | Some m \<Rightarrow> k\<lparr>err := Some (Some (fmt, n))\<rparr>)"

definition fail_with :: "string \<Rightarrow> kernel \<Rightarrow> (int \<times> kernel) outcome" where
  "fail_with fmt k = Inr (ANET_ERR, anetSetError fmt (errnum k) k)"

subsection \<open>Options\<close>

definition set_option :: "string \<Rightarrow> nat \<Rightarrow> sockopt \<Rightarrow> int \<Rightarrow> kernel \<Rightarrow> (int \<times> kernel) outcome" where
  "set_option fmt fd opt v k =
     andThen (sys (Setsockopt fd opt v) k) (\<lambda>(a, k). if val a = -1 then fail_with fmt k else Inr (ANET_OK, k))"

definition anetSetBlock :: "nat \<Rightarrow> bool \<Rightarrow> kernel \<Rightarrow> (int \<times> kernel) outcome" where
  "anetSetBlock fd non_block k =
     andThen (sys (Getfl fd) k) (\<lambda>(a, k).
       if val a = -1 then fail_with ''fcntl(F_GETFL): %s'' k
       else
         let flags = (if non_block then val a OR O_NONBLOCK else val a AND NOT O_NONBLOCK) in
         andThen (sys (Setfl fd flags) k) (\<lambda>(a, k).
           if val a = -1 then fail_with ''fcntl(F_SETFL,O_NONBLOCK): %s'' k else Inr (ANET_OK, k)))"

definition anetNonBlock :: "nat \<Rightarrow> kernel \<Rightarrow> (int \<times> kernel) outcome" where
  "anetNonBlock fd k = anetSetBlock fd True k"

definition anetBlock :: "nat \<Rightarrow> kernel \<Rightarrow> (int \<times> kernel) outcome" where
  "anetBlock fd k = anetSetBlock fd False k"

text \<open>The Linux variant; the last three calls compare with \<open>< 0\<close>.\<close>

definition probe_option :: "string \<Rightarrow> nat \<Rightarrow> sockopt \<Rightarrow> int \<Rightarrow> kernel \<Rightarrow> (int \<times> kernel) outcome" where
  "probe_option fmt fd opt v k =
     andThen (sys (Setsockopt fd opt v) k) (\<lambda>(a, k). if val a < 0 then fail_with fmt k else Inr (ANET_OK, k))"

definition anetKeepAlive :: "nat \<Rightarrow> int \<Rightarrow> kernel \<Rightarrow> (int \<times> kernel) outcome" where
  "anetKeepAlive fd interval k =
     andThen (set_option ''setsockopt SO_KEEPALIVE: %s'' fd SO_KEEPALIVE 1 k) (\<lambda>(r, k).
       if r = ANET_ERR then Inr (ANET_ERR, k)
       else
         andThen (probe_option ''setsockopt TCP_KEEPIDLE: %s'' fd TCP_KEEPIDLE interval k) (\<lambda>(r, k).
           if r = ANET_ERR then Inr (ANET_ERR, k)
           else
             let v = interval sdiv 3; v = (if v = 0 then 1 else v) in
             andThen (probe_option ''setsockopt TCP_KEEPINTVL: %s'' fd TCP_KEEPINTVL v k) (\<lambda>(r, k).
               if r = ANET_ERR then Inr (ANET_ERR, k)
               else probe_option ''setsockopt TCP_KEEPCNT: %s'' fd TCP_KEEPCNT 3 k)))"

definition anetSetTcpNoDelay :: "nat \<Rightarrow> int \<Rightarrow> kernel \<Rightarrow> (int \<times> kernel) outcome" where
  "anetSetTcpNoDelay fd v k = set_option ''setsockopt TCP_NODELAY: %s'' fd TCP_NODELAY v k"

definition anetEnableTcpNoDelay :: "nat \<Rightarrow> kernel \<Rightarrow> (int \<times> kernel) outcome" where
  "anetEnableTcpNoDelay fd k = anetSetTcpNoDelay fd 1 k"

definition anetDisableTcpNoDelay :: "nat \<Rightarrow> kernel \<Rightarrow> (int \<times> kernel) outcome" where
  "anetDisableTcpNoDelay fd k = anetSetTcpNoDelay fd 0 k"

definition anetSetSendBuffer :: "nat \<Rightarrow> int \<Rightarrow> kernel \<Rightarrow> (int \<times> kernel) outcome" where
  "anetSetSendBuffer fd buffsize k = set_option ''setsockopt SO_SNDBUF: %s'' fd SO_SNDBUF buffsize k"

definition anetTcpKeepAlive :: "nat \<Rightarrow> kernel \<Rightarrow> (int \<times> kernel) outcome" where
  "anetTcpKeepAlive fd k = set_option ''setsockopt SO_KEEPALIVE: %s'' fd SO_KEEPALIVE 1 k"

text \<open>The timeout in microseconds: the two fields of the \<open>timeval\<close> together.\<close>

definition anetSendTimeout :: "nat \<Rightarrow> int \<Rightarrow> kernel \<Rightarrow> (int \<times> kernel) outcome" where
  "anetSendTimeout fd ms k =
     (let tv_sec = ms sdiv 1000; tv_usec = (ms smod 1000) * 1000
      in set_option ''setsockopt SO_SNDTIMEO: %s'' fd SO_SNDTIMEO (tv_sec * 1000000 + tv_usec) k)"

definition anetSetReuseAddr :: "nat \<Rightarrow> kernel \<Rightarrow> (int \<times> kernel) outcome" where
  "anetSetReuseAddr fd k = set_option ''setsockopt SO_REUSEADDR: %s'' fd SO_REUSEADDR 1 k"

definition anetCreateSocket :: "int \<Rightarrow> kernel \<Rightarrow> (int \<times> kernel) outcome" where
  "anetCreateSocket domain k =
     andThen (sys (Socket domain) k) (\<lambda>(a, k).
       if val a = -1 then fail_with ''creating socket: %s'' k
       else
         let s = nat (val a) in
         andThen (anetSetReuseAddr s k) (\<lambda>(r, k).
           if r = ANET_ERR then Inr (ANET_ERR, close_sock s k) else Inr (int s, k)))"


subsection \<open>Connecting\<close>

record addrinfo =
  ai_family :: int
  ai_addr :: string

text \<open>
  \<open>getaddrinfo\<close>: host, service, the family and the flags of the hints; it answers its error
  number and the list of addresses.
\<close>

type_synonym resolver = "string option \<Rightarrow> string option \<Rightarrow> int \<Rightarrow> int \<Rightarrow> int \<times> addrinfo list"

definition AF_UNSPEC :: int where "AF_UNSPEC = 0"
definition AI_PASSIVE :: int where "AI_PASSIVE = 1"
definition AI_NUMERICHOST :: int where "AI_NUMERICHOST = 4"
definition ANET_NONE :: int where "ANET_NONE = 0"
definition ANET_IP_ONLY :: int where "ANET_IP_ONLY = 1"
definition ANET_CONNECT_NONE :: int where "ANET_CONNECT_NONE = 0"
definition ANET_CONNECT_NONBLOCK :: int where "ANET_CONNECT_NONBLOCK = 1"
definition ANET_CONNECT_BE_BINDING :: int where "ANET_CONNECT_BE_BINDING = 2"

text \<open>\<open>inet_ntop\<close> prints an address, when the buffer of \<open>n\<close> bytes has room for it and its \<open>NUL\<close>.\<close>

definition print_addr :: "string \<Rightarrow> nat \<Rightarrow> string option" where
  "print_addr text n = (if length text < n then Some text else None)"

definition anetGenericResolve :: "resolver \<Rightarrow> string \<Rightarrow> nat \<Rightarrow> int \<Rightarrow> kernel \<Rightarrow> int \<times> string option \<times> kernel" where
  "anetGenericResolve res host ipbuf_len flags k =
     (case res (Some host) None AF_UNSPEC (if flags AND ANET_IP_ONLY \<noteq> 0 then AI_NUMERICHOST else 0) of
        (rv, info) \<Rightarrow>
          if rv \<noteq> 0 then (ANET_ERR, None, anetSetError ''%s'' rv k)
          else (ANET_OK, print_addr (ai_addr (hd info)) ipbuf_len, k))"

definition anetResolve :: "resolver \<Rightarrow> string \<Rightarrow> nat \<Rightarrow> kernel \<Rightarrow> int \<times> string option \<times> kernel" where
  "anetResolve res host ipbuf_len k = anetGenericResolve res host ipbuf_len ANET_NONE k"

definition anetResolveIP :: "resolver \<Rightarrow> string \<Rightarrow> nat \<Rightarrow> kernel \<Rightarrow> int \<times> string option \<times> kernel" where
  "anetResolveIP res host ipbuf_len k = anetGenericResolve res host ipbuf_len ANET_IP_ONLY k"

text \<open>\<open>snprintf\<close> of the port into six bytes.\<close>

definition port_string :: "int \<Rightarrow> string" where
  "port_string port = take 5 (if port < 0 then ''-'' @ decimal (nat (- port)) else decimal (nat port))"

text \<open>The loop over the addresses to bind to: was one of them bound?\<close>

fun bind_loop :: "nat \<Rightarrow> addrinfo list \<Rightarrow> kernel \<Rightarrow> (bool \<times> kernel) outcome" where
  "bind_loop s [] k = Inr (False, k)"
| "bind_loop s (b # bs) k =
     andThen (sys (Bind s (ai_addr b)) k) (\<lambda>(a, k). if val a \<noteq> -1 then Inr (True, k) else bind_loop s bs k)"

text \<open>What is done to a socket before \<open>connect\<close>; \<open>ANET_ERR\<close> is the jump to \<open>error\<close>.\<close>

definition bind_source :: "resolver \<Rightarrow> string option \<Rightarrow> nat \<Rightarrow> kernel \<Rightarrow> (int \<times> kernel) outcome" where
  "bind_source res source s k =
     (case source of
        None \<Rightarrow> Inr (ANET_OK, k)
      | Some addr \<Rightarrow>
          (case res (Some addr) None AF_UNSPEC 0 of (rv, bservinfo) \<Rightarrow>
             if rv \<noteq> 0 then Inr (ANET_ERR, anetSetError ''%s'' rv k)
             else andThen (bind_loop s bservinfo k) (\<lambda>(bound, k).
                    if bound then Inr (ANET_OK, k) else fail_with ''bind: %s'' k)))"

definition prepare_socket :: "resolver \<Rightarrow> string option \<Rightarrow> int \<Rightarrow> nat \<Rightarrow> kernel \<Rightarrow> (int \<times> kernel) outcome" where
  "prepare_socket res source flags s k =
     andThen (anetSetReuseAddr s k) (\<lambda>(r, k).
       if r = ANET_ERR then Inr (ANET_ERR, k)
       else
         andThen (if flags AND ANET_CONNECT_NONBLOCK \<noteq> 0 then anetNonBlock s k else Inr (ANET_OK, k)) (\<lambda>(r, k).
           if r \<noteq> ANET_OK then Inr (ANET_ERR, k) else bind_source res source s k))"

text \<open>The loop over the addresses of the server, down to the label \<open>end\<close>.\<close>

fun connect_loop :: "resolver \<Rightarrow> string option \<Rightarrow> int \<Rightarrow> addrinfo list \<Rightarrow> kernel \<Rightarrow> (int \<times> kernel) outcome" where
  "connect_loop res source flags [] k = fail_with ''creating socket: %s'' k"
| "connect_loop res source flags (p # ps) k =
     andThen (sys (Socket (ai_family p)) k) (\<lambda>(a, k).
       if val a = -1 then connect_loop res source flags ps k
       else
         let s = nat (val a) in
         andThen (prepare_socket res source flags s k) (\<lambda>(r, k).
           if r = ANET_ERR then Inr (ANET_ERR, close_sock s k)
           else
             andThen (sys (Connect s (ai_addr p)) k) (\<lambda>(a, k).
               if val a = -1 then
                 if errnum k = EINPROGRESS \<and> flags AND ANET_CONNECT_NONBLOCK \<noteq> 0 then Inr (int s, k)
                 else connect_loop res source flags ps (close_sock s k)
               else Inr (int s, k))))"

text \<open>The second attempt, without a source address, is the last.\<close>

function anetTcpGenericConnect :: "resolver \<Rightarrow> string \<Rightarrow> int \<Rightarrow> string option \<Rightarrow> int \<Rightarrow> kernel \<Rightarrow> (int \<times> kernel) outcome" where
  "anetTcpGenericConnect res addr port source flags k =
     (case res (Some addr) (Some (port_string port)) AF_UNSPEC 0 of
        (rv, servinfo) \<Rightarrow>
          if rv \<noteq> 0 then Inr (ANET_ERR, anetSetError ''%s'' rv k)
          else
            andThen (connect_loop res source flags servinfo k) (\<lambda>(s, k).
              if s = ANET_ERR \<and> source \<noteq> None \<and> flags AND ANET_CONNECT_BE_BINDING \<noteq> 0
              then anetTcpGenericConnect res addr port None flags k
              else Inr (s, k)))"
  by pat_completeness auto
termination
  by (relation "measure (\<lambda>(_, _, _, source, _, _). if source = None then 0 else 1)") auto

declare anetTcpGenericConnect.simps [simp del]

definition anetTcpConnect :: "resolver \<Rightarrow> string \<Rightarrow> int \<Rightarrow> kernel \<Rightarrow> (int \<times> kernel) outcome" where
  "anetTcpConnect res addr port k = anetTcpGenericConnect res addr port None ANET_CONNECT_NONE k"

definition anetTcpNonBlockConnect :: "resolver \<Rightarrow> string \<Rightarrow> int \<Rightarrow> kernel \<Rightarrow> (int \<times> kernel) outcome" where
  "anetTcpNonBlockConnect res addr port k = anetTcpGenericConnect res addr port None ANET_CONNECT_NONBLOCK k"

definition anetTcpNonBlockBindConnect :: "resolver \<Rightarrow> string \<Rightarrow> int \<Rightarrow> string option \<Rightarrow> kernel \<Rightarrow> (int \<times> kernel) outcome" where
  "anetTcpNonBlockBindConnect res addr port source k =
     anetTcpGenericConnect res addr port source ANET_CONNECT_NONBLOCK k"

definition anetTcpNonBlockBestEffortBindConnect ::
  "resolver \<Rightarrow> string \<Rightarrow> int \<Rightarrow> string option \<Rightarrow> kernel \<Rightarrow> (int \<times> kernel) outcome" where
  "anetTcpNonBlockBestEffortBindConnect res addr port source k =
     anetTcpGenericConnect res addr port source (ANET_CONNECT_NONBLOCK OR ANET_CONNECT_BE_BINDING) k"

text \<open>\<open>sun_path\<close> has 108 bytes.\<close>

definition sun_path :: "string \<Rightarrow> string" where
  "sun_path path = take 107 path"

definition anetUnixGenericConnect :: "string \<Rightarrow> int \<Rightarrow> kernel \<Rightarrow> (int \<times> kernel) outcome" where
  "anetUnixGenericConnect path flags k =
     andThen (anetCreateSocket AF_LOCAL k) (\<lambda>(s, k).
       if s = ANET_ERR then Inr (ANET_ERR, k)
       else
         andThen (if flags AND ANET_CONNECT_NONBLOCK \<noteq> 0 then anetNonBlock (nat s) k else Inr (ANET_OK, k)) (\<lambda>(r, k).
           if r \<noteq> ANET_OK then Inr (ANET_ERR, k)
           else
             andThen (sys (Connect (nat s) (sun_path path)) k) (\<lambda>(a, k).
               if val a = -1 then
                 if errnum k = EINPROGRESS \<and> flags AND ANET_CONNECT_NONBLOCK \<noteq> 0 then Inr (s, k)
                 else andThen (fail_with ''connect: %s'' k) (\<lambda>(r, k). Inr (r, close_sock (nat s) k))
               else Inr (s, k))))"

definition anetUnixConnect :: "string \<Rightarrow> kernel \<Rightarrow> (int \<times> kernel) outcome" where
  "anetUnixConnect path k = anetUnixGenericConnect path ANET_CONNECT_NONE k"

definition anetUnixNonBlockConnect :: "string \<Rightarrow> kernel \<Rightarrow> (int \<times> kernel) outcome" where
  "anetUnixNonBlockConnect path k = anetUnixGenericConnect path ANET_CONNECT_NONBLOCK k"


subsection \<open>Reading and writing all\<close>

text \<open>
  Each turn uses up an answer of the kernel, so the loops end.  A kernel that returned more than
  it was asked for would have written behind the buffer.
\<close>

lemma andThen_cong: "r = r' \<Longrightarrow> (\<And>a. r' = Inr a \<Longrightarrow> f a = g a) \<Longrightarrow> andThen r f = andThen r' g"
  by (cases r') simp_all

declare andThen_cong [fundef_cong]

lemma sys_answers: "sys c k = Inr (a, k') \<Longrightarrow> length (answers k) = Suc (length (answers k'))"
  by (auto simp: sys_def Let_def split: list.splits if_splits sockcall.splits)

function read_loop :: "nat \<Rightarrow> nat \<Rightarrow> string \<Rightarrow> kernel \<Rightarrow> (int \<times> string \<times> kernel) outcome" where
  "read_loop fd count buf k =
     (if length buf = count then Inr (int count, buf, k)
      else
        andThen (sys (Read fd (count - length buf)) k) (\<lambda>(a, k).
          if val a = 0 then Inr (int (length buf), buf, k)
          else if val a = -1 then Inr (-1, buf, k)
          else if val a \<noteq> int (length (got a)) \<or> count < length buf + length (got a) then Inl Undefined
          else read_loop fd count (buf @ got a) k))"
  by pat_completeness auto
termination
  by (relation "measure (\<lambda>(_, _, _, k). length (answers k))") (auto dest: sys_answers)

declare read_loop.simps [simp del]

definition anetRead :: "nat \<Rightarrow> nat \<Rightarrow> kernel \<Rightarrow> (int \<times> string \<times> kernel) outcome" where
  "anetRead fd count k = read_loop fd count [] k"

function write_all :: "nat \<Rightarrow> string \<Rightarrow> nat \<Rightarrow> kernel \<Rightarrow> (int \<times> kernel) outcome" where
  "write_all fd buf totlen k =
     (if buf = [] then Inr (int totlen, k)
      else
        andThen (sys (Write fd buf) k) (\<lambda>(a, k).
          if val a = 0 then Inr (int totlen, k)
          else if val a = -1 then Inr (-1, k)
          else if val a < 0 \<or> int (length buf) < val a then Inl Undefined
          else write_all fd (drop (nat (val a)) buf) (totlen + nat (val a)) k))"
  by pat_completeness auto
termination
  by (relation "measure (\<lambda>(_, _, _, k). length (answers k))") (auto dest: sys_answers)

declare write_all.simps [simp del]

definition anetWrite :: "nat \<Rightarrow> string \<Rightarrow> kernel \<Rightarrow> (int \<times> kernel) outcome" where
  "anetWrite fd buf k = write_all fd buf 0 k"

subsection \<open>Servers\<close>

definition anetListen :: "nat \<Rightarrow> string \<Rightarrow> nat \<Rightarrow> kernel \<Rightarrow> (int \<times> kernel) outcome" where
  "anetListen s sa backlog k =
     andThen (sys (Bind s sa) k) (\<lambda>(a, k).
       if val a = -1 then andThen (fail_with ''bind: %s'' k) (\<lambda>(r, k). Inr (r, close_sock s k))
       else
         andThen (sys (Listen s backlog) k) (\<lambda>(a, k).
           if val a = -1 then andThen (fail_with ''listen: %s'' k) (\<lambda>(r, k). Inr (r, close_sock s k))
           else Inr (ANET_OK, k)))"

definition anetV6Only :: "nat \<Rightarrow> kernel \<Rightarrow> (int \<times> kernel) outcome" where
  "anetV6Only s k =
     andThen (set_option ''setsockopt: %s'' s IPV6_V6ONLY 1 k) (\<lambda>(r, k).
       if r = ANET_ERR then Inr (ANET_ERR, close_sock s k) else Inr (ANET_OK, k))"

text \<open>The loop over the addresses, down to the label \<open>end\<close>.  The jumps to \<open>error\<close> close nothing.\<close>

fun server_loop :: "int \<Rightarrow> nat \<Rightarrow> addrinfo list \<Rightarrow> kernel \<Rightarrow> (int \<times> kernel) outcome" where
  "server_loop af backlog [] k = Inr (ANET_ERR, anetSetError ''unable to bind socket'' 0 k)"
| "server_loop af backlog (p # ps) k =
     andThen (sys (Socket (ai_family p)) k) (\<lambda>(a, k).
       if val a = -1 then server_loop af backlog ps k
       else
         let s = nat (val a) in
         andThen (if af = AF_INET6 then anetV6Only s k else Inr (ANET_OK, k)) (\<lambda>(r, k).
           if r = ANET_ERR then Inr (ANET_ERR, k)
           else
             andThen (anetSetReuseAddr s k) (\<lambda>(r, k).
               if r = ANET_ERR then Inr (ANET_ERR, k)
               else
                 andThen (anetListen s (ai_addr p) backlog k) (\<lambda>(r, k).
                   if r = ANET_ERR then Inr (ANET_ERR, k) else Inr (int s, k)))))"

definition tcp_server :: "resolver \<Rightarrow> int \<Rightarrow> string option \<Rightarrow> int \<Rightarrow> nat \<Rightarrow> kernel \<Rightarrow> (int \<times> kernel) outcome" where
  "tcp_server res port bindaddr af backlog k =
     (case res bindaddr (Some (port_string port)) af AI_PASSIVE of
        (rv, servinfo) \<Rightarrow>
          if rv \<noteq> 0 then Inr (ANET_ERR, anetSetError ''%s'' rv k) else server_loop af backlog servinfo k)"

definition anetTcpServer :: "resolver \<Rightarrow> int \<Rightarrow> string option \<Rightarrow> nat \<Rightarrow> kernel \<Rightarrow> (int \<times> kernel) outcome" where
  "anetTcpServer res port bindaddr backlog k = tcp_server res port bindaddr AF_INET backlog k"

definition anetTcp6Server :: "resolver \<Rightarrow> int \<Rightarrow> string option \<Rightarrow> nat \<Rightarrow> kernel \<Rightarrow> (int \<times> kernel) outcome" where
  "anetTcp6Server res port bindaddr backlog k = tcp_server res port bindaddr AF_INET6 backlog k"

text \<open>The result of \<open>chmod\<close> is not looked at.\<close>

definition anetUnixServer :: "string \<Rightarrow> int \<Rightarrow> nat \<Rightarrow> kernel \<Rightarrow> (int \<times> kernel) outcome" where
  "anetUnixServer path perm backlog k =
     andThen (anetCreateSocket AF_LOCAL k) (\<lambda>(s, k).
       if s = ANET_ERR then Inr (ANET_ERR, k)
       else
         andThen (anetListen (nat s) (sun_path path) backlog k) (\<lambda>(r, k).
           if r = ANET_ERR then Inr (ANET_ERR, k)
           else
             andThen (if perm \<noteq> 0 then andThen (sys (Chmod (sun_path path) perm) k) (\<lambda>(a, k). Inr k) else Inr k) (\<lambda>k.
               Inr (s, k))))"

subsection \<open>Accepting\<close>

text \<open>An interrupted \<open>accept\<close> is called again.\<close>

function anetGenericAccept :: "nat \<Rightarrow> kernel \<Rightarrow> (answer \<times> kernel) outcome" where
  "anetGenericAccept s k =
     andThen (sys (Accept s) k) (\<lambda>(a, k).
       if val a = -1 then
         if errnum k = EINTR then anetGenericAccept s k
         else andThen (fail_with ''accept: %s'' k) (\<lambda>(r, k). Inr (a, k))
       else Inr (a, k))"
  by pat_completeness auto
termination
  by (relation "measure (\<lambda>(_, k). length (answers k))") (auto dest: sys_answers)

declare anetGenericAccept.simps [simp del]

text \<open>
  The address and the port written to the caller; \<open>None\<close> is a buffer left as it was.  Of an
  address of another family the bytes that would be printed were never written.
\<close>

definition peer_name :: "nat \<Rightarrow> sockaddr \<Rightarrow> (string option \<times> nat) outcome" where
  "peer_name ip_len sa =
     (case sa of
        Sin text port \<Rightarrow> Inr (print_addr text ip_len, port)
      | Sin6 text port \<Rightarrow> Inr (print_addr text ip_len, port)
      | _ \<Rightarrow> Inl Undefined)"

definition anetTcpAccept :: "nat \<Rightarrow> nat \<Rightarrow> kernel \<Rightarrow> (int \<times> (string option \<times> nat) option \<times> kernel) outcome" where
  "anetTcpAccept s ip_len k =
     andThen (anetGenericAccept s k) (\<lambda>(a, k).
       if val a = -1 then Inr (ANET_ERR, None, k)
       else andThen (peer_name ip_len (peer a)) (\<lambda>n. Inr (val a, Some n, k)))"

definition anetUnixAccept :: "nat \<Rightarrow> kernel \<Rightarrow> (int \<times> kernel) outcome" where
  "anetUnixAccept s k = andThen (anetGenericAccept s k) (\<lambda>(a, k). if val a = -1 then Inr (ANET_ERR, k) else Inr (val a, k))"

subsection \<open>Names of the peers\<close>

text \<open>
  The label \<open>error\<close> of \<open>anetPeerToString\<close>: a question mark when there is room.  The name of a
  local socket is cut at \<open>ip_len\<close>, then without a \<open>NUL\<close>.
\<close>

definition unknown_peer :: "nat \<Rightarrow> string option" where
  "unknown_peer ip_len = (if ip_len \<ge> 2 then Some ''?'' else if ip_len = 1 then Some [] else None)"

definition anetPeerToString :: "nat \<Rightarrow> nat \<Rightarrow> kernel \<Rightarrow> (int \<times> string option \<times> nat \<times> kernel) outcome" where
  "anetPeerToString fd ip_len k =
     andThen (sys (Getpeername fd) k) (\<lambda>(a, k).
       if val a = -1 \<or> ip_len = 0 then Inr (-1, unknown_peer ip_len, 0, k)
       else
         (case peer a of
            Sin text port \<Rightarrow> Inr (0, print_addr text ip_len, port, k)
          | Sin6 text port \<Rightarrow> Inr (0, print_addr text ip_len, port, k)
          | Sun \<Rightarrow> Inr (0, Some (take ip_len ''/unixsocket''), 0, k)
          | Other_family \<Rightarrow> Inr (-1, unknown_peer ip_len, 0, k)))"

definition anetSockName :: "nat \<Rightarrow> nat \<Rightarrow> kernel \<Rightarrow> (int \<times> string option \<times> nat \<times> kernel) outcome" where
  "anetSockName fd ip_len k =
     andThen (sys (Getsockname fd) k) (\<lambda>(a, k).
       if val a = -1 then if ip_len < 2 then Inl Undefined else Inr (-1, Some ''?'', 0, k)
       else andThen (peer_name ip_len (peer a)) (\<lambda>(ip, port). Inr (0, ip, port, k)))"

end
