(* ===== verification/AnetSafe.thy ===== *)
theory AnetSafe
  imports Anet
begin

text \<open>
  Descriptors of the socket helpers: which calls open one, and that a failing connection leaves
  none behind, whatever the kernel answers.
\<close>

subsection \<open>Calls and the table of descriptors\<close>

lemma lowest_free_fresh: "lowest_free ds \<notin> set ds"
proof -
  have "\<exists>n \<in> set [0..<Suc (length ds)]. n \<notin> set ds"
  proof (rule ccontr)
    assume "\<not> ?thesis"
    then have "{0..<Suc (length ds)} \<subseteq> set ds" unfolding set_upt by blast
    then have "card {0..<Suc (length ds)} \<le> card (set ds)" by (rule card_mono [OF finite_set])
    then show False using card_length [of ds] by simp
  qed
  then have "filter (\<lambda>n. n \<notin> set ds) [0..<Suc (length ds)] \<noteq> []" by (auto simp: filter_empty_conv)
  from hd_in_set [OF this] show ?thesis unfolding lowest_free_def set_filter by blast
qed

fun opens :: "sockcall \<Rightarrow> bool" where
  "opens (Socket d) = True"
| "opens (Accept s) = True"
| "opens c = False"

lemma sys_neutral: "sys c k = Inr (a, k') \<Longrightarrow> \<not> opens c \<Longrightarrow> fds k' = fds k"
  by (cases c) (auto simp: sys_def Let_def split: list.splits if_splits)

lemma sys_opens:
  assumes "sys c k = Inr (a, k')" and "opens c"
  shows "(val a = -1 \<and> fds k' = fds k) \<or> (\<exists>s. val a = int s \<and> s \<notin> set (fds k) \<and> fds k' = s # fds k)"
  using assms lowest_free_fresh [of "fds k"]
  by (cases c) (auto simp: sys_def Let_def split: list.splits if_splits)

lemma sys_blocks: "sys c k = Inl e \<Longrightarrow> e = Blocked"
  by (cases c) (auto simp: sys_def Let_def split: list.splits if_splits)

lemma set_error_fds [simp]: "fds (anetSetError fmt n k) = fds k"
  by (simp add: anetSetError_def split: option.split)

lemma fail_with_Inr: "fail_with fmt k = Inr (r, k') \<longleftrightarrow> r = ANET_ERR \<and> k' = anetSetError fmt (errnum k) k"
  by (auto simp: fail_with_def)

lemma close_fresh: "s \<notin> set ds \<Longrightarrow> fds k = s # ds \<Longrightarrow> fds (close_sock s k) = ds"
  by (auto simp: close_sock_def filter_id_conv)

text \<open>
  The contract of most helpers: they leave the table as it is and end, unless the kernel answers
  nothing any more.
\<close>

definition neutral :: "(kernel \<Rightarrow> ('a \<times> kernel) outcome) \<Rightarrow> bool" where
  "neutral f \<longleftrightarrow> (\<forall>k. case f k of Inr (r, k') \<Rightarrow> fds k' = fds k | Inl e \<Rightarrow> e = Blocked)"

named_theorems contract \<open>contracts of the socket helpers\<close>

lemma neutral_then:
  assumes "neutral f" and "\<And>r. neutral (g r)"
  shows "neutral (\<lambda>k. andThen (f k) (\<lambda>(r, k). g r k))"
  unfolding neutral_def
proof
  fix k
  show "case andThen (f k) (\<lambda>(r, k). g r k) of Inr (r, k') \<Rightarrow> fds k' = fds k | Inl e \<Rightarrow> e = Blocked"
  proof (cases "f k")
    case (Inl e)
    then show ?thesis using spec [OF assms(1) [unfolded neutral_def], of k] by simp
  next
    case (Inr p)
    obtain r k1 where p: "p = (r, k1)" by force
    then have "fds k1 = fds k" using spec [OF assms(1) [unfolded neutral_def], of k] Inr by simp
    then show ?thesis using spec [OF assms(2) [of r, unfolded neutral_def], of k1] Inr p by (auto split: sum.splits)
  qed
qed

lemma neutral_return: "neutral (\<lambda>k. Inr (r, k))"
  by (simp add: neutral_def)

lemma neutral_error: "neutral (\<lambda>k. Inr (r, anetSetError fmt n k))"
  by (simp add: neutral_def)

lemma neutral_fail: "neutral (fail_with fmt)"
  by (simp add: neutral_def fail_with_def)

lemma neutral_if: "(b \<Longrightarrow> neutral f) \<Longrightarrow> (\<not> b \<Longrightarrow> neutral g) \<Longrightarrow> neutral (\<lambda>k. if b then f k else g k)"
  by (cases b) simp_all

lemma neutral_sys:
  assumes "\<not> opens c" and "\<And>a. neutral (g a)"
  shows "neutral (\<lambda>k. andThen (sys c k) (\<lambda>(a, k). g a k))"
  unfolding neutral_def
proof
  fix k
  show "case andThen (sys c k) (\<lambda>(a, k). g a k) of Inr (r, k') \<Rightarrow> fds k' = fds k | Inl e \<Rightarrow> e = Blocked"
  proof (cases "sys c k")
    case (Inl e)
    then show ?thesis using sys_blocks by simp
  next
    case (Inr p)
    obtain a k1 where p: "p = (a, k1)" by force
    then have "fds k1 = fds k" using sys_neutral [of c k a k1] Inr assms(1) by simp
    then show ?thesis using spec [OF assms(2) [of a, unfolded neutral_def], of k1] Inr p by (auto split: sum.splits)
  qed
qed

lemmas neutral_intros = neutral_then neutral_return neutral_error neutral_fail neutral_if neutral_sys

lemma set_option_neutral [contract]: "neutral (set_option fmt fd opt v)"
  unfolding set_option_def by (intro neutral_intros) simp

lemma set_reuse_neutral [contract]: "neutral (anetSetReuseAddr s)"
  using set_option_neutral by (simp add: anetSetReuseAddr_def [abs_def])

lemma non_block_neutral [contract]: "neutral (anetNonBlock s)"
  unfolding anetNonBlock_def anetSetBlock_def Let_def by (intro neutral_intros) simp_all

lemma bind_loop_neutral: "neutral (bind_loop s bs)"
proof (induction bs)
  case Nil
  then show ?case using neutral_return [of False] by simp
next
  case (Cons b bs)
  have "bind_loop s (b # bs) = (\<lambda>k. andThen (sys (Bind s (ai_addr b)) k) (\<lambda>(a, k). if val a \<noteq> -1 then Inr (True, k) else bind_loop s bs k))"
    by (rule ext) simp
  then show ?case using Cons.IH by (simp only:) (intro neutral_intros, simp_all)
qed

lemma bind_source_neutral [contract]: "neutral (bind_source res source s)"
proof (cases source)
  case None
  then show ?thesis using neutral_return [of ANET_OK] by (simp add: bind_source_def [abs_def])
next
  case (Some addr)
  obtain rv infos where res: "res (Some addr) None AF_UNSPEC 0 = (rv, infos)" by force
  have "neutral (\<lambda>k. if rv \<noteq> 0 then Inr (ANET_ERR, anetSetError ''%s'' rv k)
      else andThen (bind_loop s infos k) (\<lambda>(bound, k). if bound then Inr (ANET_OK, k) else fail_with ''bind: %s'' k))"
    by (intro neutral_intros bind_loop_neutral)
  then show ?thesis by (simp add: bind_source_def [abs_def] Some res)
qed

lemma prepare_neutral [contract]: "neutral (prepare_socket res source flags s)"
  unfolding prepare_socket_def by (intro neutral_intros contract)

subsection \<open>Opening calls\<close>

lemma neutralE:
  assumes "neutral f"
  obtains (blocked) "f k = Inl Blocked" | (runs) r k' where "f k = Inr (r, k')" "fds k' = fds k"
  using spec [OF assms [unfolded neutral_def], of k] by (cases "f k") auto

lemma opensE:
  assumes "opens c"
  obtains (blocked) "sys c k = Inl Blocked" | (refused) a k' where "sys c k = Inr (a, k')" "val a = -1" "fds k' = fds k"
    | (opened) a k' s where "sys c k = Inr (a, k')" "val a = int s" "s \<notin> set (fds k)" "fds k' = s # fds k"
  using sys_opens [OF _ assms, of k] sys_blocks [of c k] by (cases "sys c k") force+

definition opened :: "kernel \<Rightarrow> (int \<times> kernel) outcome \<Rightarrow> bool" where
  "opened k out \<longleftrightarrow>
     (case out of
        Inr (r, k') \<Rightarrow> (r = ANET_ERR \<and> fds k' = fds k) \<or> (\<exists>s. r = int s \<and> s \<notin> set (fds k) \<and> fds k' = s # fds k)
      | Inl e \<Rightarrow> e = Blocked)"

lemma opened_same: "opened k1 out \<Longrightarrow> fds k1 = fds k \<Longrightarrow> opened k out"
  by (cases out) (auto simp: opened_def)

lemma opened_result: "s \<notin> set (fds k) \<Longrightarrow> fds k' = s # fds k \<Longrightarrow> opened k (Inr (int s, k'))"
  by (simp add: opened_def)

lemma opened_error: "fds k' = fds k \<Longrightarrow> opened k (Inr (ANET_ERR, k'))"
  by (simp add: opened_def)

lemma opened_blocked: "opened k (Inl Blocked)"
  by (simp add: opened_def)

lemma connect_loop_opened: "opened k (connect_loop res source flags ps k)"
proof (induction ps arbitrary: k)
  case Nil
  then show ?case by (simp add: fail_with_def opened_error)
next
  case (Cons p ps)
  have sock: "opens (Socket (ai_family p))" by simp
  show ?case
  proof (cases rule: opensE [OF sock, of k])
    case 1
    then show ?thesis by (simp add: opened_blocked)
  next
    case (2 a k1)
    then show ?thesis using opened_same [OF Cons.IH [of k1]] by simp
  next
    case opened: (3 a k1 s)
    have step: "connect_loop res source flags (p # ps) k =
      andThen (prepare_socket res source flags s k1) (\<lambda>(r, k).
           if r = ANET_ERR then Inr (ANET_ERR, close_sock s k)
           else
             andThen (sys (Connect s (ai_addr p)) k) (\<lambda>(a, k).
               if val a = -1 then
                 if errnum k = EINPROGRESS \<and> flags AND ANET_CONNECT_NONBLOCK \<noteq> 0 then Inr (int s, k)
                 else connect_loop res source flags ps (close_sock s k)
               else Inr (int s, k)))"
      using opened by (simp add: Let_def)
    show ?thesis
    proof (cases rule: neutralE [OF prepare_neutral [of res source flags s], of k1])
      case 1
      then show ?thesis unfolding step by (simp add: opened_blocked)
    next
      case (2 r k2)
      then have k2: "fds k2 = s # fds k" using opened(4) by simp
      show ?thesis
      proof (cases "r = ANET_ERR")
        case True
        then show ?thesis unfolding step using 2(1) close_fresh [OF opened(3) k2] by (simp add: opened_error)
      next
        case False
        show ?thesis
        proof (cases "sys (Connect s (ai_addr p)) k2")
          case (Inl e)
          then show ?thesis unfolding step using 2(1) False sys_blocks [OF Inl] by (simp add: opened_blocked)
        next
          case (Inr q)
          obtain b k3 where q: "q = (b, k3)" by force
          have k3: "fds k3 = s # fds k" using sys_neutral [of "Connect s (ai_addr p)" k2 b k3] Inr q k2 by simp
          then show ?thesis unfolding step
            using 2(1) False Inr q opened_same [OF Cons.IH [of "close_sock s k3"] close_fresh [OF opened(3) k3]] opened_result [OF opened(3) k3]
            by simp
        qed
      qed
    qed
  qed
qed

lemma tcp_generic_opened: "opened k (anetTcpGenericConnect res addr port source flags k)"
proof (induction res addr port source flags k rule: anetTcpGenericConnect.induct)
  case (1 res addr port source flags k)
  obtain rv infos where res: "res (Some addr) (Some (port_string port)) AF_UNSPEC 0 = (rv, infos)" by force
  show ?case
  proof (cases "rv = 0")
    case False
    then show ?thesis by (simp add: anetTcpGenericConnect.simps res opened_error)
  next
    case rv: True
    have loop: "opened k (connect_loop res source flags infos k)" by (rule connect_loop_opened)
    show ?thesis
    proof (cases "connect_loop res source flags infos k")
      case (Inl e)
      then show ?thesis using loop by (simp add: anetTcpGenericConnect.simps res rv opened_def)
    next
      case (Inr q)
      obtain s k1 where q: "q = (s, k1)" by force
      show ?thesis
      proof (cases "s = ANET_ERR \<and> source \<noteq> None \<and> flags AND ANET_CONNECT_BE_BINDING \<noteq> 0")
        case True
        have "fds k1 = fds k" using loop True Inr q by (auto simp: opened_def ANET_ERR_def)
        moreover have "opened k1 (anetTcpGenericConnect res addr port None flags k1)"
          using 1 res rv Inr q True by simp
        ultimately show ?thesis using opened_same Inr q True rv
          by (subst anetTcpGenericConnect.simps) (simp add: res)
      next
        case False
        then have "anetTcpGenericConnect res addr port source flags k = Inr (s, k1)"
          using Inr q rv by (subst anetTcpGenericConnect.simps) (auto simp: res)
        then show ?thesis using loop Inr q by simp
      qed
    qed
  qed
qed

text \<open>
  C31.  Connecting leaks no descriptor: whatever the resolver and the kernel answer, whichever
  addresses fail at whatever call and with or without the second attempt of best-effort binding,
  \<open>anetTcpGenericConnect\<close> ends (unless the kernel stops answering), and either fails with the
  table of descriptors as it was, or returns the one new descriptor it leaves open.
\<close>

theorem tcp_connect_leaks_nothing:
  "case anetTcpGenericConnect res addr port source flags k of
     Inr (r, k') \<Rightarrow> (r = ANET_ERR \<and> fds k' = fds k) \<or> (\<exists>s. r = int s \<and> s \<notin> set (fds k) \<and> fds k' = s # fds k)
   | Inl e \<Rightarrow> e = Blocked"
  using tcp_generic_opened unfolding opened_def .

subsection \<open>Where descriptors are lost\<close>

lemma sys_socket:
  "answers k = a # rest \<Longrightarrow> val a \<noteq> -1 \<Longrightarrow>
    sys (Socket d) k = Inr (a\<lparr>val := int (lowest_free (fds k))\<rparr>,
      k\<lparr>answers := rest, calls := calls k @ [Socket d], fds := lowest_free (fds k) # fds k\<rparr>)"
  by (simp add: sys_def Let_def)

lemma sys_refused: "answers k = a # rest \<Longrightarrow> val a = -1 \<Longrightarrow>
    sys c k = Inr (a, k\<lparr>answers := rest, calls := calls k @ [c], errnum := err_no a\<rparr>)"
  by (simp add: sys_def Let_def)

lemma sys_done: "answers k = a # rest \<Longrightarrow> val a \<noteq> -1 \<Longrightarrow> \<not> opens c \<Longrightarrow>
    sys c k = Inr (a, k\<lparr>answers := rest, calls := calls k @ [c]\<rparr>)"
  by (cases c) (simp_all add: sys_def Let_def)

text \<open>
  Opening the listening socket can lose a descriptor: when the option \<open>SO_REUSEADDR\<close> is refused
  for the socket just created, \<open>anetTcpServer\<close> reports the error but leaves the socket open, and
  nobody knows its number.
\<close>

theorem tcp_server_leaks_when_reuse_fails:
  assumes "res bindaddr (Some (port_string port)) AF_INET AI_PASSIVE = (0, p # ps)"
    and "answers k = a # b # later" and "val a \<noteq> -1" and "val b = -1"
  shows "\<exists>k' s. anetTcpServer res port bindaddr backlog k = Inr (ANET_ERR, k') \<and> s \<notin> set (fds k) \<and> fds k' = s # fds k"
proof -
  let ?s = "lowest_free (fds k)"
  define k1 where "k1 = k\<lparr>answers := b # later, calls := calls k @ [Socket (ai_family p)], fds := ?s # fds k\<rparr>"
  have k1: "sys (Socket (ai_family p)) k = Inr (a\<lparr>val := int ?s\<rparr>, k1)" "answers k1 = b # later" "fds k1 = ?s # fds k"
    using sys_socket [of k a "b # later" "ai_family p"] assms(2,3) by (simp_all add: k1_def)
  obtain k2 where k2: "anetSetReuseAddr ?s k1 = Inr (ANET_ERR, k2)" "fds k2 = fds k1"
    using sys_refused [OF k1(2) assms(4)] assms(4) by (simp add: anetSetReuseAddr_def set_option_def fail_with_def)
  have "server_loop AF_INET backlog (p # ps) k = Inr (ANET_ERR, k2)"
    using k1(1) k2(1) by (simp add: AF_INET_def AF_INET6_def ANET_OK_def ANET_ERR_def)
  then show ?thesis
    using assms(1) k1(3) k2(2) lowest_free_fresh [of "fds k"] by (simp add: anetTcpServer_def tcp_server_def)
qed

lemma unix_connect_leaks_when_non_blocking_fails:
  assumes "answers k = a # b # c # later" and "val a \<noteq> -1" and "val b \<noteq> -1" and "val c = -1"
  shows "\<exists>k' s. anetUnixNonBlockConnect path k = Inr (ANET_ERR, k') \<and> s \<notin> set (fds k) \<and> fds k' = s # fds k"
proof -
  let ?s = "lowest_free (fds k)"
  define k1 where "k1 = k\<lparr>answers := b # c # later, calls := calls k @ [Socket AF_LOCAL], fds := ?s # fds k\<rparr>"
  define k2 where "k2 = k1\<lparr>answers := c # later, calls := calls k1 @ [Setsockopt ?s SO_REUSEADDR 1]\<rparr>"
  have k1: "sys (Socket AF_LOCAL) k = Inr (a\<lparr>val := int ?s\<rparr>, k1)" "answers k1 = b # c # later" "fds k1 = ?s # fds k"
    using sys_socket [of k a "b # c # later" AF_LOCAL] assms(1,2) by (simp_all add: k1_def)
  have k2: "anetSetReuseAddr ?s k1 = Inr (ANET_OK, k2)" "answers k2 = c # later" "fds k2 = fds k1"
    using sys_done [OF k1(2) assms(3), of "Setsockopt ?s SO_REUSEADDR 1"] assms(3)
    by (simp_all add: anetSetReuseAddr_def set_option_def k2_def)
  obtain k3 where k3: "anetNonBlock ?s k2 = Inr (ANET_ERR, k3)" "fds k3 = fds k2"
    using sys_refused [OF k2(2) assms(4)] assms(4) by (simp add: anetNonBlock_def anetSetBlock_def fail_with_def)
  have "anetCreateSocket AF_LOCAL k = Inr (int ?s, k2)"
    using k1(1) k2(1) by (simp add: anetCreateSocket_def Let_def ANET_OK_def ANET_ERR_def)
  then have "anetUnixNonBlockConnect path k = Inr (ANET_ERR, k3)"
    using k3(1) by (simp add: anetUnixNonBlockConnect_def anetUnixGenericConnect_def ANET_CONNECT_NONBLOCK_def ANET_ERR_def ANET_OK_def)
  then show ?thesis using k1(3) k2(3) k3(2) lowest_free_fresh [of "fds k"] by simp
qed

text \<open>A kernel that opens a socket and refuses its option.\<close>

definition refusing_kernel :: kernel where
  "refusing_kernel = \<lparr>fds = [0, 1, 2], errnum = 0,
     answers = [\<lparr>val = 0, err_no = 0, got = [], peer = Sun\<rparr>, \<lparr>val = -1, err_no = 1, got = [], peer = Sun\<rparr>],
     calls = [], err = None\<rparr>"

theorem tcp_server_leaks_when_reuse_fails_witness:
  "\<exists>k' s. anetTcpServer (\<lambda>h sv f fl. (0, [\<lparr>ai_family = 2, ai_addr = ''0.0.0.0''\<rparr>])) 6379 None 1 refusing_kernel = Inr (ANET_ERR, k') \<and>
     s \<notin> set (fds refusing_kernel) \<and> fds k' = s # fds refusing_kernel"
  by (rule tcp_server_leaks_when_reuse_fails [where later = "[]" and ps = "[]"
        and a = "\<lparr>val = 0, err_no = 0, got = [], peer = Sun\<rparr>" and b = "\<lparr>val = -1, err_no = 1, got = [], peer = Sun\<rparr>"])
    (simp_all add: refusing_kernel_def)

subsection \<open>Reading all\<close>

text \<open>
  \<open>anetRead\<close> puts the pieces the kernel delivers together until it has \<open>count\<close> bytes; at the end of
  the stream it returns what came so far.
\<close>

definition piece :: "string \<Rightarrow> answer" where
  "piece xs = \<lparr>val = int (length xs), err_no = 0, got = xs, peer = Sun\<rparr>"

lemma read_loop_pieces:
  "\<forall>xs \<in> set ps. xs \<noteq> [] \<Longrightarrow> length buf + length (concat ps) = count \<Longrightarrow> answers k = map piece ps @ later \<Longrightarrow>
    \<exists>k'. read_loop fd count buf k = Inr (int count, buf @ concat ps, k') \<and> answers k' = later \<and> fds k' = fds k"
proof (induction ps arbitrary: buf k)
  case Nil
  then show ?case by (simp add: read_loop.simps)
next
  case (Cons xs ps)
  have more_to_come: "length buf \<noteq> count" using Cons.prems by auto
  have v: "val (piece xs) \<noteq> -1" "val (piece xs) \<noteq> 0" "val (piece xs) = int (length xs)" "got (piece xs) = xs"
    using Cons.prems by (simp_all add: piece_def)
  define k1 where "k1 = k\<lparr>answers := map piece ps @ later, calls := calls k @ [Read fd (count - length buf)]\<rparr>"
  have "sys (Read fd (count - length buf)) k = Inr (piece xs, k1)"
    using sys_done [of k "piece xs" "map piece ps @ later" "Read fd (count - length buf)"] Cons.prems(3) v(1) by (simp add: k1_def)
  then have "read_loop fd count buf k = read_loop fd count (buf @ xs) k1"
    using more_to_come v Cons.prems(2) by (subst read_loop.simps) simp
  then show ?case using Cons.IH [of "buf @ xs" k1] Cons.prems by (simp add: k1_def)
qed

lemma anetRead_joins_pieces:
  assumes "\<forall>xs \<in> set ps. xs \<noteq> []" and "answers k = map piece ps @ later"
  shows "\<exists>k'. anetRead fd (length (concat ps)) k = Inr (int (length (concat ps)), concat ps, k') \<and> answers k' = later \<and> fds k' = fds k"
  using read_loop_pieces [OF assms(1) _ assms(2), of "[]"] by (simp add: anetRead_def)

end
