(* ===== verification/ZmallocThreads.thy ===== *)
theory ZmallocThreads
  imports Zmalloc
begin

text \<open>
  The count of \<^verbatim>\<open>proxy/zmalloc.c\<close> under threads.  The two macros \<open>update_zmalloc_stat_alloc\<close> and
  \<open>update_zmalloc_stat_free\<close> expand to an atomic instruction, to an update under a mutex, or, when
  \<open>zmalloc_thread_safe\<close> is not set, to a plain \<open>+=\<close>, which loads and stores.  Threads run these
  steps in any order a schedule names.  With the flag set every schedule ends with the exact
  count and no thread waits for ever; without it an update can be lost.
\<close>

subsection \<open>The steps of an update\<close>

datatype counting = Gcc_Atomics | Pthread_Mutex

datatype count_op = Count_Alloc "64 word" | Count_Free "64 word"

text \<open>A single thread step; a thread waits at \<open>Lock\<close> while another one holds the mutex.\<close>

datatype micro = Lock | Load | Store "64 word" | Unlock | Fetch_Add "64 word"

fun count_delta :: "count_op \<Rightarrow> 64 word" where
  "count_delta (Count_Alloc n) = pad_long n"
| "count_delta (Count_Free n) = - pad_long n"

text \<open>\<open>update_zmalloc_stat_add\<close> and \<open>update_zmalloc_stat_sub\<close>, as they are compiled.\<close>

fun update_zmalloc_stat :: "counting \<Rightarrow> 64 word \<Rightarrow> micro list" where
  "update_zmalloc_stat Gcc_Atomics d = [Fetch_Add d]"
| "update_zmalloc_stat Pthread_Mutex d = [Lock, Load, Store d, Unlock]"

definition expand :: "counting \<Rightarrow> bool \<Rightarrow> count_op \<Rightarrow> micro list" where
  "expand variant thread_safe u =
     (if thread_safe then update_zmalloc_stat variant (count_delta u) else [Load, Store (count_delta u)])"

text \<open>The count, the holder of the mutex, and the threads: what each has left to do, and its register.\<close>

record machine =
  used :: "64 word"
  holder :: "nat option"
  threads :: "(micro list \<times> 64 word) list"

definition launch :: "counting \<Rightarrow> bool \<Rightarrow> 64 word \<Rightarrow> count_op list list \<Rightarrow> machine" where
  "launch variant thread_safe n programs =
     \<lparr>used = n, holder = None, threads = map (\<lambda>us. (concat (map (expand variant thread_safe) us), 0)) programs\<rparr>"

definition tick :: "nat \<Rightarrow> machine \<Rightarrow> machine option" where
  "tick i g =
     (if i < length (threads g) then
        (case threads g ! i of
           ([], r) \<Rightarrow> None
         | (Lock # c, r) \<Rightarrow> if holder g = None then Some (g\<lparr>holder := Some i, threads := (threads g)[i := (c, r)]\<rparr>) else None
         | (Load # c, r) \<Rightarrow> Some (g\<lparr>threads := (threads g)[i := (c, used g)]\<rparr>)
         | (Store d # c, r) \<Rightarrow> Some (g\<lparr>used := r + d, threads := (threads g)[i := (c, r)]\<rparr>)
         | (Unlock # c, r) \<Rightarrow> Some (g\<lparr>holder := None, threads := (threads g)[i := (c, r)]\<rparr>)
         | (Fetch_Add d # c, r) \<Rightarrow> Some (g\<lparr>used := used g + d, threads := (threads g)[i := (c, r)]\<rparr>))
      else None)"

fun run_schedule :: "nat list \<Rightarrow> machine \<Rightarrow> machine option" where
  "run_schedule [] g = Some g"
| "run_schedule (i # is) g = Option.bind (tick i g) (run_schedule is)"

definition finished :: "machine \<Rightarrow> bool" where
  "finished g \<longleftrightarrow> (\<forall>t \<in> set (threads g). fst t = [])"

text \<open>The updates of all programs together.\<close>

definition total_delta :: "count_op list list \<Rightarrow> 64 word" where
  "total_delta programs = sum_list (map (\<lambda>us. sum_list (map count_delta us)) programs)"

subsection \<open>What is left to count\<close>

fun micro_delta :: "micro \<Rightarrow> 64 word" where
  "micro_delta (Store d) = d"
| "micro_delta (Fetch_Add d) = d"
| "micro_delta m = 0"

definition left_of :: "micro list \<Rightarrow> 64 word" where
  "left_of c = sum_list (map micro_delta c)"

definition left :: "machine \<Rightarrow> 64 word" where
  "left g = sum_list (map (left_of \<circ> fst) (threads g))"

lemma left_of_simps [simp]:
  "left_of [] = 0" "left_of (m # c) = micro_delta m + left_of c" "left_of (c @ c') = left_of c + left_of c'"
  by (simp_all add: left_of_def)

lemma left_set:
  "i < length ts \<Longrightarrow> sum_list (map (left_of \<circ> fst) (ts[i := (c, r)])) =
     sum_list (map (left_of \<circ> fst) ts) - left_of (fst (ts ! i)) + left_of c"
  by (induction ts arbitrary: i) (auto simp: nth_Cons split: nat.splits)

lemma left_of_expand: "left_of (expand v b u) = count_delta u"
  by (cases v) (simp_all add: expand_def)

lemma left_of_safe: "left_of (concat (map (expand v b) us)) = sum_list (map count_delta us)"
  by (induction us) (simp_all add: left_of_expand)

lemma left_launch: "left (launch v b n programs) = total_delta programs"
  by (simp add: left_def launch_def total_delta_def comp_def left_of_safe)

text \<open>
  The invariant: a thread is between two updates, or it is inside the mutex, is its holder, and
  holds the current count in its register once it has loaded it.
\<close>

fun outside :: "counting \<Rightarrow> micro list \<Rightarrow> bool" where
  "outside v [] = True"
| "outside v (Fetch_Add d # c) = (v = Gcc_Atomics \<and> outside v c)"
| "outside v (Lock # Load # Store d # Unlock # c) = (v = Pthread_Mutex \<and> outside v c)"
| "outside v c = False"

definition inside :: "counting \<Rightarrow> 64 word \<Rightarrow> micro list \<times> 64 word \<Rightarrow> bool" where
  "inside v u t \<longleftrightarrow> v = Pthread_Mutex \<and> (\<exists>d c. outside v c \<and>
     (fst t = Load # Store d # Unlock # c \<or> fst t = Store d # Unlock # c \<and> snd t = u \<or> fst t = Unlock # c))"

definition counted :: "counting \<Rightarrow> 64 word \<Rightarrow> machine \<Rightarrow> bool" where
  "counted v n g \<longleftrightarrow> used g + left g = n \<and> (\<forall>i. holder g = Some i \<longrightarrow> i < length (threads g)) \<and>
     (\<forall>i < length (threads g).
        if holder g = Some i then inside v (used g) (threads g ! i) else outside v (fst (threads g ! i)))"

lemma outside_expand: "outside v (expand v True u @ c) = outside v c"
  by (cases v) (simp_all add: expand_def)

lemma outside_programs: "outside v (concat (map (expand v True) us))"
  by (induction us) (simp_all add: outside_expand)

lemma outside_cases:
  assumes "outside v c"
  obtains "c = []" | d c' where "v = Gcc_Atomics" "c = Fetch_Add d # c'" "outside v c'"
  | d c' where "v = Pthread_Mutex" "c = Lock # Load # Store d # Unlock # c'" "outside v c'"
  using assms by (cases "(v, c)" rule: outside.cases) auto

lemma counted_launch: "counted v (n + total_delta programs) (launch v True n programs)"
  by (simp add: counted_def left_launch) (simp add: launch_def outside_programs)

text \<open>The state after thread \<open>i\<close> made a step that leaves the code \<open>c\<close>.\<close>

lemma left_after:
  "i < length (threads g) \<Longrightarrow> threads g' = (threads g)[i := (c, r)] \<Longrightarrow>
   left g' = left g - left_of (fst (threads g ! i)) + left_of c"
  by (simp add: left_def left_set)

lemma counted_step:
  assumes g: "counted v n g" and i: "i < length (threads g)" and ts: "threads g' = (threads g)[i := (c, r)]"
    and count: "used g' + left_of c = used g + left_of (fst (threads g ! i))"
    and mine: "if holder g' = Some i then inside v (used g') (c, r) else outside v c"
    and others: "holder g' = holder g \<and> used g' = used g \<or> holder g \<in> {None, Some i} \<and> holder g' \<in> {None, Some i}"
  shows "counted v n g'"
proof -
  have "used g' + left g' = (used g' + left_of c) + (left g - left_of (fst (threads g ! i)))"
    by (simp add: left_after [OF i ts])
  then have "used g' + left g' = n" using g unfolding count by (simp add: counted_def)
  moreover have "if holder g' = Some j then inside v (used g') (threads g' ! j) else outside v (fst (threads g' ! j))"
    if "j < length (threads g)" for j
    using g mine others that by (cases "j = i") (auto simp: counted_def ts)
  moreover have "\<forall>j. holder g' = Some j \<longrightarrow> j < length (threads g')" using g others i by (auto simp: counted_def ts)
  moreover have "length (threads g') = length (threads g)" by (simp add: ts)
  ultimately show ?thesis unfolding counted_def by simp
qed

lemma tick_counted:
  assumes g: "counted v n g" and t: "tick i g = Some g'"
  shows "counted v n g'"
proof -
  have i: "i < length (threads g)" using t by (auto simp: tick_def split: if_splits)
  obtain c r where cr: "threads g ! i = (c, r)" by (cases "threads g ! i")
  show ?thesis
  proof (cases "holder g = Some i")
    case True
    then have "inside v (used g) (c, r)" using g i cr by (auto simp: counted_def)
    then obtain d c' where c': "outside v c'" "v = Pthread_Mutex"
      and "c = Load # Store d # Unlock # c' \<or> c = Store d # Unlock # c' \<and> r = used g \<or> c = Unlock # c'"
      by (auto simp: inside_def)
    then consider (load) "c = Load # Store d # Unlock # c'" | (store) "c = Store d # Unlock # c'" "r = used g" | (unlock) "c = Unlock # c'"
      by blast
    then show ?thesis
    proof cases
      case load
      then have "g' = g\<lparr>threads := (threads g)[i := (Store d # Unlock # c', used g)]\<rparr>" using t i cr by (simp add: tick_def)
      then show ?thesis using counted_step [OF g i, of g' "Store d # Unlock # c'" "used g"] cr load True c' by (auto simp: inside_def)
    next
      case store
      then have "g' = g\<lparr>used := used g + d, threads := (threads g)[i := (Unlock # c', r)]\<rparr>" using t i cr by (simp add: tick_def)
      then show ?thesis using counted_step [OF g i, of g' "Unlock # c'" r] cr store True c' by (auto simp: inside_def)
    next
      case unlock
      then have "g' = g\<lparr>holder := None, threads := (threads g)[i := (c', r)]\<rparr>" using t i cr by (simp add: tick_def)
      then show ?thesis using counted_step [OF g i, of g' c' r] cr unlock True c' by simp
    qed
  next
    case False
    then have "outside v c" using g i cr by (auto simp: counted_def)
    then show ?thesis
    proof (cases rule: outside_cases)
      case 1
      then show ?thesis using t i cr by (simp add: tick_def)
    next
      case (2 d c')
      then have g': "g' = g\<lparr>used := used g + d, threads := (threads g)[i := (c', r)]\<rparr>" using t i cr by (simp add: tick_def)
      have "holder g = None" using g 2(1) by (cases "holder g") (auto simp: counted_def inside_def)
      then show ?thesis using counted_step [OF g i, of g' c' r] g' cr 2 by simp
    next
      case (3 d c')
      then have "holder g = None" "g' = g\<lparr>holder := Some i, threads := (threads g)[i := (Load # Store d # Unlock # c', r)]\<rparr>"
        using t i cr by (auto simp: tick_def split: if_splits)
      then show ?thesis using counted_step [OF g i, of g' "Load # Store d # Unlock # c'" r] cr 3 by (auto simp: inside_def)
    qed
  qed
qed

lemma run_counted: "run_schedule is g = Some g' \<Longrightarrow> counted v n g \<Longrightarrow> counted v n g'"
  by (induction "is" arbitrary: g) (auto simp: bind_eq_Some_conv intro: tick_counted)

lemma counted_progress:
  assumes g: "counted v n g" and busy: "\<not> finished g"
  shows "\<exists>i. tick i g \<noteq> None"
proof (cases "holder g")
  case (Some i)
  then have "i < length (threads g)" "inside v (used g) (threads g ! i)" using g by (auto simp: counted_def)
  then show ?thesis by (intro exI [of _ i]) (auto simp: inside_def tick_def split: prod.split)
next
  case None
  obtain i c r where i: "i < length (threads g)" "threads g ! i = (c, r)" "c \<noteq> []"
    using busy by (auto simp: finished_def in_set_conv_nth)
  then have "outside v c" using g None by (auto simp: counted_def)
  then show ?thesis using i None by (cases rule: outside_cases) (auto intro!: exI [of _ i] simp: tick_def)
qed

lemma finished_left: "finished g \<Longrightarrow> left g = 0"
  by (simp add: finished_def left_def cong: map_cong)

text \<open>
  C27.  With \<open>zmalloc_thread_safe\<close> set, the count is exact: however the steps of any number of threads
  are interleaved, with the atomic instructions as with the mutex, a schedule that runs them all
  to their end leaves \<open>used_memory\<close> changed by the sum of all their padded sizes, and a schedule
  that stopped earlier can always be continued, so no thread waits for ever.
\<close>

theorem thread_safe_count_is_exact:
  assumes "run_schedule is (launch variant True n programs) = Some g"
  shows "if finished g then used g = n + total_delta programs else \<exists>i. tick i g \<noteq> None"
proof -
  have "counted variant (n + total_delta programs) g"
    by (rule run_counted [OF assms counted_launch])
  then show ?thesis using counted_progress finished_left by (auto simp: counted_def)
qed

text \<open>The macros alone, in one thread, are the functions the calls above use.\<close>

lemma alone_is_sequential:
  "run_schedule [0, 0] (launch v False (used_memory h) [[Count_Alloc k]]) =
     Some \<lparr>used = used_memory (update_zmalloc_stat_alloc k h), holder = None, threads = [([], used_memory h)]\<rparr>"
  "run_schedule [0, 0] (launch v False (used_memory h) [[Count_Free k]]) =
     Some \<lparr>used = used_memory (update_zmalloc_stat_free k h), holder = None, threads = [([], used_memory h)]\<rparr>"
  by (simp_all add: launch_def expand_def tick_def update_zmalloc_stat_alloc_def update_zmalloc_stat_free_def)

text \<open>Two threads that free and allocate; the second waits for the mutex until the first is through.\<close>

theorem thread_safe_count_is_exact_witness:
  "\<exists>g. run_schedule [0, 0, 0, 0, 1, 1, 1, 1] (launch Pthread_Mutex True 100 [[Count_Alloc 16], [Count_Free 8]]) = Some g \<and>
     finished g \<and> used g = 108"
proof -
  let ?m = "launch Pthread_Mutex True 100 [[Count_Alloc 16], [Count_Free 8]]"
  have run: "run_schedule [0, 0, 0, 0, 1, 1, 1, 1] ?m = Some \<lparr>used = 100 + pad_long 16 + - pad_long 8, holder = None,
      threads = [([], 100), ([], 100 + pad_long 16)]\<rparr>"
    by (simp add: launch_def expand_def tick_def)
  show ?thesis
    using thread_safe_count_is_exact [OF run] run
    by (simp add: finished_def total_delta_def pad_long_def)
qed

text \<open>
  Without the flag both threads may load the count before either stores: of two allocations of 16
  bytes only one is counted.
\<close>

lemma unsafe_count_loses_an_update:
  "\<exists>g. run_schedule [0, 1, 0, 1] (launch v False n [[Count_Alloc 16], [Count_Alloc 16]]) = Some g \<and> finished g \<and>
     used g = n + 16 \<and> n + total_delta [[Count_Alloc 16], [Count_Alloc 16]] = n + 32"
  by (simp add: launch_def expand_def tick_def finished_def total_delta_def pad_long_def)

end
