(* ===== verification/ZmallocProc.thy ===== *)
theory ZmallocProc
  imports Zmalloc
begin

text \<open>
  The variants of \<^verbatim>\<open>proxy/zmalloc.c\<close> that read the memory in use from \<^verbatim>\<open>/proc\<close>, compiled when a
  \<^verbatim>\<open>config.h\<close> defines \<open>HAVE_PROC_STAT\<close> and \<open>HAVE_PROC_SMAPS\<close>.  The files are parameters: their bytes,
  or nothing when they cannot be opened.  On files as the kernel writes them the results are the
  24th field of the first and the sum over the lines of the second.
\<close>

subsection \<open>Strings and numbers\<close>

abbreviation NULz :: char where "NULz \<equiv> CHR 0x00"

text \<open>A pointer into a buffer is the rest of the bytes from there; running off the end is \<open>Undefined\<close>.\<close>

fun strchr :: "char \<Rightarrow> string \<Rightarrow> string option outcome" where
  "strchr c [] = Inl Undefined"
| "strchr c (x # xs) = (if x = c then Inr (Some (x # xs)) else if x = NULz then Inr None else strchr c xs)"

definition blank_char :: "char \<Rightarrow> bool" where
  "blank_char c \<longleftrightarrow> c = CHR '' '' \<or> (of_char c :: nat) \<in> {9..13}"

definition digit_char :: "char \<Rightarrow> bool" where
  "digit_char c \<longleftrightarrow> (of_char c :: nat) \<in> {48..57}"

definition dec_value :: "string \<Rightarrow> int" where
  "dec_value ds = foldl (\<lambda>v c. v * 10 + (of_char c - 48)) 0 ds"

text \<open>\<open>strtoll\<close>, and \<open>strtol\<close> of a 64-bit \<open>long\<close>, in base 10: the value saturates.\<close>

definition strtoll_c :: "string \<Rightarrow> int" where
  "strtoll_c s =
     (let t = dropWhile blank_char s;
          neg = (t \<noteq> [] \<and> hd t = CHR ''-'');
          t = (if t \<noteq> [] \<and> (hd t = CHR ''-'' \<or> hd t = CHR ''+'') then tl t else t);
          v = dec_value (takeWhile digit_char t)
      in if neg then max (- v) (- (2 ^ 63)) else min v (2 ^ 63 - 1))"

subsection \<open>The resident set\<close>

text \<open>The loop over the blanks: \<open>p\<close> is \<open>NULL\<close> when one is missing.\<close>

fun skip_fields :: "nat \<Rightarrow> string \<Rightarrow> string option outcome" where
  "skip_fields 0 p = Inr (Some p)"
| "skip_fields (Suc n) p =
     andThen (strchr CHR '' '' p) (\<lambda>r. case r of None \<Rightarrow> Inr None | Some q \<Rightarrow> skip_fields n (tl q))"

text \<open>\<open>stack\<close> is what the 4096 bytes of \<open>buf\<close> held before; the file is read by one \<open>read\<close>.\<close>

definition zmalloc_get_rss_proc :: "int \<Rightarrow> string option \<Rightarrow> string \<Rightarrow> 64 word outcome" where
  "zmalloc_get_rss_proc page file stack =
     (case file of
        None \<Rightarrow> Inr 0
      | Some content \<Rightarrow>
          if content = [] then Inr 0
          else
            andThen (skip_fields 23 (take 4096 content @ drop (length content) stack)) (\<lambda>p.
            case p of
              None \<Rightarrow> Inr 0
            | Some p \<Rightarrow>
                andThen (strchr CHR '' '' p) (\<lambda>x.
                case x of
                  None \<Rightarrow> Inr 0
                | Some x \<Rightarrow> Inr (of_int (strtoll_c (take (length p - length x) p)) * of_int page))))"

subsection \<open>The sum over the maps\<close>

text \<open>\<open>fgets\<close> hands out lines with their newline, long ones in pieces of 1023 bytes.\<close>

function fgets_lines :: "string \<Rightarrow> string list" where
  "fgets_lines [] = []"
| "fgets_lines (c # cs) =
     (let l = takeWhile (\<lambda>c. c \<noteq> CHR 0x0A) (c # cs);
          line = take 1023 (l @ take 1 (drop (length l) (c # cs)))
      in line # fgets_lines (drop (length line) (c # cs)))"
  by pat_completeness auto
termination
  by (relation "measure length") (auto simp: Let_def min_def)

declare fgets_lines.simps(2) [simp del]

text \<open>One line, ended by \<open>NUL\<close>: \<open>strncmp\<close> with all of the field, then the number up to the \<open>k\<close>.\<close>

definition line_bytes :: "string \<Rightarrow> string \<Rightarrow> 64 word" where
  "line_bytes field line =
     (let s = takeWhile (\<lambda>c. c \<noteq> NULz) line in
      if take (length field) s = field then
        (if CHR ''k'' \<in> set s
         then of_int (strtoll_c (takeWhile (\<lambda>c. c \<noteq> NULz) (drop (length field) (s[length (takeWhile (\<lambda>c. c \<noteq> CHR ''k'') s) := NULz])))) * 1024
         else 0)
      else 0)"

definition zmalloc_get_smap_bytes_proc :: "string option \<Rightarrow> string \<Rightarrow> 64 word" where
  "zmalloc_get_smap_bytes_proc file field =
     (case file of None \<Rightarrow> 0 | Some content \<Rightarrow> sum_list (map (line_bytes field) (fgets_lines content)))"

subsection \<open>Numbers read back\<close>

lemma dec_value_snoc: "dec_value (ds @ [c]) = dec_value ds * 10 + (of_char c - 48)"
  by (simp add: dec_value_def)

lemma digit_of: "d < 10 \<Longrightarrow> (of_char (char_of (48 + d) :: char) :: nat) = 48 + d"
  by simp

lemma digit_char_of: "d < 10 \<Longrightarrow> digit_char (char_of (48 + d :: nat))"
  unfolding digit_char_def digit_of by simp

lemma decimal_digits: "\<forall>c \<in> set (decimal n). digit_char c" and dec_value_decimal: "dec_value (decimal n) = int n"
proof (induction n rule: decimal.induct)
  case (1 n)
  have d: "(of_char (char_of (48 + m mod 10) :: char) :: int) = 48 + int (m mod 10)" for m :: nat
    using of_nat_of_char [of "char_of (48 + m mod 10)", where 'a = int] by (subst (asm) digit_of) simp_all
  {
    case 1
    show ?case using "1.IH"(1) digit_char_of [of "n mod 10"] by (subst decimal.simps) auto
  next
    case 2
    show ?case
    proof (cases "n < 10")
      case True
      then show ?thesis using d [of n] by (subst decimal.simps) (simp add: dec_value_def)
    next
      case False
      have "int (n div 10) * 10 + int (n mod 10) = int n" by presburger
      then show ?thesis using "1.IH"(2) d [of n] False by (subst decimal.simps) (simp add: dec_value_snoc)
    qed
  }
qed

lemma strtoll_c_decimal:
  assumes "int n < 2 ^ 63" and "\<not> digit_char c"
  shows "strtoll_c (replicate k CHR '' '' @ decimal n) = int n"
    and "strtoll_c (replicate k CHR '' '' @ decimal n @ c # rest) = int n"
proof -
  obtain x xs where d: "decimal n = x # xs" by (cases "decimal n") (auto simp: decimal.simps [of n] split: if_splits)
  then have "digit_char x" using decimal_digits [of n] by simp
  then have x: "\<not> blank_char x" "x \<noteq> CHR ''-''" "x \<noteq> CHR ''+''" by (auto simp: digit_char_def blank_char_def)
  have blank: "blank_char CHR '' ''" by (simp add: blank_char_def)
  have skip: "dropWhile blank_char (replicate k CHR '' '' @ decimal n @ t) = decimal n @ t" for t
    using x(1) by (induction k) (simp_all add: d blank)
  have "takeWhile digit_char (decimal n @ t) = decimal n @ takeWhile digit_char t" for t
    using decimal_digits [of n] by (simp add: takeWhile_append2)
  then have "strtoll_c (replicate k CHR '' '' @ decimal n @ t) = min (dec_value (decimal n @ takeWhile digit_char t)) (2 ^ 63 - 1)" for t
    unfolding strtoll_c_def skip using x(2,3) by (simp add: Let_def d)
  from this [of "[]"] this [of "c # rest"]
  show "strtoll_c (replicate k CHR '' '' @ decimal n) = int n" "strtoll_c (replicate k CHR '' '' @ decimal n @ c # rest) = int n"
    using assms by (simp_all add: dec_value_decimal)
qed

subsection \<open>The 24th field\<close>

lemma strchr_found: "c \<notin> set xs \<Longrightarrow> NULz \<notin> set xs \<Longrightarrow> strchr c (xs @ c # rest) = Inr (Some (c # rest))"
  by (induction xs) auto

text \<open>Fields, each with a blank behind it.\<close>

definition fields_text :: "string list \<Rightarrow> string" where
  "fields_text fs = concat (map (\<lambda>f. f @ '' '') fs)"

lemma skip_fields_text:
  "\<forall>f \<in> set fs. CHR '' '' \<notin> set f \<and> NULz \<notin> set f \<Longrightarrow> skip_fields (length fs) (fields_text fs @ rest) = Inr (Some rest)"
  by (induction fs) (simp_all add: fields_text_def strchr_found)

text \<open>
  The function returns the 24th field in bytes, when the 23 before it hold no blanks.
\<close>

theorem rss_is_the_24th_field:
  assumes "length fs = 23" and "\<forall>f \<in> set fs. CHR '' '' \<notin> set f \<and> NULz \<notin> set f" and "int n < 2 ^ 63"
    and content: "content = fields_text fs @ decimal n @ '' '' @ rest" and "length content \<le> 4096"
  shows "zmalloc_get_rss_proc page (Some content) stack = Inr (of_nat n * of_int page)"
proof -
  have "strchr CHR '' '' (decimal n @ CHR '' '' # t) = Inr (Some (CHR '' '' # t))" for t
    using decimal_digits [of n] by (intro strchr_found) (auto simp: digit_char_def)
  moreover have "skip_fields 23 (fields_text fs @ t) = Inr (Some t)" for t using skip_fields_text [OF assms(2)] assms(1) by simp
  moreover have "strtoll_c (decimal n) = int n" using strtoll_c_decimal(1) [OF assms(3), of "CHR '' ''" 0] by (simp add: digit_char_def)
  ultimately show ?thesis using assms(5) by (simp add: zmalloc_get_rss_proc_def content)
qed

text \<open>The second field is the name of the program in parentheses: with a blank in it, the 23rd is returned.\<close>

lemma rss_misread_when_the_name_has_a_blank:
  assumes "length fs = 21" and "\<forall>f \<in> set fs. CHR '' '' \<notin> set f \<and> NULz \<notin> set f" and "int vsize < 2 ^ 63"
    and content: "content = fields_text [''1'', ''(my'', ''proxy)''] @ fields_text (drop 1 fs) @ decimal vsize @ '' '' @ decimal rss @ '' '' @ rest"
    and "length content \<le> 4096"
  shows "zmalloc_get_rss_proc page (Some content) stack = Inr (of_nat vsize * of_int page)"
proof -
  have c: "content = fields_text ([''1'', ''(my'', ''proxy)''] @ drop 1 fs) @ decimal vsize @ '' '' @ (decimal rss @ '' '' @ rest)"
    by (simp add: content fields_text_def)
  have l: "length ([''1'', ''(my'', ''proxy)''] @ drop 1 fs) = 23" using assms(1) by simp
  have "\<forall>f \<in> set ([''1'', ''(my'', ''proxy)''] @ drop 1 fs). CHR '' '' \<notin> set f \<and> NULz \<notin> set f"
    using assms(2) by (auto dest: in_set_dropD)
  from rss_is_the_24th_field [OF l this assms(3) c assms(5)] show ?thesis .
qed

subsection \<open>The sum over the lines\<close>

text \<open>A line of the file: its field, blanks, a number of kilobytes.\<close>

definition smap_line :: "string \<times> nat \<times> nat \<Rightarrow> string" where
  "smap_line = (\<lambda>(name, k, n). name @ replicate k CHR '' '' @ decimal n @ '' kB'' @ [CHR 0x0A])"

definition smap_ok :: "string \<Rightarrow> string \<times> nat \<times> nat \<Rightarrow> bool" where
  "smap_ok field = (\<lambda>(name, k, n). NULz \<notin> set name \<and> CHR ''k'' \<notin> set name \<and> CHR 0x0A \<notin> set name \<and>
     length (smap_line (name, k, n)) \<le> 1023 \<and> int n < 2 ^ 63 \<and> (name = field \<or> take (length field) (smap_line (name, k, n)) \<noteq> field))"

lemma fgets_line:
  assumes "CHR 0x0A \<notin> set l" and "length l < 1023"
  shows "fgets_lines ((l @ [CHR 0x0A]) @ rest) = (l @ [CHR 0x0A]) # fgets_lines rest"
proof -
  obtain c cs where cs: "(l @ [CHR 0x0A]) @ rest = c # cs" by (cases l) auto
  have t: "takeWhile (\<lambda>c. c \<noteq> CHR 0x0A) (c # cs) = l" unfolding cs [symmetric] using assms(1) by (simp add: takeWhile_tail) blast
  have "take 1 (drop (length l) (c # cs)) = [CHR 0x0A]" unfolding cs [symmetric] by simp
  then have line: "take 1023 (l @ take 1 (drop (length l) (c # cs))) = l @ [CHR 0x0A]" using assms(2) by simp
  have "drop (length (l @ [CHR 0x0A])) (c # cs) = rest" unfolding cs [symmetric] by simp
  then show ?thesis unfolding cs by (subst fgets_lines.simps(2)) (simp only: t line Let_def)
qed

lemma decimal_set: "c \<in> set (decimal n) \<Longrightarrow> (of_char c :: nat) \<in> {48..57}"
  using decimal_digits [of n] by (simp add: digit_char_def)

lemma decimal_clean: "NULz \<notin> set (decimal n)" "CHR ''k'' \<notin> set (decimal n)" "CHR 0x0A \<notin> set (decimal n)"
  by (auto dest!: decimal_set)

lemma line_bytes_smap:
  assumes "smap_ok field (name, k, n)"
  shows "line_bytes field (smap_line (name, k, n)) = (if name = field then of_nat n * 1024 else 0)"
proof -
  define L where "L = smap_line (name, k, n)"
  define p where "p = name @ replicate k CHR '' '' @ decimal n @ '' ''"
  have s: "L = p @ CHR ''k'' # [CHR ''B'', CHR 0x0A]" by (simp add: L_def smap_line_def p_def)
  have clean: "NULz \<notin> set p" "CHR ''k'' \<notin> set p"
    using assms decimal_clean by (auto simp: p_def smap_ok_def)
  then have "\<forall>c \<in> set L. c \<noteq> NULz" by (auto simp: s)
  then have w: "takeWhile (\<lambda>c. c \<noteq> NULz) L = L" by (simp add: takeWhile_eq_all_conv)
  show ?thesis
  proof (cases "name = field")
    case False
    then show ?thesis using assms by (simp add: line_bytes_def w smap_ok_def flip: L_def)
  next
    case True
    have "takeWhile (\<lambda>c. c \<noteq> CHR ''k'') L = p" using clean(2) unfolding s by (subst takeWhile_append2) auto
    then have cut: "L[length (takeWhile (\<lambda>c. c \<noteq> CHR ''k'') L) := NULz] = p @ NULz # [CHR ''B'', CHR 0x0A]" by (simp add: s)
    have d: "drop (length field) (p @ NULz # [CHR ''B'', CHR 0x0A]) =
        (replicate k CHR '' '' @ decimal n @ '' '') @ NULz # [CHR ''B'', CHR 0x0A]"
      by (simp add: p_def flip: True)
    have t: "takeWhile (\<lambda>c. c \<noteq> NULz) ((replicate k CHR '' '' @ decimal n @ '' '') @ NULz # [CHR ''B'', CHR 0x0A]) =
        replicate k CHR '' '' @ decimal n @ '' ''"
      using clean(1) by (subst takeWhile_append2) (auto simp: p_def)
    have v: "strtoll_c (replicate k CHR '' '' @ decimal n @ '' '') = int n"
      using strtoll_c_decimal(2) [of n "CHR '' ''" k "[]"] assms by (simp add: smap_ok_def digit_char_def)
    have "take (length field) L = field" "CHR ''k'' \<in> set L" by (simp_all add: s p_def flip: True)
    then have "line_bytes field L = of_nat n * 1024"
      by (simp only: line_bytes_def w Let_def cut d t v if_True of_int_of_nat_eq simp_thms)
    then show ?thesis unfolding L_def using True by simp
  qed
qed

lemma fgets_smap:
  "\<forall>e \<in> set es. smap_ok field e \<Longrightarrow> fgets_lines (concat (map smap_line es)) = map smap_line es"
proof (induction es)
  case (Cons e es)
  obtain name k n where e: "e = (name, k, n)" by (cases e)
  define l where "l = name @ replicate k CHR '' '' @ decimal n @ '' kB''"
  have l: "smap_line e = l @ [CHR 0x0A]" by (simp add: e l_def smap_line_def)
  have "CHR 0x0A \<notin> set l" using Cons.prems decimal_clean(3) [of n] by (auto simp: e l_def smap_ok_def)
  moreover have "length l < 1023" using Cons.prems l by (simp add: e smap_ok_def)
  ultimately have "fgets_lines (smap_line e @ concat (map smap_line es)) = smap_line e # fgets_lines (concat (map smap_line es))"
    unfolding l by (rule fgets_line)
  then show ?case using Cons by simp
qed simp

text \<open>
  On a file of such lines the function returns the sum of the numbers of one field, in bytes.
\<close>

theorem smap_bytes_are_summed:
  assumes "\<forall>e \<in> set es. smap_ok field e"
  shows "zmalloc_get_smap_bytes_proc (Some (concat (map smap_line es))) field =
    sum_list (map (\<lambda>(name, k, n). if name = field then of_nat n * 1024 else 0) es)"
proof -
  have "map (line_bytes field) (map smap_line es) = map (\<lambda>(name, k, n). if name = field then of_nat n * 1024 else 0) es"
    using assms line_bytes_smap by auto
  then show ?thesis by (simp add: zmalloc_get_smap_bytes_proc_def fgets_smap [OF assms] del: map_map)
qed

theorem smap_bytes_are_summed_witness:
  "zmalloc_get_smap_bytes_proc (Some (concat (map smap_line [(''Rss:'', 3, 12), (''Private_Dirty:'', 5, 8), (''Private_Dirty:'', 5, 4)])))
     ''Private_Dirty:'' = 12288"
proof -
  have "\<forall>e \<in> set [(''Rss:'', 3, 12), (''Private_Dirty:'', 5, 8), (''Private_Dirty:'', 5, 4)]. smap_ok ''Private_Dirty:'' e"
    by code_simp
  from smap_bytes_are_summed [OF this] show ?thesis by simp
qed

end
