(* ===== verification/Spec2Isabelle.thy ===== *)
theory Spec2Isabelle
  imports ProxyReach ProxyFaults RingFault PathHash SdsSpec SdsBlocks SdsTests AeBlocks AeSelect AnetSafe
    ZmallocThreads ZmallocProc
begin

text \<open>
  A verification library for iceberg, which moves the data that Redis evicts to a file system.
  Two C programs do the work.  The \<^emph>\<open>proxy\<close> (\<^verbatim>\<open>src/proxy\<close>) stands between a Redis master and its
  slave: it passes the replication stream on, and when it sees the master delete a key it first
  asks the slave for the value and posts it to a file server and its backup.  The \<^emph>\<open>web server's
  library\<close> (\<^verbatim>\<open>src/nginx/c\<close>) finds the server and the path of a stored object: a consistent-hash
  ring over a red-black tree, and a path from the MD5 of the key.

  \<^bold>\<open>How the code is modelled.\<close>  Calls return an \<open>outcome\<close> (\<^verbatim>\<open>Prelude\<close>): a value or a fault, where
  \<open>Exit\<close> is the end of the process, \<open>Undefined\<close> what C leaves undefined (a write outside an array, a
  freed or null pointer), and \<open>Blocked\<close> a call that waits for ever.  A loop that need not end is a
  partial function with result \<open>None\<close>; that it ends is then proved.  Machine integers are words
  where the code depends on their width (MD5, string headers, allocator), otherwise integers with
  the wrap-around of \<open>int\<close> written out (\<open>i32\<close>).  Memory is explicit where aliasing or freeing
  matters: cells of the tree and nodes of the ring are a store from addresses, buffers are lists
  of bytes.  Libraries the sources only call (jansson, libcurl, GLib, the C library's allocator,
  the resolver, the kernel) are parameters, with what the code relies on as hypotheses.

  \<^bold>\<open>The proxy.\<close>
  \<^item> \<^verbatim>\<open>CirQueue\<close> (\<^verbatim>\<open>cir_queue.c\<close>): the queue of keys asked for; a simulation shows that it is a
    bounded first-in first-out queue.
  \<^item> \<^verbatim>\<open>HashTable\<close> (\<^verbatim>\<open>hash_table.c\<close>): the table from a server to its backup.  \<open>ht_hash\<close> starts from a
    variable that is not initialised; its values are a parameter.
  \<^item> \<^verbatim>\<open>Md5Core\<close>, \<^verbatim>\<open>Md5Proxy\<close> (\<^verbatim>\<open>md5.c\<close>, \<^verbatim>\<open>myhash.c\<close>): MD5 as RFC 1321 defines it, the streaming
    implementation of the proxy equal to it, and the server number made of the digest.
  \<^item> \<^verbatim>\<open>Ae\<close>, \<^verbatim>\<open>AeLoop\<close> (\<^verbatim>\<open>ae.c\<close>): the table of file events and the list of timers as maps
    (simulations), the interest set of the kernel, and the running loop over a record of handlers.
    \<^verbatim>\<open>AeBlocks\<close>: the memory and the descriptor a loop takes and gives back.  \<^verbatim>\<open>AeSelect\<close>
    (\<^verbatim>\<open>ae_select.c\<close>): the loop compiled with the other polling layer reports the same events.
  \<^item> \<^verbatim>\<open>Proxy\<close>, \<^verbatim>\<open>Io\<close>, \<^verbatim>\<open>Store\<close> (\<^verbatim>\<open>main.c\<close>, \<^verbatim>\<open>io.c\<close>, \<^verbatim>\<open>store.c\<close>, \<^verbatim>\<open>read_conf.c\<close>): the globals in one
    record, system calls that take their results from a list and leave a trace (a read that brings
    bytes is recorded with the size asked for), reading, writing, the common close, the choice of
    server and backup.
  \<^item> \<^verbatim>\<open>Parser\<close>, \<^verbatim>\<open>Chunks\<close> (\<^verbatim>\<open>parser.c\<close>): the parser of the slave's answers on arbitrary bytes; answers
    cut anywhere are stored under their keys, those longer than a chunk are lost.
  \<^item> \<^verbatim>\<open>LruedQuery\<close> (\<^verbatim>\<open>lrued_query.c\<close>): deletions found in the stream, with the commands cut between
    two chunks.  The array \<open>cmp\<close> is compared as a string but has no end: the byte behind it is a
    parameter, \<open>NUL\<close> or not, of the definitions and a case of the theorems.
  \<^item> \<^verbatim>\<open>Handlers\<close> (\<^verbatim>\<open>read_handler.c\<close>, \<^verbatim>\<open>event.c\<close>, \<^verbatim>\<open>main.c\<close>): the handlers of the connections, the
    timer, accept, start-up; the proxy is transparent while it captures.  A failed \<open>accept\<close> prints
    its error into a string literal, which is undefined.
  \<^item> \<^verbatim>\<open>ProxyLoop\<close>: the handlers in the loop.  One turn of \<open>aeProcessEvents\<close> carries a chunk of the
    stream and runs the due timers.  \<^verbatim>\<open>ProxyInv\<close>: a property closed under the primitive steps (a
    system call, the event table, the queue, the buffers, \<open>saveValue\<close>, \<open>closeFd\<close>) is kept by every
    handler.  \<^verbatim>\<open>ProxyReach\<close>: the states the running proxy reaches from \<open>main\<close>, the shape they all
    have, and, in the states between two events of one turn as well (\<open>in_turn\<close>), safe dispatch.  \<^verbatim>\<open>ProxyFaults\<close>: two ways the proxy loses its master for good.
  \<^item> \<^verbatim>\<open>Sds\<close>, \<^verbatim>\<open>SdsArgs\<close> (\<^verbatim>\<open>sds.c\<close>): dynamic strings as a header with its bytes.  \<^verbatim>\<open>SdsRep\<close>,
    \<^verbatim>\<open>SdsQuote\<close>, \<^verbatim>\<open>SdsTokens\<close>, \<^verbatim>\<open>SdsFormat\<close> show each operation on lists of bytes, \<^verbatim>\<open>SdsSpec\<close> the
    sequences of operations and the round trips, \<^verbatim>\<open>SdsBlocks\<close> who frees the tokens of a split;
    \<^verbatim>\<open>SdsTests\<close>: the test program of the file, which passes whatever the memory holds.
  \<^item> \<^verbatim>\<open>Zmalloc\<close> (\<^verbatim>\<open>zmalloc.c\<close>): the counting allocator, its count exact in every reachable
    state, and what a client owns of it.  \<^verbatim>\<open>ZmallocThreads\<close>: the count under every interleaving
    of threads.  \<^verbatim>\<open>ZmallocProc\<close>: the variants that read \<^verbatim>\<open>/proc\<close>.
  \<^item> \<^verbatim>\<open>Anet\<close>, \<^verbatim>\<open>AnetSafe\<close> (\<^verbatim>\<open>anet.c\<close>): the socket helpers and the descriptors they open, close, lose.

  \<^bold>\<open>The web server's library.\<close>
  \<^item> \<^verbatim>\<open>RbTree\<close> (\<^verbatim>\<open>util_rbtree.c\<close>): the tree in a store of cells, pointer by pointer.  \<^verbatim>\<open>RbRep\<close> relates
    it to a tree with its frame, \<^verbatim>\<open>RbInsert\<close>, \<^verbatim>\<open>RbDelFix\<close>, \<^verbatim>\<open>RbDelete\<close>, \<^verbatim>\<open>RbQuery\<close> prove insertion,
    deletion, search, traversal and the self-check; \<^verbatim>\<open>RbPayload\<close> that keys and data stay.
  \<^item> \<^verbatim>\<open>ConHash\<close> (\<^verbatim>\<open>conhash.c\<close>, \<^verbatim>\<open>conhash_inter.c\<close>, \<^verbatim>\<open>conhash_util.c\<close>): the ring.  \<^verbatim>\<open>Ring\<close> sees it as a
    list of positions with their owners, \<^verbatim>\<open>RingApi\<close> proves the calls, as an interpretation of the
    locale of consistent hashing, \<^verbatim>\<open>RingLife\<close> follows a ring from creation to disposal.
    \<^verbatim>\<open>RingFault\<close>: which insertions read the cell that the removal of the root leaves behind (those
    whose repair climbs to the root, \<open>insert_wf\<close> and \<open>insert_lost\<close> in \<^verbatim>\<open>RbInsert\<close>), and when.
  \<^item> \<^verbatim>\<open>Md5Deutsch\<close> (\<^verbatim>\<open>md5.c\<close>): the second MD5, equal to the first.
  \<^item> \<^verbatim>\<open>PathHash\<close> (\<^verbatim>\<open>hash.c\<close>): the path an object is written to is the path it is read from; whether
    \<open>calloc\<close> succeeds is an argument.

  \<^bold>\<open>Interfaces.\<close>  Each is a locale, interpreted on the definitions of the code.  \<open>simulation\<close>
  (\<^verbatim>\<open>Prelude\<close>): a step relation that refines an abstract one, for the queue, the event table and
  the timers.  \<open>kv_table\<close> (\<^verbatim>\<open>HashTable\<close>): what \<open>initHost\<close> and \<open>saveValue\<close> rely on of the table of
  backups.  \<open>md5_stream\<close> (\<^verbatim>\<open>Md5Core\<close>): a streaming digest, for both MD5 implementations.
  \<open>consistent_hash\<close> (\<^verbatim>\<open>RingApi\<close>): what adding and removing servers promise to the callers of the
  lookup.  \<open>string_builder\<close> (\<^verbatim>\<open>SdsQuote\<close>): what the loops over pieces need of the append.
  \<open>steady_timers\<close> (\<^verbatim>\<open>AeLoop\<close>): what the pass over the timers needs of the handlers, and what a beat
  does to the state.
  \<open>connection_invariant\<close>, \<open>handler_invariant\<close> (\<^verbatim>\<open>ProxyInv\<close>) and \<open>loop_invariant\<close> (\<^verbatim>\<open>ProxyReach\<close>), each
  an extension of the one before: the laws under which a property of the state survives a
  connection, a handler, a turn of the loop.

  \<^bold>\<open>Bounds and fuel.\<close>  The buffer of \<open>sdscatvprintf\<close> doubles at most 64 times before its length
  leaves \<open>size_t\<close>; texts below 4 GiB need at most 32.  The strings of the refinement stay below
  2 GiB, the bound from which the 32-bit fields wrap.  Everything else ends by a measure, by the
  answers of the kernel, or is proved to end.

  \<^bold>\<open>Not modelled.\<close>  Logging and messages; \<^verbatim>\<open>curlInit\<close> (the start-up of a library); the floating-point
  ratio and the variants of \<^verbatim>\<open>zmalloc.c\<close> for systems other than Linux; the identical copies \<^verbatim>\<open>ae_epoll.c\<close> (of
  the layer inside \<^verbatim>\<open>ae.c\<close>), \<^verbatim>\<open>proxy/util_rbtree.c\<close>, \<^verbatim>\<open>nginx/c/zmalloc.c\<close> and \<^verbatim>\<open>nginx/c/myhash\<close>; the
  test program of the web server, which prints timings.  The semaphore of the queue is modelled,
  threads only for the count of \<^verbatim>\<open>zmalloc.c\<close>: the proxy has one.
  The negation of the smallest \<open>long long\<close> in \<open>sdsll2str\<close> overflows in C; the model wraps, as
  compilers do.
\<close>

end
